(* ===== verification/Prelude.thy ===== *)
theory Prelude
  imports Main "HOL-Library.Word" "HOL-Library.Multiset"
begin

text \<open>
  Shared ground of the development: machine integers and addresses, the error values that stand
  for failed assertions and undefined reads, the result monad the operations are written in, and
  generic facts on searching lists, updating maps and splitting lists that the components share.
\<close>

section \<open>Machine types\<close>

type_synonym u8 = "8 word"
type_synonym u16 = "16 word"
type_synonym u32 = "32 word"
type_synonym u64 = "64 word"

text \<open>Raw pointers are 64-bit addresses; \<open>0\<close> is \<^verbatim>\<open>nullptr\<close>.\<close>

type_synonym addr = u64

section \<open>Errors and results\<close>

text \<open>
  Where the code aborts or its behaviour is undefined, the model returns an error value:
  \<^item> \<open>AssertFail\<close>: an \<^verbatim>\<open>ASSERT\<close> is violated;
  \<^item> \<open>BadOption\<close>: \<^verbatim>\<open>value()\<close> of an empty \<^verbatim>\<open>Option\<close>;
  \<^item> \<open>UninitRead\<close>: a value is read that was never written;
  \<^item> \<open>NullDeref\<close>: a null or dangling pointer is dereferenced;
  \<^item> \<open>BadCast\<close>: a \<^verbatim>\<open>raw_ptr_t\<close> is cast to the wrong node type;
  \<^item> \<open>OutOfRange\<close>: a container is accessed with \<^verbatim>\<open>at()\<close> out of range.
\<close>

datatype error = AssertFail | BadOption | UninitRead | NullDeref | BadCast | OutOfRange

type_synonym 'a res = "error + 'a"

named_theorems res_simps \<open>unfolding of the result monad\<close>

definition rbind :: "'a res \<Rightarrow> ('a \<Rightarrow> 'b res) \<Rightarrow> 'b res" where
  "rbind m f = (case m of Inl e \<Rightarrow> Inl e | Inr x \<Rightarrow> f x)"

definition cassert :: "bool \<Rightarrow> unit res" where
  "cassert b = (if b then Inr () else Inl AssertFail)"

definition opt_value :: "'a option \<Rightarrow> 'a res" where
  "opt_value x = (case x of None \<Rightarrow> Inl BadOption | Some y \<Rightarrow> Inr y)"

lemma rbind_simps [simp, res_simps]:
  "rbind (Inl e) f = Inl e" "rbind (Inr x) f = f x"
  by (simp_all add: rbind_def)

lemma rbind_Inr_iff [res_simps]: "rbind m f = Inr y \<longleftrightarrow> (\<exists>x. m = Inr x \<and> f x = Inr y)"
  by (cases m) auto

lemma cassert_simps [simp, res_simps]:
  "cassert True = Inr ()" "cassert False = Inl AssertFail"
  by (simp_all add: cassert_def)

lemma cassert_Inr_iff [res_simps]: "cassert b = Inr u \<longleftrightarrow> b"
  by (cases b) auto

lemma opt_value_simps [simp, res_simps]:
  "opt_value None = Inl BadOption" "opt_value (Some x) = Inr x"
  by (simp_all add: opt_value_def)

lemma opt_value_Inr_iff [res_simps]: "opt_value x = Inr y \<longleftrightarrow> x = Some y"
  by (cases x) auto

text \<open>
  A loop whose number of rounds is not fixed by its data takes fuel; \<open>None\<close> says that it ran out.
\<close>

definition fbind :: "'a res option \<Rightarrow> ('a \<Rightarrow> 'b res option) \<Rightarrow> 'b res option" where
  "fbind m f = (case m of None \<Rightarrow> None | Some (Inl e) \<Rightarrow> Some (Inl e) | Some (Inr x) \<Rightarrow> f x)"

lemma fbind_simps [simp, res_simps]:
  "fbind None f = None" "fbind (Some (Inl e)) f = Some (Inl e)" "fbind (Some (Inr x)) f = f x"
  by (simp_all add: fbind_def)

lemma fbind_Inr_iff [res_simps]:
  "fbind m f = Some (Inr y) \<longleftrightarrow> (\<exists>x. m = Some (Inr x) \<and> f x = Some (Inr y))"
  by (auto simp: fbind_def split: option.splits sum.splits)

lemma fbind_done [res_simps]: "fbind (Some m) (\<lambda>x. Some (g x)) = Some (rbind m g)"
  by (cases m) simp_all

section \<open>Searching an array from the left\<close>

text \<open>The loop \<^verbatim>\<open>for (i = 0; i < N; ++i) if (P(a[i])) return i;\<close> over an array.\<close>

fun find_from :: "('a \<Rightarrow> bool) \<Rightarrow> 'a list \<Rightarrow> nat \<Rightarrow> nat option" where
  "find_from P [] i = None"
| "find_from P (x # xs) i = (if P x then Some i else find_from P xs (Suc i))"

lemma find_from_None: "find_from P xs i = None \<longleftrightarrow> (\<forall>x\<in>set xs. \<not> P x)"
  by (induction xs arbitrary: i) auto

lemma find_from_Some_ge: "find_from P xs i = Some j \<Longrightarrow> i \<le> j"
  by (induction xs arbitrary: i) (fastforce split: if_splits)+

lemma find_from_SomeD:
  "find_from P xs i = Some j \<Longrightarrow>
    j - i < length xs \<and> P (xs ! (j - i)) \<and> (\<forall>l < j - i. \<not> P (xs ! l))"
proof (induction xs arbitrary: i)
  case Nil
  then show ?case by simp
next
  case (Cons x xs)
  show ?case
  proof (cases "P x")
    case True
    with Cons.prems show ?thesis by auto
  next
    case False
    with Cons.prems have f: "find_from P xs (Suc i) = Some j" by simp
    then have "Suc i \<le> j" by (rule find_from_Some_ge)
    then have s: "j - i = Suc (j - Suc i)" by simp
    have "\<forall>l < j - i. \<not> P ((x # xs) ! l)"
      using Cons.IH [OF f] False s by (auto simp: nth_Cons' less_Suc_eq_0_disj)
    with Cons.IH [OF f] s show ?thesis by simp
  qed
qed

lemma find_from_0_SomeD:
  "find_from P xs 0 = Some j \<Longrightarrow> j < length xs \<and> P (xs ! j) \<and> (\<forall>l < j. \<not> P (xs ! l))"
  using find_from_SomeD [of P xs 0 j] by simp

lemma find_from_0_exists:
  assumes "j < length xs" and "P (xs ! j)"
  obtains i where "find_from P xs 0 = Some i"
proof -
  have "find_from P xs 0 \<noteq> None"
    using assms by (auto simp: find_from_None)
  then show ?thesis using that by (cases "find_from P xs 0") auto
qed

lemma find_from_0_eqI:
  assumes "j < length xs" and "P (xs ! j)" and "\<And>l. l < j \<Longrightarrow> \<not> P (xs ! l)"
  shows "find_from P xs 0 = Some j"
proof -
  obtain i where i: "find_from P xs 0 = Some i" using assms(1,2) by (rule find_from_0_exists)
  then have "\<not> i < j" "\<not> j < i" using find_from_0_SomeD [OF i] assms by blast+
  then show ?thesis using i by simp
qed

section \<open>Lists and maps\<close>

lemma distinct_filter_nth:
  "(\<And>i j. i < length xs \<Longrightarrow> j < length xs \<Longrightarrow> xs ! i = xs ! j \<Longrightarrow> P (xs ! i) \<Longrightarrow> i = j) \<Longrightarrow>
    distinct (filter P xs)"
proof (induction xs)
  case (Cons x xs)
  have "i = j" if "i < length xs" "j < length xs" "xs ! i = xs ! j" "P (xs ! i)" for i j
    using Cons.prems [of "Suc i" "Suc j"] that by simp
  moreover have "x \<notin> set xs" if "P x"
  proof
    assume "x \<in> set xs"
    then obtain j where "j < length xs" "xs ! j = x" by (auto simp: in_set_conv_nth)
    then show False using Cons.prems [of 0 "Suc j"] that by simp
  qed
  ultimately show ?case using Cons.IH by simp
qed simp

lemma nth_list_update_if: "xs[i := x] ! j = (if i < length xs \<and> i = j then x else xs ! j)"
  by (cases "i < length xs") (auto simp: nth_list_update list_update_beyond)

lemma take_list_update_snoc:
  "i < length xs \<Longrightarrow> take (Suc i) (xs[i := x]) = take i xs @ [x]"
  by (simp add: take_Suc_conv_app_nth)

lemma map_add_same_dom: "dom f \<inter> dom g = {} \<Longrightarrow> f ++ g = g ++ f"
  by (rule map_add_comm)

lemma restrict_map_upd_outside: "k \<notin> A \<Longrightarrow> (m(k \<mapsto> v)) |` A = m |` A"
  by (auto simp: restrict_map_def)

lemma map_upd_None_restrict: "m(k := None) = m |` (- {k})"
  by (auto simp: restrict_map_def)

lemma map_upd_add_map_of:
  "k \<notin> dom (map_of kvs) \<Longrightarrow> m(k \<mapsto> v) ++ map_of kvs = m ++ map_of ((k, v) # kvs)"
  by (auto simp: fun_eq_iff map_add_def domIff split: option.splits)

text \<open>In a strictly sorted list the number of smaller elements is the position.\<close>

lemma sorted_distinct_card_less:
  assumes "sorted xs" and "distinct xs" and "m < length xs"
  shows "{x \<in> set xs. x < xs ! m} = set (take m xs)"
    and "{x \<in> set xs. xs ! m < x} = set (drop (Suc m) (xs :: 'a :: linorder list))"
proof -
  let ?a = "take m xs" and ?b = "drop (Suc m) xs" and ?x = "xs ! m"
  have split: "xs = ?a @ ?x # ?b"
    using assms(3) by (rule id_take_nth_drop)
  have "sorted_wrt (<) (?a @ ?x # ?b)"
    using assms(1,2) split by (simp add: strict_sorted_iff)
  then have less: "\<forall>y\<in>set ?a. y < ?x" and greater: "\<forall>y\<in>set ?b. ?x < y"
    by (auto simp: sorted_wrt_append)
  have set: "set xs = insert ?x (set ?a \<union> set ?b)"
    by (subst split) simp
  show "{x \<in> set xs. x < ?x} = set ?a"
    unfolding set using less greater by (auto dest: less_not_sym)
  show "{x \<in> set xs. ?x < x} = set ?b"
    unfolding set using less greater by (auto dest: less_not_sym)
qed

end
