(* ===== verification/KVTrait.thy ===== *)
theory KVTrait
  imports Prelude
begin

text \<open>
  The interfaces of the key-value code: \<^verbatim>\<open>KVTrait\<close> (\<^verbatim>\<open>kv_trait.hh\<close>), a store with \<^verbatim>\<open>get\<close> and
  \<^verbatim>\<open>insert\<close>, and \<^verbatim>\<open>KeyIterTrait\<close> (\<^verbatim>\<open>iter_trait.hh\<close>), an iterator over its keys, as locales with
  the laws their clients rely on: the loading loops of the servers, and the loops that sample,
  dispatch and train over all keys.
\<close>

section \<open>A store\<close>

text \<open>
  \<open>kv_inv n s\<close> says that the store is well formed and has room for \<open>n\<close> more keys. The array
  accepts keys in increasing order only, so that is what the contract promises.
\<close>

locale kv_trait =
  fixes kv_get :: "'s \<Rightarrow> 'k::linorder \<Rightarrow> 'v option res"
    and kv_insert :: "'s \<Rightarrow> 'k \<Rightarrow> 'v \<Rightarrow> 's res"
    and kv_inv :: "nat \<Rightarrow> 's \<Rightarrow> bool"
    and kv_map :: "'s \<Rightarrow> 'k \<rightharpoonup> 'v"
    and ok_key :: "'k \<Rightarrow> bool"
  assumes insert_next: "kv_inv (Suc n) s \<Longrightarrow> ok_key k \<Longrightarrow> (\<And>k'. k' \<in> dom (kv_map s) \<Longrightarrow> k' < k) \<Longrightarrow>
      \<exists>s'. kv_insert s k v = Inr s' \<and> kv_inv n s' \<and> kv_map s' = (kv_map s)(k \<mapsto> v)"
    and get_found: "kv_inv n s \<Longrightarrow> kv_map s \<noteq> Map.empty \<Longrightarrow> ok_key k \<Longrightarrow> kv_get s k = Inr (kv_map s k)"
begin

text \<open>Inserting a list of pairs in order.\<close>

fun load :: "'s \<Rightarrow> ('k \<times> 'v) list \<Rightarrow> 's res" where
  "load s [] = Inr s"
| "load s ((k, v) # kvs) = rbind (kv_insert s k v) (\<lambda>s'. load s' kvs)"

lemma load_append: "load s (xs @ ys) = rbind (load s xs) (\<lambda>s'. load s' ys)"
  by (induction xs arbitrary: s) (auto simp: rbind_def split: sum.splits)

lemma load_foldl:
  "foldl (\<lambda>acc kv. rbind acc (\<lambda>s. kv_insert s (fst kv) (snd kv))) (Inr s) kvs = load s kvs"
proof (induction kvs arbitrary: s)
  case (Cons kv kvs)
  have "foldl (\<lambda>acc kv. rbind acc (\<lambda>s. kv_insert s (fst kv) (snd kv))) (Inl e) kvs = Inl e" for e
    by (induction kvs) auto
  then show ?case using Cons by (cases kv, cases "kv_insert s (fst kv) (snd kv)") simp_all
qed simp

lemma load_sorted:
  assumes "kv_inv (n + length kvs) s" and "\<forall>k\<in>set (map fst kvs). ok_key k"
    and "sorted_wrt (<) (map fst kvs)" and "\<forall>k'\<in>dom (kv_map s). \<forall>k\<in>set (map fst kvs). k' < k"
  shows "\<exists>s'. load s kvs = Inr s' \<and> kv_inv n s' \<and> kv_map s' = kv_map s ++ map_of kvs"
  using assms
proof (induction kvs arbitrary: s)
  case (Cons kv kvs)
  obtain k v where kv: "kv = (k, v)" by (cases kv) auto
  have "\<And>k'. k' \<in> dom (kv_map s) \<Longrightarrow> k' < k" using Cons.prems(4) kv by simp
  moreover have "kv_inv (Suc (n + length kvs)) s" "ok_key k" using Cons.prems(1,2) kv by simp_all
  ultimately obtain s1 where s1: "kv_insert s k v = Inr s1" "kv_inv (n + length kvs) s1"
    "kv_map s1 = (kv_map s)(k \<mapsto> v)" using insert_next by blast
  have "\<forall>k'\<in>dom (kv_map s1). \<forall>k\<in>set (map fst kvs). k' < k"
    unfolding s1(3) using Cons.prems(3,4) kv by auto
  then obtain s2 where s2: "load s1 kvs = Inr s2" "kv_inv n s2" "kv_map s2 = kv_map s1 ++ map_of kvs"
    using Cons.IH [OF s1(2)] Cons.prems(2,3) kv by auto
  have "k \<notin> dom (map_of kvs)"
    using Cons.prems(3) kv by (auto simp: dom_map_of_conv_image_fst)
  then have "kv_map s2 = kv_map s ++ map_of (kv # kvs)"
    unfolding s2(3) s1(3) kv by (rule map_upd_add_map_of)
  moreover have "load s (kv # kvs) = Inr s2" using s1(1) s2(1) kv by simp
  ultimately show ?case using s2(2) by blast
qed simp

text \<open>After loading, every key is found with its value and no other key is found.\<close>

lemma load_get:
  assumes "kv_inv (n + length kvs) s" and "\<forall>k\<in>set (map fst kvs). ok_key k"
    and "sorted_wrt (<) (map fst kvs)" and "kv_map s = Map.empty" and "kvs \<noteq> []" and "ok_key q"
  shows "\<exists>s'. load s kvs = Inr s' \<and> kv_get s' q = Inr (map_of kvs q)"
proof -
  obtain s' where s': "load s kvs = Inr s'" "kv_inv n s'" "kv_map s' = map_of kvs"
    using load_sorted [OF assms(1-3)] assms(4) by auto
  have "map_of kvs \<noteq> Map.empty" using assms(5) by (cases kvs) auto
  then show ?thesis using s' get_found [OF s'(2) _ assms(6)] by simp
qed

end

text \<open>A store that accepts new keys in any order.\<close>

locale kv_trait_any = kv_trait +
  assumes insert_any: "kv_inv (Suc n) s \<Longrightarrow> ok_key k \<Longrightarrow> k \<notin> dom (kv_map s) \<Longrightarrow>
      \<exists>s'. kv_insert s k v = Inr s' \<and> kv_inv n s' \<and> kv_map s' = (kv_map s)(k \<mapsto> v)"
begin

lemma load_any:
  assumes "kv_inv (n + length kvs) s" and "\<forall>k\<in>set (map fst kvs). ok_key k"
    and "distinct (map fst kvs)" and "dom (kv_map s) \<inter> set (map fst kvs) = {}"
  shows "\<exists>s'. load s kvs = Inr s' \<and> kv_inv n s' \<and> kv_map s' = kv_map s ++ map_of kvs"
  using assms
proof (induction kvs arbitrary: s)
  case (Cons kv kvs)
  obtain k v where kv: "kv = (k, v)" by (cases kv) auto
  have "k \<notin> dom (kv_map s)" "kv_inv (Suc (n + length kvs)) s" "ok_key k"
    using Cons.prems(1,2,4) kv by auto
  then obtain s1 where s1: "kv_insert s k v = Inr s1" "kv_inv (n + length kvs) s1"
    "kv_map s1 = (kv_map s)(k \<mapsto> v)" using insert_any by blast
  have "dom (kv_map s1) \<inter> set (map fst kvs) = {}"
    unfolding s1(3) using Cons.prems(3,4) kv by auto
  then obtain s2 where s2: "load s1 kvs = Inr s2" "kv_inv n s2" "kv_map s2 = kv_map s1 ++ map_of kvs"
    using Cons.IH [OF s1(2)] Cons.prems(2,3) kv by auto
  have "k \<notin> dom (map_of kvs)"
    using Cons.prems(3) kv by (auto simp: dom_map_of_conv_image_fst)
  then have "kv_map s2 = kv_map s ++ map_of (kv # kvs)"
    unfolding s2(3) s1(3) kv by (rule map_upd_add_map_of)
  moreover have "load s (kv # kvs) = Inr s2" using s1(1) s2(1) kv by simp
  ultimately show ?case using s2(2) by blast
qed simp

end

section \<open>An iterator\<close>

text \<open>
  \<open>it_rep it xs\<close>: the iterator still has the pairs \<open>xs\<close> of key and opaque value in front of it.
\<close>

locale key_iter =
  fixes it_has_next :: "'it \<Rightarrow> bool"
    and it_next :: "'it \<Rightarrow> 'it res"
    and it_cur_key :: "'it \<Rightarrow> 'k res"
    and it_opaque_val :: "'it \<Rightarrow> u64 res"
    and it_rep :: "'it \<Rightarrow> ('k \<times> u64) list \<Rightarrow> bool"
  assumes has_next_rep: "it_rep it xs \<Longrightarrow> it_has_next it \<longleftrightarrow> xs \<noteq> []"
    and cur_rep: "it_rep it ((k, ov) # xs) \<Longrightarrow> it_cur_key it = Inr k"
    and opaque_rep: "it_rep it ((k, ov) # xs) \<Longrightarrow> it_opaque_val it = Inr ov"
    and next_rep: "it_rep it (x # xs) \<Longrightarrow> \<exists>it'. it_next it = Inr it' \<and> it_rep it' xs"
begin

text \<open>
  \<^verbatim>\<open>for (it.begin(); it.has_next(); it.next()) f(it.cur_key(), it.opaque_val())\<close>, with fuel.
\<close>

fun iterate :: "nat \<Rightarrow> ('k \<Rightarrow> u64 \<Rightarrow> 'a \<Rightarrow> 'a) \<Rightarrow> 'it \<Rightarrow> 'a \<Rightarrow> 'a res option" where
  "iterate 0 f it acc = None"
| "iterate (Suc n) f it acc =
     (if it_has_next it then
        (case it_cur_key it of
           Inl e \<Rightarrow> Some (Inl e)
         | Inr k \<Rightarrow>
            (case it_opaque_val it of
               Inl e \<Rightarrow> Some (Inl e)
             | Inr ov \<Rightarrow>
                (case it_next it of
                   Inl e \<Rightarrow> Some (Inl e)
                 | Inr it' \<Rightarrow> iterate n f it' (f k ov acc))))
      else Some (Inr acc))"

lemma iterate_rep:
  "it_rep it xs \<Longrightarrow> length xs < n \<Longrightarrow>
    iterate n f it acc = Some (Inr (foldl (\<lambda>a (k, ov). f k ov a) acc xs))"
proof (induction xs arbitrary: n it acc)
  case Nil
  then obtain n' where "n = Suc n'" by (cases n) auto
  with Nil has_next_rep show ?case by simp
next
  case (Cons x xs)
  obtain k ov where x: "x = (k, ov)" by (cases x) auto
  obtain n' where n: "n = Suc n'" using Cons.prems(2) by (cases n) auto
  obtain it' where it': "it_next it = Inr it'" "it_rep it' xs"
    using next_rep Cons.prems(1) by blast
  have "it_has_next it" using has_next_rep [OF Cons.prems(1)] by simp
  moreover have "it_cur_key it = Inr k" "it_opaque_val it = Inr ov"
    using cur_rep opaque_rep Cons.prems(1) unfolding x by blast+
  ultimately show ?case
    using it'(1) Cons.IH [OF it'(2), of n' "f k ov acc"] Cons.prems(2) by (simp add: n x)
qed

text \<open>The same loop, which collects the pairs and keeps the iterator it ends with.\<close>

fun walk :: "nat \<Rightarrow> 'it \<Rightarrow> (('k \<times> u64) list \<times> 'it) res option" where
  "walk 0 it = None"
| "walk (Suc n) it =
     (if it_has_next it then
        (case it_cur_key it of
           Inl e \<Rightarrow> Some (Inl e)
         | Inr k \<Rightarrow>
            (case it_opaque_val it of
               Inl e \<Rightarrow> Some (Inl e)
             | Inr ov \<Rightarrow>
                (case it_next it of
                   Inl e \<Rightarrow> Some (Inl e)
                 | Inr it' \<Rightarrow>
                    map_option (\<lambda>r. rbind r (\<lambda>(xs, it''). Inr ((k, ov) # xs, it''))) (walk n it'))))
      else Some (Inr ([], it)))"

lemma walk_rep:
  "it_rep it xs \<Longrightarrow> length xs < n \<Longrightarrow> \<exists>it'. walk n it = Some (Inr (xs, it')) \<and> it_rep it' []"
proof (induction xs arbitrary: n it)
  case Nil
  then obtain n' where "n = Suc n'" by (cases n) auto
  with Nil has_next_rep show ?case by simp
next
  case (Cons x xs)
  obtain k ov where x: "x = (k, ov)" by (cases x) auto
  obtain n' where n: "n = Suc n'" using Cons.prems(2) by (cases n) auto
  obtain it' where it': "it_next it = Inr it'" "it_rep it' xs"
    using next_rep Cons.prems(1) by blast
  have "it_has_next it" using has_next_rep [OF Cons.prems(1)] by simp
  moreover have "it_cur_key it = Inr k" "it_opaque_val it = Inr ov"
    using cur_rep opaque_rep Cons.prems(1) unfolding x by blast+
  ultimately show ?case
    using it'(1) Cons.IH [OF it'(2), of n'] Cons.prems(2) by (auto simp: n x)
qed

end


end
