(* ===== verification/FatPointer.thy ===== *)
theory FatPointer
  imports Prelude
begin

text \<open>
  Words that pack two fields: the fat pointer of variable-length values
  (\<^verbatim>\<open>xkv_core/src/lib.hh\<close>), 48 bits of address and 16 bits of size, and the logic address
  (\<^verbatim>\<open>xcache/src/logic_addr.hh\<close>), a page number times \<open>N\<close> plus a slot. The lemmas are the round
  trips and the order the encodings keep.
\<close>

unbundle bit_operations_syntax

section \<open>Bit masks\<close>

text \<open>\<^verbatim>\<open>bitmask<u64>\<close>; for a count of 0 the shift is by the whole width, masked out by the first factor.\<close>

definition bitmask :: "nat \<Rightarrow> u64" where
  "bitmask onecount =
     (if onecount \<noteq> 0 then - 1 else 0) AND drop_bit (64 - onecount) (- 1)"

lemma bitmask_mask: "n \<le> 64 \<Longrightarrow> bitmask n = mask n"
  by (rule bit_word_eqI) (auto simp: bitmask_def bit_simps)

section \<open>The fat pointer\<close>

definition kValBit :: nat where
  "kValBit = 16"

datatype fat_pointer = FatPtr (encoded_val: u64)

text \<open>The two asserts bound the address by 48 bits and the size by 16 bits.\<close>

definition FatPointer :: "addr \<Rightarrow> u32 \<Rightarrow> fat_pointer res" where
  "FatPointer real_ptr_v sz =
     rbind (cassert (real_ptr_v < push_bit (64 - kValBit) 1)) (\<lambda>_.
     rbind (cassert (sz < push_bit kValBit 1)) (\<lambda>_.
     Inr (FatPtr (push_bit kValBit real_ptr_v OR ucast sz))))"

definition as_u64 :: "fat_pointer \<Rightarrow> u64" where
  "as_u64 p = encoded_val p"

definition get_ptr :: "fat_pointer \<Rightarrow> addr" where
  "get_ptr p = drop_bit kValBit (encoded_val p)"

definition get_sz :: "fat_pointer \<Rightarrow> u32" where
  "get_sz p = ucast (encoded_val p AND bitmask kValBit)"

lemma less_push_bit_1:
  assumes "n < LENGTH('a)"
  shows "(w :: 'a::len word) < push_bit n 1 \<longleftrightarrow> take_bit n w = w"
proof -
  have "unat (push_bit n 1 :: 'a word) = 2 ^ n"
    using assms by (subst unsigned_push_bit_eq) (simp add: take_bit_of_exp)
  then have "w < push_bit n 1 \<longleftrightarrow> unat w < 2 ^ n" by (simp add: word_less_nat_alt)
  also have "\<dots> \<longleftrightarrow> take_bit n w = w"
    by (metis take_bit_nat_eq_self_iff unsigned_take_bit_eq word_unat_eq_iff)
  finally show ?thesis .
qed

lemma FatPointer_fields:
  assumes "FatPointer a sz = Inr p"
  shows "get_ptr p = a" and "get_sz p = sz" and "FatPtr (as_u64 p) = p"
proof -
  have "a < push_bit 48 1" "sz < push_bit 16 1"
    and p: "p = FatPtr (push_bit 16 a OR ucast sz)"
    using assms by (auto simp: FatPointer_def kValBit_def cassert_def rbind_def split: if_splits)
  then have a: "take_bit 48 a = a" and s: "take_bit 16 sz = sz"
    using less_push_bit_1 [of 48 a] less_push_bit_1 [of 16 sz] by simp_all
  have "bit a i \<Longrightarrow> i < 48" for i using a by (metis bit_take_bit_iff)
  moreover have s': "bit sz i \<Longrightarrow> i < 16" for i using s by (metis bit_take_bit_iff)
  ultimately show "get_ptr p = a"
    by (intro bit_word_eqI) (auto simp: p get_ptr_def kValBit_def bit_simps)
  show "get_sz p = sz"
    using s' by (intro bit_word_eqI) (auto simp: p get_sz_def kValBit_def bitmask_mask bit_simps)
  show "FatPtr (as_u64 p) = p" by (simp add: as_u64_def)
qed

lemma FatPointer_accepts:
  "unat a < 2 ^ 48 \<Longrightarrow> unat sz < 2 ^ 16 \<Longrightarrow> \<exists>p. FatPointer a sz = Inr p"
  by (simp add: FatPointer_def kValBit_def word_less_nat_alt)

section \<open>Logic addresses\<close>

definition encode_logic_addr :: "u64 \<Rightarrow> u64 \<Rightarrow> u64 \<Rightarrow> u64 res" where
  "encode_logic_addr N lid off = rbind (cassert (off < N)) (\<lambda>_. Inr (lid * N + off))"

definition decode_logic_id :: "u64 \<Rightarrow> u64 \<Rightarrow> u64" where
  "decode_logic_id N encoded = encoded div N"

definition decode_off :: "u64 \<Rightarrow> u64 \<Rightarrow> u64" where
  "decode_off N encoded = encoded mod N"

text \<open>Without overflow, an address is the number \<open>id * N + off\<close>, and decoding gives the parts back.\<close>

lemma unat_logic_addr:
  assumes "encode_logic_addr N i off = Inr e" and "unat i * unat N + unat off < 2 ^ 64"
  shows "unat e = unat i * unat N + unat off" and "off < N"
proof -
  show "off < N" using assms(1) by (auto simp: encode_logic_addr_def cassert_def split: if_splits)
  then have "e = i * N + off" using assms(1) by (simp add: encode_logic_addr_def)
  then show "unat e = unat i * unat N + unat off"
    using assms(2) by (simp add: unat_word_ariths)
qed

lemma decode_encode:
  assumes "encode_logic_addr N i off = Inr e" and "unat i * unat N + unat off < 2 ^ 64"
  shows "decode_logic_id N e = i" and "decode_off N e = off"
proof -
  note u = unat_logic_addr [OF assms]
  have "unat off < unat N" using u(2) by (simp add: word_less_nat_alt)
  then show "decode_logic_id N e = i" "decode_off N e = off"
    unfolding decode_logic_id_def decode_off_def
    by (simp_all add: word_unat_eq_iff unat_div unat_mod u(1))
qed

text \<open>The page number of an address never decreases with the address.\<close>

lemma decode_logic_id_mono: "a \<le> b \<Longrightarrow> decode_logic_id N a \<le> decode_logic_id N b"
  by (simp add: decode_logic_id_def word_le_nat_alt unat_div div_le_mono)

section \<open>Properties\<close>

text \<open>A fat pointer is accepted exactly when the address has 48 bits and the size 16, and then
  both are read back unchanged from its 64-bit image.\<close>

theorem fat_pointer_roundtrip:
  "(unat a < 2 ^ 48 \<and> unat sz < 2 ^ 16 \<longleftrightarrow> (\<exists>p. FatPointer a sz = Inr p)) \<and>
    (FatPointer a sz = Inr p \<longrightarrow> get_ptr (FatPtr (as_u64 p)) = a \<and> get_sz (FatPtr (as_u64 p)) = sz)"
proof (intro conjI impI)
  show "unat a < 2 ^ 48 \<and> unat sz < 2 ^ 16 \<longleftrightarrow> (\<exists>p. FatPointer a sz = Inr p)"
    by (auto simp: FatPointer_def kValBit_def word_less_nat_alt cassert_def)
  assume p: "FatPointer a sz = Inr p"
  note f = FatPointer_fields [OF p]
  show "get_ptr (FatPtr (as_u64 p)) = a" "get_sz (FatPtr (as_u64 p)) = sz"
    unfolding f(3) by (rule f)+
qed

theorem fat_pointer_roundtrip_witness:
  "get_ptr (FatPtr (as_u64 (FatPtr 0x1234000000000040))) = 0x123400000000"
proof -
  have "FatPointer 0x123400000000 0x40 = Inr (FatPtr 0x1234000000000040)"
    by (simp add: FatPointer_def kValBit_def cassert_def push_bit_eq_mult)
  from fat_pointer_roundtrip [THEN conjunct2, rule_format, OF this] show ?thesis by (rule conjunct1)
qed

text \<open>A logic address of a page and a slot below \<open>N\<close> decodes to that page and slot, and the
  addresses are ordered by page first and by slot within a page.\<close>

theorem logic_addr_order:
  assumes "encode_logic_addr N i off = Inr e" and "unat i * unat N + unat off < 2 ^ 64"
    and "encode_logic_addr N i' off' = Inr e'" and "unat i' * unat N + unat off' < 2 ^ 64"
  shows "decode_logic_id N e = i \<and> decode_off N e = off \<and> (e < e' \<longleftrightarrow> i < i' \<or> i = i' \<and> off < off')"
proof -
  note u = unat_logic_addr [OF assms(1,2)] and u' = unat_logic_addr [OF assms(3,4)]
  have o: "unat off < unat N" "unat off' < unat N" using u(2) u'(2) by (simp_all add: word_less_nat_alt)
  have lt: "x * unat N + unat a < y * unat N + unat b" if "x < y" "unat a < unat N"
    for x y and a b :: u64
  proof -
    have "Suc x * unat N \<le> y * unat N" using that(1) by (intro mult_le_mono1) simp
    with that(2) show ?thesis by simp
  qed
  have "e < e' \<longleftrightarrow> i < i' \<or> i = i' \<and> off < off'"
  proof (cases "unat i" "unat i'" rule: linorder_cases)
    case less
    with lt [OF less o(1), of off'] u(1) u'(1) show ?thesis by (simp add: word_less_nat_alt)
  next
    case equal
    then have "i = i'" by (rule word_unat_eq_iff [THEN iffD2])
    with u(1) u'(1) show ?thesis by (simp add: word_less_nat_alt)
  next
    case greater
    with lt [OF greater o(2), of off] u(1) u'(1) show ?thesis by (auto simp: word_less_nat_alt)
  qed
  with decode_encode [OF assms(1,2)] show ?thesis by blast
qed

theorem logic_addr_order_witness:
  "decode_logic_id 16 83 = (5 :: u64) \<and> decode_off 16 83 = 3 \<and> ((83 :: u64) < 97 \<longleftrightarrow> (5 :: u64) < 6 \<or> 5 = (6 :: u64) \<and> (3 :: u64) < 1)"
  by (rule logic_addr_order) (simp_all add: encode_logic_addr_def cassert_def)

end
