(* ===== verification/Samplers.thy ===== *)
theory Samplers
  imports KVTrait FatPointer
begin

text \<open>
  The samplers of \<^verbatim>\<open>xcache/src\<close> (\<^verbatim>\<open>sample_trait.hh\<close>, \<^verbatim>\<open>samplers/step_sampler.hh\<close>,
  \<^verbatim>\<open>samplers/page_sampler.hh\<close>), which decide the pairs of key and label that enter a training set.
  The lemmas give the pairs each of them keeps: all of them, every \<open>step\<close>-th one, or the first and
  the last of every page.
\<close>

section \<open>The default sampler\<close>

definition default_add_to :: "unit \<Rightarrow> 'k \<Rightarrow> u64 \<Rightarrow> 'k list \<Rightarrow> u64 list \<Rightarrow> (unit \<times> 'k list \<times> u64 list) res" where
  "default_add_to s k l t_set l_set = Inr (s, t_set @ [k], l_set @ [l])"

definition default_finalize :: "unit \<Rightarrow> 'k list \<Rightarrow> u64 list \<Rightarrow> (unit \<times> 'k list \<times> u64 list) res" where
  "default_finalize s t_set l_set = Inr (s, t_set, l_set)"

section \<open>The step sampler\<close>

record step_sampler =
  step :: nat
  cur_count :: nat

definition StepSampler :: "nat \<Rightarrow> step_sampler" where
  "StepSampler s = \<lparr>step = s, cur_count = 0\<rparr>"

definition step_add_to :: "step_sampler \<Rightarrow> 'k \<Rightarrow> u64 \<Rightarrow> 'k list \<Rightarrow> u64 list
    \<Rightarrow> (step_sampler \<times> 'k list \<times> u64 list) res" where
  "step_add_to s k l t_set l_set =
     (let (t1, l1) = (if cur_count s = 0 then (t_set @ [k], l_set @ [l]) else (t_set, l_set));
          s1 = s\<lparr>cur_count := cur_count s + 1\<rparr>;
          s2 = (if cur_count s1 = step s1 then s1\<lparr>cur_count := 0\<rparr> else s1)
      in Inr (s2, t1, l1))"

definition step_finalize :: "step_sampler \<Rightarrow> 'k list \<Rightarrow> u64 list \<Rightarrow> (step_sampler \<times> 'k list \<times> u64 list) res" where
  "step_finalize s t_set l_set = Inr (s, t_set, l_set)"

section \<open>The page sampler\<close>

record 'k page_sampler =
  min_key_in_page :: "'k option"
  min_key_label :: "u64 option"
  max_key_in_page :: "'k option"
  max_key_label :: "u64 option"

definition PageSampler :: "'k page_sampler" where
  "PageSampler = \<lparr>min_key_in_page = None, min_key_label = None, max_key_in_page = None, max_key_label = None\<rparr>"

definition add_cur :: "u64 \<Rightarrow> 'k page_sampler \<Rightarrow> 'k list \<Rightarrow> u64 list \<Rightarrow> ('k list \<times> u64 list) res" where
  "add_cur N s t_set l_set =
     rbind (case min_key_in_page s of
              Some k \<Rightarrow> rbind (opt_value (min_key_label s)) (\<lambda>l. Inr (t_set @ [k], l_set @ [l]))
            | None \<Rightarrow> Inr (t_set, l_set)) (\<lambda>(t1, l1).
     case max_key_in_page s of
       Some k \<Rightarrow>
         rbind (opt_value (max_key_label s)) (\<lambda>mx.
         rbind (opt_value (min_key_label s)) (\<lambda>mn.
         rbind (cassert (decode_logic_id N mx = decode_logic_id N mn)) (\<lambda>_.
         if decode_off N mn \<noteq> decode_off N mx then Inr (t1 @ [k], l1 @ [mx]) else Inr (t1, l1))))
     | None \<Rightarrow> Inr (t1, l1))"

definition page_add_to :: "u64 \<Rightarrow> 'k::linorder page_sampler \<Rightarrow> 'k \<Rightarrow> u64 \<Rightarrow> 'k list \<Rightarrow> u64 list
    \<Rightarrow> ('k page_sampler \<times> 'k list \<times> u64 list) res" where
  "page_add_to N s k l t_set l_set =
     (case min_key_in_page s of
        None \<Rightarrow> Inr (s\<lparr>min_key_in_page := Some k, min_key_label := Some l\<rparr>, t_set, l_set)
      | Some mk \<Rightarrow>
          rbind (opt_value (min_key_label s)) (\<lambda>ml.
          if decode_logic_id N l \<noteq> decode_logic_id N ml then
            rbind (add_cur N s t_set l_set) (\<lambda>(t1, l1).
            Inr (s\<lparr>min_key_in_page := Some k, min_key_label := Some l,
                   max_key_label := None, max_key_in_page := None\<rparr>, t1, l1))
          else
            let s1 = (if (case max_key_in_page s of None \<Rightarrow> True | Some xk \<Rightarrow> k > xk)
                      then s\<lparr>max_key_in_page := Some k, max_key_label := Some l\<rparr> else s);
                s2 = (if mk > k then s1\<lparr>min_key_in_page := Some k, min_key_label := Some l\<rparr> else s1)
            in Inr (s2, t_set, l_set)))"

definition page_finalize :: "u64 \<Rightarrow> 'k page_sampler \<Rightarrow> 'k list \<Rightarrow> u64 list
    \<Rightarrow> ('k page_sampler \<times> 'k list \<times> u64 list) res" where
  "page_finalize N s t_set l_set = rbind (add_cur N s t_set l_set) (\<lambda>(t1, l1). Inr (s, t1, l1))"

section \<open>Feeding a sampler\<close>

text \<open>The pairs are given to \<open>add\<close> in order, as the training loops do.\<close>

fun feed :: "('s \<Rightarrow> 'k \<Rightarrow> u64 \<Rightarrow> 'k list \<Rightarrow> u64 list \<Rightarrow> ('s \<times> 'k list \<times> u64 list) res)
    \<Rightarrow> 's \<Rightarrow> ('k \<times> u64) list \<Rightarrow> 'k list \<Rightarrow> u64 list \<Rightarrow> ('s \<times> 'k list \<times> u64 list) res" where
  "feed add s [] ts ls = Inr (s, ts, ls)"
| "feed add s ((k, l) # xs) ts ls = rbind (add s k l ts ls) (\<lambda>(s', ts', ls'). feed add s' xs ts' ls')"

text \<open>
  The contract the trainer relies on: the sampler never fails on a sequence with increasing keys,
  and what it keeps is \<open>keep\<close> of the sequence.
\<close>

locale sampler =
  fixes add :: "'s \<Rightarrow> 'k::linorder \<Rightarrow> u64 \<Rightarrow> 'k list \<Rightarrow> u64 list \<Rightarrow> ('s \<times> 'k list \<times> u64 list) res"
    and finalize :: "'s \<Rightarrow> 'k list \<Rightarrow> u64 list \<Rightarrow> ('s \<times> 'k list \<times> u64 list) res"
    and init :: 's
    and keep :: "('k \<times> u64) list \<Rightarrow> ('k \<times> u64) list"
  assumes sample: "sorted_wrt (<) (map fst xs) \<Longrightarrow> sorted_wrt (<) (map snd xs) \<Longrightarrow>
      \<exists>s'. rbind (feed add init xs [] []) (\<lambda>(s, ts, ls). finalize s ts ls) =
        Inr (s', map fst (keep xs), map snd (keep xs))"
    and keep_subset: "set (keep xs) \<subseteq> set xs"
begin

lemma sampled:
  assumes "sorted_wrt (<) (map fst xs)" and "sorted_wrt (<) (map snd xs)"
  obtains s ts ls s' where "feed add init xs [] [] = Inr (s, ts, ls)"
    and "finalize s ts ls = Inr (s', map fst (keep xs), map snd (keep xs))"
proof -
  obtain s' where "rbind (feed add init xs [] []) (\<lambda>(s, ts, ls). finalize s ts ls) =
      Inr (s', map fst (keep xs), map snd (keep xs))" using sample [OF assms] by blast
  then show ?thesis using that by (auto simp: rbind_Inr_iff)
qed

end

lemma default_feed:
  "feed default_add_to s xs ts ls = Inr (s, ts @ map fst xs, ls @ map snd xs)"
  by (induction xs arbitrary: ts ls) (auto simp: default_add_to_def)

interpretation default_sampler: sampler default_add_to default_finalize "()" "\<lambda>xs. xs"
  by unfold_locales (simp_all add: default_feed default_finalize_def)

text \<open>Every \<open>step\<close>-th pair, from the \<open>c\<close>-th one on.\<close>

fun every :: "nat \<Rightarrow> nat \<Rightarrow> 'a list \<Rightarrow> 'a list" where
  "every st c [] = []"
| "every st 0 (x # xs) = x # every st (st - 1) xs"
| "every st (Suc c) (x # xs) = every st c xs"

lemma every_nth:
  "every st c xs = map (\<lambda>i. xs ! i) (filter (\<lambda>i. c \<le> i \<and> st dvd (i - c)) [0..<length xs])" if "0 < st"
  using that
proof (induction xs arbitrary: c)
  case (Cons x xs)
  have up: "[0..<length (x # xs)] = 0 # map Suc [0..<length xs]"
    by (simp add: upt_conv_Cons map_Suc_upt del: upt_Suc)
  show ?case
  proof (cases c)
    case 0
    have "(st dvd Suc i) = (st - 1 \<le> i \<and> st dvd (i - (st - 1)))" for i
    proof
      assume d: "st dvd Suc i"
      then have le: "st \<le> Suc i" by (rule dvd_imp_le) simp
      then have "Suc i - st = i - (st - 1)" using Cons.prems by simp
      then show "st - 1 \<le> i \<and> st dvd (i - (st - 1))" using d le by (metis dvd_diff_nat dvd_refl le_diff_conv Suc_eq_plus1)
    next
      assume a: "st - 1 \<le> i \<and> st dvd (i - (st - 1))"
      have "st - 1 \<le> i" "0 < st" using a Cons.prems by simp_all
      then have "Suc i = (i - (st - 1)) + st" by arith
      then show "st dvd Suc i" using a by (metis dvd_add dvd_refl)
    qed
    then show ?thesis using Cons unfolding up 0 by (simp add: filter_map o_def)
  next
    case (Suc c')
    then show ?thesis using Cons unfolding up by (simp add: filter_map o_def)
  qed
qed simp

lemma every_subset: "set (every st c xs) \<subseteq> set xs"
  by (induction st c xs rule: every.induct) auto

lemma step_feed:
  assumes "0 < step s" and "cur_count s < step s"
  shows "\<exists>s'. feed step_add_to s xs ts ls =
    Inr (s', ts @ map fst (every (step s) (if cur_count s = 0 then 0 else step s - cur_count s) xs),
             ls @ map snd (every (step s) (if cur_count s = 0 then 0 else step s - cur_count s) xs))"
  using assms
proof (induction xs arbitrary: s ts ls)
  case (Cons x xs)
  obtain k l where x: "x = (k, l)" by (cases x) auto
  let ?s = "s\<lparr>cur_count := (if cur_count s + 1 = step s then 0 else cur_count s + 1)\<rparr>"
  have lt: "0 < step ?s" "cur_count ?s < step ?s" using Cons.prems by auto
  show ?case
  proof (cases "cur_count s = 0")
    case True
    have "step_add_to s k l ts ls = Inr (?s, ts @ [k], ls @ [l])"
      using True by (simp add: step_add_to_def)
    moreover have "(if cur_count ?s = 0 then 0 else step ?s - cur_count ?s) = step s - 1"
      using True Cons.prems by auto
    ultimately show ?thesis using Cons.IH [OF lt, of "ts @ [k]" "ls @ [l]"] True by (auto simp: x)
  next
    case False
    have "step_add_to s k l ts ls = Inr (?s, ts, ls)"
      using False by (simp add: step_add_to_def)
    moreover have "step s - cur_count s = Suc (if cur_count ?s = 0 then 0 else step ?s - cur_count ?s)"
      using False Cons.prems by auto
    ultimately show ?thesis using Cons.IH [OF lt, of ts ls] False by (auto simp: x)
  qed
qed simp

interpretation step_sampler: sampler step_add_to step_finalize "StepSampler (Suc n)" "every (Suc n) 0"
  for n :: nat
proof unfold_locales
  fix xs :: "('a \<times> u64) list"
  show "\<exists>s'. rbind (feed step_add_to (StepSampler (Suc n)) xs [] []) (\<lambda>(s, ts, ls). step_finalize s ts ls) =
      Inr (s', map fst (every (Suc n) 0 xs), map snd (every (Suc n) 0 xs))"
    using step_feed [of "StepSampler (Suc n)" xs "[]" "[]"] by (auto simp: StepSampler_def step_finalize_def)
  show "set (every (Suc n) 0 xs) \<subseteq> set xs" by (rule every_subset)
qed


text \<open>What the page sampler keeps: the pairs that are the first or the last of their page.\<close>

fun page_ends :: "u64 \<Rightarrow> u64 option \<Rightarrow> ('k \<times> u64) list \<Rightarrow> ('k \<times> u64) list" where
  "page_ends N prev [] = []"
| "page_ends N prev (x # xs) =
     (if prev \<noteq> Some (decode_logic_id N (snd x)) \<or>
         (case xs of [] \<Rightarrow> True | y # _ \<Rightarrow> decode_logic_id N (snd y) \<noteq> decode_logic_id N (snd x))
      then x # page_ends N (Some (decode_logic_id N (snd x))) xs
      else page_ends N (Some (decode_logic_id N (snd x))) xs)"

lemma page_ends_subset: "set (page_ends N prev xs) \<subseteq> set xs"
  by (induction xs arbitrary: prev) auto

lemma decode_off_neq:
  "decode_logic_id N a = decode_logic_id N b \<Longrightarrow> a \<noteq> b \<Longrightarrow> decode_off N a \<noteq> decode_off N b"
  unfolding decode_logic_id_def decode_off_def by (metis div_mult_mod_eq)

text \<open>The state between two pairs: the first pair \<open>x\<close> of the page and, if there is one, the last.\<close>

definition page_state :: "'k \<times> u64 \<Rightarrow> ('k \<times> u64) option \<Rightarrow> 'k page_sampler" where
  "page_state x mo = \<lparr>min_key_in_page = Some (fst x), min_key_label = Some (snd x),
     max_key_in_page = map_option fst mo, max_key_label = map_option snd mo\<rparr>"

definition page_pending :: "'k \<times> u64 \<Rightarrow> ('k \<times> u64) option \<Rightarrow> ('k \<times> u64) list" where
  "page_pending x mo = x # (case mo of None \<Rightarrow> [] | Some y \<Rightarrow> [y])"

definition page_last_ok :: "u64 \<Rightarrow> ('k::linorder \<times> u64) \<Rightarrow> ('k \<times> u64) option \<Rightarrow> bool" where
  "page_last_ok N x mo \<longleftrightarrow> (case mo of None \<Rightarrow> True | Some y \<Rightarrow>
     fst x < fst y \<and> snd x < snd y \<and> decode_logic_id N (snd y) = decode_logic_id N (snd x))"

lemma add_cur_page:
  "page_last_ok N x mo \<Longrightarrow> add_cur N (page_state x mo) ts ls =
    Inr (ts @ map fst (page_pending x mo), ls @ map snd (page_pending x mo))"
  using decode_off_neq [of N "snd x" "snd (the mo)"]
  by (cases mo) (simp_all add: add_cur_def page_state_def page_pending_def page_last_ok_def order_less_imp_not_eq)

lemma page_feed:
  assumes "sorted_wrt (<) (map fst (page_pending x mo @ xs))"
    and "sorted_wrt (<) (map snd (page_pending x mo @ xs))" and "page_last_ok N x mo"
  shows "\<exists>s'. rbind (feed (page_add_to N) (page_state x mo) xs ts ls) (\<lambda>(s, ts, ls). page_finalize N s ts ls) =
    Inr (s', ts @ map fst (x # (case mo of None \<Rightarrow> page_ends N (Some (decode_logic_id N (snd x))) xs
             | Some y \<Rightarrow> page_ends N (Some (decode_logic_id N (snd x))) (y # xs))),
         ls @ map snd (x # (case mo of None \<Rightarrow> page_ends N (Some (decode_logic_id N (snd x))) xs
             | Some y \<Rightarrow> page_ends N (Some (decode_logic_id N (snd x))) (y # xs))))"
  using assms
proof (induction xs arbitrary: x mo ts ls)
  case Nil
  then show ?case
    by (cases mo) (simp_all add: page_finalize_def add_cur_page page_pending_def page_last_ok_def)
next
  case (Cons z zs)
  obtain k l where z: "z = (k, l)" by (cases z) auto
  show ?case
  proof (cases "decode_logic_id N l = decode_logic_id N (snd x)")
    case True
    have "fst x < k" "case mo of None \<Rightarrow> True | Some y \<Rightarrow> fst y < k" "snd x < l"
      using Cons.prems(1,2) by (auto simp: z page_pending_def split: option.splits)
    then have "page_add_to N (page_state x mo) k l ts ls = Inr (page_state x (Some z), ts, ls)"
      using True by (cases mo) (auto simp: page_add_to_def page_state_def z Let_def dest: less_not_sym)
    moreover have "page_last_ok N x (Some z)" using True \<open>fst x < k\<close> \<open>snd x < l\<close> by (simp add: page_last_ok_def z)
    moreover have "sorted_wrt (<) (map fst (page_pending x (Some z) @ zs))"
      "sorted_wrt (<) (map snd (page_pending x (Some z) @ zs))"
      using Cons.prems(1,2) by (auto simp: page_pending_def split: option.splits)
    ultimately show ?thesis
      using Cons.IH [of x "Some z" ts ls] True Cons.prems(3)
      by (cases mo) (simp_all add: z page_last_ok_def)
  next
    case False
    have step: "page_add_to N (page_state x mo) k l ts ls =
        Inr (page_state z None, ts @ map fst (page_pending x mo), ls @ map snd (page_pending x mo))"
      using False add_cur_page [OF Cons.prems(3), of ts ls]
      by (simp add: page_add_to_def z) (simp add: page_state_def)
    have "sorted_wrt (<) (map fst (page_pending z None @ zs))"
      "sorted_wrt (<) (map snd (page_pending z None @ zs))"
      using Cons.prems(1,2) by (auto simp: page_pending_def split: option.splits)
    then show ?thesis
      using Cons.IH [of z None "ts @ map fst (page_pending x mo)" "ls @ map snd (page_pending x mo)"] step False Cons.prems(3)
      by (cases mo) (simp_all add: z page_last_ok_def page_pending_def)
  qed
qed

interpretation page_sampler: sampler "page_add_to N" "page_finalize N" PageSampler "page_ends N None"
  for N :: u64
proof unfold_locales
  fix xs :: "('a \<times> u64) list"
  assume s: "sorted_wrt (<) (map fst xs)" "sorted_wrt (<) (map snd xs)"
  show "\<exists>s'. rbind (feed (page_add_to N) PageSampler xs [] []) (\<lambda>(s, ts, ls). page_finalize N s ts ls) =
      Inr (s', map fst (page_ends N None xs), map snd (page_ends N None xs))"
  proof (cases xs)
    case Nil
    then show ?thesis by (simp add: page_finalize_def add_cur_def PageSampler_def)
  next
    case (Cons x xs')
    have "page_add_to N PageSampler (fst x) (snd x) [] [] = Inr (page_state x None, [], [])"
      by (simp add: page_add_to_def PageSampler_def page_state_def)
    then show ?thesis using page_feed [of x None xs' N "[]" "[]"] s Cons
      by (cases x) (simp add: page_pending_def page_last_ok_def)
  qed
qed (rule page_ends_subset)

section \<open>Properties\<close>

text \<open>A step sampler of step \<open>n + 1\<close> keeps exactly the pairs at the positions that are
  multiples of its step, in order.\<close>

theorem step_sampler_positions:
  "\<exists>s'. rbind (feed step_add_to (StepSampler (Suc n)) xs [] []) (\<lambda>(s, ts, ls). step_finalize s ts ls) =
    Inr (s', map (\<lambda>i. fst (xs ! i)) (filter (\<lambda>i. Suc n dvd i) [0..<length xs]),
         map (\<lambda>i. snd (xs ! i)) (filter (\<lambda>i. Suc n dvd i) [0..<length xs]))"
  using step_feed [of "StepSampler (Suc n)" xs "[]" "[]"]
  by (auto simp: StepSampler_def step_finalize_def every_nth o_def)

lemma page_ends_envelope:
  fixes xs :: "('k::linorder \<times> u64) list"
  assumes "sorted_wrt (<) (map fst xs)" and "x \<in> set xs"
  shows "(\<exists>b\<in>set (page_ends N prev xs). decode_logic_id N (snd b) = decode_logic_id N (snd x) \<and> fst x \<le> fst b) \<and>
    ((\<exists>a\<in>set (page_ends N prev xs). decode_logic_id N (snd a) = decode_logic_id N (snd x) \<and> fst a \<le> fst x) \<or>
     prev = Some (decode_logic_id N (snd x)))"
  using assms
proof (induction xs arbitrary: x prev)
  case (Cons y ys)
  let ?rest = "page_ends N (Some (decode_logic_id N (snd y))) ys"
  have sub: "set ?rest \<subseteq> set (page_ends N prev (y # ys))" by auto
  have s: "sorted_wrt (<) (map fst ys)" "\<forall>z\<in>set ys. fst y < fst z" using Cons.prems(1) by auto
  show ?case
  proof (cases "x = y")
    case False
    then have x: "x \<in> set ys" using Cons.prems(2) by simp
    note ih = Cons.IH [OF s(1) x, of "Some (decode_logic_id N (snd y))"]
    have "fst y \<le> fst x" using s(2) x by (simp add: less_imp_le)
    moreover have "y \<in> set (page_ends N prev (y # ys)) \<or> prev = Some (decode_logic_id N (snd y))" by simp
    ultimately have low: "decode_logic_id N (snd y) = decode_logic_id N (snd x) \<Longrightarrow>
        (\<exists>a\<in>set (page_ends N prev (y # ys)). decode_logic_id N (snd a) = decode_logic_id N (snd x) \<and> fst a \<le> fst x) \<or>
        prev = Some (decode_logic_id N (snd x))" by metis
    from ih obtain b where b: "b \<in> set ?rest" "decode_logic_id N (snd b) = decode_logic_id N (snd x)" "fst x \<le> fst b"
      by blast
    from ih consider (above) a where "a \<in> set ?rest" "decode_logic_id N (snd a) = decode_logic_id N (snd x)" "fst a \<le> fst x"
      | (first) "decode_logic_id N (snd y) = decode_logic_id N (snd x)" by blast
    then show ?thesis
    proof cases
      case above
      then show ?thesis using b sub by (meson subsetD)
    next
      case first
      from low [OF this] show ?thesis using b sub by (meson subsetD)
    qed
  next
    case True
    show ?thesis
    proof (cases "y \<in> set (page_ends N prev (y # ys))")
      case True
      then show ?thesis using \<open>x = y\<close> by auto
    next
      case no: False
      then have p: "prev = Some (decode_logic_id N (snd y))" by (auto split: if_splits)
      obtain z zs where z: "ys = z # zs" "decode_logic_id N (snd z) = decode_logic_id N (snd y)"
        using no by (cases ys) (auto split: if_splits)
      have yz: "fst y \<le> fst z" using s(2) z(1) by (simp add: less_imp_le)
      obtain b where b: "b \<in> set ?rest" "decode_logic_id N (snd b) = decode_logic_id N (snd z)" "fst z \<le> fst b"
        using Cons.IH [OF s(1), of z "Some (decode_logic_id N (snd y))"] z(1) by auto
      have "\<exists>b\<in>set ?rest. decode_logic_id N (snd b) = decode_logic_id N (snd y) \<and> fst y \<le> fst b"
        by (rule bexI [OF _ b(1)]) (use b(2) z(2) order_trans [OF yz b(3)] in simp)
      then show ?thesis using p sub \<open>x = y\<close> by blast
    qed
  qed
qed simp

text \<open>Fed with pairs of increasing keys and labels, the page sampler never fails; it keeps only
  pairs it was given, and of every page it keeps a pair below and a pair above (or equal to) each
  of the pairs of that page, so the kept pairs span every page.\<close>

theorem page_sampler_spans:
  assumes "sorted_wrt (<) (map fst xs)" and "sorted_wrt (<) (map snd xs)"
  shows "\<exists>s' kept. rbind (feed (page_add_to N) PageSampler xs [] []) (\<lambda>(s, ts, ls). page_finalize N s ts ls) =
      Inr (s', map fst kept, map snd kept) \<and> set kept \<subseteq> set xs \<and>
    (\<forall>x\<in>set xs. \<exists>a\<in>set kept. \<exists>b\<in>set kept.
       decode_logic_id N (snd a) = decode_logic_id N (snd x) \<and> decode_logic_id N (snd b) = decode_logic_id N (snd x) \<and>
       fst a \<le> fst x \<and> fst x \<le> fst b)"
proof -
  obtain s ts ls s' where "feed (page_add_to N) PageSampler xs [] [] = Inr (s, ts, ls)"
    "page_finalize N s ts ls = Inr (s', map fst (page_ends N None xs), map snd (page_ends N None xs))"
    using assms by (rule page_sampler.sampled)
  then have "rbind (feed (page_add_to N) PageSampler xs [] []) (\<lambda>(s, ts, ls). page_finalize N s ts ls) =
      Inr (s', map fst (page_ends N None xs), map snd (page_ends N None xs))" by simp
  then show ?thesis
    using page_ends_envelope [OF assms(1), of _ N None] page_ends_subset [of N None xs]
    by (intro exI [of _ s'] exI [of _ "page_ends N None xs"]) fast
qed

theorem page_sampler_spans_witness:
  "\<exists>s' kept. rbind (feed (page_add_to 4) PageSampler [(3 :: nat, 0), (5, 1), (6, 2), (9, 4)] [] [])
      (\<lambda>(s, ts, ls). page_finalize 4 s ts ls) = Inr (s', map fst kept, map snd kept) \<and>
    set kept \<subseteq> set [(3 :: nat, 0), (5, 1), (6, 2), (9, 4)] \<and>
    (\<forall>x\<in>set [(3 :: nat, 0), (5, 1), (6, 2), (9, 4)]. \<exists>a\<in>set kept. \<exists>b\<in>set kept.
       decode_logic_id 4 (snd a) = decode_logic_id 4 (snd x) \<and> decode_logic_id 4 (snd b) = decode_logic_id 4 (snd x) \<and>
       fst a \<le> fst x \<and> fst x \<le> fst b)"
  by (rule page_sampler_spans) simp_all

text \<open>\<open>finalize\<close> does not reset the page sampler: when the sampler is used for a second training
  set, the pair kept last for the first set enters the second one as soon as a key of another page
  comes.\<close>

theorem page_sampler_reused:
  assumes "decode_logic_id N l' \<noteq> decode_logic_id N l"
  shows "\<exists>s1 s2. rbind (feed (page_add_to N) PageSampler [(k, l)] [] []) (\<lambda>(s, ts, ls). page_finalize N s ts ls) =
      Inr (s1, [k], [l]) \<and> page_add_to N s1 k' l' [] [] = Inr (s2, [k], [l])"
  using assms
  by (simp add: page_add_to_def page_finalize_def add_cur_def PageSampler_def)

theorem page_sampler_reused_witness:
  "\<exists>s1 s2. rbind (feed (page_add_to 16) PageSampler [(3 :: nat, 33)] [] []) (\<lambda>(s, ts, ls). page_finalize 16 s ts ls) =
      Inr (s1, [3], [33]) \<and> page_add_to 16 s1 70 2 [] [] = Inr (s2, [3], [33])"
  by (rule page_sampler_reused) (simp add: decode_logic_id_def)

end
