(* ===== verification/Marshal.thy ===== *)
theory Marshal
  imports Prelude
begin

text \<open>
  The byte-level copies of \<^verbatim>\<open>xutils/marshal.hh\<close>. A type \<open>T\<close> that is copied with \<^verbatim>\<open>memcpy\<close> is
  given by its size and its byte image, the interface \<open>pod\<close>; integers are stored in little-endian
  order. The lemmas are the round trips of \<^verbatim>\<open>Marshal\<close> and of \<^verbatim>\<open>MarshalT\<close>, which puts the
  size in front.
\<close>

unbundle bit_operations_syntax

section \<open>Integers as bytes\<close>

fun le_bytes :: "nat \<Rightarrow> 'a::len word \<Rightarrow> u8 list" where
  "le_bytes 0 w = []"
| "le_bytes (Suc n) w = ucast w # le_bytes n (drop_bit 8 w)"

fun of_le_bytes :: "u8 list \<Rightarrow> 'a::len word" where
  "of_le_bytes [] = 0"
| "of_le_bytes (b # bs) = ucast b OR push_bit 8 (of_le_bytes bs)"

lemma length_le_bytes [simp]: "length (le_bytes n w) = n"
  by (induction n arbitrary: w) auto

lemma of_le_bytes_le_bytes: "of_le_bytes (le_bytes n w) = take_bit (8 * n) (w :: 'a::len word)"
proof (induction n arbitrary: w)
  case (Suc n)
  show ?case
    unfolding le_bytes.simps of_le_bytes.simps Suc.IH
    by (rule bit_word_eqI) (auto simp: bit_simps)
qed simp

lemma le_bytes_of_le_bytes:
  "8 * length bs \<le> LENGTH('a) \<Longrightarrow> le_bytes (length bs) (of_le_bytes bs :: 'a::len word) = bs"
proof (induction bs)
  case (Cons b bs)
  let ?r = "of_le_bytes bs :: 'a word"
  have len: "8 * length bs + 8 \<le> LENGTH('a)" using Cons.prems by simp
  have small: "bit ?r i \<Longrightarrow> i < 8 * length bs" for i
    using of_le_bytes_le_bytes [of "length bs" ?r] Cons by (metis bit_take_bit_iff add_leD1 len)
  have "ucast (ucast b OR push_bit 8 ?r) = b"
    using len by (intro bit_word_eqI) (auto simp: bit_simps)
  moreover have "drop_bit 8 (ucast b OR push_bit 8 ?r) = ?r"
    using len by (intro bit_word_eqI) (auto simp: bit_simps dest: small bit_imp_le_length)
  ultimately show ?case using Cons by simp
qed simp

lemma of_le_bytes_full: "LENGTH('a) \<le> 8 * n \<Longrightarrow> of_le_bytes (le_bytes n w) = (w :: 'a::len word)"
  by (simp add: of_le_bytes_le_bytes take_bit_word_eq_self)

section \<open>The interface of a plain type\<close>

locale pod =
  fixes sz :: nat
    and to_bytes :: "'t \<Rightarrow> u8 list"
    and of_bytes :: "u8 list \<Rightarrow> 't"
  assumes length_to_bytes: "length (to_bytes t) = sz"
    and of_to_bytes: "of_bytes (to_bytes t) = t"
    and to_of_bytes: "length bs = sz \<Longrightarrow> to_bytes (of_bytes bs) = bs"

section \<open>Marshal\<close>

definition serialize_into :: "nat \<Rightarrow> ('t \<Rightarrow> u8 list) \<Rightarrow> 't \<Rightarrow> u8 list \<Rightarrow> u8 list res" where
  "serialize_into sizeof_T to_bytes t s =
     rbind (cassert (length s \<ge> sizeof_T)) (\<lambda>_. Inr (to_bytes t @ drop sizeof_T s))"

definition serialize_to :: "nat \<Rightarrow> ('t \<Rightarrow> u8 list) \<Rightarrow> 't \<Rightarrow> u8 list res" where
  "serialize_to sizeof_T to_bytes t = serialize_into sizeof_T to_bytes t (replicate sizeof_T 0)"

text \<open>The result is the buffer and the position behind what was written.\<close>

definition unsafe_serialize :: "nat \<Rightarrow> ('t \<Rightarrow> u8 list) \<Rightarrow> 't \<Rightarrow> u8 list \<Rightarrow> nat
    \<Rightarrow> (u8 list \<times> nat) res" where
  "unsafe_serialize sizeof_T to_bytes t buf pos =
     (if pos + sizeof_T \<le> length buf
      then Inr (take pos buf @ to_bytes t @ drop (pos + sizeof_T) buf, pos + sizeof_T)
      else Inl OutOfRange)"

text \<open>\<open>buf\<close> is what lies behind the pointer; \<open>size\<close> is what the caller says its length is.\<close>

definition deserialize :: "nat \<Rightarrow> (u8 list \<Rightarrow> 't) \<Rightarrow> u8 list \<Rightarrow> nat \<Rightarrow> 't res" where
  "deserialize sizeof_T of_bytes buf size' =
     rbind (if size' < sizeof_T then cassert False else Inr ()) (\<lambda>_.
     if length buf < sizeof_T then Inl OutOfRange else Inr (of_bytes (take sizeof_T buf)))"

definition extract_with_inc :: "nat \<Rightarrow> (u8 list \<Rightarrow> 't) \<Rightarrow> u8 list \<Rightarrow> nat \<Rightarrow> ('t \<times> nat) res" where
  "extract_with_inc sizeof_T of_bytes buf pos =
     (if pos + sizeof_T \<le> length buf
      then Inr (of_bytes (take sizeof_T (drop pos buf)), pos + sizeof_T) else Inl OutOfRange)"

definition deserialize_opt :: "nat \<Rightarrow> (u8 list \<Rightarrow> 't) \<Rightarrow> u8 list \<Rightarrow> nat \<Rightarrow> 't option res" where
  "deserialize_opt sizeof_T of_bytes buf size' =
     (if size' < sizeof_T then Inr None
      else if length buf < sizeof_T then Inl OutOfRange
      else Inr (Some (of_bytes (take sizeof_T buf))))"

section \<open>MarshalT\<close>

text \<open>The packed struct \<^verbatim>\<open>_WrapperT\<close>: the size, then the payload.\<close>

definition wrapper_to_bytes :: "('t \<Rightarrow> u8 list) \<Rightarrow> u64 \<times> 't \<Rightarrow> u8 list" where
  "wrapper_to_bytes to_bytes w = le_bytes 8 (fst w) @ to_bytes (snd w)"

definition wrapper_of_bytes :: "(u8 list \<Rightarrow> 't) \<Rightarrow> u8 list \<Rightarrow> u64 \<times> 't" where
  "wrapper_of_bytes of_bytes bs = (of_le_bytes (take 8 bs), of_bytes (drop 8 bs))"

definition marshalT_serialize :: "nat \<Rightarrow> ('t \<Rightarrow> u8 list) \<Rightarrow> 't \<Rightarrow> u8 list res" where
  "marshalT_serialize sizeof_T to_bytes t =
     serialize_to (8 + sizeof_T) (wrapper_to_bytes to_bytes) (of_nat sizeof_T, t)"

definition marshalT_deserialize :: "nat \<Rightarrow> (u8 list \<Rightarrow> 't) \<Rightarrow> u8 list \<Rightarrow> 't option res" where
  "marshalT_deserialize sizeof_T of_bytes d =
     rbind (deserialize_opt (8 + sizeof_T) (wrapper_of_bytes of_bytes) d (length d)) (\<lambda>r.
     Inr (case r of Some w \<Rightarrow> Some (snd w) | None \<Rightarrow> None))"

section \<open>Round trips\<close>

context pod
begin

lemma serialize_to_eq: "serialize_to sz to_bytes t = Inr (to_bytes t)"
  by (simp add: serialize_to_def serialize_into_def)

lemma deserialize_prefix:
  "sz \<le> size' \<Longrightarrow> deserialize sz of_bytes (to_bytes t @ rest) size' = Inr t"
  by (simp add: deserialize_def length_to_bytes of_to_bytes)

lemma deserialize_image:
  "deserialize sz of_bytes buf size' = Inr t \<Longrightarrow> take sz buf = to_bytes t \<and> sz \<le> length buf"
  by (auto simp: deserialize_def to_of_bytes split: if_splits)

lemma deserialize_opt_prefix:
  "sz \<le> size' \<Longrightarrow> deserialize_opt sz of_bytes (to_bytes t @ rest) size' = Inr (Some t)"
  by (simp add: deserialize_opt_def length_to_bytes of_to_bytes)

text \<open>What is written at a position is read there, and the rest of the buffer is unchanged.\<close>

lemma extract_unsafe_serialize:
  assumes "unsafe_serialize sz to_bytes t buf p = Inr (buf', p')"
  shows "extract_with_inc sz of_bytes buf' p = Inr (t, p')" and "length buf' = length buf"
    and "take p buf' = take p buf" and "drop p' buf' = drop p' buf"
  using assms
  by (auto simp: unsafe_serialize_def extract_with_inc_def length_to_bytes of_to_bytes split: if_splits)

lemma marshalT_roundtrip:
  assumes "marshalT_serialize sz to_bytes t = Inr d"
  shows "marshalT_deserialize sz of_bytes (d @ rest) = Inr (Some t)" and "length d = 8 + sz"
proof -
  have d: "d = le_bytes 8 (of_nat sz :: u64) @ to_bytes t"
    using assms by (simp add: marshalT_serialize_def serialize_to_def serialize_into_def wrapper_to_bytes_def)
  show "marshalT_deserialize sz of_bytes (d @ rest) = Inr (Some t)"
    by (simp add: d marshalT_deserialize_def deserialize_opt_def wrapper_of_bytes_def length_to_bytes
        of_to_bytes)
  show "length d = 8 + sz" by (simp add: d length_to_bytes)
qed

lemma marshalT_short: "length d < 8 + sz \<Longrightarrow> marshalT_deserialize sz of_bytes d = Inr None"
  by (simp add: marshalT_deserialize_def deserialize_opt_def)

end

interpretation pod_u64: pod 8 "le_bytes 8 :: u64 \<Rightarrow> u8 list" of_le_bytes
proof unfold_locales
  fix bs :: "u8 list" assume l: "length bs = 8"
  then show "le_bytes 8 (of_le_bytes bs :: u64) = bs"
    using le_bytes_of_le_bytes [of bs, where ?'a = 64] by (simp del: le_bytes.simps of_le_bytes.simps)
qed (simp_all add: of_le_bytes_full del: le_bytes.simps of_le_bytes.simps)

interpretation pod_u32: pod 4 "le_bytes 4 :: u32 \<Rightarrow> u8 list" of_le_bytes
proof unfold_locales
  fix bs :: "u8 list" assume l: "length bs = 4"
  then show "le_bytes 4 (of_le_bytes bs :: u32) = bs"
    using le_bytes_of_le_bytes [of bs, where ?'a = 32] by (simp del: le_bytes.simps of_le_bytes.simps)
qed (simp_all add: of_le_bytes_full del: le_bytes.simps of_le_bytes.simps)

section \<open>Properties\<close>

text \<open>A value written into a buffer at a position is read back from that position, both moves
  end at the same place, and no other byte of the buffer changes; a write past the end is refused.\<close>

theorem marshal_in_place:
  "(p + 8 \<le> length buf \<longrightarrow>
      (\<exists>buf'. unsafe_serialize 8 (le_bytes 8) (v :: u64) buf p = Inr (buf', p + 8) \<and>
        extract_with_inc 8 of_le_bytes buf' p = Inr (v, p + 8) \<and> length buf' = length buf \<and>
        take p buf' = take p buf \<and> drop (p + 8) buf' = drop (p + 8) buf)) \<and>
    (\<not> p + 8 \<le> length buf \<longrightarrow> unsafe_serialize 8 (le_bytes 8) v buf p = Inl OutOfRange)"
proof (intro conjI impI)
  assume "p + 8 \<le> length buf"
  then obtain buf' where w: "unsafe_serialize 8 (le_bytes 8) v buf p = Inr (buf', p + 8)"
    by (simp add: unsafe_serialize_def)
  with pod_u64.extract_unsafe_serialize [OF w]
  show "\<exists>buf'. unsafe_serialize 8 (le_bytes 8) v buf p = Inr (buf', p + 8) \<and>
      extract_with_inc 8 of_le_bytes buf' p = Inr (v, p + 8) \<and> length buf' = length buf \<and>
      take p buf' = take p buf \<and> drop (p + 8) buf' = drop (p + 8) buf" by blast
qed (simp add: unsafe_serialize_def)

theorem marshal_in_place_witness:
  "\<exists>buf'. unsafe_serialize 8 (le_bytes 8) (258 :: u64) (replicate 12 7) 2 = Inr (buf', 2 + 8) \<and>
    extract_with_inc 8 of_le_bytes buf' 2 = Inr (258 :: u64, 2 + 8) \<and> length buf' = length (replicate 12 (7 :: u8)) \<and>
    take 2 buf' = take 2 (replicate 12 7) \<and> drop (2 + 8) buf' = drop (2 + 8) (replicate 12 7)"
  by (rule marshal_in_place [THEN conjunct1, rule_format]) simp

text \<open>\<^verbatim>\<open>MarshalT\<close> reads back what it wrote, also when more bytes follow, and answers with nothing
  on input that is too short.\<close>

theorem marshalT_roundtrip_u64:
  "\<exists>d. marshalT_serialize 8 (le_bytes 8) (v :: u64) = Inr d \<and> length d = 16 \<and>
     marshalT_deserialize 8 of_le_bytes (d @ rest) = Inr (Some v) \<and>
     (\<forall>n<16. marshalT_deserialize 8 of_le_bytes (take n d) = (Inr None :: u64 option res))"
proof -
  obtain d where d: "marshalT_serialize 8 (le_bytes 8) v = Inr d"
    by (simp add: marshalT_serialize_def serialize_to_def serialize_into_def wrapper_to_bytes_def)
  note r = pod_u64.marshalT_roundtrip [OF d]
  have "marshalT_deserialize 8 of_le_bytes (take n d) = (Inr None :: u64 option res)" if "n < 16" for n
    by (rule pod_u64.marshalT_short) (use that r(2) in simp)
  with d r show ?thesis by auto
qed

theorem marshalT_roundtrip_u64_witness:
  "\<exists>d. marshalT_serialize 8 (le_bytes 8) (77 :: u64) = Inr d \<and> length d = 16 \<and>
     marshalT_deserialize 8 of_le_bytes (d @ [1, 2]) = Inr (Some (77 :: u64)) \<and>
     (\<forall>n<16. marshalT_deserialize 8 of_le_bytes (take n d) = (Inr None :: u64 option res))"
  by (rule marshalT_roundtrip_u64)

end
