(* ===== verification/KeyTypes.thy ===== *)
theory KeyTypes
  imports Prelude
begin

text \<open>
  The key types of the store (\<^verbatim>\<open>lib.hh\<close>, and the benchmark keys \<^verbatim>\<open>ARKey\<close> and \<^verbatim>\<open>TPCCKey\<close>).
  The templates of the key-value code are written over any key with a total order, a least key
  \<^verbatim>\<open>min()\<close> and a greatest key \<^verbatim>\<open>max()\<close>: the sort \<open>{linorder, order_bot, order_top}\<close>.
  The reserved key \<^verbatim>\<open>K(kInvalidKey)\<close> is built from \<^verbatim>\<open>numeric_limits<u64>::max()\<close>, which is
  \<^verbatim>\<open>max()\<close> of the key type, so it is \<open>top\<close> in the model.
\<close>

section \<open>The default key\<close>

definition kInvalidKey :: u64 where
  "kInvalidKey = - 1"

datatype xkey = XKey (xd: u64)

text \<open>The least and the greatest key, and the comparisons, one definition for each operator of the struct.\<close>

definition xkey_min :: "xkey" where
  "xkey_min = XKey 0"

definition xkey_max :: "xkey" where
  "xkey_max = XKey (- 1)"

definition xkey_eq :: "xkey \<Rightarrow> xkey \<Rightarrow> bool" where
  "xkey_eq a b \<longleftrightarrow> xd a = xd b"

definition xkey_ge :: "xkey \<Rightarrow> xkey \<Rightarrow> bool" where
  "xkey_ge a b \<longleftrightarrow> xd a \<ge> xd b"

definition xkey_le :: "xkey \<Rightarrow> xkey \<Rightarrow> bool" where
  "xkey_le a b \<longleftrightarrow> xd a \<le> xd b"

definition xkey_ne :: "xkey \<Rightarrow> xkey \<Rightarrow> bool" where
  "xkey_ne a b \<longleftrightarrow> xd a \<noteq> xd b"

definition xkey_lt :: "xkey \<Rightarrow> xkey \<Rightarrow> bool" where
  "xkey_lt a b \<longleftrightarrow> xd a < xd b"

definition xkey_gt :: "xkey \<Rightarrow> xkey \<Rightarrow> bool" where
  "xkey_gt a b \<longleftrightarrow> xd a > xd b"

instantiation xkey :: "{linorder, order_bot, order_top}"
begin

definition less_xkey :: "xkey \<Rightarrow> xkey \<Rightarrow> bool" where
  "less_xkey = xkey_lt"

definition less_eq_xkey :: "xkey \<Rightarrow> xkey \<Rightarrow> bool" where
  "less_eq_xkey a b \<longleftrightarrow> xkey_le a b"

definition bot_xkey :: xkey where
  "bot_xkey = xkey_min"

definition top_xkey :: xkey where
  "top_xkey = xkey_max"

instance
  by standard (auto simp: less_xkey_def less_eq_xkey_def bot_xkey_def top_xkey_def
      xkey_lt_def xkey_le_def xkey_min_def xkey_max_def intro: xkey.expand)

end

text \<open>The operators of the code are those of the classes.\<close>

lemmas xkey_defs = less_xkey_def less_eq_xkey_def bot_xkey_def top_xkey_def
  xkey_lt_def xkey_le_def xkey_min_def xkey_max_def

lemma xkey_operators:
  "xkey_eq a b \<longleftrightarrow> a = b" "xkey_ne a b \<longleftrightarrow> a \<noteq> b" "xkey_lt a b \<longleftrightarrow> a < b" "xkey_gt a b \<longleftrightarrow> b < a"
  "xkey_ge a b \<longleftrightarrow> b \<le> a" "xkey_le a b \<longleftrightarrow> a \<le> b"
  by (auto simp: xkey_defs xkey_eq_def xkey_ne_def xkey_gt_def xkey_ge_def intro: xkey.expand)

definition from_u64_impl :: "xkey \<Rightarrow> u64 \<Rightarrow> xkey" where
  "from_u64_impl k d = XKey d"

definition to_u64_impl :: "xkey \<Rightarrow> u64" where
  "to_u64_impl k = xd k"

definition to_scalar_impl :: "xkey \<Rightarrow> u64" where
  "to_scalar_impl k = xd k"

lemma XKey_kInvalidKey: "XKey kInvalidKey = top"
  by (simp add: kInvalidKey_def xkey_defs)

lemma xkey_from_to_u64: "from_u64_impl k' (to_u64_impl k) = k"
  by (simp add: from_u64_impl_def to_u64_impl_def)

lemma xkey_less_code [simp]: "XKey a < XKey b \<longleftrightarrow> a < b" "XKey a \<le> XKey b \<longleftrightarrow> a \<le> b"
  by (simp_all add: xkey_defs)

lemma xkey_top_iff [simp]: "XKey a = top \<longleftrightarrow> a = - 1" "top = XKey a \<longleftrightarrow> a = - 1"
  by (auto simp: xkey_defs)

end
