(* ===== verification/XModel.thy ===== *)
theory XModel
  imports Marshal FatPointer KeyTypes Complex_Main
begin

text \<open>
  The learned models of \<^verbatim>\<open>x_ml\<close>: the linear model \<open>LR\<close> (\<^verbatim>\<open>x_ml/src/lr/mod.hh\<close>) and its bounded
  variant \<open>MLR\<close> (\<^verbatim>\<open>lr/mlr.hh\<close>), the submodel \<open>XSubModel\<close> with its error bounds
  (\<^verbatim>\<open>x_ml/src/xmodel.hh\<close>), and the functions that update the bounds during training. The lemmas
  show that after training the predicted range of every training key contains its label, or its
  page, and that a submodel survives serialization.

  A \<^verbatim>\<open>double\<close> is stored as its 64-bit pattern; its value and the rounding of an arithmetic result
  are the parameters \<open>dval\<close> and \<open>rnd\<close>. The solver of MKL is a parameter as well.
\<close>

section \<open>C integers\<close>

definition to_i32 :: "int \<Rightarrow> int" where
  "to_i32 x = signed_take_bit 31 x"

definition to_i64 :: "int \<Rightarrow> int" where
  "to_i64 x = signed_take_bit 63 x"

lemma to_i32_id: "- (2 ^ 31) \<le> x \<Longrightarrow> x < 2 ^ 31 \<Longrightarrow> to_i32 x = x"
  by (simp add: to_i32_def signed_take_bit_int_eq_self)

lemma to_i64_id: "- (2 ^ 63) \<le> x \<Longrightarrow> x < 2 ^ 63 \<Longrightarrow> to_i64 x = x"
  by (simp add: to_i64_def signed_take_bit_int_eq_self)

lemma to_i_small:
  assumes "- (2 ^ 30) \<le> x" and "x < 2 ^ 30"
  shows "to_i64 x = x" "to_i32 x = x"
  using assms by (simp_all add: to_i64_id to_i32_id)

text \<open>A \<^verbatim>\<open>double\<close> is truncated towards zero; a value that does not fit in an \<^verbatim>\<open>int\<close> has no result.\<close>

definition double_to_int :: "real \<Rightarrow> int res" where
  "double_to_int r =
     (let t = (if 0 \<le> r then \<lfloor>r\<rfloor> else \<lceil>r\<rceil>)
      in if - (2 ^ 31) \<le> t \<and> t < 2 ^ 31 then Inr t else Inl OutOfRange)"

text \<open>
  What the code needs of the rounding: it is monotone and leaves the integers it meets alone, which
  holds for \<^verbatim>\<open>double\<close> below \<open>2 ^ 53\<close>.
\<close>

definition rounding :: "(real \<Rightarrow> real) \<Rightarrow> bool" where
  "rounding rnd \<longleftrightarrow> mono rnd \<and> (\<forall>n. n \<le> 2 ^ 53 \<longrightarrow> rnd (real n) = real n)"

lemma rounding_simps:
  assumes "rounding rnd"
  shows "x \<le> y \<Longrightarrow> rnd x \<le> rnd y" "n \<le> 2 ^ 53 \<Longrightarrow> rnd (real n) = real n" "rnd 0 = 0" "rnd 1 = 1"
proof -
  have "rnd (real 0) = real 0" "rnd (real 1) = real 1" using assms unfolding rounding_def by (meson zero_le one_le_numeral one_le_power)+
  then show "rnd 0 = 0" "rnd 1 = 1" by simp_all
qed (use assms in \<open>auto simp: rounding_def mono_def\<close>)

section \<open>The model interface\<close>

text \<open>
  \<^verbatim>\<open>MLTrait\<close> (\<^verbatim>\<open>x_ml/src/ml_trait.hh\<close>): prediction, training, and serialization, of which the clients
  use that a deserialized model is the model that was serialized.
\<close>

locale ml_trait =
  fixes ml_serialize :: "'m \<Rightarrow> u8 list res"
    and ml_from_serialize :: "'m \<Rightarrow> u8 list \<Rightarrow> 'm res"
    and ml_sz :: nat
  assumes serialize_ok: "\<exists>d. ml_serialize m = Inr d \<and> length d = ml_sz"
    and from_serialize_ok: "ml_serialize m = Inr d \<Longrightarrow> ml_from_serialize m0 d = Inr m"

section \<open>Linear regression\<close>

record lr =
  lr_w :: u64
  lr_b :: u64

definition LR :: lr where
  "LR = \<lparr>lr_w = 0, lr_b = 0\<rparr>"

definition lr_predict :: "(u64 \<Rightarrow> real) \<Rightarrow> (real \<Rightarrow> real) \<Rightarrow> ('k \<Rightarrow> real) \<Rightarrow> lr \<Rightarrow> 'k \<Rightarrow> real" where
  "lr_predict dval rnd to_scalar m key = rnd (rnd (to_scalar key * dval (lr_w m)) + dval (lr_b m))"

text \<open>
  The rows given to the solver: every \<open>step\<close>-th key with its label, for \<open>step \<ge> 1\<close>, and the
  second one as well, by its first feature, when that leaves a single row. \<open>dgels A B\<close> is the solver; its result is the
  first two entries of \<open>B\<close>.
\<close>

definition lr_rows :: "(real \<Rightarrow> real) \<Rightarrow> ('k \<Rightarrow> real) \<Rightarrow> ('k \<Rightarrow> real) \<Rightarrow> 'k list \<Rightarrow> u64 list \<Rightarrow> nat
    \<Rightarrow> (real \<times> real) list" where
  "lr_rows rnd to_scalar feature0 train_data train_label step =
     (let label = (\<lambda>i. rnd (real (unat (train_label ! i))));
          rows = map (\<lambda>i. (to_scalar (train_data ! i), label i))
            (filter (\<lambda>i. step dvd i) [0..<length train_data])
      in if length rows = 1 then rows @ [(feature0 (train_data ! 1), label 1)] else rows)"

definition lr_train :: "((real \<times> real) list \<Rightarrow> u64 \<times> u64) \<Rightarrow> (real \<Rightarrow> real) \<Rightarrow> ('k \<Rightarrow> real)
    \<Rightarrow> ('k \<Rightarrow> real) \<Rightarrow> lr \<Rightarrow> 'k list \<Rightarrow> u64 list \<Rightarrow> nat \<Rightarrow> lr res" where
  "lr_train dgels rnd to_scalar feature0 m train_data train_label step =
     rbind (cassert (length train_data = length train_label)) (\<lambda>_.
     if train_data = [] then Inr m
     else if length train_data \<le> 1 then Inr (m\<lparr>lr_w := 0, lr_b := 0\<rparr>)
     else let (w, b) = dgels (lr_rows rnd to_scalar feature0 train_data train_label step)
          in Inr (m\<lparr>lr_w := w, lr_b := b\<rparr>))"

text \<open>The packed struct: \<open>w\<close>, then \<open>b\<close>.\<close>

definition lr_to_bytes :: "lr \<Rightarrow> u8 list" where
  "lr_to_bytes m = le_bytes 8 (lr_w m) @ le_bytes 8 (lr_b m)"

definition lr_of_bytes :: "u8 list \<Rightarrow> lr" where
  "lr_of_bytes bs = \<lparr>lr_w = of_le_bytes (take 8 bs), lr_b = of_le_bytes (drop 8 bs)\<rparr>"

definition lr_serialize :: "lr \<Rightarrow> u8 list res" where
  "lr_serialize m = marshalT_serialize 16 lr_to_bytes m"

definition lr_from_serialize :: "lr \<Rightarrow> u8 list \<Rightarrow> lr res" where
  "lr_from_serialize m d = rbind (marshalT_deserialize 16 lr_of_bytes d) opt_value"

definition lr_serialize_sz :: nat where
  "lr_serialize_sz = 16"

text \<open>\<open>MLR\<close>: a linear model whose prediction is cut to \<open>[0, base]\<close>.\<close>

definition mlr_predict :: "real \<Rightarrow> real \<Rightarrow> real" where
  "mlr_predict base res = (if res < 0 then 0 else if res > base then base else res)"

interpretation pod_lr: pod 16 lr_to_bytes lr_of_bytes
proof unfold_locales
  fix m :: lr and bs :: "u8 list"
  show "length (lr_to_bytes m) = 16" by (simp add: lr_to_bytes_def)
  show "lr_of_bytes (lr_to_bytes m) = m"
    by (simp add: lr_of_bytes_def lr_to_bytes_def pod_u64.of_to_bytes)
  assume "length bs = 16"
  then show "lr_to_bytes (lr_of_bytes bs) = bs"
    by (simp add: lr_of_bytes_def lr_to_bytes_def pod_u64.to_of_bytes)
qed

lemma lr_serialize_eq: "lr_serialize m = Inr (le_bytes 8 (16 :: u64) @ lr_to_bytes m)"
  by (simp add: lr_serialize_def marshalT_serialize_def serialize_to_def serialize_into_def
      wrapper_to_bytes_def del: le_bytes.simps)

interpretation lr_ml: ml_trait lr_serialize lr_from_serialize 24
proof unfold_locales
  fix m m0 :: lr and d
  have "lr_serialize m = Inr (le_bytes 8 (of_nat 16 :: u64) @ lr_to_bytes m)"
    by (simp add: lr_serialize_def marshalT_serialize_def serialize_to_def serialize_into_def
        wrapper_to_bytes_def)
  then show "\<exists>d. lr_serialize m = Inr d \<and> length d = 24"
    by (simp add: pod_lr.length_to_bytes)
  assume "lr_serialize m = Inr d"
  then show "lr_from_serialize m0 d = Inr m"
    using pod_lr.marshalT_roundtrip(1) [of m d "[]"] by (simp add: lr_serialize_def lr_from_serialize_def)
qed

section \<open>The submodel\<close>

text \<open>The bounds and \<^verbatim>\<open>max\<close> are 32-bit \<^verbatim>\<open>int\<close>s.\<close>

record 'm xsubmodel =
  ml :: 'm
  err_min :: int
  err_max :: int
  smax :: int

definition XSubModel :: "'m \<Rightarrow> 'm xsubmodel" where
  "XSubModel m = \<lparr>ml = m, err_min = 0, err_max = 0, smax = 0\<rparr>"

definition get_point_predict :: "('m \<Rightarrow> 'k \<Rightarrow> real) \<Rightarrow> 'm xsubmodel \<Rightarrow> 'k \<Rightarrow> int res" where
  "get_point_predict predict s k =
     rbind (double_to_int (predict (ml s) k)) (\<lambda>res.
     let res1 = min res (to_i32 (smax s - 1)) in Inr (max res1 0))"

definition get_predict_raw :: "('m \<Rightarrow> 'k \<Rightarrow> real) \<Rightarrow> 'm xsubmodel \<Rightarrow> 'k \<Rightarrow> real" where
  "get_predict_raw predict s k = predict (ml s) k"

definition total_error :: "'m xsubmodel \<Rightarrow> int" where
  "total_error s = to_i32 (err_max s - err_min s)"

definition get_predict_range :: "('m \<Rightarrow> 'k \<Rightarrow> real) \<Rightarrow> 'm xsubmodel \<Rightarrow> 'k \<Rightarrow> (int \<times> int) res" where
  "get_predict_range predict s k =
     rbind (get_point_predict predict s k) (\<lambda>p.
     let p_start = max 0 (to_i32 (p + err_min s));
         p_end = min (smax s) (to_i32 (p + err_max s))
     in Inr (p_start, p_end))"

definition train_ml :: "('m \<Rightarrow> 'k list \<Rightarrow> u64 list \<Rightarrow> 'm res) \<Rightarrow> 'm xsubmodel \<Rightarrow> 'k list \<Rightarrow> u64 list
    \<Rightarrow> 'm xsubmodel res" where
  "train_ml train s train_data train_label =
     rbind (cassert (length train_data = length train_label)) (\<lambda>_.
     rbind (train (ml s) train_data train_label) (\<lambda>m'.
     let s1 = s\<lparr>ml := m'\<rparr> in
     if train_label \<noteq> []
     then Inr (s1\<lparr>smax := to_i32 (uint (train_label ! (length train_label - 1)))\<rparr>)
     else Inr s1))"

text \<open>
  The function that updates the bounds is any \<^verbatim>\<open>std::function\<close>: it may fail an assertion, and when it does
  not return, neither does the loop that calls it.
\<close>

type_synonym update_fun = "u64 \<Rightarrow> u64 \<Rightarrow> int \<Rightarrow> int \<Rightarrow> (int \<times> int) res option"

definition cal_error_step :: "('m \<Rightarrow> 'k \<Rightarrow> real) \<Rightarrow> update_fun \<Rightarrow> 'm xsubmodel \<Rightarrow> 'k \<Rightarrow> u64
    \<Rightarrow> 'm xsubmodel res option" where
  "cal_error_step predict f s k label =
     fbind (Some (get_point_predict predict s k)) (\<lambda>p.
     fbind (f label (of_int p) (err_min s) (err_max s)) (\<lambda>(mn, mx).
     Some (Inr (s\<lparr>err_min := mn, err_max := mx\<rparr>))))"

definition cal_error :: "('m \<Rightarrow> 'k \<Rightarrow> real) \<Rightarrow> update_fun \<Rightarrow> 'm xsubmodel \<Rightarrow> 'k list \<Rightarrow> u64 list
    \<Rightarrow> 'm xsubmodel res option" where
  "cal_error predict f s train_data train_label =
     foldl (\<lambda>acc i. fbind acc (\<lambda>s.
       if i < length train_label then cal_error_step predict f s (train_data ! i) (train_label ! i)
       else Some (Inl OutOfRange)))
       (Some (Inr s)) [0..<length train_data]"

definition xsub_train :: "('m \<Rightarrow> 'k \<Rightarrow> real) \<Rightarrow> ('m \<Rightarrow> 'k list \<Rightarrow> u64 list \<Rightarrow> 'm res) \<Rightarrow> update_fun
    \<Rightarrow> 'm xsubmodel \<Rightarrow> 'k list \<Rightarrow> u64 list \<Rightarrow> 'm xsubmodel res option" where
  "xsub_train predict train f s train_data train_label =
     fbind (Some (train_ml train s train_data train_label)) (\<lambda>s1.
     cal_error predict f s1 train_data train_label)"

text \<open>\<^verbatim>\<open>int\<close>s are written as 4 little-endian bytes of their two's complement.\<close>

definition i32_to_bytes :: "int \<Rightarrow> u8 list" where
  "i32_to_bytes x = le_bytes 4 (word_of_int x :: u32)"

definition i32_of_bytes :: "u8 list \<Rightarrow> int" where
  "i32_of_bytes bs = sint (of_le_bytes bs :: u32)"

definition xsub_serialize :: "('m \<Rightarrow> u8 list res) \<Rightarrow> 'm xsubmodel \<Rightarrow> u8 list res" where
  "xsub_serialize ml_serialize s =
     rbind (serialize_to 4 i32_to_bytes (err_max s)) (\<lambda>a.
     rbind (serialize_to 4 i32_to_bytes (err_min s)) (\<lambda>b.
     rbind (serialize_to 4 i32_to_bytes (smax s)) (\<lambda>c.
     rbind (ml_serialize (ml s)) (\<lambda>d. Inr (a @ b @ c @ d)))))"

definition xsub_from_serialize :: "('m \<Rightarrow> u8 list res) \<Rightarrow> ('m \<Rightarrow> u8 list \<Rightarrow> 'm res) \<Rightarrow> 'm \<Rightarrow> u8 list
    \<Rightarrow> 'm xsubmodel res" where
  "xsub_from_serialize ml_serialize ml_from_serialize m0 d =
     (let s0 = XSubModel m0 in
      rbind (xsub_serialize ml_serialize s0) (\<lambda>d0.
      rbind (cassert (length d = length d0)) (\<lambda>_.
      rbind (deserialize 4 i32_of_bytes d (length d)) (\<lambda>mx.
      rbind (deserialize 4 i32_of_bytes (drop 4 d) (length d)) (\<lambda>mn.
      rbind (deserialize 4 i32_of_bytes (drop 8 d) (length d)) (\<lambda>m.
      rbind (ml_from_serialize (ml s0) (drop 12 d)) (\<lambda>l.
      Inr (s0\<lparr>err_max := mx, err_min := mn, smax := m, ml := l\<rparr>))))))))"

lemma double_to_int_mono:
  assumes "double_to_int x = Inr a" and "double_to_int z = Inr b" and "x \<le> y" and "y \<le> z"
  shows "\<exists>r. double_to_int y = Inr r \<and> a \<le> r \<and> r \<le> b"
proof -
  define t where "t = (\<lambda>r :: real. if 0 \<le> r then \<lfloor>r\<rfloor> else \<lceil>r\<rceil>)"
  have mono: "t u \<le> t v" if uv: "u \<le> v" for u v :: real
  proof (cases "0 \<le> u \<or> v < 0")
    case True
    then show ?thesis using uv by (auto simp: t_def floor_mono ceiling_mono)
  next
    case False
    then have "\<lceil>u\<rceil> \<le> 0" "0 \<le> \<lfloor>v\<rfloor>" by simp_all
    then have "\<lceil>u\<rceil> \<le> \<lfloor>v\<rfloor>" by (rule order_trans)
    then show ?thesis using False by (simp add: t_def del: ceiling_le_iff le_floor_iff)
  qed
  have d: "double_to_int r = (if - (2 ^ 31) \<le> t r \<and> t r < 2 ^ 31 then Inr (t r) else Inl OutOfRange)" for r
    by (simp add: double_to_int_def Let_def t_def)
  have "t x \<le> t y" "t y \<le> t z" using mono assms(3,4) by blast+
  then show ?thesis using assms(1,2) unfolding d by (auto split: if_splits)
qed

lemma point_predict_mono:
  assumes "get_point_predict predict s k1 = Inr p1" and "get_point_predict predict s k2 = Inr p2"
    and "predict (ml s) k1 \<le> predict (ml s) k" and "predict (ml s) k \<le> predict (ml s) k2"
  shows "\<exists>p. get_point_predict predict s k = Inr p \<and> p1 \<le> p \<and> p \<le> p2"
proof -
  obtain r1 r2 where r: "double_to_int (predict (ml s) k1) = Inr r1" "double_to_int (predict (ml s) k2) = Inr r2"
    "p1 = max (min r1 (to_i32 (smax s - 1))) 0" "p2 = max (min r2 (to_i32 (smax s - 1))) 0"
    using assms(1,2) by (auto simp: get_point_predict_def rbind_Inr_iff Let_def)
  obtain r where "double_to_int (predict (ml s) k) = Inr r" "r1 \<le> r" "r \<le> r2"
    using double_to_int_mono [OF r(1,2) assms(3,4)] by blast
  then show ?thesis using r(3,4) by (simp add: get_point_predict_def Let_def min_def max_def)
qed

text \<open>A pass over the keys that has succeeded has asked the model for every key, and left it as it was.\<close>

lemma cal_error_inv:
  assumes "cal_error predict f s ks ls = Some (Inr s')"
  shows "ml s' = ml s" and "i < length ks \<Longrightarrow> \<exists>r. double_to_int (predict (ml s) (ks ! i)) = Inr r"
proof -
  let ?step = "\<lambda>acc i. fbind acc (\<lambda>s. if i < length ls then cal_error_step predict f s (ks ! i) (ls ! i)
      else Some (Inl OutOfRange))"
  have "foldl ?step (Some (Inr s)) [0..<n] = Some (Inr s2) \<Longrightarrow> ml s2 = ml s \<and>
      (\<forall>i<n. \<exists>r. double_to_int (predict (ml s) (ks ! i)) = Inr r)" for n s2
  proof (induction n arbitrary: s2)
    case (Suc n)
    have "fbind (foldl ?step (Some (Inr s)) [0..<n]) (\<lambda>s. if n < length ls
        then cal_error_step predict f s (ks ! n) (ls ! n) else Some (Inl OutOfRange)) = Some (Inr s2)"
      using Suc.prems by simp
    then obtain s1 where s1: "foldl ?step (Some (Inr s)) [0..<n] = Some (Inr s1)"
      "cal_error_step predict f s1 (ks ! n) (ls ! n) = Some (Inr s2)"
      unfolding fbind_Inr_iff by (elim exE conjE) (simp split: if_splits)
    note ih = Suc.IH [OF s1(1)]
    obtain p q where q: "get_point_predict predict s1 (ks ! n) = Inr p"
      "f (ls ! n) (of_int p) (err_min s1) (err_max s1) = Some (Inr q)"
      "s2 = s1\<lparr>err_min := fst q, err_max := snd q\<rparr>"
      using s1(2) unfolding cal_error_step_def fbind_Inr_iff by (auto simp: case_prod_beta)
    have "ml s2 = ml s1" by (simp add: q(3))
    moreover have "\<exists>r. double_to_int (predict (ml s1) (ks ! n)) = Inr r"
      using q(1) unfolding get_point_predict_def rbind_Inr_iff by blast
    ultimately have "ml s2 = ml s1" "\<exists>r. double_to_int (predict (ml s1) (ks ! n)) = Inr r" by blast+
    then show ?case using ih by (auto simp: less_Suc_eq)
  qed simp
  from this [of "length ks" s'] assms show "ml s' = ml s" "i < length ks \<Longrightarrow> \<exists>r. double_to_int (predict (ml s) (ks ! i)) = Inr r"
    by (simp_all add: cal_error_def)
qed

section \<open>The update functions\<close>

definition default_update_func :: update_fun where
  "default_update_func label predict cur_min cur_max =
     (let new_min = min cur_min (to_i64 (sint label - sint predict));
          new_max = max cur_max (to_i64 (sint label - sint predict))
      in Some (Inr (to_i32 new_min, to_i32 new_max)))"

text \<open>\<^verbatim>\<open>page_updater\<close> of the YCSB server (\<^verbatim>\<open>benchs/ycsb/server/db.hh\<close>).\<close>

definition page_updater :: "u64 \<Rightarrow> update_fun" where
  "page_updater N label predict cur_min cur_max =
     (if decode_logic_id N predict = decode_logic_id N label then Some (Inr (cur_min, cur_max))
      else
        let new_min = min cur_min (to_i64 (sint label - sint predict));
            new_max = max cur_max (to_i64 (sint label - sint predict))
        in Some (Inr (to_i32 new_min, to_i32 new_max)))"

text \<open>\<^verbatim>\<open>page_update_func\<close> of \<^verbatim>\<open>page_tt_iter.hh\<close>: the difference of the words, cut to an \<^verbatim>\<open>int\<close>.\<close>

definition page_update_func :: "u64 \<Rightarrow> update_fun" where
  "page_update_func N label predict cur_min cur_max =
     (if decode_logic_id N label = decode_logic_id N predict then Some (Inr (cur_min, cur_max))
      else let err = sint (ucast (label - predict) :: u32)
           in Some (Inr (min cur_min err, max cur_max err)))"


section \<open>The contract of an update function\<close>

text \<open>
  \<open>page\<close> is the resolution the client needs: the label itself, or the page of the label. Labels,
  predictions and bounds stay below \<open>2 ^ 30\<close>, so that no 32-bit sum wraps.
\<close>

locale error_bound =
  fixes f :: update_fun and page :: "int \<Rightarrow> int"
  assumes page_mono: "x \<le> y \<Longrightarrow> page x \<le> page y"
    and widens: "unat label < 2 ^ 30 \<Longrightarrow> 0 \<le> p \<Longrightarrow> p < 2 ^ 30 \<Longrightarrow> - (2 ^ 30) \<le> mn \<Longrightarrow> mn \<le> 0 \<Longrightarrow>
      0 \<le> mx \<Longrightarrow> mx \<le> 2 ^ 30 \<Longrightarrow> \<exists>mn' mx'. f label (of_int p) mn mx = Some (Inr (mn', mx')) \<and>
      - (2 ^ 30) \<le> mn' \<and> mn' \<le> mn \<and> mx \<le> mx' \<and> mx' \<le> 2 ^ 30 \<and>
      page (p + mn') \<le> page (uint label) \<and> page (uint label) \<le> page (p + mx')"
begin

text \<open>The range predicted for \<open>k\<close> contains the page of \<open>label\<close>.\<close>

definition covers :: "('m \<Rightarrow> 'k \<Rightarrow> real) \<Rightarrow> 'm xsubmodel \<Rightarrow> 'k \<Rightarrow> u64 \<Rightarrow> bool" where
  "covers predict s k label \<longleftrightarrow> (\<exists>a b. get_predict_range predict s k = Inr (a, b) \<and> 0 \<le> a \<and>
     page a \<le> page (uint label) \<and> page (uint label) \<le> page b)"

definition bounds_ok :: "'m xsubmodel \<Rightarrow> bool" where
  "bounds_ok s \<longleftrightarrow> - (2 ^ 30) \<le> err_min s \<and> err_min s \<le> 0 \<and> 0 \<le> err_max s \<and> err_max s \<le> 2 ^ 30 \<and>
     0 \<le> smax s \<and> smax s < 2 ^ 30"

lemma point_predict_bounds:
  assumes "bounds_ok s" and "get_point_predict predict s k = Inr p"
  shows "0 \<le> p" "p < 2 ^ 30"
proof -
  obtain r where "p = max (min r (to_i32 (smax s - 1))) 0"
    using assms(2) by (auto simp: get_point_predict_def rbind_Inr_iff Let_def)
  moreover have "to_i32 (smax s - 1) = smax s - 1"
    using assms(1) by (intro to_i32_id) (simp_all add: bounds_ok_def)
  ultimately show "0 \<le> p" "p < 2 ^ 30" using assms(1) by (auto simp: bounds_ok_def)
qed

lemma covers_of_bounds:
  assumes b: "bounds_ok s" and p: "get_point_predict predict s k = Inr p" and l: "page (uint label) \<le> page (smax s)"
    and e: "page (p + err_min s) \<le> page (uint label)" "page (uint label) \<le> page (p + err_max s)"
  shows "covers predict s k label"
proof -
  note pb = point_predict_bounds [OF b p]
  have s: "to_i32 (p + err_min s) = p + err_min s" "to_i32 (p + err_max s) = p + err_max s"
    using pb b by (simp_all add: to_i32_id bounds_ok_def)
  have "page (max 0 (p + err_min s)) \<le> page (uint label)"
    using e(1) page_mono [of 0 "uint label"] by (cases "0 \<le> p + err_min s") (simp_all add: max_def)
  moreover have "page (uint label) \<le> page (min (smax s) (p + err_max s))"
    using e(2) l by (simp add: min_def)
  ultimately show ?thesis unfolding covers_def get_predict_range_def p by (simp add: s)
qed

lemma cal_error_step_ok:
  assumes b: "bounds_ok s" and p: "get_point_predict predict s k = Inr p" and l: "unat label < 2 ^ 30"
  shows "\<exists>mn mx. cal_error_step predict f s k label = Some (Inr (s\<lparr>err_min := mn, err_max := mx\<rparr>)) \<and>
    bounds_ok (s\<lparr>err_min := mn, err_max := mx\<rparr>) \<and> mn \<le> err_min s \<and> err_max s \<le> mx \<and>
    page (p + mn) \<le> page (uint label) \<and> page (uint label) \<le> page (p + mx)"
proof -
  note pb = point_predict_bounds [OF b p]
  obtain mn mx where f: "f label (of_int p) (err_min s) (err_max s) = Some (Inr (mn, mx))"
    "- (2 ^ 30) \<le> mn" "mn \<le> err_min s" "err_max s \<le> mx" "mx \<le> 2 ^ 30"
    "page (p + mn) \<le> page (uint label)" "page (uint label) \<le> page (p + mx)"
    using widens [OF l pb, of "err_min s" "err_max s"] b by (auto simp: bounds_ok_def)
  then show ?thesis using p b
    by (intro exI [of _ mn] exI [of _ mx]) (auto simp: cal_error_step_def bounds_ok_def)
qed

lemma get_point_predict_bounds [simp]:
  "get_point_predict predict (s\<lparr>err_min := a, err_max := b\<rparr>) k = get_point_predict predict s k"
  by (simp add: get_point_predict_def)

text \<open>
  After the whole pass every key has a covered label, if the model predicts an \<^verbatim>\<open>int\<close> for every key.
\<close>

lemma cal_error_ok:
  assumes b: "bounds_ok s" and len: "length ls = length ks"
    and pr: "\<forall>k\<in>set ks. \<exists>p. get_point_predict predict s k = Inr p"
    and ls: "\<forall>l\<in>set ls. unat l < 2 ^ 30 \<and> page (uint l) \<le> page (smax s)"
  shows "\<exists>s'. cal_error predict f s ks ls = Some (Inr s') \<and> ml s' = ml s \<and> smax s' = smax s \<and> bounds_ok s' \<and>
    (\<forall>i<length ks. covers predict s' (ks ! i) (ls ! i))"
proof -
  let ?step = "\<lambda>acc i. fbind acc (\<lambda>s. if i < length ls then cal_error_step predict f s (ks ! i) (ls ! i)
      else Some (Inl OutOfRange))"
  let ?in = "\<lambda>s' i. \<exists>p. get_point_predict predict s (ks ! i) = Inr p \<and>
      page (p + err_min s') \<le> page (uint (ls ! i)) \<and> page (uint (ls ! i)) \<le> page (p + err_max s')"
  have "n \<le> length ks \<Longrightarrow> \<exists>mn mx. foldl ?step (Some (Inr s)) [0..<n] = Some (Inr (s\<lparr>err_min := mn, err_max := mx\<rparr>)) \<and>
      bounds_ok (s\<lparr>err_min := mn, err_max := mx\<rparr>) \<and> (\<forall>i<n. ?in (s\<lparr>err_min := mn, err_max := mx\<rparr>) i)" for n
  proof (induction n)
    case 0
    show ?case using b by (intro exI [of _ "err_min s"] exI [of _ "err_max s"]) simp
  next
    case (Suc n)
    then obtain mn mx where ih: "foldl ?step (Some (Inr s)) [0..<n] = Some (Inr (s\<lparr>err_min := mn, err_max := mx\<rparr>))"
      "bounds_ok (s\<lparr>err_min := mn, err_max := mx\<rparr>)"
      "\<forall>i<n. ?in (s\<lparr>err_min := mn, err_max := mx\<rparr>) i" by auto
    let ?s = "s\<lparr>err_min := mn, err_max := mx\<rparr>"
    have n: "n < length ks" "n < length ls" using Suc.prems len by simp_all
    obtain p where p: "get_point_predict predict ?s (ks ! n) = Inr p"
      using bspec [OF pr nth_mem [OF n(1)]] by auto
    have l: "unat (ls ! n) < 2 ^ 30" using ls n(2) by simp
    obtain mn' mx' where st: "cal_error_step predict f ?s (ks ! n) (ls ! n) = Some (Inr (?s\<lparr>err_min := mn', err_max := mx'\<rparr>))"
      "bounds_ok (?s\<lparr>err_min := mn', err_max := mx'\<rparr>)" "mn' \<le> err_min ?s" "err_max ?s \<le> mx'"
      "page (p + mn') \<le> page (uint (ls ! n))" "page (uint (ls ! n)) \<le> page (p + mx')"
      using cal_error_step_ok [OF ih(2) p l] by blast
    let ?s' = "s\<lparr>err_min := mn', err_max := mx'\<rparr>"
    have "?in ?s' i" if "i < Suc n" for i
    proof (cases "i = n")
      case True
      then show ?thesis using p st(5,6) by auto
    next
      case False
      then have "i < n" using that by simp
      from ih(3) [rule_format, OF this] obtain q where q: "get_point_predict predict s (ks ! i) = Inr q"
        "page (q + mn) \<le> page (uint (ls ! i))" "page (uint (ls ! i)) \<le> page (q + mx)"
        by auto
      have "page (q + mn') \<le> page (q + mn)" "page (q + mx) \<le> page (q + mx')"
        using st(3,4) by (auto intro: page_mono)
      with q show ?thesis by fastforce
    qed
    then show ?case using ih(1) st(1,2) n(2) by (intro exI [of _ mn'] exI [of _ mx']) simp
  qed
  from this [of "length ks"] obtain mn mx where r: "cal_error predict f s ks ls = Some (Inr (s\<lparr>err_min := mn, err_max := mx\<rparr>))"
    "bounds_ok (s\<lparr>err_min := mn, err_max := mx\<rparr>)"
    "\<forall>i<length ks. ?in (s\<lparr>err_min := mn, err_max := mx\<rparr>) i" by (auto simp: cal_error_def)
  let ?s' = "s\<lparr>err_min := mn, err_max := mx\<rparr>"
  have "covers predict ?s' (ks ! i) (ls ! i)" if i: "i < length ks" for i
  proof -
    obtain p where p: "get_point_predict predict ?s' (ks ! i) = Inr p"
      "page (p + err_min ?s') \<le> page (uint (ls ! i))" "page (uint (ls ! i)) \<le> page (p + err_max ?s')"
      using r(3) i by fastforce
    have "page (uint (ls ! i)) \<le> page (smax ?s')" using ls i len by simp
    then show ?thesis using covers_of_bounds [OF r(2) p(1) _ p(2,3)] by blast
  qed
  then show ?thesis using r(1,2) by (intro exI [of _ ?s']) simp
qed

text \<open>A key between two covered keys of the same page is covered, when the model is monotone on them.\<close>

lemma covers_between:
  assumes b: "bounds_ok s" and c: "covers predict s k1 l1" "covers predict s k2 l2"
    and l: "page (uint l1) = page (uint l)" "page (uint l2) = page (uint l)"
    and m: "predict (ml s) k1 \<le> predict (ml s) k" "predict (ml s) k \<le> predict (ml s) k2"
  shows "covers predict s k l"
proof -
  obtain p1 p2 where p: "get_point_predict predict s k1 = Inr p1" "get_point_predict predict s k2 = Inr p2"
    using c unfolding covers_def get_predict_range_def by (auto simp: rbind_Inr_iff)
  obtain p where k: "get_point_predict predict s k = Inr p" "p1 \<le> p" "p \<le> p2"
    using point_predict_mono [where predict = predict, OF p m] by blast
  have range: "get_predict_range predict s x = Inr (max 0 (q + err_min s), min (smax s) (q + err_max s))"
    if "get_point_predict predict s x = Inr q" for x q
    using point_predict_bounds [OF b that] b by (simp add: get_predict_range_def that to_i32_id bounds_ok_def)
  have 1: "page (uint l) \<le> page (min (smax s) (p1 + err_max s))"
    using c(1) l(1) unfolding covers_def range [OF p(1)] by auto
  have 2: "page (max 0 (p2 + err_min s)) \<le> page (uint l)"
    using c(2) l(2) unfolding covers_def range [OF p(2)] by auto
  have "page (max 0 (p + err_min s)) \<le> page (max 0 (p2 + err_min s))"
    "page (min (smax s) (p1 + err_max s)) \<le> page (min (smax s) (p + err_max s))"
    by (rule page_mono, use k(2,3) in linarith)+
  then show ?thesis using 1 2 unfolding covers_def range [OF k(1)] by fastforce
qed

end


section \<open>The three update functions meet the contract\<close>

lemma sint_small:
  assumes "unat (l :: u64) < 2 ^ 30"
  shows "sint l = uint l" and "0 \<le> uint l" and "uint l < 2 ^ 30"
proof -
  have u: "uint l = int (unat l)" by simp
  have "int (unat l) < int (2 ^ 30)" using assms by (subst of_nat_less_iff)
  then show lt: "uint l < 2 ^ 30" by simp
  show "sint l = uint l"
  proof -
    have "- (2 ^ 30) \<le> uint l" by (rule order_trans [OF _ uint_ge_0]) simp
    then have "signed_take_bit 63 (uint l) = uint l" using lt by (rule to_i_small(1) [unfolded to_i64_def])
    then show ?thesis by (simp add: sint_uint)
  qed
qed simp

lemma of_int_small:
  assumes "0 \<le> p" and "p < 2 ^ 30"
  shows "sint (of_int p :: u64) = p" and "uint (of_int p :: u64) = p"
proof -
  show u: "uint (of_int p :: u64) = p" using assms by (simp add: unsigned_of_int take_bit_int_eq_self)
  have "unat (of_int p :: u64) < 2 ^ 30" using u assms by (simp add: unat_eq_nat_uint nat_less_iff)
  then show "sint (of_int p :: u64) = p" using sint_small(1) u by metis
qed

lemma div_page_mono: "x \<le> y \<Longrightarrow> x div int n \<le> y div int n"
  by (cases "n = 0") (simp_all add: zdiv_mono1)

lemma decode_same_page:
  assumes "0 \<le> p" and "p < 2 ^ 30" and "decode_logic_id N (of_int p) = decode_logic_id N label"
  shows "p div int (unat N) = uint label div int (unat N)"
proof -
  have "uint (of_int p :: u64) div uint N = uint label div uint N"
    using assms(3) unfolding decode_logic_id_def by (metis uint_div)
  then show ?thesis by (simp add: of_int_small(2) [OF assms(1,2)])
qed

interpretation default_eb: error_bound default_update_func "\<lambda>x. x"
proof unfold_locales
  fix label :: u64 and p mn mx :: int
  assume a: "unat label < 2 ^ 30" "0 \<le> p" "p < 2 ^ 30" "- (2 ^ 30) \<le> mn" "mn \<le> 0" "0 \<le> mx" "mx \<le> 2 ^ 30"
  note l = sint_small [OF a(1)] and q = of_int_small [OF a(2,3)]
  have r: "- (2 ^ 30) \<le> uint label - p" "uint label - p < 2 ^ 30"
    subgoal using l(2) a(3) by linarith
    subgoal using l(3) a(2) by linarith
    done
  have d: "to_i64 (sint label - sint (of_int p :: u64)) = uint label - p"
    unfolding q l(1) using r by (rule to_i_small)
  have "default_update_func label (of_int p) mn mx = Some (Inr (min mn (uint label - p), max mx (uint label - p)))"
    using a r unfolding default_update_func_def Let_def d by (auto simp: to_i32_id)
  then show "\<exists>mn' mx'. default_update_func label (of_int p) mn mx = Some (Inr (mn', mx')) \<and>
      - (2 ^ 30) \<le> mn' \<and> mn' \<le> mn \<and> mx \<le> mx' \<and> mx' \<le> 2 ^ 30 \<and>
      p + mn' \<le> uint label \<and> uint label \<le> p + mx'"
    using a(2-7) r by auto
qed

interpretation page_eb: error_bound "page_updater N" "\<lambda>x. x div int (unat N)" for N :: u64
proof unfold_locales
  fix x y :: int assume "x \<le> y"
  then show "x div int (unat N) \<le> y div int (unat N)" by (rule div_page_mono)
next
  fix label :: u64 and p mn mx :: int
  let ?g = "\<lambda>x. x div int (unat N)"
  assume a: "unat label < 2 ^ 30" "0 \<le> p" "p < 2 ^ 30" "- (2 ^ 30) \<le> mn" "mn \<le> 0" "0 \<le> mx" "mx \<le> 2 ^ 30"
  show "\<exists>mn' mx'. page_updater N label (of_int p) mn mx = Some (Inr (mn', mx')) \<and>
      - (2 ^ 30) \<le> mn' \<and> mn' \<le> mn \<and> mx \<le> mx' \<and> mx' \<le> 2 ^ 30 \<and>
      ?g (p + mn') \<le> ?g (uint label) \<and> ?g (uint label) \<le> ?g (p + mx')"
  proof (cases "decode_logic_id N (of_int p) = decode_logic_id N label")
    case True
    have "?g (p + mn) \<le> ?g p" "?g p \<le> ?g (p + mx)" by (rule div_page_mono, use a(5,6) in simp)+
    then show ?thesis using a(4-7) decode_same_page [OF a(2,3) True] True by (simp add: page_updater_def)
  next
    case False
    then have "page_updater N label (of_int p) mn mx = default_update_func label (of_int p) mn mx"
      by (simp add: page_updater_def default_update_func_def)
    then show ?thesis using default_eb.widens [OF a] div_page_mono by metis
  qed
qed

lemma sint_ucast_diff:
  assumes "- (2 ^ 30) \<le> uint (w :: u64) - p" and "uint w - p < 2 ^ 30"
  shows "sint (ucast (w - of_int p) :: u32) = uint w - p"
proof -
  have "w - of_int p = (of_int (uint w - p) :: u64)" by simp
  then have "sint (ucast (w - of_int p) :: u32) = signed_take_bit 31 (take_bit 64 (uint w - p))"
    by (simp only: sint_uint unsigned_of_int unsigned_ucast_eq)
      (simp add: unsigned_of_int signed_take_bit_take_bit)
  also have "\<dots> = signed_take_bit 31 (uint w - p)" by (simp add: signed_take_bit_take_bit)
  also have "\<dots> = uint w - p" using assms by (rule to_i_small(2) [unfolded to_i32_def])
  finally show ?thesis .
qed

interpretation pu_eb: error_bound "page_update_func N" "\<lambda>x. x div int (unat N)" for N :: u64
proof unfold_locales
  fix x y :: int assume "x \<le> y"
  then show "x div int (unat N) \<le> y div int (unat N)" by (rule div_page_mono)
next
  fix label :: u64 and p mn mx :: int
  let ?g = "\<lambda>x. x div int (unat N)"
  assume a: "unat label < 2 ^ 30" "0 \<le> p" "p < 2 ^ 30" "- (2 ^ 30) \<le> mn" "mn \<le> 0" "0 \<le> mx" "mx \<le> 2 ^ 30"
  note l = sint_small [OF a(1)] and q = of_int_small [OF a(2,3)]
  have r: "- (2 ^ 30) \<le> uint label - p" "uint label - p < 2 ^ 30"
    subgoal using l(2) a(3) by linarith
    subgoal using l(3) a(2) by linarith
    done
  have d: "sint (ucast (label - of_int p) :: u32) = uint label - p"
    using r by (rule sint_ucast_diff)
  show "\<exists>mn' mx'. page_update_func N label (of_int p) mn mx = Some (Inr (mn', mx')) \<and>
      - (2 ^ 30) \<le> mn' \<and> mn' \<le> mn \<and> mx \<le> mx' \<and> mx' \<le> 2 ^ 30 \<and>
      ?g (p + mn') \<le> ?g (uint label) \<and> ?g (uint label) \<le> ?g (p + mx')"
  proof (cases "decode_logic_id N label = decode_logic_id N (of_int p)")
    case True
    have "?g (p + mn) \<le> ?g p" "?g p \<le> ?g (p + mx)" by (rule div_page_mono, use a(5,6) in simp)+
    then show ?thesis using a(4-7) decode_same_page [OF a(2,3) True [symmetric]] True by (simp add: page_update_func_def)
  next
    case False
    have "p + min mn (uint label - p) \<le> uint label" "uint label \<le> p + max mx (uint label - p)" by simp_all
    then have "?g (p + min mn (uint label - p)) \<le> ?g (uint label)" "?g (uint label) \<le> ?g (p + max mx (uint label - p))"
      using div_page_mono by blast+
    moreover have "page_update_func N label (of_int p) mn mx = Some (Inr (min mn (uint label - p), max mx (uint label - p)))"
      using False by (simp add: page_update_func_def d Let_def)
    ultimately show ?thesis using a(4-7) r by simp
  qed
qed

section \<open>Training\<close>

context error_bound
begin

text \<open>
  Training a fresh submodel on \<open>sks\<close> and computing its bounds on \<open>ks\<close>, when the trained model predicts
  an \<^verbatim>\<open>int\<close> for every key and the last label it was trained on is on the last page.
\<close>

lemma train_then_error_ok:
  assumes slen: "length sls = length sks" and ne: "sls \<noteq> []" and tr: "train m0 sks sls = Inr m"
    and sl: "unat (last sls) < 2 ^ 30" and len: "length ls = length ks"
    and pr: "\<forall>k\<in>set ks. \<exists>r. double_to_int (predict m k) = Inr r"
    and ls: "\<forall>l\<in>set ls. unat l < 2 ^ 30 \<and> page (uint l) \<le> page (uint (last sls))"
  shows "\<exists>s1 s'. train_ml train (XSubModel m0) sks sls = Inr s1 \<and>
    cal_error predict f s1 ks ls = Some (Inr s') \<and> ml s' = m \<and> smax s' = uint (last sls) \<and> bounds_ok s' \<and>
    (\<forall>i<length ks. covers predict s' (ks ! i) (ls ! i))"
proof -
  have lst: "sls ! (length sls - 1) = last sls" using ne by (simp add: last_conv_nth)
  have "int (unat (last sls)) < int (2 ^ 30)" using sl by (subst of_nat_less_iff)
  then have u: "0 \<le> uint (last sls)" "uint (last sls) < 2 ^ 30" by simp_all
  have "- (2 ^ 30) \<le> uint (last sls)" by (rule order_trans [OF _ u(1)]) simp
  then have m: "to_i32 (uint (last sls)) = uint (last sls)" using u(2) by (rule to_i_small)
  let ?s1 = "(XSubModel m0)\<lparr>ml := m, smax := uint (last sls)\<rparr>"
  have t: "train_ml train (XSubModel m0) sks sls = Inr ?s1"
    using slen tr ne lst m by (simp add: train_ml_def XSubModel_def)
  have b: "bounds_ok ?s1" using u by (simp add: bounds_ok_def XSubModel_def)
  have p: "\<forall>k\<in>set ks. \<exists>p. get_point_predict predict ?s1 k = Inr p"
    using pr by (fastforce simp: get_point_predict_def Let_def)
  have l: "\<forall>l\<in>set ls. unat l < 2 ^ 30 \<and> page (uint l) \<le> page (smax ?s1)" using ls by simp
  from cal_error_ok [OF b len p l] obtain s' where "cal_error predict f ?s1 ks ls = Some (Inr s')" "ml s' = ml ?s1"
    "smax s' = smax ?s1" "bounds_ok s'" "\<forall>i<length ks. covers predict s' (ks ! i) (ls ! i)" by blast
  then show ?thesis using t by simp
qed

lemma xsub_train_ok:
  assumes len: "length ls = length ks" and ne: "ls \<noteq> []" and tr: "train m0 ks ls = Inr m"
    and pr: "\<forall>k\<in>set ks. \<exists>r. double_to_int (predict m k) = Inr r"
    and ls: "\<forall>l\<in>set ls. l \<le> last ls" "unat (last ls) < 2 ^ 30"
  shows "\<exists>s'. xsub_train predict train f (XSubModel m0) ks ls = Some (Inr s') \<and> ml s' = m \<and>
    (\<forall>i<length ks. covers predict s' (ks ! i) (ls ! i))"
proof -
  have "\<forall>l\<in>set ls. unat l < 2 ^ 30 \<and> page (uint l) \<le> page (uint (last ls))"
  proof
    fix l assume "l \<in> set ls"
    then have le: "l \<le> last ls" using ls(1) by blast
    then have "uint l \<le> uint (last ls)" by (simp only: word_le_def)
    then have "page (uint l) \<le> page (uint (last ls))" by (rule page_mono)
    moreover have "unat l \<le> unat (last ls)" using le by (simp only: word_le_nat_alt)
    then have "unat l < 2 ^ 30" using ls(2) by (rule order_le_less_trans)
    ultimately show "unat l < 2 ^ 30 \<and> page (uint l) \<le> page (uint (last ls))" by blast
  qed
  from train_then_error_ok [where predict = predict and train = train, OF len ne tr ls(2) len pr this]
  show ?thesis unfolding xsub_train_def by (elim exE conjE) simp
qed

end

section \<open>Properties\<close>

text \<open>After \<open>train\<close> with the default update function, the range predicted for every training
  key contains its label, whatever model the training produced, as long as its predictions fit in
  an \<^verbatim>\<open>int\<close>.\<close>

theorem train_covers_labels:
  assumes "length ls = length ks" and "ls \<noteq> []" and "train m0 ks ls = Inr m"
    and "\<forall>k\<in>set ks. \<exists>r. double_to_int (predict m k) = Inr r"
    and "\<forall>l\<in>set ls. l \<le> last ls" and "unat (last ls) < 2 ^ 30"
  shows "\<exists>s'. xsub_train predict train default_update_func (XSubModel m0) ks ls = Some (Inr s') \<and>
    (\<forall>i<length ks. \<exists>a b. get_predict_range predict s' (ks ! i) = Inr (a, b) \<and> 0 \<le> a \<and>
       a \<le> uint (ls ! i) \<and> uint (ls ! i) \<le> b)"
  using default_eb.xsub_train_ok [where train = train and predict = predict, OF assms]
  unfolding default_eb.covers_def by blast

theorem train_covers_labels_witness:
  "\<exists>s'. xsub_train (\<lambda>m k. m * real (unat k)) (\<lambda>m ks ls. Inr 2) default_update_func (XSubModel 0) [1 :: u64, 5, 7] [0, 1, 2] = Some (Inr s') \<and>
    (\<forall>i<length [1 :: u64, 5, 7]. \<exists>a b. get_predict_range (\<lambda>m k. m * real (unat k)) s' ([1 :: u64, 5, 7] ! i) = Inr (a, b) \<and> 0 \<le> a \<and>
       a \<le> uint (([0, 1, 2] :: u64 list) ! i) \<and> uint (([0, 1, 2] :: u64 list) ! i) \<le> b)"
  by (rule train_covers_labels [where m = 2]) (simp_all add: double_to_int_def Let_def)

text \<open>C19: with the page updater of the YCSB server the bounds are kept in page resolution: the range
  predicted for every training key starts at or before the page of its label and ends at or after
  that page.\<close>

theorem train_covers_pages:
  assumes "length ls = length ks" and "ls \<noteq> []" and "train m0 ks ls = Inr m"
    and "\<forall>k\<in>set ks. \<exists>r. double_to_int (predict m k) = Inr r"
    and "\<forall>l\<in>set ls. l \<le> last ls" and "unat (last ls) < 2 ^ 30"
  shows "\<exists>s'. xsub_train predict train (page_updater N) (XSubModel m0) ks ls = Some (Inr s') \<and>
    (\<forall>i<length ks. \<exists>a b. get_predict_range predict s' (ks ! i) = Inr (a, b) \<and> 0 \<le> a \<and>
       a div int (unat N) \<le> uint (ls ! i) div int (unat N) \<and>
       uint (ls ! i) div int (unat N) \<le> b div int (unat N))"
  using page_eb.xsub_train_ok [where train = train and predict = predict and N = N, OF assms]
  unfolding pu_eb.covers_def by blast

theorem train_covers_pages_witness:
  "\<exists>s'. xsub_train (\<lambda>m k. m * real (unat k)) (\<lambda>m ks ls. Inr 2) (page_updater 16) (XSubModel 0) [1 :: u64, 5, 7] [0, 17, 35] = Some (Inr s') \<and>
    (\<forall>i<length [1 :: u64, 5, 7]. \<exists>a b. get_predict_range (\<lambda>m k. m * real (unat k)) s' ([1 :: u64, 5, 7] ! i) = Inr (a, b) \<and> 0 \<le> a \<and>
       a div int (unat (16 :: u64)) \<le> uint (([0, 17, 35] :: u64 list) ! i) div int (unat (16 :: u64)) \<and>
       uint (([0, 17, 35] :: u64 list) ! i) div int (unat (16 :: u64)) \<le> b div int (unat (16 :: u64)))"
  by (rule train_covers_pages [where m = 2]) (simp_all add: double_to_int_def Let_def)

lemma pod_i32: "- (2 ^ 31) \<le> x \<Longrightarrow> x < 2 ^ 31 \<Longrightarrow> i32_of_bytes (i32_to_bytes x) = x"
  by (simp add: i32_of_bytes_def i32_to_bytes_def pod_u32.of_to_bytes signed_of_int
      signed_take_bit_int_eq_self del: le_bytes.simps of_le_bytes.simps)

lemma i32_prefix:
  assumes "- (2 ^ 31) \<le> x" and "x < 2 ^ 31" and "4 \<le> n"
  shows "deserialize 4 i32_of_bytes (i32_to_bytes x @ rest) n = Inr x"
proof -
  have "length (i32_to_bytes x) = 4" by (simp add: i32_to_bytes_def)
  then show ?thesis using assms by (simp add: deserialize_def pod_i32)
qed

lemma xsub_serialize_eq:
  "xsub_serialize lr_serialize s =
    Inr (i32_to_bytes (err_max s) @ i32_to_bytes (err_min s) @ i32_to_bytes (smax s) @
      le_bytes 8 (16 :: u64) @ lr_to_bytes (ml s))"
  by (simp add: xsub_serialize_def serialize_to_def serialize_into_def i32_to_bytes_def lr_serialize_def
      marshalT_serialize_def wrapper_to_bytes_def del: le_bytes.simps)

lemma xsub_image_length:
  "length (i32_to_bytes a @ i32_to_bytes b @ i32_to_bytes c @ le_bytes 8 (16 :: u64) @ lr_to_bytes m) = 36"
  by (simp add: i32_to_bytes_def pod_lr.length_to_bytes del: le_bytes.simps)

lemma xsub_image:
  assumes "\<forall>x\<in>{err_min s, err_max s, smax s}. - (2 ^ 31) \<le> x \<and> x < 2 ^ 31"
  shows "\<exists>d. xsub_serialize lr_serialize s = Inr d \<and> length d = 36 \<and>
    xsub_from_serialize lr_serialize lr_from_serialize m0 d = Inr s \<and>
    (\<forall>d'. length d' \<noteq> 36 \<longrightarrow> xsub_from_serialize lr_serialize lr_from_serialize m0 d' = Inl AssertFail)"
proof -
  let ?l = "le_bytes 8 (16 :: u64) @ lr_to_bytes (ml s)"
  let ?d = "i32_to_bytes (err_max s) @ i32_to_bytes (err_min s) @ i32_to_bytes (smax s) @ ?l"
  have r: "- (2 ^ 31) \<le> err_min s" "err_min s < 2 ^ 31" "- (2 ^ 31) \<le> err_max s" "err_max s < 2 ^ 31"
    "- (2 ^ 31) \<le> smax s" "smax s < 2 ^ 31" using assms by simp_all
  have l: "length (i32_to_bytes x) = 4" for x by (simp add: i32_to_bytes_def)
  have "lr_serialize (ml s) = Inr ?l"
    by (simp add: lr_serialize_def marshalT_serialize_def serialize_to_def serialize_into_def
        wrapper_to_bytes_def del: le_bytes.simps)
  then have m: "lr_from_serialize m0 ?l = Inr (ml s)" by (rule lr_ml.from_serialize_ok)
  have d4: "drop 4 ?d = i32_to_bytes (err_min s) @ i32_to_bytes (smax s) @ ?l" using l by simp
  have d8: "drop 8 ?d = i32_to_bytes (smax s) @ ?l" using l by (simp add: numeral_eq_Suc)
  have d12: "drop 12 ?d = ?l" using l by (simp add: numeral_eq_Suc)
  have s: "xsub_from_serialize lr_serialize lr_from_serialize m0 ?d = Inr s"
    unfolding xsub_from_serialize_def Let_def xsub_serialize_eq rbind_simps xsub_image_length d4 d8 d12
    by (simp only: refl cassert_simps rbind_simps) (simp add: i32_prefix [OF r(1,2)] i32_prefix [OF r(3,4)] i32_prefix [OF r(5,6)] m XSubModel_def del: le_bytes.simps)
  have "xsub_from_serialize lr_serialize lr_from_serialize m0 d' = Inl AssertFail" if "length d' \<noteq> 36" for d'
    using that unfolding xsub_from_serialize_def Let_def xsub_serialize_eq rbind_simps xsub_image_length by simp
  with s xsub_serialize_eq [of s] xsub_image_length show ?thesis by blast
qed

text \<open>A submodel over a linear model survives serialization: its image has 36 bytes, reading it
  gives back the model, both error bounds and the maximum, and input of any other length is
  refused.\<close>

theorem xsub_roundtrip:
  assumes "\<forall>x\<in>{err_min s, err_max s, smax s}. - (2 ^ 31) \<le> x \<and> x < 2 ^ 31"
  shows "\<exists>d. xsub_serialize lr_serialize s = Inr d \<and> length d = 36 \<and>
    xsub_from_serialize lr_serialize lr_from_serialize m0 d = Inr s \<and>
    (\<forall>d'. length d' \<noteq> 36 \<longrightarrow> xsub_from_serialize lr_serialize lr_from_serialize m0 d' = Inl AssertFail)"
  using assms by (rule xsub_image)

theorem xsub_roundtrip_witness:
  "\<exists>d. xsub_serialize lr_serialize \<lparr>ml = LR, err_min = - 3, err_max = 5, smax = 100\<rparr> = Inr d \<and> length d = 36 \<and>
    xsub_from_serialize lr_serialize lr_from_serialize LR d = Inr \<lparr>ml = LR, err_min = - 3, err_max = 5, smax = 100\<rparr> \<and>
    (\<forall>d'. length d' \<noteq> 36 \<longrightarrow> xsub_from_serialize lr_serialize lr_from_serialize LR d' = Inl AssertFail)"
  by (rule xsub_roundtrip) simp

end
