(* ===== verification/Trainer.thy ===== *)
theory Trainer
  imports Samplers XModel
begin

text \<open>
  The trainer of one submodel (\<^verbatim>\<open>xcache/src/submodel_trainer.hh\<close>): it records the range of keys its
  model is responsible for, walks an iterator over that range to collect a training set through a
  sampler, shrinks the set by a second sampler, and trains and bounds a submodel. The iterator
  (\<^verbatim>\<open>iter_trait.hh\<close>), the sampler (\<^verbatim>\<open>sample_trait.hh\<close>) and the model (\<^verbatim>\<open>ml_trait.hh\<close>) are the
  records of operations their traits name.

  \<^verbatim>\<open>usize\<close> is a type of the library r2, so its width is a type variable. The loops count with
  \<^verbatim>\<open>uint i\<close>; training sets are taken to be shorter than that type allows. Dumping the training set
  to files (\<open>verbose\<close>) is not part of the model.
\<close>

section \<open>The traits\<close>

record ('it, 'k) key_iter_ops =
  from_impl :: "'it res"
  begin_impl :: "'it \<Rightarrow> 'it res"
  seek_impl :: "'it \<Rightarrow> 'k \<Rightarrow> 'it res"
  next_impl :: "'it \<Rightarrow> 'it res"
  has_next_impl :: "'it \<Rightarrow> bool"
  cur_key_impl :: "'it \<Rightarrow> 'k res"
  opaque_val_impl :: "'it \<Rightarrow> u64 res"

record ('s, 'k) sample_ops =
  add_impl :: "'s \<Rightarrow> 'k \<Rightarrow> u64 \<Rightarrow> 'k list \<Rightarrow> u64 list \<Rightarrow> ('s \<times> 'k list \<times> u64 list) res"
  finalize_impl :: "'s \<Rightarrow> 'k list \<Rightarrow> u64 list \<Rightarrow> ('s \<times> 'k list \<times> u64 list) res"

record ('m, 'k) ml_ops =
  ml_init :: 'm
  ml_predict :: "'m \<Rightarrow> 'k \<Rightarrow> real"
  ml_train :: "'m \<Rightarrow> 'k list \<Rightarrow> u64 list \<Rightarrow> nat \<Rightarrow> 'm res"
  ml_serialize :: "'m \<Rightarrow> u8 list res"
  ml_from_serialize :: "'m \<Rightarrow> u8 list \<Rightarrow> 'm res"

definition default_sample :: "(unit, 'k) sample_ops" where
  "default_sample = \<lparr>add_impl = default_add_to, finalize_impl = default_finalize\<rparr>"

definition step_sample :: "(step_sampler, 'k) sample_ops" where
  "step_sample = \<lparr>add_impl = step_add_to, finalize_impl = step_finalize\<rparr>"

definition page_sample :: "u64 \<Rightarrow> ('k::linorder page_sampler, 'k) sample_ops" where
  "page_sample N = \<lparr>add_impl = page_add_to N, finalize_impl = page_finalize N\<rparr>"

lemma sample_ops_simps [simp]:
  "add_impl default_sample = default_add_to" "finalize_impl default_sample = default_finalize"
  "add_impl step_sample = step_add_to" "finalize_impl step_sample = step_finalize"
  "add_impl (page_sample N) = page_add_to N" "finalize_impl (page_sample N) = page_finalize N"
  by (simp_all add: default_sample_def step_sample_def page_sample_def)

text \<open>
  \<^verbatim>\<open>for (...; it.has_next(); it.next()) body\<close>; the body returns \<open>True\<close> to \<^verbatim>\<open>break\<close>.
\<close>

fun it_for :: "('it, 'k) key_iter_ops \<Rightarrow> nat \<Rightarrow> ('it \<Rightarrow> 'a \<Rightarrow> ('a \<times> bool) res) \<Rightarrow> 'it \<Rightarrow> 'a
    \<Rightarrow> ('it \<times> 'a) res option" where
  "it_for I 0 body it a = None"
| "it_for I (Suc n) body it a =
     (if has_next_impl I it then
        fbind (Some (body it a)) (\<lambda>(a', brk).
        if brk then Some (Inr (it, a'))
        else fbind (Some (next_impl I it)) (\<lambda>it'. it_for I n body it' a'))
      else Some (Inr (it, a)))"

section \<open>The trainer\<close>

record ('k, 'u) xml_trainer =
  start_key :: 'k
  end_key :: 'k
  l_watermark :: 'u
  h_watermark :: 'u
  nkeys_update :: 'u
  trainer_name :: string

definition XMLTrainer :: "('k::{order_bot,order_top}, 'w::len word) xml_trainer" where
  "XMLTrainer = \<lparr>start_key = top, end_key = bot, l_watermark = 0, h_watermark = 0, nkeys_update = 0,
     trainer_name = ''trainer''\<rparr>"

definition set_name :: "('k, 'w::len word) xml_trainer \<Rightarrow> string \<Rightarrow> ('k, 'w word) xml_trainer" where
  "set_name tr n = tr\<lparr>trainer_name := n\<rparr>"

definition need_train :: "('k, 'w::len word) xml_trainer \<Rightarrow> bool" where
  "need_train tr \<longleftrightarrow> h_watermark tr > l_watermark tr"

definition update_key :: "('k::linorder, 'w::len word) xml_trainer \<Rightarrow> 'k \<Rightarrow> ('k, 'w word) xml_trainer" where
  "update_key tr k =
     (let tr1 = tr\<lparr>nkeys_update := nkeys_update tr + 1\<rparr>;
          tr2 = tr1\<lparr>start_key := min (start_key tr1) k, end_key := max (end_key tr1) k\<rparr>
      in if \<not> need_train tr2 then tr2\<lparr>h_watermark := h_watermark tr2 + 1\<rparr> else tr2)"

definition snapshot_body :: "('it, 'k::linorder) key_iter_ops \<Rightarrow> ('s, 'k) sample_ops \<Rightarrow> 'k \<Rightarrow> 'it
    \<Rightarrow> 's \<times> 'k list \<times> u64 list \<Rightarrow> (('s \<times> 'k list \<times> u64 list) \<times> bool) res" where
  "snapshot_body I S e_key it a =
     (let (s, t_set, l_set) = a in
      rbind (cur_key_impl I it) (\<lambda>k.
      if k > e_key then Inr (a, True)
      else rbind (opaque_val_impl I it) (\<lambda>l.
           rbind (add_impl S s k l t_set l_set) (\<lambda>a'. Inr (a', False)))))"

definition snapshot_train_labels :: "('it, 'k::linorder) key_iter_ops \<Rightarrow> ('s, 'k) sample_ops \<Rightarrow> nat
    \<Rightarrow> ('k, 'w::len word) xml_trainer \<Rightarrow> 'it \<Rightarrow> 's \<Rightarrow> ('it \<times> 's \<times> 'k list \<times> u64 list) res option" where
  "snapshot_train_labels I S n tr it s =
     (let s_key = start_key tr; e_key = end_key tr in
      fbind (Some (seek_impl I it s_key)) (\<lambda>it1.
      fbind (it_for I n (snapshot_body I S e_key) it1 (s, [], [])) (\<lambda>(it2, s1, ts, ls).
      Some (rbind (finalize_impl S s1 ts ls) (\<lambda>(s2, ts', ls'). Inr (it2, s2, ts', ls'))))))"

definition shrink_set :: "('s, 'k) sample_ops \<Rightarrow> 's \<Rightarrow> 'k list \<Rightarrow> u64 list
    \<Rightarrow> ('s \<times> 'k list \<times> u64 list) res" where
  "shrink_set S ss train_set train_label =
     rbind (foldl (\<lambda>acc i. rbind acc (\<lambda>(ss, sts, sls).
              if i < length train_label
              then add_impl S ss (train_set ! i) (train_label ! i) sts sls else Inl OutOfRange))
            (Inr (ss, [], [])) [0..<length train_set]) (\<lambda>(ss, sts, sls).
     finalize_impl S ss sts sls)"

text \<open>The result: the submodel, the trainer, the iterator and both samplers.\<close>

definition train_w_it_w_shrink :: "('m, 'k::linorder) ml_ops \<Rightarrow> ('it, 'k) key_iter_ops \<Rightarrow> ('s, 'k) sample_ops
    \<Rightarrow> ('r, 'k) sample_ops \<Rightarrow> update_fun \<Rightarrow> nat \<Rightarrow> ('k, 'w::len word) xml_trainer \<Rightarrow> 'it \<Rightarrow> 's \<Rightarrow> 'r
    \<Rightarrow> ('m xsubmodel \<times> ('k, 'w word) xml_trainer \<times> 'it \<times> 's \<times> 'r) res option" where
  "train_w_it_w_shrink M I S R f n tr it s ss =
     (let model = XSubModel (ml_init M) in
      if \<not> need_train tr then Some (Inr (model, tr, it, s, ss))
      else
        fbind (snapshot_train_labels I S n tr it s) (\<lambda>(it', s', train_set, train_label).
        fbind (Some (shrink_set R ss train_set train_label)) (\<lambda>(ss', s_train_set, s_train_label).
        fbind (Some (train_ml (\<lambda>m d l. ml_train M m d l 1) model s_train_set s_train_label)) (\<lambda>model1.
        fbind (cal_error (ml_predict M) f model1 train_set train_label) (\<lambda>model2.
        Some (Inr (model2, tr\<lparr>l_watermark := l_watermark tr + 1\<rparr>, it', s', ss')))))))"

definition train_w_it :: "('m, 'k::linorder) ml_ops \<Rightarrow> ('it, 'k) key_iter_ops \<Rightarrow> ('s, 'k) sample_ops
    \<Rightarrow> update_fun \<Rightarrow> nat \<Rightarrow> ('k, 'w::len word) xml_trainer \<Rightarrow> 'it \<Rightarrow> 's
    \<Rightarrow> ('m xsubmodel \<times> ('k, 'w word) xml_trainer \<times> 'it \<times> 's) res option" where
  "train_w_it M I S f n tr it s =
     fbind (train_w_it_w_shrink M I S default_sample f n tr it s ()) (\<lambda>(md, tr', it', s', _).
     Some (Inr (md, tr', it', s')))"

definition trainer_train :: "('m, 'k::linorder) ml_ops \<Rightarrow> ('it, 'k) key_iter_ops \<Rightarrow> ('s, 'k) sample_ops
    \<Rightarrow> update_fun \<Rightarrow> nat \<Rightarrow> ('k, 'w::len word) xml_trainer \<Rightarrow> 's
    \<Rightarrow> ('m xsubmodel \<times> ('k, 'w word) xml_trainer \<times> 's) res option" where
  "trainer_train M I S f n tr s =
     fbind (Some (from_impl I)) (\<lambda>it.
     fbind (train_w_it M I S f n tr it s) (\<lambda>(md, tr', it', s'). Some (Inr (md, tr', s'))))"


section \<open>Collecting keys\<close>

lemma Min_top_snoc:
  "Min (insert (top :: 'k::{linorder,order_top}) (insert k (set ks))) = min (Min (insert top (set ks))) k"
  by (subst insert_commute) (simp add: min.commute del: Min_insert add: Min_insert [of "insert top (set ks)"])

lemma Max_bot_snoc:
  "Max (insert (bot :: 'k::{linorder,order_bot}) (insert k (set ks))) = max (Max (insert bot (set ks))) k"
  by (subst insert_commute) (simp add: max.commute del: Max_insert add: Max_insert [of "insert bot (set ks)"])

lemma update_keys:
  "foldl update_key (XMLTrainer :: ('k::{linorder,order_bot,order_top}, 'w::len word) xml_trainer) ks =
    \<lparr>start_key = Min (insert top (set ks)), end_key = Max (insert bot (set ks)), l_watermark = 0,
     h_watermark = (if ks = [] then 0 else 1), nkeys_update = of_nat (length ks),
     trainer_name = ''trainer''\<rparr>"
proof (induction ks rule: rev_induct)
  case Nil
  show ?case by (simp add: XMLTrainer_def)
next
  case (snoc k ks)
  then show ?case
    by (simp add: update_key_def Let_def need_train_def Min_top_snoc Max_bot_snoc word_gt_0)
qed

section \<open>Loops over an iterator\<close>

text \<open>The loop over the pairs the iterator stands for; the pairs left at the break are kept.\<close>

fun for_pairs :: "('k \<Rightarrow> u64 \<Rightarrow> 'a \<Rightarrow> ('a \<times> bool) res) \<Rightarrow> ('k \<times> u64) list \<Rightarrow> 'a
    \<Rightarrow> ('a \<times> ('k \<times> u64) list) res" where
  "for_pairs g [] a = Inr (a, [])"
| "for_pairs g ((k, ov) # xs) a =
     rbind (g k ov a) (\<lambda>(a', brk). if brk then Inr (a', (k, ov) # xs) else for_pairs g xs a')"

text \<open>The iterators the loops take, with \<open>rep it xs\<close> as in \<open>key_iter\<close>.\<close>

locale ops_iter =
  key_iter "has_next_impl I" "next_impl I" "cur_key_impl I" "opaque_val_impl I" rep
  for I :: "('it, 'k::linorder) key_iter_ops" and rep :: "'it \<Rightarrow> ('k \<times> u64) list \<Rightarrow> bool"
begin

lemma it_for_rep:
  assumes "rep it xs" and "length xs < n" and "for_pairs g xs a = Inr (a', rest)"
    and body: "\<And>it k ov xs a. rep it ((k, ov) # xs) \<Longrightarrow> body it a = g k ov a"
  shows "\<exists>it'. it_for I n body it a = Some (Inr (it', a')) \<and> rep it' rest"
  using assms(1-3)
proof (induction xs arbitrary: n it a)
  case Nil
  then obtain m where "n = Suc m" by (cases n) auto
  then show ?case using Nil has_next_rep [OF Nil(1)] by auto
next
  case (Cons x xs)
  obtain k ov where x: "x = (k, ov)" by fastforce
  obtain m where m: "n = Suc m" using Cons.prems(2) by (cases n) auto
  obtain a1 brk where g: "g k ov a = Inr (a1, brk)"
    "(if brk then Inr (a1, x # xs) else for_pairs g xs a1) = Inr (a', rest)"
    using Cons.prems(3) unfolding x by (auto simp: rbind_Inr_iff)
  have hn: "has_next_impl I it" using has_next_rep [OF Cons.prems(1)] by simp
  have b: "body it a = Inr (a1, brk)" using body Cons.prems(1) g(1) unfolding x by metis
  show ?case
  proof (cases brk)
    case True
    then show ?thesis using g(2) hn b Cons.prems(1) by (auto simp: m)
  next
    case False
    obtain it' where it': "next_impl I it = Inr it'" "rep it' xs" using next_rep [OF Cons.prems(1)] by blast
    have "length xs < m" using Cons.prems(2) m by simp
    moreover have "for_pairs g xs a1 = Inr (a', rest)" using g(2) False by simp
    ultimately show ?thesis using Cons.IH [OF it'(2)] hn b False it'(1) by (simp add: m)
  qed
qed

end

text \<open>
  Iterators over keys with a least and a greatest element, an iterator that scans all pairs from
  \<open>begin\<close> on, and one that can \<open>seek\<close> a key.
\<close>

locale full_iter = ops_iter I rep
  for I :: "('it, 'k::{linorder,order_bot,order_top}) key_iter_ops" and rep

locale scan_iter = full_iter I rep
  for I :: "('it, 'k::{linorder,order_bot,order_top}) key_iter_ops" and rep +
  fixes all_pairs :: "('k \<times> u64) list"
  assumes scan_rep: "\<exists>it it1. from_impl I = Inr it \<and> begin_impl I it = Inr it1 \<and> rep it1 all_pairs"

locale train_iter = ops_iter I rep
  for I :: "('it, 'k::linorder) key_iter_ops" and rep +
  fixes ready :: "'it \<Rightarrow> 'k \<Rightarrow> bool" and pairs_from :: "'k \<Rightarrow> ('k \<times> u64) list"
  assumes seek_rep: "ready it k \<Longrightarrow> \<exists>it'. seek_impl I it k = Inr it' \<and> rep it' (pairs_from k)"
    and pairs_sorted: "ready it k \<Longrightarrow> sorted_wrt (<) (map fst (pairs_from k)) \<and> sorted_wrt (<) (map snd (pairs_from k))"

lemma for_pairs_snapshot:
  assumes "feed add s (takeWhile (\<lambda>p. fst p \<le> e) xs) ts ls = Inr a"
  shows "for_pairs (\<lambda>k l b. if k > e then Inr (b, True)
      else rbind (add (fst b) k l (fst (snd b)) (snd (snd b))) (\<lambda>a'. Inr (a', False))) xs (s, ts, ls) =
    Inr (a, dropWhile (\<lambda>p. fst p \<le> (e :: 'k::linorder)) xs)"
  using assms
proof (induction xs arbitrary: s ts ls)
  case (Cons x xs)
  obtain k l where x: "x = (k, l)" by fastforce
  show ?case
  proof (cases "k \<le> e")
    case True
    obtain s1 ts1 ls1 where "add s k l ts ls = Inr (s1, ts1, ls1)"
      "feed add s1 (takeWhile (\<lambda>p. fst p \<le> e) xs) ts1 ls1 = Inr a"
      using Cons.prems True unfolding x by (auto simp: rbind_Inr_iff)
    then show ?thesis using Cons.IH True by (simp add: x leD)
  next
    case False
    then have "k > e" by simp
    then show ?thesis using Cons.prems False by (simp add: x)
  qed
qed simp

context train_iter
begin

text \<open>What the trainer walks over: the pairs from the start key up to the end key.\<close>

definition window :: "('k, 'w::len word) xml_trainer \<Rightarrow> ('k \<times> u64) list" where
  "window tr = takeWhile (\<lambda>p. fst p \<le> end_key tr) (pairs_from (start_key tr))"

lemma window_sorted:
  assumes "ready it (start_key tr)"
  shows "sorted_wrt (<) (map fst (window tr))" and "sorted_wrt (<) (map snd (window tr))"
  using pairs_sorted [OF assms] unfolding window_def
  by (metis map_append sorted_wrt_append takeWhile_dropWhile_id)+

lemma window_keys:
  assumes "ready it (start_key tr)"
  shows "p \<in> set (window tr) \<longleftrightarrow> p \<in> set (pairs_from (start_key tr)) \<and> fst p \<le> end_key tr"
proof
  assume "p \<in> set (window tr)"
  then show "p \<in> set (pairs_from (start_key tr)) \<and> fst p \<le> end_key tr"
    unfolding window_def by (auto dest: set_takeWhileD)
next
  let ?xs = "pairs_from (start_key tr)" and ?P = "\<lambda>p. fst p \<le> end_key tr"
  assume p: "p \<in> set ?xs \<and> fst p \<le> end_key tr"
  have s: "sorted_wrt (<) (map fst (takeWhile ?P ?xs @ dropWhile ?P ?xs))"
    using pairs_sorted [OF assms] by simp
  show "p \<in> set (window tr)"
  proof (rule ccontr)
    assume "p \<notin> set (window tr)"
    then have d: "p \<in> set (dropWhile ?P ?xs)"
      using p unfolding window_def by (metis Un_iff set_append takeWhile_dropWhile_id)
    then have ne: "dropWhile ?P ?xs \<noteq> []" by (cases "dropWhile ?P ?xs") simp_all
    then have h: "\<not> fst (hd (dropWhile ?P ?xs)) \<le> end_key tr" by (rule hd_dropWhile)
    have "fst (hd (dropWhile ?P ?xs)) \<le> fst p"
      using s d ne by (cases "dropWhile ?P ?xs") (auto simp: sorted_wrt_append)
    then have "fst (hd (dropWhile ?P ?xs)) \<le> end_key tr" using p order_trans by blast
    then show False using h by simp
  qed
qed

lemma snapshot_ok:
  assumes r: "ready it (start_key tr)" and n: "length (pairs_from (start_key tr)) < n"
    and s: "feed (add_impl S) s (window tr) [] [] = Inr (s1, ts, ls)"
    and f: "finalize_impl S s1 ts ls = Inr (s2, ts', ls')"
  shows "\<exists>it'. snapshot_train_labels I S n tr it s = Some (Inr (it', s2, ts', ls')) \<and>
    rep it' (dropWhile (\<lambda>p. fst p \<le> end_key tr) (pairs_from (start_key tr)))"
proof -
  let ?e = "end_key tr" and ?xs = "pairs_from (start_key tr)"
  let ?g = "\<lambda>k l b. if k > ?e then Inr (b, True)
    else rbind (add_impl S (fst b) k l (fst (snd b)) (snd (snd b))) (\<lambda>a'. Inr (a', False))"
  obtain it1 where it1: "seek_impl I it (start_key tr) = Inr it1" "rep it1 ?xs"
    using seek_rep [OF r] by blast
  have fp: "for_pairs ?g ?xs (s, [], []) = Inr ((s1, ts, ls), dropWhile (\<lambda>p. fst p \<le> ?e) ?xs)"
    using for_pairs_snapshot [of "add_impl S"] s unfolding window_def by blast
  have body: "snapshot_body I S ?e it a = ?g k ov a" if "rep it ((k, ov) # xs)" for it k ov xs a
    using cur_rep [OF that] opaque_rep [OF that] by (simp add: snapshot_body_def split: prod.split)
  obtain it2 where it2: "it_for I n (snapshot_body I S ?e) it1 (s, [], []) = Some (Inr (it2, (s1, ts, ls)))"
    "rep it2 (dropWhile (\<lambda>p. fst p \<le> ?e) ?xs)" using it_for_rep [where g = ?g and body = "snapshot_body I S ?e", OF it1(2) n fp] body by blast
  then show ?thesis using it1(1) f by (simp add: snapshot_train_labels_def)
qed

end

section \<open>Shrinking\<close>

lemma foldl_feed:
  assumes "length ls = length ts"
  shows "foldl (\<lambda>acc i. rbind acc (\<lambda>(ss, sts, sls).
      if i < length ls then add ss (ts ! i) (ls ! i) sts sls else Inl OutOfRange)) (Inr (ss, a, b)) [0..<length ts] =
    feed add ss (zip ts ls) a b"
proof -
  let ?f = "\<lambda>acc p. rbind acc (\<lambda>(ss, sts, sls). add ss (fst p) (snd p) sts sls)"
  have err: "foldl ?f (Inl e) ps = Inl e" for e ps by (induction ps) simp_all
  have "foldl ?f (Inr (ss, a, b)) ps = feed add ss ps a b" for ps
  proof (induction ps arbitrary: ss a b)
    case (Cons p ps)
    then show ?case by (cases p; cases "add ss (fst p) (snd p) a b") (simp_all add: err split: prod.split)
  qed simp
  moreover have "foldl ?f (Inr (ss, a, b)) (map (\<lambda>i. (ts ! i, ls ! i)) [0..<length ts]) =
      foldl (\<lambda>acc i. rbind acc (\<lambda>(ss, sts, sls).
        if i < length ls then add ss (ts ! i) (ls ! i) sts sls else Inl OutOfRange)) (Inr (ss, a, b)) [0..<length ts]"
    unfolding foldl_map by (rule foldl_cong) (use assms in \<open>auto intro!: arg_cong [of _ _ "rbind _"]\<close>)
  moreover have "map (\<lambda>i. (ts ! i, ls ! i)) [0..<length ts] = zip ts ls"
    using assms by (intro nth_equalityI) simp_all
  ultimately show ?thesis by metis
qed

lemma shrink_feed:
  "length ls = length ts \<Longrightarrow> shrink_set S ss ts ls =
    rbind (feed (add_impl S) ss (zip ts ls) [] []) (\<lambda>(s', sts, sls). finalize_impl S s' sts sls)"
  unfolding shrink_set_def by (subst foldl_feed) simp_all

lemma shrink_default: "length ls = length ts \<Longrightarrow> shrink_set default_sample () ts ls = Inr ((), ts, ls)"
  by (simp add: shrink_feed default_feed default_finalize_def)

section \<open>Training\<close>

locale training =
  train_iter I rep ready pairs_from +
  samp: sampler "add_impl S" "finalize_impl S" s0 keep +
  error_bound f page
  for I :: "('it, 'k::linorder) key_iter_ops" and rep ready pairs_from
    and S :: "('s, 'k) sample_ops" and s0 keep and f page
begin

text \<open>
  Training a submodel whose window is not empty: the range the model predicts for every key the
  sampler kept covers the page of its label, whatever the shrunk set and the trained model are, as
  long as predictions are \<^verbatim>\<open>int\<close>s and the last label in the shrunk set is on the last page.
\<close>

lemma trained:
  fixes tr :: "('k, 'w::len word) xml_trainer"
  assumes nt: "need_train tr" and r: "ready it (start_key tr)" and n: "length (pairs_from (start_key tr)) < n"
    and sh: "shrink_set R ss (map fst (keep (window tr))) (map snd (keep (window tr))) = Inr (ss', sts, sls)"
    and sl: "length sls = length sts" "sls \<noteq> []" "unat (last sls) < 2 ^ 30"
    and tm: "ml_train M (ml_init M) sts sls 1 = Inr m"
    and pr: "\<forall>p\<in>set (keep (window tr)). \<exists>r. double_to_int (ml_predict M m (fst p)) = Inr r"
    and ls: "\<forall>p\<in>set (keep (window tr)). unat (snd p) < 2 ^ 30 \<and> page (uint (snd p)) \<le> page (uint (last sls))"
  shows "\<exists>md it' s'. train_w_it_w_shrink M I S R f n tr it s0 ss =
      Some (Inr (md, tr\<lparr>l_watermark := l_watermark tr + 1\<rparr>, it', s', ss')) \<and>
    rep it' (dropWhile (\<lambda>p. fst p \<le> end_key tr) (pairs_from (start_key tr))) \<and>
    ml md = m \<and> smax md = uint (last sls) \<and> bounds_ok md \<and>
    (\<forall>p\<in>set (keep (window tr)). covers (ml_predict M) md (fst p) (snd p))"
proof -
  let ?K = "keep (window tr)"
  obtain s1 ts ls1 s2 where s: "feed (add_impl S) s0 (window tr) [] [] = Inr (s1, ts, ls1)"
    "finalize_impl S s1 ts ls1 = Inr (s2, map fst ?K, map snd ?K)"
    using samp.sampled [OF window_sorted [OF r]] by blast
  obtain it' where it': "snapshot_train_labels I S n tr it s0 = Some (Inr (it', s2, map fst ?K, map snd ?K))"
    "rep it' (dropWhile (\<lambda>p. fst p \<le> end_key tr) (pairs_from (start_key tr)))"
    using snapshot_ok [OF r n s] by blast
  have pr': "\<forall>k\<in>set (map fst ?K). \<exists>r. double_to_int (ml_predict M m k) = Inr r" using pr by auto
  have ls': "\<forall>l\<in>set (map snd ?K). unat l < 2 ^ 30 \<and> page (uint l) \<le> page (uint (last sls))" using ls by auto
  let ?train = "\<lambda>m d l. ml_train M m d l 1"
  obtain s1 md where md: "train_ml ?train (XSubModel (ml_init M)) sts sls = Inr s1"
    "cal_error (ml_predict M) f s1 (map fst ?K) (map snd ?K) = Some (Inr md)" "ml md = m" "smax md = uint (last sls)" "bounds_ok md"
    "\<forall>i<length (map fst ?K). covers (ml_predict M) md (map fst ?K ! i) (map snd ?K ! i)"
    using train_then_error_ok [where predict = "ml_predict M" and train = ?train, OF sl(1,2) tm sl(3) _ pr' ls']
    by auto
  have "covers (ml_predict M) md (fst p) (snd p)" if "p \<in> set ?K" for p
  proof -
    obtain i where "i < length ?K" "p = ?K ! i" using \<open>p \<in> set ?K\<close> by (auto simp: in_set_conv_nth)
    then show ?thesis using md(6) by auto
  qed
  then show ?thesis using nt it' sh md(1-5) by (auto simp: train_w_it_w_shrink_def)
qed

text \<open>What a training that has succeeded says about the model: it was trained on the shrunk set, and it
  predicts an \<^verbatim>\<open>int\<close> for every key the sampler kept.\<close>

lemma trained_inv:
  fixes tr :: "('k, 'w::len word) xml_trainer"
  assumes nt: "need_train tr" and r: "ready it (start_key tr)" and n: "length (pairs_from (start_key tr)) < n"
    and sh: "shrink_set R ss (map fst (keep (window tr))) (map snd (keep (window tr))) = Inr (ss', sts, sls)"
    and ok: "train_w_it_w_shrink M I S R f n tr it s0 ss = Some (Inr (md, x))"
  shows "ml_train M (ml_init M) sts sls 1 = Inr (ml md)"
    and "\<forall>p\<in>set (keep (window tr)). \<exists>r. double_to_int (ml_predict M (ml md) (fst p)) = Inr r"
proof -
  let ?K = "keep (window tr)"
  obtain s1 ts ls1 s2 where s: "feed (add_impl S) s0 (window tr) [] [] = Inr (s1, ts, ls1)"
    "finalize_impl S s1 ts ls1 = Inr (s2, map fst ?K, map snd ?K)"
    using samp.sampled [OF window_sorted [OF r]] by blast
  obtain it' where it': "snapshot_train_labels I S n tr it s0 = Some (Inr (it', s2, map fst ?K, map snd ?K))"
    using snapshot_ok [OF r n s] by blast
  obtain m1 where m1: "train_ml (\<lambda>m d l. ml_train M m d l 1) (XSubModel (ml_init M)) sts sls = Inr m1"
    "cal_error (ml_predict M) f m1 (map fst ?K) (map snd ?K) = Some (Inr md)"
    using ok nt it' sh by (auto simp: train_w_it_w_shrink_def fbind_Inr_iff)
  note e = cal_error_inv [OF m1(2)]
  show "ml_train M (ml_init M) sts sls 1 = Inr (ml md)"
    using m1(1) e(1) by (auto simp: train_ml_def XSubModel_def res_simps Let_def split: if_splits)
  show "\<forall>p\<in>set ?K. \<exists>r. double_to_int (ml_predict M (ml md) (fst p)) = Inr r"
  proof
    fix p assume "p \<in> set ?K"
    then obtain i where "i < length ?K" "p = ?K ! i" by (auto simp: in_set_conv_nth)
    then show "\<exists>r. double_to_int (ml_predict M (ml md) (fst p)) = Inr r" using e(2) [of i] e(1) by simp
  qed
qed

end

text \<open>
  What is asked of a learner for one training set: training on it returns a model, and this model
  predicts an \<^verbatim>\<open>int\<close> for the keys of the set.
\<close>

definition fits :: "('m, 'k) ml_ops \<Rightarrow> ('k \<times> u64) list \<Rightarrow> bool" where
  "fits M W \<longleftrightarrow> (\<exists>m. ml_train M (ml_init M) (map fst W) (map snd W) 1 = Inr m \<and>
     (\<forall>p\<in>set W. \<exists>x. double_to_int (ml_predict M m (fst p)) = Inr x))"

section \<open>Properties\<close>

text \<open>A fresh trainer that was given keys asks to be trained exactly when there was one, is
  responsible for the range from the least to the greatest of them, has counted them modulo the
  width of \<^verbatim>\<open>usize\<close>, and after one training does not ask again.\<close>

theorem trainer_collects:
  fixes ks :: "'k::{linorder,order_bot,order_top} list"
  assumes "tr = foldl update_key (XMLTrainer :: ('k, 'w::len word) xml_trainer) ks" and "ks \<noteq> []"
  shows "need_train tr \<and> nkeys_update tr = of_nat (length ks) \<and>
    start_key tr = Min (set ks) \<and> end_key tr = Max (set ks) \<and>
    \<not> need_train (tr\<lparr>l_watermark := l_watermark tr + 1\<rparr>) \<and>
    \<not> need_train (XMLTrainer :: ('k, 'w word) xml_trainer)"
  unfolding assms(1) update_keys using assms(2)
  by (simp add: need_train_def XMLTrainer_def word_gt_0 min.absorb2 max.absorb2)

definition sample_trainer :: "(xkey, 32 word) xml_trainer" where
  "sample_trainer = foldl update_key XMLTrainer [XKey 4, XKey 2, XKey 9]"

theorem trainer_collects_witness:
  "need_train sample_trainer \<and> nkeys_update sample_trainer = of_nat (length [XKey 4, XKey 2, XKey 9]) \<and>
    start_key sample_trainer = Min (set [XKey 4, XKey 2, XKey 9]) \<and>
    end_key sample_trainer = Max (set [XKey 4, XKey 2, XKey 9]) \<and>
    \<not> need_train (sample_trainer\<lparr>l_watermark := l_watermark sample_trainer + 1\<rparr>) \<and>
    \<not> need_train (XMLTrainer :: (xkey, 32 word) xml_trainer)"
  by (rule trainer_collects) (simp_all add: sample_trainer_def)

end
