(* ===== verification/Dispatcher.thy ===== *)
theory Dispatcher
  imports Trainer
begin

text \<open>
  The dispatcher of \<^verbatim>\<open>xcache/src/dispatcher.hh\<close>: the first layer of the learned index, which maps a
  key to the number of a submodel. Its model predicts a position among all keys, which is scaled
  to the number of submodels. \<open>rnd\<close> rounds the exact result of an operation on \<^verbatim>\<open>double\<close>s.
\<close>

section \<open>State and operations\<close>

record ('m, 'u) dispatcher =
  dmodel :: 'm
  dispatch_num :: 'u
  up_bound :: u32

definition Dispatcher :: "'m \<Rightarrow> 'w::len word \<Rightarrow> ('m, 'w word) dispatcher res" where
  "Dispatcher m0 dn =
     rbind (cassert (dn > 0 \<and> dn < 4000000)) (\<lambda>_.
     Inr \<lparr>dmodel = m0, dispatch_num = dn, up_bound = 0\<rparr>)"

text \<open>The constructor that passes its further arguments on to the model makes no check.\<close>

definition Dispatcher_args :: "'m \<Rightarrow> 'w::len word \<Rightarrow> ('m, 'w word) dispatcher" where
  "Dispatcher_args m dn = \<lparr>dmodel = m, dispatch_num = dn, up_bound = 0\<rparr>"

definition double_to_usize :: "real \<Rightarrow> 'w::len word res" where
  "double_to_usize r =
     (let t = (if 0 \<le> r then \<lfloor>r\<rfloor> else \<lceil>r\<rceil>)
      in if 0 \<le> t \<and> t < 2 ^ LENGTH('w) then Inr (of_int t) else Inl OutOfRange)"

definition disp_predict :: "(real \<Rightarrow> real) \<Rightarrow> ('m, 'k) ml_ops \<Rightarrow> ('m, 'w::len word) dispatcher \<Rightarrow> 'k \<Rightarrow> u32
    \<Rightarrow> 'w word res" where
  "disp_predict rnd M d key mx =
     (let res = ml_predict M (dmodel d) key;
          res1 = (if res < 0 then 0 else res);
          res2 = (if res1 \<ge> real (unat mx) then rnd (real (unat (dispatch_num d - 1)))
                  else rnd (rnd (res1 / real (unat mx)) * real (unat (dispatch_num d))))
      in double_to_usize res2)"

text \<open>The format of the file is the model's; \<open>from_file\<close> reads it. The bound is cut to 32 bits.\<close>

definition disp_load_from_file :: "('m \<Rightarrow> 'm res) \<Rightarrow> ('m, 'u) dispatcher \<Rightarrow> u64 \<Rightarrow> ('m, 'u) dispatcher res" where
  "disp_load_from_file from_file d up =
     rbind (from_file (dmodel d)) (\<lambda>m. Inr (d\<lparr>dmodel := m, up_bound := ucast up\<rparr>))"

definition predict_raw :: "('m, 'k) ml_ops \<Rightarrow> ('m, 'u) dispatcher \<Rightarrow> 'k \<Rightarrow> real" where
  "predict_raw M d key = ml_predict M (dmodel d) key"

text \<open>\<open>count\<close> is a \<^verbatim>\<open>usize\<close>; it is the label of the key, and in the end the upper bound.\<close>

definition dispatch_body :: "('it, 'k) key_iter_ops \<Rightarrow> ('s, 'k) sample_ops \<Rightarrow> 'it
    \<Rightarrow> 's \<times> 'w::len word \<times> 'k list \<times> u64 list \<Rightarrow> (('s \<times> 'w word \<times> 'k list \<times> u64 list) \<times> bool) res" where
  "dispatch_body I S it a =
     (let (s, count, ts, ls) = a in
      rbind (cur_key_impl I it) (\<lambda>k.
      rbind (add_impl S s k (ucast count) ts ls) (\<lambda>(s', ts', ls').
      Inr ((s', count + 1, ts', ls'), False))))"

definition disp_train :: "('m, 'k) ml_ops \<Rightarrow> ('it, 'k) key_iter_ops \<Rightarrow> ('s, 'k) sample_ops \<Rightarrow> nat
    \<Rightarrow> ('m, 'w::len word) dispatcher \<Rightarrow> 's \<Rightarrow> (('m, 'w word) dispatcher \<times> 's \<times> nat) res option" where
  "disp_train M I S n d s =
     fbind (Some (from_impl I)) (\<lambda>it.
     fbind (Some (begin_impl I it)) (\<lambda>it1.
     fbind (it_for I n (dispatch_body I S) it1 (s, 0 :: 'w word, [], [])) (\<lambda>(it2, s', count, ts, ls).
     let d1 = d\<lparr>up_bound := ucast count\<rparr> in
     Some (rbind (ml_train M (dmodel d1) ts ls 1) (\<lambda>m.
     Inr (d1\<lparr>dmodel := m\<rparr>, s', length ts))))))"

definition default_train :: "('m, 'k) ml_ops \<Rightarrow> ('it, 'k) key_iter_ops \<Rightarrow> nat
    \<Rightarrow> ('m, 'w::len word) dispatcher \<Rightarrow> (('m, 'w word) dispatcher \<times> nat) res option" where
  "default_train M I n d = fbind (disp_train M I default_sample n d ()) (\<lambda>(d', _, c). Some (Inr (d', c)))"

definition meta_serialize :: "('m, 'w::len word) dispatcher \<Rightarrow> u8 list res" where
  "meta_serialize d =
     rbind (serialize_to 4 (le_bytes 4) (ucast (dispatch_num d) :: u32)) (\<lambda>a.
     rbind (serialize_to 4 (le_bytes 4) (up_bound d)) (\<lambda>b. Inr (a @ b)))"

definition disp_serialize :: "('m, 'k) ml_ops \<Rightarrow> ('m, 'w::len word) dispatcher \<Rightarrow> u8 list res" where
  "disp_serialize M d =
     rbind (meta_serialize d) (\<lambda>a. rbind (ml_serialize M (dmodel d)) (\<lambda>b. Inr (a @ b)))"

definition model_from_serialize :: "('m, 'k) ml_ops \<Rightarrow> ('m, 'w::len word) dispatcher \<Rightarrow> u8 list
    \<Rightarrow> ('m, 'w word) dispatcher res" where
  "model_from_serialize M d bs = rbind (ml_from_serialize M (dmodel d) bs) (\<lambda>m. Inr (d\<lparr>dmodel := m\<rparr>))"

text \<open>The constructor that reads a buffer; the branch that reads a file is left out.\<close>

definition disp_from_serialize :: "('m, 'k) ml_ops \<Rightarrow> u8 list \<Rightarrow> ('m, 'w::len word) dispatcher res" where
  "disp_from_serialize M bs =
     rbind (deserialize 4 of_le_bytes bs (length bs)) (\<lambda>dn :: u32.
     rbind (deserialize 4 of_le_bytes (drop 4 bs) (length bs)) (\<lambda>ub :: u32.
     rbind (cassert (length bs > 8)) (\<lambda>_.
     let d = \<lparr>dmodel = ml_init M, dispatch_num = ucast dn, up_bound = ub\<rparr>;
         rest = drop 8 bs
     in rbind (disp_serialize M d) (\<lambda>mine.
        rbind (cassert (length bs = length mine)) (\<lambda>_. model_from_serialize M d rest)))))"

section \<open>Prediction\<close>

lemma double_to_usize_ok:
  assumes "0 \<le> r" and "r \<le> real n" and "n < 2 ^ LENGTH('w)"
  shows "\<exists>w :: 'w::len word. double_to_usize r = Inr w \<and> unat w = nat \<lfloor>r\<rfloor> \<and> unat w \<le> n"
proof -
  have f: "0 \<le> \<lfloor>r\<rfloor>" "\<lfloor>r\<rfloor> \<le> int n" using assms(1,2) by (simp_all add: floor_le_iff)
  then have lt: "\<lfloor>r\<rfloor> < 2 ^ LENGTH('w)" using assms(3) by (metis of_nat_less_iff of_nat_numeral of_nat_power order_le_less_trans)
  have "unat (of_int \<lfloor>r\<rfloor> :: 'w word) = nat \<lfloor>r\<rfloor>"
    using f(1) lt by (simp add: unat_eq_nat_uint take_bit_int_eq_self unsigned_of_int)
  then show ?thesis using f lt assms(1) by (auto simp: double_to_usize_def)
qed

text \<open>The position a prediction is scaled to.\<close>

definition disp_pos :: "(real \<Rightarrow> real) \<Rightarrow> ('m, 'w::len word) dispatcher \<Rightarrow> real \<Rightarrow> u32 \<Rightarrow> real" where
  "disp_pos rnd d res mx = (let res1 = (if res < 0 then 0 else res) in
     if res1 \<ge> real (unat mx) then rnd (real (unat (dispatch_num d - 1)))
     else rnd (rnd (res1 / real (unat mx)) * real (unat (dispatch_num d))))"

lemma disp_predict_pos: "disp_predict rnd M d k mx = double_to_usize (disp_pos rnd d (ml_predict M (dmodel d) k) mx)"
  by (simp add: disp_predict_def disp_pos_def Let_def)

lemma disp_pos_bounds:
  assumes r: "rounding rnd" and n: "0 < dispatch_num d" "unat (dispatch_num d) \<le> 2 ^ 53"
  shows "0 \<le> disp_pos rnd d res mx" and "disp_pos rnd d res mx \<le> real (unat (dispatch_num d))"
proof -
  have frac_le: "0 \<le> q * real n \<and> q * real n \<le> real n" if "0 \<le> q \<and> q \<le> 1" for q n
    using that by (simp add: mult_left_le_one_le)
  let ?n = "unat (dispatch_num d)" and ?r = "if res < 0 then 0 else res" and ?m = "real (unat mx)"
  have "unat (dispatch_num d - 1) = ?n - 1" using n(1) by (simp add: unat_minus_one word_gt_0)
  then have top: "rnd (real (unat (dispatch_num d - 1))) = real (?n - 1)"
    using rounding_simps(2) [OF r, of "?n - 1"] n(2) by simp
  have q: "0 \<le> rnd (?r / ?m) \<and> rnd (?r / ?m) \<le> 1" if "?r < ?m"
  proof -
    have "0 < ?m" using that by (simp split: if_splits)
    then have "0 \<le> ?r / ?m" "?r / ?m \<le> 1" using that by simp_all
    then show ?thesis using rounding_simps(1,3,4) [OF r] by metis
  qed
  have "0 \<le> rnd (rnd (?r / ?m) * real ?n) \<and> rnd (rnd (?r / ?m) * real ?n) \<le> real ?n" if "?r < ?m"
  proof -
    have "0 \<le> rnd (?r / ?m) * real ?n" "rnd (?r / ?m) * real ?n \<le> real ?n"
      using frac_le [OF q [OF that]] by blast+
    then show ?thesis using rounding_simps(1-3) [OF r] n(2) by metis
  qed
  moreover have "real (?n - 1) \<le> real ?n" by (rule of_nat_mono) (rule diff_le_self)
  ultimately show "0 \<le> disp_pos rnd d res mx" "disp_pos rnd d res mx \<le> real ?n"
    unfolding disp_pos_def Let_def using top by (simp_all add: not_le)
qed

text \<open>The number predicted is at most \<open>dispatch_num\<close>: rounding up may reach it.\<close>

lemma disp_predict_le:
  fixes d :: "('m, 'w::len word) dispatcher"
  assumes "rounding rnd" and "0 < dispatch_num d" and "unat (dispatch_num d) \<le> 2 ^ 53"
  shows "\<exists>w. disp_predict rnd M d k mx = Inr w \<and> unat w \<le> unat (dispatch_num d) \<and>
    unat w = nat \<lfloor>disp_pos rnd d (ml_predict M (dmodel d) k) mx\<rfloor>"
  using double_to_usize_ok [where 'w = 'w, OF disp_pos_bounds [OF assms], of "ml_predict M (dmodel d) k" mx]
    unsigned_less [of "dispatch_num d"]
  unfolding disp_predict_pos by auto

section \<open>Serialization\<close>

text \<open>The operations of the linear model, as the servers use it in both layers.\<close>

definition lr_ops :: "((real \<times> real) list \<Rightarrow> u64 \<times> u64) \<Rightarrow> (u64 \<Rightarrow> real) \<Rightarrow> (real \<Rightarrow> real) \<Rightarrow> ('k \<Rightarrow> real)
    \<Rightarrow> ('k \<Rightarrow> real) \<Rightarrow> (lr, 'k) ml_ops" where
  "lr_ops dgels dval rnd to_scalar feature0 =
     \<lparr>ml_init = LR, ml_predict = lr_predict dval rnd to_scalar,
      ml_train = lr_train dgels rnd to_scalar feature0, ml_serialize = lr_serialize,
      ml_from_serialize = lr_from_serialize\<rparr>"

lemma lr_ops_serialize [simp]:
  "ml_serialize (lr_ops dgels dval rnd to_scalar feature0) = lr_serialize"
  "ml_from_serialize (lr_ops dgels dval rnd to_scalar feature0) = lr_from_serialize"
  "ml_init (lr_ops dgels dval rnd to_scalar feature0) = LR"
  by (simp_all add: lr_ops_def)

lemma disp_serialize_eq:
  "disp_serialize (lr_ops dgels dval rnd to_scalar feature0) d =
    Inr (le_bytes 4 (ucast (dispatch_num d) :: u32) @ le_bytes 4 (up_bound d) @
      le_bytes 8 (16 :: u64) @ lr_to_bytes (dmodel d))"
  by (simp add: disp_serialize_def meta_serialize_def serialize_to_def serialize_into_def
      lr_serialize_eq del: le_bytes.simps)

lemma disp_image_length:
  "length (le_bytes 4 (a :: u32) @ le_bytes 4 (b :: u32) @ le_bytes 8 (c :: u64) @ lr_to_bytes m) = 32"
  by (simp add: pod_lr.length_to_bytes del: le_bytes.simps)

lemma deserialize_u32: "4 \<le> n \<Longrightarrow> deserialize 4 of_le_bytes (le_bytes 4 (x :: u32) @ rest) n = Inr x"
  by (simp add: deserialize_def of_le_bytes_full del: le_bytes.simps of_le_bytes.simps)

lemma disp_image:
  fixes d :: "(lr, 'w::len word) dispatcher"
  assumes "unat (dispatch_num d) < 2 ^ 32"
  shows "\<exists>bs. disp_serialize (lr_ops dgels dval rnd to_scalar feature0) d = Inr bs \<and> length bs = 32 \<and>
    disp_from_serialize (lr_ops dgels dval rnd to_scalar feature0) bs = Inr d \<and>
    (\<forall>bs'. length bs' \<noteq> 32 \<longrightarrow> \<not> (\<exists>d' :: (lr, 'w word) dispatcher.
       disp_from_serialize (lr_ops dgels dval rnd to_scalar feature0) bs' = Inr d'))"
proof -
  let ?M = "lr_ops dgels dval rnd to_scalar feature0"
  let ?l = "le_bytes 8 (16 :: u64) @ lr_to_bytes (dmodel d)"
  let ?n = "ucast (dispatch_num d) :: u32"
  let ?bs = "le_bytes 4 ?n @ le_bytes 4 (up_bound d) @ ?l"
  have "ucast ?n = dispatch_num d"
    using assms(1) by (intro word_unat_eq_iff [THEN iffD2]) (simp add: unsigned_ucast_eq unsigned_take_bit_eq take_bit_nat_eq_self)
  then have d: "\<lparr>dmodel = LR, dispatch_num = ucast ?n, up_bound = up_bound d\<rparr>\<lparr>dmodel := dmodel d\<rparr> = d" by simp
  have l: "lr_from_serialize LR ?l = Inr (dmodel d)"
    by (rule lr_ml.from_serialize_ok) (simp add: lr_serialize_eq)
  have len: "length ?bs = 32" by (rule disp_image_length)
  have d4: "drop 4 ?bs = le_bytes 4 (up_bound d) @ ?l" and d8: "drop 8 ?bs = ?l" by simp_all
  have "disp_from_serialize ?M ?bs = Inr d"
    unfolding disp_from_serialize_def Let_def len d4 d8 disp_serialize_eq lr_ops_serialize
      model_from_serialize_def rbind_simps disp_image_length
    using d by (simp add: deserialize_u32 l del: le_bytes.simps)
  moreover have "\<not> (\<exists>d' :: (lr, 'w word) dispatcher. disp_from_serialize ?M bs' = Inr d')" if "length bs' \<noteq> 32" for bs'
    using that unfolding disp_from_serialize_def Let_def disp_serialize_eq disp_image_length
    by (auto simp: rbind_Inr_iff cassert_Inr_iff pod_lr.length_to_bytes)
  ultimately show ?thesis using len unfolding disp_serialize_eq by blast
qed

text \<open>A dispatcher over a linear model survives serialization as long as the number of submodels
  fits in 32 bits: its image has 32 bytes, reading it gives back the model, the number and the
  bound, and input of any other length is refused.\<close>

theorem dispatcher_roundtrip:
  fixes d :: "(lr, 'w::len word) dispatcher"
  assumes "unat (dispatch_num d) < 2 ^ 32"
  shows "\<exists>bs. disp_serialize (lr_ops dgels dval rnd to_scalar feature0) d = Inr bs \<and> length bs = 32 \<and>
    disp_from_serialize (lr_ops dgels dval rnd to_scalar feature0) bs = Inr d \<and>
    (\<forall>bs'. length bs' \<noteq> 32 \<longrightarrow> \<not> (\<exists>d' :: (lr, 'w word) dispatcher.
       disp_from_serialize (lr_ops dgels dval rnd to_scalar feature0) bs' = Inr d'))"
  using assms by (rule disp_image)

definition sample_dispatcher :: "(lr, 64 word) dispatcher" where
  "sample_dispatcher = \<lparr>dmodel = LR, dispatch_num = 1000, up_bound = 77\<rparr>"

theorem dispatcher_roundtrip_witness:
  "\<exists>bs. disp_serialize (lr_ops (\<lambda>_. (0, 0)) (\<lambda>_. 0) (\<lambda>x. x) real real) sample_dispatcher = Inr bs \<and> length bs = 32 \<and>
    disp_from_serialize (lr_ops (\<lambda>_. (0, 0)) (\<lambda>_. 0) (\<lambda>x. x) real real) bs = Inr sample_dispatcher \<and>
    (\<forall>bs'. length bs' \<noteq> 32 \<longrightarrow> \<not> (\<exists>d' :: (lr, 64 word) dispatcher.
       disp_from_serialize (lr_ops (\<lambda>_. (0, 0)) (\<lambda>_. 0) (\<lambda>x. x) real real) bs' = Inr d'))"
  by (rule dispatcher_roundtrip) (simp add: sample_dispatcher_def)

end
