(* ===== verification/Reports.thy ===== *)
theory Reports
  imports XModel
begin

text \<open>
  The recorders of \<^verbatim>\<open>xutils\<close> that training and evaluation fill: pairs for a plot (\<^verbatim>\<open>xy_data.hh\<close>), the
  average and range of a series (\<^verbatim>\<open>dist_report.hh\<close>, \<^verbatim>\<open>average_report.hh\<close>) and its percentiles
  (\<^verbatim>\<open>cdf.hh\<close>). Printing a number is a parameter; writing the text to a file is not modelled.
  The lemmas: the average is the mean of the series, and a percentile is one of its values.
\<close>

section \<open>XYData\<close>

definition newline :: string where
  "newline = [CHR 0x0A]"

record ('x, 'y) xy_data =
  xy :: "('x \<times> 'y) list"

definition XYData :: "('x, 'y) xy_data" where
  "XYData = \<lparr>xy = []\<rparr>"

definition xy_add :: "('x, 'y) xy_data \<Rightarrow> 'x \<Rightarrow> 'y \<Rightarrow> ('x, 'y) xy_data" where
  "xy_add d k v = d\<lparr>xy := xy d @ [(k, v)]\<rparr>"

text \<open>\<^verbatim>\<open>std::sort\<close> leaves the order of pairs with equal keys open; here it is the order they came in.\<close>

definition xy_finalize :: "('x::linorder, 'y) xy_data \<Rightarrow> ('x, 'y) xy_data" where
  "xy_finalize d = d\<lparr>xy := sort_key fst (xy d)\<rparr>"

definition xy_dump :: "('x \<Rightarrow> string) \<Rightarrow> ('y \<Rightarrow> string) \<Rightarrow> ('x, 'y) xy_data \<Rightarrow> string" where
  "xy_dump show_x show_y d =
     ''X = ['' @ concat (map (\<lambda>p. show_x (fst p) @ '','') (xy d)) @ '']'' @ newline @
     ''Y = ['' @ concat (map (\<lambda>p. show_y (snd p) @ '','') (xy d)) @ '']''"

section \<open>Average and range\<close>

text \<open>\<open>lo\<close> and \<open>hi\<close> are the limits \<^verbatim>\<open>min()\<close> and \<^verbatim>\<open>max()\<close> of the type; for \<^verbatim>\<open>double\<close>, \<open>lo\<close> is the least positive value.\<close>

record 'v dist_report =
  average :: real
  dmin :: 'v
  dmax :: 'v
  dnum :: u64

definition DistReport :: "'v \<Rightarrow> 'v \<Rightarrow> 'v dist_report" where
  "DistReport lo hi = \<lparr>average = 0, dmin = hi, dmax = lo, dnum = 1\<rparr>"

definition dist_add :: "(real \<Rightarrow> real) \<Rightarrow> ('v::linorder \<Rightarrow> real) \<Rightarrow> 'v dist_report \<Rightarrow> 'v \<Rightarrow> 'v dist_report" where
  "dist_add rnd dbl r v =
     r\<lparr>dmin := min v (dmin r), dmax := max v (dmax r),
       average := rnd (average r + rnd (rnd (dbl v - average r) / rnd (real (unat (dnum r))))),
       dnum := dnum r + 1\<rparr>"

definition dist_clear :: "'v \<Rightarrow> 'v \<Rightarrow> 'v dist_report \<Rightarrow> 'v dist_report" where
  "dist_clear lo hi r = r\<lparr>average := 0, dmin := hi, dmax := lo, dnum := 1\<rparr>"

text \<open>\<^verbatim>\<open>AvgReport\<close> of \<^verbatim>\<open>average_report.hh\<close> has the same members and methods.\<close>

definition AvgReport :: "'v \<Rightarrow> 'v \<Rightarrow> 'v dist_report" where
  "AvgReport lo hi = \<lparr>average = 0, dmin = hi, dmax = lo, dnum = 1\<rparr>"

definition avg_add :: "(real \<Rightarrow> real) \<Rightarrow> ('v::linorder \<Rightarrow> real) \<Rightarrow> 'v dist_report \<Rightarrow> 'v \<Rightarrow> 'v dist_report" where
  "avg_add rnd dbl r v =
     r\<lparr>dmin := min v (dmin r), dmax := max v (dmax r),
       average := rnd (average r + rnd (rnd (dbl v - average r) / rnd (real (unat (dnum r))))),
       dnum := dnum r + 1\<rparr>"

definition avg_clear :: "'v \<Rightarrow> 'v \<Rightarrow> 'v dist_report \<Rightarrow> 'v dist_report" where
  "avg_clear lo hi r = r\<lparr>average := 0, dmin := hi, dmax := lo, dnum := 1\<rparr>"

section \<open>CDF\<close>

record 'v cdf =
  cdf_name :: string
  all_data :: "'v list"
  others :: "'v dist_report"

definition CDF :: "'v \<Rightarrow> 'v \<Rightarrow> string \<Rightarrow> 'v cdf" where
  "CDF lo hi data_name = \<lparr>cdf_name = data_name, all_data = [], others = DistReport lo hi\<rparr>"

definition cdf_insert :: "(real \<Rightarrow> real) \<Rightarrow> ('v::linorder \<Rightarrow> real) \<Rightarrow> 'v cdf \<Rightarrow> 'v \<Rightarrow> 'v cdf" where
  "cdf_insert rnd dbl c v = c\<lparr>others := dist_add rnd dbl (others c) v, all_data := all_data c @ [v]\<rparr>"

definition cdf_clear :: "'v \<Rightarrow> 'v \<Rightarrow> 'v cdf \<Rightarrow> 'v cdf" where
  "cdf_clear lo hi c = c\<lparr>others := DistReport lo hi, all_data := []\<rparr>"

definition cdf_finalize :: "'v::linorder cdf \<Rightarrow> 'v cdf" where
  "cdf_finalize c = c\<lparr>all_data := sort (all_data c)\<rparr>"

text \<open>
  The position of a percentage. Without data the index is the result of \<^verbatim>\<open>0 - 1\<close>, which does not
  fit in an \<^verbatim>\<open>uint\<close>.
\<close>

definition index_transfer :: "(real \<Rightarrow> real) \<Rightarrow> 'v cdf \<Rightarrow> nat \<Rightarrow> nat res" where
  "index_transfer rnd c percentage =
     rbind (cassert (percentage \<le> 100)) (\<lambda>_.
     let n = length (all_data c);
         idx = \<lfloor>rnd (rnd (real percentage / 100) * real n)\<rfloor>
     in if idx \<ge> int n then (if n = 0 then Inl OutOfRange else Inr (n - 1)) else Inr (nat idx))"

definition cdf_at :: "(real \<Rightarrow> real) \<Rightarrow> 'v cdf \<Rightarrow> nat \<Rightarrow> 'v res" where
  "cdf_at rnd c i = rbind (index_transfer rnd c i) (\<lambda>j.
     if j < length (all_data c) then Inr (all_data c ! j) else Inl OutOfRange)"

definition dquote :: string where
  "dquote = [CHR 0x22]"

definition cdf_dump :: "(real \<Rightarrow> real) \<Rightarrow> (nat \<Rightarrow> string) \<Rightarrow> ('v \<Rightarrow> string) \<Rightarrow> 'v cdf \<Rightarrow> string \<Rightarrow> string
    \<Rightarrow> string res" where
  "cdf_dump rnd show_i show_v c ylabel xlabel =
     (if length (all_data c) = 0 then Inr ''[]''
      else rbind (foldl (\<lambda>acc i. rbind acc (\<lambda>(x, y).
                    rbind (cdf_at rnd c i) (\<lambda>v. Inr (x @ show_i i @ '','', y @ show_v v @ '',''))))
                  (Inr (''X = ['', ''Y = ['')) [1..<100]) (\<lambda>(x, y).
           Inr (x @ '']'' @ newline @ y @ '']'' @ newline @
                ''title = '' @ dquote @ cdf_name c @ dquote @ newline @
                ''ylabel = '' @ dquote @ ylabel @ dquote @ newline @
                ''xlabel = '' @ dquote @ xlabel @ dquote @ newline)))"

definition dump_from_vec :: "(real \<Rightarrow> real) \<Rightarrow> (nat \<Rightarrow> string) \<Rightarrow> ('v::linorder \<Rightarrow> string) \<Rightarrow> 'v \<Rightarrow> 'v \<Rightarrow> 'v list
    \<Rightarrow> string \<Rightarrow> string \<Rightarrow> string \<Rightarrow> string res" where
  "dump_from_vec rnd show_i show_v lo hi data nm ylabel xlabel =
     (let temp = (CDF lo hi nm)\<lparr>all_data := data\<rparr>
      in cdf_dump rnd show_i show_v (cdf_finalize temp) ylabel xlabel)"

section \<open>The average\<close>

lemma running_mean:
  fixes n :: real
  assumes "0 < n"
  shows "s / n + (d - s / n) / (n + 1) = (s + d) / (n + 1)"
proof -
  have "n + 1 \<noteq> 0" using assms by simp
  then have "s / n + (d - s / n) / (n + 1) = (s / n * (n + 1) + (d - s / n)) / (n + 1)"
    by (simp add: add_divide_distrib)
  also have "s / n * (n + 1) + (d - s / n) = s + d" using assms by (simp add: distrib_left)
  finally show ?thesis .
qed

lemma dist_add_step:
  assumes "\<And>x. rnd x = x"
  shows "dist_add rnd dbl \<lparr>average = a, dmin = lo, dmax = hi, dnum = k\<rparr> v =
    \<lparr>average = a + (dbl v - a) / real (unat k), dmin = min v lo, dmax = max v hi, dnum = k + 1\<rparr>"
  by (simp only: dist_add_def assms dist_report.simps)

lemma dist_adds:
  fixes vs :: "'v::linorder list"
  assumes "length vs + 1 < 2 ^ 64" and "\<And>x. rnd x = x"
  shows "foldl (dist_add rnd dbl) (DistReport lo hi) vs =
    \<lparr>average = (if vs = [] then 0 else sum_list (map dbl vs) / real (length vs)),
     dmin = fold min vs hi, dmax = fold max vs lo, dnum = of_nat (length vs + 1)\<rparr>"
  using assms(1)
proof (induction vs rule: rev_induct)
  case Nil
  show ?case by (simp add: DistReport_def)
next
  case (snoc v vs)
  let ?n = "real (length vs)"
  have "unat (of_nat (length vs + 1) :: u64) = length vs + 1"
    using snoc.prems by (simp only: unat_of_nat) (simp add: take_bit_nat_eq_self)
  then have "real (unat (of_nat (length vs + 1) :: u64)) = ?n + 1" by (simp only: of_nat_add of_nat_1)
  moreover have "(if vs = [] then 0 else sum_list (map dbl vs) / ?n) +
      (dbl v - (if vs = [] then 0 else sum_list (map dbl vs) / ?n)) / (?n + 1) =
      sum_list (map dbl (vs @ [v])) / (?n + 1)"
  proof (cases "vs = []")
    case False
    then have "0 < ?n" by simp
    from running_mean [OF this] show ?thesis using False by simp
  qed simp
  moreover have "foldl (dist_add rnd dbl) (DistReport lo hi) vs =
    \<lparr>average = (if vs = [] then 0 else sum_list (map dbl vs) / ?n),
     dmin = fold min vs hi, dmax = fold max vs lo, dnum = of_nat (length vs + 1)\<rparr>"
    using snoc by simp
  ultimately show ?case unfolding foldl_append foldl.simps
    by (simp only: dist_add_step [OF assms(2)]) simp
qed

text \<open>With exact arithmetic the running average of a recorder is the mean of the values added, and
  its range is their least and greatest value together with the limits it started from.\<close>

theorem dist_report_mean:
  assumes "length vs + 1 < 2 ^ 64" and "vs \<noteq> []"
  shows "average (foldl (dist_add (\<lambda>x. x) dbl) (DistReport lo hi) vs) = sum_list (map dbl vs) / real (length vs) \<and>
    dmin (foldl (dist_add (\<lambda>x. x) dbl) (DistReport lo hi) vs) = Min (set (hi # vs)) \<and>
    dmax (foldl (dist_add (\<lambda>x. x) dbl) (DistReport lo hi) vs) = Max (set (lo # vs))"
  using dist_adds [OF assms(1), of "\<lambda>x. x" dbl lo hi] assms(2)
  by (simp only: Min.set_eq_fold Max.set_eq_fold) simp

theorem dist_report_mean_witness:
  "average (foldl (dist_add (\<lambda>x. x) real_of_int) (DistReport (-100) 100) [3, 8, 4]) =
     sum_list (map real_of_int [3, 8, 4]) / real (length [3, 8, 4 :: int]) \<and>
   dmin (foldl (dist_add (\<lambda>x. x) real_of_int) (DistReport (-100) 100) [3, 8, 4]) = Min (set [100, 3, 8, 4]) \<and>
   dmax (foldl (dist_add (\<lambda>x. x) real_of_int) (DistReport (-100) 100) [3, 8, 4]) = Max (set [-100, 3, 8, 4])"
  by (rule dist_report_mean) simp_all

section \<open>Percentiles\<close>

lemma index_transfer_ok:
  assumes r: "rounding rnd" and n: "0 < length (all_data c)" and p: "p \<le> 100"
  shows "index_transfer rnd c p =
    Inr (min (length (all_data c) - 1) (nat \<lfloor>rnd (rnd (real p / 100) * real (length (all_data c)))\<rfloor>))"
proof -
  have "0 \<le> rnd (real p / 100)" using rounding_simps(1) [OF r, of 0 "real p / 100"] rounding_simps(3) [OF r] by simp
  then have "0 \<le> rnd (rnd (real p / 100) * real (length (all_data c)))"
    using rounding_simps(1) [OF r, of 0 "rnd (real p / 100) * real (length (all_data c))"] rounding_simps(3) [OF r] by simp
  then have f: "0 \<le> \<lfloor>rnd (rnd (real p / 100) * real (length (all_data c)))\<rfloor>" by simp
  then show ?thesis using n p unfolding index_transfer_def Let_def
    by (auto simp: min_def nat_less_iff le_nat_iff)
qed

text \<open>A percentile of finalized data is one of the values recorded, and percentiles increase with
  the percentage.\<close>

theorem cdf_percentiles:
  fixes c :: "'v::linorder cdf"
  assumes r: "rounding rnd" and n: "all_data c \<noteq> []" and pq: "p \<le> q" "q \<le> 100"
  shows "\<exists>a b. cdf_at rnd (cdf_finalize c) p = Inr a \<and> cdf_at rnd (cdf_finalize c) q = Inr b \<and>
    a \<in> set (all_data c) \<and> b \<in> set (all_data c) \<and> a \<le> b"
proof -
  let ?c = "cdf_finalize c" and ?l = "sort (all_data c)"
  let ?i = "\<lambda>p. min (length ?l - 1) (nat \<lfloor>rnd (rnd (real p / 100) * real (length ?l))\<rfloor>)"
  have l: "all_data ?c = ?l" "0 < length ?l" using n by (simp_all add: cdf_finalize_def)
  have at: "cdf_at rnd ?c x = Inr (?l ! ?i x)" and lt: "?i x < length ?l" if "x \<le> 100" for x
  proof -
    show "?i x < length ?l" using l(2) by (auto simp: min_def)
    then show "cdf_at rnd ?c x = Inr (?l ! ?i x)"
      using index_transfer_ok [OF r, of ?c x] l that by (simp add: cdf_at_def)
  qed
  have "rnd (real p / 100) \<le> rnd (real q / 100)" using pq by (intro rounding_simps(1) [OF r]) simp
  then have "rnd (rnd (real p / 100) * real (length ?l)) \<le> rnd (rnd (real q / 100) * real (length ?l))"
    by (intro rounding_simps(1) [OF r]) (simp add: mult_right_mono)
  then have "?i p \<le> ?i q" by (intro min.mono nat_mono floor_mono) simp_all
  then have "?l ! ?i p \<le> ?l ! ?i q" using lt [OF pq(2)] by (intro sorted_nth_mono) simp_all
  moreover have "?l ! ?i x \<in> set (all_data c)" if "x \<le> 100" for x
    using nth_mem [OF lt [OF that]] by simp
  moreover have "p \<le> 100" using pq by simp
  ultimately show ?thesis using at pq(2) by blast
qed

lemma rounding_id: "rounding (\<lambda>x. x)"
  by (simp add: rounding_def mono_def)

theorem cdf_percentiles_witness:
  "\<exists>a b. cdf_at (\<lambda>x. x) (cdf_finalize ((CDF 0 100 ''c'')\<lparr>all_data := [5 :: int, 1, 9]\<rparr>)) 10 = Inr a \<and>
    cdf_at (\<lambda>x. x) (cdf_finalize ((CDF 0 100 ''c'')\<lparr>all_data := [5, 1, 9]\<rparr>)) 90 = Inr b \<and>
    a \<in> set (all_data ((CDF 0 100 ''c'')\<lparr>all_data := [5, 1, 9]\<rparr>)) \<and>
    b \<in> set (all_data ((CDF 0 100 ''c'')\<lparr>all_data := [5, 1, 9]\<rparr>)) \<and> a \<le> b"
  by (rule cdf_percentiles [OF rounding_id]) simp_all

end
