(* ===== verification/TwoRMI.thy ===== *)
theory TwoRMI
  imports Dispatcher Reports
begin

text \<open>
  The two-layer learned index of \<^verbatim>\<open>xcache/src/rmi_2.hh\<close>: a dispatcher selects the submodel that is
  responsible for a key, and the submodel predicts the range of positions. The functions that dump
  predictions give the pairs they collect; the file they are written to is not modelled.

  The lemmas show that selection is total and, for a monotone first layer, monotone; that dispatching
  gives every key to the trainer of the submodel that will be asked for it; and that after
  training every key of the store is covered by the range predicted for it.
\<close>

section \<open>State and construction\<close>

text \<open>A submodel that was not trained or loaded is a null pointer.\<close>

record ('m, 's, 'u) two_rmi =
  first_layer :: "('m, 'u) dispatcher"
  second_layer :: "'s xsubmodel option list"

definition LocalTwoRMI :: "'m \<Rightarrow> 'w::len word \<Rightarrow> ('m, 's, 'w word) two_rmi res" where
  "LocalTwoRMI m0 num_sec =
     rbind (Dispatcher m0 num_sec) (\<lambda>d.
     Inr \<lparr>first_layer = d, second_layer = replicate (unat num_sec) None\<rparr>)"

definition LocalTwoRMI_args :: "'m \<Rightarrow> 'w::len word \<Rightarrow> ('m, 's, 'w word) two_rmi" where
  "LocalTwoRMI_args m dn =
     \<lparr>first_layer = Dispatcher_args m dn, second_layer = replicate (unat dn) None\<rparr>"

definition LocalTwoRMI_from :: "('m, 'k) ml_ops \<Rightarrow> u8 list \<Rightarrow> ('m, 's, 'w::len word) two_rmi res" where
  "LocalTwoRMI_from M s =
     rbind (disp_from_serialize M s) (\<lambda>d. Inr \<lparr>first_layer = d, second_layer = []\<rparr>)"

definition num_subs :: "('m, 's, 'w::len word) two_rmi \<Rightarrow> 'w word" where
  "num_subs r = of_nat (length (second_layer r))"

definition sub_deref :: "('m, 's, 'u) two_rmi \<Rightarrow> nat \<Rightarrow> 's xsubmodel res" where
  "sub_deref r i =
     (if i < length (second_layer r)
      then case second_layer r ! i of Some s \<Rightarrow> Inr s | None \<Rightarrow> Inl NullDeref
      else Inl OutOfRange)"

definition emplace_one_second_model :: "('s, 'k) ml_ops \<Rightarrow> ('m, 's, 'w::len word) two_rmi \<Rightarrow> u8 list
    \<Rightarrow> ('m, 's, 'w word) two_rmi res" where
  "emplace_one_second_model M2 r s =
     rbind (xsub_from_serialize (ml_serialize M2) (ml_from_serialize M2) (ml_init M2) s) (\<lambda>sub.
     Inr (r\<lparr>second_layer := second_layer r @ [Some sub]\<rparr>))"

section \<open>Prediction\<close>

text \<open>
  The size is unsigned, so \<open>size - 1\<close> is the greatest \<^verbatim>\<open>usize\<close> for an empty second layer; the test
  \<open>res < 0\<close> never holds.
\<close>

definition select_sec_model :: "(real \<Rightarrow> real) \<Rightarrow> ('m, 'k) ml_ops \<Rightarrow> ('m, 's, 'w::len word) two_rmi \<Rightarrow> 'k
    \<Rightarrow> 'w word res" where
  "select_sec_model rnd M r k =
     rbind (disp_predict rnd M (first_layer r) k (up_bound (first_layer r))) (\<lambda>res.
     if unat res \<ge> length (second_layer r) then Inr (of_int (int (length (second_layer r)) - 1))
     else Inr res)"

definition rmi_predict_range :: "(real \<Rightarrow> real) \<Rightarrow> ('m, 'k) ml_ops \<Rightarrow> ('s, 'k) ml_ops
    \<Rightarrow> ('m, 's, 'w::len word) two_rmi \<Rightarrow> 'k \<Rightarrow> (int \<times> int) res" where
  "rmi_predict_range rnd M M2 r k =
     rbind (select_sec_model rnd M r k) (\<lambda>model.
     rbind (sub_deref r (unat model)) (\<lambda>sub. get_predict_range (ml_predict M2) sub k))"

definition rmi_point_predict :: "(real \<Rightarrow> real) \<Rightarrow> ('m, 'k) ml_ops \<Rightarrow> ('s, 'k) ml_ops
    \<Rightarrow> ('m, 's, 'w::len word) two_rmi \<Rightarrow> 'k \<Rightarrow> int res" where
  "rmi_point_predict rnd M M2 r k =
     rbind (select_sec_model rnd M r k) (\<lambda>model.
     rbind (sub_deref r (unat model)) (\<lambda>sub. get_point_predict (ml_predict M2) sub k))"

definition rmi_predict_raw :: "(real \<Rightarrow> real) \<Rightarrow> ('m, 'k) ml_ops \<Rightarrow> ('s, 'k) ml_ops
    \<Rightarrow> ('m, 's, 'w::len word) two_rmi \<Rightarrow> 'k \<Rightarrow> real res" where
  "rmi_predict_raw rnd M M2 r k =
     rbind (select_sec_model rnd M r k) (\<lambda>model.
     rbind (sub_deref r (unat model)) (\<lambda>sub. Inr (get_predict_raw (ml_predict M2) sub k)))"

section \<open>Training\<close>

definition train_first :: "('m, 'k) ml_ops \<Rightarrow> ('it, 'k) key_iter_ops \<Rightarrow> ('a, 'k) sample_ops \<Rightarrow> nat
    \<Rightarrow> ('m, 's, 'w::len word) two_rmi \<Rightarrow> 'a \<Rightarrow> (('m, 's, 'w word) two_rmi \<times> 'a \<times> nat) res option" where
  "train_first M I S n r s =
     fbind (disp_train M I S n (first_layer r) s) (\<lambda>(d, s', c). Some (Inr (r\<lparr>first_layer := d\<rparr>, s', c)))"

definition default_train_first :: "('m, 'k) ml_ops \<Rightarrow> ('it, 'k) key_iter_ops \<Rightarrow> nat
    \<Rightarrow> ('m, 's, 'w::len word) two_rmi \<Rightarrow> (('m, 's, 'w word) two_rmi \<times> nat) res option" where
  "default_train_first M I n r =
     fbind (default_train M I n (first_layer r)) (\<lambda>(d, c). Some (Inr (r\<lparr>first_layer := d\<rparr>, c)))"

definition load_first_from_file :: "('m \<Rightarrow> 'm res) \<Rightarrow> ('m, 's, 'u) two_rmi \<Rightarrow> u64 \<Rightarrow> ('m, 's, 'u) two_rmi res" where
  "load_first_from_file from_file r up =
     rbind (disp_load_from_file from_file (first_layer r) up) (\<lambda>d. Inr (r\<lparr>first_layer := d\<rparr>))"

definition dispatch_keys_body :: "(real \<Rightarrow> real) \<Rightarrow> ('m, 'k::linorder) ml_ops \<Rightarrow> ('m, 's, 'w::len word) two_rmi
    \<Rightarrow> ('it, 'k) key_iter_ops \<Rightarrow> 'it \<Rightarrow> ('k, 'w word) xml_trainer list
    \<Rightarrow> (('k, 'w word) xml_trainer list \<times> bool) res" where
  "dispatch_keys_body rnd M r I it trainers =
     rbind (cur_key_impl I it) (\<lambda>k.
     rbind (select_sec_model rnd M r k) (\<lambda>model.
     rbind (cassert (unat model < length trainers)) (\<lambda>_.
     Inr (trainers[unat model := update_key (trainers ! unat model) k], False))))"

definition dispatch_keys_to_trainers :: "(real \<Rightarrow> real) \<Rightarrow> ('m, 'k::{linorder,order_bot,order_top}) ml_ops
    \<Rightarrow> ('it, 'k) key_iter_ops \<Rightarrow> nat \<Rightarrow> ('m, 's, 'w::len word) two_rmi
    \<Rightarrow> ('k, 'w word) xml_trainer list res option" where
  "dispatch_keys_to_trainers rnd M I n r =
     (let trainers = replicate (length (second_layer r)) XMLTrainer in
      fbind (Some (from_impl I)) (\<lambda>it.
      fbind (Some (begin_impl I it)) (\<lambda>it1.
      fbind (it_for I n (dispatch_keys_body rnd M r I) it1 trainers) (\<lambda>(_, trainers').
      Some (Inr trainers')))))"

text \<open>The sampler is passed by reference: its state goes from one submodel to the next.\<close>

definition train_second_step :: "('s, 'k::linorder) ml_ops \<Rightarrow> ('it, 'k) key_iter_ops \<Rightarrow> ('a, 'k) sample_ops
    \<Rightarrow> update_fun \<Rightarrow> nat \<Rightarrow> ('k, 'w::len word) xml_trainer list \<Rightarrow> ('m, 's, 'w word) two_rmi \<times> 'a \<Rightarrow> nat
    \<Rightarrow> (('m, 's, 'w word) two_rmi \<times> 'a) res option" where
  "train_second_step M2 I S f n trainers rs i =
     (let (r, s) = rs in
      fbind (trainer_train M2 I S f n (trainers ! i) s) (\<lambda>(md, _, s').
      Some (Inr (r\<lparr>second_layer := (second_layer r)[i := Some md]\<rparr>, s'))))"

definition train_second_models :: "(real \<Rightarrow> real) \<Rightarrow> ('m, 'k::{linorder,order_bot,order_top}) ml_ops
    \<Rightarrow> ('s, 'k) ml_ops \<Rightarrow> ('it, 'k) key_iter_ops \<Rightarrow> ('a, 'k) sample_ops \<Rightarrow> update_fun \<Rightarrow> nat
    \<Rightarrow> ('m, 's, 'w::len word) two_rmi \<Rightarrow> 'a \<Rightarrow> (('m, 's, 'w word) two_rmi \<times> 'a) res option" where
  "train_second_models rnd M M2 I S f n r s =
     fbind (Some (from_impl I)) (\<lambda>_.
     fbind (dispatch_keys_to_trainers rnd M I n r) (\<lambda>trainers.
     foldl (\<lambda>acc i. fbind acc (\<lambda>rs. train_second_step M2 I S f n trainers rs i)) (Some (Inr (r, s)))
       [0..<length (second_layer r)]))"

definition sub_serialize_sz :: "nat \<Rightarrow> nat" where
  "sub_serialize_sz ml_serialize_sz = ml_serialize_sz"

definition calculate_model_offset :: "('m, 's, 'w::len word) two_rmi \<Rightarrow> 'w word list res" where
  "calculate_model_offset r =
     foldl (\<lambda>acc i. rbind acc (\<lambda>offs.
         rbind (sub_deref r (i - 1)) (\<lambda>sub. Inr (offs @ [last offs + of_int (smax sub)]))))
       (Inr [0]) [1..<length (second_layer r)]"

section \<open>Dumps\<close>

definition dump_body :: "('it, 'k) key_iter_ops \<Rightarrow> ('k \<Rightarrow> real) \<Rightarrow> ('k \<Rightarrow> real res) \<Rightarrow> 'it \<Rightarrow> (real, real) xy_data
    \<Rightarrow> ((real, real) xy_data \<times> bool) res" where
  "dump_body I to_scalar y it a =
     rbind (cur_key_impl I it) (\<lambda>k. rbind (y k) (\<lambda>v. Inr (xy_add a (to_scalar k) v, False)))"

definition dump_first :: "('m, 'k) ml_ops \<Rightarrow> ('k \<Rightarrow> real) \<Rightarrow> ('it, 'k) key_iter_ops \<Rightarrow> nat
    \<Rightarrow> ('m, 's, 'w::len word) two_rmi \<Rightarrow> (real, real) xy_data res option" where
  "dump_first M to_scalar I n r =
     fbind (Some (from_impl I)) (\<lambda>it.
     fbind (it_for I n (dump_body I to_scalar (\<lambda>k. Inr (predict_raw M (first_layer r) k))) it XYData) (\<lambda>(_, all).
     Some (Inr (xy_finalize all))))"

definition dump_cdf_body :: "('it, 'k) key_iter_ops \<Rightarrow> ('k \<Rightarrow> real) \<Rightarrow> 'it \<Rightarrow> (real, real) xy_data \<times> nat
    \<Rightarrow> (((real, real) xy_data \<times> nat) \<times> bool) res" where
  "dump_cdf_body I to_scalar it a =
     (let (all, counter) = a in
      rbind (cur_key_impl I it) (\<lambda>k. Inr ((xy_add all (to_scalar k) (real counter), counter + 1), False)))"

definition rmi_dump_cdf :: "('k \<Rightarrow> real) \<Rightarrow> ('it, 'k) key_iter_ops \<Rightarrow> nat \<Rightarrow> (real, real) xy_data res option" where
  "rmi_dump_cdf to_scalar I n =
     fbind (Some (from_impl I)) (\<lambda>it.
     fbind (it_for I n (dump_cdf_body I to_scalar) it (XYData, 0)) (\<lambda>(_, all, _). Some (Inr all)))"

definition dump_all :: "(real \<Rightarrow> real) \<Rightarrow> ('m, 'k) ml_ops \<Rightarrow> ('s, 'k) ml_ops \<Rightarrow> ('k \<Rightarrow> real)
    \<Rightarrow> ('it, 'k) key_iter_ops \<Rightarrow> nat \<Rightarrow> ('m, 's, 'w::len word) two_rmi \<Rightarrow> (real, real) xy_data res option" where
  "dump_all rnd M M2 to_scalar I n r =
     fbind (Some (from_impl I)) (\<lambda>it.
     fbind (Some (calculate_model_offset r)) (\<lambda>offs.
     fbind (it_for I n (dump_body I to_scalar (\<lambda>k.
         rbind (select_sec_model rnd M r k) (\<lambda>m.
         rbind (rmi_predict_raw rnd M M2 r k) (\<lambda>p.
         if unat m < length offs then Inr (rnd (p + rnd (real (unat (offs ! unat m))))) else Inl OutOfRange))))
       it XYData) (\<lambda>(_, all). Some (Inr all))))"

definition dump_labels :: "(real \<Rightarrow> real) \<Rightarrow> ('m, 'k) ml_ops \<Rightarrow> ('k \<Rightarrow> real) \<Rightarrow> ('it, 'k) key_iter_ops \<Rightarrow> nat
    \<Rightarrow> ('m, 's, 'w::len word) two_rmi \<Rightarrow> ('k \<rightharpoonup> u64) list \<Rightarrow> (real, real) xy_data res option" where
  "dump_labels rnd M to_scalar I n r labels =
     fbind (Some (cassert (length labels = length (second_layer r)))) (\<lambda>_.
     fbind (Some (from_impl I)) (\<lambda>it.
     fbind (Some (calculate_model_offset r)) (\<lambda>offs.
     fbind (it_for I n (dump_body I to_scalar (\<lambda>k.
         rbind (select_sec_model rnd M r k) (\<lambda>m.
         if unat m < length labels then
           rbind (cassert ((labels ! unat m) k \<noteq> None)) (\<lambda>_.
           if unat m < length offs
           then Inr (rnd (real (unat (the ((labels ! unat m) k) + ucast (offs ! unat m)))))
           else Inl OutOfRange)
         else Inl OutOfRange)))
       it XYData) (\<lambda>(_, all). Some (Inr all)))))"

section \<open>Selection\<close>

lemma select_sec_model_ok:
  fixes r :: "('m, 's, 'w::len word) two_rmi"
  assumes rnd: "rounding rnd" and dn: "0 < dispatch_num (first_layer r)"
      "unat (dispatch_num (first_layer r)) \<le> 2 ^ 53"
    and sz: "0 < length (second_layer r)" "length (second_layer r) \<le> 2 ^ LENGTH('w)"
  shows "\<exists>m. select_sec_model rnd M r k = Inr m \<and> unat m < length (second_layer r) \<and>
    unat m = min (length (second_layer r) - 1)
      (nat \<lfloor>disp_pos rnd (first_layer r) (ml_predict M (dmodel (first_layer r)) k) (up_bound (first_layer r))\<rfloor>)"
proof -
  let ?n = "length (second_layer r)"
  obtain w where w: "disp_predict rnd M (first_layer r) k (up_bound (first_layer r)) = Inr w"
    "unat w = nat \<lfloor>disp_pos rnd (first_layer r) (ml_predict M (dmodel (first_layer r)) k) (up_bound (first_layer r))\<rfloor>"
    using disp_predict_le [where M = M and k = k and mx = "up_bound (first_layer r)", OF rnd dn]
    by (elim exE conjE) simp
  have "int ?n - 1 = int (?n - 1)" using sz(1) by linarith
  then have "(of_int (int ?n - 1) :: 'w word) = of_nat (?n - 1)" by (simp only: of_int_of_nat_eq)
  moreover have "unat (of_nat (?n - 1) :: 'w word) = ?n - 1"
    unfolding unat_of_nat by (rule mod_less) (use sz in linarith)
  ultimately have "unat (of_int (int ?n - 1) :: 'w word) = ?n - 1" by (simp only:)
  then show ?thesis using w sz(1) unfolding select_sec_model_def by auto
qed

lemma disp_pos_mono:
  assumes r: "rounding rnd" and n: "0 < dispatch_num d" "unat (dispatch_num d) \<le> 2 ^ 53" and xy: "x \<le> y"
  shows "min (unat (dispatch_num d) - 1) (nat \<lfloor>disp_pos rnd d x mx\<rfloor>) \<le>
    min (unat (dispatch_num d) - 1) (nat \<lfloor>disp_pos rnd d y mx\<rfloor>)"
proof -
  let ?n = "unat (dispatch_num d)" and ?c = "\<lambda>x :: real. if x < 0 then 0 else x" and ?m = "real (unat mx)"
  have top: "nat \<lfloor>disp_pos rnd d y mx\<rfloor> = ?n - 1" if "?c y \<ge> ?m"
  proof -
    have "unat (dispatch_num d - 1) = ?n - 1" using n(1) by (simp add: unat_minus_one word_gt_0)
    then have "rnd (real (unat (dispatch_num d - 1))) = real (?n - 1)"
      using rounding_simps(2) [OF r, of "?n - 1"] n(2) by simp
    then have "disp_pos rnd d y mx = real (?n - 1)" using that by (simp only: disp_pos_def Let_def if_True)
    then show ?thesis by (simp only: floor_of_nat nat_int)
  qed
  show ?thesis
  proof (cases "?c y \<ge> ?m")
    case True
    then show ?thesis using top by simp
  next
    case False
    have xy': "?c x \<le> ?c y" using xy by simp
    have "0 \<le> ?m" by (rule of_nat_0_le_iff)
    with xy' have c: "?c x / ?m \<le> ?c y / ?m" by (rule divide_right_mono)
    have "rnd (?c x / ?m) * real ?n \<le> rnd (?c y / ?m) * real ?n"
      by (intro mult_right_mono rounding_simps(1) [OF r] c of_nat_0_le_iff)
    then have "rnd (rnd (?c x / ?m) * real ?n) \<le> rnd (rnd (?c y / ?m) * real ?n)"
      by (rule rounding_simps(1) [OF r])
    moreover have "\<not> ?c x \<ge> ?m" using False xy' by linarith
    ultimately have "disp_pos rnd d x mx \<le> disp_pos rnd d y mx"
      using False by (simp only: disp_pos_def Let_def if_False)
    then show ?thesis by (intro min.mono nat_mono floor_mono) simp_all
  qed
qed

lemma select_sec_model_cong:
  "first_layer r' = first_layer r \<Longrightarrow> length (second_layer r') = length (second_layer r) \<Longrightarrow>
    select_sec_model rnd M r' k = select_sec_model rnd M r k"
  by (simp add: select_sec_model_def cong: if_cong)

section \<open>Dispatching\<close>

lemma foldl_update_at:
  assumes "\<And>k. k \<in> set ks \<Longrightarrow> m k < length ts"
  shows "foldl (\<lambda>ts k. ts[m k := h (ts ! m k) k]) ts ks =
    map (\<lambda>j. foldl h (ts ! j) (filter (\<lambda>k. m k = j) ks)) [0..<length ts]"
  using assms
proof (induction ks arbitrary: ts)
  case Nil
  show ?case by (simp add: map_nth)
next
  case (Cons k ks)
  then have k: "m k < length ts" by simp
  show ?case using Cons.IH [of "ts[m k := h (ts ! m k) k]"] Cons.prems k
    by (auto intro!: map_cong)
qed

lemma for_pairs_foldl:
  assumes "\<And>k ov a. (k, ov) \<in> set xs \<Longrightarrow> Q a \<Longrightarrow> g k ov a = Inr (h a k, False) \<and> Q (h a k)" and "Q a"
  shows "for_pairs g xs a = Inr (foldl h a (map fst xs), [])"
  using assms
proof (induction xs arbitrary: a)
  case (Cons x xs)
  obtain k ov where x: "x = (k, ov)" by fastforce
  have g: "g k ov a = Inr (h a k, False)" "Q (h a k)" using Cons.prems(1) [of k ov a] Cons.prems(2) x by auto
  have "for_pairs g xs (h a k) = Inr (foldl h (h a k) (map fst xs), [])"
    by (rule Cons.IH) (use Cons.prems(1) g(2) in auto)
  then show ?case using g(1) by (simp add: x)
qed simp

context full_iter
begin

text \<open>Every trainer gets the keys of its submodel, in the order of the scan.\<close>

lemma dispatch_ok:
  fixes r :: "('m, 's, 'w::len word) two_rmi"
  assumes it: "from_impl I = Inr it" "begin_impl I it = Inr it1" "rep it1 all_pairs"
    and n: "length all_pairs < n"
    and sel: "\<And>k. k \<in> set (map fst all_pairs) \<Longrightarrow>
      select_sec_model rnd M r k = Inr (sel k) \<and> unat (sel k) < length (second_layer r)"
  shows "dispatch_keys_to_trainers rnd M I n r = Some (Inr (map (\<lambda>j.
    foldl update_key XMLTrainer (filter (\<lambda>k. unat (sel k) = j) (map fst all_pairs)))
      [0..<length (second_layer r)]))"
proof -
  let ?N = "length (second_layer r)" and ?ks = "map fst all_pairs"
  let ?t0 = "replicate ?N XMLTrainer :: ('k, 'w word) xml_trainer list"
  let ?h = "\<lambda>ts k. ts[unat (sel k) := update_key (ts ! unat (sel k)) k]"
  let ?g = "\<lambda>k (ov :: u64) ts. rbind (select_sec_model rnd M r k) (\<lambda>model.
     rbind (cassert (unat model < length ts)) (\<lambda>_.
     Inr (ts[unat model := update_key (ts ! unat model) k], False)))"
  have fp: "for_pairs ?g all_pairs ?t0 = Inr (foldl ?h ?t0 ?ks, [])"
  proof (rule for_pairs_foldl [where Q = "\<lambda>ts. length ts = ?N"])
    fix k ov and ts :: "('k, 'w word) xml_trainer list"
    assume "(k, ov) \<in> set all_pairs" and l: "length ts = ?N"
    then have "k \<in> set ?ks" by (force simp: image_iff)
    from sel [OF this] l show "?g k ov ts = Inr (?h ts k, False) \<and> length (?h ts k) = ?N" by simp
  qed simp
  have body: "dispatch_keys_body rnd M r I it a = ?g k ov a" if "rep it ((k, ov) # xs)" for it k ov xs a
    using cur_rep [OF that] by (simp add: dispatch_keys_body_def)
  obtain it2 where it2: "it_for I n (dispatch_keys_body rnd M r I) it1 ?t0 = Some (Inr (it2, foldl ?h ?t0 ?ks))"
    using it_for_rep [where g = ?g and body = "dispatch_keys_body rnd M r I", OF it(3) n fp] body by blast
  have "foldl ?h ?t0 ?ks = map (\<lambda>j. foldl update_key XMLTrainer (filter (\<lambda>k. unat (sel k) = j) ?ks)) [0..<?N]"
    using foldl_update_at [of ?ks "\<lambda>k. unat (sel k)" ?t0 update_key] sel by (auto intro!: map_cong)
  then show ?thesis using it it2 by (simp add: dispatch_keys_to_trainers_def)
qed

end

section \<open>Training the second layer\<close>

lemma sorted_last_ge:
  assumes "sorted_wrt (<) (ls :: u64 list)" and "l \<in> set ls"
  shows "l \<le> last ls"
proof (cases ls rule: rev_exhaust)
  case (snoc ys y)
  then show ?thesis using assms by (auto simp: sorted_wrt_append intro: less_imp_le)
qed (use assms in simp)

lemma trainer_range:
  fixes ks :: "'k::{linorder,order_bot,order_top} list"
  defines "tr \<equiv> foldl update_key (XMLTrainer :: ('k, 'w::len word) xml_trainer) ks"
  assumes "ks \<noteq> []"
  shows "start_key tr \<in> set ks" and "\<forall>k\<in>set ks. start_key tr \<le> k \<and> k \<le> end_key tr"
    and "need_train tr" and "end_key tr \<in> set ks"
proof -
  have "start_key tr = Min (set ks)" "end_key tr = Max (set ks)"
    using assms(2) by (simp_all add: tr_def update_keys min.absorb2 max.absorb2)
  then show "start_key tr \<in> set ks" "\<forall>k\<in>set ks. start_key tr \<le> k \<and> k \<le> end_key tr" "end_key tr \<in> set ks"
    using assms(2) by simp_all
  show "need_train tr" using assms(2) by (simp add: tr_def update_keys need_train_def word_gt_0)
qed

lemma trainer_untrained:
  "from_impl I = Inr it \<Longrightarrow>
    trainer_train M I default_sample f n (XMLTrainer :: ('k::{linorder,order_bot,order_top}, 'w::len word) xml_trainer) () =
      Some (Inr (XSubModel (ml_init M), XMLTrainer, ()))"
  by (simp add: trainer_train_def train_w_it_def train_w_it_w_shrink_def need_train_def XMLTrainer_def)

text \<open>
  The iterator of one store: \<open>label\<close> is the opaque value of a key, the same in every scan, and after
  \<open>seek\<close> of a key of the store all greater keys follow.
\<close>

locale rmi_training =
  scan_iter I rep all_pairs +
  training I rep ready pairs_from default_sample "()" "\<lambda>xs. xs" f page
  for I :: "('it, 'k::{linorder,order_bot,order_top}) key_iter_ops" and rep all_pairs ready pairs_from f page +
  fixes label :: "'k \<Rightarrow> u64"
  assumes from_ready: "from_impl I = Inr it \<Longrightarrow> k \<in> set (map fst all_pairs) \<Longrightarrow> ready it k"
    and pairs_ge: "k \<in> set (map fst all_pairs) \<Longrightarrow> k' \<in> set (map fst all_pairs) \<Longrightarrow> k \<le> k' \<Longrightarrow>
      (k', label k') \<in> set (pairs_from k)"
    and pairs_small: "k \<in> set (map fst all_pairs) \<Longrightarrow> p \<in> set (pairs_from k) \<Longrightarrow> unat (snd p) < 2 ^ 30"
    and pairs_length: "k \<in> set (map fst all_pairs) \<Longrightarrow> length (pairs_from k) \<le> length all_pairs"
begin

lemma second_model_ok:
  fixes ks defines "tr \<equiv> foldl update_key (XMLTrainer :: ('k, 'w::len word) xml_trainer) ks"
  assumes ks: "set ks \<subseteq> set (map fst all_pairs)" and n: "length all_pairs < n"
    and M: "ks \<noteq> [] \<Longrightarrow> fits M (window tr)"
  shows "\<exists>md tr'. trainer_train M I default_sample f n tr () = Some (Inr (md, tr', ())) \<and>
    (\<forall>k\<in>set ks. covers (ml_predict M) md k (label k))"
proof -
  obtain it where it: "from_impl I = Inr it" using scan_rep by blast
  show ?thesis
  proof (cases "ks = []")
    case True
    then have "tr = XMLTrainer" by (simp add: tr_def)
    then show ?thesis
      using trainer_untrained [where 'w = 'w and M = M and f = f and n = n, OF it] True by auto
  next
    case False
    note t = trainer_range [OF False, where 'w = 'w, folded tr_def]
    let ?W = "window tr"
    have s: "start_key tr \<in> set (map fst all_pairs)" using t(1) ks by blast
    have r: "ready it (start_key tr)" using from_ready [OF it s] .
    have W: "(k, label k) \<in> set ?W" if "k \<in> set ks" for k
    proof -
      have "k \<in> set (map fst all_pairs)" "start_key tr \<le> k" "k \<le> end_key tr" using that ks t(2) by blast+
      then show ?thesis using window_keys [OF r] pairs_ge [OF s] by simp
    qed
    have ne: "map snd ?W \<noteq> []" "map fst ?W \<noteq> []" using W [OF t(1)] by auto
    obtain m where m: "ml_train M (ml_init M) (map fst ?W) (map snd ?W) 1 = Inr m"
      "\<forall>p\<in>set ?W. \<exists>x. double_to_int (ml_predict M m (fst p)) = Inr x"
      using M [OF False] unfolding fits_def by blast
    have small: "unat (snd p) < 2 ^ 30" if "p \<in> set ?W" for p
      using pairs_small [OF s] window_keys [OF r] that by blast
    have "last (map snd ?W) \<in> set (map snd ?W)" using ne(1) by (rule last_in_set)
    then have lst: "unat (last (map snd ?W)) < 2 ^ 30" using small by auto
    have le: "page (uint (snd p)) \<le> page (uint (last (map snd ?W)))" if "p \<in> set ?W" for p
    proof -
      have "snd p \<in> set (map snd ?W)" using that by simp
      from sorted_last_ge [OF window_sorted(2) [OF r] this] show ?thesis
        by (intro page_mono) (simp only: word_le_def)
    qed
    have len: "length (pairs_from (start_key tr)) < n" using pairs_length [OF s] n by simp
    obtain md it' s' where md: "train_w_it_w_shrink M I default_sample default_sample f n tr it () () =
        Some (Inr (md, tr\<lparr>l_watermark := l_watermark tr + 1\<rparr>, it', s', ()))"
      "\<forall>p\<in>set ?W. covers (ml_predict M) md (fst p) (snd p)"
      using trained [where M = M and R = default_sample and tr = tr, OF t(3) r len shrink_default _ ne(1) lst m(1)]
        m(2) small le by auto
    then show ?thesis using it W by (force simp: trainer_train_def train_w_it_def)
  qed
qed

lemma train_second_foldl:
  assumes "\<And>j. j < length (second_layer r) \<Longrightarrow>
    trainer_train M2 I default_sample f n (T ! j) () = Some (Inr (md j, tr' j, ()))"
    and "j \<le> length (second_layer r)"
  shows "foldl (\<lambda>acc i. fbind acc (\<lambda>rs. train_second_step M2 I default_sample f n T rs i))
      (Some (Inr (r, ()))) [0..<j] =
    Some (Inr (r\<lparr>second_layer := map (\<lambda>j. Some (md j)) [0..<j] @ drop j (second_layer r)\<rparr>, ()))"
  using assms(2)
proof (induction j)
  case (Suc j)
  then have "(map (\<lambda>j. Some (md j)) [0..<j] @ drop j (second_layer r))[j := Some (md j)] =
      map (\<lambda>j. Some (md j)) [0..<Suc j] @ drop (Suc j) (second_layer r)"
    by (simp add: list_update_append Cons_nth_drop_Suc [symmetric])
  then show ?case using Suc assms(1) [of j] by (simp add: train_second_step_def)
qed simp

text \<open>
  After \<open>train_second_models\<close> the range predicted for every key of the store covers the page of its
  label.
\<close>

lemma second_layer_ok:
  fixes r :: "('m, 's, 'w::len word) two_rmi" and M2 :: "('s, 'k) ml_ops"
  assumes rnd: "rounding rnd" and dn: "0 < dispatch_num (first_layer r)"
      "unat (dispatch_num (first_layer r)) \<le> 2 ^ 53"
    and sz: "0 < length (second_layer r)" "length (second_layer r) \<le> 2 ^ LENGTH('w)"
    and n: "length all_pairs < n"
    and M2: "\<And>k k'. k \<in> set (map fst all_pairs) \<Longrightarrow> k' \<in> set (map fst all_pairs) \<Longrightarrow> k \<le> k' \<Longrightarrow>
      fits M2 (takeWhile (\<lambda>p. fst p \<le> k') (pairs_from k))"
  shows "\<exists>r'. train_second_models rnd M M2 I default_sample f n r () = Some (Inr (r', ())) \<and>
    first_layer r' = first_layer r \<and> length (second_layer r') = length (second_layer r) \<and>
    (\<forall>k\<in>set (map fst all_pairs). \<exists>a b. rmi_predict_range rnd M M2 r' k = Inr (a, b) \<and> 0 \<le> a \<and>
       page a \<le> page (uint (label k)) \<and> page (uint (label k)) \<le> page b)"
proof -
  let ?N = "length (second_layer r)" and ?ks = "map fst all_pairs"
  obtain sel where sel: "\<And>k. select_sec_model rnd M r k = Inr (sel k)" "\<And>k. unat (sel k) < ?N"
    using select_sec_model_ok [where M = M, OF rnd dn sz] by metis
  let ?kf = "\<lambda>j. filter (\<lambda>k. unat (sel k) = j) ?ks"
  let ?T = "map (\<lambda>j. foldl update_key XMLTrainer (?kf j)) [0..<?N] :: ('k, 'w word) xml_trainer list"
  obtain it it1 where it: "from_impl I = Inr it" "begin_impl I it = Inr it1" "rep it1 all_pairs"
    using scan_rep by blast
  have T: "dispatch_keys_to_trainers rnd M I n r = Some (Inr ?T)"
    by (rule dispatch_ok [OF it n]) (use sel in blast)
  have "\<exists>md tr'. trainer_train M2 I default_sample f n (?T ! j) () = Some (Inr (md, tr', ())) \<and>
      (\<forall>k\<in>set (?kf j). covers (ml_predict M2) md k (label k))" if "j < ?N" for j
  proof -
    let ?tr = "foldl update_key (XMLTrainer :: ('k, 'w word) xml_trainer) (?kf j)"
    have "fits M2 (window ?tr)" if ne: "?kf j \<noteq> []"
    proof -
      have "start_key ?tr \<in> set (?kf j)" "end_key ?tr \<in> set (?kf j)" "start_key ?tr \<le> end_key ?tr"
        using trainer_range [OF ne, where 'w = 'w] by blast+
      then show ?thesis unfolding window_def by (intro M2) auto
    qed
    then show ?thesis using second_model_ok [where 'w = 'w, of "?kf j" n M2, OF _ n] that by auto
  qed
  then obtain md tr' where md: "\<And>j. j < ?N \<Longrightarrow>
      trainer_train M2 I default_sample f n (?T ! j) () = Some (Inr (md j, tr' j, ()))"
    "\<And>j k. j < ?N \<Longrightarrow> k \<in> set (?kf j) \<Longrightarrow> covers (ml_predict M2) (md j) k (label k)" by metis
  from train_second_foldl [where r = r, OF md(1) le_refl] obtain r' where r': "train_second_models rnd M M2 I default_sample f n r () = Some (Inr (r', ()))"
    "r' = r\<lparr>second_layer := map (\<lambda>j. Some (md j)) [0..<?N]\<rparr>"
    using T scan_rep by (auto simp: train_second_models_def)
  have "covers (ml_predict M2) (md (unat (sel k))) k (label k)" if "k \<in> set ?ks" for k
    using md(2) [OF sel(2)] that by simp
  moreover have "rmi_predict_range rnd M M2 r' k = get_predict_range (ml_predict M2) (md (unat (sel k))) k" for k
  proof -
    have "select_sec_model rnd M r' k = Inr (sel k)"
      using sel(1) [of k] select_sec_model_cong [of r' r rnd M k] r'(2) by simp
    moreover have "sub_deref r' (unat (sel k)) = Inr (md (unat (sel k)))"
      using sel(2) [of k] by (simp add: sub_deref_def r'(2))
    ultimately show ?thesis by (simp add: rmi_predict_range_def)
  qed
  ultimately show ?thesis using r' unfolding covers_def by auto
qed

end

section \<open>Properties\<close>

text \<open>A first layer whose model is monotone cuts the keys into intervals, one for each submodel:
  selection never fails, stays in range, and a greater key never gets a smaller submodel. It holds
  for every rounding of \<^verbatim>\<open>double\<close> arithmetic that is monotone and exact on integers.\<close>

theorem select_monotone:
  fixes r :: "('m, 's, 'w::len word) two_rmi"
  assumes rnd: "rounding rnd" and dn: "0 < dispatch_num (first_layer r)"
      "unat (dispatch_num (first_layer r)) \<le> 2 ^ 53"
    and sz: "length (second_layer r) = unat (dispatch_num (first_layer r))"
    and mono: "ml_predict M (dmodel (first_layer r)) k \<le> ml_predict M (dmodel (first_layer r)) k'"
  shows "\<exists>m m'. select_sec_model rnd M r k = Inr m \<and> select_sec_model rnd M r k' = Inr m' \<and>
    m \<le> m' \<and> unat m' < length (second_layer r)"
proof -
  have "0 < length (second_layer r)" "length (second_layer r) \<le> 2 ^ LENGTH('w)"
    using dn(1) unfolding sz by (simp_all add: unat_gt_0 word_gt_0 less_imp_le)
  note sel = select_sec_model_ok [where M = M, OF rnd dn this]
  obtain m m' where "select_sec_model rnd M r k = Inr m" "select_sec_model rnd M r k' = Inr m'"
    "unat m' < length (second_layer r)" "unat m \<le> unat m'"
    using sel [of k] sel [of k'] disp_pos_mono [OF rnd dn mono, of "up_bound (first_layer r)"]
    unfolding sz by (elim exE conjE) simp
  then show ?thesis by (auto simp: word_le_nat_alt)
qed

definition sample_index :: "(real, real, 32 word) two_rmi" where
  "sample_index = \<lparr>first_layer = \<lparr>dmodel = 1, dispatch_num = 2, up_bound = 10\<rparr>, second_layer = [None, None]\<rparr>"

definition sample_first :: "(real, nat) ml_ops" where
  "sample_first = \<lparr>ml_init = 0, ml_predict = (\<lambda>m k. m * real k), ml_train = (\<lambda>m ts ls st. Inr 1),
     ml_serialize = (\<lambda>m. Inr []), ml_from_serialize = (\<lambda>m bs. Inr m)\<rparr>"

theorem select_monotone_witness:
  "\<exists>m m'. select_sec_model (\<lambda>x. x) sample_first sample_index 3 = Inr m \<and>
    select_sec_model (\<lambda>x. x) sample_first sample_index 8 = Inr m' \<and> m \<le> m' \<and>
    unat m' < length (second_layer sample_index)"
  by (rule select_monotone [OF rounding_id]) (simp_all add: sample_index_def sample_first_def)

end
