(* ===== verification/LinearFit.thy ===== *)
theory LinearFit
  imports TwoRMI
begin

text \<open>
  What the linear model \<^verbatim>\<open>LR\<close> of \<^verbatim>\<open>x_ml/src/lr/mod.hh\<close> learns, from what the documentation of LAPACK says
  of the solver \<^verbatim>\<open>dgels\<close>: that its result minimises the sum of the squared residuals. On keys and labels
  that both increase the slope is not negative, and the fitted labels stay within a bound that depends on
  the greatest label and the number of keys only. So the model is monotone, and it predicts \<^verbatim>\<open>int\<close>s for
  the keys it was trained on; the second fact is what the theorems on training ask of a learner. Arithmetic
  is exact here.
\<close>

section \<open>Least squares\<close>

definition least_squares :: "(u64 \<Rightarrow> real) \<Rightarrow> ((real \<times> real) list \<Rightarrow> u64 \<times> u64) \<Rightarrow> (real \<times> real) list \<Rightarrow> bool" where
  "least_squares dval dgels rows \<longleftrightarrow> (\<forall>a c.
     (\<Sum>i<length rows. (fst (rows ! i) * dval (fst (dgels rows)) + dval (snd (dgels rows)) - snd (rows ! i))\<^sup>2) \<le>
     (\<Sum>i<length rows. (fst (rows ! i) * a + c - snd (rows ! i))\<^sup>2))"

text \<open>A line with a negative slope is improved by turning it around the mean of the keys.\<close>

lemma flat_line_better:
  fixes x y :: "nat \<Rightarrow> real"
  assumes x: "\<And>i j. i \<le> j \<Longrightarrow> j < n \<Longrightarrow> x i \<le> x j" and y: "\<And>i j. i \<le> j \<Longrightarrow> j < n \<Longrightarrow> y i \<le> y j"
    and ne: "x 0 < x (n - 1)" and n: "0 < n" and w: "w < 0"
  shows "\<exists>c. (\<Sum>i<n. (x i * 0 + c - y i)\<^sup>2) < (\<Sum>i<n. (x i * w + b - y i)\<^sup>2)"
proof -
  define X where "X = (\<Sum>i<n. x i) / real n"
  have mean: "(\<Sum>i<n. x i - X) = 0" using n by (simp add: sum_subtractf X_def)
  have "(\<Sum>i<n. x i) * (\<Sum>i<n. y i) \<le> real n * (\<Sum>i<n. x i * y i)"
    using Chebyshev_sum_upper [of n x "\<lambda>i. - y i"] x y by (simp add: sum_negf lessThan_atLeast0)
  then have "(\<Sum>i<n. x i) / real n * (\<Sum>i<n. y i) \<le> (\<Sum>i<n. x i * y i)"
    using n by (simp add: field_simps)
  then have cov: "0 \<le> (\<Sum>i<n. (x i - X) * y i)"
    by (simp add: X_def left_diff_distrib sum_subtractf sum_distrib_left)
  have "x 0 < X \<or> X < x (n - 1)" using ne by linarith
  then have "\<exists>i<n. x i - X \<noteq> 0" using n by (metis diff_less eq_iff_diff_eq_0 less_irrefl less_numeral_extra(1))
  then obtain i where i: "i < n" "x i - X \<noteq> 0" by blast
  have "0 < (x i - X)\<^sup>2" using i(2) by simp
  also have "\<dots> \<le> (\<Sum>i<n. (x i - X)\<^sup>2)" using i(1) by (intro member_le_sum) simp_all
  finally have var: "0 < (\<Sum>i<n. (x i - X)\<^sup>2)" .
  define c where "c = X * w + b"
  have "(x i * w + b - y i)\<^sup>2 = (x i * 0 + c - y i)\<^sup>2 + 2 * w * c * (x i - X) - 2 * w * ((x i - X) * y i) + w\<^sup>2 * (x i - X)\<^sup>2" for i
    by (simp add: c_def power2_eq_square algebra_simps)
  then have "(\<Sum>i<n. (x i * w + b - y i)\<^sup>2) = (\<Sum>i<n. (x i * 0 + c - y i)\<^sup>2 + 2 * w * c * (x i - X) -
      2 * w * ((x i - X) * y i) + w\<^sup>2 * (x i - X)\<^sup>2)" by simp
  also have "\<dots> = (\<Sum>i<n. (x i * 0 + c - y i)\<^sup>2) + (\<Sum>i<n. 2 * w * c * (x i - X)) -
      (\<Sum>i<n. 2 * w * ((x i - X) * y i)) + (\<Sum>i<n. w\<^sup>2 * (x i - X)\<^sup>2)"
    by (simp only: sum.distrib sum_subtractf)
  also have "\<dots> = (\<Sum>i<n. (x i * 0 + c - y i)\<^sup>2) + 2 * w * c * (\<Sum>i<n. x i - X) -
      2 * w * (\<Sum>i<n. (x i - X) * y i) + w\<^sup>2 * (\<Sum>i<n. (x i - X)\<^sup>2)"
    by (simp only: sum_distrib_left)
  finally have "(\<Sum>i<n. (x i * w + b - y i)\<^sup>2) = (\<Sum>i<n. (x i * 0 + c - y i)\<^sup>2) + 2 * w * c * (\<Sum>i<n. x i - X) -
      2 * w * (\<Sum>i<n. (x i - X) * y i) + w\<^sup>2 * (\<Sum>i<n. (x i - X)\<^sup>2)" .
  moreover have "w * (\<Sum>i<n. (x i - X) * y i) \<le> 0" using w cov by (simp add: mult_nonpos_nonneg)
  moreover have "0 < w\<^sup>2 * (\<Sum>i<n. (x i - X)\<^sup>2)" using w var by (simp add: mult_pos_pos)
  ultimately have "(\<Sum>i<n. (x i * 0 + c - y i)\<^sup>2) < (\<Sum>i<n. (x i * w + b - y i)\<^sup>2)" using mean by simp
  then show ?thesis by blast
qed

lemma least_squares_slope:
  assumes ls: "least_squares dval dgels rows" and n: "2 \<le> length rows"
    and x: "sorted_wrt (<) (map fst rows)" and y: "sorted (map snd rows)"
  shows "0 \<le> dval (fst (dgels rows))"
proof (rule ccontr)
  assume "\<not> 0 \<le> dval (fst (dgels rows))"
  then have w: "dval (fst (dgels rows)) < 0" by simp
  have "fst (rows ! 0) < fst (rows ! (length rows - 1))" using x n by (simp add: sorted_wrt_iff_nth_less)
  moreover have "fst (rows ! i) \<le> fst (rows ! j)" "snd (rows ! i) \<le> snd (rows ! j)" if "i \<le> j" "j < length rows" for i j
    using x y that by (auto simp: sorted_wrt_iff_nth_less sorted_iff_nth_mono order_le_less)
  ultimately obtain c where "(\<Sum>i<length rows. (fst (rows ! i) * 0 + c - snd (rows ! i))\<^sup>2) <
      (\<Sum>i<length rows. (fst (rows ! i) * dval (fst (dgels rows)) + dval (snd (dgels rows)) - snd (rows ! i))\<^sup>2)"
    using flat_line_better [of "length rows" "\<lambda>i. fst (rows ! i)" "\<lambda>i. snd (rows ! i)", OF _ _ _ _ w] n by fastforce
  then show False using ls unfolding least_squares_def by (meson not_le)
qed

text \<open>Fitted labels: the residuals are no larger than those of the line that is 0 everywhere.\<close>

lemma least_squares_bound:
  assumes ls: "least_squares dval dgels rows" and i: "i < length rows"
    and y: "\<And>i. i < length rows \<Longrightarrow> 0 \<le> snd (rows ! i) \<and> snd (rows ! i) \<le> L" and n: "real (length rows) \<le> B\<^sup>2" "0 \<le> B"
  shows "\<bar>fst (rows ! i) * dval (fst (dgels rows)) + dval (snd (dgels rows))\<bar> \<le> L * (1 + B)"
proof -
  let ?r = "\<lambda>i. fst (rows ! i) * dval (fst (dgels rows)) + dval (snd (dgels rows)) - snd (rows ! i)"
  have L: "0 \<le> L" using y [OF i] by linarith
  have "(?r i)\<^sup>2 \<le> (\<Sum>i<length rows. (?r i)\<^sup>2)" using i by (intro member_le_sum) simp_all
  also have "\<dots> \<le> (\<Sum>i<length rows. (fst (rows ! i) * 0 + 0 - snd (rows ! i))\<^sup>2)"
    using ls unfolding least_squares_def by blast
  also have "\<dots> \<le> (\<Sum>i<length rows. L\<^sup>2)" by (rule sum_mono) (use y in \<open>auto intro: power_mono\<close>)
  also have "\<dots> \<le> B\<^sup>2 * L\<^sup>2" using n(1) by (simp add: mult_right_mono)
  finally have "(?r i)\<^sup>2 \<le> (B * L)\<^sup>2" by (simp add: power_mult_distrib)
  then have "\<bar>?r i\<bar> \<le> B * L" using n(2) L by (metis abs_le_square_iff abs_of_nonneg mult_nonneg_nonneg)
  then show ?thesis using y [OF i] by (simp add: algebra_simps abs_le_iff)
qed

section \<open>The linear model\<close>

text \<open>The rows that the solver is given for a training set, which are all its pairs.\<close>

definition fit_rows :: "('k \<Rightarrow> real) \<Rightarrow> ('k \<times> u64) list \<Rightarrow> (real \<times> real) list" where
  "fit_rows to_scalar W = map (\<lambda>p. (to_scalar (fst p), real (unat (snd p)))) W"

lemma lr_train_rows:
  "ml_train (lr_ops dgels dval (\<lambda>x. x) to_scalar feature0) m0 (map fst W) (map snd W) 1 = Inr
     (if W = [] then m0 else if length W \<le> 1 then \<lparr>lr_w = 0, lr_b = 0\<rparr>
      else \<lparr>lr_w = fst (dgels (fit_rows to_scalar W)), lr_b = snd (dgels (fit_rows to_scalar W))\<rparr>)"
proof -
  have "map (\<lambda>i. (to_scalar (map fst W ! i), real (unat (map snd W ! i)))) [0..<length W] = fit_rows to_scalar W"
    unfolding fit_rows_def by (rule nth_equalityI) simp_all
  then have "lr_rows (\<lambda>x. x) to_scalar feature0 (map fst W) (map snd W) 1 = fit_rows to_scalar W" if "length W > 1"
    using that by (simp add: lr_rows_def fit_rows_def Let_def)
  then show ?thesis by (cases m0) (simp add: lr_ops_def lr_train_def split_beta)
qed

lemma lr_predict_exact:
  "ml_predict (lr_ops dgels dval (\<lambda>x. x) to_scalar feature0) m k = to_scalar k * dval (lr_w m) + dval (lr_b m)"
  by (simp add: lr_ops_def lr_predict_def)

lemma fits_lr:
  "fits (lr_ops dgels dval (\<lambda>x. x) to_scalar feature0) W \<longleftrightarrow>
    (let (w, b) = if length W \<le> 1 then (0, 0) else dgels (fit_rows to_scalar W)
     in \<forall>p\<in>set W. \<exists>x. double_to_int (to_scalar (fst p) * dval w + dval b) = Inr x)"
proof (cases "W = []")
  case True
  have "\<exists>m. ml_train (lr_ops dgels dval (\<lambda>x. x) to_scalar feature0) (ml_init (lr_ops dgels dval (\<lambda>x. x) to_scalar feature0))
      (map fst W) (map snd W) 1 = Inr m" unfolding lr_train_rows by blast
  then show ?thesis using True by (simp add: fits_def)
next
  case False
  then show ?thesis unfolding fits_def lr_train_rows lr_predict_exact by (simp add: split_beta)
qed

lemma double_to_int_small:
  assumes "\<bar>x\<bar> \<le> 2 ^ 31 - 1"
  shows "\<exists>y. double_to_int x = Inr y"
proof -
  have "- (2 ^ 31) \<le> (if 0 \<le> x then \<lfloor>x\<rfloor> else \<lceil>x\<rceil>)" "(if 0 \<le> x then \<lfloor>x\<rfloor> else \<lceil>x\<rceil>) < 2 ^ 31"
    using assms by (auto simp: le_floor_iff floor_less_iff le_ceiling_iff ceiling_less_iff abs_le_iff)
  then show ?thesis by (simp add: double_to_int_def Let_def)
qed

text \<open>The linear model fits every training set of up to \<open>2 ^ 20\<close> pairs with labels below \<open>2 ^ 20\<close>.\<close>

lemma lr_fits:
  assumes ls: "2 \<le> length W \<Longrightarrow> least_squares dval dgels (fit_rows to_scalar W)" and z: "dval 0 = 0"
    and n: "length W \<le> 2 ^ 20" and l: "\<forall>p\<in>set W. unat (snd p) < 2 ^ 20"
  shows "fits (lr_ops dgels dval (\<lambda>x. x) to_scalar feature0) W"
proof -
  let ?R = "fit_rows to_scalar W"
  show ?thesis
  proof (cases "2 \<le> length W")
    case False
    have "\<exists>x. double_to_int 0 = Inr x" by (rule double_to_int_small) simp
    then show ?thesis using False by (simp add: fits_lr z)
  next
    case True
    have "\<exists>x. double_to_int (to_scalar (fst p) * dval (fst (dgels ?R)) + dval (snd (dgels ?R))) = Inr x" if p: "p \<in> set W" for p
    proof -
      obtain i where i: "i < length W" "p = W ! i" using p by (auto simp: in_set_conv_nth)
      have "0 \<le> snd (?R ! j) \<and> snd (?R ! j) \<le> 2 ^ 20 - 1" if "j < length ?R" for j
      proof -
        have "unat (snd (W ! j)) < 2 ^ 20" using l that by (simp add: fit_rows_def)
        then have "unat (snd (W ! j)) \<le> 2 ^ 20 - 1" by simp
        then have "real (unat (snd (W ! j))) \<le> real (2 ^ 20 - 1)" by (rule of_nat_mono)
        moreover have "snd (?R ! j) = real (unat (snd (W ! j)))" using that by (simp add: fit_rows_def)
        moreover have "0 \<le> real (unat (snd (W ! j)))" by (rule of_nat_0_le_iff)
        ultimately show ?thesis by (simp del: of_nat_le_iff)
      qed
      moreover have "real (length W) \<le> real (2 ^ 20)" using n by (rule of_nat_mono)
      then have "real (length ?R) \<le> (2 ^ 10)\<^sup>2" by (simp add: fit_rows_def)
      ultimately have "\<bar>fst (?R ! i) * dval (fst (dgels ?R)) + dval (snd (dgels ?R))\<bar> \<le> (2 ^ 20 - 1) * (1 + 2 ^ 10)"
        using i(1) by (intro least_squares_bound [OF ls [OF True]]) (simp_all add: fit_rows_def)
      then show ?thesis using i by (intro double_to_int_small) (simp add: fit_rows_def)
    qed
    then show ?thesis using True by (simp add: fits_lr split_beta)
  qed
qed

text \<open>A model trained on increasing keys and labels is monotone.\<close>

lemma lr_monotone:
  assumes m: "ml_train (lr_ops dgels dval (\<lambda>x. x) to_scalar feature0) m0 (map fst W) (map snd W) 1 = Inr m" "W \<noteq> []"
    and ls: "2 \<le> length W \<Longrightarrow> least_squares dval dgels (fit_rows to_scalar W)" and z: "dval 0 = 0"
    and s: "sorted_wrt (<) (map (to_scalar \<circ> fst) W)" "sorted_wrt (<) (map snd W)"
    and k: "to_scalar k \<le> to_scalar k'"
  shows "ml_predict (lr_ops dgels dval (\<lambda>x. x) to_scalar feature0) m k \<le>
    ml_predict (lr_ops dgels dval (\<lambda>x. x) to_scalar feature0) m k'"
proof -
  have "0 \<le> dval (lr_w m)"
  proof (cases "2 \<le> length W")
    case True
    have "sorted_wrt (<) (map fst (fit_rows to_scalar W))" using s(1) by (simp add: fit_rows_def comp_def)
    moreover have "real (unat a) \<le> real (unat b)" if "a < b" for a b :: u64
      using that by (intro of_nat_mono) (simp add: word_less_nat_alt)
    then have "sorted (map snd (fit_rows to_scalar W))"
      using s(2) unfolding fit_rows_def map_map sorted_iff_nth_mono_less sorted_wrt_iff_nth_less
      by (simp del: of_nat_le_iff)
    ultimately have "0 \<le> dval (fst (dgels (fit_rows to_scalar W)))"
      using least_squares_slope [OF ls [OF True]] True by (simp add: fit_rows_def)
    then show ?thesis using m(2) m(1) [unfolded lr_train_rows] True by auto
  next
    case False
    then show ?thesis using m(2) m(1) [unfolded lr_train_rows] z by auto
  qed
  then show ?thesis using k by (simp add: lr_predict_exact mult_right_mono)
qed

section \<open>A solver\<close>

text \<open>
  The closed form of least squares, with the two weights in binary fixed point. The witnesses take it for
  \<^verbatim>\<open>dgels\<close>.
\<close>

definition fixed :: "real \<Rightarrow> u64" where
  "fixed x = word_of_int \<lfloor>x * 65536\<rfloor>"

definition unfixed :: "u64 \<Rightarrow> real" where
  "unfixed w = real_of_int (sint w) / 65536"

definition ols :: "(real \<times> real) list \<Rightarrow> u64 \<times> u64" where
  "ols rows = (let n = real (length rows); sx = sum_list (map fst rows); sy = sum_list (map snd rows);
       sxx = sum_list (map (\<lambda>(x, y). x * x) rows); sxy = sum_list (map (\<lambda>(x, y). x * y) rows);
       a = (n * sxy - sx * sy) / (n * sxx - sx * sx)
     in (fixed a, fixed ((sy - a * sx) / n)))"

definition ols_lr :: "(lr, xkey) ml_ops" where
  "ols_lr = lr_ops ols unfixed (\<lambda>x. x) (\<lambda>k. real (unat (xd k))) (\<lambda>k. real (unat (xd k)))"

lemma ols_example: "fits ols_lr [(XKey 1, 0), (XKey 3, 1), (XKey 5, 2)]"
  by (simp add: ols_lr_def fits_lr fit_rows_def ols_def fixed_def unfixed_def double_to_int_small)

end
