(* ===== verification/XKeys.thy ===== *)
theory XKeys
  imports KeyTypes
begin

text \<open>
  The key array of a leaf, \<^verbatim>\<open>XNodeKeys<N,K>\<close> of \<^verbatim>\<open>xkv_core/src/xtree/xkeys.hh\<close>: \<open>N\<close> slots, a slot
  being free when it holds \<^verbatim>\<open>K(kInvalidKey)\<close> (\<open>top\<close>), and the 16-bit incarnation. Keys are not
  kept sorted. The lemmas give what each search loop returns, and the rank of the median key that
  splits a full node.
\<close>

record 'k xnode_keys =
  keys :: "'k list"
  incarnation :: u16

definition XNodeKeys :: "nat \<Rightarrow> 'k::order_top xnode_keys" where
  "XNodeKeys N = \<lparr>keys = replicate N top, incarnation = 0\<rparr>"

definition add_key :: "'k::order_top xnode_keys \<Rightarrow> 'k \<Rightarrow> 'k xnode_keys \<times> nat option" where
  "add_key nk key =
     (case find_from (\<lambda>k. k = top) (keys nk) 0 of
        Some i \<Rightarrow> (nk\<lparr>keys := (keys nk)[i := key]\<rparr>, Some i)
      | None \<Rightarrow> (nk, None))"

definition keys_search :: "'k xnode_keys \<Rightarrow> 'k \<Rightarrow> nat option" where
  "keys_search nk key = find_from (\<lambda>k. k = key) (keys nk) 0"

definition keys_num_keys :: "'k::order_top xnode_keys \<Rightarrow> nat" where
  "keys_num_keys nk = foldl (\<lambda>sum k. if k \<noteq> top then sum + 1 else sum) 0 (keys nk)"

definition max_key :: "'k::{linorder,order_bot,order_top} xnode_keys \<Rightarrow> 'k" where
  "max_key nk = foldl (\<lambda>temp k. if k \<noteq> top \<and> k > temp then k else temp) bot (keys nk)"

definition keys_get_key :: "'k xnode_keys \<Rightarrow> nat \<Rightarrow> 'k" where
  "keys_get_key nk idx = keys nk ! idx"

definition keys_clear :: "'k::order_top xnode_keys \<Rightarrow> nat \<Rightarrow> 'k xnode_keys" where
  "keys_clear nk idx = nk\<lparr>keys := (keys nk)[idx := top]\<rparr>"

text \<open>The key array is the first field of the packed struct.\<close>

definition key_offset :: "nat \<Rightarrow> nat \<Rightarrow> nat" where
  "key_offset sizeof_K idx = 0 + sizeof_K * idx"

text \<open>
  \<^verbatim>\<open>std::sort\<close> on (key, index) pairs by key. Where keys are equal the order of the pairs is the
  library's choice; the model keeps their original order, and the theorems about splitting assume
  distinct keys, for which the result is determined.
\<close>

definition find_median_key :: "'k::linorder xnode_keys \<Rightarrow> nat option" where
  "find_median_key nk =
     (let temp = sort_key fst (zip (keys nk) [0..<length (keys nk)])
      in if length temp > 0 then Some (snd (temp ! (length temp div 2))) else None)"

section \<open>Lemmas\<close>

text \<open>The keys a node holds.\<close>

definition valid_keys :: "'k::order_top xnode_keys \<Rightarrow> 'k set" where
  "valid_keys nk = set (keys nk) - {top}"

lemma XNodeKeys_simps [simp]:
  "keys (XNodeKeys N) = replicate N top" "incarnation (XNodeKeys N) = 0"
  "valid_keys (XNodeKeys N) = {}"
  by (auto simp: XNodeKeys_def valid_keys_def)

lemma keys_search_Some:
  "keys_search nk key = Some i \<Longrightarrow> i < length (keys nk) \<and> keys nk ! i = key"
  by (auto simp: keys_search_def dest: find_from_0_SomeD)

lemma keys_search_None: "keys_search nk key = None \<longleftrightarrow> key \<notin> set (keys nk)"
  by (auto simp: keys_search_def find_from_None)

lemma keys_num_keys_count: "keys_num_keys nk = length (filter (\<lambda>k. k \<noteq> top) (keys nk))"
proof -
  have "foldl (\<lambda>sum k. if k \<noteq> top then sum + 1 else sum) n ks = n + length (filter (\<lambda>k. k \<noteq> top) ks)"
    for n and ks :: "'a list"
    by (induction ks arbitrary: n) auto
  then show ?thesis by (simp add: keys_num_keys_def)
qed

lemma max_key_upper:
  assumes "k \<in> valid_keys nk"
  shows "k \<le> max_key nk"
proof -
  let ?f = "\<lambda>temp k. if k \<noteq> top \<and> k > temp then k else (temp :: 'a)"
  have mono: "t \<le> foldl ?f t ks" for t and ks :: "'a list"
  proof (induction ks arbitrary: t)
    case (Cons x xs)
    have "t \<le> ?f t x" by auto
    also have "\<dots> \<le> foldl ?f (?f t x) xs" by (rule Cons.IH)
    finally show ?case by simp
  qed simp
  have "k \<noteq> top \<Longrightarrow> k \<in> set ks \<Longrightarrow> k \<le> foldl ?f t ks" for t and ks :: "'a list"
  proof (induction ks arbitrary: t)
    case (Cons x xs)
    show ?case
    proof (cases "k = x")
      case True
      have "k \<le> ?f t x" using True Cons.prems(1) by auto
      also have "\<dots> \<le> foldl ?f (?f t x) xs" by (rule mono)
      finally show ?thesis by simp
    next
      case False
      with Cons show ?thesis by auto
    qed
  qed simp
  then show ?thesis using assms by (auto simp: valid_keys_def max_key_def)
qed

text \<open>
  The median of a full node with distinct keys: \<open>N div 2\<close> keys are smaller.
\<close>

lemma find_median_key_index:
  assumes "keys nk \<noteq> []"
  obtains p where "find_median_key nk = Some p" and "p < length (keys nk)"
    and "keys nk ! p = sort (keys nk) ! (length (keys nk) div 2)"
proof -
  let ?ks = "keys nk" and ?n = "length (keys nk)"
  let ?zs = "zip ?ks [0..<?n]"
  let ?temp = "sort_key fst ?zs"
  let ?e = "?temp ! (?n div 2)"
  have len: "length ?temp = ?n" by simp
  have pos: "?n div 2 < ?n" using assms by (cases ?ks) auto
  have "?e \<in> set ?temp" using pos len by (metis nth_mem)
  then have mem: "?e \<in> set ?zs" by simp
  then have p: "snd ?e < ?n" "fst ?e = ?ks ! snd ?e"
    by (auto simp: set_zip)
  have "mset (map fst ?temp) = image_mset fst (mset ?temp)" by (rule mset_map)
  also have "\<dots> = mset ?ks" by (simp flip: mset_map)
  finally have "map fst ?temp = sort ?ks"
    by (intro properties_for_sort [symmetric]) simp_all
  then have "fst ?e = sort ?ks ! (?n div 2)"
    using pos len by (metis nth_map)
  moreover have "find_median_key nk = Some (snd ?e)"
    using pos len unfolding find_median_key_def Let_def by (metis gr_implies_not0 gr0I)
  ultimately show ?thesis using that p by auto
qed

lemma find_median_key_rank:
  assumes "distinct (keys nk)" and "keys nk \<noteq> []" and "length (keys nk) = N"
  obtains p where "find_median_key nk = Some p" and "p < N"
    and "card {k \<in> set (keys nk). k < keys nk ! p} = N div 2"
    and "card {k \<in> set (keys nk). keys nk ! p < k} = N - Suc (N div 2)"
proof -
  obtain p where p: "find_median_key nk = Some p" "p < length (keys nk)"
      "keys nk ! p = sort (keys nk) ! (length (keys nk) div 2)"
    using assms(2) by (rule find_median_key_index)
  let ?s = "sort (keys nk)"
  have s: "sorted ?s" "distinct ?s" "N div 2 < length ?s"
    using assms by (auto simp: distinct_sort)
  have sub: "{k \<in> set (keys nk). k < ?s ! (N div 2)} = set (take (N div 2) ?s)"
    "{k \<in> set (keys nk). ?s ! (N div 2) < k} = set (drop (Suc (N div 2)) ?s)"
    using sorted_distinct_card_less [OF s] by simp_all
  have "card (set (take (N div 2) ?s)) = N div 2"
    and "card (set (drop (Suc (N div 2)) ?s)) = N - Suc (N div 2)"
    using s assms(3) by (simp_all add: distinct_card)
  with sub p assms(3) show ?thesis using that by auto
qed

lemma num_keys_distinct:
  "distinct (filter (\<lambda>k. k \<noteq> top) (keys nk)) \<Longrightarrow> keys_num_keys nk = card (valid_keys nk)"
  by (simp add: keys_num_keys_count valid_keys_def set_diff_eq flip: distinct_card)


section \<open>Properties\<close>

text \<open>An example for the witness.\<close>

definition sample_keys :: "nat xnode_keys" where
  "sample_keys = \<lparr>keys = [9, 2, 7], incarnation = 0\<rparr>"

text \<open>In a full leaf with distinct keys \<^verbatim>\<open>find_median_key\<close> returns the slot of the key that
  has exactly \<open>N div 2\<close> keys below it, whatever the order of the slots.\<close>

theorem median_key_rank:
  assumes "distinct (keys nk)" and "length (keys nk) = N" and "0 < N"
  shows "\<exists>p. find_median_key nk = Some p \<and> p < N \<and>
    card {k \<in> set (keys nk). k < keys nk ! p} = N div 2 \<and>
    card {k \<in> set (keys nk). keys nk ! p < k} = N - Suc (N div 2)"
proof -
  have "keys nk \<noteq> []" using assms(2,3) by auto
  from find_median_key_rank [OF assms(1) this assms(2)] obtain p where
    "find_median_key nk = Some p" "p < N" "card {k \<in> set (keys nk). k < keys nk ! p} = N div 2"
    "card {k \<in> set (keys nk). keys nk ! p < k} = N - Suc (N div 2)" .
  then show ?thesis by (intro exI [of _ p] conjI)
qed

theorem median_key_rank_witness:
  "\<exists>p. find_median_key sample_keys = Some p \<and> p < 3 \<and>
    card {k \<in> set (keys sample_keys). k < keys sample_keys ! p} = 3 div 2 \<and>
    card {k \<in> set (keys sample_keys). keys sample_keys ! p < k} = 3 - Suc (3 div 2)"
  by (rule median_key_rank) (simp_all add: sample_keys_def)

end
