(* ===== verification/WrappedType.thy ===== *)
theory WrappedType
  imports Prelude
begin

text \<open>
  The wrapped value of \<^verbatim>\<open>xcomm/src/atomic_rw/wrapper_type.hh\<close> (a payload between two sequence
  numbers) and its sequence-free twin \<^verbatim>\<open>UWrappedType\<close>. The write protocol and what a reader may
  conclude from \<^verbatim>\<open>consistent()\<close> are stated on single operations here.
\<close>

definition kInvalidSeq :: u32 where
  "kInvalidSeq = 0"

record 'v wrapped_type =
  seq :: u32
  payload :: 'v
  seq_check :: u32

definition wt_init :: "'v wrapped_type \<Rightarrow> 'v wrapped_type" where
  "wt_init w = (let w1 = w\<lparr>seq := kInvalidSeq + 1\<rparr> in w1\<lparr>seq_check := seq w1\<rparr>)"

definition wt_reset :: "'v wrapped_type \<Rightarrow> 'v \<Rightarrow> 'v wrapped_type" where
  "wt_reset w t = (wt_init w)\<lparr>payload := t\<rparr>"

definition WrappedType :: "'v \<Rightarrow> 'v wrapped_type" where
  "WrappedType p = wt_init \<lparr>seq = kInvalidSeq + 1, payload = p, seq_check = undefined\<rparr>"

definition get_payload :: "'v wrapped_type \<Rightarrow> 'v" where
  "get_payload w = payload w"

text \<open>Two \<^verbatim>\<open>u32\<close> fields.\<close>

definition wt_meta_sz :: nat where
  "wt_meta_sz = 4 + 4"

definition consistent :: "'v wrapped_type \<Rightarrow> bool" where
  "consistent w \<longleftrightarrow> seq w = seq_check w \<and> seq w \<noteq> kInvalidSeq"

definition begin_write :: "'v wrapped_type \<Rightarrow> u32 \<times> 'v wrapped_type" where
  "begin_write w = (seq_check w, w\<lparr>seq_check := kInvalidSeq, seq := kInvalidSeq\<rparr>)"

definition done_write :: "'v wrapped_type \<Rightarrow> u32 \<Rightarrow> 'v wrapped_type" where
  "done_write w s = (let w1 = w\<lparr>seq := s + 1\<rparr> in w1\<lparr>seq_check := seq w1\<rparr>)"

lemma wt_reset_simps [simp]:
  "payload (wt_reset w t) = t" "seq (wt_reset w t) = 1" "seq_check (wt_reset w t) = 1"
  by (simp_all add: wt_reset_def wt_init_def kInvalidSeq_def)

lemma wt_reset_WrappedType: "wt_reset w t = WrappedType t"
  by (simp add: wt_reset_def WrappedType_def wt_init_def)

lemma WrappedType_payload [simp]: "get_payload (WrappedType p) = p"
  by (simp add: WrappedType_def wt_init_def get_payload_def)

lemma consistent_reset [simp]: "consistent (wt_reset w t)"
  by (simp add: consistent_def kInvalidSeq_def)

lemma begin_write_inconsistent: "\<not> consistent (snd (begin_write w))"
  by (simp add: begin_write_def consistent_def)

lemma done_write_simps [simp]:
  "payload (done_write w s) = payload w" "seq (done_write w s) = s + 1"
  "seq_check (done_write w s) = s + 1"
  by (simp_all add: done_write_def)

lemma done_write_consistent_iff: "consistent (done_write w s) \<longleftrightarrow> s + 1 \<noteq> 0"
  by (simp add: consistent_def kInvalidSeq_def)

section \<open>Properties\<close>

text \<open>C32: one update of a wrapped value: between \<^verbatim>\<open>begin_write\<close> and \<^verbatim>\<open>done_write\<close> every reader finds
  the value inconsistent, whatever the payload is by then; afterwards it is consistent, carries the
  new payload and a sequence number one above the old one. The one exception is the sequence number
  \<open>2 ^ 32 - 1\<close>: the next one is 0, which leaves the value invalid until the next update.\<close>

theorem wrapped_update:
  assumes "consistent w" and "begin_write w = (s, w1)"
  shows "\<not> consistent (w1\<lparr>payload := p\<rparr>) \<and> s = seq w \<and>
    get_payload (done_write (w1\<lparr>payload := p\<rparr>) s) = p \<and>
    (if seq w = - 1 then \<not> consistent (done_write (w1\<lparr>payload := p\<rparr>) s)
     else consistent (done_write (w1\<lparr>payload := p\<rparr>) s) \<and>
       unat (seq (done_write (w1\<lparr>payload := p\<rparr>) s)) = unat (seq w) + 1)"
proof -
  have w1: "w1 = w\<lparr>seq_check := kInvalidSeq, seq := kInvalidSeq\<rparr>" "s = seq w"
    using assms by (simp_all add: begin_write_def consistent_def)
  have n: "s + 1 = 0 \<longleftrightarrow> s = - 1" by (metis add_eq_0_iff2)
  then have "unat (s + 1) = unat s + 1" if "s \<noteq> - 1" using that by (simp add: unatSuc add.commute)
  then show ?thesis using w1 n
    by (auto simp: done_write_consistent_iff get_payload_def) (auto simp: consistent_def)
qed

theorem wrapped_update_witness:
  "consistent (done_write ((snd (begin_write (WrappedType (5 :: nat))))\<lparr>payload := 6\<rparr>) 1)"
proof -
  have "consistent (WrappedType (5 :: nat))"
    "begin_write (WrappedType (5 :: nat)) = (1, snd (begin_write (WrappedType 5)))"
    by (simp_all add: consistent_def begin_write_def WrappedType_def wt_init_def kInvalidSeq_def)
  from wrapped_update [OF this, of 6] show ?thesis by (simp add: WrappedType_def wt_init_def kInvalidSeq_def)
qed

end
