(* ===== verification/XNode.thy ===== *)
theory XNode
  imports XKeys WrappedType
begin

text \<open>
  The leaf node \<^verbatim>\<open>XNode<N,K,V>\<close> of \<^verbatim>\<open>xkv_core/src/xtree/xnode.hh\<close>: the key array, the value
  union (values stored in place when they fit in 8 bytes, else wrapped), the pointer to the next
  leaf and the lock word. \<open>raw_insert\<close> is the whole insertion, the split into a candidate node
  included. The lemmas view a node as a finite map from keys to values and show that insertion
  updates that map, and that a split divides it at the median key.
\<close>

section \<open>The node\<close>

text \<open>
  The union \<^verbatim>\<open>Values\<close>. Which member is in use is fixed at compile time by \<^verbatim>\<open>sizeof(V)\<close>, so
  the model decides it when the node is built. \<open>None\<close> is a slot that was never written.
\<close>

datatype 'v xvalues =
    Inplace (inplace: "'v option list")
  | Wrapped (wrapped: "'v wrapped_type option list")

record ('k, 'v) xnode =
  xkeys :: "'k xnode_keys"
  xvals :: "'v xvalues"
  xnext :: addr
  xlock :: u16

definition Values :: "nat \<Rightarrow> nat \<Rightarrow> 'v xvalues" where
  "Values N sizeof_V =
     (if sizeof_V \<le> 8 then Inplace (replicate N None) else Wrapped (replicate N None))"

definition XNode :: "nat \<Rightarrow> nat \<Rightarrow> ('k::order_top, 'v) xnode" where
  "XNode N sizeof_V =
     \<lparr>xkeys = XNodeKeys N, xvals = Values N sizeof_V, xnext = 0, xlock = 0\<rparr>"

definition num_keys :: "('k::order_top, 'v) xnode \<Rightarrow> nat" where
  "num_keys n = keys_num_keys (xkeys n)"

definition get_incarnation :: "('k, 'v) xnode \<Rightarrow> u16" where
  "get_incarnation n = incarnation (xkeys n)"

definition get_key :: "('k, 'v) xnode \<Rightarrow> nat \<Rightarrow> 'k" where
  "get_key n idx = keys_get_key (xkeys n) idx"

definition get_value_raw :: "('k, 'v) xnode \<Rightarrow> nat \<Rightarrow> 'v res" where
  "get_value_raw n idx =
     (case xvals n of
        Inplace vs \<Rightarrow> (case vs ! idx of Some v \<Rightarrow> Inr v | None \<Rightarrow> Inl UninitRead)
      | Wrapped ws \<Rightarrow> (case ws ! idx of Some w \<Rightarrow> Inr (get_payload w) | None \<Rightarrow> Inl UninitRead))"

definition get_value :: "('k::order_top, 'v) xnode \<Rightarrow> nat \<Rightarrow> 'v option res" where
  "get_value n idx =
     (if keys_get_key (xkeys n) idx \<noteq> top
      then rbind (get_value_raw n idx) (\<lambda>v. Inr (Some v)) else Inr None)"

definition node_search :: "('k, 'v) xnode \<Rightarrow> 'k \<Rightarrow> nat option" where
  "node_search n key = keys_search (xkeys n) key"

definition value_update :: "('k, 'v) xnode \<Rightarrow> nat \<Rightarrow> 'v \<Rightarrow> ('k, 'v) xnode" where
  "value_update n idx v =
     (case xvals n of
        Inplace vs \<Rightarrow> n\<lparr>xvals := Inplace (vs[idx := Some v])\<rparr>
      | Wrapped ws \<Rightarrow> n\<lparr>xvals := Wrapped (ws[idx :=
          Some (case ws ! idx of Some w \<Rightarrow> wt_reset w v | None \<Rightarrow> WrappedType v)])\<rparr>)"

section \<open>Insertion and split\<close>

definition clear_key :: "('k::order_top, 'v) xnode \<Rightarrow> nat \<Rightarrow> ('k, 'v) xnode" where
  "clear_key n idx = n\<lparr>xkeys := keys_clear (xkeys n) idx\<rparr>"

text \<open>\<^verbatim>\<open>raw_insert(key, v, nullptr)\<close>: there is no room for a split.\<close>

definition raw_insert_nosplit ::
  "('k::order_top, 'v) xnode \<Rightarrow> 'k \<Rightarrow> 'v \<Rightarrow> ('k, 'v) xnode res" where
  "raw_insert_nosplit n key v =
     (case add_key (xkeys n) key of
        (ks, Some idx) \<Rightarrow> Inr (value_update (n\<lparr>xkeys := ks\<rparr>) idx v)
      | (ks, None) \<Rightarrow> Inl AssertFail)"

text \<open>The loop of step 3: move every key above the pivot, slot by slot.\<close>

fun move_above :: "'k \<Rightarrow> nat list \<Rightarrow> ('k::{linorder,order_top}, 'v) xnode \<Rightarrow> ('k, 'v) xnode
    \<Rightarrow> (('k, 'v) xnode \<times> ('k, 'v) xnode) res" where
  "move_above pivot_key [] this cand = Inr (this, cand)"
| "move_above pivot_key (i # is) this cand =
     (let k = get_key this i in
      if k \<noteq> top \<and> k > pivot_key then
        rbind (get_value_raw this i) (\<lambda>v.
        rbind (raw_insert_nosplit cand k v) (\<lambda>cand'.
        move_above pivot_key is (clear_key this i) cand'))
      else move_above pivot_key is this cand)"

text \<open>
  The candidate is given with its address, which becomes the new \<^verbatim>\<open>next\<close> pointer. The result is
  the node, the candidate, and whether the node has split.
\<close>

definition raw_insert ::
  "('k::{linorder,order_top}, 'v) xnode \<Rightarrow> 'k \<Rightarrow> 'v \<Rightarrow> (addr \<times> ('k, 'v) xnode) option
    \<Rightarrow> (('k, 'v) xnode \<times> (addr \<times> ('k, 'v) xnode) option \<times> bool) res" where
  "raw_insert this key v candidate =
     (case add_key (xkeys this) key of
        (ks, Some idx) \<Rightarrow> Inr (value_update (this\<lparr>xkeys := ks\<rparr>) idx v, candidate, False)
      | (ks, None) \<Rightarrow>
         (case candidate of
            None \<Rightarrow> Inl AssertFail
          | Some (caddr, cand) \<Rightarrow>
             (let this1 = this\<lparr>xkeys := (xkeys this)\<lparr>incarnation := incarnation (xkeys this) + 1\<rparr>\<rparr> in
              rbind (opt_value (find_median_key (xkeys this1))) (\<lambda>pivot_key_idx.
              let pivot_key = get_key this1 pivot_key_idx in
              rbind (get_value_raw this1 pivot_key_idx) (\<lambda>pv.
              rbind (raw_insert_nosplit cand pivot_key pv) (\<lambda>cand1.
              let this2 = clear_key this1 pivot_key_idx in
              rbind (move_above pivot_key [0..<length (keys (xkeys this2))] this2 cand1) (\<lambda>(this3, cand2).
              rbind (if key > pivot_key
                     then rbind (raw_insert_nosplit cand2 key v) (\<lambda>c. Inr (this3, c))
                     else rbind (raw_insert_nosplit this3 key v) (\<lambda>t. Inr (t, cand2)))
                (\<lambda>(this4, cand3).
                  let cand4 = cand3\<lparr>xnext := xnext this4\<rparr>;
                      this5 = this4\<lparr>xnext := caddr\<rparr>
                  in Inr (this5, Some (caddr, cand4), True)))))))))"

section \<open>Memory layout\<close>

text \<open>
  The structs are packed: \<open>N\<close> keys, the 2-byte incarnation, then the values. A wrapped value is
  its two sequence numbers and the payload, rounded up to its 64-byte alignment.
\<close>

definition sizeof_wrapped :: "nat \<Rightarrow> nat" where
  "sizeof_wrapped sizeof_V = (wt_meta_sz + sizeof_V + 63) div 64 * 64"

definition offset_inplace :: "nat \<Rightarrow> nat \<Rightarrow> nat" where
  "offset_inplace sizeof_V idx = idx * sizeof_V"

definition offset_wrapped :: "nat \<Rightarrow> nat \<Rightarrow> nat" where
  "offset_wrapped sizeof_V idx = idx * sizeof_wrapped sizeof_V"

definition keys_start_offset :: nat where
  "keys_start_offset = 0"

definition value_start_offset :: "nat \<Rightarrow> nat \<Rightarrow> nat" where
  "value_start_offset N sizeof_K = N * sizeof_K + 2"

definition inplace_value_end_offset :: "nat \<Rightarrow> nat \<Rightarrow> nat \<Rightarrow> nat" where
  "inplace_value_end_offset N sizeof_K sizeof_V = value_start_offset N sizeof_K + sizeof_V * N"

definition value_offset :: "nat \<Rightarrow> nat \<Rightarrow> nat \<Rightarrow> nat \<Rightarrow> nat" where
  "value_offset N sizeof_K sizeof_V idx =
     (if sizeof_V \<le> 8 then value_start_offset N sizeof_K + offset_inplace sizeof_V idx
      else value_start_offset N sizeof_K + offset_wrapped sizeof_V idx)"

section \<open>A node as a finite map\<close>

definition val_at :: "('k, 'v) xnode \<Rightarrow> nat \<Rightarrow> 'v option" where
  "val_at n i = (case xvals n of Inplace vs \<Rightarrow> vs ! i | Wrapped ws \<Rightarrow> map_option get_payload (ws ! i))"

definition vals_len :: "('k, 'v) xnode \<Rightarrow> nat" where
  "vals_len n = (case xvals n of Inplace vs \<Rightarrow> length vs | Wrapped ws \<Rightarrow> length ws)"

text \<open>
  Well-formedness: the arrays have \<open>N\<close> slots, a key that is present has a value, and no key is
  present twice.
\<close>

definition node_ok :: "nat \<Rightarrow> ('k::order_top, 'v) xnode \<Rightarrow> bool" where
  "node_ok N n \<longleftrightarrow> length (keys (xkeys n)) = N \<and> vals_len n = N \<and>
     (\<forall>i<N. get_key n i \<noteq> top \<longrightarrow> val_at n i \<noteq> None) \<and>
     (\<forall>i<N. \<forall>j<N. get_key n i = get_key n j \<longrightarrow> get_key n i \<noteq> top \<longrightarrow> i = j)"

definition node_map :: "('k::order_top, 'v) xnode \<Rightarrow> 'k \<rightharpoonup> 'v" where
  "node_map n k = (case node_search n k of None \<Rightarrow> None | Some i \<Rightarrow> if k = top then None else val_at n i)"

lemma get_key_nth [simp]: "get_key n i = keys (xkeys n) ! i"
  by (simp add: get_key_def keys_get_key_def)

lemma node_okD:
  assumes "node_ok N n"
  shows "length (keys (xkeys n)) = N" "vals_len n = N"
    and "i < N \<Longrightarrow> get_key n i \<noteq> top \<Longrightarrow> val_at n i \<noteq> None"
    and "i < N \<Longrightarrow> j < N \<Longrightarrow> get_key n i = get_key n j \<Longrightarrow> get_key n i \<noteq> top \<Longrightarrow> i = j"
  using assms by (auto simp: node_ok_def)

lemma XNode_simps [simp]:
  "keys (xkeys (XNode N s)) = replicate N top" "xnext (XNode N s) = 0"
  "vals_len (XNode N s) = N"
  by (auto simp: XNode_def vals_len_def Values_def)

lemma node_ok_XNode [simp]: "node_ok N (XNode N s)"
  by (auto simp: node_ok_def)

lemma node_map_XNode [simp]: "node_map (XNode N s :: ('k::order_top, 'v) xnode) = Map.empty"
  by (rule ext)
    (auto simp: node_map_def node_search_def split: option.splits dest!: keys_search_Some)

lemma get_value_raw_val_at: "val_at n i = Some v \<longleftrightarrow> get_value_raw n i = Inr v"
  by (auto simp: val_at_def get_value_raw_def split: xvalues.splits option.splits)

lemma value_update_simps [simp]:
  "xkeys (value_update n i v) = xkeys n" "xnext (value_update n i v) = xnext n"
  "vals_len (value_update n i v) = vals_len n"
  by (auto simp: value_update_def vals_len_def split: xvalues.splits)

lemma val_at_value_update:
  "i < vals_len n \<Longrightarrow> val_at (value_update n i v) j = (if j = i then Some v else val_at n j)"
  by (auto simp: value_update_def vals_len_def val_at_def nth_list_update wt_reset_WrappedType
      split: xvalues.splits option.splits)

lemma val_at_xkeys [simp]: "val_at (n\<lparr>xkeys := ks\<rparr>) i = val_at n i"
  "vals_len (n\<lparr>xkeys := ks\<rparr>) = vals_len n" "val_at (n\<lparr>xnext := a\<rparr>) i = val_at n i"
  "vals_len (n\<lparr>xnext := a\<rparr>) = vals_len n"
  by (simp_all add: val_at_def vals_len_def)

lemma node_map_Some_iff:
  assumes "node_ok N n"
  shows "node_map n k = Some v \<longleftrightarrow> k \<noteq> top \<and> (\<exists>i<N. get_key n i = k \<and> val_at n i = Some v)"
proof
  assume "node_map n k = Some v"
  then show "k \<noteq> top \<and> (\<exists>i<N. get_key n i = k \<and> val_at n i = Some v)"
    using node_okD(1) [OF assms]
    by (auto simp: node_map_def node_search_def split: option.splits if_splits dest!: keys_search_Some)
next
  assume "k \<noteq> top \<and> (\<exists>i<N. get_key n i = k \<and> val_at n i = Some v)"
  then obtain i where k: "k \<noteq> top" and i: "i < N" "get_key n i = k" "val_at n i = Some v" by auto
  then have "keys_search (xkeys n) k \<noteq> None"
    using node_okD(1) [OF assms] by (auto simp: keys_search_None)
  then obtain j where j: "keys_search (xkeys n) k = Some j" by auto
  then have "j < N" "get_key n j = k"
    using node_okD(1) [OF assms] by (auto dest!: keys_search_Some)
  then have "j = i" using node_okD(4) [OF assms] i k by auto
  with j i k show "node_map n k = Some v" by (simp add: node_map_def node_search_def)
qed

lemma dom_node_map:
  assumes "node_ok N n"
  shows "dom (node_map n) = {k. k \<noteq> top \<and> (\<exists>i<N. get_key n i = k)}"
proof (intro set_eqI iffI)
  fix k assume "k \<in> dom (node_map n)"
  then obtain v where "node_map n k = Some v" by auto
  then show "k \<in> {k. k \<noteq> top \<and> (\<exists>i<N. get_key n i = k)}"
    unfolding node_map_Some_iff [OF assms] by auto
next
  fix k assume "k \<in> {k. k \<noteq> top \<and> (\<exists>i<N. get_key n i = k)}"
  then obtain i where i: "k \<noteq> top" "i < N" "get_key n i = k" by auto
  then obtain v where "val_at n i = Some v" using node_okD(3) [OF assms] by auto
  with i have "node_map n k = Some v" unfolding node_map_Some_iff [OF assms] by auto
  then show "k \<in> dom (node_map n)" by auto
qed

lemma dom_node_map_valid_keys: "node_ok N n \<Longrightarrow> dom (node_map n) = valid_keys (xkeys n)"
  by (frule node_okD(1)) (auto simp: dom_node_map valid_keys_def in_set_conv_nth)

lemma finite_dom_node_map [simp]: "node_ok N n \<Longrightarrow> finite (dom (node_map n))"
  by (simp add: dom_node_map_valid_keys valid_keys_def)

lemma top_notin_node_map: "node_ok N n \<Longrightarrow> k \<in> dom (node_map n) \<Longrightarrow> k \<noteq> top"
  by (simp add: dom_node_map)

text \<open>The number of keys against the number of slots.\<close>

lemma valid_index_inj:
  assumes "node_ok N n"
  shows "inj_on (get_key n) {i. i < N \<and> get_key n i \<noteq> top}"
  by (rule inj_onI) (use node_okD(4) [OF assms] in auto)

lemma card_dom_node_map:
  assumes "node_ok N n"
  shows "card (dom (node_map n)) = card {i. i < N \<and> get_key n i \<noteq> top}"
proof -
  have "dom (node_map n) = get_key n ` {i. i < N \<and> get_key n i \<noteq> top}"
    using dom_node_map [OF assms] by auto
  then show ?thesis using card_image [OF valid_index_inj [OF assms]] by simp
qed

lemma free_slot_iff:
  assumes "node_ok N n"
  shows "card (dom (node_map n)) < N \<longleftrightarrow> (\<exists>i<N. get_key n i = top)"
proof -
  let ?V = "{i. i < N \<and> get_key n i \<noteq> top}"
  have sub: "?V \<subseteq> {..<N}" by blast
  have le: "card ?V \<le> N" using card_mono [OF _ sub] by simp
  have eq: "card ?V = N \<longleftrightarrow> ?V = {..<N}"
  proof
    assume "card ?V = N"
    then have "card ?V = card {..<N}" by (simp only: card_lessThan)
    then show "?V = {..<N}" by (rule card_subset_eq [OF finite_lessThan sub])
  qed (simp only: card_lessThan)
  have "card (dom (node_map n)) < N \<longleftrightarrow> \<not> card ?V = N"
    unfolding card_dom_node_map [OF assms] using le by (simp only: order_less_le) simp
  also have "\<dots> \<longleftrightarrow> (\<exists>i<N. get_key n i = top)" unfolding eq by blast
  finally show ?thesis .
qed

lemma card_dom_node_map_le: "node_ok N n \<Longrightarrow> card (dom (node_map n)) \<le> N"
  using card_mono [of "{..<N}" "{i. i < N \<and> get_key n i \<noteq> top}"]
  by (force simp: card_dom_node_map)

section \<open>Slot updates\<close>

lemma map_eq_iff_Some: "(\<And>k v. f k = Some v \<longleftrightarrow> g k = Some v) \<Longrightarrow> f = g"
  by (rule ext) (metis option.exhaust)

lemma node_map_eqI:
  assumes "node_ok N n"
    and "\<And>k v. m k = Some v \<longleftrightarrow> k \<noteq> top \<and> (\<exists>i<N. get_key n i = k \<and> val_at n i = Some v)"
  shows "node_map n = m"
  by (rule map_eq_iff_Some) (simp only: node_map_Some_iff [OF assms(1)] assms(2))

text \<open>Writing a new key and its value into a free slot.\<close>

lemma node_put:
  fixes n :: "('k::order_top, 'v) xnode"
  assumes ok: "node_ok N n" and i: "i < N" and free: "get_key n i = top"
    and key: "key \<noteq> top" "key \<notin> dom (node_map n)"
    and n': "n' = value_update (n\<lparr>xkeys := (xkeys n)\<lparr>keys := (keys (xkeys n))[i := key]\<rparr>\<rparr>) i v"
  shows "node_ok N n'" and "node_map n' = (node_map n)(key \<mapsto> v)"
proof -
  note len = node_okD(1,2) [OF ok]
  have gk: "get_key n' j = (if j = i then key else get_key n j)" for j
    using i len by (simp add: n' nth_list_update_if)
  have va: "val_at n' j = (if j = i then Some v else val_at n j)" for j
    using i len by (simp add: n' val_at_value_update)
  have new: "get_key n j \<noteq> key" if "j < N" for j
    using key that by (auto simp: dom_node_map [OF ok] simp del: get_key_nth)
  have "length (keys (xkeys n')) = N" "vals_len n' = N" using len by (simp_all add: n')
  then show ok': "node_ok N n'"
    unfolding node_ok_def gk va using node_okD(3,4) [OF ok] new
    by (auto simp del: get_key_nth split: if_splits)
  show "node_map n' = (node_map n)(key \<mapsto> v)"
  proof (rule node_map_eqI [OF ok'])
    fix k w
    show "((node_map n)(key \<mapsto> v)) k = Some w \<longleftrightarrow>
        k \<noteq> top \<and> (\<exists>j<N. get_key n' j = k \<and> val_at n' j = Some w)"
    proof (cases "k = key")
      case True
      then show ?thesis unfolding gk va using key(1) i new by auto
    next
      case False
      then show ?thesis unfolding gk va using node_map_Some_iff [OF ok, of k w] free
        by (auto simp del: get_key_nth)
    qed
  qed
qed

lemma clear_key_simps [simp]:
  "xnext (clear_key n i) = xnext n" "val_at (clear_key n i) j = val_at n j"
  "vals_len (clear_key n i) = vals_len n" "incarnation (xkeys (clear_key n i)) = incarnation (xkeys n)"
  "keys (xkeys (clear_key n i)) = (keys (xkeys n))[i := top]"
  by (simp_all add: clear_key_def keys_clear_def val_at_def vals_len_def)

lemma node_clear:
  fixes n :: "('k::order_top, 'v) xnode"
  assumes ok: "node_ok N n" and i: "i < N"
  shows "node_ok N (clear_key n i)"
    and "node_map (clear_key n i) = (node_map n)(get_key n i := None)"
proof -
  note len = node_okD(1,2) [OF ok]
  have gk: "get_key (clear_key n i) j = (if j = i then top else get_key n j)" for j
    using i len by (simp add: nth_list_update_if)
  show ok': "node_ok N (clear_key n i)"
    unfolding node_ok_def gk clear_key_simps length_list_update
    using node_okD(3,4) [OF ok] len by simp
  show "node_map (clear_key n i) = (node_map n)(get_key n i := None)"
  proof (rule node_map_eqI [OF ok'])
    fix k w
    show "((node_map n)(get_key n i := None)) k = Some w \<longleftrightarrow>
        k \<noteq> top \<and> (\<exists>j<N. get_key (clear_key n i) j = k \<and> val_at (clear_key n i) j = Some w)"
    proof (cases "k = get_key n i")
      case True
      then show ?thesis unfolding gk clear_key_simps
        using node_okD(4) [OF ok _ i] by (auto simp del: get_key_nth)
    next
      case False
      then have "(\<exists>j<N. (if j = i then top else get_key n j) = k \<and> val_at n j = Some w) \<longleftrightarrow>
          (\<exists>j<N. get_key n j = k \<and> val_at n j = Some w)" if "k \<noteq> top"
        using that by metis
      with False show ?thesis unfolding gk clear_key_simps
        using node_map_Some_iff [OF ok, of k w] by (metis fun_upd_other)
    qed
  qed
qed

section \<open>Insertion without a split\<close>

lemma add_key_free:
  assumes "node_ok N n" and "card (dom (node_map n)) < N"
  obtains i where "i < N" and "get_key n i = top" and "\<forall>j<i. get_key n j \<noteq> top"
    and "add_key (xkeys n) key = ((xkeys n)\<lparr>keys := (keys (xkeys n))[i := key]\<rparr>, Some i)"
proof -
  have len: "length (keys (xkeys n)) = N" using assms(1) by (rule node_okD)
  obtain j where "j < N" "keys (xkeys n) ! j = top"
    using assms free_slot_iff by fastforce
  then obtain i where i: "find_from (\<lambda>k. k = top) (keys (xkeys n)) 0 = Some i"
    using find_from_0_exists [of j "keys (xkeys n)" "\<lambda>k. k = top"] len by auto
  with len show ?thesis
    using find_from_0_SomeD [OF i] that [of i] by (simp add: add_key_def)
qed

lemma add_key_full:
  assumes "node_ok N n" and "\<not> card (dom (node_map n)) < N"
  shows "add_key (xkeys n) key = (xkeys n, None)"
proof -
  have "\<forall>k\<in>set (keys (xkeys n)). k \<noteq> top"
    using assms free_slot_iff [OF assms(1)] node_okD(1) [OF assms(1)]
    by (auto simp: in_set_conv_nth)
  then have "find_from (\<lambda>k. k = top) (keys (xkeys n)) 0 = None"
    by (simp add: find_from_None)
  then show ?thesis by (simp add: add_key_def)
qed

text \<open>What an insertion without a split guarantees.\<close>

definition inserted ::
  "nat \<Rightarrow> ('k::order_top, 'v) xnode \<Rightarrow> 'k \<Rightarrow> 'v \<Rightarrow> ('k, 'v) xnode \<Rightarrow> bool" where
  "inserted N n key v n' \<longleftrightarrow> node_ok N n' \<and> node_map n' = (node_map n)(key \<mapsto> v) \<and>
     xnext n' = xnext n \<and> get_incarnation n' = get_incarnation n \<and>
     (\<forall>j<N. get_key n j \<noteq> top \<longrightarrow> get_key n' j = get_key n j) \<and>
     (get_key n 0 = top \<longrightarrow> get_key n' 0 = key)"

lemma insertedD:
  assumes "inserted N n key v n'"
  shows "node_ok N n'" "node_map n' = (node_map n)(key \<mapsto> v)" "xnext n' = xnext n"
    and "get_incarnation n' = get_incarnation n"
    and "j < N \<Longrightarrow> get_key n j \<noteq> top \<Longrightarrow> get_key n' j = get_key n j"
    and "get_key n 0 = top \<Longrightarrow> get_key n' 0 = key"
  using assms by (auto simp: inserted_def simp del: get_key_nth)

lemma raw_insert_nosplit_ok:
  assumes ok: "node_ok N n" and key: "key \<noteq> top" "key \<notin> dom (node_map n)"
    and room: "card (dom (node_map n)) < N"
  shows "\<exists>n'. raw_insert_nosplit n key v = Inr n' \<and> inserted N n key v n'"
proof -
  obtain i where i: "i < N" "get_key n i = top" "\<forall>j<i. get_key n j \<noteq> top"
    "add_key (xkeys n) key = ((xkeys n)\<lparr>keys := (keys (xkeys n))[i := key]\<rparr>, Some i)"
    using ok room by (rule add_key_free)
  let ?n' = "value_update (n\<lparr>xkeys := (xkeys n)\<lparr>keys := (keys (xkeys n))[i := key]\<rparr>\<rparr>) i v"
  note put = node_put [OF ok i(1,2) key refl, of v]
  have first: "get_key n 0 = top \<Longrightarrow> i = 0" using i(3) by (cases i) auto
  have "inserted N n key v ?n'"
    unfolding inserted_def
    using put i(1,2) first node_okD(1) [OF ok] by (auto simp: get_incarnation_def nth_list_update_if)
  moreover have "raw_insert_nosplit n key v = Inr ?n'" by (simp add: raw_insert_nosplit_def i(4))
  ultimately show ?thesis by blast
qed

text \<open>With room in the node the candidate is not touched; with a null candidate nothing else can happen.\<close>

lemma raw_insert_room:
  "node_ok N n \<Longrightarrow> card (dom (node_map n)) < N \<Longrightarrow>
    raw_insert n key v c = rbind (raw_insert_nosplit n key v) (\<lambda>n'. Inr (n', c, False))"
  by (erule add_key_free [where key = key]) (auto simp: raw_insert_def raw_insert_nosplit_def)

lemma raw_insert_null:
  "raw_insert n key v None = rbind (raw_insert_nosplit n key v) (\<lambda>n'. Inr (n', None, False))"
  by (auto simp: raw_insert_def raw_insert_nosplit_def split: prod.splits option.splits)

lemma raw_insert_nosplit_full:
  "node_ok N n \<Longrightarrow> \<not> card (dom (node_map n)) < N \<Longrightarrow> raw_insert_nosplit n key v = Inl AssertFail"
  by (simp add: raw_insert_nosplit_def add_key_full)

section \<open>The split loop\<close>

text \<open>The keys the loop moves when it visits the slots \<open>is\<close>.\<close>

definition above :: "'k::{linorder,order_top} \<Rightarrow> ('k, 'v) xnode \<Rightarrow> nat list \<Rightarrow> 'k set" where
  "above pk n is = {k. k \<noteq> top \<and> pk < k \<and> (\<exists>i\<in>set is. get_key n i = k)}"

lemma above_subset_dom: "node_ok N n \<Longrightarrow> set is \<subseteq> {..<N} \<Longrightarrow> above pk n is \<subseteq> dom (node_map n)"
  by (auto simp: above_def dom_node_map simp del: get_key_nth)

lemma above_clear:
  assumes "node_ok N n" and "i < N" and "set is \<subseteq> {..<N}" and "i \<notin> set is"
  shows "above pk (clear_key n i) is = above pk n is"
proof -
  have "get_key (clear_key n i) j = get_key n j" if "j \<in> set is" for j
    using that assms node_okD(1) [OF assms(1)] by (auto simp: nth_list_update_if)
  then show ?thesis by (auto simp: above_def simp del: get_key_nth)
qed

lemma above_Cons:
  "above pk n (i # is) =
     (if get_key n i \<noteq> top \<and> pk < get_key n i then insert (get_key n i) (above pk n is)
      else above pk n is)"
  by (auto simp: above_def simp del: get_key_nth)

lemma above_fresh:
  assumes "node_ok N n" and "i < N" and "set is \<subseteq> {..<N}" and "i \<notin> set is" and "get_key n i \<noteq> top"
  shows "get_key n i \<notin> above pk n is"
  using assms(2-) node_okD(4) [OF assms(1)] by (force simp: above_def simp del: get_key_nth)

lemma move_step_map:
  fixes m c :: "'k \<rightharpoonup> 'v"
  assumes "m k = Some v" and "k \<notin> A" and "insert k A \<inter> dom c = {}"
  shows "(c(k \<mapsto> v)) ++ ((m(k := None)) |` A) = c ++ (m |` insert k A)"
    and "(m(k := None)) |` (- A) = m |` (- insert k A)"
  using assms by (auto simp: fun_eq_iff map_add_def restrict_map_def split: option.splits)

lemma move_above_ok:
  fixes this cand :: "('k::{linorder,order_top}, 'v) xnode"
  assumes "node_ok N this" and "node_ok N cand" and "distinct is" and "set is \<subseteq> {..<N}"
    and "above pk this is \<inter> dom (node_map cand) = {}"
    and "card (dom (node_map cand)) + card (above pk this is) \<le> N"
  shows "\<exists>this' cand'. move_above pk is this cand = Inr (this', cand') \<and>
    node_ok N this' \<and> node_ok N cand' \<and>
    node_map this' = node_map this |` (- above pk this is) \<and>
    node_map cand' = node_map cand ++ (node_map this |` above pk this is) \<and>
    xnext this' = xnext this \<and> get_incarnation this' = get_incarnation this \<and>
    (0 < N \<longrightarrow> get_key cand 0 \<noteq> top \<longrightarrow> get_key cand' 0 = get_key cand 0)"
  using assms
proof (induction "is" arbitrary: this cand)
  case Nil
  have "above pk this [] = {}" by (simp add: above_def)
  with Nil show ?case by simp
next
  case (Cons i "is")
  let ?k = "get_key this i"
  have i: "i < N" "i \<notin> set is" "distinct is" "set is \<subseteq> {..<N}" using Cons.prems by auto
  show ?case
  proof (cases "?k \<noteq> top \<and> pk < ?k")
    case False
    with Cons.prems have "above pk this (i # is) = above pk this is"
      by (auto simp: above_Cons simp del: get_key_nth)
    moreover have "move_above pk (i # is) this cand = move_above pk is this cand"
      using False by (auto simp: Let_def simp del: get_key_nth)
    ultimately show ?thesis
      using Cons.IH [OF Cons.prems(1,2) i(3,4)] Cons.prems(5,6) by simp
  next
    case True
    let ?A = "above pk this is"
    have A: "above pk this (i # is) = insert ?k ?A" "?k \<notin> ?A"
      using True above_fresh [OF Cons.prems(1) i(1,4,2)] by (simp_all add: above_Cons del: get_key_nth)
    have "?A \<subseteq> dom (node_map this)" by (rule above_subset_dom [OF Cons.prems(1) i(4)])
    then have fin: "finite ?A" using Cons.prems(1) finite_dom_node_map finite_subset by blast
    obtain v where v: "val_at this i = Some v" using node_okD(3) [OF Cons.prems(1) i(1)] True by auto
    have mk: "node_map this ?k = Some v"
      unfolding node_map_Some_iff [OF Cons.prems(1)] using True i(1) v by blast
    have kc: "?k \<notin> dom (node_map cand)" using Cons.prems(5) A by auto
    have room: "card (dom (node_map cand)) < N" using Cons.prems(6) A fin by simp
    have kt: "?k \<noteq> top" using True by simp
    obtain c1 where c1: "raw_insert_nosplit cand ?k v = Inr c1" "inserted N cand ?k v c1"
      using raw_insert_nosplit_ok [OF Cons.prems(2) kt kc room] by blast
    note c1' = insertedD [OF c1(2)]
    let ?t1 = "clear_key this i"
    note t1 = node_clear [OF Cons.prems(1) i(1)] above_clear [OF Cons.prems(1) i(1,4,2), of pk]
    have d1: "dom (node_map c1) = insert ?k (dom (node_map cand))" by (simp add: c1'(2))
    have p1: "above pk ?t1 is \<inter> dom (node_map c1) = {}"
      unfolding t1(3) d1 using Cons.prems(5) A by blast
    have "card (dom (node_map c1)) = Suc (card (dom (node_map cand)))"
      unfolding d1 by (rule card_insert_disjoint [OF finite_dom_node_map [OF Cons.prems(2)] kc])
    moreover have "card (above pk this (i # is)) = Suc (card ?A)"
      unfolding A(1) by (rule card_insert_disjoint [OF fin A(2)])
    ultimately have p2: "card (dom (node_map c1)) + card (above pk ?t1 is) \<le> N"
      unfolding t1(3) using Cons.prems(6) by linarith
    obtain this' cand' where r: "move_above pk is ?t1 c1 = Inr (this', cand')"
      "node_ok N this'" "node_ok N cand'"
      "node_map this' = node_map ?t1 |` (- ?A)"
      "node_map cand' = node_map c1 ++ (node_map ?t1 |` ?A)"
      "xnext this' = xnext ?t1" "get_incarnation this' = get_incarnation ?t1"
      "0 < N \<Longrightarrow> get_key c1 0 \<noteq> top \<Longrightarrow> get_key cand' 0 = get_key c1 0"
      using Cons.IH [OF t1(1) c1'(1) i(3,4) p1 p2] unfolding t1(3) by blast
    have step: "move_above pk (i # is) this cand = Inr (this', cand')"
      using True v c1(1) r(1) by (simp add: Let_def get_value_raw_val_at del: get_key_nth)
    have dj: "insert ?k ?A \<inter> dom (node_map cand) = {}" using Cons.prems(5) A(1) by simp
    note m = move_step_map [of "node_map this" ?k v ?A "node_map cand", OF mk A(2) dj]
    have "node_map this' = node_map this |` (- insert ?k ?A)"
      unfolding r(4) t1(2) by (rule m(2))
    moreover have "node_map cand' = node_map cand ++ (node_map this |` insert ?k ?A)"
      unfolding r(5) t1(2) c1'(2) by (rule m(1))
    moreover have "xnext this' = xnext this" "get_incarnation this' = get_incarnation this"
      using r(6,7) by (simp_all add: get_incarnation_def)
    moreover have "0 < N \<longrightarrow> get_key cand 0 \<noteq> top \<longrightarrow> get_key cand' 0 = get_key cand 0"
      using r(8) c1'(5) by (auto simp del: get_key_nth)
    ultimately show ?thesis
      unfolding A(1) using step r(2,3) by blast
  qed
qed

section \<open>The split\<close>

text \<open>
  What a split guarantees: the pivot is a key of the old node, the candidate starts with it, the
  node keeps the keys below it and the candidate gets the others, the new key included; the
  candidate is linked behind the node; the incarnation of the node has moved on.
\<close>

definition split_into :: "nat \<Rightarrow> ('k::{linorder,order_top}, 'v) xnode \<Rightarrow> 'k \<Rightarrow> 'v \<Rightarrow> addr
    \<Rightarrow> ('k, 'v) xnode \<Rightarrow> ('k, 'v) xnode \<Rightarrow> 'k \<Rightarrow> bool" where
  "split_into N n key v caddr n' c' pk \<longleftrightarrow>
     node_ok N n' \<and> node_ok N c' \<and> pk \<in> dom (node_map n) \<and> get_key c' 0 = pk \<and>
     node_map n' = (node_map n)(key \<mapsto> v) |` {k. k < pk} \<and>
     node_map c' = (node_map n)(key \<mapsto> v) |` {k. pk \<le> k} \<and>
     xnext n' = caddr \<and> xnext c' = xnext n \<and> get_incarnation n' = get_incarnation n + 1 \<and>
     card (dom (node_map n) \<inter> {k. k < pk}) = N div 2 \<and> card (dom (node_map n) \<inter> {k. pk \<le> k}) = N - N div 2"

lemma split_intoD:
  assumes "split_into N n key v caddr n' c' pk"
  shows "node_ok N n'" "node_ok N c'" "pk \<in> dom (node_map n)" "get_key c' 0 = pk"
    "node_map n' = (node_map n)(key \<mapsto> v) |` {k. k < pk}"
    "node_map c' = (node_map n)(key \<mapsto> v) |` {k. pk \<le> k}"
    "xnext n' = caddr" "xnext c' = xnext n" "get_incarnation n' = get_incarnation n + 1"
    "card (dom (node_map n) \<inter> {k. k < pk}) = N div 2" "card (dom (node_map n) \<inter> {k. pk \<le> k}) = N - N div 2"
  using assms by (simp_all add: split_into_def del: get_key_nth)

lemma node_cong:
  assumes "keys (xkeys a) = keys (xkeys b)" and "xvals a = xvals b"
  shows "node_ok N a \<longleftrightarrow> node_ok N b" "node_map a = node_map b" "get_key a = get_key b"
    "val_at a = val_at b"
proof -
  show v: "val_at a = val_at b" and k: "get_key a = get_key b"
    using assms by (auto simp: val_at_def fun_eq_iff)
  show "node_map a = node_map b"
    unfolding node_map_def node_search_def keys_search_def v assms(1) ..
  show "node_ok N a \<longleftrightarrow> node_ok N b"
    using assms unfolding node_ok_def v k by (simp add: vals_len_def)
qed

lemma find_median_key_incar [simp]:
  "find_median_key (nk\<lparr>incarnation := x\<rparr>) = find_median_key nk"
  by (simp add: find_median_key_def)

lemma full_node_keys:
  assumes "node_ok N n" and "card (dom (node_map n)) = N"
  shows "distinct (keys (xkeys n))" and "set (keys (xkeys n)) = dom (node_map n)"
proof -
  have "\<forall>i<N. get_key n i \<noteq> top" using assms free_slot_iff [OF assms(1)] by auto
  then show "distinct (keys (xkeys n))" and "set (keys (xkeys n)) = dom (node_map n)"
    using node_okD(1,4) [OF assms(1)] dom_node_map [OF assms(1)]
    by (auto simp: distinct_conv_nth in_set_conv_nth)
qed

lemma split_maps:
  fixes m :: "'k::linorder \<rightharpoonup> 'v"
  assumes "m pk = Some pv" and "A = {k \<in> dom m. pk < k}"
  shows "(m(pk := None)) |` (- A) = m |` {k. k < pk}"
    and "Map.empty(pk \<mapsto> pv) ++ ((m(pk := None)) |` A) = m |` {k. pk \<le> k}"
  using assms by (auto simp: fun_eq_iff map_add_def restrict_map_def domIff split: option.splits)

text \<open>The state after the pivot and the keys above it have moved.\<close>

lemma move_half_ok:
  fixes n cand :: "('k::{linorder,order_top}, 'v) xnode"
  assumes n: "node_ok N n" "card (dom (node_map n)) = N" "0 < N"
    and cand: "node_ok N cand" "node_map cand = Map.empty"
  obtains p pk pv cand1 n3 cand2 where "find_median_key (xkeys n) = Some p" and "get_key n p = pk"
    and "get_value_raw n p = Inr pv" and "raw_insert_nosplit cand pk pv = Inr cand1"
    and "move_above pk [0..<N] (clear_key n p) cand1 = Inr (n3, cand2)"
    and "node_ok N n3" and "node_ok N cand2" and "pk \<in> dom (node_map n)"
    and "node_map n3 = node_map n |` {k. k < pk}" and "node_map cand2 = node_map n |` {k. pk \<le> k}"
    and "xnext n3 = xnext n" and "get_incarnation n3 = get_incarnation n"
    and "get_key cand2 0 = pk" and "card (dom (node_map n) \<inter> {k. k < pk}) = N div 2"
    and "card (dom (node_map n) \<inter> {k. pk \<le> k}) = N - N div 2"
proof -
  note full = full_node_keys [OF n(1,2)]
  have len: "length (keys (xkeys n)) = N" and ne: "keys (xkeys n) \<noteq> []"
    using node_okD(1) [OF n(1)] n(3) by auto
  obtain p where p: "find_median_key (xkeys n) = Some p" "p < N"
    "card {k \<in> set (keys (xkeys n)). k < keys (xkeys n) ! p} = N div 2"
    "card {k \<in> set (keys (xkeys n)). keys (xkeys n) ! p < k} = N - Suc (N div 2)"
    using find_median_key_rank [OF full(1) ne len] .
  let ?pk = "get_key n p" and ?D = "dom (node_map n)"
  define A where "A = {k \<in> ?D. ?pk < k}"
  have pkD: "?pk \<in> ?D" using full(2) len p(2) by (auto simp flip: full(2))
  then have pkt: "?pk \<noteq> top" using n(1) top_notin_node_map by blast
  have lt: "card (?D \<inter> {k. k < ?pk}) = N div 2" and gt: "card A = N - Suc (N div 2)"
    using p(3,4) unfolding full(2) by (simp_all add: A_def Int_def)
  have finA: "finite A" using n(1) by (simp add: A_def)
  have "?D \<inter> {k. ?pk \<le> k} = insert ?pk A" using pkD by (auto simp: A_def simp del: get_key_nth)
  then have ge: "card (?D \<inter> {k. ?pk \<le> k}) = N - N div 2"
    using gt finA n(3) by (simp add: A_def del: get_key_nth)
  obtain pv where pv: "val_at n p = Some pv" using node_okD(3) [OF n(1) p(2) pkt] by auto
  have mpk: "node_map n ?pk = Some pv"
    unfolding node_map_Some_iff [OF n(1)] using pkt p(2) pv by blast
  obtain cand1 where c1: "raw_insert_nosplit cand ?pk pv = Inr cand1" "inserted N cand ?pk pv cand1"
    using raw_insert_nosplit_ok [OF cand(1) pkt] cand(2) n(3) by fastforce
  note c1' = insertedD [OF c1(2)]
  have "get_key cand 0 = top"
    using dom_node_map [OF cand(1)] cand(2) n(3) by auto
  then have first: "get_key cand1 0 = ?pk" by (rule c1'(6))
  let ?n2 = "clear_key n p"
  note n2 = node_clear [OF n(1) p(2)]
  have "above ?pk ?n2 [0..<N] = {k \<in> dom (node_map ?n2). ?pk < k}"
    unfolding above_def dom_node_map [OF n2(1)] by auto
  also have "\<dots> = A" unfolding n2(2) A_def by auto
  finally have ab: "above ?pk ?n2 [0..<N] = A" .
  have d1: "dom (node_map cand1) = {?pk}" unfolding c1'(2) cand(2) by simp
  have dj: "A \<inter> {?pk} = {}" by (auto simp: A_def)
  have room: "card {?pk} + card A \<le> N" using gt n(3) by simp
  obtain n3 cand2 where r: "move_above ?pk [0..<N] ?n2 cand1 = Inr (n3, cand2)"
      "node_ok N n3" "node_ok N cand2" "node_map n3 = node_map ?n2 |` (- A)"
      "node_map cand2 = node_map cand1 ++ (node_map ?n2 |` A)"
      "xnext n3 = xnext ?n2" "get_incarnation n3 = get_incarnation ?n2"
      "0 < N \<longrightarrow> get_key cand1 0 \<noteq> top \<longrightarrow> get_key cand2 0 = get_key cand1 0"
    using move_above_ok [OF n2(1) c1'(1), of "[0..<N]" ?pk] dj room unfolding ab d1
    by (auto simp: atLeast0LessThan simp del: get_key_nth)
  note sm = split_maps [of "node_map n" ?pk pv A, OF mpk A_def]
  have m: "node_map n3 = node_map n |` {k. k < ?pk}" "node_map cand2 = node_map n |` {k. ?pk \<le> k}"
    unfolding r(4,5) n2(2) c1'(2) cand(2) by (rule sm)+
  show ?thesis
    using that [OF p(1) refl iffD1 [OF get_value_raw_val_at pv] c1(1) r(1-3) pkD m _ _ _ lt ge]
      r(6-8) first pkt n(3) by (simp add: get_incarnation_def del: get_key_nth)
qed

lemma restrict_insert_low:
  fixes m :: "'k::linorder \<rightharpoonup> 'v"
  assumes "key \<notin> dom m"
  shows "key \<le> pk \<Longrightarrow> pk \<in> dom m \<Longrightarrow> (m |` {k. k < pk})(key \<mapsto> v) = m(key \<mapsto> v) |` {k. k < pk}"
    and "pk < key \<Longrightarrow> (m |` {k. pk \<le> k})(key \<mapsto> v) = m(key \<mapsto> v) |` {k. pk \<le> k}"
    and "key < pk \<Longrightarrow> m |` {k. pk \<le> k} = m(key \<mapsto> v) |` {k. pk \<le> k}"
    and "pk \<le> key \<Longrightarrow> m |` {k. k < pk} = m(key \<mapsto> v) |` {k. k < pk}"
  using assms by (auto simp: fun_eq_iff restrict_map_def order.strict_iff_order domIff)

lemma raw_insert_split:
  fixes n cand :: "('k::{linorder,order_top}, 'v) xnode"
  assumes n: "node_ok N n" "card (dom (node_map n)) = N" and N: "2 \<le> N"
    and cand: "node_ok N cand" "node_map cand = Map.empty"
    and key: "key \<noteq> top" "key \<notin> dom (node_map n)"
  shows "\<exists>n' c' pk. raw_insert n key v (Some (ca, cand)) = Inr (n', Some (ca, c'), True) \<and>
    split_into N n key v ca n' c' pk"
proof -
  let ?n1 = "n\<lparr>xkeys := (xkeys n)\<lparr>incarnation := incarnation (xkeys n) + 1\<rparr>\<rparr>"
  have same: "keys (xkeys ?n1) = keys (xkeys n)" "xvals ?n1 = xvals n" by simp_all
  note n1 = node_cong [OF same]
  have pos: "0 < N" using N by simp
  have len: "length (keys (xkeys n)) = N" using n(1) by (rule node_okD)
  obtain p pk pv cand1 n3 cand2 where h: "find_median_key (xkeys ?n1) = Some p" "get_key ?n1 p = pk"
    "get_value_raw ?n1 p = Inr pv" "raw_insert_nosplit cand pk pv = Inr cand1"
    "move_above pk [0..<N] (clear_key ?n1 p) cand1 = Inr (n3, cand2)"
    "node_ok N n3" "node_ok N cand2" "pk \<in> dom (node_map ?n1)"
    "node_map n3 = node_map ?n1 |` {k. k < pk}" "node_map cand2 = node_map ?n1 |` {k. pk \<le> k}"
    "xnext n3 = xnext ?n1" "get_incarnation n3 = get_incarnation ?n1" "get_key cand2 0 = pk"
    "card (dom (node_map ?n1) \<inter> {k. k < pk}) = N div 2"
    "card (dom (node_map ?n1) \<inter> {k. pk \<le> k}) = N - N div 2"
    by (rule move_half_ok [of N ?n1 cand]) (use n n1 pos cand in auto)
  note h' = h(8-10,14,15) [unfolded n1(2)]
  have pk: "pk \<noteq> top" "pk \<noteq> key" using h'(1) n(1) key(2) top_notin_node_map by auto
  define fin :: "('k, 'v) xnode \<times> ('k, 'v) xnode \<Rightarrow>
      (('k, 'v) xnode \<times> (addr \<times> ('k, 'v) xnode) option \<times> bool) res"
    where "fin = (\<lambda>(t, c). Inr (t\<lparr>xnext := ca\<rparr>, Some (ca, c\<lparr>xnext := xnext t\<rparr>), True))"
  have run: "raw_insert n key v (Some (ca, cand)) =
     rbind (if key > pk then rbind (raw_insert_nosplit cand2 key v) (\<lambda>c. Inr (n3, c))
            else rbind (raw_insert_nosplit n3 key v) (\<lambda>t. Inr (t, cand2))) fin"
    using h(1-5) len add_key_full [OF n(1), of key] n(2)
    by (simp add: raw_insert_def Let_def fin_def case_prod_unfold)
  show ?thesis
  proof (cases "pk < key")
    case True
    have "card (dom (node_map cand2)) < N" unfolding h'(3) using h'(5) N by simp
    then obtain c where c: "raw_insert_nosplit cand2 key v = Inr c" "inserted N cand2 key v c"
      using raw_insert_nosplit_ok [OF h(7) key(1)] key(2) h'(3) by fastforce
    note c' = insertedD [OF c(2)]
    let ?t = "n3\<lparr>xnext := ca\<rparr>" and ?c = "c\<lparr>xnext := xnext n3\<rparr>"
    have t: "node_ok N ?t = node_ok N n3" "node_map ?t = node_map n3"
      and cc: "node_ok N ?c = node_ok N c" "node_map ?c = node_map c" "get_key ?c = get_key c"
      by (rule node_cong; simp)+
    have "node_map n3 = (node_map n)(key \<mapsto> v) |` {k. k < pk}"
      unfolding h'(2) using True by (intro restrict_insert_low(4) [OF key(2)]) simp
    moreover have "node_map c = (node_map n)(key \<mapsto> v) |` {k. pk \<le> k}"
      unfolding c'(2) h'(3) using True by (rule restrict_insert_low(2) [OF key(2)])
    moreover have "get_key c 0 = pk" using c'(5) [OF pos] h(13) pk(1) by simp
    ultimately have "split_into N n key v ca ?t ?c pk"
      unfolding split_into_def t cc using h(6,11,12) h'(1,4,5) c'(1) by (simp add: get_incarnation_def)
    then show ?thesis unfolding run using True c(1) by (auto simp: fin_def)
  next
    case False
    then have lt: "key < pk" using pk(2) by simp
    have "N div 2 < N" using N by simp
    then have "card (dom (node_map n3)) < N" unfolding h'(2) using h'(4) by simp
    then obtain t where t: "raw_insert_nosplit n3 key v = Inr t" "inserted N n3 key v t"
      using raw_insert_nosplit_ok [OF h(6) key(1)] key(2) h'(2) by fastforce
    note t' = insertedD [OF t(2)]
    let ?t = "t\<lparr>xnext := ca\<rparr>" and ?c = "cand2\<lparr>xnext := xnext t\<rparr>"
    have tt: "node_ok N ?t = node_ok N t" "node_map ?t = node_map t"
      and cc: "node_ok N ?c = node_ok N cand2" "node_map ?c = node_map cand2"
        "get_key ?c = get_key cand2"
      by (rule node_cong; simp)+
    have "node_map t = (node_map n)(key \<mapsto> v) |` {k. k < pk}"
      unfolding t'(2) h'(2) using lt by (intro restrict_insert_low(1) [OF key(2)] h'(1)) simp
    moreover have "node_map cand2 = (node_map n)(key \<mapsto> v) |` {k. pk \<le> k}"
      unfolding h'(3) using lt by (rule restrict_insert_low(3) [OF key(2)])
    ultimately have "split_into N n key v ca ?t ?c pk"
      unfolding split_into_def tt cc using h(7,11,12,13) h'(1,4,5) t'(1,3,4)
      by (simp add: get_incarnation_def)
    then show ?thesis unfolding run using False t(1) by (auto simp: fin_def)
  qed
qed


section \<open>Inserting a key that is present\<close>


section \<open>Properties\<close>

text \<open>Two leaves for the witnesses: a full one, and one with a free slot.\<close>

definition full_leaf :: "(xkey, u64) xnode" where
  "full_leaf = \<lparr>xkeys = \<lparr>keys = [XKey 5, XKey 3], incarnation = 0\<rparr>, xvals = Inplace [Some 50, Some 30],
     xnext = 0, xlock = 0\<rparr>"

definition half_leaf :: "(xkey, u64) xnode" where
  "half_leaf = \<lparr>xkeys = \<lparr>keys = [XKey 5, top], incarnation = 0\<rparr>, xvals = Inplace [Some 50, None],
     xnext = 0, xlock = 0\<rparr>"

lemma sample_leaves_ok: "node_ok 2 full_leaf" "node_ok 2 half_leaf"
  by (auto simp: full_leaf_def half_leaf_def node_ok_def vals_len_def val_at_def less_Suc_eq numeral_2_eq_2)

lemma dom_full_leaf: "dom (node_map full_leaf) = {XKey 3, XKey 5}"
  unfolding dom_node_map_valid_keys [OF sample_leaves_ok(1)]
  by (auto simp: valid_keys_def full_leaf_def)

text \<open>C14: inserting a new key into a full leaf never fails: the leaf keeps the keys below the
  median and the candidate takes the others, each with its value, the new pair goes to its side,
  the candidate's first slot holds the separator, the candidate is linked in behind the leaf, and
  the incarnation of the leaf has changed.\<close>

theorem leaf_split:
  fixes n :: "('k::{linorder,order_top}, 'v) xnode"
  assumes "node_ok N n" and "num_keys n = N" and "2 \<le> N" and "key \<noteq> top" and "key \<notin> dom (node_map n)"
  shows "\<exists>n' c' pk. raw_insert n key v (Some (ca, XNode N sz)) = Inr (n', Some (ca, c'), True) \<and>
    node_ok N n' \<and> node_ok N c' \<and> get_key c' 0 = pk \<and>
    node_map n' = (node_map n)(key \<mapsto> v) |` {k. k < pk} \<and>
    node_map c' = (node_map n)(key \<mapsto> v) |` {k. pk \<le> k} \<and>
    card (dom (node_map n) \<inter> {k. k < pk}) = N div 2 \<and>
    xnext n' = ca \<and> xnext c' = xnext n \<and> get_incarnation n' = get_incarnation n + 1"
proof -
  have "distinct (filter (\<lambda>k. k \<noteq> top) (keys (xkeys n)))"
    using node_okD(1,4) [OF assms(1)] by (intro distinct_filter_nth) simp
  then have "card (dom (node_map n)) = N"
    using assms(2) by (simp add: num_keys_def num_keys_distinct dom_node_map_valid_keys [OF assms(1)])
  from raw_insert_split [OF assms(1) this assms(3) node_ok_XNode node_map_XNode assms(4,5), of v ca sz]
  obtain n' c' pk where r: "raw_insert n key v (Some (ca, XNode N sz)) = Inr (n', Some (ca, c'), True)"
    "split_into N n key v ca n' c' pk" by blast
  note s = split_intoD [OF r(2)]
  from r(1) s(1,2,4-6,10,7-9) show ?thesis by blast
qed

theorem leaf_split_witness:
  "\<exists>n' c' pk. raw_insert full_leaf (XKey 4) 40 (Some (128, XNode 2 8)) = Inr (n', Some (128, c'), True) \<and>
    node_ok 2 n' \<and> node_ok 2 c' \<and> get_key c' 0 = pk \<and>
    node_map n' = (node_map full_leaf)(XKey 4 \<mapsto> 40) |` {k. k < pk} \<and>
    node_map c' = (node_map full_leaf)(XKey 4 \<mapsto> 40) |` {k. pk \<le> k} \<and>
    card (dom (node_map full_leaf) \<inter> {k. k < pk}) = 2 div 2 \<and>
    xnext n' = 128 \<and> xnext c' = xnext full_leaf \<and> get_incarnation n' = get_incarnation full_leaf + 1"
  by (rule leaf_split [OF sample_leaves_ok(1)])
    (simp_all add: dom_full_leaf, simp_all add: full_leaf_def num_keys_def keys_num_keys_def)



text \<open>The byte offsets a client computes from \<^verbatim>\<open>value_offset\<close> never overlap: the values lie
  behind all \<open>N\<close> keys and the incarnation, one after another, and a wrapped value has room for its
  payload and both sequence numbers.\<close>

theorem node_layout:
  assumes "i < j"
  shows "key_offset sizeof_K N + 2 \<le> value_offset N sizeof_K sizeof_V i \<and>
    value_offset N sizeof_K sizeof_V i +
      (if sizeof_V \<le> 8 then sizeof_V else wt_meta_sz + sizeof_V) \<le> value_offset N sizeof_K sizeof_V j \<and>
    (sizeof_V \<le> 8 \<longrightarrow> j \<le> N \<longrightarrow>
      value_offset N sizeof_K sizeof_V j \<le> inplace_value_end_offset N sizeof_K sizeof_V)"
proof -
  have w: "wt_meta_sz + sizeof_V \<le> sizeof_wrapped sizeof_V"
    by (simp add: sizeof_wrapped_def)
  have "i * s + s \<le> j * s" for s using mult_le_mono1 [of "Suc i" j s] assms by simp
  from this [of sizeof_V] this [of "sizeof_wrapped sizeof_V"] w show ?thesis
    by (auto simp: value_offset_def value_start_offset_def key_offset_def offset_inplace_def
        offset_wrapped_def inplace_value_end_offset_def mult.commute)
qed

theorem node_layout_witness:
  "value_offset 16 8 100 2 + 108 \<le> value_offset 16 8 100 3"
  using node_layout [of 2 3 8 16 100] by (simp add: wt_meta_sz_def)

end
