(* ===== verification/InnerNode.thy ===== *)
theory InnerNode
  imports XNode
begin

text \<open>
  The inner node \<^verbatim>\<open>TreeInner<N,K>\<close> of \<^verbatim>\<open>xkv_core/src/xtree/inner_node.hh\<close>: a key array of \<open>N\<close>
  slots, a child array of \<open>N + 1\<close> slots and the number of keys in use, with its search, its
  array-shifting insertion, its copy for a split, and the recursive \<open>inner_insert\<close>. An inner node is
  referenced by its parent (or the root) only, so a pointer to one is modelled by the node itself;
  leaves are shared (next pointers, iterators, translation tables) and stay addresses into a store.
\<close>

section \<open>The node\<close>

datatype 'k inner =
    TreeInner (ikeys: "'k list") (up_key: 'k) (childrens: "'k child list") (inum_keys: nat)
and 'k child = NullPtr | LeafPtr addr | InnerPtr "'k inner"

text \<open>
  Slots that the constructors leave uninitialised hold \<open>undefined\<close>, of which nothing is known.
\<close>

definition TreeInner_default :: "nat \<Rightarrow> 'k::order_top inner" where
  "TreeInner_default N =
     TreeInner (replicate N undefined) top (replicate N NullPtr @ [undefined]) 0"

definition TreeInner_root :: "nat \<Rightarrow> 'k \<Rightarrow> 'k child \<Rightarrow> 'k child \<Rightarrow> 'k inner" where
  "TreeInner_root N k l r =
     TreeInner ((replicate N undefined)[0 := k]) undefined
       ((replicate (N + 1) undefined)[0 := l, 1 := r]) 1"

definition find_children_idx :: "'k::linorder inner \<Rightarrow> 'k \<Rightarrow> nat" where
  "find_children_idx n k =
     (case find_from (\<lambda>x. k < x) (take (inum_keys n) (ikeys n)) 0 of
        Some i \<Rightarrow> i | None \<Rightarrow> inum_keys n)"

definition find_children :: "'k::linorder inner \<Rightarrow> 'k \<Rightarrow> 'k child" where
  "find_children n k = childrens n ! find_children_idx n k"

definition inner_empty :: "'k inner \<Rightarrow> bool" where
  "inner_empty n \<longleftrightarrow> inum_keys n = 0"

definition inner_full :: "nat \<Rightarrow> 'k inner \<Rightarrow> bool" where
  "inner_full N n \<longleftrightarrow> inum_keys n = N"

text \<open>The loop copies slot \<open>i\<close> to slot \<open>i - n\<close>; the last child follows it.\<close>

definition copy_after_n_to :: "'k inner \<Rightarrow> 'k inner \<Rightarrow> nat \<Rightarrow> 'k inner res" where
  "copy_after_n_to this nxt n =
     rbind (cassert (inner_empty nxt)) (\<lambda>_.
     let (ks, cs, copied) = foldl (\<lambda>(ks, cs, copied) i.
           (ks[i - n := ikeys this ! i], cs[i - n := childrens this ! i], copied + 1))
           (ikeys nxt, childrens nxt, 0) [n..<inum_keys this]
     in Inr (TreeInner ks (up_key nxt) (cs[copied := childrens this ! inum_keys this]) copied))"

text \<open>The loop runs from \<open>num_keys\<close> down to \<open>pos + 1\<close>.\<close>

definition insert_at_pos :: "'k inner \<Rightarrow> 'k \<Rightarrow> 'k child \<Rightarrow> nat \<Rightarrow> 'k inner" where
  "insert_at_pos this k p pos =
     (let (ks, cs) = foldl (\<lambda>(ks, cs) i. (ks[i := ks ! (i - 1)], cs[i + 1 := cs ! i]))
           (ikeys this, childrens this) (rev [pos + 1..<inum_keys this + 1])
      in TreeInner (ks[pos := k]) (up_key this) (cs[pos + 1 := p]) (inum_keys this + 1))"

section \<open>Insertion through the inner nodes\<close>

type_synonym ('k, 'v) leafs = "addr \<rightharpoonup> ('k, 'v) xnode"

text \<open>
  \<^verbatim>\<open>leaf->insert(key, v, candidate)\<close> on the store of leaves: the node and, when it has split, the
  candidate are written back. The lock of the node is not taken (the calls are commented out).
\<close>

definition leaf_insert :: "('k::{linorder,order_top}, 'v) leafs \<Rightarrow> addr \<Rightarrow> 'k \<Rightarrow> 'v \<Rightarrow> addr
    \<Rightarrow> (('k, 'v) leafs \<times> bool) res" where
  "leaf_insert m leaf key v candidate =
     (case m leaf of
        None \<Rightarrow> Inl NullDeref
      | Some n \<Rightarrow>
          rbind (raw_insert n key v (map_option (Pair candidate) (m candidate)))
            (\<lambda>(n', c', split).
              case c' of
                Some (ca, cn) \<Rightarrow> Inr ((m(ca \<mapsto> cn))(leaf \<mapsto> n'), split)
              | None \<Rightarrow> Inr (m(leaf \<mapsto> n'), split)))"

text \<open>
  The second half of \<^verbatim>\<open>TreeInner::insert\<close>: put \<open>to_insert\<close> with its separator next to child
  \<open>k\<close>, splitting this node first when it is full. The result is this node and the new sibling.
\<close>

definition insert_child :: "nat \<Rightarrow> 'k::{linorder,order_top} inner \<Rightarrow> nat \<Rightarrow> 'k \<Rightarrow> 'k child
    \<Rightarrow> ('k inner \<times> 'k inner option) res" where
  "insert_child N this k ukey to_insert =
     rbind (cassert (ukey \<noteq> top)) (\<lambda>_.
     if inner_full N this then
       let threshod = (N + 1) div 2 in
       rbind (copy_after_n_to this (TreeInner_default N) threshod) (\<lambda>new_sib0.
       let this1 = TreeInner (ikeys this) (up_key this) (childrens this) (threshod - 1);
           new_sib = TreeInner (ikeys new_sib0) (ikeys this1 ! (threshod - 1))
             (childrens new_sib0) (inum_keys new_sib0)
       in if ukey \<ge> up_key new_sib then
            rbind (cassert (k \<ge> threshod)) (\<lambda>_.
            Inr (this1, Some (insert_at_pos new_sib ukey to_insert (k - threshod))))
          else Inr (insert_at_pos this1 ukey to_insert k, Some new_sib))
     else Inr (insert_at_pos this ukey to_insert k, None))"

text \<open>Writing a changed child back into the child array.\<close>

definition set_child :: "'k inner \<Rightarrow> nat \<Rightarrow> 'k child \<Rightarrow> 'k inner" where
  "set_child n k c = TreeInner (ikeys n) (up_key n) ((childrens n)[k := c]) (inum_keys n)"

text \<open>
  \<^verbatim>\<open>TreeInner::insert\<close>. The result is this node, the store of leaves, whether the leaf has split,
  and the new sibling of this node (\<^verbatim>\<open>nullptr\<close> is \<open>None\<close>).
\<close>

fun inner_insert :: "nat \<Rightarrow> 'k::{linorder,order_top} inner \<Rightarrow> ('k, 'v) leafs \<Rightarrow> 'k \<Rightarrow> 'v \<Rightarrow> nat
    \<Rightarrow> addr \<Rightarrow> ('k inner \<times> ('k, 'v) leafs \<times> bool \<times> 'k inner option) res" where
  "inner_insert N this m key v 0 candidate = Inl AssertFail"
| "inner_insert N this m key v (Suc d) candidate =
     (let k = find_children_idx this key; child = childrens this ! k in
      if d = 0 then
        (case child of
           InnerPtr _ \<Rightarrow> Inl BadCast
         | NullPtr \<Rightarrow> Inl NullDeref
         | LeafPtr leaf \<Rightarrow>
             rbind (leaf_insert m leaf key v candidate) (\<lambda>(m', split).
             if split then
               (case m' candidate of
                  None \<Rightarrow> Inl NullDeref
                | Some cn \<Rightarrow>
                    rbind (insert_child N this k (get_key cn 0) (LeafPtr candidate)) (\<lambda>(this', sib).
                    Inr (this', m', True, sib)))
             else Inr (this, m', False, None)))
      else
        (case child of
           LeafPtr _ \<Rightarrow> Inl BadCast
         | NullPtr \<Rightarrow> Inl NullDeref
         | InnerPtr inn \<Rightarrow>
             rbind (inner_insert N inn m key v d candidate) (\<lambda>(inn', m', split, new_in).
             let this1 = set_child this k (InnerPtr inn') in
             (case new_in of
                None \<Rightarrow> Inr (this1, m', split, None)
              | Some s \<Rightarrow>
                  rbind (insert_child N this1 k (up_key s) (InnerPtr s)) (\<lambda>(this', sib).
                  Inr (this', m', split, sib))))))"

section \<open>The array operations on the keys and children in use\<close>

definition ik :: "'k inner \<Rightarrow> 'k list" where
  "ik n = take (inum_keys n) (ikeys n)"

definition ic :: "'k inner \<Rightarrow> 'k child list" where
  "ic n = take (inum_keys n + 1) (childrens n)"

definition inner_ok :: "nat \<Rightarrow> 'k inner \<Rightarrow> bool" where
  "inner_ok N n \<longleftrightarrow> length (ikeys n) = N \<and> length (childrens n) = N + 1 \<and> inum_keys n \<le> N"

lemma inner_okD:
  "inner_ok N n \<Longrightarrow> length (ikeys n) = N" "inner_ok N n \<Longrightarrow> length (childrens n) = N + 1"
  "inner_ok N n \<Longrightarrow> inum_keys n \<le> N"
  by (auto simp: inner_ok_def)

lemma length_ik_ic [simp]:
  "inner_ok N n \<Longrightarrow> length (ik n) = inum_keys n" "inner_ok N n \<Longrightarrow> length (ic n) = inum_keys n + 1"
  by (auto simp: ik_def ic_def inner_ok_def)

lemma inner_ok_default [simp]:
  "inner_ok N (TreeInner_default N)" "inum_keys (TreeInner_default N) = 0"
  by (simp_all add: inner_ok_def TreeInner_default_def)

lemma TreeInner_root_simps [simp]:
  assumes "0 < N"
  shows "inner_ok N (TreeInner_root N k l r)" "ik (TreeInner_root N k l r) = [k]"
    "ic (TreeInner_root N k l r) = [l, r]"
proof -
  obtain M where N: "N = Suc M" using assms by (cases N) auto
  show "inner_ok N (TreeInner_root N k l r)" "ik (TreeInner_root N k l r) = [k]"
    "ic (TreeInner_root N k l r) = [l, r]"
    by (simp_all add: N inner_ok_def TreeInner_root_def ik_def ic_def)
qed

lemma foldl_pair:
  "foldl (\<lambda>(a, b) i. (f a i, g b i)) (a, b) is = (foldl f a is, foldl g b is)"
  by (induction "is" arbitrary: a b) auto

lemma foldl_triple:
  "foldl (\<lambda>(a, b, c) i. (f a i, g b i, h c i)) (a, b, c) is = (foldl f a is, foldl g b is, foldl h c is)"
  by (induction "is" arbitrary: a b c) auto

text \<open>Shifting the slots above \<open>p\<close> one to the right.\<close>

lemma shift_right:
  assumes "n < length xs"
  shows "length (foldl (\<lambda>xs i. xs[i := xs ! (i - 1)]) xs (rev [p + 1..<n + 1])) = length xs"
    and "j < length xs \<Longrightarrow> foldl (\<lambda>xs i. xs[i := xs ! (i - 1)]) xs (rev [p + 1..<n + 1]) ! j =
      (if p < j \<and> j \<le> n then xs ! (j - 1) else xs ! j)"
  using assms
proof (induction n arbitrary: xs)
  case 0
  { case 1 show ?case by simp }
  { case 2 show ?case by simp }
next
  case (Suc n)
  let ?f = "\<lambda>xs i. xs[i := xs ! (i - 1)] :: 'a list"
  have step: "foldl ?f xs (rev [p + 1..<Suc n + 1]) =
      (if p \<le> n then foldl ?f (xs[Suc n := xs ! n]) (rev [p + 1..<n + 1]) else xs)" for xs
    by simp
  { case 1
    then show ?case using Suc.IH(1) [where xs = "xs[Suc n := xs ! n]"] unfolding step by simp }
  { case 2
    have "foldl ?f xs (rev [p + 1..<Suc n + 1]) ! j =
        (if p \<le> n then (if p < j \<and> j \<le> n then (xs[Suc n := xs ! n]) ! (j - 1)
                        else (xs[Suc n := xs ! n]) ! j) else xs ! j)"
      using Suc.IH(2) [where xs = "xs[Suc n := xs ! n]"] "2" unfolding step
      by (simp del: upt_Suc)
    also have "\<dots> = (if p < j \<and> j \<le> Suc n then xs ! (j - 1) else xs ! j)"
      using "2" by (auto simp: nth_list_update_if le_Suc_eq)
    finally show ?case . }
qed

lemma shift_right_children:
  "foldl (\<lambda>xs i. xs[i + 1 := xs ! i]) xs (rev [p + 1..<n + 1]) =
   foldl (\<lambda>xs i. xs[i := xs ! (i - 1)]) xs (rev [p + 2..<n + 2])"
proof -
  have "rev [p + 2..<n + 2] = map Suc (rev [p + 1..<n + 1])"
    unfolding rev_map [symmetric] map_Suc_upt by simp
  then show ?thesis by (simp only: foldl_map) simp
qed

lemma insert_shifted:
  assumes "length ys = length xs" and "n < length xs" and "p \<le> n"
    and "\<And>j. j < length xs \<Longrightarrow> ys ! j = (if p < j \<and> j \<le> n then xs ! (j - 1) else xs ! j)"
  shows "take (n + 1) (ys[p := x]) = take p (take n xs) @ x # drop p (take n xs)"
proof (rule nth_equalityI)
  fix j assume "j < length (take (n + 1) (ys[p := x]))"
  then have j: "j \<le> n" using assms by simp
  then show "take (n + 1) (ys[p := x]) ! j = (take p (take n xs) @ x # drop p (take n xs)) ! j"
    using assms by (auto simp: nth_append nth_list_update_if nth_Cons')
qed (use assms in auto)

lemma insert_at_pos_ok:
  assumes ok: "inner_ok N n" and room: "inum_keys n < N" and pos: "pos \<le> inum_keys n"
  shows "inner_ok N (insert_at_pos n k p pos)"
    and "ik (insert_at_pos n k p pos) = take pos (ik n) @ k # drop pos (ik n)"
    and "ic (insert_at_pos n k p pos) = take (pos + 1) (ic n) @ p # drop (pos + 1) (ic n)"
    and "up_key (insert_at_pos n k p pos) = up_key n"
proof -
  let ?m = "inum_keys n"
  let ?ks = "foldl (\<lambda>xs i. xs[i := xs ! (i - 1)]) (ikeys n) (rev [pos + 1..<?m + 1])"
  let ?cs = "foldl (\<lambda>xs i. xs[i := xs ! (i - 1)]) (childrens n) (rev [pos + 2..<?m + 2])"
  note len = inner_okD [OF ok]
  have r: "insert_at_pos n k p pos = TreeInner (?ks[pos := k]) (up_key n) (?cs[pos + 1 := p]) (?m + 1)"
    unfolding insert_at_pos_def foldl_pair shift_right_children Let_def by simp
  have k: "length ?ks = length (ikeys n)" "\<And>j. j < length (ikeys n) \<Longrightarrow> ?ks ! j =
      (if pos < j \<and> j \<le> ?m then ikeys n ! (j - 1) else ikeys n ! j)"
    using shift_right [where n = ?m and xs = "ikeys n" and p = pos] room len(1) by simp_all
  have c: "length ?cs = length (childrens n)" "\<And>j. j < length (childrens n) \<Longrightarrow> ?cs ! j =
      (if pos + 1 < j \<and> j \<le> ?m + 1 then childrens n ! (j - 1) else childrens n ! j)"
    using shift_right [where n = "?m + 1" and xs = "childrens n" and p = "pos + 1"] room len(2) by simp_all
  show "inner_ok N (insert_at_pos n k p pos)"
    using k(1) c(1) len room by (simp add: inner_ok_def r)
  show "ik (insert_at_pos n k p pos) = take pos (ik n) @ k # drop pos (ik n)"
    using insert_shifted [of ?ks "ikeys n" ?m pos k] k len(1) room pos by (simp add: ik_def r)
  show "ic (insert_at_pos n k p pos) = take (pos + 1) (ic n) @ p # drop (pos + 1) (ic n)"
    using insert_shifted [of ?cs "childrens n" "?m + 1" "pos + 1" p] c len(2) room pos
    by (simp add: ic_def r)
  show "up_key (insert_at_pos n k p pos) = up_key n" by (simp add: r)
qed

text \<open>The copy loop.\<close>

lemma copy_slots:
  "length (foldl (\<lambda>cs i. cs[i - n := xs ! i]) cs [n..<m]) = length cs"
  "j < length cs \<Longrightarrow> foldl (\<lambda>cs i. cs[i - n := xs ! i]) cs [n..<m] ! j =
     (if n + j < m then xs ! (n + j) else cs ! j)"
proof (induction m)
  case 0
  { case 1 show ?case by simp }
  { case 2 show ?case by simp }
next
  case (Suc m)
  { case 1 show ?case using Suc.IH(1) by simp }
  { case 2
    then show ?case using Suc.IH by (auto simp: nth_list_update_if not_less_eq_eq) }
qed

lemma count_loop: "foldl (\<lambda>c i. c + 1) 0 [n..<m] = m - (n :: nat)"
  by (induction m) auto

lemma copied_prefix:
  assumes "length ys = L" and "m - n \<le> L" and "m \<le> length xs" and "n \<le> m"
    and "\<And>j. j < L \<Longrightarrow> ys ! j = (if n + j < m then xs ! (n + j) else zs ! j)"
  shows "take (m - n) ys = drop n (take m xs)"
  by (rule nth_equalityI) (use assms in auto)

lemma copy_after_n_to_ok:
  assumes ok: "inner_ok N this" and nxt: "inner_ok N nxt" "inum_keys nxt = 0" and n: "n \<le> inum_keys this"
  shows "\<exists>r. copy_after_n_to this nxt n = Inr r \<and> inner_ok N r \<and> inum_keys r = inum_keys this - n \<and>
    ik r = drop n (ik this) \<and> ic r = drop n (ic this) \<and> up_key r = up_key nxt"
proof -
  let ?m = "inum_keys this"
  let ?ks = "foldl (\<lambda>cs i. cs[i - n := ikeys this ! i]) (ikeys nxt) [n..<?m]"
  let ?cs = "foldl (\<lambda>cs i. cs[i - n := childrens this ! i]) (childrens nxt) [n..<?m]"
  note len = inner_okD [OF ok] and len' = inner_okD [OF nxt(1)]
  let ?r = "TreeInner ?ks (up_key nxt) (?cs[?m - n := childrens this ! ?m]) (?m - n)"
  have r: "copy_after_n_to this nxt n = Inr ?r"
    unfolding copy_after_n_to_def foldl_triple count_loop by (simp add: inner_empty_def nxt(2))
  have "inner_ok N ?r" using len len' by (simp add: inner_ok_def copy_slots(1))
  moreover have "ik ?r = drop n (ik this)"
    unfolding ik_def using len len' n
    by (simp, intro copied_prefix [where L = N and zs = "ikeys nxt"])
      (simp_all add: copy_slots)
  moreover have "take (?m - n) ?cs = drop n (take ?m (childrens this))"
    using len len' n
    by (intro copied_prefix [where L = "N + 1" and zs = "childrens nxt"]) (simp_all add: copy_slots)
  then have "ic ?r = drop n (ic this)"
    using len len' n by (simp add: ic_def take_list_update_snoc copy_slots(1) take_Suc_conv_app_nth)
  ultimately show ?thesis using r by (intro exI [of _ ?r]) simp
qed

text \<open>The search returns the number of separators that are not above the key.\<close>

lemma find_children_idx_le: "find_children_idx n k \<le> inum_keys n"
proof (cases "find_from (\<lambda>x. k < x) (take (inum_keys n) (ikeys n)) 0")
  case (Some i)
  then have "i < length (take (inum_keys n) (ikeys n))" by (rule find_from_0_SomeD [THEN conjunct1])
  with Some show ?thesis by (simp add: find_children_idx_def)
qed (simp add: find_children_idx_def)

lemma find_children_idx_bounds:
  assumes "inner_ok N n" and "sorted_wrt (<) (ik n)"
  shows "\<And>x. x \<in> set (take (find_children_idx n k) (ik n)) \<Longrightarrow> x \<le> k"
    and "\<And>x. x \<in> set (drop (find_children_idx n k) (ik n)) \<Longrightarrow> k < x"
proof -
  let ?i = "find_children_idx n k"
  have len: "length (ik n) = inum_keys n" using assms(1) by simp
  have fold: "find_from (\<lambda>x. k < x) (take (inum_keys n) (ikeys n)) 0 = find_from (\<lambda>x. k < x) (ik n) 0"
    by (simp add: ik_def)
  have "(\<forall>x\<in>set (take ?i (ik n)). x \<le> k) \<and> (\<forall>x\<in>set (drop ?i (ik n)). k < x)"
  proof (cases "find_from (\<lambda>x. k < x) (ik n) 0")
    case None
    then have "?i = inum_keys n" by (simp add: find_children_idx_def fold)
    with None len show ?thesis by (auto simp: find_from_None not_less)
  next
    case (Some i)
    note f = find_from_0_SomeD [OF Some]
    have i: "?i = i" using Some by (simp add: find_children_idx_def fold)
    have "k < x" if "x \<in> set (drop i (ik n))" for x
    proof -
      from that obtain j where "j < length (drop i (ik n))" "x = drop i (ik n) ! j"
        by (metis in_set_conv_nth)
      then have j: "i + j < length (ik n)" "x = ik n ! (i + j)" using f by auto
      then have "ik n ! i \<le> x" using sorted_wrt_nth_less [OF assms(2), of i "i + j"]
        by (cases "j = 0") auto
      with f show ?thesis by auto
    qed
    moreover have "x \<le> k" if "x \<in> set (take i (ik n))" for x
      using that f by (auto simp: in_set_conv_nth not_less)
    ultimately show ?thesis by (simp add: i)
  qed
  then show "\<And>x. x \<in> set (take ?i (ik n)) \<Longrightarrow> x \<le> k" "\<And>x. x \<in> set (drop ?i (ik n)) \<Longrightarrow> k < x"
    by auto
qed

text \<open>
  Putting a child next to child \<open>k\<close>: the separators \<open>KS\<close> and children \<open>CS\<close> of the result,
  in one node or divided between the node and its new sibling around \<open>up_key\<close>.
\<close>

lemma insert_child_ok:
  fixes this :: "'k::{linorder,order_top} inner"
  assumes ok: "inner_ok N this" and N: "0 < N" and k: "k \<le> inum_keys this" and ut: "ukey \<noteq> top"
    and sorted: "sorted_wrt (<) (take k (ik this) @ ukey # drop k (ik this))"
  shows "\<exists>n' sib. insert_child N this k ukey c = Inr (n', sib) \<and> inner_ok N n' \<and>
    (case sib of
       None \<Rightarrow> ik n' = take k (ik this) @ ukey # drop k (ik this) \<and>
         ic n' = take (k + 1) (ic this) @ c # drop (k + 1) (ic this)
     | Some s \<Rightarrow> inner_ok N s \<and>
         ik n' @ up_key s # ik s = take k (ik this) @ ukey # drop k (ik this) \<and>
         ic n' @ ic s = take (k + 1) (ic this) @ c # drop (k + 1) (ic this))"
proof (cases "inner_full N this")
  case False
  then have room: "inum_keys this < N" using inner_okD(3) [OF ok] by (simp add: inner_full_def)
  show ?thesis
    using False ut insert_at_pos_ok [OF ok room k, of ukey c] by (simp add: insert_child_def)
next
  case True
  then have full: "inum_keys this = N" by (simp add: inner_full_def)
  define th where "th = (N + 1) div 2"
  have th: "0 < th" "th \<le> N" using N by (auto simp: th_def)
  note len = inner_okD [OF ok]
  obtain s0 where s0: "copy_after_n_to this (TreeInner_default N) th = Inr s0" "inner_ok N s0"
    "inum_keys s0 = N - th" "ik s0 = drop th (ik this)" "ic s0 = drop th (ic this)"
    using copy_after_n_to_ok [OF ok, of "TreeInner_default N" th] th full by auto
  let ?this1 = "TreeInner (ikeys this) (up_key this) (childrens this) (th - 1)"
  let ?u = "ikeys this ! (th - 1)"
  let ?sib = "TreeInner (ikeys s0) ?u (childrens s0) (inum_keys s0)"
  have t1: "inner_ok N ?this1" "ik ?this1 = take (th - 1) (ik this)" "ic ?this1 = take th (ic this)"
    using len th full by (simp_all add: inner_ok_def ik_def ic_def min_def)
  have sib: "inner_ok N ?sib" "ik ?sib = drop th (ik this)" "ic ?sib = drop th (ic this)"
    "inum_keys ?sib = N - th"
    using s0 by (simp_all add: inner_ok_def ik_def ic_def)
  have u: "?u = ik this ! (th - 1)" using th full by (simp add: ik_def)
  have lik: "length (ik this) = N" and lic: "length (ic this) = N + 1" using ok full by simp_all
  have mid: "ik this = take (th - 1) (ik this) @ ?u # drop th (ik this)"
    using id_take_nth_drop [of "th - 1" "ik this"] lik th u by simp
  have res: "insert_child N this k ukey c =
     (if ukey \<ge> ?u then rbind (cassert (k \<ge> th)) (\<lambda>_.
        Inr (?this1, Some (insert_at_pos ?sib ukey c (k - th))))
      else Inr (insert_at_pos ?this1 ukey c k, Some ?sib))"
    using True ut s0(1) by (simp add: insert_child_def Let_def th_def)
  show ?thesis
  proof (cases "ukey \<ge> ?u")
    case le: True
    have kt: "th \<le> k"
    proof (rule ccontr)
      assume "\<not> th \<le> k"
      then have "drop k (ik this) ! (th - 1 - k) = ?u" "th - 1 - k < length (drop k (ik this))"
        using lik th u by auto
      then have "?u \<in> set (drop k (ik this))" by (metis nth_mem)
      then show False using sorted le by (auto simp: sorted_wrt_append)
    qed
    then have kp: "k - th \<le> inum_keys ?sib" using sib(4) k full by simp
    have room: "inum_keys ?sib < N" using sib(4) th by simp
    note ins = insert_at_pos_ok [OF sib(1) room kp, of ukey c]
    have tk: "take k (ik this) = take (th - 1) (ik this) @ ?u # take (k - th) (drop th (ik this))"
      by (subst mid) (use kt th lik in \<open>auto simp: min_def take_Cons' Suc_diff_Suc\<close>)
    have dk: "drop k (ik this) = drop (k - th) (drop th (ik this))" using kt by simp
    have tc: "take (k + 1) (ic this) = take th (ic this) @ take (k - th + 1) (drop th (ic this))"
      using take_add [of th "k - th + 1" "ic this"] kt by simp
    have dc: "drop (k + 1) (ic this) = drop (k - th + 1) (drop th (ic this))" using kt by simp
    show ?thesis unfolding res using le kt t1 ins unfolding sib tk dk tc dc by simp
  next
    case lt: False
    have kt: "k \<le> th - 1"
    proof (rule ccontr)
      assume "\<not> k \<le> th - 1"
      then have "take k (ik this) ! (th - 1) = ?u" "th - 1 < length (take k (ik this))"
        using lik th u by auto
      then have "?u \<in> set (take k (ik this))" by (metis nth_mem)
      then show False using sorted lt by (auto simp: sorted_wrt_append)
    qed
    then have kp: "k \<le> inum_keys ?this1" and room: "inum_keys ?this1 < N" using th by simp_all
    note ins = insert_at_pos_ok [OF t1(1) room kp, of ukey c]
    have tk: "take k (ik this) = take k (take (th - 1) (ik this))" using kt by (simp add: min_def)
    have dk: "drop k (ik this) = drop k (take (th - 1) (ik this)) @ ?u # drop th (ik this)"
      by (subst mid) (use kt lik th in \<open>simp add: min_def\<close>)
    have tc: "take (k + 1) (ic this) = take (k + 1) (take th (ic this))"
      using kt th by (simp add: min_def)
    have dc: "drop (k + 1) (ic this) = drop (k + 1) (take th (ic this)) @ drop th (ic this)"
      using kt th lic by (subst append_take_drop_id [of th "ic this", symmetric], subst drop_append) simp
    have up: "up_key ?sib = ?u" by simp
    show ?thesis unfolding res using lt sib(1) ins
      unfolding t1 sib tk dk tc dc by (simp add: sib del: One_nat_def)
  qed
qed

end
