(* ===== verification/Alloc.thy ===== *)
theory Alloc
  imports Prelude
begin

text \<open>
  The allocators of leaf nodes: the interface \<^verbatim>\<open>AllocTrait\<close> (\<^verbatim>\<open>alloc_trait.hh\<close>) as a locale, the
  slab allocator \<^verbatim>\<open>XAlloc\<close> (\<^verbatim>\<open>xalloc.hh\<close>) and the malloc-backed \<^verbatim>\<open>TrivalAlloc\<close>. The interface
  promises that a non-null address it returns is not one that is already in use.
\<close>

section \<open>The interface\<close>

text \<open>
  \<open>live s\<close> are the addresses handed out so far. An empty \<^verbatim>\<open>Option\<close> and a null pointer both mean that
  nothing was allocated.
\<close>

locale alloc_trait =
  fixes alloc :: "'s \<Rightarrow> 's \<times> addr option"
    and live :: "'s \<Rightarrow> addr set"
    and ainv :: "'s \<Rightarrow> bool"
  assumes alloc_inv: "ainv s \<Longrightarrow> alloc s = (s', r) \<Longrightarrow> ainv s'"
    and alloc_fresh: "ainv s \<Longrightarrow> alloc s = (s', Some a) \<Longrightarrow> a \<noteq> 0 \<Longrightarrow> a \<notin> live s"
    and alloc_live: "ainv s \<Longrightarrow> alloc s = (s', Some a) \<Longrightarrow> a \<noteq> 0 \<Longrightarrow> live s' = insert a (live s)"
    and alloc_fail: "ainv s \<Longrightarrow> alloc s = (s', r) \<Longrightarrow> r = None \<or> r = Some 0 \<Longrightarrow> live s' = live s"
begin

text \<open>Allocating a number of blocks one after another.\<close>

primrec alloc_n :: "nat \<Rightarrow> 's \<Rightarrow> 's \<times> addr list" where
  "alloc_n 0 s = (s, [])"
| "alloc_n (Suc n) s =
     (case alloc s of
        (s', Some a) \<Rightarrow> if a = 0 then (s', []) else (case alloc_n n s' of (s'', as) \<Rightarrow> (s'', a # as))
      | (s', None) \<Rightarrow> (s', []))"

lemma alloc_n_fresh:
  assumes "ainv s" and "alloc_n n s = (s', as)"
  shows "ainv s' \<and> distinct as \<and> set as \<inter> live s = {} \<and> live s' = set as \<union> live s \<and> 0 \<notin> set as"
  using assms
proof (induction n arbitrary: s s' as)
  case (Suc n)
  obtain s1 r where r: "alloc s = (s1, r)" by fastforce
  note inv = alloc_inv [OF Suc.prems(1) r]
  show ?case
  proof (cases "r = None \<or> r = Some 0")
    case True
    then have "s' = s1" "as = []" using Suc.prems(2) r by auto
    then show ?thesis using inv alloc_fail [OF Suc.prems(1) r True] by simp
  next
    case False
    then obtain a where a: "r = Some a" "a \<noteq> 0" by auto
    obtain s2 as' where n: "alloc_n n s1 = (s2, as')" by fastforce
    have "s' = s2" "as = a # as'" using Suc.prems(2) r a n by auto
    moreover have "a \<notin> live s" "live s1 = insert a (live s)"
      using alloc_fresh [OF Suc.prems(1) r [unfolded a(1)] a(2)]
        alloc_live [OF Suc.prems(1) r [unfolded a(1)] a(2)] by simp_all
    ultimately show ?thesis using Suc.IH [OF inv n] a(2) by auto
  qed
qed simp

end

section \<open>The slab allocator\<close>

record xalloc =
  xa_lock :: u16
  mem_pool :: addr
  total_sz :: u64
  cur_alloc_sz :: u64
  cur_alloc_num :: nat

definition XAlloc :: "addr \<Rightarrow> u64 \<Rightarrow> xalloc" where
  "XAlloc m t =
     \<lparr>xa_lock = 0, mem_pool = m, total_sz = t, cur_alloc_sz = 0, cur_alloc_num = 0\<rparr>"

text \<open>\<open>S\<close> is the block size of the template. The sum in the test is 64-bit and may wrap.\<close>

definition xalloc_alloc :: "u64 \<Rightarrow> xalloc \<Rightarrow> xalloc \<times> addr option" where
  "xalloc_alloc S a =
     (let a1 = a\<lparr>xa_lock := 1\<rparr> in
      if cur_alloc_sz a1 + S \<le> total_sz a1 then
        let res = mem_pool a1 + cur_alloc_sz a1;
            a2 = a1\<lparr>cur_alloc_sz := cur_alloc_sz a1 + S, cur_alloc_num := cur_alloc_num a1 + 1\<rparr>
        in (a2\<lparr>xa_lock := 0\<rparr>, Some res)
      else (a1\<lparr>xa_lock := 0\<rparr>, None))"

definition xalloc_dealloc :: "xalloc \<Rightarrow> addr \<Rightarrow> xalloc res" where
  "xalloc_dealloc a data = Inl AssertFail"

definition xalloc_live :: "u64 \<Rightarrow> xalloc \<Rightarrow> addr set" where
  "xalloc_live S a = (\<lambda>i. mem_pool a + of_nat i * S) ` {..<cur_alloc_num a}"

text \<open>The pool lies below the end of the address space, with room for one more block after it.\<close>

definition xalloc_inv :: "u64 \<Rightarrow> xalloc \<Rightarrow> bool" where
  "xalloc_inv S a \<longleftrightarrow> 0 < S \<and> 0 < mem_pool a \<and> xa_lock a = 0 \<and>
     unat (cur_alloc_sz a) = cur_alloc_num a * unat S \<and> cur_alloc_sz a \<le> total_sz a \<and>
     unat (mem_pool a) + unat (total_sz a) + unat S < 2 ^ 64"

lemma xalloc_inv_init:
  "0 < S \<Longrightarrow> 0 < m \<Longrightarrow> unat m + unat t + unat S < 2 ^ 64 \<Longrightarrow> xalloc_inv S (XAlloc m t)"
  by (simp add: xalloc_inv_def XAlloc_def)

lemma xalloc_block_addr:
  assumes "xalloc_inv S a" and "i \<le> cur_alloc_num a"
  shows "unat (mem_pool a + of_nat i * S) = unat (mem_pool a) + i * unat S"
proof -
  have "i * unat S \<le> cur_alloc_num a * unat S" using assms(2) by simp
  also have "\<dots> = unat (cur_alloc_sz a)" using assms(1) by (simp add: xalloc_inv_def)
  also have "\<dots> \<le> unat (total_sz a)" using assms(1) by (simp add: xalloc_inv_def word_le_nat_alt)
  finally have le: "i * unat S \<le> unat (total_sz a)" .
  have big: "unat (mem_pool a) + unat (total_sz a) + unat S < 2 ^ 64" and S: "0 < unat S"
    using assms(1) by (auto simp: xalloc_inv_def word_less_nat_alt)
  have "i \<le> i * unat S" using S by simp
  with le big have i: "i < 2 ^ 64" by linarith
  have "unat (of_nat i * S) = i * unat S"
    using i le big by (simp add: unat_word_ariths unat_of_nat take_bit_nat_eq_self)
  with le big show ?thesis by (simp add: unat_word_ariths)
qed

lemma xalloc_step:
  assumes "xalloc_inv S a" and "xalloc_alloc S a = (a', Some r)"
  shows "xalloc_inv S a'" and "unat r = unat (mem_pool a) + cur_alloc_num a * unat S"
    and "r = mem_pool a + of_nat (cur_alloc_num a) * S"
    and "cur_alloc_num a' = Suc (cur_alloc_num a)" and "mem_pool a' = mem_pool a"
    and "total_sz a' = total_sz a" and "Suc (cur_alloc_num a) * unat S \<le> unat (total_sz a)"
proof -
  have c: "cur_alloc_sz a + S \<le> total_sz a" "r = mem_pool a + cur_alloc_sz a"
    "a' = a\<lparr>xa_lock := 0, cur_alloc_sz := cur_alloc_sz a + S, cur_alloc_num := cur_alloc_num a + 1\<rparr>"
    using assms(2) by (auto simp: xalloc_alloc_def Let_def split: if_splits)
  have inv: "unat (cur_alloc_sz a) = cur_alloc_num a * unat S"
    "unat (cur_alloc_sz a) \<le> unat (total_sz a)"
    "unat (mem_pool a) + unat (total_sz a) + unat S < 2 ^ 64"
    using assms(1) by (auto simp: xalloc_inv_def word_le_nat_alt)
  have sum: "unat (cur_alloc_sz a + S) = Suc (cur_alloc_num a) * unat S"
    using inv by (simp add: unat_word_ariths)
  show "xalloc_inv S a'" using assms(1) c sum by (simp add: xalloc_inv_def)
  have "cur_alloc_sz a = of_nat (cur_alloc_num a) * S"
  proof -
    have "cur_alloc_sz a = of_nat (unat (cur_alloc_sz a))" by simp
    also have "\<dots> = of_nat (cur_alloc_num a) * S" unfolding inv(1) by simp
    finally show ?thesis .
  qed
  then show r: "r = mem_pool a + of_nat (cur_alloc_num a) * S" using c(2) by simp
  show "unat r = unat (mem_pool a) + cur_alloc_num a * unat S"
    unfolding r by (rule xalloc_block_addr [OF assms(1)]) simp
  show "cur_alloc_num a' = Suc (cur_alloc_num a)" "mem_pool a' = mem_pool a" "total_sz a' = total_sz a"
    using c(3) by simp_all
  show "Suc (cur_alloc_num a) * unat S \<le> unat (total_sz a)"
    using c(1) sum by (simp add: word_le_nat_alt)
qed

lemma xalloc_exhausted:
  assumes "xalloc_alloc S a = (a', None)" and "xalloc_inv S a"
  shows "a' = a" and "unat (total_sz a) < Suc (cur_alloc_num a) * unat S"
proof -
  have c: "\<not> cur_alloc_sz a + S \<le> total_sz a" and a': "a' = a\<lparr>xa_lock := 0\<rparr>"
    using assms(1) by (auto simp: xalloc_alloc_def Let_def split: if_splits)
  show "a' = a" using a' assms(2) by (simp add: xalloc_inv_def)
  have "unat (cur_alloc_sz a + S) = Suc (cur_alloc_num a) * unat S"
    using assms(2) by (simp add: xalloc_inv_def word_le_nat_alt unat_word_ariths)
  then show "unat (total_sz a) < Suc (cur_alloc_num a) * unat S"
    using c by (simp add: word_le_nat_alt)
qed

lemma xalloc_live_step:
  assumes "xalloc_inv S a" and "xalloc_alloc S a = (a', Some r)"
  shows "xalloc_live S a' = insert r (xalloc_live S a)" and "r \<notin> xalloc_live S a" and "r \<noteq> 0"
proof -
  note st = xalloc_step [OF assms]
  have S: "0 < unat S" and p: "0 < unat (mem_pool a)"
    using assms(1) by (auto simp: xalloc_inv_def word_less_nat_alt)
  show "xalloc_live S a' = insert r (xalloc_live S a)"
    by (simp add: xalloc_live_def st(3-5) lessThan_Suc)
  show "r \<notin> xalloc_live S a"
  proof
    assume "r \<in> xalloc_live S a"
    then obtain i where i: "i < cur_alloc_num a" "r = mem_pool a + of_nat i * S"
      by (auto simp: xalloc_live_def)
    then have "unat r = unat (mem_pool a) + i * unat S"
      using xalloc_block_addr [OF assms(1), of i] by simp
    with st(2) i(1) S show False by simp
  qed
  show "r \<noteq> 0" using st(2) p by (metis add_is_0 not_gr_zero unat_0)
qed

interpretation xa: alloc_trait "xalloc_alloc S" "xalloc_live S" "xalloc_inv S" for S :: u64
proof unfold_locales
  fix s s' r assume s: "xalloc_inv S s" "xalloc_alloc S s = (s', r)"
  show "xalloc_inv S s'"
  proof (cases r)
    case None
    with s xalloc_exhausted(1) [of S s s'] show ?thesis by simp
  next
    case (Some x)
    with s xalloc_step(1) [of S s s' x] show ?thesis by simp
  qed
  assume "r = None \<or> r = Some 0"
  then show "xalloc_live S s' = xalloc_live S s"
  proof
    assume "r = None"
    with s xalloc_exhausted(1) [of S s s'] show ?thesis by simp
  next
    assume "r = Some 0"
    with s xalloc_live_step(3) [of S s s' 0] show ?thesis by simp
  qed
qed (auto dest: xalloc_live_step)

section \<open>The malloc-backed allocator\<close>

text \<open>
  \<^verbatim>\<open>malloc\<close> is the C library's: the model is given the sequence of addresses it will return, and
  a null pointer once that sequence has ended. What the code relies on is that malloc never returns
  a block that is still allocated.
\<close>

record trival_alloc =
  malloc_results :: "addr list"
  malloced :: "addr set"

definition trival_alloc_alloc :: "trival_alloc \<Rightarrow> trival_alloc \<times> addr option" where
  "trival_alloc_alloc s =
     (case malloc_results s of
        [] \<Rightarrow> (s, Some 0)
      | a # as \<Rightarrow> (s\<lparr>malloc_results := as, malloced := insert a (malloced s)\<rparr>, Some a))"

definition trival_alloc_inv :: "trival_alloc \<Rightarrow> bool" where
  "trival_alloc_inv s \<longleftrightarrow> distinct (malloc_results s) \<and> 0 \<notin> set (malloc_results s) \<and>
     set (malloc_results s) \<inter> malloced s = {}"

interpretation ta: alloc_trait trival_alloc_alloc malloced trival_alloc_inv
  by unfold_locales
    (auto simp: trival_alloc_alloc_def trival_alloc_inv_def split: list.splits)


section \<open>Properties\<close>

lemma xalloc_n_blocks:
  "xalloc_inv S a \<Longrightarrow> snd (xa.alloc_n S n a) =
    map (\<lambda>i. mem_pool a + of_nat i * S)
      [cur_alloc_num a..<min (cur_alloc_num a + n) (max (cur_alloc_num a) (unat (total_sz a) div unat S))]"
proof (induction n arbitrary: a)
  case (Suc n)
  obtain a' r where r: "xalloc_alloc S a = (a', r)" by fastforce
  have S: "0 < unat S" using Suc.prems by (auto simp: xalloc_inv_def word_less_nat_alt)
  show ?case
  proof (cases r)
    case None
    have "unat (total_sz a) < Suc (cur_alloc_num a) * unat S"
      using xalloc_exhausted(2) [OF _ Suc.prems, of a'] r None by simp
    then have "unat (total_sz a) div unat S < Suc (cur_alloc_num a)" by (rule less_mult_imp_div_less)
    then have "unat (total_sz a) div unat S \<le> cur_alloc_num a" by simp
    then show ?thesis using r None by simp
  next
    case (Some x)
    note st = xalloc_step [OF Suc.prems r [unfolded Some]]
    have q: "Suc (cur_alloc_num a) \<le> unat (total_sz a) div unat S"
      using st(7) S by (simp add: less_eq_div_iff_mult_less_eq)
    have "x \<noteq> 0" using xalloc_live_step(3) [OF Suc.prems r [unfolded Some]] .
    then have "snd (xa.alloc_n S (Suc n) a) = x # snd (xa.alloc_n S n a')"
      using r Some by (simp split: prod.split)
    also have "snd (xa.alloc_n S n a') = map (\<lambda>i. mem_pool a + of_nat i * S)
        [Suc (cur_alloc_num a)..<min (Suc (cur_alloc_num a) + n)
          (max (Suc (cur_alloc_num a)) (unat (total_sz a) div unat S))]"
      unfolding Suc.IH [OF st(1)] st(4-6) ..
    also have "max (Suc (cur_alloc_num a)) (unat (total_sz a) div unat S) =
        max (cur_alloc_num a) (unat (total_sz a) div unat S)" using q by simp
    finally show ?thesis
      using q unfolding st(3) by (simp add: upt_conv_Cons del: upt_Suc)
  qed
qed simp

text \<open>C31: \<^verbatim>\<open>XAlloc\<close> hands out exactly the whole blocks that fit in its pool, each once and in
  address order, and after them nothing.\<close>

theorem xalloc_blocks:
  assumes "0 < S" and "0 < m" and "unat m + unat t + unat S < 2 ^ 64"
  shows "snd (alloc_trait.alloc_n (xalloc_alloc S) n (XAlloc m t)) =
      map (\<lambda>i. m + of_nat i * S) [0..<min n (unat t div unat S)] \<and>
    distinct (snd (alloc_trait.alloc_n (xalloc_alloc S) n (XAlloc m t)))"
proof -
  have inv: "xalloc_inv S (XAlloc m t)" using assms by (rule xalloc_inv_init)
  obtain s' as where r: "xa.alloc_n S n (XAlloc m t) = (s', as)" by fastforce
  then have "distinct as" using xa.alloc_n_fresh [OF inv] by blast
  then show ?thesis using xalloc_n_blocks [OF inv, of n] r by (simp add: XAlloc_def)
qed

theorem xalloc_blocks_witness:
  "snd (alloc_trait.alloc_n (xalloc_alloc 64) 5 (XAlloc 4096 200)) = [4096, 4160, 4224]"
proof -
  have "snd (alloc_trait.alloc_n (xalloc_alloc 64) 5 (XAlloc 4096 200)) =
      map (\<lambda>i. 4096 + of_nat i * 64) [0..<min 5 (unat (200 :: u64) div unat (64 :: u64))]"
    by (rule xalloc_blocks [THEN conjunct1]) simp_all
  then show ?thesis by (simp add: upt_rec)
qed

end
