(* ===== verification/XTreeInv.thy ===== *)
theory XTreeInv
  imports XTree
begin

text \<open>
  The invariant of the B+tree and the effect of an insertion on it. A subtree of depth \<open>d\<close> with
  bounds \<open>lo\<close>, \<open>hi\<close> holds keys of \<open>lo \<le> k < hi\<close>; the children of an inner node lie between its
  separators. The main lemma follows one insertion down to a leaf and back up.
\<close>

section \<open>Children between separators\<close>

text \<open>\<open>lsegs P lo us cs\<close>: child \<open>i\<close> of \<open>cs\<close> satisfies \<open>P\<close> between the previous bound and \<open>us ! i\<close>.\<close>

fun lsegs :: "('k \<Rightarrow> 'k \<Rightarrow> 'c \<Rightarrow> bool) \<Rightarrow> 'k \<Rightarrow> 'k list \<Rightarrow> 'c list \<Rightarrow> bool" where
  "lsegs P lo [] [] = True"
| "lsegs P lo (u # us) (c # cs) = (P lo u c \<and> lsegs P u us cs)"
| "lsegs P lo us cs = False"

lemma lsegs_length: "lsegs P lo us cs \<Longrightarrow> length us = length cs"
  by (induction P lo us cs rule: lsegs.induct) auto

lemma lsegs_append:
  "length us1 = length cs1 \<Longrightarrow>
    lsegs P lo (us1 @ us2) (cs1 @ cs2) \<longleftrightarrow> lsegs P lo us1 cs1 \<and> lsegs P (last (lo # us1)) us2 cs2"
  by (induction us1 cs1 arbitrary: lo rule: list_induct2) auto

lemma lsegs_mono:
  "lsegs P lo us cs \<Longrightarrow> (\<And>l u c. c \<in> set cs \<Longrightarrow> P l u c \<Longrightarrow> Q l u c) \<Longrightarrow> lsegs Q lo us cs"
  by (induction P lo us cs rule: lsegs.induct) auto

lemma lsegs_sorted:
  assumes "\<And>l u c. P l u c \<Longrightarrow> l < (u :: 'k::linorder)"
  shows "lsegs P lo us cs \<Longrightarrow> sorted_wrt (<) (lo # us)"
proof (induction us arbitrary: lo cs)
  case (Cons u us)
  then obtain c cs' where c: "cs = c # cs'" "P lo u c" "lsegs P u us cs'" by (cases cs) auto
  with Cons.IH have "sorted_wrt (<) (u # us)" by blast
  with assms [OF c(2)] show ?case by (auto intro: less_trans)
qed simp

lemma lsegs_mem:
  assumes "lsegs P lo us cs" and "c \<in> set cs"
  shows "\<exists>l u. P l u c"
  using assms
proof (induction us arbitrary: lo cs)
  case (Cons u us)
  then show ?case by (cases cs) auto
next
  case Nil
  then show ?case by (cases cs) auto
qed

section \<open>The invariant\<close>

fun tree_ok :: "nat \<Rightarrow> ('k::{linorder,order_top}, 'v) leafs \<Rightarrow> nat \<Rightarrow> 'k \<Rightarrow> 'k \<Rightarrow> 'k child \<Rightarrow> bool" where
  "tree_ok N m 0 lo hi c =
     (case c of
        LeafPtr a \<Rightarrow> (\<exists>n. m a = Some n \<and> node_ok N n \<and> node_map n \<noteq> Map.empty \<and>
          dom (node_map n) \<subseteq> {lo..<hi})
      | _ \<Rightarrow> False)"
| "tree_ok N m (Suc d) lo hi c =
     (case c of
        InnerPtr n \<Rightarrow> inner_ok N n \<and> lsegs (tree_ok N m d) lo (ik n @ [hi]) (ic n)
      | _ \<Rightarrow> False)"

fun leaves_of :: "nat \<Rightarrow> 'k child \<Rightarrow> addr list" where
  "leaves_of 0 c = (case c of LeafPtr a \<Rightarrow> [a] | _ \<Rightarrow> [])"
| "leaves_of (Suc d) c = (case c of InnerPtr n \<Rightarrow> concat (map (leaves_of d) (ic n)) | _ \<Rightarrow> [])"

definition leaf_map :: "('k::order_top, 'v) leafs \<Rightarrow> addr \<Rightarrow> 'k \<rightharpoonup> 'v" where
  "leaf_map m a = (case m a of None \<Rightarrow> Map.empty | Some n \<Rightarrow> node_map n)"

fun leaves_map :: "('k::order_top, 'v) leafs \<Rightarrow> addr list \<Rightarrow> 'k \<rightharpoonup> 'v" where
  "leaves_map m [] = Map.empty"
| "leaves_map m (a # as) = leaf_map m a ++ leaves_map m as"

lemma leaves_map_append: "leaves_map m (as @ bs) = leaves_map m as ++ leaves_map m bs"
  by (induction as) (auto simp: map_add_assoc)

lemma leaves_map_cong:
  "(\<And>a. a \<in> set as \<Longrightarrow> m a = m' a) \<Longrightarrow> leaves_map m as = leaves_map m' as"
  by (induction as) (auto simp: leaf_map_def)

lemma dom_leaves_map: "dom (leaves_map m as) = (\<Union>a\<in>set as. dom (leaf_map m a))"
  by (induction as) auto

lemma leaves_of_InnerPtr [simp]: "leaves_of (Suc d) (InnerPtr n) = concat (map (leaves_of d) (ic n))"
  by simp

lemma tree_ok_less: "tree_ok N m d lo hi c \<Longrightarrow> lo < hi"
proof (induction d arbitrary: lo hi c)
  case 0
  then obtain a n where n: "m a = Some n" "node_map n \<noteq> Map.empty" "dom (node_map n) \<subseteq> {lo..<hi}"
    by (cases c) auto
  then obtain k where "k \<in> dom (node_map n)" by (metis dom_eq_empty_conv ex_in_conv)
  with n(3) have "k \<in> {lo..<hi}" ..
  then show ?case by (auto intro: le_less_trans)
next
  case (Suc d)
  then obtain n where "lsegs (tree_ok N m d) lo (ik n @ [hi]) (ic n)"
    by (auto split: child.splits)
  then have "sorted_wrt (<) (lo # ik n @ [hi])" by (rule lsegs_sorted [rotated]) (rule Suc.IH)
  then show ?case by simp
qed

lemma tree_ok_sorted:
  assumes "lsegs (tree_ok N m d) lo us cs"
  shows "sorted_wrt (<) (lo # us)"
  using lsegs_sorted [OF _ assms] tree_ok_less by blast

lemma lsegs_dom:
  assumes "\<And>l u c. P l u c \<Longrightarrow> l < (u :: 'k::{linorder,order_top}) \<and> dom (leaves_map m (f c)) \<subseteq> {l..<u}"
  shows "lsegs P lo us cs \<Longrightarrow>
    dom (leaves_map m (concat (map f cs))) \<subseteq> {lo..<last (lo # us)} \<and> lo \<le> last (lo # us)"
proof (induction us arbitrary: lo cs)
  case Nil
  then show ?case by (cases cs) auto
next
  case (Cons u us)
  then obtain c cs' where c: "cs = c # cs'" "P lo u c" "lsegs P u us cs'" by (cases cs) auto
  have "lo < u" "dom (leaves_map m (f c)) \<subseteq> {lo..<u}" using assms [OF c(2)] by auto
  with Cons.IH [OF c(3)] show ?case unfolding c(1) by (fastforce simp: leaves_map_append)
qed

lemma tree_ok_dom: "tree_ok N m d lo hi c \<Longrightarrow> dom (leaves_map m (leaves_of d c)) \<subseteq> {lo..<hi}"
proof (induction d arbitrary: lo hi c)
  case 0
  then show ?case by (auto simp: leaf_map_def split: child.splits)
next
  case (Suc d)
  then obtain n where n: "c = InnerPtr n" "lsegs (tree_ok N m d) lo (ik n @ [hi]) (ic n)"
    by (auto split: child.splits)
  have "dom (leaves_map m (concat (map (leaves_of d) (ic n)))) \<subseteq> {lo..<last (lo # ik n @ [hi])}"
    using lsegs_dom [of "tree_ok N m d" m "leaves_of d", OF _ n(2)] tree_ok_less Suc.IH by blast
  then show ?case by (simp add: n(1))
qed

text \<open>A subtree depends on its own leaves only.\<close>

lemma tree_ok_frame:
  assumes "\<And>a. a \<in> set (leaves_of d c) \<Longrightarrow> m' a = m a"
  shows "tree_ok N m d lo hi c \<Longrightarrow> tree_ok N m' d lo hi c"
  using assms
proof (induction d arbitrary: lo hi c)
  case 0
  then show ?case by (auto split: child.splits)
next
  case (Suc d)
  from Suc.prems(1) obtain n where n: "c = InnerPtr n" "inner_ok N n"
    "lsegs (tree_ok N m d) lo (ik n @ [hi]) (ic n)"
    by (auto split: child.splits)
  have "lsegs (tree_ok N m' d) lo (ik n @ [hi]) (ic n)"
    by (rule lsegs_mono [OF n(3)], rule Suc.IH) (use Suc.prems(2) n(1) in auto)
  with n show ?case by simp
qed

text \<open>Every leaf of the tree is a well-formed node with a key.\<close>

lemma tree_ok_leaf:
  "tree_ok N m d lo hi c \<Longrightarrow> a \<in> set (leaves_of d c) \<Longrightarrow>
    \<exists>n. m a = Some n \<and> node_ok N n \<and> node_map n \<noteq> Map.empty"
proof (induction d arbitrary: lo hi c)
  case 0
  then show ?case by (auto split: child.splits)
next
  case (Suc d)
  from Suc.prems(1) obtain n where n: "c = InnerPtr n"
    "lsegs (tree_ok N m d) lo (ik n @ [hi]) (ic n)"
    by (auto split: child.splits)
  obtain c' where c': "c' \<in> set (ic n)" "a \<in> set (leaves_of d c')" using Suc.prems(2) n(1) by auto
  have "\<exists>l u. tree_ok N m d l u c'" by (rule lsegs_mem [OF n(2) c'(1)])
  with Suc.IH c'(2) show ?case by blast
qed


section \<open>Insertion into a leaf\<close>

definition leaf_effect :: "nat \<Rightarrow> ('k::{linorder,order_top}, 'v) leafs \<Rightarrow> addr \<Rightarrow> addr \<Rightarrow> 'k \<Rightarrow> 'v
    \<Rightarrow> ('k, 'v) leafs \<Rightarrow> bool \<Rightarrow> bool" where
  "leaf_effect N m a cand key v m' split \<longleftrightarrow>
     (\<exists>n n'. m a = Some n \<and> m' a = Some n' \<and> (\<forall>b. b \<noteq> a \<longrightarrow> b \<noteq> cand \<longrightarrow> m' b = m b) \<and>
       (if split then \<exists>c' pk. m' cand = Some c' \<and> split_into N n key v cand n' c' pk
        else m' cand = m cand \<and> inserted N n key v n'))"

text \<open>The candidate: a leaf in the store with no key, not part of the tree.\<close>

definition cand_ok :: "nat \<Rightarrow> ('k::order_top, 'v) leafs \<Rightarrow> addr \<Rightarrow> bool" where
  "cand_ok N m cand \<longleftrightarrow> (\<exists>cn. m cand = Some cn \<and> node_ok N cn \<and> node_map cn = Map.empty)"

lemma leaf_insert_ok:
  assumes n: "m a = Some n" "node_ok N n" and N: "2 \<le> N" and c: "cand_ok N m cand" "cand \<noteq> a"
    and key: "key \<noteq> top" "key \<notin> dom (node_map n)"
  shows "\<exists>m' split. leaf_insert m a key v cand = Inr (m', split) \<and> leaf_effect N m a cand key v m' split"
proof -
  obtain cn where cn: "m cand = Some cn" "node_ok N cn" "node_map cn = Map.empty"
    using c(1) by (auto simp: cand_ok_def)
  show ?thesis
  proof (cases "card (dom (node_map n)) < N")
    case True
    obtain n' where n': "raw_insert_nosplit n key v = Inr n'" "inserted N n key v n'"
      using raw_insert_nosplit_ok [OF n(2) key True] by blast
    have "leaf_insert m a key v cand = Inr (m(a \<mapsto> n'), False)"
      using n(1) cn(1) n'(1) raw_insert_room [OF n(2) True] by (simp add: leaf_insert_def fun_upd_idem)
    moreover have "leaf_effect N m a cand key v (m(a \<mapsto> n')) False"
      using n(1) c(2) n'(2) by (simp add: leaf_effect_def)
    ultimately show ?thesis by blast
  next
    case False
    then have full: "card (dom (node_map n)) = N" using card_dom_node_map_le [OF n(2)] by simp
    obtain n' c' pk where r: "raw_insert n key v (Some (cand, cn)) = Inr (n', Some (cand, c'), True)"
      "split_into N n key v cand n' c' pk"
      using raw_insert_split [OF n(2) full N cn(2,3) key] by blast
    have "leaf_insert m a key v cand = Inr (m(cand \<mapsto> c', a \<mapsto> n'), True)"
      using n(1) cn(1) r(1) by (simp add: leaf_insert_def)
    moreover have "leaf_effect N m a cand key v (m(cand \<mapsto> c', a \<mapsto> n')) True"
      using n(1) c(2) r(2) by (auto simp: leaf_effect_def)
    ultimately show ?thesis by blast
  qed
qed

lemma leaf_effect_other: "leaf_effect N m a cand key v m' sp \<Longrightarrow> b \<noteq> a \<Longrightarrow> b \<noteq> cand \<Longrightarrow> m' b = m b"
  by (auto simp: leaf_effect_def)

lemma restrict_below_above:
  fixes f :: "'k::linorder \<rightharpoonup> 'v"
  shows "f |` {k. k < p} ++ f |` {k. p \<le> k} = f"
  by (auto simp: fun_eq_iff map_add_def restrict_map_def split: option.splits)

lemma leaf_effect_map:
  assumes "leaf_effect N m a cand key v m' sp"
  shows "leaves_map m' (if sp then [a, cand] else [a]) = (leaf_map m a)(key \<mapsto> v)"
proof -
  obtain n n' where n: "m a = Some n" "m' a = Some n'"
    "if sp then \<exists>c' pk. m' cand = Some c' \<and> split_into N n key v cand n' c' pk
     else m' cand = m cand \<and> inserted N n key v n'"
    using assms by (auto simp: leaf_effect_def)
  show ?thesis
  proof (cases sp)
    case True
    then obtain c' pk where c: "m' cand = Some c'" "split_into N n key v cand n' c' pk"
      using n(3) by auto
    have "leaves_map m' [a, cand] = node_map n' ++ node_map c'"
      using n(2) c(1) by (simp add: leaf_map_def)
    also have "\<dots> = (node_map n)(key \<mapsto> v)"
      unfolding split_intoD(5,6) [OF c(2)] by (rule restrict_below_above)
    finally show ?thesis using True n(1) by (simp add: leaf_map_def)
  next
    case False
    then show ?thesis using n insertedD(2) [of N n key v n'] by (simp add: leaf_map_def)
  qed
qed

text \<open>The map of the leaves after the change of one of them.\<close>

lemma leaves_map_change:
  assumes e: "leaf_effect N m a cand key v m' sp"
    and d: "distinct (as1 @ a # as2)" "cand \<notin> set (as1 @ a # as2)"
    and key: "key \<notin> dom (leaves_map m (as1 @ a # as2))"
  shows "leaves_map m' (as1 @ (if sp then [a, cand] else [a]) @ as2) =
    (leaves_map m (as1 @ a # as2))(key \<mapsto> v)"
proof -
  have 1: "leaves_map m' as1 = leaves_map m as1" and 2: "leaves_map m' as2 = leaves_map m as2"
    using d by (auto intro!: leaves_map_cong leaf_effect_other [OF e])
  have "key \<notin> dom (leaves_map m as2)" using key by (auto simp: leaves_map_append)
  then show ?thesis unfolding leaves_map_append 1 2 leaf_effect_map [OF e]
    by (simp add: leaves_map_append map_add_upd_left)
qed

section \<open>One step of the descent\<close>

text \<open>Insertion into a child of depth \<open>d\<close>; a new sibling comes with its separator.\<close>

definition child_insert :: "nat \<Rightarrow> nat \<Rightarrow> 'k::{linorder,order_top} child \<Rightarrow> ('k, 'v) leafs \<Rightarrow> 'k \<Rightarrow> 'v
    \<Rightarrow> addr \<Rightarrow> ('k child \<times> ('k, 'v) leafs \<times> bool \<times> ('k \<times> 'k child) option) res" where
  "child_insert N d c m key v cand =
     (if d = 0 then
        (case c of
           InnerPtr _ \<Rightarrow> Inl BadCast
         | NullPtr \<Rightarrow> Inl NullDeref
         | LeafPtr leaf \<Rightarrow>
             rbind (leaf_insert m leaf key v cand) (\<lambda>(m', split).
             if split then
               (case m' cand of
                  None \<Rightarrow> Inl NullDeref
                | Some cn \<Rightarrow> Inr (c, m', True, Some (get_key cn 0, LeafPtr cand)))
             else Inr (c, m', False, None)))
      else
        (case c of
           LeafPtr _ \<Rightarrow> Inl BadCast
         | NullPtr \<Rightarrow> Inl NullDeref
         | InnerPtr inn \<Rightarrow>
             rbind (inner_insert N inn m key v d cand) (\<lambda>(inn', m', split, new_in).
             Inr (InnerPtr inn', m', split, map_option (\<lambda>s. (up_key s, InnerPtr s)) new_in))))"

lemma set_child_same [simp]: "set_child n k (childrens n ! k) = n"
  by (cases n) (simp add: set_child_def)

lemma set_child_same': "childrens n ! k = c \<Longrightarrow> set_child n k c = n"
  by auto

lemma inner_insert_step:
  "inner_insert N this m key v (Suc d) cand =
     (let k = find_children_idx this key in
      rbind (child_insert N d (childrens this ! k) m key v cand) (\<lambda>(c', m', split, new).
      let this1 = set_child this k c' in
      (case new of
         None \<Rightarrow> Inr (this1, m', split, None)
       | Some (u, s) \<Rightarrow> rbind (insert_child N this1 k u s) (\<lambda>(this', sib). Inr (this', m', split, sib)))))"
proof -
  let ?c = "childrens this ! find_children_idx this key"
  show ?thesis
  proof (cases "d = 0")
    case True
    show ?thesis
    proof (cases ?c)
      case (LeafPtr leaf)
      then have "set_child this (find_children_idx this key) (LeafPtr leaf) = this"
        by (rule set_child_same')
      with True LeafPtr show ?thesis
        by (cases "leaf_insert m leaf key v cand")
          (auto simp: child_insert_def Let_def simp del: get_key_nth split: option.splits)
    qed (use True in \<open>auto simp: child_insert_def Let_def\<close>)
  next
    case False
    show ?thesis
    proof (cases ?c)
      case (InnerPtr inn)
      with False show ?thesis
        by (cases "inner_insert N inn m key v d cand")
          (auto simp: child_insert_def Let_def split: option.splits)
    qed (use False in \<open>auto simp: child_insert_def Let_def\<close>)
  qed
qed

end
