(* ===== verification/XTreeInsert.thy ===== *)
theory XTreeInsert
  imports XTreeInv
begin

text \<open>
  Insertion through the levels of the B+tree: the child a key descends into, the node or pair of
  nodes a level returns, and the main lemma that one insertion changes one leaf, splits at most
  along the path to it, and keeps the invariant of \<open>XTreeInv\<close>.
\<close>

section \<open>The child on the path\<close>

lemma descend:
  fixes n :: "'k::{linorder,order_top} inner"
  assumes ok: "inner_ok N n" and l: "lsegs (tree_ok N m d) lo (ik n @ [hi]) (ic n)"
    and key: "lo \<le> key" "key < hi" and k: "k = find_children_idx n key"
  obtains u us2 where "drop k (ik n) @ [hi] = u # us2" and "k \<le> inum_keys n"
    and "ic n = take k (ic n) @ childrens n ! k # drop (k + 1) (ic n)"
    and "lsegs (tree_ok N m d) lo (take k (ik n)) (take k (ic n))"
    and "tree_ok N m d (last (lo # take k (ik n))) u (childrens n ! k)"
    and "lsegs (tree_ok N m d) u us2 (drop (k + 1) (ic n))"
    and "last (lo # take k (ik n)) \<le> key" and "key < u"
proof -
  have s: "sorted_wrt (<) (lo # ik n @ [hi])" by (rule tree_ok_sorted [OF l])
  then have si: "sorted_wrt (<) (ik n)" by (simp add: sorted_wrt_append)
  note b = find_children_idx_bounds [OF ok si, of _ key, folded k]
  have kl: "k \<le> inum_keys n" unfolding k by (rule find_children_idx_le)
  have li: "length (ik n) = inum_keys n" and lc: "length (ic n) = inum_keys n + 1" using ok by simp_all
  have ick: "ic n ! k = childrens n ! k" using kl by (simp add: ic_def)
  have ic: "ic n = take k (ic n) @ childrens n ! k # drop (k + 1) (ic n)"
    using id_take_nth_drop [of k "ic n"] kl lc ick by simp
  obtain u us2 where u: "drop k (ik n) @ [hi] = u # us2" by (cases "drop k (ik n) @ [hi]") auto
  have split: "lsegs (tree_ok N m d) lo (take k (ik n)) (take k (ic n)) \<and>
      lsegs (tree_ok N m d) (last (lo # take k (ik n))) (u # us2) (childrens n ! k # drop (k + 1) (ic n))"
  proof -
    have "ik n @ [hi] = take k (ik n) @ u # us2" unfolding u [symmetric] by simp
    then have "lsegs (tree_ok N m d) lo (take k (ik n) @ u # us2)
        (take k (ic n) @ childrens n ! k # drop (k + 1) (ic n))"
      using l ic by simp
    then show ?thesis using lsegs_append [of "take k (ik n)" "take k (ic n)"] kl li lc by simp
  qed
  have lk: "last (lo # take k (ik n)) \<le> key"
  proof (cases "take k (ik n) = []")
    case False
    then have "last (take k (ik n)) \<in> set (take k (ik n))" by (rule last_in_set)
    with False b(1) show ?thesis by simp
  qed (simp add: key)
  have ku: "key < u"
  proof (cases "drop k (ik n)")
    case Nil
    then show ?thesis using u key by simp
  next
    case (Cons x xs)
    then show ?thesis using u b(2) [of x] by simp
  qed
  show ?thesis using that [OF u kl ic] split lk ku by simp
qed

section \<open>The result of one level\<close>

definition inserted_sub :: "nat \<Rightarrow> ('k::{linorder,order_top}, 'v) leafs \<Rightarrow> nat \<Rightarrow> 'k \<Rightarrow> 'k \<Rightarrow> 'k child
    \<Rightarrow> 'k \<Rightarrow> 'v \<Rightarrow> addr \<Rightarrow> 'k child \<Rightarrow> ('k, 'v) leafs \<Rightarrow> bool \<Rightarrow> ('k \<times> 'k child) option \<Rightarrow> bool" where
  "inserted_sub N m d lo hi c key v cand c' m' sp new \<longleftrightarrow>
     (\<exists>as1 a as2. leaves_of d c = as1 @ a # as2 \<and> leaf_effect N m a cand key v m' sp \<and>
        leaves_of d c' @ (case new of None \<Rightarrow> [] | Some (u, s) \<Rightarrow> leaves_of d s) =
          as1 @ (if sp then [a, cand] else [a]) @ as2) \<and>
     (case new of
        None \<Rightarrow> tree_ok N m' d lo hi c'
      | Some (u, s) \<Rightarrow> tree_ok N m' d lo u c' \<and> tree_ok N m' d u hi s)"

lemma inserted_subI:
  assumes "leaves_of d c = as1 @ a # as2" and "leaf_effect N m a cand key v m' sp"
    and "leaves_of d c' @ (case new of None \<Rightarrow> [] | Some (u, s) \<Rightarrow> leaves_of d s) =
      as1 @ (if sp then [a, cand] else [a]) @ as2"
    and "case new of None \<Rightarrow> tree_ok N m' d lo hi c'
      | Some (u, s) \<Rightarrow> tree_ok N m' d lo u c' \<and> tree_ok N m' d u hi s"
  shows "inserted_sub N m d lo hi c key v cand c' m' sp new"
  using assms unfolding inserted_sub_def by blast

definition ins_pre :: "nat \<Rightarrow> ('k::{linorder,order_top}, 'v) leafs \<Rightarrow> nat \<Rightarrow> 'k \<Rightarrow> 'k \<Rightarrow> 'k child
    \<Rightarrow> 'k \<Rightarrow> addr \<Rightarrow> bool" where
  "ins_pre N m d lo hi c key cand \<longleftrightarrow> 2 \<le> N \<and> tree_ok N m d lo hi c \<and> lo \<le> key \<and> key < hi \<and>
     key \<notin> dom (leaves_map m (leaves_of d c)) \<and> distinct (leaves_of d c) \<and>
     cand \<notin> set (leaves_of d c) \<and> cand_ok N m cand"

lemma less_not_top: "(k :: 'k::{linorder,order_top}) < hi \<Longrightarrow> k \<noteq> top"
  by (metis top.not_eq_extremum order.strict_trans2 top_greatest order_less_irrefl)

text \<open>At a leaf.\<close>

lemma child_insert_leaf:
  fixes m :: "('k::{linorder,order_top}, 'v) leafs"
  assumes pre: "ins_pre N m 0 lo hi c key cand"
  shows "\<exists>c' m' sp new. child_insert N 0 c m key v cand = Inr (c', m', sp, new) \<and>
    inserted_sub N m 0 lo hi c key v cand c' m' sp new"
proof -
  obtain a n where c: "c = LeafPtr a" and n: "m a = Some n" "node_ok N n"
      "node_map n \<noteq> Map.empty" "dom (node_map n) \<subseteq> {lo..<hi}"
    using pre by (cases c) (auto simp: ins_pre_def)
  have N: "2 \<le> N" and kb: "lo \<le> key" "key < hi" and key: "key \<noteq> top" "key \<notin> dom (node_map n)"
    and cand: "cand_ok N m cand" "cand \<noteq> a"
    using pre c n(1) less_not_top [of key hi] by (auto simp: ins_pre_def leaf_map_def)
  obtain m' sp where li: "leaf_insert m a key v cand = Inr (m', sp)"
    and e: "leaf_effect N m a cand key v m' sp"
    using leaf_insert_ok [OF n(1,2) N cand key] by blast
  have ne: "node_map x \<noteq> Map.empty" if "k \<in> dom (node_map x)" for k and x :: "('k, 'v) xnode"
    using that by auto
  obtain n' where n': "m' a = Some n'" "if sp then \<exists>c' pk. m' cand = Some c' \<and> split_into N n key v cand n' c' pk
      else m' cand = m cand \<and> inserted N n key v n'"
    using e n(1) by (auto simp: leaf_effect_def)
  show ?thesis
  proof (cases sp)
    case False
    then have i: "inserted N n key v n'" using n'(2) by simp
    note i' = insertedD(1,2) [OF i]
    have d: "dom (node_map n') \<subseteq> {lo..<hi}" unfolding i'(2) using n(4) kb by simp
    have "tree_ok N m' 0 lo hi c" using n'(1) i'(1) d ne [of key n'] by (simp add: c i'(2))
    then have "inserted_sub N m 0 lo hi c key v cand c m' False None"
      using e False by (auto simp: inserted_sub_def c intro: exI [of _ "[]"])
    then show ?thesis using li False by (auto simp: child_insert_def c)
  next
    case True
    then obtain c' pk where c': "m' cand = Some c'" "split_into N n key v cand n' c' pk"
      using n'(2) by auto
    note s = split_intoD [OF c'(2)]
    have pk: "lo \<le> pk" "pk < hi" using s(3) n(4) by auto
    have dn: "dom (node_map n') = insert key (dom (node_map n)) \<inter> {k. k < pk}"
      and dc: "dom (node_map c') = insert key (dom (node_map n)) \<inter> {k. pk \<le> k}"
      unfolding s(5,6) by auto
    have "0 < card (dom (node_map n) \<inter> {k. k < pk})" using s(10) N by simp
    then obtain x where x: "x \<in> dom (node_map n)" "x < pk" by (auto simp: card_gt_0_iff)
    have "tree_ok N m' 0 lo pk c"
      using n'(1) s(1) n(4) kb dn ne [of x n'] x by (auto simp: c)
    moreover have "tree_ok N m' 0 pk hi (LeafPtr cand)"
      using c'(1) s(2,3) n(4) kb dc ne [of pk c'] by (auto simp: c)
    ultimately have "inserted_sub N m 0 lo hi c key v cand c m' True (Some (pk, LeafPtr cand))"
      using e True by (auto simp: inserted_sub_def c intro: exI [of _ "[]"])
    then show ?thesis using li True c'(1) s(4) by (auto simp: child_insert_def c)
  qed
qed


section \<open>Putting the child back\<close>

lemma set_child_simps:
  assumes "inner_ok N n" and "k \<le> inum_keys n"
  shows "inner_ok N (set_child n k c)" "ik (set_child n k c) = ik n"
    "inum_keys (set_child n k c) = inum_keys n" "ic (set_child n k c) = (ic n)[k := c]"
  using assms by (auto simp: set_child_def inner_ok_def ik_def ic_def take_update_swap)

lemma put_back:
  fixes n :: "'k::{linorder,order_top} inner"
  assumes ok: "inner_ok N n" and k: "k \<le> inum_keys n"
    and l1: "lsegs (tree_ok N m d) lo (take k (ik n)) (take k (ic n))"
    and mid: "tree_ok N m d (last (lo # take k (ik n))) u c"
    and l2: "lsegs (tree_ok N m d) u us2 (drop (k + 1) (ic n))" and u: "drop k (ik n) @ [hi] = u # us2"
  shows "tree_ok N m (Suc d) lo hi (InnerPtr (set_child n k c))"
    and "ic (set_child n k c) = take k (ic n) @ c # drop (k + 1) (ic n)"
proof -
  have lc: "k < length (ic n)" and lk: "length (take k (ik n)) = length (take k (ic n))" using ok k by simp_all
  show ic: "ic (set_child n k c) = take k (ic n) @ c # drop (k + 1) (ic n)"
    using set_child_simps(4) [OF ok k] lc by (simp add: upd_conv_take_nth_drop)
  have "ik n @ [hi] = take k (ik n) @ u # us2" unfolding u [symmetric] by simp
  then show "tree_ok N m (Suc d) lo hi (InnerPtr (set_child n k c))"
    using set_child_simps(1,2) [OF ok k] lsegs_append [OF lk] l1 mid l2 by (simp add: ic)
qed

lemma put_back_two:
  fixes n :: "'k::{linorder,order_top} inner"
  assumes ok: "inner_ok N n" and k: "k \<le> inum_keys n" and N: "0 < N"
    and l1: "lsegs (tree_ok N m d) lo (take k (ik n)) (take k (ic n))"
    and mid: "tree_ok N m d (last (lo # take k (ik n))) x c" "tree_ok N m d x u s"
    and l2: "lsegs (tree_ok N m d) u us2 (drop (k + 1) (ic n))" and u: "drop k (ik n) @ [hi] = u # us2"
  obtains n' sib where "insert_child N (set_child n k c) k x s = Inr (n', sib)"
    and "case sib of None \<Rightarrow> tree_ok N m (Suc d) lo hi (InnerPtr n')
      | Some b \<Rightarrow> tree_ok N m (Suc d) lo (up_key b) (InnerPtr n') \<and>
          tree_ok N m (Suc d) (up_key b) hi (InnerPtr b)"
    and "ic n' @ (case sib of None \<Rightarrow> [] | Some b \<Rightarrow> ic b) = take k (ic n) @ c # s # drop (k + 1) (ic n)"
proof -
  let ?n1 = "set_child n k c"
  note sc = set_child_simps(1-3) [OF ok k, of c]
  have lc: "k < length (ic n)" and lk: "length (take k (ik n)) = length (take k (ic n))" using ok k by simp_all
  have ic1: "ic ?n1 = take k (ic n) @ c # drop (k + 1) (ic n)"
    using set_child_simps(4) [OF ok k] lc by (simp add: upd_conv_take_nth_drop)
  have ks: "take k (ik n) @ x # u # us2 = (take k (ik n) @ x # drop k (ik n)) @ [hi]"
    unfolding append_assoc append_Cons u ..
  have cs: "take (k + 1) (ic ?n1) @ s # drop (k + 1) (ic ?n1) = take k (ic n) @ c # s # drop (k + 1) (ic n)"
    unfolding ic1 using lc by (simp add: min_def)
  have all: "lsegs (tree_ok N m d) lo ((take k (ik n) @ x # drop k (ik n)) @ [hi])
      (take k (ic n) @ c # s # drop (k + 1) (ic n))"
    unfolding ks [symmetric] using lsegs_append [OF lk] l1 mid l2 by simp
  have sorted: "sorted_wrt (<) (take k (ik ?n1) @ x # drop k (ik ?n1))"
    using tree_ok_sorted [OF all] unfolding sc by (simp add: sorted_wrt_append)
  have "x < u" by (rule tree_ok_less [OF mid(2)])
  then have xt: "x \<noteq> top" by (rule less_not_top)
  obtain n' sib where r: "insert_child N ?n1 k x s = Inr (n', sib)" "inner_ok N n'"
    and c: "case sib of
       None \<Rightarrow> ik n' = take k (ik n) @ x # drop k (ik n) \<and>
         ic n' = take k (ic n) @ c # s # drop (k + 1) (ic n)
     | Some b \<Rightarrow> inner_ok N b \<and> ik n' @ up_key b # ik b = take k (ik n) @ x # drop k (ik n) \<and>
         ic n' @ ic b = take k (ic n) @ c # s # drop (k + 1) (ic n)"
    using insert_child_ok [OF sc(1) N _ xt sorted, of s] k unfolding cs sc by auto
  show ?thesis
  proof (rule that [OF r(1)])
    show "case sib of None \<Rightarrow> tree_ok N m (Suc d) lo hi (InnerPtr n')
      | Some b \<Rightarrow> tree_ok N m (Suc d) lo (up_key b) (InnerPtr n') \<and>
          tree_ok N m (Suc d) (up_key b) hi (InnerPtr b)"
    proof (cases sib)
      case None
      then show ?thesis using c r(2) all by simp
    next
      case (Some b)
      with c have b: "inner_ok N b" "ik n' @ up_key b # ik b = take k (ik n) @ x # drop k (ik n)"
        "ic n' @ ic b = take k (ic n) @ c # s # drop (k + 1) (ic n)" by simp_all
      have len: "length (ik n' @ [up_key b]) = length (ic n')" using r(2) by simp
      have "lsegs (tree_ok N m d) lo ((ik n' @ [up_key b]) @ ik b @ [hi]) (ic n' @ ic b)"
        using all unfolding b(2) [symmetric] b(3) by simp
      then show ?thesis using Some b(1) r(2) unfolding lsegs_append [OF len] by simp
    qed
    show "ic n' @ (case sib of None \<Rightarrow> [] | Some b \<Rightarrow> ic b) = take k (ic n) @ c # s # drop (k + 1) (ic n)"
      using c by (cases sib) auto
  qed
qed

section \<open>All levels\<close>

lemma child_insert_Suc:
  "child_insert N (Suc d) (InnerPtr n) m key v cand =
     rbind (inner_insert N n m key v (Suc d) cand) (\<lambda>(inn', m', split, new_in).
       Inr (InnerPtr inn', m', split, map_option (\<lambda>s. (up_key s, InnerPtr s)) new_in))"
  by (simp add: child_insert_def)

lemma concat_map_split:
  "concat (map f (xs @ y # ys)) = concat (map f xs) @ f y @ concat (map f ys)"
  by simp

theorem child_insert_ok:
  fixes m :: "('k::{linorder,order_top}, 'v) leafs"
  shows "ins_pre N m d lo hi c key cand \<Longrightarrow>
    \<exists>c' m' sp new. child_insert N d c m key v cand = Inr (c', m', sp, new) \<and>
      inserted_sub N m d lo hi c key v cand c' m' sp new"
proof (induction d arbitrary: lo hi c)
  case 0
  then show ?case by (rule child_insert_leaf)
next
  case (Suc d)
  let ?L = "leaves_of d"
  obtain n where c: "c = InnerPtr n" and n: "inner_ok N n" "lsegs (tree_ok N m d) lo (ik n @ [hi]) (ic n)"
    using Suc.prems by (cases c) (auto simp: ins_pre_def)
  have N: "2 \<le> N" and kb: "lo \<le> key" "key < hi" and cand: "cand_ok N m cand"
    using Suc.prems by (auto simp: ins_pre_def)
  define k where "k = find_children_idx n key"
  obtain u us2 where de: "drop k (ik n) @ [hi] = u # us2" "k \<le> inum_keys n"
    "ic n = take k (ic n) @ childrens n ! k # drop (k + 1) (ic n)"
    "lsegs (tree_ok N m d) lo (take k (ik n)) (take k (ic n))"
    "tree_ok N m d (last (lo # take k (ik n))) u (childrens n ! k)"
    "lsegs (tree_ok N m d) u us2 (drop (k + 1) (ic n))"
    "last (lo # take k (ik n)) \<le> key" "key < u"
    by (rule descend [OF n kb k_def])
  let ?c0 = "childrens n ! k" and ?A = "concat (map ?L (take k (ic n)))"
    and ?B = "concat (map ?L (drop (k + 1) (ic n)))"
  have L: "leaves_of (Suc d) c = ?A @ ?L ?c0 @ ?B"
    unfolding c leaves_of_InnerPtr by (subst de(3)) (rule concat_map_split)
  have p: "key \<notin> dom (leaves_map m (?A @ ?L ?c0 @ ?B))" "distinct (?A @ ?L ?c0 @ ?B)"
    "cand \<notin> set (?A @ ?L ?c0 @ ?B)"
    using Suc.prems unfolding ins_pre_def L by blast+
  have "ins_pre N m d (last (lo # take k (ik n))) u ?c0 key cand"
    unfolding ins_pre_def using N de(5,7,8) p cand by (auto simp: leaves_map_append)
  from Suc.IH [OF this] obtain c' m' sp new where
    r: "child_insert N d ?c0 m key v cand = Inr (c', m', sp, new)"
    and i: "inserted_sub N m d (last (lo # take k (ik n))) u ?c0 key v cand c' m' sp new"
    by blast
  obtain as1 a as2 where lf: "?L ?c0 = as1 @ a # as2" "leaf_effect N m a cand key v m' sp"
    "?L c' @ (case new of None \<Rightarrow> [] | Some (u, s) \<Rightarrow> ?L s) = as1 @ (if sp then [a, cand] else [a]) @ as2"
    using i unfolding inserted_sub_def by blast
  have L': "leaves_of (Suc d) c = (?A @ as1) @ a # (as2 @ ?B)" unfolding L lf(1) by simp
  have fr: "m' b = m b" if "b \<in> set ?A \<union> set ?B" for b
    using that p(2,3) lf(1) by (intro leaf_effect_other [OF lf(2)]) auto
  have l1: "lsegs (tree_ok N m' d) lo (take k (ik n)) (take k (ic n))"
    by (rule lsegs_mono [OF de(4)], rule tree_ok_frame [rotated], assumption, rule fr) auto
  have l2: "lsegs (tree_ok N m' d) u us2 (drop (k + 1) (ic n))"
    by (rule lsegs_mono [OF de(6)], rule tree_ok_frame [rotated], assumption, rule fr) auto
  note step = child_insert_Suc inner_insert_step k_def [symmetric] Let_def r
  show ?case
  proof (cases new)
    case None
    let ?n' = "set_child n k c'"
    note b = put_back [OF n(1) de(2) l1 _ l2 de(1), of c']
    have t: "tree_ok N m' d (last (lo # take k (ik n))) u c'"
      using i None by (simp add: inserted_sub_def)
    have "leaves_of (Suc d) (InnerPtr ?n') = (?A @ as1) @ (if sp then [a, cand] else [a]) @ as2 @ ?B"
      using lf(3) None unfolding leaves_of_InnerPtr b(2) [OF t] concat_map_split by simp
    then have "inserted_sub N m (Suc d) lo hi c key v cand (InnerPtr ?n') m' sp None"
      by (intro inserted_subI [OF L' lf(2)]) (use b(1) [OF t] in \<open>simp_all only: option.simps append_Nil2\<close>)
    moreover have "child_insert N (Suc d) c m key v cand = Inr (InnerPtr ?n', m', sp, None)"
      unfolding c step using None by simp
    ultimately show ?thesis by blast
  next
    case (Some us)
    obtain x s where x: "new = Some (x, s)" using Some by (cases us) auto
    have t: "tree_ok N m' d (last (lo # take k (ik n))) x c'" "tree_ok N m' d x u s"
      using i x by (simp_all add: inserted_sub_def)
    have "0 < N" using N by simp
    obtain n' sib where b: "insert_child N (set_child n k c') k x s = Inr (n', sib)"
      "case sib of None \<Rightarrow> tree_ok N m' (Suc d) lo hi (InnerPtr n')
        | Some b \<Rightarrow> tree_ok N m' (Suc d) lo (up_key b) (InnerPtr n') \<and>
            tree_ok N m' (Suc d) (up_key b) hi (InnerPtr b)"
      "ic n' @ (case sib of None \<Rightarrow> [] | Some b \<Rightarrow> ic b) = take k (ic n) @ c' # s # drop (k + 1) (ic n)"
      by (rule put_back_two [OF n(1) de(2) \<open>0 < N\<close> l1 t l2 de(1)])
    let ?new = "map_option (\<lambda>s. (up_key s, InnerPtr s)) sib"
    have "leaves_of (Suc d) (InnerPtr n') @ (case ?new of None \<Rightarrow> [] | Some (u, s) \<Rightarrow> leaves_of (Suc d) s) =
        concat (map ?L (ic n' @ (case sib of None \<Rightarrow> [] | Some b \<Rightarrow> ic b)))"
      by (cases sib) simp_all
    also have "\<dots> = ?A @ (?L c' @ ?L s) @ ?B" unfolding b(3) concat_map_split by simp
    also have "\<dots> = (?A @ as1) @ (if sp then [a, cand] else [a]) @ as2 @ ?B"
      using lf(3) x by simp
    finally have "inserted_sub N m (Suc d) lo hi c key v cand (InnerPtr n') m' sp ?new"
    proof (rule inserted_subI [OF L' lf(2)])
      show "case ?new of None \<Rightarrow> tree_ok N m' (Suc d) lo hi (InnerPtr n')
        | Some (u, s) \<Rightarrow> tree_ok N m' (Suc d) lo u (InnerPtr n') \<and> tree_ok N m' (Suc d) u hi s"
        using b(2) by (cases sib) (simp_all only: option.simps option.map prod.case)
    qed
    moreover have "child_insert N (Suc d) c m key v cand = Inr (InnerPtr n', m', sp, ?new)"
      unfolding c step using x b(1) by simp
    ultimately show ?thesis by blast
  qed
qed

end
