(* ===== verification/XTreeSpec.thy ===== *)
theory XTreeSpec
  imports XTreeInsert
begin

text \<open>
  The contract of \<^verbatim>\<open>XTree\<close>: its invariant, the finite map it stands for, and the lemmas that
  \<open>get_impl\<close> looks up and \<open>insert_core\<close> and \<open>insert_w_alloc\<close> update that map. The last one is
  proved for every allocator that meets the contract \<open>alloc_trait\<close>.
\<close>

section \<open>Invariant and abstraction\<close>

definition tree_leaves :: "('k, 'v) xtree \<Rightarrow> addr list" where
  "tree_leaves t = leaves_of (depth t) (root t)"

definition xtree_map :: "('k::order_top, 'v) xtree \<Rightarrow> 'k \<rightharpoonup> 'v" where
  "xtree_map t = leaves_map (leafs t) (tree_leaves t)"

text \<open>Every leaf points to the next one in key order, the last one to null.\<close>

fun leaf_chain :: "('k, 'v) leafs \<Rightarrow> addr \<Rightarrow> addr list \<Rightarrow> bool" where
  "leaf_chain m e [] = True"
| "leaf_chain m e (a # as) =
     ((\<exists>n. m a = Some n \<and> xnext n = (case as of [] \<Rightarrow> e | b # _ \<Rightarrow> b)) \<and> leaf_chain m e as)"

definition xtree_inv :: "nat \<Rightarrow> ('k::{linorder,order_bot,order_top}, 'v) xtree \<Rightarrow> bool" where
  "xtree_inv N t \<longleftrightarrow>
     (root t = NullPtr \<and> depth t = 0 \<or> tree_ok N (leafs t) (depth t) bot top (root t)) \<and>
     distinct (tree_leaves t) \<and> 0 \<notin> set (tree_leaves t) \<and> leaf_chain (leafs t) 0 (tree_leaves t)"

lemma xtree_inv_empty: "xtree_inv N XTree" "xtree_map XTree = Map.empty" "tree_leaves XTree = []"
  by (simp_all add: xtree_inv_def XTree_def tree_leaves_def xtree_map_def)

lemma leaf_chain_append:
  "leaf_chain m e (as @ bs) \<longleftrightarrow> leaf_chain m (case bs of [] \<Rightarrow> e | b # _ \<Rightarrow> b) as \<and> leaf_chain m e bs"
  by (induction as) (auto split: list.splits)

lemma leaf_chain_cong:
  "(\<And>a. a \<in> set as \<Longrightarrow> m a = m' a) \<Longrightarrow> leaf_chain m e as \<longleftrightarrow> leaf_chain m' e as"
  by (induction as) auto

lemma leaf_chain_change:
  assumes e: "leaf_effect N m a cand key v m' sp"
    and d: "distinct (as1 @ a # as2)" "cand \<notin> set (as1 @ a # as2)"
    and c: "leaf_chain m z (as1 @ a # as2)"
  shows "leaf_chain m' z (as1 @ (if sp then [a, cand] else [a]) @ as2)"
proof -
  have 1: "leaf_chain m x as1 = leaf_chain m' x as1" and 2: "leaf_chain m x as2 = leaf_chain m' x as2" for x
    using d by (auto intro!: leaf_chain_cong leaf_effect_other [OF e, symmetric])
  obtain n n' where n: "m a = Some n" "m' a = Some n'"
    "if sp then \<exists>c' pk. m' cand = Some c' \<and> split_into N n key v cand n' c' pk
     else m' cand = m cand \<and> inserted N n key v n'"
    using e by (auto simp: leaf_effect_def)
  have a: "xnext n = (case as2 of [] \<Rightarrow> z | b # _ \<Rightarrow> b)"
    using c n(1) by (simp add: leaf_chain_append)
  show ?thesis
  proof (cases sp)
    case True
    then obtain c' pk where c': "m' cand = Some c'" "split_into N n key v cand n' c' pk"
      using n(3) by auto
    then show ?thesis using True n c a split_intoD(7,8) [OF c'(2)]
      by (simp add: leaf_chain_append 1 2)
  next
    case False
    then have "inserted N n key v n'" using n(3) by simp
    then show ?thesis using False n c a insertedD(3)
      by (fastforce simp: leaf_chain_append 1 2)
  qed
qed

section \<open>Lookup\<close>

lemma get_value_raw_node_map:
  assumes "node_ok N n" and "k \<noteq> top"
  shows "(case node_search n k of Some idx \<Rightarrow> rbind (get_value_raw n idx) (\<lambda>v. Inr (Some v))
    | None \<Rightarrow> Inr None) = Inr (node_map n k)"
proof (cases "node_search n k")
  case (Some i)
  then have i: "i < N" "get_key n i = k"
    using node_okD(1) [OF assms(1)] by (auto simp: node_search_def dest: keys_search_Some)
  then obtain v where v: "val_at n i = Some v" using node_okD(3) [OF assms(1)] assms(2) by blast
  then have "get_value_raw n i = Inr v" by (simp add: get_value_raw_val_at)
  with Some v assms(2) show ?thesis by (simp add: node_map_def)
qed (simp add: node_map_def)

lemma lsegs_dom_ge:
  assumes "lsegs (tree_ok N m d) lo us cs"
  shows "dom (leaves_map m (concat (map (leaves_of d) cs))) \<subseteq> {lo..<last (lo # us)}"
  using lsegs_dom [of "tree_ok N m d" m "leaves_of d", OF _ assms] tree_ok_less tree_ok_dom by blast

text \<open>
  The descent ends in a leaf that holds the key if any leaf does; the leaves before it have smaller
  keys and those after it larger ones.
\<close>

lemma find_leaf_from_ok:
  fixes m :: "('k::{linorder,order_top}, 'v) leafs"
  shows "tree_ok N m d lo hi c \<Longrightarrow> lo \<le> k \<Longrightarrow> k < hi \<Longrightarrow>
    \<exists>a n as1 as2. find_leaf_from d c k = Inr a \<and> leaves_of d c = as1 @ a # as2 \<and> m a = Some n \<and>
      node_ok N n \<and> leaves_map m (leaves_of d c) k = node_map n k \<and>
      (\<forall>x\<in>dom (leaves_map m as1). x < k) \<and> (\<forall>x\<in>dom (leaves_map m as2). k < x)"
proof (induction d arbitrary: lo hi c)
  case 0
  then obtain a n where "c = LeafPtr a" "m a = Some n" "node_ok N n" by (cases c) auto
  then show ?case
    by (intro exI [of _ a] exI [of _ n] exI [of _ "[]"]) (simp add: leaf_map_def)
next
  case (Suc d)
  let ?L = "leaves_of d"
  obtain n where c: "c = InnerPtr n" and n: "inner_ok N n" "lsegs (tree_ok N m d) lo (ik n @ [hi]) (ic n)"
    using Suc.prems by (cases c) auto
  define i where "i = find_children_idx n k"
  obtain u us2 where de: "drop i (ik n) @ [hi] = u # us2" "i \<le> inum_keys n"
    "ic n = take i (ic n) @ childrens n ! i # drop (i + 1) (ic n)"
    "lsegs (tree_ok N m d) lo (take i (ik n)) (take i (ic n))"
    "tree_ok N m d (last (lo # take i (ik n))) u (childrens n ! i)"
    "lsegs (tree_ok N m d) u us2 (drop (i + 1) (ic n))"
    "last (lo # take i (ik n)) \<le> k" "k < u"
    by (rule descend [OF n Suc.prems(2,3) i_def])
  let ?c0 = "childrens n ! i" and ?A = "concat (map ?L (take i (ic n)))"
    and ?B = "concat (map ?L (drop (i + 1) (ic n)))"
  have L: "leaves_of (Suc d) c = ?A @ ?L ?c0 @ ?B"
    unfolding c leaves_of_InnerPtr by (subst de(3)) (rule concat_map_split)
  have "k \<notin> dom (leaves_map m ?A)" using lsegs_dom_ge [OF de(4)] de(7) by fastforce
  moreover have "k \<notin> dom (leaves_map m ?B)" using lsegs_dom_ge [OF de(6)] de(8) by fastforce
  ultimately have same: "leaves_map m (leaves_of (Suc d) c) k = leaves_map m (?L ?c0) k"
    unfolding L leaves_map_append by (auto simp: map_add_def domIff split: option.splits)
  obtain a n' as1 as2 where a: "find_leaf_from d ?c0 k = Inr a" "?L ?c0 = as1 @ a # as2" "m a = Some n'"
    "node_ok N n'" "leaves_map m (?L ?c0) k = node_map n' k"
    "\<forall>x\<in>dom (leaves_map m as1). x < k" "\<forall>x\<in>dom (leaves_map m as2). k < x"
    using Suc.IH [OF de(5,7,8)] by blast
  have "find_leaf_from (Suc d) c k = Inr a"
    using a(1) by (simp add: c find_children_def i_def)
  moreover have "leaves_of (Suc d) c = (?A @ as1) @ a # (as2 @ ?B)" unfolding L a(2) by simp
  moreover have "\<forall>x\<in>dom (leaves_map m (?A @ as1)). x < k"
    using lsegs_dom_ge [OF de(4)] de(7) a(6) by (fastforce simp: leaves_map_append)
  moreover have "\<forall>x\<in>dom (leaves_map m (as2 @ ?B)). k < x"
    using lsegs_dom_ge [OF de(6)] de(8) a(7) by (fastforce simp: leaves_map_append)
  moreover have "leaves_map m (leaves_of (Suc d) c) k = node_map n' k" using same a(5) by simp
  ultimately show ?case using a(3,4) by blast
qed

text \<open>A key beyond the upper bound leads to the last leaf.\<close>

lemma find_leaf_past:
  fixes m :: "('k::{linorder,order_top}, 'v) leafs"
  shows "tree_ok N m d lo hi c \<Longrightarrow> hi \<le> k \<Longrightarrow>
    \<exists>a as. find_leaf_from d c k = Inr a \<and> leaves_of d c = as @ [a]"
proof (induction d arbitrary: lo hi c)
  case 0
  then show ?case by (cases c) auto
next
  case (Suc d)
  obtain n where c: "c = InnerPtr n" and n: "inner_ok N n" "lsegs (tree_ok N m d) lo (ik n @ [hi]) (ic n)"
    using Suc.prems by (cases c) auto
  let ?i = "find_children_idx n k"
  have s: "sorted_wrt (<) (lo # ik n @ [hi])" using lsegs_sorted [OF _ n(2)] tree_ok_less by blast
  have "drop ?i (ik n) = []"
  proof (rule ccontr)
    assume "drop ?i (ik n) \<noteq> []"
    then obtain x where x: "x \<in> set (drop ?i (ik n))" by (cases "drop ?i (ik n)") auto
    then have "k < x" using find_children_idx_bounds(2) [OF n(1)] s by (auto simp: sorted_wrt_append)
    moreover have "x < hi" using s in_set_dropD [OF x] by (auto simp: sorted_wrt_append)
    ultimately show False using Suc.prems(2) by simp
  qed
  then have i: "?i = inum_keys n" using find_children_idx_le [of n k] n(1) by simp
  then have split: "ic n = butlast (ic n) @ [childrens n ! ?i]"
  proof -
    have len: "length (ic n) = inum_keys n + 1" using n(1) by simp
    then have "ic n \<noteq> []" by auto
    then have "last (ic n) = childrens n ! inum_keys n" using len by (simp add: last_conv_nth) (simp add: ic_def)
    then show ?thesis using i append_butlast_last_id [OF \<open>ic n \<noteq> []\<close>] by simp
  qed
  have "lsegs (tree_ok N m d) lo (ik n @ [hi]) (butlast (ic n) @ [childrens n ! ?i])" using n(2) split by simp
  then have "tree_ok N m d (last (lo # ik n)) hi (childrens n ! ?i)"
    using n(1) by (subst (asm) lsegs_append) simp_all
  from Suc.IH [OF this Suc.prems(2)] obtain a as where
    a: "find_leaf_from d (childrens n ! ?i) k = Inr a" "leaves_of d (childrens n ! ?i) = as @ [a]" by blast
  have "leaves_of (Suc d) c = concat (map (leaves_of d) (butlast (ic n))) @ as @ [a]"
    unfolding c leaves_of_InnerPtr by (subst split) (simp add: a(2))
  then show ?case using a(1) by (simp add: c find_children_def)
qed

lemma get_impl_ok:
  assumes inv: "xtree_inv N t" and ne: "root t \<noteq> NullPtr" and k: "k \<noteq> top"
  shows "get_impl t k = Inr (xtree_map t k)"
proof -
  have t: "tree_ok N (leafs t) (depth t) bot top (root t)" using inv ne by (simp add: xtree_inv_def)
  have "k < top" using k by (simp add: top.not_eq_extremum)
  from find_leaf_from_ok [OF t bot_least this] obtain a n where
    a: "find_leaf_from (depth t) (root t) k = Inr a" "a \<in> set (tree_leaves t)" "leafs t a = Some n"
      "node_ok N n" "xtree_map t k = node_map n k"
    unfolding tree_leaves_def xtree_map_def by (metis in_set_conv_decomp)
  have "a \<noteq> 0" using inv a(2) by (auto simp: xtree_inv_def)
  then show ?thesis
    using a(1,3,5) get_value_raw_node_map [OF a(4) k] by (simp add: get_impl_def find_leaf_def)
qed

lemma get_impl_empty: "root t = NullPtr \<Longrightarrow> depth t = 0 \<Longrightarrow> get_impl t k = Inl AssertFail"
  by (simp add: get_impl_def find_leaf_def)


section \<open>Insertion\<close>

lemma insert_core_step:
  assumes "root t \<noteq> NullPtr" and "cand \<noteq> 0"
  shows "insert_core N t key v cand =
    rbind (child_insert N (depth t) (root t) (leafs t) key v cand) (\<lambda>(c', m', sp, new).
      case new of
        None \<Rightarrow> Inr (t\<lparr>leafs := m', root := c'\<rparr>, sp)
      | Some (u, s) \<Rightarrow>
          Inr (t\<lparr>leafs := m', root := InnerPtr (TreeInner_root N u c' s), depth := depth t + 1\<rparr>, sp))"
proof (cases "root t")
  case NullPtr
  with assms show ?thesis by simp
next
  case (LeafPtr a)
  have same: "t\<lparr>leafs := m, root := LeafPtr a\<rparr> = t\<lparr>leafs := m\<rparr>" for m
    using LeafPtr by (cases t) simp
  show ?thesis
    using LeafPtr assms(2) same
    by (cases "leaf_insert (leafs t) a key v cand")
      (auto simp: insert_core_def child_insert_def simp del: get_key_nth split: option.splits)
next
  case (InnerPtr n)
  then show ?thesis
    by (cases "inner_insert N n (leafs t) key v (depth t) cand")
      (auto simp: insert_core_def child_insert_def split: option.splits)
qed

text \<open>What one insertion guarantees; \<open>ret\<close> tells that the candidate is now a leaf of the tree.\<close>

definition xtree_inserted :: "nat \<Rightarrow> ('k::{linorder,order_bot,order_top}, 'v) xtree \<Rightarrow> 'k \<Rightarrow> 'v \<Rightarrow> addr
    \<Rightarrow> ('k, 'v) xtree \<Rightarrow> bool \<Rightarrow> bool" where
  "xtree_inserted N t key v cand t' ret \<longleftrightarrow>
     xtree_inv N t' \<and> root t' \<noteq> NullPtr \<and> xtree_map t' = (xtree_map t)(key \<mapsto> v) \<and>
     set (tree_leaves t') = (if ret then insert cand (set (tree_leaves t)) else set (tree_leaves t)) \<and>
     pre_alloc_leaf_node t' = pre_alloc_leaf_node t \<and>
     (\<forall>b. b \<notin> set (tree_leaves t) \<longrightarrow> b \<noteq> cand \<longrightarrow> leafs t' b = leafs t b) \<and>
     (\<not> ret \<longrightarrow> leafs t' cand = leafs t cand) \<and>
     (root t \<noteq> NullPtr \<longrightarrow> (\<exists>a\<in>set (tree_leaves t). leaf_effect N (leafs t) a cand key v (leafs t') ret))"

lemma xtree_insertedD:
  assumes "xtree_inserted N t key v cand t' ret"
  shows "xtree_inv N t'" "root t' \<noteq> NullPtr" "xtree_map t' = (xtree_map t)(key \<mapsto> v)"
    "set (tree_leaves t') = (if ret then insert cand (set (tree_leaves t)) else set (tree_leaves t))"
    "pre_alloc_leaf_node t' = pre_alloc_leaf_node t"
    "b \<notin> set (tree_leaves t) \<Longrightarrow> b \<noteq> cand \<Longrightarrow> leafs t' b = leafs t b"
    "\<not> ret \<Longrightarrow> leafs t' cand = leafs t cand"
    "root t \<noteq> NullPtr \<Longrightarrow> \<exists>a\<in>set (tree_leaves t). leaf_effect N (leafs t) a cand key v (leafs t') ret"
  using assms by (auto simp: xtree_inserted_def)

lemma insert_core_ok:
  fixes t :: "('k::{linorder,order_bot,order_top}, 'v) xtree"
  assumes inv: "xtree_inv N t" and ne: "root t \<noteq> NullPtr" and N: "2 \<le> N"
    and cand: "cand \<noteq> 0" "cand_ok N (leafs t) cand" "cand \<notin> set (tree_leaves t)"
    and key: "key \<noteq> top" "key \<notin> dom (xtree_map t)"
  shows "\<exists>t' ret. insert_core N t key v cand = Inr (t', ret) \<and> xtree_inserted N t key v cand t' ret"
proof -
  let ?d = "depth t" and ?c = "root t" and ?m = "leafs t"
  have t: "tree_ok N ?m ?d bot top ?c" "distinct (tree_leaves t)" "0 \<notin> set (tree_leaves t)"
    "leaf_chain ?m 0 (tree_leaves t)"
    using inv ne by (auto simp: xtree_inv_def)
  have "ins_pre N ?m ?d bot top ?c key cand"
    using t(1,2) N cand(2,3) key by (simp add: ins_pre_def tree_leaves_def xtree_map_def top.not_eq_extremum)
  from child_insert_ok [OF this, of v] obtain c' m' sp new
    where r: "child_insert N ?d ?c ?m key v cand = Inr (c', m', sp, new)"
    and i: "inserted_sub N ?m ?d bot top ?c key v cand c' m' sp new"
    by blast
  obtain as1 a as2 where lf: "tree_leaves t = as1 @ a # as2" "leaf_effect N ?m a cand key v m' sp"
    "leaves_of ?d c' @ (case new of None \<Rightarrow> [] | Some (u, s) \<Rightarrow> leaves_of ?d s) =
       as1 @ (if sp then [a, cand] else [a]) @ as2"
    using i unfolding inserted_sub_def tree_leaves_def by blast
  let ?L = "as1 @ (if sp then [a, cand] else [a]) @ as2"
  have L: "distinct ?L" "0 \<notin> set ?L" "leaf_chain m' 0 ?L"
    "leaves_map m' ?L = (xtree_map t)(key \<mapsto> v)"
    "set ?L = (if sp then insert cand (set (tree_leaves t)) else set (tree_leaves t))"
    using t(2-4) cand key(2) leaf_chain_change [OF lf(2)] leaves_map_change [OF lf(2)]
    unfolding lf(1) xtree_map_def by auto
  have other: "m' b = ?m b" if "b \<notin> set (tree_leaves t)" "b \<noteq> cand" for b
    using that lf(1) by (intro leaf_effect_other [OF lf(2)]) auto
  have unused: "m' cand = ?m cand" if "\<not> sp" using lf(2) that by (auto simp: leaf_effect_def)
  have eff: "\<exists>a\<in>set (tree_leaves t). leaf_effect N ?m a cand key v m' sp" using lf(1,2) by auto
  note step = insert_core_step [OF ne cand(1), of N key v] r
  show ?thesis
  proof (cases new)
    case None
    let ?t' = "t\<lparr>leafs := m', root := c'\<rparr>"
    have tl: "tree_leaves ?t' = ?L" using lf(3) None by (simp add: tree_leaves_def)
    have ok: "tree_ok N m' ?d bot top c'" using i None by (simp add: inserted_sub_def)
    then have "c' \<noteq> NullPtr" by (cases ?d) auto
    then have "xtree_inserted N t key v cand ?t' sp"
      unfolding xtree_inserted_def xtree_inv_def xtree_map_def tl
      using L ok other unused eff t(3) cand(1) by (simp add: xtree_map_def)
    then show ?thesis using step None by auto
  next
    case (Some us)
    obtain u s where us: "new = Some (u, s)" using Some by (cases us) auto
    let ?t' = "t\<lparr>leafs := m', root := InnerPtr (TreeInner_root N u c' s), depth := ?d + 1\<rparr>"
    have N0: "0 < N" using N by simp
    note ri = TreeInner_root_simps [OF N0, of u c' s]
    have tl: "tree_leaves ?t' = ?L" using lf(3) us by (simp add: tree_leaves_def ri)
    have "tree_ok N m' ?d bot u c'" "tree_ok N m' ?d u top s" using i us by (simp_all add: inserted_sub_def)
    then have ok: "tree_ok N m' (?d + 1) bot top (InnerPtr (TreeInner_root N u c' s))"
      by (simp add: ri)
    have "xtree_inserted N t key v cand ?t' sp"
      unfolding xtree_inserted_def xtree_inv_def xtree_map_def tl
      using L ok other unused eff t(3) cand(1) by (simp add: xtree_map_def)
    then show ?thesis using step us by auto
  qed
qed

text \<open>The first insertion: the candidate becomes the root and the key goes into it.\<close>

lemma insert_core_first:
  fixes t :: "('k::{linorder,order_bot,order_top}, 'v) xtree"
  assumes t: "root t = NullPtr" "depth t = 0" and N: "0 < N"
    and cand: "cand \<noteq> 0" "cand_ok N (leafs t) cand" "\<exists>cn. leafs t cand = Some cn \<and> xnext cn = 0"
    and key: "key \<noteq> top"
  shows "\<exists>t'. insert_core N t key v cand = Inr (t', True) \<and> xtree_inserted N t key v cand t' True"
proof -
  obtain cn where cn: "leafs t cand = Some cn" "node_ok N cn" "node_map cn = Map.empty" "xnext cn = 0"
    using cand by (auto simp: cand_ok_def)
  have room: "card (dom (node_map cn)) < N" and new: "key \<notin> dom (node_map cn)" using cn(3) N by simp_all
  obtain n' where n': "raw_insert_nosplit cn key v = Inr n'" "inserted N cn key v n'"
    using raw_insert_nosplit_ok [OF cn(2) key new room] by blast
  note i = insertedD [OF n'(2)]
  let ?t' = "t\<lparr>root := LeafPtr cand, leafs := (leafs t)(cand \<mapsto> n')\<rparr>"
  have run: "insert_core N t key v cand = Inr (?t', True)"
    using t cand(1) cn(1) n'(1) raw_insert_room [OF cn(2) room, of key v]
    by (simp add: insert_core_def leaf_insert_def)
  have ne: "node_map n' \<noteq> Map.empty" and km: "node_map n' = [key \<mapsto> v]"
    unfolding i(2) cn(3) by (auto simp: fun_eq_iff)
  have kt: "key < top" using key by (simp add: top.not_eq_extremum)
  have tl: "tree_leaves ?t' = [cand]" "tree_leaves t = []" using t by (simp_all add: tree_leaves_def)
  have "xtree_inserted N t key v cand ?t' True"
    unfolding xtree_inserted_def xtree_inv_def xtree_map_def tl
    using t ne km kt i(1,3) cn(4) cand(1) by (simp add: leaf_map_def)
  then show ?thesis using run by blast
qed


section \<open>Half-full leaves\<close>

text \<open>A tree of several leaves holds at least \<open>N div 2\<close> keys in each of them.\<close>

definition half_full :: "nat \<Rightarrow> ('k::order_top, 'v) xtree \<Rightarrow> bool" where
  "half_full N t \<longleftrightarrow>
     (2 \<le> length (tree_leaves t) \<longrightarrow> (\<forall>a\<in>set (tree_leaves t). N div 2 \<le> card (dom (leaf_map (leafs t) a))))"

lemma finite_node_map: "finite (dom (node_map n))"
proof (rule finite_subset)
  show "dom (node_map n) \<subseteq> set (keys (xkeys n))"
    using find_from_0_SomeD by (fastforce simp: node_map_def node_search_def keys_search_def in_set_conv_nth split: option.splits)
qed simp

lemma xtree_inserted_leaves:
  assumes i: "xtree_inserted N t key v cand t' ret" and t: "xtree_inv N t" and c: "cand \<notin> set (tree_leaves t)"
  shows "length (tree_leaves t') = length (tree_leaves t) + (if ret then 1 else 0)"
proof -
  have "distinct (tree_leaves t')" "distinct (tree_leaves t)" using xtree_insertedD(1) [OF i] t by (simp_all add: xtree_inv_def)
  then have "length (tree_leaves t') = card (set (tree_leaves t'))" "length (tree_leaves t) = card (set (tree_leaves t))"
    by (simp_all add: distinct_card)
  then show ?thesis using xtree_insertedD(4) [OF i] c by simp
qed

lemma half_full_inserted:
  assumes i: "xtree_inserted N t key v cand t' ret" and t: "xtree_inv N t" and c: "cand \<notin> set (tree_leaves t)"
    and h: "half_full N t"
  shows "half_full N t'"
  unfolding half_full_def
proof (intro impI ballI)
  fix b assume two: "2 \<le> length (tree_leaves t')" and b: "b \<in> set (tree_leaves t')"
  note D = xtree_insertedD [OF i] and len = xtree_inserted_leaves [OF i t c]
  have "root t \<noteq> NullPtr"
  proof
    assume "root t = NullPtr"
    then have "tree_leaves t = []" by (cases "depth t") (simp_all add: tree_leaves_def)
    then show False using two len by (simp split: if_splits)
  qed
  then obtain a where a: "a \<in> set (tree_leaves t)" "leaf_effect N (leafs t) a cand key v (leafs t') ret" using D(8) by blast
  then obtain n n' where n: "leafs t a = Some n" "leafs t' a = Some n'"
    "if ret then \<exists>c' pk. leafs t' cand = Some c' \<and> split_into N n key v cand n' c' pk
     else leafs t' cand = leafs t cand \<and> inserted N n key v n'"
    by (auto simp: leaf_effect_def)
  have le: "N div 2 \<le> card (dom (leaf_map (leafs t) x))" if "x \<in> set (tree_leaves t)" "x \<noteq> a \<or> \<not> ret" for x
  proof -
    have "card {x, a} \<le> card (set (tree_leaves t))" using that(1) a(1) by (intro card_mono) auto
    moreover have "card (set (tree_leaves t)) \<le> length (tree_leaves t)" by (rule card_length)
    ultimately have "2 \<le> length (tree_leaves t)" using that(2) two len by (cases ret) auto
    then show ?thesis using h that(1) by (simp add: half_full_def)
  qed
  show "N div 2 \<le> card (dom (leaf_map (leafs t') b))"
  proof (cases "b = a \<or> b = cand \<and> ret")
    case False
    then have "b \<in> set (tree_leaves t)" "b \<noteq> cand" using b D(4) c by (auto split: if_splits)
    then show ?thesis using le [of b] leaf_effect_other [OF a(2), of b] False by (simp add: leaf_map_def)
  next
    case True
    show ?thesis
    proof (cases ret)
      case ret: True
      then obtain c' pk where s: "leafs t' cand = Some c'" "split_into N n key v cand n' c' pk" using n(3) by auto
      have "dom (node_map n) \<inter> {k. k < pk} \<subseteq> dom (node_map n')" "dom (node_map n) \<inter> {k. pk \<le> k} \<subseteq> dom (node_map c')"
        unfolding split_intoD(5,6) [OF s(2)] by auto
      then have "N div 2 \<le> card (dom (node_map n'))" "N - N div 2 \<le> card (dom (node_map c'))"
        using split_intoD(10,11) [OF s(2)] finite_node_map card_mono by metis+
      moreover have "N div 2 \<le> N - N div 2" by simp
      ultimately show ?thesis using True s(1) n(2) by (auto simp: leaf_map_def)
    next
      case ret: False
      have ba: "b = a" using True ret by simp
      have sub: "dom (leaf_map (leafs t) a) \<subseteq> dom (leaf_map (leafs t') b)"
        using ret ba n by (auto simp: leaf_map_def inserted_def)
      have "finite (dom (leaf_map (leafs t') b))" using n(2) ba by (simp add: leaf_map_def finite_node_map)
      from card_mono [OF this sub] show ?thesis using le [of a] a(1) ret by simp
    qed
  qed
qed

section \<open>Leaves stay\<close>

text \<open>
  What insertions leave of a tree for those who know its leaves: no leaf goes away, and when no leaf
  has come no key has moved.
\<close>

definition grown :: "('k, 'v) xtree \<Rightarrow> ('k::order_top, 'v) xtree \<Rightarrow> bool" where
  "grown t t' \<longleftrightarrow> set (tree_leaves t) \<subseteq> set (tree_leaves t') \<and>
     (set (tree_leaves t') = set (tree_leaves t) \<longrightarrow>
        (\<forall>a\<in>set (tree_leaves t). dom (leaf_map (leafs t) a) \<subseteq> dom (leaf_map (leafs t') a)))"

lemma grown_refl: "grown t t"
  by (simp add: grown_def)

lemma grown_trans:
  assumes "grown t t'" and "grown t' t''"
  shows "grown t t''"
proof -
  have l: "set (tree_leaves t) \<subseteq> set (tree_leaves t')" "set (tree_leaves t') \<subseteq> set (tree_leaves t'')"
    using assms by (simp_all add: grown_def)
  have "dom (leaf_map (leafs t) a) \<subseteq> dom (leaf_map (leafs t'') a)"
    if same: "set (tree_leaves t'') = set (tree_leaves t)" and a: "a \<in> set (tree_leaves t)" for a
  proof -
    have e: "set (tree_leaves t') = set (tree_leaves t)" "set (tree_leaves t'') = set (tree_leaves t')" using l same by simp_all
    have "dom (leaf_map (leafs t) a) \<subseteq> dom (leaf_map (leafs t') a)" using assms(1) e(1) a by (simp add: grown_def)
    also have "\<dots> \<subseteq> dom (leaf_map (leafs t'') a)" using assms(2) e a by (simp add: grown_def)
    finally show ?thesis .
  qed
  then show ?thesis using l by (simp add: grown_def)
qed

lemma grown_same: "set (tree_leaves t') = set (tree_leaves t) \<Longrightarrow> (\<And>a. a \<in> set (tree_leaves t) \<Longrightarrow> leafs t' a = leafs t a) \<Longrightarrow> grown t t'"
  by (simp add: grown_def leaf_map_def)

lemma xtree_inserted_grown:
  assumes i: "xtree_inserted N t key v cand t' ret" and c: "cand \<notin> set (tree_leaves t)"
  shows "grown t t'"
  unfolding grown_def
proof (intro conjI impI ballI)
  note D = xtree_insertedD [OF i]
  show "set (tree_leaves t) \<subseteq> set (tree_leaves t')" using D(4) by auto
  fix b assume same: "set (tree_leaves t') = set (tree_leaves t)" and b: "b \<in> set (tree_leaves t)"
  have ret: "\<not> ret" using D(4) c same by auto
  have "root t \<noteq> NullPtr"
  proof
    assume "root t = NullPtr"
    then have "tree_leaves t = []" by (cases "depth t") (simp_all add: tree_leaves_def)
    then show False using b by simp
  qed
  then obtain a where "leaf_effect N (leafs t) a cand key v (leafs t') ret" using D(8) by blast
  then obtain n n' where n: "leafs t a = Some n" "leafs t' a = Some n'" "inserted N n key v n'"
    "\<forall>x. x \<noteq> a \<longrightarrow> x \<noteq> cand \<longrightarrow> leafs t' x = leafs t x"
    using ret by (auto simp: leaf_effect_def)
  show "dom (leaf_map (leafs t) b) \<subseteq> dom (leaf_map (leafs t') b)"
  proof (cases "b = a")
    case True
    have "node_map n' = (node_map n)(key \<mapsto> v)" using n(3) by (simp add: inserted_def)
    then have "dom (node_map n) \<subseteq> dom (node_map n')" by (simp add: subset_insertI)
    then show ?thesis using n(1,2) True by (simp add: leaf_map_def)
  next
    case False
    then have "leafs t' b = leafs t b" using n(4) b c by (metis (lifting))
    then show ?thesis by (simp add: leaf_map_def)
  qed
qed

section \<open>Leaves in key order\<close>

definition keys_before :: "('k::{linorder,order_top}, 'v) leafs \<Rightarrow> addr \<Rightarrow> addr \<Rightarrow> bool" where
  "keys_before m a b \<longleftrightarrow> (\<forall>x\<in>dom (leaf_map m a). \<forall>y\<in>dom (leaf_map m b). x < y)"

lemma leaf_map_subset: "a \<in> set as \<Longrightarrow> dom (leaf_map m a) \<subseteq> dom (leaves_map m as)"
  by (auto simp: dom_leaves_map)

lemma lsegs_leaves_sorted:
  assumes "\<And>l u c. P l u c \<Longrightarrow> l < u \<and> dom (leaves_map m (f c)) \<subseteq> {l..<u} \<and> sorted_wrt (keys_before m) (f c)"
  shows "lsegs P lo us cs \<Longrightarrow> sorted_wrt (keys_before m) (concat (map f cs))"
proof (induction us arbitrary: lo cs)
  case Nil
  then show ?case by (cases cs) auto
next
  case (Cons u us)
  then obtain c cs' where c: "cs = c # cs'" "P lo u c" "lsegs P u us cs'" by (cases cs) auto
  have rest: "dom (leaves_map m (concat (map f cs'))) \<subseteq> {u..<last (u # us)}"
    using lsegs_dom [of P m f, OF _ c(3)] assms by blast
  have "keys_before m a b" if "a \<in> set (f c)" "b \<in> set (concat (map f cs'))" for a b
    unfolding keys_before_def
  proof (intro ballI)
    fix x y assume x: "x \<in> dom (leaf_map m a)" and y: "y \<in> dom (leaf_map m b)"
    have "x \<in> {lo..<u}"
      using x leaf_map_subset [OF that(1), of m] assms [OF c(2)] by (meson subsetD)
    moreover have "y \<in> {u..<last (u # us)}"
      using y leaf_map_subset [OF that(2), of m] rest by (meson subsetD)
    ultimately have "x < u" "u \<le> y" by simp_all
    then show "x < y" by simp
  qed
  then show ?case using assms [OF c(2)] Cons.IH [OF c(3)] by (simp add: c(1) sorted_wrt_append)
qed

lemma tree_leaves_sorted: "tree_ok N m d lo hi c \<Longrightarrow> sorted_wrt (keys_before m) (leaves_of d c)"
proof (induction d arbitrary: lo hi c)
  case 0
  then show ?case by (cases c) auto
next
  case (Suc d)
  then obtain n where n: "c = InnerPtr n" "lsegs (tree_ok N m d) lo (ik n @ [hi]) (ic n)"
    by (cases c) auto
  show ?case unfolding n(1) leaves_of_InnerPtr
    using lsegs_leaves_sorted [of "tree_ok N m d" m "leaves_of d", OF _ n(2)]
      tree_ok_less tree_ok_dom Suc.IH by blast
qed

lemma finite_leaf_map: "tree_ok N m d lo hi c \<Longrightarrow> finite (dom (leaves_map m (leaves_of d c)))"
  using tree_ok_leaf by (fastforce simp: dom_leaves_map leaf_map_def)

text \<open>If \<open>g\<close> lists the keys of each leaf in order, the leaves together list all keys in order.\<close>

lemma concat_sorted_keys:
  assumes "sorted_wrt (keys_before m) as"
    and "\<And>a. a \<in> set as \<Longrightarrow> sorted_wrt (<) (g a) \<and> set (g a) = dom (leaf_map m a)"
  shows "sorted_wrt (<) (concat (map g as)) \<and> set (concat (map g as)) = dom (leaves_map m as)"
  using assms
proof (induction as)
  case (Cons a as)
  have ih: "sorted_wrt (<) (concat (map g as)) \<and> set (concat (map g as)) = dom (leaves_map m as)"
    by (rule Cons.IH) (use Cons.prems in simp_all)
  have ga: "sorted_wrt (<) (g a)" "set (g a) = dom (leaf_map m a)" using Cons.prems(2) [of a] by simp_all
  have "x < y" if x: "x \<in> dom (leaf_map m a)" and y: "y \<in> dom (leaves_map m as)" for x y
  proof -
    obtain b where "b \<in> set as" "y \<in> dom (leaf_map m b)" using y by (auto simp only: dom_leaves_map)
    then show "x < y" using Cons.prems(1) x by (simp add: keys_before_def)
  qed
  then show ?case using ih ga by (simp add: sorted_wrt_append Un_commute)
qed simp


text \<open>So half-full leaves bound the number of leaves by the number of keys.\<close>

lemma leaves_le_keys:
  assumes inv: "xtree_inv N t" and h: "half_full N t" and N: "2 \<le> N"
  shows "length (tree_leaves t) \<le> max 1 (card (dom (xtree_map t)) div (N div 2))"
proof (cases "2 \<le> length (tree_leaves t)")
  case False
  then show ?thesis by simp
next
  case True
  let ?g = "\<lambda>a. sorted_list_of_set (dom (leaf_map (leafs t) a))"
  have ok: "tree_ok N (leafs t) (depth t) bot top (root t)"
    using inv True by (auto simp: xtree_inv_def tree_leaves_def)
  have g: "sorted_wrt (<) (?g a) \<and> set (?g a) = dom (leaf_map (leafs t) a)" for a
    by (simp add: leaf_map_def finite_node_map del: domIff split: option.split)
  have c: "sorted_wrt (<) (concat (map ?g (tree_leaves t)))" "set (concat (map ?g (tree_leaves t))) = dom (xtree_map t)"
    using concat_sorted_keys [of "leafs t" "tree_leaves t" ?g] tree_leaves_sorted [OF ok] g
    by (auto simp: tree_leaves_def xtree_map_def)
  have "card (dom (xtree_map t)) = length (concat (map ?g (tree_leaves t)))"
    using c distinct_card strict_sorted_iff by metis
  also have "\<dots> = sum_list (map (\<lambda>a. card (dom (leaf_map (leafs t) a))) (tree_leaves t))"
    by (simp add: length_concat o_def)
  also have "\<dots> \<ge> sum_list (map (\<lambda>a. N div 2) (tree_leaves t))"
    using h True by (intro sum_list_mono) (simp add: half_full_def)
  finally have "length (tree_leaves t) * (N div 2) \<le> card (dom (xtree_map t))" by (simp add: sum_list_triv)
  moreover have "0 < N div 2" using N by (simp add: div_greater_zero_iff)
  ultimately have "length (tree_leaves t) \<le> card (dom (xtree_map t)) div (N div 2)" by (simp only: less_eq_div_iff_mult_less_eq)
  then show ?thesis by (rule max.coboundedI2)
qed

section \<open>Properties\<close>

text \<open>A tree of two leaves for the witnesses.\<close>

definition sample_leafs :: "(xkey, u64) leafs" where
  "sample_leafs =
     [64 \<mapsto> \<lparr>xkeys = \<lparr>keys = [XKey 3, XKey 1], incarnation = 0\<rparr>, xvals = Inplace [Some 30, Some 1], xnext = 128, xlock = 0\<rparr>,
      128 \<mapsto> \<lparr>xkeys = \<lparr>keys = [XKey 5, top], incarnation = 0\<rparr>, xvals = Inplace [Some 50, None], xnext = 0, xlock = 0\<rparr>]"

definition sample_tree :: "(xkey, u64) xtree" where
  "sample_tree = \<lparr>depth = 1, root = InnerPtr (TreeInner_root 2 (XKey 5) (LeafPtr 64) (LeafPtr 128)),
     leafs = sample_leafs, pre_alloc_leaf_node = 0\<rparr>"

lemma sample_tree_leaves: "tree_leaves sample_tree = [64, 128]"
  by (simp add: tree_leaves_def sample_tree_def)

lemma sample_leaf_nodes:
  "\<exists>n. sample_leafs 64 = Some n \<and> node_ok 2 n \<and> dom (node_map n) = {XKey 1, XKey 3} \<and> xnext n = 128"
  "\<exists>n. sample_leafs 128 = Some n \<and> node_ok 2 n \<and> dom (node_map n) = {XKey 5} \<and> xnext n = 0"
proof -
  let ?a = "\<lparr>xkeys = \<lparr>keys = [XKey 3, XKey 1], incarnation = 0\<rparr>, xvals = Inplace [Some 30, Some 1 :: u64 option], xnext = 128, xlock = 0\<rparr>"
  let ?b = "\<lparr>xkeys = \<lparr>keys = [XKey 5, top], incarnation = 0\<rparr>, xvals = Inplace [Some 50, None :: u64 option], xnext = 0, xlock = 0\<rparr>"
  have a: "node_ok 2 ?a" and b: "node_ok 2 ?b"
    by (auto simp: node_ok_def vals_len_def val_at_def less_Suc_eq numeral_2_eq_2)
  have "dom (node_map ?a) = {XKey 1, XKey 3}" "dom (node_map ?b) = {XKey 5}"
    unfolding dom_node_map_valid_keys [OF a] dom_node_map_valid_keys [OF b] by (auto simp: valid_keys_def)
  with a b show "\<exists>n. sample_leafs 64 = Some n \<and> node_ok 2 n \<and> dom (node_map n) = {XKey 1, XKey 3} \<and> xnext n = 128"
    "\<exists>n. sample_leafs 128 = Some n \<and> node_ok 2 n \<and> dom (node_map n) = {XKey 5} \<and> xnext n = 0"
    by (simp_all add: sample_leafs_def)
qed

lemma sample_tree_inv: "xtree_inv 2 sample_tree" "root sample_tree \<noteq> NullPtr"
proof -
  obtain a where a: "sample_leafs 64 = Some a" "node_ok 2 a" "dom (node_map a) = {XKey 1, XKey 3}" "xnext a = 128"
    using sample_leaf_nodes(1) by blast
  obtain b where b: "sample_leafs 128 = Some b" "node_ok 2 b" "dom (node_map b) = {XKey 5}" "xnext b = 0"
    using sample_leaf_nodes(2) by blast
  have "node_map a \<noteq> Map.empty" "node_map b \<noteq> Map.empty" using a(3) b(3) by auto
  then have "tree_ok 2 sample_leafs (Suc 0) bot top (InnerPtr (TreeInner_root 2 (XKey 5) (LeafPtr 64) (LeafPtr 128)))"
    using a b by (simp add: xkey_defs)
  moreover have "leaf_chain sample_leafs 0 [64, 128]" using a b by simp
  ultimately show "xtree_inv 2 sample_tree"
    unfolding xtree_inv_def sample_tree_leaves by (simp add: sample_tree_def)
  show "root sample_tree \<noteq> NullPtr" by (simp add: sample_tree_def)
qed

lemma sample_tree_dom: "dom (xtree_map sample_tree) = {XKey 1, XKey 3, XKey 5}"
  "card (dom (xtree_map sample_tree)) = 3"
proof -
  obtain a where a: "sample_leafs 64 = Some a" "dom (node_map a) = {XKey 1, XKey 3}"
    using sample_leaf_nodes(1) by blast
  obtain b where b: "sample_leafs 128 = Some b" "dom (node_map b) = {XKey 5}"
    using sample_leaf_nodes(2) by blast
  have "leafs sample_tree = sample_leafs" by (simp add: sample_tree_def)
  then show d: "dom (xtree_map sample_tree) = {XKey 1, XKey 3, XKey 5}"
    unfolding xtree_map_def sample_tree_leaves dom_leaves_map leaf_map_def using a b
    by (simp del: domIff add: insert_commute)
  show "card (dom (xtree_map sample_tree)) = 3" unfolding d by simp
qed

text \<open>C3: a lookup in a well-formed non-empty tree never fails and returns exactly the value the
  leaves hold for the key, or nothing.\<close>

theorem tree_lookup:
  assumes "xtree_inv N t" and "root t \<noteq> NullPtr" and "k \<noteq> top"
  shows "get_impl t k = Inr (xtree_map t k)"
  using assms by (rule get_impl_ok)

theorem tree_lookup_witness:
  "get_impl sample_tree (XKey 3) = Inr (xtree_map sample_tree (XKey 3))"
  by (rule tree_lookup [OF sample_tree_inv]) simp

end
