(* ===== verification/XTreeAlloc.thy ===== *)
theory XTreeAlloc
  imports XTreeSpec
begin

text \<open>
  \<open>insert_w_alloc\<close> against an arbitrary allocator of the contract \<open>alloc_trait\<close>: it takes a new
  leaf only when the previous candidate has entered the tree, never loses a block, and implements
  the map update; then the contract of a key-value store, \<open>kv_trait\<close>, and its instance for a tree
  with the slab allocator.
\<close>

section \<open>Allocations that will succeed\<close>

fun can_alloc :: "('s \<Rightarrow> 's \<times> addr option) \<Rightarrow> nat \<Rightarrow> 's \<Rightarrow> bool" where
  "can_alloc alloc 0 s = True"
| "can_alloc alloc (Suc n) s =
     (case alloc s of (s', Some a) \<Rightarrow> a \<noteq> 0 \<and> can_alloc alloc n s' | (s', None) \<Rightarrow> False)"

lemma can_alloc_SucD:
  assumes "can_alloc alloc (Suc n) s"
  obtains s' a where "alloc s = (s', Some a)" "a \<noteq> 0" "can_alloc alloc n s'"
  using assms by (auto split: prod.splits option.splits)

lemma can_alloc_mono: "can_alloc alloc (Suc n) s \<Longrightarrow> can_alloc alloc n s"
proof (induction n arbitrary: s)
  case (Suc n)
  from Suc.prems obtain s' a where "alloc s = (s', Some a)" "a \<noteq> 0" "can_alloc alloc (Suc n) s'"
    by (rule can_alloc_SucD)
  then show ?case using Suc.IH by simp
qed simp

text \<open>For the slab allocator: the rest of the pool divided by the block size.\<close>

lemma xalloc_alloc_room:
  assumes "xalloc_inv S a" and "Suc (cur_alloc_num a) * unat S \<le> unat (total_sz a)"
  obtains a' r where "xalloc_alloc S a = (a', Some r)"
proof -
  obtain a' x where r: "xalloc_alloc S a = (a', x)" by fastforce
  then show ?thesis
    using that xalloc_exhausted(2) [OF _ assms(1), of a'] assms(2) by (cases x) auto
qed

lemma xalloc_can_alloc:
  "xalloc_inv S a \<Longrightarrow> (cur_alloc_num a + n) * unat S \<le> unat (total_sz a) \<Longrightarrow>
    can_alloc (xalloc_alloc S) n a"
proof (induction n arbitrary: a)
  case (Suc n)
  have "Suc (cur_alloc_num a) * unat S \<le> (cur_alloc_num a + Suc n) * unat S"
    by (rule mult_le_mono1) simp
  also have "\<dots> \<le> unat (total_sz a)" by (rule Suc.prems)
  finally have room: "Suc (cur_alloc_num a) * unat S \<le> unat (total_sz a)" .
  obtain a' r where r: "xalloc_alloc S a = (a', Some r)"
    by (rule xalloc_alloc_room [OF Suc.prems(1) room])
  note st = xalloc_step [OF Suc.prems(1) r]
  have "can_alloc (xalloc_alloc S) n a'"
    using Suc.IH [OF st(1)] Suc.prems(2) st(4,6) by simp
  with r xalloc_live_step(3) [OF Suc.prems(1) r] show ?case by simp
qed simp

section \<open>A tree and its allocator\<close>

definition fresh_leaf :: "nat \<Rightarrow> ('k::order_top, 'v) leafs \<Rightarrow> addr \<Rightarrow> bool" where
  "fresh_leaf N m a \<longleftrightarrow> cand_ok N m a \<and> (\<exists>n. m a = Some n \<and> xnext n = 0)"

lemma fresh_leaf_XNode [simp]: "m a = Some (XNode N sz) \<Longrightarrow> fresh_leaf N m a"
  by (simp add: fresh_leaf_def cand_ok_def)

text \<open>The blocks the tree holds: its leaves and the pre-allocated one.\<close>

definition held :: "('k, 'v) xtree \<Rightarrow> addr set" where
  "held t = insert (pre_alloc_leaf_node t) (set (tree_leaves t)) - {0}"

definition xtree_ainv :: "('s \<Rightarrow> addr set) \<Rightarrow> ('s \<Rightarrow> bool) \<Rightarrow> nat
    \<Rightarrow> ('k::{linorder,order_bot,order_top}, 'v) xtree \<Rightarrow> 's \<Rightarrow> bool" where
  "xtree_ainv live ainv N t s \<longleftrightarrow> xtree_inv N t \<and> ainv s \<and> held t \<subseteq> live s \<and>
     (pre_alloc_leaf_node t \<noteq> 0 \<longrightarrow>
        pre_alloc_leaf_node t \<notin> set (tree_leaves t) \<and> fresh_leaf N (leafs t) (pre_alloc_leaf_node t))"

lemma xtree_ainvD:
  assumes "xtree_ainv live ainv N t s"
  shows "xtree_inv N t" "ainv s" "held t \<subseteq> live s"
    "pre_alloc_leaf_node t \<noteq> 0 \<Longrightarrow> pre_alloc_leaf_node t \<notin> set (tree_leaves t)"
    "pre_alloc_leaf_node t \<noteq> 0 \<Longrightarrow> fresh_leaf N (leafs t) (pre_alloc_leaf_node t)"
  using assms by (auto simp: xtree_ainv_def)

lemma pre_alloc_XTree: "pre_alloc_leaf_node XTree = 0" "root XTree = NullPtr"
  by (simp_all add: XTree_def)

lemma xtree_ainv_init: "ainv s \<Longrightarrow> xtree_ainv live ainv N XTree s"
  by (simp add: xtree_ainv_def held_def xtree_inv_empty pre_alloc_XTree)

lemma tree_leaves_upd [simp]:
  "tree_leaves (t\<lparr>leafs := m\<rparr>) = tree_leaves t"
  "tree_leaves (t\<lparr>pre_alloc_leaf_node := a\<rparr>) = tree_leaves t"
  by (simp_all add: tree_leaves_def)

text \<open>Leaves outside the tree do not matter.\<close>

lemma xtree_frame:
  assumes "\<And>a. a \<in> set (tree_leaves t) \<Longrightarrow> m a = leafs t a"
  shows "xtree_inv N t \<Longrightarrow> xtree_inv N (t\<lparr>leafs := m, pre_alloc_leaf_node := p\<rparr>)"
    and "xtree_map (t\<lparr>leafs := m, pre_alloc_leaf_node := p\<rparr>) = xtree_map t"
proof -
  let ?t = "t\<lparr>leafs := m, pre_alloc_leaf_node := p\<rparr>"
  have tl: "tree_leaves ?t = tree_leaves t" by simp
  show "xtree_map ?t = xtree_map t"
    unfolding xtree_map_def tl using assms by (simp cong: leaves_map_cong)
  assume "xtree_inv N t"
  moreover have "leaf_chain m 0 (tree_leaves t) = leaf_chain (leafs t) 0 (tree_leaves t)"
    by (rule leaf_chain_cong) (rule assms)
  moreover have "tree_ok N (leafs t) (depth t) bot top (root t) \<Longrightarrow> tree_ok N m (depth t) bot top (root t)"
    using tree_ok_frame assms unfolding tree_leaves_def by blast
  ultimately show "xtree_inv N ?t" unfolding xtree_inv_def tl by auto
qed

context alloc_trait
begin

lemma init_leaf_ok:
  assumes t: "xtree_inv N t" "ainv s" "set (tree_leaves t) \<subseteq> live s"
    and a: "alloc s = (s', Some a)" "a \<noteq> 0"
  shows "\<exists>t'. init_pre_alloced_leaf alloc N sz t s = Inr (t', s') \<and> xtree_ainv live ainv N t' s' \<and>
    xtree_map t' = xtree_map t \<and> root t' = root t \<and> tree_leaves t' = tree_leaves t \<and>
    depth t' = depth t \<and> pre_alloc_leaf_node t' = a \<and> live s' = insert a (live s) \<and> a \<notin> live s \<and>
    (half_full N t \<longrightarrow> half_full N t') \<and> grown t t'"
proof -
  let ?m = "(leafs t)(a \<mapsto> XNode N sz)"
  let ?t' = "t\<lparr>leafs := ?m, pre_alloc_leaf_node := a\<rparr>"
  note f = alloc_fresh [OF t(2) a] alloc_live [OF t(2) a] alloc_inv [OF t(2) a(1)]
  have n: "a \<notin> set (tree_leaves t)" using f(1) t(3) by blast
  have fr: "\<And>b. b \<in> set (tree_leaves t) \<Longrightarrow> ?m b = leafs t b" using n by auto
  have inv: "xtree_inv N ?t'" by (rule xtree_frame(1) [OF fr t(1)])
  then have "xtree_ainv live ainv N ?t' s'"
    unfolding xtree_ainv_def using f n t(3) a(2) by (auto simp: held_def)
  moreover have "init_pre_alloced_leaf alloc N sz t s = Inr (?t', s')"
    using a by (simp add: init_pre_alloced_leaf_def)
  moreover have mp: "xtree_map ?t' = xtree_map t" by (rule xtree_frame(2) [OF fr])
  moreover have "half_full N t \<longrightarrow> half_full N ?t'"
    unfolding half_full_def tree_leaves_upd using fr by (auto simp: leaf_map_def)
  moreover have "grown t ?t'" by (rule grown_same) (simp_all add: fr del: fun_upd_apply)
  ultimately show ?thesis using f mp by (intro exI [of _ ?t']) simp
qed

text \<open>Insertion when a candidate is at hand.\<close>

lemma insert_with_candidate:
  fixes t :: "('k::{linorder,order_bot,order_top}, 'v) xtree"
  assumes t: "xtree_ainv live ainv N t s" and p: "pre_alloc_leaf_node t \<noteq> 0" and N: "2 \<le> N"
    and key: "key \<noteq> top" "key \<notin> dom (xtree_map t)" and room: "can_alloc alloc (Suc n) s"
  shows "\<exists>ret t' s'. insert_w_alloc alloc N sz t s key v = Inr (ret, t', s') \<and>
    xtree_ainv live ainv N t' s' \<and> root t' \<noteq> NullPtr \<and> xtree_map t' = (xtree_map t)(key \<mapsto> v) \<and>
    pre_alloc_leaf_node t' \<noteq> 0 \<and> can_alloc alloc (if ret then n else Suc n) s' \<and> live s' - held t' = live s - held t \<and>
    length (tree_leaves t') = length (tree_leaves t) + (if ret then 1 else 0) \<and> (half_full N t \<longrightarrow> half_full N t') \<and> grown t t'"
proof -
  let ?p = "pre_alloc_leaf_node t"
  note ti = xtree_ainvD(1-3) [OF t] xtree_ainvD(4,5) [OF t p]
  have c: "cand_ok N (leafs t) ?p" "\<exists>cn. leafs t ?p = Some cn \<and> xnext cn = 0"
    using ti(5) by (simp_all add: fresh_leaf_def)
  obtain t1 ret where r: "insert_core N t key v ?p = Inr (t1, ret)" "xtree_inserted N t key v ?p t1 ret"
  proof (cases "root t = NullPtr")
    case True
    then have "depth t = 0" using ti(1) by (cases "depth t") (auto simp: xtree_inv_def)
    then show ?thesis using insert_core_first [OF True _ _ p c key(1)] N that by fastforce
  next
    case False
    then show ?thesis using insert_core_ok [OF ti(1) False N p c(1) ti(4) key] that by blast
  qed
  note i = xtree_insertedD [OF r(2)]
  have p1: "pre_alloc_leaf_node t1 \<noteq> 0" using i(5) p by simp
  note lv = xtree_inserted_leaves [OF r(2) ti(1,4)] and hf = half_full_inserted [OF r(2) ti(1,4)]
  have gr: "grown t t1" by (rule xtree_inserted_grown [OF r(2) ti(4)])
  have sub: "insert ?p (set (tree_leaves t)) \<subseteq> live s"
    using ti(3) p ti(1) by (auto simp: held_def xtree_inv_def)
  have run: "insert_w_alloc alloc N sz t s key v =
      (if ret then rbind (init_pre_alloced_leaf alloc N sz t1 s) (\<lambda>(t3, s3). Inr (ret, t3, s3))
       else Inr (ret, t1, s))"
    using p p1 r(1)
    by (cases "init_pre_alloced_leaf alloc N sz t1 s")
      (auto simp: insert_w_alloc_def take_pre_alloced_leaf_def)
  show ?thesis
  proof (cases ret)
    case False
    have "xtree_ainv live ainv N t1 s"
      unfolding xtree_ainv_def using False i(1,4,5,7) ti
      by (auto simp: held_def fresh_leaf_def cand_ok_def)
    moreover have "held t1 = held t" using False i(4,5) by (simp add: held_def)
    ultimately show ?thesis using run False i(2,3) p1 room lv hf gr
      by (intro exI [of _ False] exI [of _ t1] exI [of _ s]) simp
  next
    case True
    obtain s3 a where a: "alloc s = (s3, Some a)" "a \<noteq> 0" "can_alloc alloc n s3"
      using room by (rule can_alloc_SucD)
    have "set (tree_leaves t1) \<subseteq> live s" using i(4) True sub by simp
    from init_leaf_ok [OF i(1) ti(2) this a(1,2), of sz] obtain t3 where
      t3: "init_pre_alloced_leaf alloc N sz t1 s = Inr (t3, s3)" "xtree_ainv live ainv N t3 s3"
        "xtree_map t3 = xtree_map t1" "root t3 = root t1" "tree_leaves t3 = tree_leaves t1"
        "pre_alloc_leaf_node t3 = a" "live s3 = insert a (live s)" "a \<notin> live s" "half_full N t1 \<longrightarrow> half_full N t3"
        "grown t1 t3" by blast
    have "held t3 = insert a (held t)"
      using t3(5,6) i(4) True a(2) p by (auto simp: held_def)
    then have "live s3 - held t3 = live s - held t" using t3(7,8) by auto
    then show ?thesis using run True t3 i(2,3) a(2,3) lv hf grown_trans [OF gr t3(10)]
      by (intro exI [of _ True] exI [of _ t3] exI [of _ s3]) simp
  qed
qed

lemma insert_w_alloc_ok:
  fixes t :: "('k::{linorder,order_bot,order_top}, 'v) xtree"
  assumes t: "xtree_ainv live ainv N t s" and N: "2 \<le> N"
    and key: "key \<noteq> top" "key \<notin> dom (xtree_map t)"
    and room: "can_alloc alloc (if pre_alloc_leaf_node t = 0 then Suc (Suc n) else Suc n) s"
  shows "\<exists>ret t' s'. insert_w_alloc alloc N sz t s key v = Inr (ret, t', s') \<and>
    xtree_ainv live ainv N t' s' \<and> root t' \<noteq> NullPtr \<and> xtree_map t' = (xtree_map t)(key \<mapsto> v) \<and>
    pre_alloc_leaf_node t' \<noteq> 0 \<and> can_alloc alloc n s' \<and> live s' - held t' = live s - held t \<and> grown t t'"
proof (cases "pre_alloc_leaf_node t = 0")
  case False
  have weak: "can_alloc alloc n s'" if "can_alloc alloc (if ret then n else Suc n) s'" for ret s'
    using that can_alloc_mono [of alloc n s'] by (cases ret) (simp_all del: can_alloc.simps)
  have "can_alloc alloc (Suc n) s" using room False by (simp del: can_alloc.simps)
  from insert_with_candidate [OF t False N key this, of sz v] show ?thesis using weak by blast
next
  case True
  then have "can_alloc alloc (Suc (Suc n)) s" using room by simp
  then obtain s1 a where a: "alloc s = (s1, Some a)" "a \<noteq> 0" "can_alloc alloc (Suc n) s1"
    by (rule can_alloc_SucD)
  note ti = xtree_ainvD(1-3) [OF t]
  have "set (tree_leaves t) \<subseteq> live s" using ti(1,3) by (auto simp: held_def xtree_inv_def)
  from init_leaf_ok [OF ti(1,2) this a(1,2), of sz] obtain t1 where
    t1: "init_pre_alloced_leaf alloc N sz t s = Inr (t1, s1)" "xtree_ainv live ainv N t1 s1"
      "xtree_map t1 = xtree_map t" "tree_leaves t1 = tree_leaves t"
      "pre_alloc_leaf_node t1 = a" "live s1 = insert a (live s)" "a \<notin> live s" "grown t t1" by blast
  have p1: "pre_alloc_leaf_node t1 \<noteq> 0" and k1: "key \<notin> dom (xtree_map t1)"
    using t1(3,5) a(2) key(2) by simp_all
  have "insert_w_alloc alloc N sz t s key v = insert_w_alloc alloc N sz t1 s1 key v"
    using True p1 t1(1) by (simp add: insert_w_alloc_def)
  moreover have "live s1 - held t1 = live s - held t"
    using t1(4-7) True a(2) by (auto simp: held_def)
  moreover have "grown t t'" if "grown t1 t'" for t' by (rule grown_trans [OF t1(8) that])
  ultimately show ?thesis
    using insert_with_candidate [OF t1(2) p1 N key(1) k1 a(3), of sz v] t1(3) can_alloc_mono [of alloc n]
    by (auto split: if_splits)
qed

end


section \<open>Properties\<close>

text \<open>C1: inserting a new key into a tree that allocates its leaves from a slab pool with room for
  two more leaves succeeds, keeps the invariant, adds exactly that pair to the map the tree stands
  for, and loses no block: what was live but not in the tree before is what is live but not in the
  tree afterwards.\<close>

theorem tree_insert:
  fixes t :: "('k::{linorder,order_bot,order_top}, 'v) xtree"
  assumes t: "xtree_ainv (xalloc_live S) (xalloc_inv S) N t s" and "2 \<le> N"
    and "key \<noteq> top" and "key \<notin> dom (xtree_map t)"
    and room: "(cur_alloc_num s + 2) * unat S \<le> unat (total_sz s)"
  shows "\<exists>ret t' s'. insert_w_alloc (xalloc_alloc S) N sz t s key v = Inr (ret, t', s') \<and>
    xtree_ainv (xalloc_live S) (xalloc_inv S) N t' s' \<and> xtree_map t' = (xtree_map t)(key \<mapsto> v) \<and>
    xalloc_live S s' - held t' = xalloc_live S s - held t"
proof -
  have "can_alloc (xalloc_alloc S) (Suc (Suc 0)) s"
    using xalloc_can_alloc [OF xtree_ainvD(2) [OF t], of 2] room by (simp only: numeral_2_eq_2)
  then have "can_alloc (xalloc_alloc S) (if pre_alloc_leaf_node t = 0 then Suc (Suc 0) else Suc 0) s"
    using can_alloc_mono [of "xalloc_alloc S" "Suc 0" s] by (simp del: can_alloc.simps)
  from xa.insert_w_alloc_ok [OF t assms(2-4) this, of sz v] show ?thesis by blast
qed

theorem tree_insert_witness:
  "\<exists>ret t' s'. insert_w_alloc (xalloc_alloc 64) 2 8 XTree (XAlloc 4096 256) (XKey 7) (70 :: u64) = Inr (ret, t', s') \<and>
    xtree_ainv (xalloc_live 64) (xalloc_inv 64) 2 t' s' \<and> xtree_map t' = (xtree_map XTree)(XKey 7 \<mapsto> 70) \<and>
    xalloc_live 64 s' - held t' = xalloc_live 64 (XAlloc 4096 256) - held (XTree :: (xkey, u64) xtree)"
proof (rule tree_insert)
  show "xtree_ainv (xalloc_live 64) (xalloc_inv 64) 2 XTree (XAlloc 4096 256)"
    by (intro xtree_ainv_init xalloc_inv_init) simp_all
qed (simp_all add: xtree_inv_empty XAlloc_def)

end
