(* ===== verification/XIter.thy ===== *)
theory XIter
  imports XTreeAlloc KVTrait
begin

text \<open>
  The iterators over a tree (\<^verbatim>\<open>xtree/iter.hh\<close>, \<^verbatim>\<open>sorted_iter.hh\<close>, \<^verbatim>\<open>page_iter.hh\<close>): each keeps a
  snapshot of the keys of one leaf and follows the next pointers. \<open>XTreeIter\<close> visits the slots of a
  leaf in slot order, \<open>XTreeSIter\<close> sorts the snapshot, and \<open>XTreePageIter\<close> visits the leaves.
  The lemmas show that the first two visit every key of the tree once, and that the sorted one does
  so in increasing order with the rank of the key as its opaque value.
\<close>

section \<open>State\<close>

record 'k xtree_iter =
  cur_node :: "'k xnode_keys option"
  cur_node_ptr :: addr
  next_ptr :: addr
  iidx :: nat
  counter :: u64

definition iter_init :: "'k xtree_iter" where
  "iter_init = \<lparr>cur_node = None, cur_node_ptr = 0, next_ptr = 0, iidx = 0, counter = 0\<rparr>"

text \<open>
  \<^verbatim>\<open>seek_idx\<close>: skip the free slots. \<^verbatim>\<open>cur_node.value()\<close> of an empty option aborts.
\<close>

function seek_idx :: "nat \<Rightarrow> 'k::order_top xtree_iter \<Rightarrow> 'k xtree_iter res" where
  "seek_idx N it =
     (if iidx it < N then
        (case cur_node it of
           None \<Rightarrow> Inl BadOption
         | Some ks \<Rightarrow>
             if keys_get_key ks (iidx it) = top then seek_idx N (it\<lparr>iidx := iidx it + 1\<rparr>) else Inr it)
      else Inr it)"
  by pat_completeness auto
termination
  by (relation "measure (\<lambda>(N, it). N - iidx it)") auto

declare seek_idx.simps [simp del]

section \<open>Reading a leaf\<close>

definition titer_read_from :: "('k, 'v) leafs \<Rightarrow> addr \<Rightarrow> 'k xtree_iter \<Rightarrow> 'k xtree_iter res" where
  "titer_read_from m node it =
     (if node \<noteq> 0 then
        (case m node of
           None \<Rightarrow> Inl NullDeref
         | Some n \<Rightarrow>
             let it1 = it\<lparr>next_ptr := xnext n\<rparr>;
                 it2 = it1\<lparr>cur_node := Some (xkeys n)\<rparr>
             in Inr (it2\<lparr>cur_node_ptr := node\<rparr>))
      else Inr (it\<lparr>cur_node := None, cur_node_ptr := 0\<rparr>))"

text \<open>
  The sorted iterator overwrites the keys of its snapshot with the sorted ones; the snapshot itself
  (its incarnation) is taken from the leaf only when there was none.
\<close>

definition siter_read_from :: "('k::linorder, 'v) leafs \<Rightarrow> addr \<Rightarrow> 'k xtree_iter \<Rightarrow> 'k xtree_iter res" where
  "siter_read_from m node it =
     (if node \<noteq> 0 then
        (case m node of
           None \<Rightarrow> Inl NullDeref
         | Some n \<Rightarrow>
             let it1 = it\<lparr>next_ptr := xnext n\<rparr>;
                 temp_keys = sort (keys (xkeys n));
                 cn = (case cur_node it1 of None \<Rightarrow> xkeys n | Some c \<Rightarrow> c);
                 it2 = it1\<lparr>cur_node := Some (cn\<lparr>keys := temp_keys\<rparr>)\<rparr>
             in Inr (it2\<lparr>cur_node_ptr := node\<rparr>))
      else Inr (it\<lparr>cur_node := None, cur_node_ptr := 0\<rparr>))"

section \<open>The two key iterators\<close>

text \<open>
  The other operations of \<open>XTreeIter\<close> and \<open>XTreeSIter\<close> are the same code over their own
  \<^verbatim>\<open>read_from\<close>, which is the parameter \<open>read\<close> here.
\<close>

definition iter_has_next :: "'k xtree_iter \<Rightarrow> bool" where
  "iter_has_next it \<longleftrightarrow> cur_node it \<noteq> None"

definition iter_cur_key :: "'k xtree_iter \<Rightarrow> 'k res" where
  "iter_cur_key it =
     rbind (opt_value (cur_node it)) (\<lambda>ks.
     if iidx it < length (keys ks) then Inr (keys_get_key ks (iidx it)) else Inl OutOfRange)"

definition iter_opaque_val :: "'k xtree_iter \<Rightarrow> u64" where
  "iter_opaque_val it = counter it"

definition iter_next :: "(addr \<Rightarrow> 'k xtree_iter \<Rightarrow> 'k xtree_iter res) \<Rightarrow> nat
    \<Rightarrow> 'k::order_top xtree_iter \<Rightarrow> 'k xtree_iter res" where
  "iter_next read N it =
     rbind (seek_idx N (it\<lparr>iidx := iidx it + 1\<rparr>)) (\<lambda>it1.
     if iidx it1 \<noteq> N then Inr (it1\<lparr>counter := counter it1 + 1\<rparr>)
     else
       rbind (read (next_ptr it1) it1) (\<lambda>it2.
       if iter_has_next it2 then
         rbind (seek_idx N (it2\<lparr>iidx := 0\<rparr>)) (\<lambda>it3. Inr (it3\<lparr>counter := counter it3 + 1\<rparr>))
       else Inr it2))"

definition iter_seek :: "(addr \<Rightarrow> 'k xtree_iter \<Rightarrow> 'k xtree_iter res) \<Rightarrow> nat
    \<Rightarrow> 'k::{linorder,order_top} xtree_iter \<Rightarrow> ('k, 'v) xtree \<Rightarrow> 'k \<Rightarrow> 'k xtree_iter res" where
  "iter_seek read N it t k =
     rbind (find_leaf t k) (\<lambda>node.
     rbind (read node it) (\<lambda>it1.
     rbind (seek_idx N (it1\<lparr>counter := 0, iidx := 0\<rparr>)) (\<lambda>it2.
     rbind (cassert (iidx it2 \<noteq> N)) (\<lambda>_. Inr it2))))"

definition XTreeIter :: "nat \<Rightarrow> ('k::{linorder,order_bot,order_top}, 'v) xtree \<Rightarrow> 'k xtree_iter res" where
  "XTreeIter N t = iter_seek (titer_read_from (leafs t)) N iter_init t bot"

definition XTreeSIter :: "nat \<Rightarrow> ('k::{linorder,order_bot,order_top}, 'v) xtree \<Rightarrow> 'k xtree_iter res" where
  "XTreeSIter N t = iter_seek (siter_read_from (leafs t)) N iter_init t bot"

definition titer_next :: "nat \<Rightarrow> ('k::order_top, 'v) xtree \<Rightarrow> 'k xtree_iter \<Rightarrow> 'k xtree_iter res" where
  "titer_next N t it = iter_next (titer_read_from (leafs t)) N it"

definition siter_next :: "nat \<Rightarrow> ('k::{linorder,order_top}, 'v) xtree \<Rightarrow> 'k xtree_iter \<Rightarrow> 'k xtree_iter res" where
  "siter_next N t it = iter_next (siter_read_from (leafs t)) N it"

definition titer_seek :: "nat \<Rightarrow> ('k::{linorder,order_top}, 'v) xtree \<Rightarrow> 'k xtree_iter \<Rightarrow> 'k
    \<Rightarrow> 'k xtree_iter res" where
  "titer_seek N t it k = iter_seek (titer_read_from (leafs t)) N it t k"

definition siter_seek :: "nat \<Rightarrow> ('k::{linorder,order_top}, 'v) xtree \<Rightarrow> 'k xtree_iter \<Rightarrow> 'k
    \<Rightarrow> 'k xtree_iter res" where
  "siter_seek N t it k = iter_seek (siter_read_from (leafs t)) N it t k"

section \<open>The page iterator\<close>

record 'k page_iter =
  pcur_node :: "'k xnode_keys option"
  pcur_node_ptr :: addr
  logic_page_id :: nat

definition page_iter_init :: "'k page_iter" where
  "page_iter_init = \<lparr>pcur_node = None, pcur_node_ptr = 0, logic_page_id = 0\<rparr>"

definition piter_read_from :: "('k, 'v) leafs \<Rightarrow> addr \<Rightarrow> 'k page_iter \<Rightarrow> 'k page_iter res" where
  "piter_read_from m node it =
     (if node \<noteq> 0 then
        (case m node of None \<Rightarrow> Inl NullDeref | Some n \<Rightarrow> Inr (it\<lparr>pcur_node := Some (xkeys n)\<rparr>))
      else Inr it)"

definition piter_next :: "('k, 'v) leafs \<Rightarrow> 'k page_iter \<Rightarrow> 'k page_iter res" where
  "piter_next m it =
     (if pcur_node_ptr it \<noteq> 0 then
        (case m (pcur_node_ptr it) of
           None \<Rightarrow> Inl NullDeref
         | Some n \<Rightarrow>
             let it1 = it\<lparr>pcur_node_ptr := xnext n, logic_page_id := logic_page_id it + 1\<rparr>
             in piter_read_from m (pcur_node_ptr it1) it1)
      else Inr it)"

definition piter_has_next :: "'k page_iter \<Rightarrow> bool" where
  "piter_has_next it \<longleftrightarrow> pcur_node_ptr it \<noteq> 0"

text \<open>\<^verbatim>\<open>KeyType(logic_page_id)\<close>; \<open>of_u64\<close> is that constructor.\<close>

definition piter_cur_key :: "(u64 \<Rightarrow> 'k) \<Rightarrow> 'k page_iter \<Rightarrow> 'k" where
  "piter_cur_key of_u64 it = of_u64 (of_nat (logic_page_id it))"

definition piter_opaque_val :: "'k page_iter \<Rightarrow> u64" where
  "piter_opaque_val it = pcur_node_ptr it"

definition piter_seek :: "('k::linorder, 'v) xtree \<Rightarrow> 'k page_iter \<Rightarrow> 'k \<Rightarrow> 'k page_iter res" where
  "piter_seek t it k =
     rbind (find_leaf t k) (\<lambda>node.
     let it1 = it\<lparr>pcur_node_ptr := node, logic_page_id := 0\<rparr>
     in piter_read_from (leafs t) (pcur_node_ptr it1) it1)"

definition XTreePageIter :: "('k::{linorder,order_bot}, 'v) xtree \<Rightarrow> 'k page_iter res" where
  "XTreePageIter t = piter_seek t page_iter_init bot"

section \<open>Skipping free slots\<close>

text \<open>\<open>seek_idx\<close> stops at the first used slot from the current one on, or at \<open>N\<close>.\<close>

lemma seek_idx_spec:
  assumes "cur_node it = Some ks" and "length (keys ks) = N" and "iidx it \<le> N"
  shows "\<exists>j. seek_idx N it = Inr (it\<lparr>iidx := j\<rparr>) \<and> iidx it \<le> j \<and> j \<le> N \<and>
    (\<forall>l. iidx it \<le> l \<longrightarrow> l < j \<longrightarrow> keys ks ! l = top) \<and> (j < N \<longrightarrow> keys ks ! j \<noteq> top)"
  using assms(1,3)
proof (induction "N - iidx it" arbitrary: it)
  case 0
  then have "iidx it = N" by simp
  then show ?case by (intro exI [of _ N]) (simp add: seek_idx.simps [of N it])
next
  case (Suc x)
  then have lt: "iidx it < N" by simp
  show ?case
  proof (cases "keys ks ! iidx it = top")
    case False
    then show ?thesis using lt Suc.prems(1)
      by (intro exI [of _ "iidx it"]) (simp add: seek_idx.simps [of N it] keys_get_key_def)
  next
    case True
    let ?it = "it\<lparr>iidx := iidx it + 1\<rparr>"
    have "x = N - iidx ?it" "cur_node ?it = Some ks" "iidx ?it \<le> N" using Suc lt by simp_all
    from Suc.hyps(1) [OF this] obtain j where j: "seek_idx N ?it = Inr (?it\<lparr>iidx := j\<rparr>)" "iidx it + 1 \<le> j"
      "j \<le> N" "\<forall>l. iidx it + 1 \<le> l \<longrightarrow> l < j \<longrightarrow> keys ks ! l = top" "j < N \<longrightarrow> keys ks ! j \<noteq> top"
      by auto
    have "seek_idx N it = Inr (it\<lparr>iidx := j\<rparr>)"
      using lt True Suc.prems(1) j(1) by (simp add: seek_idx.simps [of N it] keys_get_key_def)
    moreover have "\<forall>l. iidx it \<le> l \<longrightarrow> l < j \<longrightarrow> keys ks ! l = top"
    proof (intro allI impI)
      fix l assume "iidx it \<le> l" "l < j"
      then show "keys ks ! l = top" using j(4) True by (cases "l = iidx it") auto
    qed
    ultimately show ?thesis using j(2,3,5) by (intro exI [of _ j]) auto
  qed
qed

text \<open>The used slots from a position on.\<close>

definition used_from :: "nat \<Rightarrow> 'k::order_top list \<Rightarrow> 'k list" where
  "used_from i ks = filter (\<lambda>k. k \<noteq> top) (drop i ks)"

lemma used_from_skip:
  assumes "i \<le> j" and "j \<le> length ks" and "\<forall>l. i \<le> l \<longrightarrow> l < j \<longrightarrow> ks ! l = top"
  shows "used_from i ks = used_from j ks"
proof -
  have "drop i ks = take (j - i) (drop i ks) @ drop j ks"
    using assms(1) by (metis append_take_drop_id drop_drop le_add_diff_inverse2)
  moreover have "filter (\<lambda>k. k \<noteq> top) (take (j - i) (drop i ks)) = []"
    using assms by (auto simp: filter_empty_conv in_set_conv_nth)
  ultimately show ?thesis unfolding used_from_def by (metis filter_append append_Nil)
qed

lemma used_from_Cons: "j < length ks \<Longrightarrow> ks ! j \<noteq> top \<Longrightarrow> used_from j ks = ks ! j # used_from (Suc j) ks"
  unfolding used_from_def by (subst Cons_nth_drop_Suc [symmetric]) auto

lemma used_from_end [simp]: "length ks \<le> i \<Longrightarrow> used_from i ks = []"
  by (simp add: used_from_def)


section \<open>Iterating over the chain of leaves\<close>

definition number :: "u64 \<Rightarrow> 'k list \<Rightarrow> ('k \<times> u64) list" where
  "number c ks = zip ks (map (\<lambda>i. c + of_nat i) [0..<length ks])"

lemma number_simps [simp]:
  "number c [] = []" "number c (k # ks) = (k, c) # number (c + 1) ks"
  by (simp_all add: number_def upt_conv_Cons map_Suc_upt [symmetric] comp_def add.assoc del: upt_Suc)

lemma number_Nil [simp]: "number c ks = [] \<longleftrightarrow> ks = []" "[] = number c ks \<longleftrightarrow> ks = []"
  by (cases ks; simp)+

text \<open>
  \<open>R\<close> is what the snapshot does to the keys of a leaf: nothing, or sorting.
\<close>

definition leaf_used :: "('k::order_top list \<Rightarrow> 'k list) \<Rightarrow> ('k, 'v) leafs \<Rightarrow> addr \<Rightarrow> 'k list" where
  "leaf_used R m a = (case m a of None \<Rightarrow> [] | Some n \<Rightarrow> used_from 0 (R (keys (xkeys n))))"

definition good_leaf :: "nat \<Rightarrow> ('k::order_top, 'v) leafs \<Rightarrow> addr \<Rightarrow> bool" where
  "good_leaf N m a \<longleftrightarrow> a \<noteq> 0 \<and> (\<exists>n. m a = Some n \<and> node_ok N n \<and> node_map n \<noteq> Map.empty)"

text \<open>
  \<open>iter_at\<close>: the iterator stands on a used slot of leaf \<open>a\<close> and the leaves \<open>as\<close> follow.
\<close>

definition iter_at :: "('k::order_top list \<Rightarrow> 'k list) \<Rightarrow> nat \<Rightarrow> ('k, 'v) leafs \<Rightarrow> 'k xtree_iter
    \<Rightarrow> addr \<Rightarrow> addr list \<Rightarrow> bool" where
  "iter_at R N m it a as \<longleftrightarrow>
     (\<exists>ks n. cur_node it = Some ks \<and> cur_node_ptr it = a \<and> m a = Some n \<and>
        keys ks = R (keys (xkeys n)) \<and> length (keys ks) = N \<and>
        iidx it < N \<and> keys ks ! iidx it \<noteq> top \<and> next_ptr it = xnext n \<and>
        leaf_chain m 0 (a # as) \<and> (\<forall>b\<in>set as. good_leaf N m b))"

definition cur_rest :: "'k::order_top xtree_iter \<Rightarrow> 'k list" where
  "cur_rest it = (case cur_node it of None \<Rightarrow> [] | Some ks \<Rightarrow> used_from (iidx it) (keys ks))"

definition iter_rep :: "('k::order_top list \<Rightarrow> 'k list) \<Rightarrow> nat \<Rightarrow> ('k, 'v) leafs \<Rightarrow> 'k xtree_iter
    \<Rightarrow> ('k \<times> u64) list \<Rightarrow> bool" where
  "iter_rep R N m it xs \<longleftrightarrow> cur_node it = None \<and> xs = [] \<or>
     (\<exists>a as. iter_at R N m it a as \<and>
        xs = number (counter it) (cur_rest it @ concat (map (leaf_used R m) as)))"

lemma iter_at_counter [simp]: "iter_at R N m (it\<lparr>counter := q\<rparr>) a as = iter_at R N m it a as"
  "cur_rest (it\<lparr>counter := q\<rparr>) = cur_rest it"
  by (simp_all add: iter_at_def cur_rest_def split: option.split)

locale leaf_reader =
  fixes m :: "('k::{linorder,order_top}, 'v) leafs"
    and read :: "addr \<Rightarrow> 'k xtree_iter \<Rightarrow> 'k xtree_iter res"
    and R :: "'k list \<Rightarrow> 'k list"
  assumes read_null: "read 0 it = Inr (it\<lparr>cur_node := None, cur_node_ptr := 0\<rparr>)"
    and read_leaf: "a \<noteq> 0 \<Longrightarrow> m a = Some n \<Longrightarrow> \<exists>ks. keys ks = R (keys (xkeys n)) \<and>
      read a it = Inr (it\<lparr>next_ptr := xnext n, cur_node := Some ks, cur_node_ptr := a\<rparr>)"
    and R_perm: "mset (R xs) = mset xs"
begin

lemma length_R: "length (R xs) = length xs"
  by (metis R_perm size_mset)

lemma set_R: "set (R xs) = set xs"
  by (metis R_perm set_mset_mset)

text \<open>Reading a leaf with a key and moving to its first used slot.\<close>

lemma enter_leaf:
  assumes g: "good_leaf N m a" and c: "leaf_chain m 0 (a # as)" and as: "\<forall>b\<in>set as. good_leaf N m b"
  shows "\<exists>it1 it2. read a it = Inr it1 \<and> iter_has_next it1 \<and> counter it1 = counter it \<and>
    (\<forall>q. seek_idx N (it1\<lparr>counter := q, iidx := 0\<rparr>) = Inr (it2\<lparr>counter := q\<rparr>)) \<and>
    seek_idx N (it1\<lparr>iidx := 0\<rparr>) = Inr (it2\<lparr>counter := counter it\<rparr>) \<and> iidx it2 < N \<and>
    iter_at R N m it2 a as \<and> cur_rest it2 = leaf_used R m a"
proof -
  obtain n where n: "a \<noteq> 0" "m a = Some n" "node_ok N n" "node_map n \<noteq> Map.empty"
    using g by (auto simp: good_leaf_def)
  obtain ks where ks: "keys ks = R (keys (xkeys n))"
    "read a it = Inr (it\<lparr>next_ptr := xnext n, cur_node := Some ks, cur_node_ptr := a\<rparr>)"
    using read_leaf [OF n(1,2)] by blast
  have len: "length (keys ks) = N" using ks(1) length_R node_okD(1) [OF n(3)] by simp
  let ?it1 = "it\<lparr>next_ptr := xnext n, cur_node := Some ks, cur_node_ptr := a\<rparr>"
  obtain j where j: "j \<le> N" "\<forall>l<j. keys ks ! l = top" "j < N \<longrightarrow> keys ks ! j \<noteq> top"
    using seek_idx_spec [of "?it1\<lparr>iidx := 0\<rparr>" ks N] len by auto
  have sk: "seek_idx N (it'\<lparr>iidx := 0\<rparr>) = Inr (it'\<lparr>iidx := j\<rparr>)" if ck: "cur_node it' = Some ks" for it'
  proof -
    obtain j' where j': "seek_idx N (it'\<lparr>iidx := 0\<rparr>) = Inr (it'\<lparr>iidx := j'\<rparr>)" "j' \<le> N"
      "\<forall>l<j'. keys ks ! l = top" "j' < N \<longrightarrow> keys ks ! j' \<noteq> top"
      using seek_idx_spec [of "it'\<lparr>iidx := 0\<rparr>" ks N] ck len by auto
    have "j' = j" using j j' by (metis linorder_neqE_nat order_less_le_trans)
    with j' show ?thesis by simp
  qed
  obtain k where "k \<in> dom (node_map n)" using n(4) by (metis dom_eq_empty_conv ex_in_conv)
  then have "k \<noteq> top" "k \<in> set (keys ks)"
    using dom_node_map_valid_keys [OF n(3)] by (auto simp: ks(1) set_R valid_keys_def)
  then have jN: "j < N" using j len by (metis in_set_conv_nth le_neq_implies_less)
  have used: "leaf_used R m a = used_from j (keys ks)"
    using used_from_skip [of 0 j "keys ks"] j(1,2) len by (simp add: leaf_used_def n(2) ks(1))
  let ?it2 = "?it1\<lparr>iidx := j\<rparr>"
  have "iter_at R N m ?it2 a as" "cur_rest ?it2 = leaf_used R m a"
    using n(2) ks(1) len jN j(3) c as by (auto simp: iter_at_def cur_rest_def used)
  then show ?thesis using ks(2) sk jN
    by (intro exI [of _ ?it1] exI [of _ ?it2]) (simp add: iter_has_next_def)
qed

text \<open>One step: along the leaf, to the next leaf, or past the last one.\<close>

lemma iter_next_at:
  assumes "iter_at R N m it a as"
  shows "\<exists>it' k. iter_next read N it = Inr it' \<and> hd (cur_rest it) = k \<and>
    (iter_at R N m it' a as \<and> counter it' = counter it + 1 \<and> cur_rest it = k # cur_rest it' \<or>
     cur_rest it = [k] \<and> as = [] \<and> cur_node it' = None \<or>
     (\<exists>b bs. cur_rest it = [k] \<and> as = b # bs \<and> iter_at R N m it' b bs \<and>
        cur_rest it' = leaf_used R m b \<and> counter it' = counter it + 1))"
proof -
  obtain ks n where r: "cur_node it = Some ks" "cur_node_ptr it = a" "m a = Some n"
    "keys ks = R (keys (xkeys n))" "length (keys ks) = N" "iidx it < N" "keys ks ! iidx it \<noteq> top"
    "next_ptr it = xnext n" "leaf_chain m 0 (a # as)" "\<forall>b\<in>set as. good_leaf N m b"
    using assms unfolding iter_at_def by blast
  let ?k = "keys ks ! iidx it"
  obtain j where j: "seek_idx N (it\<lparr>iidx := iidx it + 1\<rparr>) = Inr (it\<lparr>iidx := j\<rparr>)" "Suc (iidx it) \<le> j"
    "j \<le> N" "\<forall>l. Suc (iidx it) \<le> l \<longrightarrow> l < j \<longrightarrow> keys ks ! l = top" "j < N \<longrightarrow> keys ks ! j \<noteq> top"
    using seek_idx_spec [of "it\<lparr>iidx := iidx it + 1\<rparr>" ks N] r(1,5,6) by auto
  have rest: "cur_rest it = ?k # used_from j (keys ks)"
    using used_from_Cons [of "iidx it" "keys ks"] used_from_skip [of "Suc (iidx it)" j "keys ks"]
      j(2-4) r(1,5-7) by (simp add: cur_rest_def)
  show ?thesis
  proof (cases "j = N")
    case False
    let ?it' = "it\<lparr>iidx := j, counter := counter it + 1\<rparr>"
    have "iter_next read N it = Inr ?it'" using j(1) False by (simp add: iter_next_def)
    moreover have "iter_at R N m ?it' a as"
      using r j(3,5) False by (auto simp: iter_at_def)
    moreover have "cur_rest ?it' = used_from j (keys ks)" using r(1) by (simp add: cur_rest_def)
    ultimately show ?thesis using rest by (intro exI [of _ ?it'] exI [of _ ?k]) simp
  next
    case True
    have nx: "xnext n = (case as of [] \<Rightarrow> 0 | b # _ \<Rightarrow> b)" using r(3,9) by simp
    have one: "cur_rest it = [?k]" using rest True r(5) by simp
    show ?thesis
    proof (cases as)
      case Nil
      let ?it' = "(it\<lparr>iidx := N\<rparr>)\<lparr>cur_node := None, cur_node_ptr := 0\<rparr>"
      have "iter_next read N it = Inr ?it'"
        using j(1) True nx Nil r(8) read_null by (simp add: iter_next_def iter_has_next_def)
      then show ?thesis using one Nil by (intro exI [of _ ?it'] exI [of _ ?k]) simp
    next
      case (Cons b bs)
      have "good_leaf N m b" "leaf_chain m 0 (b # bs)" "\<forall>a\<in>set bs. good_leaf N m a"
        using r(9,10) Cons by auto
      from enter_leaf [OF this, of "it\<lparr>iidx := N\<rparr>"] obtain it1 it2 where
        e: "read b (it\<lparr>iidx := N\<rparr>) = Inr it1" "iter_has_next it1"
          "seek_idx N (it1\<lparr>iidx := 0\<rparr>) = Inr (it2\<lparr>counter := counter it\<rparr>)"
          "iter_at R N m it2 b bs" "cur_rest it2 = leaf_used R m b"
        by auto
      have "iter_next read N it = Inr (it2\<lparr>counter := counter it + 1\<rparr>)"
        using j(1) True nx Cons r(8) e(1-3) by (simp add: iter_next_def)
      then show ?thesis using e(4,5) one Cons
        by (intro exI [of _ "it2\<lparr>counter := counter it + 1\<rparr>"] exI [of _ ?k]) simp
    qed
  qed
qed

lemma iter_at_rest: "iter_at R N m it a as \<Longrightarrow> cur_rest it \<noteq> []"
  by (auto simp: iter_at_def cur_rest_def used_from_Cons)

lemma iter_next_rep:
  assumes "iter_rep R N m it (x # xs)"
  shows "\<exists>it'. iter_next read N it = Inr it' \<and> iter_rep R N m it' xs"
proof -
  obtain a as where r: "iter_at R N m it a as"
    "x # xs = number (counter it) (cur_rest it @ concat (map (leaf_used R m) as))"
    using assms unfolding iter_rep_def by blast
  obtain it' k where s: "iter_next read N it = Inr it'"
    "iter_at R N m it' a as \<and> counter it' = counter it + 1 \<and> cur_rest it = k # cur_rest it' \<or>
     cur_rest it = [k] \<and> as = [] \<and> cur_node it' = None \<or>
     (\<exists>b bs. cur_rest it = [k] \<and> as = b # bs \<and> iter_at R N m it' b bs \<and>
        cur_rest it' = leaf_used R m b \<and> counter it' = counter it + 1)"
    using iter_next_at [OF r(1)] by blast
  then have "iter_rep R N m it' xs" using r(2) by (fastforce simp: iter_rep_def)
  with s(1) show ?thesis by blast
qed

lemma iter_cur_at:
  assumes "iter_at R N m it a as"
  shows "iter_has_next it" and "iter_cur_key it = Inr (hd (cur_rest it))" and "cur_node_ptr it = a"
  using assms
  by (auto simp: iter_at_def iter_has_next_def iter_cur_key_def keys_get_key_def cur_rest_def used_from_Cons)

lemma iter_cur_rep:
  assumes "iter_rep R N m it ((k, ov) # xs)"
  shows "iter_has_next it" and "iter_cur_key it = Inr k" and "iter_opaque_val it = ov"
proof -
  obtain a as where r: "iter_at R N m it a as"
    "(k, ov) # xs = number (counter it) (cur_rest it @ concat (map (leaf_used R m) as))"
    using assms unfolding iter_rep_def by blast
  obtain k' ks where "cur_rest it = k' # ks" using iter_at_rest [OF r(1)] by (cases "cur_rest it") auto
  then have "k = hd (cur_rest it)" "ov = counter it" using r(2) by simp_all
  then show "iter_has_next it" "iter_cur_key it = Inr k" "iter_opaque_val it = ov"
    using iter_cur_at [OF r(1)] by (simp_all add: iter_opaque_val_def)
qed

lemma iter_seek_at:
  assumes f: "find_leaf t k = Inr a" and g: "\<forall>b\<in>set (a # as). good_leaf N m b"
    and c: "leaf_chain m 0 (a # as)"
  shows "\<exists>it'. iter_seek read N it t k = Inr it' \<and> iter_at R N m it' a as \<and>
    cur_rest it' = leaf_used R m a \<and> counter it' = 0"
proof -
  have "good_leaf N m a" "\<forall>b\<in>set as. good_leaf N m b" using g by auto
  from enter_leaf [OF this(1) c this(2), of it] obtain it1 it2 where
    e: "read a it = Inr it1" "\<forall>q. seek_idx N (it1\<lparr>counter := q, iidx := 0\<rparr>) = Inr (it2\<lparr>counter := q\<rparr>)"
      "iidx it2 < N" "iter_at R N m it2 a as" "cur_rest it2 = leaf_used R m a"
    by blast
  have "iter_seek read N it t k = Inr (it2\<lparr>counter := 0\<rparr>)"
    using f e(1-3) by (simp add: iter_seek_def)
  then show ?thesis using e(4,5) by simp
qed

lemma iter_seek_rep:
  assumes f: "find_leaf t k = Inr a" and g: "\<forall>b\<in>set (a # as). good_leaf N m b"
    and c: "leaf_chain m 0 (a # as)"
  shows "\<exists>it'. iter_seek read N it t k = Inr it' \<and>
    iter_rep R N m it' (number 0 (concat (map (leaf_used R m) (a # as))))"
proof -
  obtain it' where "iter_seek read N it t k = Inr it'" "iter_at R N m it' a as"
    "cur_rest it' = leaf_used R m a" "counter it' = 0"
    using iter_seek_at [OF assms] by blast
  then show ?thesis unfolding iter_rep_def by fastforce
qed

end

interpretation titer: leaf_reader m "titer_read_from m" "\<lambda>ks. ks"
  for m :: "('k::{linorder,order_top}, 'v) leafs"
  by unfold_locales (auto simp: titer_read_from_def Let_def)

interpretation siter: leaf_reader m "siter_read_from m" sort
  for m :: "('k::{linorder,order_top}, 'v) leafs"
proof unfold_locales
  fix a n and it :: "'k xtree_iter"
  assume "a \<noteq> 0" "m a = Some n"
  then have "siter_read_from m a it = Inr (it\<lparr>next_ptr := xnext n, cur_node :=
      Some ((case cur_node it of None \<Rightarrow> xkeys n | Some c \<Rightarrow> c)\<lparr>keys := sort (keys (xkeys n))\<rparr>),
      cur_node_ptr := a\<rparr>)"
    by (cases "cur_node it") (simp_all add: siter_read_from_def Let_def)
  then show "\<exists>ks. keys ks = sort (keys (xkeys n)) \<and> siter_read_from m a it =
      Inr (it\<lparr>next_ptr := xnext n, cur_node := Some ks, cur_node_ptr := a\<rparr>)"
    by (intro exI [of _ "(case cur_node it of None \<Rightarrow> xkeys n | Some c \<Rightarrow> c)
      \<lparr>keys := sort (keys (xkeys n))\<rparr>"]) simp
qed (auto simp: siter_read_from_def)


section \<open>A whole tree\<close>

lemma good_leaves:
  assumes "xtree_inv N t" and "root t \<noteq> NullPtr" and "a \<in> set (tree_leaves t)"
  shows "good_leaf N (leafs t) a"
proof -
  have "tree_ok N (leafs t) (depth t) bot top (root t)" using assms(1,2) by (simp add: xtree_inv_def)
  from tree_ok_leaf [OF this] have "\<exists>n. leafs t a = Some n \<and> node_ok N n \<and> node_map n \<noteq> Map.empty"
    using assms(3) by (simp add: tree_leaves_def)
  moreover have "a \<noteq> 0" using assms(1,3) by (auto simp: xtree_inv_def)
  ultimately show ?thesis by (auto simp: good_leaf_def)
qed

text \<open>Searching for the least key ends in the first leaf.\<close>

lemma find_leaf_at:
  fixes t :: "('k::{linorder,order_bot,order_top}, 'v) xtree"
  assumes inv: "xtree_inv N t" and ne: "root t \<noteq> NullPtr"
  shows "\<exists>a as1 as2. find_leaf t k = Inr a \<and> tree_leaves t = as1 @ a # as2 \<and>
    (\<forall>x\<in>dom (leaves_map (leafs t) as1). x < k) \<and> (\<forall>x\<in>dom (leaves_map (leafs t) as2). k < x)"
proof -
  have t: "tree_ok N (leafs t) (depth t) bot top (root t)" using inv ne by (simp add: xtree_inv_def)
  show ?thesis
  proof (cases "k = top")
    case True
    then obtain a as where a: "find_leaf t k = Inr a" "tree_leaves t = as @ [a]"
      using find_leaf_past [OF t, of k] unfolding find_leaf_def tree_leaves_def by auto
    have "dom (leaves_map (leafs t) as) \<subseteq> dom (xtree_map t)"
      by (simp add: xtree_map_def a(2) leaves_map_append)
    then have "\<forall>x\<in>dom (leaves_map (leafs t) as). x < k"
      using tree_ok_dom [OF t] True by (fastforce simp: xtree_map_def tree_leaves_def)
    then show ?thesis using a by (intro exI [of _ a] exI [of _ as] exI [of _ "[]"]) simp
  next
    case False
    then have "k < top" by (simp add: top.not_eq_extremum)
    from find_leaf_from_ok [OF t bot_least this] show ?thesis
      unfolding find_leaf_def tree_leaves_def by blast
  qed
qed

lemma find_leaf_bot:
  fixes t :: "('k::{linorder,order_bot,order_top}, 'v) xtree"
  assumes inv: "xtree_inv N t" and ne: "root t \<noteq> NullPtr"
  shows "\<exists>a as. find_leaf t bot = Inr a \<and> tree_leaves t = a # as"
proof -
  from find_leaf_at [OF inv ne, of bot] obtain a as1 as2 where a: "find_leaf t bot = Inr a"
    "tree_leaves t = as1 @ a # as2" "\<forall>x\<in>dom (leaves_map (leafs t) as1). x < bot" by blast
  have "as1 = []"
  proof (rule ccontr)
    assume "as1 \<noteq> []"
    then obtain b where b: "b \<in> set as1" by (cases as1) auto
    then have "good_leaf N (leafs t) b" using good_leaves [OF inv ne] a(2) by simp
    then obtain n where n: "leafs t b = Some n" "node_map n \<noteq> Map.empty" by (auto simp: good_leaf_def)
    then obtain x where "x \<in> dom (node_map n)" by (metis dom_eq_empty_conv ex_in_conv)
    then have "x \<in> dom (leaf_map (leafs t) b)" by (simp add: leaf_map_def n(1))
    then have "x < bot" using a(3) leaf_map_subset [OF b, of "leafs t"] by (meson subsetD)
    then show False by simp
  qed
  with a show ?thesis by simp
qed

lemma leaf_used_sorted:
  assumes "good_leaf N (m :: ('k::{linorder,order_top}, 'v) leafs) a"
  shows "sorted_wrt (<) (leaf_used sort m a)" and "set (leaf_used sort m a) = dom (leaf_map m a)"
    and "distinct (leaf_used (\<lambda>ks. ks) m a)" and "set (leaf_used (\<lambda>ks. ks) m a) = dom (leaf_map m a)"
proof -
  obtain n where n: "m a = Some n" "node_ok N n" using assms by (auto simp: good_leaf_def)
  let ?ks = "keys (xkeys n)"
  have s: "leaf_used sort m a = sort (filter (\<lambda>k. k \<noteq> top) ?ks)"
    by (simp add: leaf_used_def n(1) used_from_def filter_sort)
  have i: "leaf_used (\<lambda>ks. ks) m a = filter (\<lambda>k. k \<noteq> top) ?ks"
    by (simp add: leaf_used_def n(1) used_from_def)
  have d: "distinct (filter (\<lambda>k. k \<noteq> top) ?ks)"
    using node_okD(1,4) [OF n(2)] by (intro distinct_filter_nth) simp
  have dm: "dom (leaf_map m a) = {k \<in> set ?ks. k \<noteq> top}"
    using dom_node_map_valid_keys [OF n(2)] by (auto simp: leaf_map_def n(1) valid_keys_def)
  show "sorted_wrt (<) (leaf_used sort m a)" unfolding s using d by (simp add: strict_sorted_iff)
  show "set (leaf_used sort m a) = dom (leaf_map m a)" unfolding s dm by auto
  show "distinct (leaf_used (\<lambda>ks. ks) m a)" unfolding i by (rule d)
  show "set (leaf_used (\<lambda>ks. ks) m a) = dom (leaf_map m a)" unfolding i dm by auto
qed

lemma sorted_iter_keys:
  assumes inv: "xtree_inv N t" and ne: "root t \<noteq> NullPtr"
  shows "concat (map (leaf_used sort (leafs t)) (tree_leaves t)) = sorted_list_of_set (dom (xtree_map t))"
    and "finite (dom (xtree_map t))"
proof -
  have t: "tree_ok N (leafs t) (depth t) bot top (root t)" using inv ne by (simp add: xtree_inv_def)
  show fin: "finite (dom (xtree_map t))"
    using finite_leaf_map [OF t] by (simp add: xtree_map_def tree_leaves_def)
  have "sorted_wrt (keys_before (leafs t)) (tree_leaves t)"
    using tree_leaves_sorted [OF t] by (simp add: tree_leaves_def)
  from concat_sorted_keys [OF this, of "leaf_used sort (leafs t)"]
  have "sorted_wrt (<) (concat (map (leaf_used sort (leafs t)) (tree_leaves t)))"
    "set (concat (map (leaf_used sort (leafs t)) (tree_leaves t))) = dom (xtree_map t)"
    using leaf_used_sorted(1,2) good_leaves [OF inv ne] unfolding xtree_map_def by blast+
  then show "concat (map (leaf_used sort (leafs t)) (tree_leaves t)) = sorted_list_of_set (dom (xtree_map t))"
    using fin by (metis sorted_list_of_set.idem_if_sorted_distinct strict_sorted_iff)
qed

lemma XTreeSIter_rep:
  assumes inv: "xtree_inv N t" and ne: "root t \<noteq> NullPtr"
  shows "\<exists>it. XTreeSIter N t = Inr it \<and>
    iter_rep sort N (leafs t) it (number 0 (sorted_list_of_set (dom (xtree_map t))))"
proof -
  obtain a as where a: "find_leaf t bot = Inr a" "tree_leaves t = a # as"
    using find_leaf_bot [OF inv ne] by blast
  have "\<forall>b\<in>set (a # as). good_leaf N (leafs t) b" "leaf_chain (leafs t) 0 (a # as)"
    using good_leaves [OF inv ne] inv unfolding a(2) [symmetric] by (auto simp: xtree_inv_def)
  from siter.iter_seek_rep [OF a(1) this, of iter_init] show ?thesis
    unfolding XTreeSIter_def a(2) [symmetric] sorted_iter_keys(1) [OF inv ne] .
qed

lemma XTreeIter_rep:
  assumes inv: "xtree_inv N t" and ne: "root t \<noteq> NullPtr"
  shows "\<exists>it. XTreeIter N t = Inr it \<and> iter_rep (\<lambda>ks. ks) N (leafs t) it
    (number 0 (concat (map (leaf_used (\<lambda>ks. ks) (leafs t)) (tree_leaves t))))"
proof -
  obtain a as where a: "find_leaf t bot = Inr a" "tree_leaves t = a # as"
    using find_leaf_bot [OF inv ne] by blast
  have "\<forall>b\<in>set (a # as). good_leaf N (leafs t) b" "leaf_chain (leafs t) 0 (a # as)"
    using good_leaves [OF inv ne] inv unfolding a(2) [symmetric] by (auto simp: xtree_inv_def)
  from titer.iter_seek_rep [OF a(1) this, of iter_init] show ?thesis
    unfolding XTreeIter_def a(2) [symmetric] .
qed

text \<open>Both iterators meet the iterator contract.\<close>

interpretation sit: key_iter iter_has_next "siter_next N t" iter_cur_key "\<lambda>it. Inr (iter_opaque_val it)"
  "iter_rep sort N (leafs t)" for N :: nat and t :: "('k::{linorder,order_top}, 'v) xtree"
proof unfold_locales
  fix it :: "'k xtree_iter" and xs
  assume r: "iter_rep sort N (leafs t) it xs"
  show "iter_has_next it \<longleftrightarrow> xs \<noteq> []"
  proof (cases xs)
    case Nil
    with r show ?thesis by (auto simp: iter_rep_def iter_has_next_def dest: siter.iter_at_rest)
  next
    case (Cons x xs')
    then show ?thesis using siter.iter_cur_rep(1) [of N "leafs t" it "fst x" "snd x" xs'] r by simp
  qed
next
  fix it :: "'k xtree_iter" and k ov and xs :: "('k \<times> u64) list"
  assume r: "iter_rep sort N (leafs t) it ((k, ov) # xs)"
  then show "iter_cur_key it = Inr k" by (rule siter.iter_cur_rep)
  show "Inr (iter_opaque_val it) = (Inr ov :: u64 res)"
    using siter.iter_cur_rep(3) [OF r] by simp
next
  fix it :: "'k xtree_iter" and x and xs :: "('k \<times> u64) list"
  assume "iter_rep sort N (leafs t) it (x # xs)"
  then show "\<exists>it'. siter_next N t it = Inr it' \<and> iter_rep sort N (leafs t) it' xs"
    unfolding siter_next_def by (rule siter.iter_next_rep)
qed

interpretation tit: key_iter iter_has_next "titer_next N t" iter_cur_key "\<lambda>it. Inr (iter_opaque_val it)"
  "iter_rep (\<lambda>ks. ks) N (leafs t)" for N :: nat and t :: "('k::{linorder,order_top}, 'v) xtree"
proof unfold_locales
  fix it :: "'k xtree_iter" and xs
  assume r: "iter_rep (\<lambda>ks. ks) N (leafs t) it xs"
  show "iter_has_next it \<longleftrightarrow> xs \<noteq> []"
  proof (cases xs)
    case Nil
    with r show ?thesis by (auto simp: iter_rep_def iter_has_next_def dest: titer.iter_at_rest)
  next
    case (Cons x xs')
    then show ?thesis using titer.iter_cur_rep(1) [of N "leafs t" it "fst x" "snd x" xs'] r by simp
  qed
next
  fix it :: "'k xtree_iter" and k ov and xs :: "('k \<times> u64) list"
  assume r: "iter_rep (\<lambda>ks. ks) N (leafs t) it ((k, ov) # xs)"
  then show "iter_cur_key it = Inr k" by (rule titer.iter_cur_rep)
  show "Inr (iter_opaque_val it) = (Inr ov :: u64 res)"
    using titer.iter_cur_rep(3) [OF r] by simp
next
  fix it :: "'k xtree_iter" and x and xs :: "('k \<times> u64) list"
  assume "iter_rep (\<lambda>ks. ks) N (leafs t) it (x # xs)"
  then show "\<exists>it'. titer_next N t it = Inr it' \<and> iter_rep (\<lambda>ks. ks) N (leafs t) it' xs"
    unfolding titer_next_def by (rule titer.iter_next_rep)
qed


section \<open>The page iterator visits the leaves\<close>

text \<open>\<open>piter_rep\<close>: the leaves \<open>as\<close> are still to come, numbered from the current page on.\<close>

definition piter_rep :: "(u64 \<Rightarrow> 'k) \<Rightarrow> ('k, 'v) leafs \<Rightarrow> 'k page_iter \<Rightarrow> ('k \<times> u64) list \<Rightarrow> bool" where
  "piter_rep of_u64 m it xs \<longleftrightarrow> (\<exists>as. leaf_chain m 0 as \<and> 0 \<notin> set as \<and>
     pcur_node_ptr it = (case as of [] \<Rightarrow> 0 | a # _ \<Rightarrow> a) \<and>
     xs = zip (map (\<lambda>i. of_u64 (of_nat i)) [logic_page_id it..<logic_page_id it + length as]) as)"

lemma piter_read_next:
  assumes "leaf_chain m 0 as" and "0 \<notin> set as"
  shows "\<exists>c. piter_read_from m (case as of [] \<Rightarrow> 0 | a # _ \<Rightarrow> a) it = Inr (it\<lparr>pcur_node := c\<rparr>)"
proof (cases as)
  case Nil
  then show ?thesis by (intro exI [of _ "pcur_node it"]) (simp add: piter_read_from_def)
next
  case (Cons a bs)
  then show ?thesis using assms by (auto simp: piter_read_from_def)
qed

lemma piter_rep_Cons:
  assumes "piter_rep of_u64 m it ((k, ov) # xs)"
  shows "piter_has_next it" "piter_cur_key of_u64 it = k" "piter_opaque_val it = ov"
    and "\<exists>it'. piter_next m it = Inr it' \<and> piter_rep of_u64 m it' xs"
proof -
  obtain bs where r: "leaf_chain m 0 bs" "0 \<notin> set bs" "pcur_node_ptr it = (case bs of [] \<Rightarrow> 0 | a # _ \<Rightarrow> a)"
    "(k, ov) # xs = zip (map (\<lambda>i. of_u64 (of_nat i)) [logic_page_id it..<logic_page_id it + length bs]) bs"
    using assms unfolding piter_rep_def by blast
  obtain a as where c: "bs = a # as" using r(4) by (cases bs) auto
  have up: "[logic_page_id it..<logic_page_id it + length bs] =
      logic_page_id it # [logic_page_id it + 1..<logic_page_id it + 1 + length as]"
    by (simp add: c upt_conv_Cons del: upt_Suc)
  show "piter_has_next it" "piter_cur_key of_u64 it = k" "piter_opaque_val it = ov"
    using r c up by (simp_all add: piter_has_next_def piter_cur_key_def piter_opaque_val_def del: upt_Suc)
  obtain n where n: "m a = Some n" "xnext n = (case as of [] \<Rightarrow> 0 | b # _ \<Rightarrow> b)" "leaf_chain m 0 as"
    using r(1) c by auto
  let ?it1 = "it\<lparr>pcur_node_ptr := xnext n, logic_page_id := logic_page_id it + 1\<rparr>"
  obtain cn where "piter_read_from m (xnext n) ?it1 = Inr (?it1\<lparr>pcur_node := cn\<rparr>)"
    using piter_read_next [OF n(3), of ?it1] r(2) c n(2) by auto
  then have "piter_next m it = Inr (?it1\<lparr>pcur_node := cn\<rparr>)"
    using r(2,3) c n(1) by (simp add: piter_next_def)
  moreover have "piter_rep of_u64 m (?it1\<lparr>pcur_node := cn\<rparr>) xs"
    unfolding piter_rep_def using n(2,3) r(2,4) c up
    by (intro exI [of _ as]) (simp del: upt_Suc)
  ultimately show "\<exists>it'. piter_next m it = Inr it' \<and> piter_rep of_u64 m it' xs" by blast
qed

interpretation pit: key_iter piter_has_next "piter_next m" "\<lambda>it. Inr (piter_cur_key of_u64 it)"
  "\<lambda>it. Inr (piter_opaque_val it)" "piter_rep of_u64 m"
  for of_u64 :: "u64 \<Rightarrow> 'k::order_top" and m :: "('k, 'v) leafs"
proof unfold_locales
  fix it :: "'k page_iter" and xs
  assume r: "piter_rep of_u64 m it xs"
  show "piter_has_next it \<longleftrightarrow> xs \<noteq> []"
  proof (cases xs)
    case Nil
    from r obtain as where p: "pcur_node_ptr it = (case as of [] \<Rightarrow> 0 | a # _ \<Rightarrow> a)"
      and z: "xs = zip (map (\<lambda>i. of_u64 (of_nat i)) [logic_page_id it..<logic_page_id it + length as]) as"
      unfolding piter_rep_def by blast
    have "as = []"
    proof (rule ccontr)
      assume "as \<noteq> []"
      then have "length (zip (map (\<lambda>i. of_u64 (of_nat i)) [logic_page_id it..<logic_page_id it + length as]) as) \<noteq> 0"
        by simp
      with z Nil show False by (metis list.size(3))
    qed
    with p Nil show ?thesis by (simp add: piter_has_next_def)
  next
    case (Cons x xs')
    then show ?thesis using piter_rep_Cons(1) [of of_u64 m it "fst x" "snd x" xs'] r by simp
  qed
next
  fix it :: "'k page_iter" and x and xs :: "('k \<times> u64) list"
  assume "piter_rep of_u64 m it (x # xs)"
  then show "\<exists>it'. piter_next m it = Inr it' \<and> piter_rep of_u64 m it' xs"
    using piter_rep_Cons(4) [of of_u64 m it "fst x" "snd x" xs] by simp
qed (auto dest: piter_rep_Cons)

lemma XTreePageIter_rep:
  fixes t :: "('k::{linorder,order_bot,order_top}, 'v) xtree"
  assumes inv: "xtree_inv N t" and ne: "root t \<noteq> NullPtr"
  shows "\<exists>it. XTreePageIter t = Inr it \<and>
    piter_rep of_u64 (leafs t) it (zip (map (\<lambda>i. of_u64 (of_nat i)) [0..<length (tree_leaves t)]) (tree_leaves t))"
proof -
  obtain a as where a: "find_leaf t bot = Inr a" "tree_leaves t = a # as"
    using find_leaf_bot [OF inv ne] by blast
  have c: "leaf_chain (leafs t) 0 (a # as)" "0 \<notin> set (a # as)"
    using inv unfolding a(2) [symmetric] by (auto simp: xtree_inv_def)
  let ?it = "page_iter_init\<lparr>pcur_node_ptr := a, logic_page_id := 0\<rparr> :: 'k page_iter"
  obtain cn where "piter_read_from (leafs t) a ?it = Inr (?it\<lparr>pcur_node := cn\<rparr>)"
    using piter_read_next [OF c, of ?it] by auto
  then have "XTreePageIter t = Inr (?it\<lparr>pcur_node := cn\<rparr>)"
    using a(1) by (simp add: XTreePageIter_def piter_seek_def Let_def)
  moreover have "piter_rep of_u64 (leafs t) (?it\<lparr>pcur_node := cn\<rparr>)
      (zip (map (\<lambda>i. of_u64 (of_nat i)) [0..<length (a # as)]) (a # as))"
    unfolding piter_rep_def by (intro exI [of _ "a # as"]) (use c in \<open>simp del: upt_Suc\<close>)
  ultimately show ?thesis unfolding a(2) by blast
qed


section \<open>Properties\<close>

text \<open>C22: the sorted iterator of a well-formed tree visits every key of the tree exactly once, in
  increasing order over all leaves, and reports the rank of the key as its opaque value.\<close>

theorem sorted_iter_order:
  assumes "xtree_inv N t" and "root t \<noteq> NullPtr" and "card (dom (xtree_map t)) < n"
  shows "\<exists>it it'. XTreeSIter N t = Inr it \<and>
    key_iter.walk iter_has_next (siter_next N t) iter_cur_key (\<lambda>it. Inr (iter_opaque_val it)) n it =
      Some (Inr (number 0 (sorted_list_of_set (dom (xtree_map t))), it'))"
proof -
  obtain it where it: "XTreeSIter N t = Inr it"
    "iter_rep sort N (leafs t) it (number 0 (sorted_list_of_set (dom (xtree_map t))))"
    using XTreeSIter_rep [OF assms(1,2)] by blast
  have "length (number 0 (sorted_list_of_set (dom (xtree_map t)))) < n"
    using assms(3) by (simp add: number_def)
  from sit.walk_rep [OF it(2) this] it(1) show ?thesis by blast
qed

theorem sorted_iter_order_witness:
  "\<exists>it it'. XTreeSIter 2 sample_tree = Inr it \<and>
    key_iter.walk iter_has_next (siter_next 2 sample_tree) iter_cur_key (\<lambda>it. Inr (iter_opaque_val it)) 10 it =
      Some (Inr (number 0 (sorted_list_of_set (dom (xtree_map sample_tree))), it'))"
proof (rule sorted_iter_order [OF sample_tree_inv])
  show "card (dom (xtree_map sample_tree)) < 10" by (simp add: sample_tree_dom(2))
qed

lemma leaf_used_perm:
  "mset (leaf_used (\<lambda>ks. ks) m a) = mset (leaf_used sort m a)"
  by (simp add: leaf_used_def used_from_def filter_sort split: option.split)

lemma titer_keys:
  assumes "xtree_inv N t" and "root t \<noteq> NullPtr"
  shows "distinct (concat (map (leaf_used (\<lambda>ks. ks) (leafs t)) (tree_leaves t)))"
    and "set (concat (map (leaf_used (\<lambda>ks. ks) (leafs t)) (tree_leaves t))) = dom (xtree_map t)"
proof -
  have "mset (concat (map (leaf_used (\<lambda>ks. ks) (leafs t)) as)) = mset (concat (map (leaf_used sort (leafs t)) as))" for as
    by (induction as) (simp_all add: leaf_used_perm)
  then have m: "mset (concat (map (leaf_used (\<lambda>ks. ks) (leafs t)) (tree_leaves t))) =
      mset (sorted_list_of_set (dom (xtree_map t)))"
    by (simp add: sorted_iter_keys(1) [OF assms])
  then show "distinct (concat (map (leaf_used (\<lambda>ks. ks) (leafs t)) (tree_leaves t)))"
    using mset_eq_imp_distinct_iff [OF m] by simp
  show "set (concat (map (leaf_used (\<lambda>ks. ks) (leafs t)) (tree_leaves t))) = dom (xtree_map t)"
    using mset_eq_setD [OF m] sorted_iter_keys(2) [OF assms] by simp
qed

text \<open>The unsorted iterator of a well-formed tree also visits every key exactly once; the opaque
  value counts the visits.\<close>

theorem tree_iter_once:
  assumes inv: "xtree_inv N t" "root t \<noteq> NullPtr" and n: "card (dom (xtree_map t)) < n"
  shows "\<exists>it it' ks. XTreeIter N t = Inr it \<and>
    key_iter.walk iter_has_next (titer_next N t) iter_cur_key (\<lambda>it. Inr (iter_opaque_val it)) n it =
      Some (Inr (number 0 ks, it')) \<and> distinct ks \<and> set ks = dom (xtree_map t)"
proof -
  let ?ks = "concat (map (leaf_used (\<lambda>ks. ks) (leafs t)) (tree_leaves t))"
  obtain it where it: "XTreeIter N t = Inr it" "iter_rep (\<lambda>ks. ks) N (leafs t) it (number 0 ?ks)"
    using XTreeIter_rep [OF inv] by blast
  note ks = titer_keys [OF inv]
  have "length (number 0 ?ks) < n" using n distinct_card [OF ks(1)] ks(2) by (simp add: number_def)
  from tit.walk_rep [OF it(2) this] it(1) ks show ?thesis by blast
qed

theorem tree_iter_once_witness:
  "\<exists>it it' ks. XTreeIter 2 sample_tree = Inr it \<and>
    key_iter.walk iter_has_next (titer_next 2 sample_tree) iter_cur_key (\<lambda>it. Inr (iter_opaque_val it)) 10 it =
      Some (Inr (number 0 ks, it')) \<and> distinct ks \<and> set ks = dom (xtree_map sample_tree)"
proof (rule tree_iter_once [OF sample_tree_inv])
  show "card (dom (xtree_map sample_tree)) < 10" by (simp add: sample_tree_dom(2))
qed

text \<open>The page iterator visits every leaf of the tree exactly once, from left to right, with
  the number of the page as its key and the address of the leaf as its opaque value.\<close>

theorem page_iter_leaves:
  fixes t :: "('k::{linorder,order_bot,order_top}, 'v) xtree"
  assumes "xtree_inv N t" and "root t \<noteq> NullPtr" and "length (tree_leaves t) < n"
  shows "\<exists>it it'. XTreePageIter t = Inr it \<and>
    key_iter.walk piter_has_next (piter_next (leafs t)) (\<lambda>it. Inr (piter_cur_key of_u64 it))
      (\<lambda>it. Inr (piter_opaque_val it)) n it =
    Some (Inr (zip (map (\<lambda>i. of_u64 (of_nat i)) [0..<length (tree_leaves t)]) (tree_leaves t), it'))"
proof -
  let ?xs = "zip (map (\<lambda>i. of_u64 (of_nat i)) [0..<length (tree_leaves t)]) (tree_leaves t)"
  obtain it where it: "XTreePageIter t = Inr it" "piter_rep of_u64 (leafs t) it ?xs"
    using XTreePageIter_rep [OF assms(1,2), of of_u64] by blast
  have "length ?xs < n" using assms(3) by simp
  from pit.walk_rep [OF it(2) this] it(1) show ?thesis by blast
qed

theorem page_iter_leaves_witness:
  "\<exists>it it'. XTreePageIter sample_tree = Inr it \<and>
    key_iter.walk piter_has_next (piter_next (leafs sample_tree)) (\<lambda>it. Inr (piter_cur_key XKey it))
      (\<lambda>it. Inr (piter_opaque_val it)) 3 it =
    Some (Inr ([(XKey 0, 64), (XKey 1, 128)], it'))"
  using page_iter_leaves [OF sample_tree_inv, of 3 XKey] by (simp add: sample_tree_leaves upt_rec)

end
