(* ===== verification/TT.thy ===== *)
theory TT
  imports Marshal FatPointer
begin

text \<open>
  The translation table \<^verbatim>\<open>TT<u64>\<close> of \<^verbatim>\<open>xcache/src/translation_table.hh\<close>: a vector of leaf
  addresses, each shifted left by 8 bits to make room for the low byte of the incarnation of the
  leaf, and its wire format, a 32-bit count followed by the entries.
\<close>

section \<open>Entries\<close>

definition kIncarBit :: nat where
  "kIncarBit = 8"

definition kIncarMask :: u32 where
  "kIncarMask = ucast (bitmask kIncarBit)"

record tt =
  entries :: "u64 list"

definition TT :: tt where
  "TT = \<lparr>entries = []\<rparr>"

text \<open>\<^verbatim>\<open>operator[]\<close> is \<^verbatim>\<open>entries.at(i)\<close>, which throws out of range.\<close>

definition tt_at :: "tt \<Rightarrow> nat \<Rightarrow> u64 res" where
  "tt_at t i = (if i < length (entries t) then Inr (entries t ! i) else Inl OutOfRange)"

definition tt_add :: "tt \<Rightarrow> u64 \<Rightarrow> tt" where
  "tt_add t e = t\<lparr>entries := entries t @ [e]\<rparr>"

definition get_wo_incar :: "tt \<Rightarrow> nat \<Rightarrow> u64 res" where
  "get_wo_incar t i = rbind (tt_at t i) (\<lambda>addr. Inr (drop_bit kIncarBit addr))"

definition add_w_incar :: "tt \<Rightarrow> u64 \<Rightarrow> u32 \<Rightarrow> tt res" where
  "add_w_incar t e incar =
     (let temp = push_bit kIncarBit e in
      rbind (cassert (drop_bit kIncarBit temp = e)) (\<lambda>_.
      Inr (t\<lparr>entries := entries t @ [temp OR ucast (incar AND kIncarMask)]\<rparr>)))"

definition tt_size :: "tt \<Rightarrow> nat" where
  "tt_size t = length (entries t)"

definition tt_mem :: "tt \<Rightarrow> nat" where
  "tt_mem t = tt_size t * 8"

definition tt_clear :: "tt \<Rightarrow> tt" where
  "tt_clear t = t\<lparr>entries := []\<rparr>"

definition tt_entry_sz :: nat where
  "tt_entry_sz = 8"

definition tt_sz :: "tt \<Rightarrow> nat" where
  "tt_sz t = 4 + length (entries t) * 8"

section \<open>The wire format\<close>

definition tt_serialize :: "tt \<Rightarrow> u8 list res" where
  "tt_serialize t =
     rbind (serialize_to 4 (le_bytes 4) (of_nat (tt_size t) :: u32)) (\<lambda>h.
     foldl (\<lambda>acc i. rbind acc (\<lambda>r. rbind (serialize_to 8 (le_bytes 8) (entries t ! i)) (\<lambda>e. Inr (r @ e))))
       (Inr h) [0..<tt_size t])"

text \<open>The loop over the entries; \<open>sz\<close> is the size of the whole input, as the code passes it.\<close>

fun read_entries :: "nat \<Rightarrow> u8 list \<Rightarrow> nat \<Rightarrow> u64 list res" where
  "read_entries 0 cur sz = Inr []"
| "read_entries (Suc n) cur sz =
     rbind (deserialize 8 of_le_bytes cur sz) (\<lambda>e.
     rbind (read_entries n (drop 8 cur) sz) (\<lambda>es. Inr (e # es)))"

definition tt_from_serialize :: "tt \<Rightarrow> u8 list \<Rightarrow> tt res" where
  "tt_from_serialize t d =
     rbind (cassert (length d \<ge> 4)) (\<lambda>_.
     rbind (deserialize 4 of_le_bytes d (length d)) (\<lambda>n :: u32.
     rbind (cassert (length d \<ge> 4 + unat n * 8)) (\<lambda>_.
     rbind (read_entries (unat n) (drop 4 d) (length d)) (\<lambda>es.
     Inr ((tt_clear t)\<lparr>entries := es\<rparr>)))))"

section \<open>Lemmas\<close>

lemma kIncarMask_mask: "kIncarMask = mask 8"
  by (simp add: kIncarMask_def kIncarBit_def bitmask_mask) (rule bit_word_eqI, simp add: bit_simps)

lemma push_drop_id:
  fixes e :: u64
  shows "drop_bit 8 (push_bit 8 e) = e \<longleftrightarrow> unat e < 2 ^ 56"
proof -
  have "drop_bit 8 (push_bit 8 e) = take_bit 56 e"
    by (rule bit_word_eqI) (auto simp: bit_simps)
  also have "take_bit 56 e = e \<longleftrightarrow> unat e < 2 ^ 56"
    by (metis take_bit_nat_eq_self_iff unsigned_take_bit_eq word_unat_eq_iff)
  finally show ?thesis .
qed

lemma add_w_incar_ok:
  assumes "unat e < 2 ^ 56"
  shows "add_w_incar t e incar =
    Inr (t\<lparr>entries := entries t @ [push_bit 8 e OR ucast (incar AND mask 8)]\<rparr>)"
  using assms by (simp add: add_w_incar_def kIncarBit_def push_drop_id kIncarMask_mask Let_def)

lemma add_w_incar_overflow: "\<not> unat e < 2 ^ 56 \<Longrightarrow> add_w_incar t e incar = Inl AssertFail"
  using push_drop_id [of e] by (simp add: add_w_incar_def kIncarBit_def Let_def)

lemma drop_entry: "unat e < 2 ^ 56 \<Longrightarrow> drop_bit 8 (push_bit 8 e OR ucast (incar AND mask 8 :: u32)) = (e :: u64)"
  using push_drop_id [of e] by (auto simp: bit_eq_iff bit_simps)

lemma mask_entry:
  "take_bit 8 (push_bit 8 e OR ucast (incar AND mask 8 :: u32)) = (ucast (take_bit 8 incar) :: u64)"
  by (rule bit_word_eqI) (auto simp: bit_simps)

lemma tt_serialize_eq:
  "tt_serialize t = Inr (le_bytes 4 (of_nat (tt_size t) :: u32) @ concat (map (le_bytes 8) (entries t)))"
proof -
  have "foldl (\<lambda>acc i. rbind acc (\<lambda>r. rbind (serialize_to 8 (le_bytes 8) (entries t ! i)) (\<lambda>e. Inr (r @ e))))
      (Inr h) [0..<n] = Inr (h @ concat (map (le_bytes 8) (take n (entries t))))"
    if "n \<le> length (entries t)" for n h
    using that
    by (induction n) (simp_all add: pod_u64.serialize_to_eq take_Suc_conv_app_nth)
  then show ?thesis
    by (simp add: tt_serialize_def pod_u32.serialize_to_eq tt_size_def)
qed

lemma read_entries_ok:
  "8 \<le> sz \<or> es = [] \<Longrightarrow> read_entries (length es) (concat (map (le_bytes 8) es) @ rest) sz = Inr es"
  by (induction es) (simp_all add: pod_u64.deserialize_prefix)

lemma read_entries_image:
  "read_entries n cur sz = Inr es \<Longrightarrow>
    length es = n \<and> concat (map (le_bytes 8) es) = take (8 * n) cur \<and> 8 * n \<le> length cur"
proof (induction n arbitrary: cur es)
  case (Suc n)
  then obtain e es' where e: "deserialize 8 of_le_bytes cur sz = Inr e"
    "read_entries n (drop 8 cur) sz = Inr es'" "es = e # es'"
    by (auto simp: rbind_Inr_iff)
  note h = pod_u64.deserialize_image [OF e(1)] and t = Suc.IH [OF e(2)]
  have "take (8 * Suc n) cur = take 8 cur @ take (8 * n) (drop 8 cur)"
    by (simp add: take_add flip: add.commute)
  with h t e(3) show ?case by auto
qed simp

lemma length_concat_le_bytes: "length (concat (map (le_bytes n) es)) = n * length es"
  by (induction es) simp_all

lemma tt_roundtrip_ext:
  assumes "length (entries t) < 2 ^ 32" and "tt_serialize t = Inr d"
  shows "tt_from_serialize t0 (d @ rest) = Inr (t0\<lparr>entries := entries t\<rparr>)" and "length d = tt_sz t"
proof -
  let ?es = "entries t"
  have d: "d = le_bytes 4 (of_nat (length ?es) :: u32) @ concat (map (le_bytes 8) ?es)"
    using assms(2) by (simp add: tt_serialize_eq tt_size_def)
  have lc: "length (concat (map (le_bytes 8) ?es)) = 8 * length ?es"
    by (rule length_concat_le_bytes)
  show "length d = tt_sz t" by (simp add: d lc tt_sz_def)
  have n: "unat (of_nat (length ?es) :: u32) = length ?es"
    using assms(1) by (simp add: unat_of_nat take_bit_nat_eq_self)
  have "deserialize 4 of_le_bytes (d @ rest) (length (d @ rest)) = Inr (of_nat (length ?es) :: u32)"
    unfolding d append_assoc by (rule pod_u32.deserialize_prefix) simp
  moreover have "8 \<le> length (d @ rest) \<or> ?es = []" by (cases ?es) (simp_all add: d)
  then have "read_entries (length ?es) (drop 4 (d @ rest)) (length (d @ rest)) = Inr ?es"
    using read_entries_ok [of "length (d @ rest)" ?es rest] by (simp add: d)
  ultimately show "tt_from_serialize t0 (d @ rest) = Inr (t0\<lparr>entries := ?es\<rparr>)"
    by (simp add: tt_from_serialize_def tt_clear_def n) (simp add: d lc)
qed

section \<open>Properties\<close>

text \<open>C28: a translation table survives serialization: the bytes have the announced size, reading
  them gives back the same entries even when more bytes follow, and input cut anywhere is refused.\<close>

theorem tt_roundtrip:
  assumes "tt_size t < 2 ^ 32"
  shows "\<exists>d. tt_serialize t = Inr d \<and> length d = tt_sz t \<and>
    tt_from_serialize t0 (d @ rest) = Inr t \<and>
    (\<forall>n<length d. tt_from_serialize t0 (take n d) = Inl AssertFail)"
proof -
  have len: "length (entries t) < 2 ^ 32" using assms by (simp add: tt_size_def)
  obtain d where d: "tt_serialize t = Inr d" by (simp add: tt_serialize_eq)
  note r = tt_roundtrip_ext [OF len d]
  have t: "t0\<lparr>entries := entries t\<rparr> = t" by simp
  have "tt_from_serialize t0 (take n d) = Inl AssertFail" if n: "n < length d" for n
  proof (cases "n < 4")
    case True
    then show ?thesis using n by (simp add: tt_from_serialize_def)
  next
    case False
    have "d = le_bytes 4 (of_nat (length (entries t)) :: u32) @ concat (map (le_bytes 8) (entries t))"
      using d by (simp add: tt_serialize_eq tt_size_def)
    then have "take n d = le_bytes 4 (of_nat (length (entries t)) :: u32) @
        take (n - 4) (concat (map (le_bytes 8) (entries t)))" using False by simp
    then have "deserialize 4 of_le_bytes (take n d) (length (take n d)) = Inr (of_nat (length (entries t)) :: u32)"
      using pod_u32.deserialize_prefix [of "length (take n d)"] n False by simp
    moreover have "unat (of_nat (length (entries t)) :: u32) = length (entries t)"
      using len by (simp add: unat_of_nat take_bit_nat_eq_self)
    moreover have "\<not> length (take n d) \<ge> 4 + length (entries t) * 8"
      using n r(2) by (simp add: tt_sz_def)
    ultimately show ?thesis using False n by (simp add: tt_from_serialize_def)
  qed
  with d r t show ?thesis by metis
qed

theorem tt_roundtrip_witness:
  "\<exists>d. tt_serialize \<lparr>entries = [5, 6]\<rparr> = Inr d \<and> length d = tt_sz \<lparr>entries = [5, 6]\<rparr> \<and>
    tt_from_serialize TT (d @ [9]) = Inr \<lparr>entries = [5, 6]\<rparr> \<and>
    (\<forall>n<length d. tt_from_serialize TT (take n d) = Inl AssertFail)"
  by (rule tt_roundtrip) (simp add: tt_size_def)

text \<open>An entry added with its incarnation is accepted exactly when its address fits in 56 bits;
  then the address is read back without the incarnation, the low byte of the incarnation is the
  low byte of the entry, and the entries before it are unchanged.\<close>

theorem tt_entry_roundtrip:
  "(unat e < 2 ^ 56 \<longleftrightarrow> (\<exists>t'. add_w_incar t e incar = Inr t')) \<and>
    (add_w_incar t e incar = Inr t' \<longrightarrow>
      get_wo_incar t' (tt_size t) = Inr e \<and>
      (\<exists>w. tt_at t' (tt_size t) = Inr w \<and> take_bit 8 w = ucast (take_bit 8 incar)) \<and>
      (\<forall>i<tt_size t. tt_at t' i = tt_at t i))"
proof (intro conjI impI)
  show iff: "unat e < 2 ^ 56 \<longleftrightarrow> (\<exists>t'. add_w_incar t e incar = Inr t')"
    using add_w_incar_ok [of e t incar] add_w_incar_overflow [of e t incar]
    by (cases "unat e < 2 ^ 56") simp_all
  assume a: "add_w_incar t e incar = Inr t'"
  then have e: "unat e < 2 ^ 56" using iff by blast
  let ?w = "push_bit 8 e OR ucast (incar AND mask 8 :: u32)"
  have t': "t' = t\<lparr>entries := entries t @ [?w]\<rparr>" using a add_w_incar_ok [OF e, of t incar] by simp
  have at: "tt_at t' (tt_size t) = Inr ?w" by (simp add: t' tt_at_def tt_size_def)
  show "get_wo_incar t' (tt_size t) = Inr e"
    using at drop_entry [OF e, of incar] by (simp add: get_wo_incar_def kIncarBit_def)
  show "\<exists>w. tt_at t' (tt_size t) = Inr w \<and> take_bit 8 w = ucast (take_bit 8 incar)"
    using at mask_entry [of e incar] by blast
  show "\<forall>i<tt_size t. tt_at t' i = tt_at t i" by (simp add: t' tt_at_def tt_size_def nth_append)
qed

theorem tt_entry_roundtrip_witness:
  "get_wo_incar \<lparr>entries = [0xabc03]\<rparr> (tt_size TT) = Inr 0xabc"
proof -
  have "add_w_incar TT 0xabc 0x103 = Inr \<lparr>entries = [0xabc03]\<rparr>"
    by (simp add: add_w_incar_ok TT_def push_bit_eq_mult take_bit_eq_mask [symmetric] take_bit_eq_mod)
  from tt_entry_roundtrip [THEN conjunct2, rule_format, OF this] show ?thesis by (rule conjunct1)
qed

end
