(* ===== verification/CacheIter.thy ===== *)
theory CacheIter
  imports XIter TT
begin

text \<open>
  The training iterator \<^verbatim>\<open>XCacheTreeIter\<close> of \<^verbatim>\<open>xcache/src/page_tt_iter.hh\<close>: it walks the sorted
  iterator, appends an entry to the translation table for every leaf it enters, and labels a key
  with the logic address of its page and its position in the sorted page. The lemmas show that a
  walk from any key labels the keys of the remaining leaves page by page, with increasing labels,
  and that the table then maps every page number used in a label to the address of the leaf.
\<close>

section \<open>The iterator\<close>

text \<open>\<open>gen_f\<close>, the generator of table entries, is a parameter; its default is the leaf's address.\<close>

record 'k cache_iter =
  prev_node :: addr
  core_iter :: "'k xtree_iter"
  ctt :: "tt option"
  clogic_page_id :: u64

definition gen_f_default :: "addr \<Rightarrow> u64" where
  "gen_f_default n_ptr = n_ptr"

definition XCacheTreeIter :: "nat \<Rightarrow> ('k::{linorder,order_bot,order_top}, 'v) xtree \<Rightarrow> tt option
    \<Rightarrow> 'k cache_iter res" where
  "XCacheTreeIter N kv t =
     rbind (XTreeSIter N kv) (\<lambda>c.
     Inr \<lparr>prev_node = 0, core_iter = c, ctt = t, clogic_page_id = 0\<rparr>)"

definition reset_old_ptr :: "(addr \<Rightarrow> u64) \<Rightarrow> ('k, 'v) leafs \<Rightarrow> 'k cache_iter \<Rightarrow> 'k cache_iter res" where
  "reset_old_ptr gen_f m it =
     (if iter_has_next (core_iter it) then
        (if cur_node_ptr (core_iter it) \<noteq> prev_node it then
           (case (ctt it, m (cur_node_ptr (core_iter it))) of
              (Some t, Some n) \<Rightarrow>
                rbind (add_w_incar t (gen_f (cur_node_ptr (core_iter it))) (ucast (get_incarnation n))) (\<lambda>t'.
                Inr (it\<lparr>ctt := Some t', prev_node := cur_node_ptr (core_iter it),
                        clogic_page_id := clogic_page_id it + 1\<rparr>))
            | _ \<Rightarrow> Inl NullDeref)
         else Inr it)
      else Inr it)"

text \<open>\<^verbatim>\<open>core_iter.begin()\<close> only logs a warning.\<close>

definition cache_begin :: "(addr \<Rightarrow> u64) \<Rightarrow> ('k, 'v) leafs \<Rightarrow> 'k cache_iter \<Rightarrow> 'k cache_iter res" where
  "cache_begin gen_f m it = reset_old_ptr gen_f m (it\<lparr>prev_node := 0\<rparr>)"

definition cache_next :: "(addr \<Rightarrow> u64) \<Rightarrow> nat \<Rightarrow> ('k::{linorder,order_top}, 'v) xtree \<Rightarrow> 'k cache_iter
    \<Rightarrow> 'k cache_iter res" where
  "cache_next gen_f N t it =
     rbind (siter_next N t (core_iter it)) (\<lambda>c. reset_old_ptr gen_f (leafs t) (it\<lparr>core_iter := c\<rparr>))"

definition cache_has_next :: "'k cache_iter \<Rightarrow> bool" where
  "cache_has_next it = iter_has_next (core_iter it)"

definition cache_seek :: "(addr \<Rightarrow> u64) \<Rightarrow> nat \<Rightarrow> ('k::{linorder,order_top}, 'v) xtree \<Rightarrow> 'k cache_iter
    \<Rightarrow> 'k \<Rightarrow> 'k cache_iter res" where
  "cache_seek gen_f N t it k =
     (let it1 = it\<lparr>clogic_page_id := 0, prev_node := 0\<rparr> in
      rbind (siter_seek N t (core_iter it1) k) (\<lambda>c.
      reset_old_ptr gen_f (leafs t) (it1\<lparr>core_iter := c\<rparr>)))"

definition cache_cur_key :: "'k cache_iter \<Rightarrow> 'k res" where
  "cache_cur_key it = iter_cur_key (core_iter it)"

definition cache_opaque_val :: "nat \<Rightarrow> 'k cache_iter \<Rightarrow> u64 res" where
  "cache_opaque_val N it =
     rbind (cassert (clogic_page_id it > 0)) (\<lambda>_.
     encode_logic_addr (of_nat N) (clogic_page_id it - 1) (of_nat (iidx (core_iter it))))"

section \<open>Positions in a sorted page\<close>

lemma sorted_used_from:
  fixes ks :: "'k::{linorder,order_top} list"
  assumes "sorted ks" and "i < length ks" and "ks ! i \<noteq> top"
  shows "used_from i ks = drop i (used_from 0 ks)" and "i < length (used_from 0 ks)"
proof -
  have "\<forall>k\<in>set (take i ks). k \<noteq> top"
  proof
    fix k assume "k \<in> set (take i ks)"
    then obtain j where "j < i" "k = ks ! j" by (auto simp: in_set_conv_nth)
    then have "k \<le> ks ! i" using assms(1,2) by (simp add: sorted_nth_mono)
    then show "k \<noteq> top" using assms(3) by (metis top.extremum_unique)
  qed
  then have "filter (\<lambda>k. k \<noteq> top) (take i ks) = take i ks" by (simp add: filter_True)
  moreover have "used_from 0 ks = filter (\<lambda>k. k \<noteq> top) (take i ks) @ used_from i ks"
    unfolding used_from_def by (simp flip: filter_append)
  ultimately have u: "used_from 0 ks = take i ks @ used_from i ks" by simp
  then show "used_from i ks = drop i (used_from 0 ks)" using assms(2) by simp
  show "i < length (used_from 0 ks)" using u used_from_Cons [of i ks] assms(2,3) by simp
qed

lemma iter_at_sorted:
  assumes "iter_at sort N m it a as"
  shows "cur_rest it = drop (iidx it) (leaf_used sort m a)"
    and "iidx it < length (leaf_used sort m a)" and "iidx it < N"
  using assms sorted_used_from [of "sort (keys (xkeys _))" "iidx it"]
  by (auto simp: iter_at_def cur_rest_def leaf_used_def)

lemma iter_at_first:
  "iter_at sort N m it a as \<Longrightarrow> cur_rest it = leaf_used sort m a \<Longrightarrow> iidx it = 0"
  using iter_at_sorted [of N m it a as] by (metis diff_less length_drop neq0_conv order_less_irrefl less_trans)

section \<open>Labels\<close>

definition page_pairs :: "nat \<Rightarrow> nat \<Rightarrow> 'k list \<Rightarrow> ('k \<times> u64) list" where
  "page_pairs N p ks = zip ks (map (\<lambda>i. of_nat (p * N + i)) [0..<length ks])"

fun pages_pairs :: "nat \<Rightarrow> ('k::{linorder,order_top}, 'v) leafs \<Rightarrow> nat \<Rightarrow> addr list \<Rightarrow> ('k \<times> u64) list" where
  "pages_pairs N m p [] = []"
| "pages_pairs N m p (a # as) = page_pairs N p (leaf_used sort m a) @ pages_pairs N m (Suc p) as"

definition tt_entry :: "(addr \<Rightarrow> u64) \<Rightarrow> ('k, 'v) leafs \<Rightarrow> addr \<Rightarrow> u64" where
  "tt_entry gen_f m a =
     push_bit 8 (gen_f a) OR
       (case m a of None \<Rightarrow> 0 | Some n \<Rightarrow> ucast (ucast (get_incarnation n) AND mask 8 :: u32))"

lemma drop_page_pairs:
  assumes "i < length ks"
  shows "drop i (page_pairs N p ks) = (ks ! i, of_nat (p * N + i)) # drop (Suc i) (page_pairs N p ks)"
  using assms by (simp add: page_pairs_def Cons_nth_drop_Suc [symmetric])

lemma drop_page_pairs_end: "length ks \<le> i \<Longrightarrow> drop i (page_pairs N p ks) = []"
  by (simp add: page_pairs_def)

lemma reset_old_ptr_enter:
  assumes at: "iter_at R N m (core_iter it) a as" and new: "prev_node it \<noteq> a"
    and tt: "ctt it = Some t" and g: "unat (gen_f a) < 2 ^ 56"
  shows "reset_old_ptr gen_f m it = Inr (it\<lparr>ctt := Some (t\<lparr>entries := entries t @ [tt_entry gen_f m a]\<rparr>),
    prev_node := a, clogic_page_id := clogic_page_id it + 1\<rparr>)"
proof -
  obtain ks n where "cur_node (core_iter it) = Some ks" "cur_node_ptr (core_iter it) = a" "m a = Some n"
    using at by (auto simp: iter_at_def)
  then show ?thesis using new tt add_w_incar_ok [OF g, of t]
    by (simp add: reset_old_ptr_def iter_has_next_def tt_entry_def)
qed

lemma reset_old_ptr_same:
  "cur_node (core_iter it) = None \<or> cur_node_ptr (core_iter it) = prev_node it \<Longrightarrow>
    reset_old_ptr gen_f m it = Inr it"
  by (auto simp: reset_old_ptr_def iter_has_next_def)

section \<open>The walk\<close>

text \<open>
  \<open>E\<close> are the entries of the table before the walk, \<open>L\<close> the leaves from the first one on.
\<close>

definition cache_rep :: "(addr \<Rightarrow> u64) \<Rightarrow> nat \<Rightarrow> ('k::{linorder,order_top}, 'v) leafs \<Rightarrow> u64 list \<Rightarrow> addr list
    \<Rightarrow> 'k cache_iter \<Rightarrow> ('k \<times> u64) list \<Rightarrow> bool" where
  "cache_rep gen_f N m E L it xs \<longleftrightarrow> N < 2 ^ 64 \<and> length L < 2 ^ 64 \<and> distinct L \<and>
     (\<forall>a\<in>set L. unat (gen_f a) < 2 ^ 56) \<and>
     (cur_node (core_iter it) = None \<and> xs = [] \<and> (\<exists>t. ctt it = Some t \<and> entries t = E @ map (tt_entry gen_f m) L) \<or>
     (\<exists>vis a as t. L = vis @ a # as \<and> iter_at sort N m (core_iter it) a as \<and> prev_node it = a \<and>
        clogic_page_id it = of_nat (Suc (length vis)) \<and> ctt it = Some t \<and>
        entries t = E @ map (tt_entry gen_f m) (vis @ [a]) \<and>
        xs = drop (iidx (core_iter it)) (page_pairs N (length vis) (leaf_used sort m a)) @
          pages_pairs N m (Suc (length vis)) as))"

lemma cache_next_rep:
  assumes r: "cache_rep gen_f N (leafs t) E L it (x # xs)"
  shows "\<exists>it'. cache_next gen_f N t it = Inr it' \<and> cache_rep gen_f N (leafs t) E L it' xs"
proof -
  let ?m = "leafs t"
  have side: "N < 2 ^ 64" "length L < 2 ^ 64" "distinct L" "\<forall>a\<in>set L. unat (gen_f a) < 2 ^ 56"
    using r by (simp_all add: cache_rep_def)
  obtain vis a as tb where c: "L = vis @ a # as" "iter_at sort N ?m (core_iter it) a as" "prev_node it = a"
    "clogic_page_id it = of_nat (Suc (length vis))" "ctt it = Some tb"
    "entries tb = E @ map (tt_entry gen_f ?m) (vis @ [a])"
    "x # xs = drop (iidx (core_iter it)) (page_pairs N (length vis) (leaf_used sort ?m a)) @
       pages_pairs N ?m (Suc (length vis)) as"
    using r unfolding cache_rep_def by blast
  let ?U = "leaf_used sort ?m a" and ?i = "iidx (core_iter it)"
  note s = iter_at_sorted [OF c(2)]
  have xs: "xs = drop (Suc ?i) (page_pairs N (length vis) ?U) @ pages_pairs N ?m (Suc (length vis)) as"
    using c(7) drop_page_pairs [OF s(2), of N "length vis"] by simp
  obtain c' k where n: "siter_next N t (core_iter it) = Inr c'"
    "iter_at sort N ?m c' a as \<and> counter c' = counter (core_iter it) + 1 \<and> cur_rest (core_iter it) = k # cur_rest c' \<or>
     cur_rest (core_iter it) = [k] \<and> as = [] \<and> cur_node c' = None \<or>
     (\<exists>b bs. cur_rest (core_iter it) = [k] \<and> as = b # bs \<and> iter_at sort N ?m c' b bs \<and>
        cur_rest c' = leaf_used sort ?m b \<and> counter c' = counter (core_iter it) + 1)"
    using siter.iter_next_at [OF c(2)] unfolding siter_next_def by blast
  let ?it = "it\<lparr>core_iter := c'\<rparr>"
  have run: "cache_next gen_f N t it = reset_old_ptr gen_f ?m ?it" by (simp add: cache_next_def n(1))
  consider (along) "iter_at sort N ?m c' a as" "cur_rest (core_iter it) = k # cur_rest c'"
    | (stop) "cur_rest (core_iter it) = [k]" "as = []" "cur_node c' = None"
    | (enter) b bs where "cur_rest (core_iter it) = [k]" "as = b # bs" "iter_at sort N ?m c' b bs"
        "cur_rest c' = leaf_used sort ?m b"
    using n(2) by (elim disjE conjE exE) simp_all
  then show ?thesis
  proof cases
    case along
    note s' = iter_at_sorted [OF along(1)]
    have "length (drop ?i ?U) = Suc (length (drop (iidx c') ?U))"
      using along(2) s(1) s'(1) by (metis length_Cons)
    then have "iidx c' = Suc ?i" using s(2) s'(2) by simp
    then have "cache_rep gen_f N ?m E L ?it xs"
      unfolding cache_rep_def using side c(1,3-6) along(1) xs by auto
    moreover have "cur_node_ptr c' = a" using along(1) by (rule siter.iter_cur_at)
    ultimately show ?thesis using run reset_old_ptr_same [of ?it] c(3) by auto
  next
    case stop
    have "length (drop ?i ?U) = 1" using stop(1) s(1) by (metis length_Cons list.size(3) One_nat_def)
    then have "length ?U = Suc ?i" using s(2) by simp
    then have "xs = []" using xs stop(2) drop_page_pairs_end [of ?U "Suc ?i"] by simp
    then have "cache_rep gen_f N ?m E L ?it xs"
      unfolding cache_rep_def using side c(1,5,6) stop by auto
    then show ?thesis using run reset_old_ptr_same [of ?it] stop(3) by auto
  next
    case enter
    have "length (drop ?i ?U) = 1" using enter(1) s(1) by (metis length_Cons list.size(3) One_nat_def)
    then have "length ?U = Suc ?i" using s(2) by simp
    then have xs': "xs = pages_pairs N ?m (Suc (length vis)) (b # bs)"
      using xs enter(2) drop_page_pairs_end [of ?U "Suc ?i"] by simp
    have b: "prev_node ?it \<noteq> b" "unat (gen_f b) < 2 ^ 56" using side(3,4) c(1,3) enter(2) by auto
    have at: "iter_at sort N ?m (core_iter ?it) b bs" using enter(3) by simp
    have "ctt ?it = Some tb" using c(5) by simp
    note e = reset_old_ptr_enter [where it = ?it and R = sort and gen_f = gen_f and m = ?m, OF at b(1) this b(2)]
    let ?it' = "?it\<lparr>ctt := Some (tb\<lparr>entries := entries tb @ [tt_entry gen_f ?m b]\<rparr>),
      prev_node := b, clogic_page_id := clogic_page_id ?it + 1\<rparr>"
    have "cache_rep gen_f N ?m E L ?it' xs"
      unfolding cache_rep_def
      by (intro conjI disjI2 exI [of _ "vis @ [a]"] exI [of _ b] exI [of _ bs]
          exI [of _ "tb\<lparr>entries := entries tb @ [tt_entry gen_f ?m b]\<rparr>"])
        (use side c enter xs' iter_at_first [OF enter(3,4)] in simp_all)
    then show ?thesis using run e by auto
  qed
qed


lemma cache_cur_rep:
  assumes r: "cache_rep gen_f N (leafs t) E L it ((k, ov) # xs)" and N: "0 < N"
  shows "cache_has_next it" and "cache_cur_key it = Inr k" and "cache_opaque_val N it = Inr ov"
proof -
  let ?m = "leafs t"
  obtain vis a as where c: "L = vis @ a # as" "iter_at sort N ?m (core_iter it) a as"
    "clogic_page_id it = of_nat (Suc (length vis))"
    "(k, ov) # xs = drop (iidx (core_iter it)) (page_pairs N (length vis) (leaf_used sort ?m a)) @
       pages_pairs N ?m (Suc (length vis)) as"
    and side: "N < 2 ^ 64" "length L < 2 ^ 64"
    using r unfolding cache_rep_def by blast
  let ?U = "leaf_used sort ?m a" and ?i = "iidx (core_iter it)"
  note s = iter_at_sorted [OF c(2)]
  have k: "k = ?U ! ?i" "ov = of_nat (length vis * N + ?i)"
    using c(4) drop_page_pairs [OF s(2), of N "length vis"] by simp_all
  have "cur_rest (core_iter it) = ?U ! ?i # drop (Suc ?i) ?U"
    using s(1,2) by (simp add: Cons_nth_drop_Suc)
  then show "cache_has_next it" "cache_cur_key it = Inr k"
    using siter.iter_cur_at(1,2) [OF c(2)] k(1) by (simp_all add: cache_has_next_def cache_cur_key_def)
  have "Suc (length vis) < 2 ^ 64" using c(1) side(2) by simp
  then have "unat (of_nat (Suc (length vis)) :: u64) = Suc (length vis)"
    by (simp only: unat_of_nat) (simp add: take_bit_nat_eq_self)
  then have pos: "(0 :: u64) < of_nat (Suc (length vis))" by (simp add: word_less_nat_alt)
  have "(of_nat ?i :: u64) < of_nat N"
    using s(3) side(1) by (simp add: word_less_nat_alt unat_of_nat take_bit_nat_eq_self)
  then show "cache_opaque_val N it = Inr ov"
    using pos k(2) by (simp add: cache_opaque_val_def c(3) encode_logic_addr_def del: of_nat_Suc) simp
qed

lemma cache_seek_rep:
  fixes t :: "('k::{linorder,order_bot,order_top}, 'v) xtree"
  assumes inv: "xtree_inv N t" and ne: "root t \<noteq> NullPtr" and f: "find_leaf t k = Inr a"
    and L: "tree_leaves t = as1 @ a # as" and tt: "ctt it = Some tb"
    and g: "\<And>a. a \<in> set (tree_leaves t) \<Longrightarrow> unat (gen_f a) < 2 ^ 56"
    and size: "N < 2 ^ 64" "length (tree_leaves t) < 2 ^ 64"
  shows "\<exists>it'. cache_seek gen_f N t it k = Inr it' \<and>
    cache_rep gen_f N (leafs t) (entries tb) (a # as) it' (pages_pairs N (leafs t) 0 (a # as))"
proof -
  have good: "\<forall>b\<in>set (a # as). good_leaf N (leafs t) b" using good_leaves [OF inv ne] L by simp
  have chain: "leaf_chain (leafs t) 0 (a # as)" and d: "distinct (a # as)" "a \<noteq> 0"
    using inv L by (simp_all add: xtree_inv_def leaf_chain_append)
  obtain c where c: "siter_seek N t (core_iter it) k = Inr c" "iter_at sort N (leafs t) c a as"
    "cur_rest c = leaf_used sort (leafs t) a"
    using siter.iter_seek_at [OF f good chain] unfolding siter_seek_def by blast
  let ?it = "it\<lparr>clogic_page_id := 0, prev_node := 0, core_iter := c\<rparr>"
  let ?tb = "tb\<lparr>entries := entries tb @ [tt_entry gen_f (leafs t) a]\<rparr>"
  let ?it' = "?it\<lparr>ctt := Some ?tb, prev_node := a, clogic_page_id := clogic_page_id ?it + 1\<rparr>"
  have "iter_at sort N (leafs t) (core_iter ?it) a as" "prev_node ?it \<noteq> a" "ctt ?it = Some tb"
    "unat (gen_f a) < 2 ^ 56" using c(2) d(2) tt g [of a] L by simp_all
  note e = reset_old_ptr_enter [where it = ?it and R = sort and gen_f = gen_f and m = "leafs t", OF this]
  have "cache_seek gen_f N t it k = Inr ?it'" using c(1) e by (simp add: cache_seek_def)
  moreover have "cache_rep gen_f N (leafs t) (entries tb) (a # as) ?it' (pages_pairs N (leafs t) 0 (a # as))"
    unfolding cache_rep_def
    by (intro conjI disjI2 exI [of _ "[]"] exI [of _ a] exI [of _ as] exI [of _ ?tb])
      (use size g L d c(2) iter_at_first [OF c(2,3)] in simp_all)
  ultimately show ?thesis by blast
qed

interpretation cit: key_iter cache_has_next "cache_next gen_f N t" cache_cur_key "cache_opaque_val N"
  "\<lambda>it xs. 0 < N \<and> cache_rep gen_f N (leafs t) E L it xs"
  for gen_f :: "addr \<Rightarrow> u64" and N :: nat and t :: "('k::{linorder,order_top}, 'v) xtree"
    and E :: "u64 list" and L :: "addr list"
proof unfold_locales
  fix it :: "'k cache_iter" and xs
  assume r: "0 < N \<and> cache_rep gen_f N (leafs t) E L it xs"
  show "cache_has_next it \<longleftrightarrow> xs \<noteq> []"
  proof (cases xs)
    case (Cons x xs')
    then show ?thesis
      using cache_cur_rep(1) [of gen_f N t E L it "fst x" "snd x" xs'] r by simp
  next
    case Nil
    have False if "iter_at sort N (leafs t) (core_iter it) a as"
      "[] = drop (iidx (core_iter it)) (page_pairs N p (leaf_used sort (leafs t) a))" for a as p
      using that drop_page_pairs [OF iter_at_sorted(2) [OF that(1)], of N p] by simp
    with r Nil show ?thesis by (auto simp: cache_rep_def cache_has_next_def iter_has_next_def)
  qed
next
  fix it :: "'k cache_iter" and k ov and xs :: "('k \<times> u64) list"
  assume r: "0 < N \<and> cache_rep gen_f N (leafs t) E L it ((k, ov) # xs)"
  note c = cache_cur_rep [OF conjunct2 [OF r] conjunct1 [OF r]]
  show "cache_cur_key it = Inr k" by (rule c(2))
  show "cache_opaque_val N it = Inr ov" by (rule c(3))
next
  fix it :: "'k cache_iter" and x and xs :: "('k \<times> u64) list"
  assume r: "0 < N \<and> cache_rep gen_f N (leafs t) E L it (x # xs)"
  show "\<exists>it'. cache_next gen_f N t it = Inr it' \<and> 0 < N \<and> cache_rep gen_f N (leafs t) E L it' xs"
    using cache_next_rep [OF conjunct2 [OF r]] conjunct1 [OF r] by simp
qed

lemma cache_rep_done:
  assumes "cache_rep gen_f N m E L it []"
  shows "\<exists>t. ctt it = Some t \<and> entries t = E @ map (tt_entry gen_f m) L"
proof -
  have False if "iter_at sort N m (core_iter it) a as"
    "[] = drop (iidx (core_iter it)) (page_pairs N p (leaf_used sort m a)) @ xs" for a as p xs
    using that drop_page_pairs [OF iter_at_sorted(2) [OF that(1)], of N p] by simp
  with assms show ?thesis unfolding cache_rep_def by blast
qed

text \<open>The keys in the labels of a walk are the keys of its leaves, in order.\<close>

lemma map_fst_page_pairs: "map fst (page_pairs N p ks) = ks"
  by (simp add: page_pairs_def)

lemma map_fst_pages_pairs: "map fst (pages_pairs N m p as) = concat (map (leaf_used sort m) as)"
  by (induction as arbitrary: p) (simp_all add: map_fst_page_pairs)

text \<open>A label names the page of its key, and labels increase along a walk.\<close>

lemma pages_pairs_label:
  assumes "(k, lab) \<in> set (pages_pairs N m p as)"
    and "\<And>a. a \<in> set as \<Longrightarrow> length (leaf_used sort m a) \<le> N"
  shows "\<exists>j i. j < length as \<and> i < N \<and> lab = of_nat ((p + j) * N + i) \<and>
    k \<in> set (leaf_used sort m (as ! j))"
  using assms
proof (induction as arbitrary: p)
  case (Cons a as)
  show ?case
  proof (cases "(k, lab) \<in> set (page_pairs N p (leaf_used sort m a))")
    case True
    then obtain i where "i < length (leaf_used sort m a)" "k = leaf_used sort m a ! i"
      "lab = of_nat (p * N + i)" by (auto simp: page_pairs_def set_zip)
    then show ?thesis using Cons.prems(2) [of a]
      by (intro exI [of _ 0] exI [of _ i]) simp
  next
    case False
    then have "(k, lab) \<in> set (pages_pairs N m (Suc p) as)" using Cons.prems(1) by simp
    from Cons.IH [OF this] Cons.prems(2) obtain j i where "j < length as" "i < N"
      "lab = of_nat ((Suc p + j) * N + i)" "k \<in> set (leaf_used sort m (as ! j))" by auto
    then show ?thesis by (intro exI [of _ "Suc j"] exI [of _ i]) simp
  qed
qed simp

lemma length_leaf_used:
  "good_leaf N m a \<Longrightarrow> length (leaf_used sort (m :: ('k::{linorder,order_top}, 'v) leafs) a) \<le> N"
  using node_okD(1) by (fastforce simp: good_leaf_def leaf_used_def used_from_def
      intro: order_trans [OF length_filter_le])


section \<open>Properties\<close>

lemma pages_pairs_entry:
  assumes "(x, lab) \<in> set (pages_pairs N m 0 as)" and "\<And>a. a \<in> set as \<Longrightarrow> good_leaf N m a"
    and "length as * N < 2 ^ 64" and "\<And>a. a \<in> set as \<Longrightarrow> unat (gen_f a) < 2 ^ 56"
    and "entries t = map (tt_entry gen_f m) as"
  shows "\<exists>a\<in>set as. x \<in> dom (leaf_map m a) \<and>
    get_wo_incar t (unat (decode_logic_id (of_nat N) lab)) = Inr (gen_f a)"
proof -
  obtain j i where j: "j < length as" "i < N" "lab = of_nat ((0 + j) * N + i)" "x \<in> set (leaf_used sort m (as ! j))"
    using pages_pairs_label [OF assms(1)] length_leaf_used assms(2) by blast
  have a: "as ! j \<in> set as" using j(1) by simp
  then obtain n where n: "m (as ! j) = Some n" using assms(2) by (auto simp: good_leaf_def)
  have "Suc j * N \<le> length as * N" using j(1) by (intro mult_le_mono1) simp
  then have lt: "j * N + i < 2 ^ 64" "N < 2 ^ 64" using j(2) assms(3) by simp_all
  then have "unat lab = j * N + i" "unat (of_nat N :: u64) = N"
    using j(3) by (simp_all only: unat_of_nat) (simp_all add: take_bit_nat_eq_self)
  then have "unat (decode_logic_id (of_nat N) lab) = j"
    using j(2) by (simp add: decode_logic_id_def unat_div)
  moreover have "drop_bit 8 (tt_entry gen_f m (as ! j)) = gen_f (as ! j)"
    using drop_entry [OF assms(4) [OF a], of "ucast (get_incarnation n)"] by (simp add: tt_entry_def n)
  ultimately have "get_wo_incar t (unat (decode_logic_id (of_nat N) lab)) = Inr (gen_f (as ! j))"
    using j(1) assms(5) by (simp add: get_wo_incar_def tt_at_def kIncarBit_def)
  then show ?thesis using a j(4) leaf_used_sorted(2) [OF assms(2) [OF a]] by blast
qed

text \<open>What a walk from \<open>k\<close> has in front of it: the leaf of \<open>k\<close> and the leaves behind it.\<close>

lemma walk_pairs:
  fixes t :: "('k::{linorder,order_bot,order_top}, 'v) xtree"
  assumes inv: "xtree_inv N t" "root t \<noteq> NullPtr"
  obtains a as1 as2 where "find_leaf t k = Inr a" and "tree_leaves t = as1 @ a # as2"
    and "sorted_wrt (<) (map fst (pages_pairs N (leafs t) 0 (a # as2)))"
    and "length (pages_pairs N (leafs t) 0 (a # as2)) \<le> card (dom (xtree_map t))"
    and "{x \<in> dom (xtree_map t). k \<le> x} \<subseteq> set (map fst (pages_pairs N (leafs t) 0 (a # as2)))"
proof -
  let ?m = "leafs t"
  obtain a as1 as2 where f: "find_leaf t k = Inr a" "tree_leaves t = as1 @ a # as2"
    "\<forall>x\<in>dom (leaves_map ?m as1). x < k" using find_leaf_at [OF inv] by blast
  let ?L = "a # as2" and ?xs = "pages_pairs N ?m 0 (a # as2)"
  have keys: "map fst ?xs = concat (map (leaf_used sort ?m) ?L)" by (rule map_fst_pages_pairs)
  have all: "concat (map (leaf_used sort ?m) as1) @ map fst ?xs = sorted_list_of_set (dom (xtree_map t))"
    using sorted_iter_keys(1) [OF inv] unfolding keys f(2) by simp
  have "sorted_wrt (<) (map fst ?xs)"
    using strict_sorted_list_of_set [of "dom (xtree_map t)"] unfolding all [symmetric]
    by (simp add: sorted_wrt_append)
  moreover have "length (map fst ?xs) \<le> card (dom (xtree_map t))" using arg_cong [OF all, of length] by simp
  moreover have "set (map fst ?xs) = dom (leaves_map ?m ?L)"
  proof -
    have "set (leaf_used sort ?m b) = dom (leaf_map ?m b)" if "b \<in> set ?L" for b
      using that by (intro leaf_used_sorted(2) [OF good_leaves [OF inv]]) (auto simp: f(2))
    then show ?thesis unfolding keys dom_leaves_map by (simp cong: SUP_cong)
  qed
  then have "{x \<in> dom (xtree_map t). k \<le> x} \<subseteq> set (map fst ?xs)"
    unfolding xtree_map_def f(2) leaves_map_append dom_map_add using f(3) leD by blast
  ultimately show ?thesis using that f(1,2) by simp
qed

text \<open>C16: a training walk that seeks a key \<open>k\<close> and runs to the end yields, in increasing order, all
  keys of the tree from \<open>k\<close> on (and those before it in its leaf), and the translation table it
  fills maps the page number of every label to the leaf that holds the key.\<close>

theorem cache_walk_labels:
  fixes t :: "('k::{linorder,order_bot,order_top}, 'v) xtree"
  assumes inv: "xtree_inv N t" "root t \<noteq> NullPtr" and tt: "ctt it = Some TT"
    and g: "\<forall>a\<in>set (tree_leaves t). unat (gen_f a) < 2 ^ 56"
    and size: "0 < N" "length (tree_leaves t) * N < 2 ^ 64" and n: "card (dom (xtree_map t)) < n"
  shows "\<exists>it1 it2 xs tb. cache_seek gen_f N t it k = Inr it1 \<and>
    key_iter.walk cache_has_next (cache_next gen_f N t) cache_cur_key (cache_opaque_val N) n it1 =
      Some (Inr (xs, it2)) \<and>
    sorted_wrt (<) (map fst xs) \<and> {x \<in> dom (xtree_map t). k \<le> x} \<subseteq> set (map fst xs) \<and>
    ctt it2 = Some tb \<and>
    (\<forall>(x, lab)\<in>set xs. \<exists>a\<in>set (tree_leaves t). x \<in> dom (leaf_map (leafs t) a) \<and>
       get_wo_incar tb (unat (decode_logic_id (of_nat N) lab)) = Inr (gen_f a))"
proof -
  let ?m = "leafs t"
  obtain a as1 as2 where f: "find_leaf t k = Inr a" "tree_leaves t = as1 @ a # as2"
    and xs: "sorted_wrt (<) (map fst (pages_pairs N ?m 0 (a # as2)))"
      "length (pages_pairs N ?m 0 (a # as2)) \<le> card (dom (xtree_map t))"
      "{x \<in> dom (xtree_map t). k \<le> x} \<subseteq> set (map fst (pages_pairs N ?m 0 (a # as2)))"
    using walk_pairs [OF inv] by blast
  let ?L = "a # as2" and ?xs = "pages_pairs N ?m 0 (a # as2)"
  have "N \<le> length (tree_leaves t) * N" "length ?L * N \<le> length (tree_leaves t) * N" by (simp_all add: f(2))
  moreover have "length (tree_leaves t) \<le> length (tree_leaves t) * N" using size(1) by simp
  note le = calculation this
  have sz: "N < 2 ^ 64" "length (tree_leaves t) < 2 ^ 64" "length ?L * N < 2 ^ 64"
    by (fact le [THEN order_le_less_trans, OF size(2)])+
  from cache_seek_rep [OF inv f tt _ sz(1,2), of gen_f] g obtain it1 where
    it1: "cache_seek gen_f N t it k = Inr it1" "cache_rep gen_f N ?m [] ?L it1 ?xs"
    by (auto simp: TT_def)
  have "length ?xs < n" using xs(2) n by simp
  then obtain it2 where it2: "key_iter.walk cache_has_next (cache_next gen_f N t)
      cache_cur_key (cache_opaque_val N) n it1 = Some (Inr (?xs, it2))" "cache_rep gen_f N ?m [] ?L it2 []"
    using cit.walk_rep [of N gen_f t "[]" ?L it1 ?xs n] it1(2) size(1) by blast
  obtain tb where tb: "ctt it2 = Some tb" "entries tb = map (tt_entry gen_f ?m) ?L"
    using cache_rep_done [OF it2(2)] by auto
  have sub: "set ?L \<subseteq> set (tree_leaves t)" unfolding f(2) by auto
  have "\<exists>a\<in>set (tree_leaves t). x \<in> dom (leaf_map ?m a) \<and>
      get_wo_incar tb (unat (decode_logic_id (of_nat N) lab)) = Inr (gen_f a)" if x: "(x, lab) \<in> set ?xs" for x lab
  proof -
    have "\<exists>a\<in>set ?L. x \<in> dom (leaf_map ?m a) \<and>
      get_wo_incar tb (unat (decode_logic_id (of_nat N) lab)) = Inr (gen_f a)"
      by (rule pages_pairs_entry [OF x _ sz(3) _ tb(2)]) (use good_leaves [OF inv] g sub in blast)+
    then show ?thesis using sub by (meson subsetD)
  qed
  then show ?thesis using it1(1) it2(1) xs(1,3) tb(1) by blast
qed

definition sample_cache_iter :: "xkey cache_iter" where
  "sample_cache_iter = \<lparr>prev_node = 0, core_iter = iter_init, ctt = Some TT, clogic_page_id = 0\<rparr>"

theorem cache_walk_labels_witness:
  "\<exists>it1 it2 xs tb. cache_seek gen_f_default 2 sample_tree sample_cache_iter (XKey 3) = Inr it1 \<and>
    key_iter.walk cache_has_next (cache_next gen_f_default 2 sample_tree) cache_cur_key (cache_opaque_val 2) 10 it1 =
      Some (Inr (xs, it2)) \<and>
    sorted_wrt (<) (map fst xs) \<and> {x \<in> dom (xtree_map sample_tree). XKey 3 \<le> x} \<subseteq> set (map fst xs) \<and>
    ctt it2 = Some tb \<and>
    (\<forall>(x, lab)\<in>set xs. \<exists>a\<in>set (tree_leaves sample_tree). x \<in> dom (leaf_map (leafs sample_tree) a) \<and>
       get_wo_incar tb (unat (decode_logic_id (of_nat 2) lab)) = Inr (gen_f_default a))"
proof (rule cache_walk_labels [OF sample_tree_inv])
  show "card (dom (xtree_map sample_tree)) < 10" by (simp add: sample_tree_dom(2))
qed (simp_all add: sample_cache_iter_def sample_tree_leaves gen_f_default_def)

end
