(* ===== verification/CacheTrain.thy ===== *)
theory CacheTrain
  imports LinearFit CacheIter
begin

text \<open>
  Training over the tree: the tree's iterator and the training iterator as the records of operations
  the trainer takes, and the interpretation of the contract \<open>training\<close> on the training iterator with
  the page sampler and the page updater of the server. The lemmas show what one trained submodel and
  its translation table give for every key of its range: the predicted pages cover the page of the
  key, and the table maps that page to the leaf that holds it.
\<close>

section \<open>The iterators as operations\<close>

definition tree_ops :: "nat \<Rightarrow> ('k::{linorder,order_bot,order_top}, 'v) xtree \<Rightarrow> ('k xtree_iter, 'k) key_iter_ops" where
  "tree_ops N t = \<lparr>from_impl = XTreeIter N t, begin_impl = Inr, seek_impl = titer_seek N t,
     next_impl = titer_next N t, has_next_impl = iter_has_next, cur_key_impl = iter_cur_key,
     opaque_val_impl = (\<lambda>it. Inr (iter_opaque_val it))\<rparr>"

definition cache_ops :: "(addr \<Rightarrow> u64) \<Rightarrow> nat \<Rightarrow> ('k::{linorder,order_bot,order_top}, 'v) xtree
    \<Rightarrow> ('k cache_iter, 'k) key_iter_ops" where
  "cache_ops gen_f N t = \<lparr>from_impl = XCacheTreeIter N t None, begin_impl = cache_begin gen_f (leafs t),
     seek_impl = cache_seek gen_f N t, next_impl = cache_next gen_f N t, has_next_impl = cache_has_next,
     cur_key_impl = cache_cur_key, opaque_val_impl = cache_opaque_val N\<rparr>"

interpretation tree_scan: full_iter "tree_ops N t" "iter_rep (\<lambda>ks. ks) N (leafs t)"
  for N :: nat and t :: "('k::{linorder,order_bot,order_top}, 'v) xtree"
  by unfold_locales (unfold tree_ops_def key_iter_ops.simps, (fact tit.has_next_rep tit.cur_rep tit.opaque_rep tit.next_rep)+)

text \<open>The leaves a walk from a key visits.\<close>

definition leaves_from :: "('k::linorder, 'v) xtree \<Rightarrow> 'k \<Rightarrow> addr list" where
  "leaves_from t k = (case find_leaf t k of Inr a \<Rightarrow> dropWhile (\<lambda>b. b \<noteq> a) (tree_leaves t) | Inl _ \<Rightarrow> [])"

lemma leaves_from_at:
  assumes "find_leaf t k = Inr a" and "tree_leaves t = as1 @ a # as2" and "distinct (tree_leaves t)"
  shows "leaves_from t k = a # as2"
proof -
  have "a \<notin> set as1" using assms(2,3) by simp
  then have "dropWhile (\<lambda>b. b \<noteq> a) (as1 @ a # as2) = a # as2" by (subst dropWhile_append2) auto
  then show ?thesis using assms(1,2) by (simp add: leaves_from_def)
qed

section \<open>Labels increase\<close>

lemma page_pairs_nth:
  "i < length ks \<Longrightarrow> page_pairs N p ks ! i = (ks ! i, of_nat (p * N + i))"
  by (simp add: page_pairs_def)

lemma map_snd_page_pairs: "map snd (page_pairs N p ks) = map (\<lambda>i. of_nat (p * N + i)) [0..<length ks]"
  by (simp add: page_pairs_def)

lemma pages_pairs_sorted:
  assumes "\<And>a. a \<in> set as \<Longrightarrow> length (leaf_used sort m a) \<le> N" and "(p + length as) * N < 2 ^ 64"
  shows "sorted_wrt (<) (map snd (pages_pairs N m p as))"
    and "\<forall>l\<in>set (map snd (pages_pairs N m p as)). p * N \<le> unat l \<and> unat l < (p + length as) * N"
proof -
  have "sorted_wrt (<) (map snd (pages_pairs N m p as)) \<and>
    (\<forall>l\<in>set (map snd (pages_pairs N m p as)). p * N \<le> unat l \<and> unat l < (p + length as) * N)"
    using assms
  proof (induction as arbitrary: p)
    case (Cons a as)
    let ?n = "length (leaf_used sort m a)" and ?S = "map snd (pages_pairs N m (Suc p) as)"
    have n: "?n \<le> N" using Cons.prems(1) by simp
    have b: "(Suc p + length as) * N < 2 ^ 64" using Cons.prems(2) by simp
    have ih: "sorted_wrt (<) ?S" "\<forall>l\<in>set ?S. Suc p * N \<le> unat l \<and> unat l < (Suc p + length as) * N"
      using Cons.IH [OF Cons.prems(1) b] by simp_all
    have u: "unat (of_nat (p * N + i) :: u64) = p * N + i" if "i < ?n" for i
    proof -
      have "p * N \<le> (p + length as) * N" by (intro mult_le_mono1) simp
      moreover have "N + (p + length as) * N < 2 ^ 64" using b by simp
      ultimately have "p * N + i < 2 ^ 64" using that n by linarith
      then show ?thesis by (simp only: unat_of_nat) (simp add: take_bit_nat_eq_self)
    qed
    have sorted: "sorted_wrt (<) (map (\<lambda>i. of_nat (p * N + i) :: u64) [0..<?n])"
      by (simp add: sorted_wrt_iff_nth_less word_less_nat_alt u del: of_nat_add of_nat_mult)
    have l: "p * N \<le> unat l \<and> unat l < Suc p * N"
      if l: "l \<in> set (map (\<lambda>i. of_nat (p * N + i) :: u64) [0..<?n])" for l
    proof -
      obtain i where "i < ?n" "l = of_nat (p * N + i)" using l by auto
      then show ?thesis using u n by simp
    qed
    have between: "l < l'" if "l \<in> set (map (\<lambda>i. of_nat (p * N + i) :: u64) [0..<?n])" "l' \<in> set ?S" for l l'
    proof -
      have "unat l < Suc p * N" "Suc p * N \<le> unat l'" using l [OF that(1)] ih(2) that(2) by blast+
      then show ?thesis by (simp only: word_less_nat_alt)
    qed
    have "Suc p * N \<le> (p + length (a # as)) * N" by (intro mult_le_mono1) simp
    then have first: "p * N \<le> unat l \<and> unat l < (p + length (a # as)) * N"
      if "l \<in> set (map (\<lambda>i. of_nat (p * N + i) :: u64) [0..<?n])" for l
      using l [OF that] by linarith
    have "(Suc p + length as) * N = (p + length (a # as)) * N" by simp
    moreover have "p * N \<le> Suc p * N" by (intro mult_le_mono1) simp
    ultimately have rest: "p * N \<le> unat l \<and> unat l < (p + length (a # as)) * N" if "l \<in> set ?S" for l
      using ih(2) that order_trans by (metis (no_types, lifting))
    show ?case
      unfolding pages_pairs.simps map_append sorted_wrt_append map_snd_page_pairs set_append
      using sorted ih(1) between first rest by blast
  qed simp
  then show "sorted_wrt (<) (map snd (pages_pairs N m p as))"
    "\<forall>l\<in>set (map snd (pages_pairs N m p as)). p * N \<le> unat l \<and> unat l < (p + length as) * N" by blast+
qed

section \<open>The contract of the trainer\<close>

text \<open>When a walk of the training iterator from \<open>k\<close> with a table of the entries \<open>E\<close> can start.\<close>

definition walk_ok :: "(addr \<Rightarrow> u64) \<Rightarrow> nat \<Rightarrow> ('k::{linorder,order_bot,order_top}, 'v) xtree \<Rightarrow> bool" where
  "walk_ok gen_f N t \<longleftrightarrow> xtree_inv N t \<and> root t \<noteq> NullPtr \<and> 0 < N \<and>
     length (tree_leaves t) * N \<le> 2 ^ 30 \<and> (\<forall>a\<in>set (tree_leaves t). unat (gen_f a) < 2 ^ 56)"

definition walk_ready :: "(addr \<Rightarrow> u64) \<Rightarrow> nat \<Rightarrow> ('k::{linorder,order_bot,order_top}, 'v) xtree \<Rightarrow> u64 list \<Rightarrow> 'k
    \<Rightarrow> 'k cache_iter \<Rightarrow> 'k \<Rightarrow> bool" where
  "walk_ready gen_f N t E k0 it k \<longleftrightarrow> walk_ok gen_f N t \<and> k = k0 \<and> (\<exists>tb. ctt it = Some tb \<and> entries tb = E)"

definition walk_from :: "nat \<Rightarrow> ('k::{linorder,order_top}, 'v) xtree \<Rightarrow> 'k \<Rightarrow> ('k \<times> u64) list" where
  "walk_from N t k = pages_pairs N (leafs t) 0 (leaves_from t k)"

lemma walk_okD:
  assumes "walk_ok gen_f N t"
  shows "xtree_inv N t" "root t \<noteq> NullPtr" "0 < N" "length (tree_leaves t) * N < 2 ^ 64" "N < 2 ^ 64"
    "length (tree_leaves t) < 2 ^ 64" "\<And>a. a \<in> set (tree_leaves t) \<Longrightarrow> unat (gen_f a) < 2 ^ 56"
    "\<And>a. a \<in> set (tree_leaves t) \<Longrightarrow> good_leaf N (leafs t) a" "distinct (tree_leaves t)"
    "tree_leaves t \<noteq> []"
proof -
  show i: "xtree_inv N t" "root t \<noteq> NullPtr" "0 < N" and
    "\<And>a. a \<in> set (tree_leaves t) \<Longrightarrow> unat (gen_f a) < 2 ^ 56" using assms by (simp_all add: walk_ok_def)
  show "\<And>a. a \<in> set (tree_leaves t) \<Longrightarrow> good_leaf N (leafs t) a" by (rule good_leaves [OF i(1,2)])
  show "distinct (tree_leaves t)" using i(1) by (simp add: xtree_inv_def)
  show ne: "tree_leaves t \<noteq> []" using find_leaf_bot [OF i(1,2)] by auto
  have l: "length (tree_leaves t) * N \<le> 2 ^ 30" using assms by (simp add: walk_ok_def)
  then show "length (tree_leaves t) * N < 2 ^ 64" by simp
  have "1 \<le> length (tree_leaves t)" using ne by (simp add: Suc_le_eq)
  then have "1 * N \<le> length (tree_leaves t) * N" by (rule mult_le_mono1)
  then have "N \<le> 2 ^ 30" using l by linarith
  then show "N < 2 ^ 64" by simp
  have "length (tree_leaves t) * 1 \<le> length (tree_leaves t) * N" using i(3) by (intro mult_le_mono2) simp
  then have "length (tree_leaves t) \<le> 2 ^ 30" using l by linarith
  then show "length (tree_leaves t) < 2 ^ 64" by simp
qed

lemma walk_ok_small:
  assumes "walk_ok gen_f N t"
  shows "length (tree_leaves t) \<le> 2 ^ 30" and "N \<le> 2 ^ 30"
proof -
  have l: "length (tree_leaves t) * N \<le> 2 ^ 30" using assms by (simp add: walk_ok_def)
  have "length (tree_leaves t) * 1 \<le> length (tree_leaves t) * N"
    using walk_okD(3) [OF assms] by (intro mult_le_mono2) simp
  then show "length (tree_leaves t) \<le> 2 ^ 30" using l by linarith
  have "1 \<le> length (tree_leaves t)" using walk_okD(10) [OF assms] by (simp add: Suc_le_eq)
  then have "1 * N \<le> length (tree_leaves t) * N" by (rule mult_le_mono1)
  then show "N \<le> 2 ^ 30" using l by linarith
qed

lemma walk_from_ok:
  fixes t :: "('k::{linorder,order_bot,order_top}, 'v) xtree"
  assumes w: "walk_ok gen_f N t"
  shows "sorted_wrt (<) (map fst (walk_from N t k))" and "sorted_wrt (<) (map snd (walk_from N t k))"
    and "length (walk_from N t k) \<le> card (dom (xtree_map t))"
    and "{x \<in> dom (xtree_map t). k \<le> x} \<subseteq> set (map fst (walk_from N t k))"
    and "\<exists>as1. tree_leaves t = as1 @ leaves_from t k" and "leaves_from t k \<noteq> []"
    and "\<exists>a as. leaves_from t k = a # as \<and> find_leaf t k = Inr a"
    and "\<forall>l\<in>set (map snd (walk_from N t k)). unat l < 2 ^ 30"
proof -
  note D = walk_okD [OF w]
  obtain a as1 as2 where f: "find_leaf t k = Inr a" "tree_leaves t = as1 @ a # as2"
    and xs: "sorted_wrt (<) (map fst (pages_pairs N (leafs t) 0 (a # as2)))"
      "length (pages_pairs N (leafs t) 0 (a # as2)) \<le> card (dom (xtree_map t))"
      "{x \<in> dom (xtree_map t). k \<le> x} \<subseteq> set (map fst (pages_pairs N (leafs t) 0 (a # as2)))"
    using walk_pairs [OF D(1,2)] by blast
  have L: "leaves_from t k = a # as2" using f D(9) by (rule leaves_from_at)
  have W: "walk_from N t k = pages_pairs N (leafs t) 0 (a # as2)" by (simp only: walk_from_def L)
  show "sorted_wrt (<) (map fst (walk_from N t k))" "length (walk_from N t k) \<le> card (dom (xtree_map t))"
    "{x \<in> dom (xtree_map t). k \<le> x} \<subseteq> set (map fst (walk_from N t k))" unfolding W by (fact xs)+
  show "\<exists>as1. tree_leaves t = as1 @ leaves_from t k" "leaves_from t k \<noteq> []"
    "\<exists>a as. leaves_from t k = a # as \<and> find_leaf t k = Inr a" using f by (auto simp: L)
  have "length (a # as2) * N \<le> length (tree_leaves t) * N" unfolding f(2) by (intro mult_le_mono1) simp
  moreover have "length (tree_leaves t) * N \<le> 2 ^ 30" using w by (simp add: walk_ok_def)
  ultimately have le: "(0 + length (a # as2)) * N \<le> 2 ^ 30" by simp
  have n: "\<And>b. b \<in> set (a # as2) \<Longrightarrow> length (leaf_used sort (leafs t) b) \<le> N"
    by (intro length_leaf_used D(8)) (auto simp: f(2))
  have "(0 + length (a # as2)) * N < 2 ^ 64" using le by (rule order_le_less_trans) simp
  note ps = pages_pairs_sorted [of "a # as2" "leafs t", OF n this]
  show "sorted_wrt (<) (map snd (walk_from N t k))" unfolding W by (rule ps(1))
  show "\<forall>l\<in>set (map snd (walk_from N t k)). unat l < 2 ^ 30"
    unfolding W using ps(2) le by (meson order_less_le_trans)
qed

text \<open>Every sampler, and every update function that bounds the error in pages, can be used.\<close>

locale page_trainer = error_bound f "\<lambda>x. x div int (unat N')"
  for f :: update_fun and N' :: u64
begin

lemma walk_training:
  fixes t :: "('k::{linorder,order_bot,order_top}, 'v) xtree"
  assumes S: "sampler (add_impl S) (finalize_impl S) s0 keep"
  shows "training (cache_ops gen_f N t) (\<lambda>it xs. 0 < N \<and> cache_rep gen_f N (leafs t) E (leaves_from t k0) it xs)
    (walk_ready gen_f N t E k0) (walk_from N t) S s0 keep f (\<lambda>x. x div int (unat N'))"
proof (intro_locales; (fact error_bound_axioms S)?)
  show "key_iter (has_next_impl (cache_ops gen_f N t)) (next_impl (cache_ops gen_f N t))
      (cur_key_impl (cache_ops gen_f N t)) (opaque_val_impl (cache_ops gen_f N t))
      (\<lambda>it xs. 0 < N \<and> cache_rep gen_f N (leafs t) E (leaves_from t k0) it xs)"
    unfolding cache_ops_def key_iter_ops.simps by (rule cit.key_iter_axioms)
  show "train_iter_axioms (cache_ops gen_f N t) (\<lambda>it xs. 0 < N \<and> cache_rep gen_f N (leafs t) E (leaves_from t k0) it xs)
      (walk_ready gen_f N t E k0) (walk_from N t)"
  proof
    fix it :: "'k cache_iter" and k assume r: "walk_ready gen_f N t E k0 it k"
    then obtain tb where w: "walk_ok gen_f N t" "k = k0" "ctt it = Some tb" "entries tb = E" by (auto simp: walk_ready_def)
    note D = walk_okD [OF w(1)] and F = walk_from_ok [OF w(1), where k = k]
    show "sorted_wrt (<) (map fst (walk_from N t k)) \<and> sorted_wrt (<) (map snd (walk_from N t k))"
      using F(1,2) by blast
    obtain a as as1 where a: "leaves_from t k = a # as" "find_leaf t k = Inr a" "tree_leaves t = as1 @ a # as"
      using F(5,7) by auto
    from cache_seek_rep [OF D(1,2) a(2,3) w(3) D(7,5,6)] D(3)
    show "\<exists>it'. seek_impl (cache_ops gen_f N t) it k = Inr it' \<and> 0 < N \<and>
        cache_rep gen_f N (leafs t) E (leaves_from t k0) it' (walk_from N t k)"
      unfolding walk_from_def a(1) w(2) [symmetric] w(4) by (simp add: cache_ops_def)
  qed
qed

end

interpretation page_tr: page_trainer "page_updater N'" N' for N' :: u64
  by unfold_locales

interpretation cache_tr: training "cache_ops gen_f N t"
  "\<lambda>it xs. 0 < N \<and> cache_rep gen_f N (leafs t) E (leaves_from t k0) it xs" "walk_ready gen_f N t E k0"
  "walk_from N t" "page_sample N'" PageSampler "page_ends N' None" "page_updater N'" "\<lambda>x. x div int (unat N')"
  for gen_f :: "addr \<Rightarrow> u64" and N :: nat and t :: "('k::{linorder,order_bot,order_top}, 'v) xtree"
    and E :: "u64 list" and k0 :: 'k and N' :: u64
  by (rule page_tr.walk_training) (simp add: page_sampler.sampler_axioms)

section \<open>The pairs the page sampler keeps of a walk\<close>

text \<open>A block of pairs on one page contributes its first and its last pair.\<close>

lemma page_ends_rest:
  assumes "\<forall>x\<in>set B. decode_logic_id N (snd x) = d" and "\<forall>x\<in>set C. decode_logic_id N (snd x) \<noteq> d" and "B \<noteq> []"
  shows "page_ends N (Some d) (B @ C) = last B # page_ends N (Some d) C"
  using assms(1,3) by (induction B) (use assms(2) in \<open>auto split: list.splits\<close>)

lemma page_ends_block:
  assumes "\<forall>x\<in>set B. decode_logic_id N (snd x) = d" and "\<forall>x\<in>set C. decode_logic_id N (snd x) \<noteq> d" and "B \<noteq> []"
    and p: "prev \<noteq> Some d"
  shows "page_ends N prev (B @ C) = (if length B = 1 then [hd B] else [hd B, last B]) @ page_ends N (Some d) C"
proof -
  obtain x B' where B: "B = x # B'" using assms(3) by (cases B) auto
  show ?thesis
  proof (cases "B' = []")
    case True
    then show ?thesis using p assms(1) by (simp add: B)
  next
    case False
    then show ?thesis using p assms(1) page_ends_rest [OF _ assms(2), of B'] by (simp add: B)
  qed
qed

text \<open>Two pairs for every page, except for the last one.\<close>

fun paired :: "u64 \<Rightarrow> ('k \<times> u64) list \<Rightarrow> bool" where
  "paired N [] = True"
| "paired N [x] = True"
| "paired N (x # y # zs) \<longleftrightarrow>
     (zs = [] \<longrightarrow> decode_logic_id N (snd x) = decode_logic_id N (snd y)) \<and> paired N zs"

text \<open>Then the second sampler, which drops every second pair, keeps one of the last page.\<close>

lemma every_paired:
  "paired N xs \<Longrightarrow> xs \<noteq> [] \<Longrightarrow> every 2 0 xs \<noteq> [] \<and>
    decode_logic_id N (snd (last (every 2 0 xs))) = decode_logic_id N (snd (last xs))"
proof (induction N xs rule: paired.induct)
  case (3 N x y zs)
  have e: "every 2 0 (x # y # zs) = x # every 2 0 zs" by simp
  show ?case using 3 unfolding e by (cases "zs = []") simp_all
qed simp_all

lemma decode_label:
  assumes "i < N" and "N < 2 ^ 64" and "p * N + i < 2 ^ 64"
  shows "decode_logic_id (of_nat N) (of_nat (p * N + i)) = of_nat p" and "unat (of_nat (p * N + i) :: u64) div N = p"
proof -
  have u: "unat (of_nat x :: u64) = x" if "x < 2 ^ 64" for x
    using that by (simp only: unat_of_nat) (simp add: take_bit_nat_eq_self)
  show d: "unat (of_nat (p * N + i) :: u64) div N = p" using assms by (simp only: u) simp
  then have "unat (decode_logic_id (of_nat N) (of_nat (p * N + i))) = p"
    using assms by (simp only: decode_logic_id_def unat_div u)
  then show "decode_logic_id (of_nat N) (of_nat (p * N + i)) = of_nat p"
    by (metis of_nat_unat ucast_id)
qed

lemma page_pairs_page:
  assumes "x \<in> set (page_pairs N p ks)" and "length ks \<le> N" and "N < 2 ^ 64" and "(p + 1) * N < 2 ^ 64"
  shows "decode_logic_id (of_nat N) (snd x) = of_nat p"
proof -
  obtain i where i: "i < length ks" "x = (ks ! i, of_nat (p * N + i))"
    using assms(1) page_pairs_nth by (fastforce simp: in_set_conv_nth page_pairs_def)
  then have "i < N" "p * N + i < 2 ^ 64" using assms(2,4) by simp_all
  then show ?thesis using decode_label(1) assms(3) i(2) by simp
qed

lemma pages_pairs_page:
  assumes "x \<in> set (pages_pairs N m p as)" and "\<And>a. a \<in> set as \<Longrightarrow> length (leaf_used sort m a) \<le> N"
    and "N < 2 ^ 64" and "(p + length as) * N < 2 ^ 64"
  shows "\<exists>j\<ge>p. j < p + length as \<and> decode_logic_id (of_nat N) (snd x) = of_nat j"
proof -
  obtain k lab where x: "x = (k, lab)" by fastforce
  obtain j i where j: "j < length as" "i < N" "lab = of_nat ((p + j) * N + i)"
    using pages_pairs_label [OF assms(1) [unfolded x] assms(2)] by blast
  have "(p + j + 1) * N \<le> (p + length as) * N" using j(1) by (intro mult_le_mono1) simp
  then have "(p + j) * N + i < 2 ^ 64" using j(2) assms(4) by simp
  then have "decode_logic_id (of_nat N) lab = of_nat (p + j)" unfolding j(3) by (rule decode_label(1) [OF j(2) assms(3)])
  then show ?thesis using j(1) x by (intro exI [of _ "p + j"]) simp
qed

lemma of_nat_page_inj:
  assumes "a < 2 ^ 64" and "b < 2 ^ 64" and "(of_nat a :: u64) = of_nat b"
  shows "a = b"
  using arg_cong [OF assms(3), of unat] assms(1,2)
  by (simp only: unat_of_nat) (simp add: take_bit_nat_eq_self)

text \<open>The window of a walk is paired when every leaf but the last one has two keys.\<close>

lemma window_paired:
  assumes "\<And>a. a \<in> set as \<Longrightarrow> length (leaf_used sort m a) \<le> N" and "N < 2 ^ 64" "(p + length as) * N < 2 ^ 64" "0 < N"
    and "\<And>a. a \<in> set (butlast as) \<Longrightarrow> 2 \<le> length (leaf_used sort m a)"
    and "\<And>q. p \<le> q \<Longrightarrow> q < 2 ^ 64 \<Longrightarrow> prev \<noteq> Some (of_nat q)"
  shows "paired (of_nat N) (page_ends (of_nat N) prev (takeWhile P (pages_pairs N m p as)))"
  using assms
proof (induction as arbitrary: p prev)
  case (Cons a as)
  let ?N = "of_nat N :: u64" and ?B = "page_pairs N p (leaf_used sort m a)" and ?C = "pages_pairs N m (Suc p) as"
  have "(p + 1) * N \<le> (p + length (a # as)) * N" by (intro mult_le_mono1) simp
  then have pN: "(p + 1) * N < 2 ^ 64" using Cons.prems(3) by linarith
  moreover have "p * 1 \<le> (p + 1) * N" using Cons.prems(4) by (intro mult_le_mono) simp_all
  ultimately have p64: "p < 2 ^ 64" by linarith
  have B: "decode_logic_id ?N (snd x) = of_nat p" if "x \<in> set ?B" for x
    using page_pairs_page [OF that Cons.prems(1) Cons.prems(2) pN] by simp
  have n: "\<And>b. b \<in> set as \<Longrightarrow> length (leaf_used sort m b) \<le> N" using Cons.prems(1) by simp
  have C: "decode_logic_id ?N (snd x) \<noteq> of_nat p" if x: "x \<in> set ?C" for x
  proof -
    have b: "(Suc p + length as) * N < 2 ^ 64" using Cons.prems(3) by simp
    obtain j where j: "Suc p \<le> j" "j < Suc p + length as" "decode_logic_id ?N (snd x) = of_nat j"
      using pages_pairs_page [OF x n Cons.prems(2) b] by blast
    have "j * 1 \<le> (Suc p + length as) * N" using j(2) Cons.prems(4) by (intro mult_le_mono) simp_all
    then have "j < 2 ^ 64" using b by simp
    then show ?thesis using of_nat_page_inj [OF _ p64] j(1,3) by force
  qed
  have pr: "prev \<noteq> Some (of_nat p)" using Cons.prems(6) p64 by blast
  have prC: "Some (of_nat p) \<noteq> Some (of_nat q :: u64)" if "Suc p \<le> q" "q < 2 ^ 64" for q
    using of_nat_page_inj [OF p64 that(2)] that(1) by force
  let ?T = "takeWhile P ?C"
  consider (all) "\<forall>x\<in>set ?B. P x" | (some) "\<exists>x\<in>set ?B. \<not> P x" by blast
  then show ?case
  proof cases
    case all
    then have w: "takeWhile P (pages_pairs N m p (a # as)) = ?B @ ?T" by simp
    have CT: "\<forall>x\<in>set ?T. decode_logic_id ?N (snd x) \<noteq> of_nat p" using C by (blast dest: set_takeWhileD)
    have ih: "paired ?N (page_ends ?N (Some (of_nat p)) ?T)"
      using Cons.IH [of "Suc p" "Some (of_nat p)"] Cons.prems prC by (cases as) auto
    show ?thesis
    proof (cases "?B = []")
      case True
      then show ?thesis using Cons.IH [of "Suc p" prev] Cons.prems unfolding w by (cases as) auto
    next
      case False
      have e: "page_ends ?N prev (?B @ ?T) =
          (if length ?B = 1 then [hd ?B] else [hd ?B, last ?B]) @ page_ends ?N (Some (of_nat p)) ?T"
        using B by (intro page_ends_block [OF _ CT False pr]) blast
      show ?thesis
      proof (cases "length ?B = 1 \<and> ?T \<noteq> []")
        case True
        then have "as \<noteq> []" by auto
        then show ?thesis using Cons.prems(5) [of a] True by (simp add: page_pairs_def)
      next
        case f: False
        have "decode_logic_id ?N (snd (hd ?B)) = decode_logic_id ?N (snd (last ?B))" using B False by simp
        then show ?thesis unfolding w e using ih f by (cases "?T = []") auto
      qed
    qed
  next
    case some
    then have w: "takeWhile P (pages_pairs N m p (a # as)) = takeWhile P ?B"
      by (metis pages_pairs.simps(2) takeWhile_append1)
    have B': "\<forall>x\<in>set (takeWhile P ?B). decode_logic_id ?N (snd x) = of_nat p" using B by (blast dest: set_takeWhileD)
    show ?thesis
    proof (cases "takeWhile P ?B = []")
      case False
      then have "decode_logic_id ?N (snd (hd (takeWhile P ?B))) = decode_logic_id ?N (snd (last (takeWhile P ?B)))"
        using B' by simp
      then show ?thesis unfolding w using page_ends_block [OF B' _ False pr, of "[]"] by simp
    qed (unfold w, simp)
  qed
qed simp

section \<open>The table after training\<close>

text \<open>
  When the trainer stops, with the pairs \<open>rest\<close> still in front of the iterator, the table has an entry
  for the page of every pair it has passed.
\<close>

lemma cache_rep_table:
  assumes r: "cache_rep gen_f N m E L it rest" and xs: "pages_pairs N m 0 L = W @ rest"
    and n: "\<And>a. a \<in> set L \<Longrightarrow> length (leaf_used sort m a) \<le> N" and sz: "length L * N < 2 ^ 64"
  shows "\<exists>tb j. ctt it = Some tb \<and> entries tb = E @ map (tt_entry gen_f m) (take j L) \<and> j \<le> length L \<and>
    (\<forall>x\<in>set W. unat (snd x) div N < j)"
proof -
  have sz0: "(0 + length L) * N < 2 ^ 64" using sz by simp
  note ps = pages_pairs_sorted [of L m N 0, OF n sz0]
  consider (over) tb where "ctt it = Some tb" "entries tb = E @ map (tt_entry gen_f m) L"
    | (at) vis a as tb where "L = vis @ a # as" "iter_at sort N m (core_iter it) a as" "ctt it = Some tb"
      "entries tb = E @ map (tt_entry gen_f m) (vis @ [a])"
      "rest = drop (iidx (core_iter it)) (page_pairs N (length vis) (leaf_used sort m a)) @
        pages_pairs N m (Suc (length vis)) as"
    using r unfolding cache_rep_def by blast
  then show ?thesis
  proof cases
    case over
    have "unat (snd x) div N < length L" if x: "x \<in> set W" for x
    proof -
      have "snd x \<in> set (map snd (pages_pairs N m 0 L))" using x by (simp add: xs)
      then have "unat (snd x) < length L * N" using ps(2) by (metis add_0)
      then show ?thesis by (rule less_mult_imp_div_less)
    qed
    then show ?thesis using over by (intro exI [of _ tb] exI [of _ "length L"]) simp
  next
    case at
    let ?i = "iidx (core_iter it)" and ?v = "length vis"
    note s = iter_at_sorted [OF at(2)]
    obtain xs' where rest: "rest = (leaf_used sort m a ! ?i, of_nat (?v * N + ?i)) # xs'"
      using at(5) drop_page_pairs [OF s(2), of N ?v] by auto
    have "unat (snd x) div N < Suc ?v" if x: "x \<in> set W" for x
    proof -
      have "snd x < of_nat (?v * N + ?i)" using ps(1) x unfolding xs rest by (auto simp: sorted_wrt_append)
      moreover have "Suc ?v * N \<le> length L * N" unfolding at(1) by (intro mult_le_mono1) simp
      then have le: "?v * N + ?i < Suc ?v * N" "?v * N + ?i < 2 ^ 64" using s(3) sz by simp_all
      then have "unat (of_nat (?v * N + ?i) :: u64) = ?v * N + ?i"
        by (simp only: unat_of_nat) (simp add: take_bit_nat_eq_self)
      ultimately have "unat (snd x) < ?v * N + ?i" by (simp only: word_less_nat_alt)
      then have "unat (snd x) < Suc ?v * N" using le(1) by (rule less_trans)
      then show ?thesis by (rule less_mult_imp_div_less)
    qed
    then show ?thesis using at(1,3,4) by (intro exI [of _ tb] exI [of _ "Suc ?v"]) simp
  qed
qed

lemma table_entry:
  assumes "entries tb = map (tt_entry gen_f m) (take n L) @ E" and "j < n" and "n \<le> length L"
    and "unat (gen_f (L ! j)) < 2 ^ 56" and "good_leaf N m (L ! j)"
  shows "get_wo_incar tb j = Inr (gen_f (L ! j))"
proof -
  obtain x where "m (L ! j) = Some x" using assms(5) by (auto simp: good_leaf_def)
  then have "drop_bit 8 (tt_entry gen_f m (L ! j)) = gen_f (L ! j)"
    using drop_entry [OF assms(4), of "ucast (get_incarnation x)"] by (simp add: tt_entry_def)
  then show ?thesis using assms(1-3) by (simp add: get_wo_incar_def tt_at_def kIncarBit_def nth_append)
qed

section \<open>A trained submodel\<close>

text \<open>What the client needs of a table, and of a submodel with its table for one key.\<close>

definition table_ok :: "(addr \<Rightarrow> u64) \<Rightarrow> ('k, 'v) xtree \<Rightarrow> tt \<Rightarrow> bool" where
  "table_ok gen_f t tb \<longleftrightarrow> tt_size tb \<le> length (tree_leaves t) \<and> (\<forall>j<tt_size tb. \<exists>a\<in>set (tree_leaves t). get_wo_incar tb j = Inr (gen_f a))"

definition found :: "(addr \<Rightarrow> u64) \<Rightarrow> nat \<Rightarrow> ('k::{linorder,order_top}, 'v) xtree \<Rightarrow> ('m \<Rightarrow> 'k \<Rightarrow> real)
    \<Rightarrow> 'm xsubmodel \<Rightarrow> tt \<Rightarrow> 'k \<Rightarrow> bool" where
  "found gen_f N t predict md tb k \<longleftrightarrow> (\<exists>lo hi j a. get_predict_range predict md k = Inr (lo, hi) \<and> 0 \<le> lo \<and>
     lo div int N \<le> int j \<and> int j \<le> hi div int N \<and> j < tt_size tb \<and> get_wo_incar tb j = Inr (gen_f a) \<and>
     a \<in> set (tree_leaves t) \<and> k \<in> dom (leaf_map (leafs t) a))"

text \<open>
  What is asked of a learner when the page sampler has picked the training set out of a window: training
  returns a model, the model predicts an \<^verbatim>\<open>int\<close> for the first and the last key of each page, and it is
  monotone on the keys of the window.
\<close>

definition fits_pages :: "('m, 'k::order) ml_ops \<Rightarrow> nat \<Rightarrow> ('k \<times> u64) list \<Rightarrow> bool" where
  "fits_pages M N W \<longleftrightarrow> (let K = page_ends (of_nat N) None W; E = every 2 0 K in
     \<exists>m. ml_train M (ml_init M) (map fst E) (map snd E) 1 = Inr m \<and>
       (\<forall>p\<in>set K. \<exists>x. double_to_int (ml_predict M m (fst p)) = Inr x) \<and> mono_on (fst ` set W) (ml_predict M m))"

text \<open>The windows that training can cut out of one tree, and learners that fit them.\<close>

definition key_window :: "nat \<Rightarrow> ('k::{linorder,order_top}, 'v) xtree \<Rightarrow> 'k \<Rightarrow> 'k \<Rightarrow> ('k \<times> u64) list" where
  "key_window N t s e = takeWhile (\<lambda>p. fst p \<le> e) (walk_from N t s)"

definition learns_all :: "('m, 'k::{linorder,order_top}) ml_ops \<Rightarrow> nat \<Rightarrow> ('k, 'v) xtree \<Rightarrow> bool" where
  "learns_all M N t \<longleftrightarrow> (\<forall>s\<in>dom (xtree_map t). \<forall>e\<in>dom (xtree_map t). s \<le> e \<longrightarrow> fits M (key_window N t s e))"

definition learns_pages :: "('m, 'k::{linorder,order_top}) ml_ops \<Rightarrow> nat \<Rightarrow> ('k, 'v) xtree \<Rightarrow> bool" where
  "learns_pages M N t \<longleftrightarrow> (\<forall>s\<in>dom (xtree_map t). \<forall>e\<in>dom (xtree_map t). s \<le> e \<longrightarrow> fits_pages M N (key_window N t s e))"

lemma tree_key_less_top:
  assumes "xtree_inv N t" and "k \<in> dom (xtree_map t)"
  shows "k \<noteq> (top :: 'k::{linorder,order_bot,order_top})"
proof -
  have "root t \<noteq> NullPtr \<or> tree_leaves t = []" using assms(1) by (cases "depth t") (auto simp: xtree_inv_def tree_leaves_def)
  then have "root t \<noteq> NullPtr" using assms(2) by (auto simp: xtree_map_def)
  then have "tree_ok N (leafs t) (depth t) bot top (root t)" using assms(1) by (simp add: xtree_inv_def)
  from tree_ok_dom [OF this] show ?thesis using assms(2) by (auto simp: xtree_map_def tree_leaves_def)
qed

lemma step_shrink:
  assumes "length ls = length ts"
  shows "\<exists>s'. shrink_set step_sample (StepSampler 2) ts ls =
    Inr (s', map fst (every 2 0 (zip ts ls)), map snd (every 2 0 (zip ts ls)))"
  using step_feed [of "StepSampler 2" "zip ts ls" "[]" "[]"] assms
  by (auto simp: shrink_feed StepSampler_def step_finalize_def)

lemma every_one: "every 1 0 xs = xs"
  by (induction xs) simp_all

lemma step_shrink_all: "\<exists>s'. shrink_set step_sample (StepSampler 1) (map fst W) (map snd W) = Inr (s', map fst W, map snd W)"
  using step_feed [of "StepSampler 1" "zip (map fst W) (map snd W)" "[]" "[]"] every_one [where xs = W]
  by (auto simp: shrink_feed StepSampler_def step_finalize_def zip_map_fst_snd)

lemma last_page_ends:
  "xs \<noteq> [] \<Longrightarrow> page_ends N prev xs \<noteq> [] \<and> last (page_ends N prev xs) = last xs"
proof (induction xs arbitrary: prev)
  case (Cons x xs)
  then show ?case by (cases "xs = []") auto
qed simp

lemma page_decode: "uint l div int (unat N') = uint (decode_logic_id N' l)"
  by (simp add: decode_logic_id_def uint_div)

lemma decode_mono: "l \<le> l' \<Longrightarrow> uint (decode_logic_id N' l) \<le> uint (decode_logic_id N' l')"
  unfolding page_decode [symmetric] by (rule div_page_mono) (simp only: word_le_def)

text \<open>What the trainer walks over, and what is left behind its end key.\<close>

definition tr_window :: "nat \<Rightarrow> ('k::{linorder,order_top}, 'v) xtree \<Rightarrow> ('k, 'w::len word) xml_trainer \<Rightarrow> ('k \<times> u64) list" where
  "tr_window N t tr = takeWhile (\<lambda>p. fst p \<le> end_key tr) (walk_from N t (start_key tr))"

definition tr_rest :: "nat \<Rightarrow> ('k::{linorder,order_top}, 'v) xtree \<Rightarrow> ('k, 'w::len word) xml_trainer \<Rightarrow> ('k \<times> u64) list" where
  "tr_rest N t tr = dropWhile (\<lambda>p. fst p \<le> end_key tr) (walk_from N t (start_key tr))"

lemma tr_window_key: "tr_window N t tr = key_window N t (start_key tr) (end_key tr)"
  by (simp add: tr_window_def key_window_def)

lemma key_window_ok:
  fixes t :: "('k::{linorder,order_bot,order_top}, 'v) xtree"
  assumes w: "walk_ok gen_f N t" and s: "s \<in> dom (xtree_map t)" and e: "s \<le> e"
  shows "key_window N t s e \<noteq> []" and "sorted_wrt (<) (map fst (key_window N t s e))"
    and "sorted_wrt (<) (map snd (key_window N t s e))"
proof -
  note F = walk_from_ok [OF w, where k = s]
  have ap: "walk_from N t s = key_window N t s e @ dropWhile (\<lambda>p. fst p \<le> e) (walk_from N t s)"
    by (simp add: key_window_def)
  show "sorted_wrt (<) (map fst (key_window N t s e))" "sorted_wrt (<) (map snd (key_window N t s e))"
    using F(1,2) [unfolded arg_cong [OF ap, of "map fst"] arg_cong [OF ap, of "map snd"] map_append sorted_wrt_append] by blast+
  obtain x where x: "x \<in> set (walk_from N t s)" "fst x = s" using F(4) s by auto
  then obtain y ys where y: "walk_from N t s = y # ys" by (cases "walk_from N t s") auto
  then have "fst y \<le> s" using x F(1) by auto
  then show "key_window N t s e \<noteq> []" using e by (simp add: key_window_def y)
qed

lemma learns_window:
  fixes t :: "('k::{linorder,order_bot,order_top}, 'v) xtree" and ks
  defines "tr \<equiv> foldl update_key (XMLTrainer :: ('k, 'w::len word) xml_trainer) ks"
  assumes "ks \<noteq> []" and "set ks \<subseteq> dom (xtree_map t)"
  shows "learns_all M N t \<Longrightarrow> fits M (tr_window N t tr)" and "learns_pages M N t \<Longrightarrow> fits_pages M N (tr_window N t tr)"
proof -
  have "start_key tr \<in> set ks" "end_key tr \<in> set ks" "start_key tr \<le> end_key tr"
    unfolding tr_def using trainer_range [OF assms(2), where 'w = 'w] by blast+
  then have "start_key tr \<in> dom (xtree_map t)" "end_key tr \<in> dom (xtree_map t)" "start_key tr \<le> end_key tr"
    using assms(3) by blast+
  then show "learns_all M N t \<Longrightarrow> fits M (tr_window N t tr)" "learns_pages M N t \<Longrightarrow> fits_pages M N (tr_window N t tr)"
    unfolding tr_window_key learns_all_def learns_pages_def by blast+
qed

lemma tr_window_rest: "walk_from N t (start_key tr) = tr_window N t tr @ tr_rest N t tr"
  by (simp add: tr_window_def tr_rest_def)

lemma tr_window_ok:
  fixes t :: "('k::{linorder,order_bot,order_top}, 'v) xtree"
  assumes w: "walk_ok gen_f N t"
  shows "sorted_wrt (<) (map fst (tr_window N t tr))" and "sorted_wrt (<) (map snd (tr_window N t tr))"
    and "\<forall>p\<in>set (tr_window N t tr). unat (snd p) < 2 ^ 30"
proof -
  note F = walk_from_ok [OF w, where k = "start_key tr", unfolded tr_window_rest]
  show "sorted_wrt (<) (map fst (tr_window N t tr))" "sorted_wrt (<) (map snd (tr_window N t tr))"
    "\<forall>p\<in>set (tr_window N t tr). unat (snd p) < 2 ^ 30"
    using F(1,2,8) by (auto simp: sorted_wrt_append)
qed

lemma tr_window_keys:
  fixes t :: "('k::{linorder,order_bot,order_top}, 'v) xtree" and ks
  defines "tr \<equiv> foldl update_key (XMLTrainer :: ('k, 'w::len word) xml_trainer) ks"
  assumes w: "walk_ok gen_f N t" and ks: "ks \<noteq> []" "set ks \<subseteq> dom (xtree_map t)"
  shows "\<forall>k\<in>set ks. \<exists>l. (k, l) \<in> set (tr_window N t tr)" and "tr_window N t tr \<noteq> []"
proof -
  note T = trainer_range [OF ks(1), where 'w = 'w, folded tr_def] and F = walk_from_ok [OF w, where k = "start_key tr"]
  show keys: "\<forall>k\<in>set ks. \<exists>l. (k, l) \<in> set (tr_window N t tr)"
  proof
    fix k assume k: "k \<in> set ks"
    then have le: "start_key tr \<le> k" "k \<le> end_key tr" "k \<in> dom (xtree_map t)" using T(2) ks(2) by auto
    then obtain l where l: "(k, l) \<in> set (walk_from N t (start_key tr))" using F(4) by fastforce
    have s: "sorted_wrt (<) (map fst (tr_window N t tr @ tr_rest N t tr))" using F(1) by (simp only: tr_window_rest)
    have "(k, l) \<notin> set (tr_rest N t tr)"
    proof
      assume r: "(k, l) \<in> set (tr_rest N t tr)"
      then have ne: "tr_rest N t tr \<noteq> []" by auto
      then have "\<not> fst (hd (tr_rest N t tr)) \<le> end_key tr" unfolding tr_rest_def by (rule hd_dropWhile)
      moreover have "fst (hd (tr_rest N t tr)) \<le> k"
        using s r ne by (cases "tr_rest N t tr") (auto simp: sorted_wrt_append)
      ultimately show False using le(2) by simp
    qed
    then show "\<exists>l. (k, l) \<in> set (tr_window N t tr)" using l by (auto simp: tr_window_rest)
  qed
  show "tr_window N t tr \<noteq> []" using keys T(1) by force
qed

lemma pages_pairs_keys: "x \<in> set (map fst (pages_pairs N m p as)) \<Longrightarrow> \<exists>a\<in>set as. x \<in> set (leaf_used sort m a)"
  by (induction as arbitrary: p) (auto simp: page_pairs_def)

lemma tr_window_dom:
  fixes t :: "('k::{linorder,order_bot,order_top}, 'v) xtree"
  assumes w: "walk_ok gen_f N t"
  shows "fst ` set (tr_window N t tr) \<subseteq> dom (xtree_map t)"
proof
  fix x assume "x \<in> fst ` set (tr_window N t tr)"
  then have x: "x \<in> set (map fst (walk_from N t (start_key tr)))" by (auto simp: tr_window_rest)
  note D = walk_okD [OF w] and F = walk_from_ok [OF w, where k = "start_key tr"]
  obtain as1 where L: "tree_leaves t = as1 @ leaves_from t (start_key tr)" using F(5) by blast
  obtain a where a: "a \<in> set (leaves_from t (start_key tr))" "x \<in> set (leaf_used sort (leafs t) a)"
    using pages_pairs_keys [OF x [unfolded walk_from_def]] by blast
  have a': "a \<in> set (tree_leaves t)" using a(1) by (subst L) simp
  then have "x \<in> dom (leaf_map (leafs t) a)" using leaf_used_sorted(2) [OF D(8)] a(2) by blast
  then show "x \<in> dom (xtree_map t)" using a' leaf_map_subset [of a "tree_leaves t" "leafs t"] unfolding xtree_map_def by blast
qed

text \<open>What the second sampler keeps of a window still reaches the last page of the window.\<close>

lemma shrunk_window:
  fixes t :: "('k::{linorder,order_bot,order_top}, 'v) xtree" and tr :: "('k, 'w::len word) xml_trainer" and N :: nat
  defines "W \<equiv> tr_window N t tr"
  assumes w: "walk_ok gen_f N t" and W: "W \<noteq> []"
    and two: "\<forall>a\<in>set (butlast (tree_leaves t)). 2 \<le> card (dom (leaf_map (leafs t) a))"
    and E: "E = every 2 0 (page_ends (of_nat N) None W)"
  shows "E \<noteq> []" and "set E \<subseteq> set W"
    and "\<forall>p\<in>set W. uint (decode_logic_id (of_nat N) (snd p)) \<le> uint (decode_logic_id (of_nat N) (snd (last E)))"
proof -
  let ?L = "leaves_from t (start_key tr)" and ?K = "page_ends (of_nat N) None W"
  note D = walk_okD [OF w] and F = walk_from_ok [OF w, where k = "start_key tr"]
  obtain as1 where L: "tree_leaves t = as1 @ ?L" "?L \<noteq> []" using F(5,6) by blast
  have good: "good_leaf N (leafs t) a" if "a \<in> set ?L" for a using D(8) that by (subst (asm) L(1)) simp
  have "length ?L * N \<le> length (tree_leaves t) * N" by (subst L(1)) simp
  then have sz: "(0 + length ?L) * N < 2 ^ 64" using D(4) unfolding add_0 by (rule order_le_less_trans)
  have two': "2 \<le> length (leaf_used sort (leafs t) a)" if a: "a \<in> set (butlast ?L)" for a
  proof -
    have "a \<in> set (butlast (tree_leaves t))" using a L by (subst L(1)) (simp add: butlast_append)
    then have "2 \<le> card (dom (leaf_map (leafs t) a))" using two by blast
    moreover note g = leaf_used_sorted(1,2) [OF good [OF in_set_butlastD [OF a]]]
    ultimately show ?thesis using strict_sorted_iff distinct_card by metis
  qed
  have "paired (of_nat N) ?K" unfolding W_def tr_window_def walk_from_def
    by (rule window_paired [OF _ D(5) sz D(3) two']) (simp_all add: length_leaf_used [OF good])
  moreover have "?K \<noteq> []" "last ?K = last W" using last_page_ends [OF W] by blast+
  ultimately have e: "E \<noteq> []" "decode_logic_id (of_nat N) (snd (last E)) = decode_logic_id (of_nat N) (snd (last W))"
    unfolding E using every_paired by metis+
  then show "E \<noteq> []" by blast
  show "set E \<subseteq> set W" unfolding E using every_subset page_ends_subset by fast
  have "snd p \<le> snd (last W)" if "p \<in> set W" for p
    using sorted_last_ge [of "map snd W" "snd p"] tr_window_ok(2) [OF w, of tr] that W by (simp add: last_map W_def)
  then show "\<forall>p\<in>set W. uint (decode_logic_id (of_nat N) (snd p)) \<le> uint (decode_logic_id (of_nat N) (snd (last E)))"
    unfolding e(2) using decode_mono by blast
qed

text \<open>The page of a label of a walk is the position of the leaf of its key.\<close>

lemma walk_from_leaf:
  fixes t :: "('k::{linorder,order_bot,order_top}, 'v) xtree"
  assumes w: "walk_ok gen_f N t" and x: "(x, l) \<in> set (walk_from N t k)"
  shows "unat l div N < length (leaves_from t k)" and "x \<in> dom (leaf_map (leafs t) (leaves_from t k ! (unat l div N)))"
proof -
  let ?L = "leaves_from t k"
  note D = walk_okD [OF w] and F = walk_from_ok [OF w, where k = k]
  obtain as1 where L: "tree_leaves t = as1 @ ?L" using F(5) by blast
  have good: "good_leaf N (leafs t) a" if "a \<in> set ?L" for a using D(8) that by (subst (asm) L) simp
  obtain j i where j: "j < length ?L" "i < N" "l = of_nat ((0 + j) * N + i)" "x \<in> set (leaf_used sort (leafs t) (?L ! j))"
    using pages_pairs_label [OF x [unfolded walk_from_def]] length_leaf_used [OF good] by blast
  have "Suc j * N \<le> length (tree_leaves t) * N" using j(1) by (intro mult_le_mono1) (subst L, simp)
  then have "j * N + i < 2 ^ 64" using j(2) D(4) by simp
  then have "unat l div N = j" using decode_label(2) [OF j(2) D(5)] j(3) by simp
  then show "unat l div N < length ?L" "x \<in> dom (leaf_map (leafs t) (?L ! (unat l div N)))"
    using j(1,4) leaf_used_sorted(2) [OF good] by simp_all
qed

text \<open>
  The table a trainer leaves behind: an entry for every page of the window, after the entries that
  were in it before.
\<close>

definition table_of_window :: "(addr \<Rightarrow> u64) \<Rightarrow> nat \<Rightarrow> ('k::{linorder,order_top}, 'v) xtree
    \<Rightarrow> ('k, 'w::len word) xml_trainer \<Rightarrow> u64 list \<Rightarrow> bool" where
  "table_of_window gen_f N t tr es \<longleftrightarrow> (\<exists>j\<le>length (leaves_from t (start_key tr)).
     es = map (tt_entry gen_f (leafs t)) (take j (leaves_from t (start_key tr))) \<and>
     (\<forall>x\<in>set (tr_window N t tr). unat (snd x) div N < j))"

lemma window_table:
  fixes t :: "('k::{linorder,order_bot,order_top}, 'v) xtree" and tr :: "('k, 'w::len word) xml_trainer"
  assumes w: "walk_ok gen_f N t"
    and r: "cache_rep gen_f N (leafs t) E (leaves_from t (start_key tr)) it (tr_rest N t tr)"
  shows "\<exists>tb es. ctt it = Some tb \<and> entries tb = E @ es \<and> table_of_window gen_f N t tr es"
proof -
  let ?L = "leaves_from t (start_key tr)"
  note D = walk_okD [OF w]
  have xs: "pages_pairs N (leafs t) 0 ?L = tr_window N t tr @ tr_rest N t tr"
    unfolding tr_window_rest [symmetric] walk_from_def ..
  obtain as1 where L: "tree_leaves t = as1 @ ?L" using walk_from_ok(5) [OF w] by blast
  then have Lin: "a \<in> set (tree_leaves t)" if "a \<in> set ?L" for a using that by (subst L) simp
  have "length ?L * N \<le> length (tree_leaves t) * N" by (subst L) simp
  then have sz: "length ?L * N < 2 ^ 64" using D(4) by (rule order_le_less_trans)
  show ?thesis
    using cache_rep_table [OF r xs length_leaf_used [OF D(8) [OF Lin]] sz] unfolding table_of_window_def by blast
qed

lemma table_of_window_entry:
  fixes t :: "('k::{linorder,order_bot,order_top}, 'v) xtree" and tr :: "('k, 'w::len word) xml_trainer"
  assumes w: "walk_ok gen_f N t" and es: "table_of_window gen_f N t tr es"
  shows "length es \<le> length (tree_leaves t)"
    and "\<And>tb i. entries tb = es @ es' \<Longrightarrow> i < length es \<Longrightarrow>
      get_wo_incar tb i = Inr (gen_f (leaves_from t (start_key tr) ! i)) \<and>
      leaves_from t (start_key tr) ! i \<in> set (tree_leaves t)"
    and "\<And>x. x \<in> set (tr_window N t tr) \<Longrightarrow> unat (snd x) div N < length es"
    and "\<forall>e\<in>set es. \<exists>a\<in>set (tree_leaves t). drop_bit kIncarBit e = gen_f a"
proof -
  let ?L = "leaves_from t (start_key tr)"
  note D = walk_okD [OF w]
  obtain j where j: "j \<le> length ?L" "es = map (tt_entry gen_f (leafs t)) (take j ?L)"
    "\<forall>x\<in>set (tr_window N t tr). unat (snd x) div N < j" using es unfolding table_of_window_def by blast
  have n: "length es = j" using j(1,2) by simp
  obtain as1 where L: "tree_leaves t = as1 @ ?L" using walk_from_ok(5) [OF w] by blast
  then have Lin: "a \<in> set (tree_leaves t)" if "a \<in> set ?L" for a using that by (subst L) simp
  have "length ?L \<le> length (tree_leaves t)" by (subst L) simp
  then show "length es \<le> length (tree_leaves t)" using n j(1) by linarith
  show "unat (snd x) div N < length es" if "x \<in> set (tr_window N t tr)" for x using j(3) that n by blast
  show "\<forall>e\<in>set es. \<exists>a\<in>set (tree_leaves t). drop_bit kIncarBit e = gen_f a"
  proof
    fix e assume "e \<in> set es"
    then obtain a where a: "a \<in> set ?L" "e = tt_entry gen_f (leafs t) a" unfolding j(2) by (auto dest: in_set_takeD)
    then obtain x where "leafs t a = Some x" using D(8) [OF Lin] by (auto simp: good_leaf_def)
    then have "drop_bit kIncarBit e = gen_f a"
      using drop_entry [OF D(7) [OF Lin [OF a(1)]]] by (simp add: a(2) tt_entry_def kIncarBit_def)
    then show "\<exists>a\<in>set (tree_leaves t). drop_bit kIncarBit e = gen_f a" using Lin [OF a(1)] by blast
  qed
  show "get_wo_incar tb i = Inr (gen_f (?L ! i)) \<and> ?L ! i \<in> set (tree_leaves t)"
    if "entries tb = es @ es'" "i < length es" for tb i
  proof -
    have "?L ! i \<in> set (tree_leaves t)" using that(2) j(1) n Lin by simp
    then show ?thesis
      using table_entry [where N = N and tb = tb and gen_f = gen_f and m = "leafs t" and n = j and L = ?L and E = es'] that j(1,2) n D(7,8) by simp
  qed
qed

text \<open>A submodel whose ranges cover the labels of its window finds the keys of the window.\<close>

lemma window_found:
  fixes t :: "('k::{linorder,order_bot,order_top}, 'v) xtree" and tr :: "('k, 'w::len word) xml_trainer"
  assumes w: "walk_ok gen_f N t" and es: "table_of_window gen_f N t tr es" "entries tb = es @ es'"
    and l: "(k, l) \<in> set (tr_window N t tr)"
    and c: "get_predict_range predict md k = Inr (lo, hi)" "0 \<le> lo"
      "lo div int N \<le> uint l div int N" "uint l div int N \<le> hi div int N"
  shows "found gen_f N t predict md tb k"
proof -
  have "(k, l) \<in> set (walk_from N t (start_key tr))" using l by (simp add: tr_window_rest)
  note leaf = walk_from_leaf [OF w this]
  have j: "unat l div N < length es" using table_of_window_entry(3) [OF w es(1) l] by simp
  moreover have "length es \<le> tt_size tb" using es(2) by (simp add: tt_size_def)
  moreover note table_of_window_entry(2) [OF w es j]
  moreover have "uint l div int N = int (unat l div N)" by (simp add: zdiv_int)
  ultimately show ?thesis unfolding found_def using c leaf(2)
    by (intro exI [of _ lo] exI [of _ hi] exI [of _ "unat l div N"]
        exI [of _ "leaves_from t (start_key tr) ! (unat l div N)"] conjI) simp_all
qed

context page_trainer
begin

text \<open>The trainer over the tree, for any two samplers.\<close>

lemma walk_trained:
  fixes t :: "('k::{linorder,order_bot,order_top}, 'v) xtree" and M :: "('m, 'k) ml_ops"
    and tr :: "('k, 'w::len word) xml_trainer" and s0 :: 's and S :: "('s, 'k) sample_ops"
  assumes S: "sampler (add_impl S) (finalize_impl S) s0 keep" and w: "walk_ok gen_f N t" and nt: "need_train tr"
    and n: "card (dom (xtree_map t)) < n" and tt: "ctt it = Some tb" and N': "N' = of_nat N"
    and sh: "shrink_set R ss (map fst (keep (tr_window N t tr))) (map snd (keep (tr_window N t tr))) =
      Inr (ss', map fst E, map snd E)"
    and E: "E \<noteq> []" "set E \<subseteq> set (tr_window N t tr)" "\<forall>p\<in>set (keep (tr_window N t tr)).
      uint (decode_logic_id (of_nat N) (snd p)) \<le> uint (decode_logic_id (of_nat N) (snd (last E)))"
    and m: "ml_train M (ml_init M) (map fst E) (map snd E) 1 = Inr m"
      "\<forall>p\<in>set (keep (tr_window N t tr)). \<exists>x. double_to_int (ml_predict M m (fst p)) = Inr x"
  shows "\<exists>md it' s' tb' es. train_w_it_w_shrink M (cache_ops gen_f N t) S R f n tr it s0 ss =
      Some (Inr (md, tr\<lparr>l_watermark := l_watermark tr + 1\<rparr>, it', s', ss')) \<and>
    ctt it' = Some tb' \<and> entries tb' = entries tb @ es \<and> table_of_window gen_f N t tr es \<and>
    ml md = m \<and> bounds_ok md \<and>
    (\<forall>p\<in>set (keep (tr_window N t tr)). covers (ml_predict M) md (fst p) (snd p))"
proof -
  let ?W = "tr_window N t tr"
  note T = walk_training [OF S, where gen_f = gen_f and N = N and t = t and E = "entries tb" and ?k0.0 = "start_key tr"]
  note F = walk_from_ok [OF w, where k = "start_key tr"] and WO = tr_window_ok [OF w, where tr = tr]
  have r: "walk_ready gen_f N t (entries tb) (start_key tr) it (start_key tr)" using w tt by (simp add: walk_ready_def)
  have sub: "set (keep ?W) \<subseteq> set ?W" by (rule sampler.keep_subset [OF S])
  have win: "train_iter.window (walk_from N t) tr = ?W"
    unfolding train_iter.window_def [OF training.axioms(1) [OF T]] tr_window_def ..
  have lst: "last (map snd E) = snd (last E)" using E(1) by (simp add: last_map)
  have "last E \<in> set ?W" using E(1,2) by auto
  then have lE: "unat (last (map snd E)) < 2 ^ 30" using WO(3) lst by simp
  have len: "length (walk_from N t (start_key tr)) < n" using F(3) n by simp
  have ls: "\<forall>p\<in>set (keep ?W). unat (snd p) < 2 ^ 30 \<and>
      uint (snd p) div int (unat N') \<le> uint (last (map snd E)) div int (unat N')"
    unfolding page_decode lst N' using WO(3) E(3) sub by blast
  have el: "length (map snd E) = length (map fst E)" "map snd E \<noteq> []" using E(1) by simp_all
  from training.trained [OF T, where M = M and R = R and tr = tr, unfolded win, OF nt r len sh el lE m ls]
  obtain md it' s' where md: "train_w_it_w_shrink M (cache_ops gen_f N t) S R f n tr it s0 ss =
      Some (Inr (md, tr\<lparr>l_watermark := l_watermark tr + 1\<rparr>, it', s', ss'))"
    "cache_rep gen_f N (leafs t) (entries tb) (leaves_from t (start_key tr)) it' (tr_rest N t tr)"
    "ml md = m" "bounds_ok md" "\<forall>p\<in>set (keep ?W). covers (ml_predict M) md (fst p) (snd p)"
    unfolding tr_rest_def [symmetric] by blast
  then show ?thesis using window_table [OF w md(2)] by blast
qed

text \<open>What a training that has succeeded says of the model.\<close>

lemma walk_trained_inv:
  fixes t :: "('k::{linorder,order_bot,order_top}, 'v) xtree" and M :: "('m, 'k) ml_ops"
    and tr :: "('k, 'w::len word) xml_trainer" and s0 :: 's and S :: "('s, 'k) sample_ops"
  assumes S: "sampler (add_impl S) (finalize_impl S) s0 keep" and w: "walk_ok gen_f N t" and nt: "need_train tr"
    and n: "card (dom (xtree_map t)) < n" and tt: "ctt it = Some tb"
    and sh: "shrink_set R ss (map fst (keep (tr_window N t tr))) (map snd (keep (tr_window N t tr))) =
      Inr (ss', map fst E, map snd E)"
    and ok: "train_w_it_w_shrink M (cache_ops gen_f N t) S R f n tr it s0 ss = Some (Inr (md, x))"
  shows "ml_train M (ml_init M) (map fst E) (map snd E) 1 = Inr (ml md)"
    and "\<forall>p\<in>set (keep (tr_window N t tr)). \<exists>x. double_to_int (ml_predict M (ml md) (fst p)) = Inr x"
proof -
  note T = walk_training [OF S, where gen_f = gen_f and N = N and t = t and E = "entries tb" and ?k0.0 = "start_key tr"]
  have r: "walk_ready gen_f N t (entries tb) (start_key tr) it (start_key tr)" using w tt by (simp add: walk_ready_def)
  have win: "train_iter.window (walk_from N t) tr = tr_window N t tr"
    unfolding train_iter.window_def [OF training.axioms(1) [OF T]] tr_window_def ..
  have len: "length (walk_from N t (start_key tr)) < n" using walk_from_ok(3) [OF w] n by (rule order_le_less_trans)
  show "ml_train M (ml_init M) (map fst E) (map snd E) 1 = Inr (ml md)"
    "\<forall>p\<in>set (keep (tr_window N t tr)). \<exists>x. double_to_int (ml_predict M (ml md) (fst p)) = Inr x"
    using training.trained_inv [OF T, where M = M and R = R and tr = tr, unfolded win, OF nt r len sh ok] by blast+
qed

text \<open>With the page sampler, the ranges of a monotone model cover all pairs of the window.\<close>

lemma covers_window:
  fixes M :: "('m, 'k::linorder) ml_ops"
  assumes s: "sorted_wrt (<) (map fst W)" and m: "mono_on (fst ` set W) (ml_predict M (ml md))"
    and b: "bounds_ok md" and c: "\<forall>p\<in>set (page_ends N' None W). covers (ml_predict M) md (fst p) (snd p)"
    and l: "(k, l) \<in> set W"
  shows "covers (ml_predict M) md k l"
proof -
  from page_ends_envelope [OF s l, of N' None] obtain x y where
    "x \<in> set (page_ends N' None W)" "decode_logic_id N' (snd x) = decode_logic_id N' l" "fst x \<le> k"
    "y \<in> set (page_ends N' None W)" "decode_logic_id N' (snd y) = decode_logic_id N' l" "k \<le> fst y" by auto
  moreover have "fst x \<in> fst ` set W" "fst y \<in> fst ` set W" "k \<in> fst ` set W"
    using calculation(1,4) page_ends_subset l by (force intro: rev_image_eqI)+
  ultimately show ?thesis
    using covers_between [where s = md and predict = "ml_predict M" and k = k and l = l and
        ?k1.0 = "fst x" and ?l1.0 = "snd x" and ?k2.0 = "fst y" and ?l2.0 = "snd y"] b c m
    unfolding page_decode mono_on_def by simp
qed

lemma covers_found:
  fixes t :: "('k::{linorder,order_bot,order_top}, 'v) xtree" and tr :: "('k, 'w::len word) xml_trainer"
  assumes w: "walk_ok gen_f N t" and es: "table_of_window gen_f N t tr es" "entries tb = es @ es'"
    and l: "(k, l) \<in> set (tr_window N t tr)" and N': "N' = of_nat N" and c: "covers predict md k l"
  shows "found gen_f N t predict md tb k"
proof -
  have "unat N' = N" using walk_okD(5) [OF w] by (simp only: N' unat_of_nat) (simp add: take_bit_nat_eq_self)
  with c obtain lo hi where "get_predict_range predict md k = Inr (lo, hi)" "0 \<le> lo"
    "lo div int N \<le> uint l div int N" "uint l div int N \<le> hi div int N" unfolding covers_def by auto
  with window_found [OF w es l] show ?thesis by blast
qed

text \<open>
  Every key of the range is found through the trained submodel and the table it fills, with the page
  sampler for a monotone model and with the default sampler for any model.
\<close>

lemma trained_submodel:
  fixes t :: "('k::{linorder,order_bot,order_top}, 'v) xtree" and M :: "('m, 'k) ml_ops" and ks
  defines "tr \<equiv> foldl update_key (XMLTrainer :: ('k, 'w::len word) xml_trainer) ks"
  assumes w: "walk_ok gen_f N t" and ks: "ks \<noteq> []" "set ks \<subseteq> dom (xtree_map t)"
    and two: "\<forall>a\<in>set (butlast (tree_leaves t)). 2 \<le> card (dom (leaf_map (leafs t) a))"
    and n: "card (dom (xtree_map t)) < n" and tt: "ctt it = Some TT" and M: "fits_pages M N (tr_window N t tr)" and N': "N' = of_nat N"
  shows "\<exists>md it' s' ss' tb. train_w_it_w_shrink M (cache_ops gen_f N t) (page_sample N') step_sample
      f n tr it PageSampler (StepSampler 2) =
      Some (Inr (md, tr\<lparr>l_watermark := l_watermark tr + 1\<rparr>, it', s', ss')) \<and>
    ctt it' = Some tb \<and> table_ok gen_f t tb \<and> bounds_ok md \<and>
    (\<forall>k\<in>set ks. found gen_f N t (ml_predict M) md tb k)"
proof -
  let ?W = "tr_window N t tr" and ?K = "page_ends N' None (tr_window N t tr)"
  note keys = tr_window_keys [OF w ks, where 'w = 'w, folded tr_def]
    and T = trainer_range [OF ks(1), where 'w = 'w, folded tr_def]
  define E where "E = every 2 0 ?K"
  note S = shrunk_window [OF w keys(2) two E_def [unfolded N']]
  obtain ss' where sh: "shrink_set step_sample (StepSampler 2) (map fst ?K) (map snd ?K) = Inr (ss', map fst E, map snd E)"
    using step_shrink [of "map snd ?K" "map fst ?K"] by (auto simp: zip_map_fst_snd E_def)
  obtain m where m: "ml_train M (ml_init M) (map fst E) (map snd E) 1 = Inr m" "mono_on (fst ` set ?W) (ml_predict M m)"
    "\<forall>p\<in>set ?K. \<exists>x. double_to_int (ml_predict M m (fst p)) = Inr x"
    using M unfolding fits_pages_def Let_def E_def N' by blast
  have samp: "sampler (add_impl (page_sample N')) (finalize_impl (page_sample N')) PageSampler (page_ends N' None)"
    by (simp add: page_sampler.sampler_axioms)
  have le: "\<forall>p\<in>set ?K. uint (decode_logic_id (of_nat N) (snd p)) \<le> uint (decode_logic_id (of_nat N) (snd (last E)))"
    using S(3) page_ends_subset by blast
  have "set E \<subseteq> set ?W" by (rule S(2))
  then obtain md it' s' tb es where md: "train_w_it_w_shrink M (cache_ops gen_f N t) (page_sample N') step_sample
      f n tr it PageSampler (StepSampler 2) = Some (Inr (md, tr\<lparr>l_watermark := l_watermark tr + 1\<rparr>, it', s', ss'))"
    "ctt it' = Some tb" "entries tb = entries TT @ es" "table_of_window gen_f N t tr es" "ml md = m" "bounds_ok md"
    "\<forall>p\<in>set ?K. covers (ml_predict M) md (fst p) (snd p)"
    using walk_trained [where S = "page_sample N'" and keep = "page_ends N' None", OF samp w T(3) n tt N' sh S(1,2) le m(1,3)] by blast
  have es: "entries tb = es @ []" using md(3) by (simp add: TT_def)
  note ent = table_of_window_entry [OF w md(4)]
  have "table_ok gen_f t tb" unfolding table_ok_def using ent(1) ent(2) [OF es] es by (auto simp: tt_size_def)
  moreover have "found gen_f N t (ml_predict M) md tb k" if k: "k \<in> set ks" for k
  proof -
    obtain l where l: "(k, l) \<in> set ?W" using keys(1) k by blast
    have "covers (ml_predict M) md k l"
      by (rule covers_window [OF tr_window_ok(1) [OF w] _ md(6,7) l]) (use m(2) md(5) in simp)
    then show ?thesis by (rule covers_found [OF w md(4) es l N'])
  qed
  ultimately show ?thesis using md(1,2,6) by blast
qed

lemma default_trained:
  fixes t :: "('k::{linorder,order_bot,order_top}, 'v) xtree" and M :: "('m, 'k) ml_ops"
    and tr :: "('k, 'w::len word) xml_trainer"
  assumes w: "walk_ok gen_f N t" and nt: "need_train tr" and W: "tr_window N t tr \<noteq> []"
    and n: "card (dom (xtree_map t)) < n" and tt: "ctt it = Some tb" and M: "fits M (tr_window N t tr)" and N': "N' = of_nat N"
  shows "\<exists>md it' ss' tb' es. train_w_it_w_shrink M (cache_ops gen_f N t) default_sample step_sample
      f n tr it () (StepSampler 1) =
      Some (Inr (md, tr\<lparr>l_watermark := l_watermark tr + 1\<rparr>, it', (), ss')) \<and>
    ctt it' = Some tb' \<and> entries tb' = entries tb @ es \<and> table_of_window gen_f N t tr es \<and> bounds_ok md \<and>
    (\<forall>p\<in>set (tr_window N t tr). covers (ml_predict M) md (fst p) (snd p))"
proof -
  let ?W = "tr_window N t tr"
  obtain ss' where sh: "shrink_set step_sample (StepSampler 1) (map fst ?W) (map snd ?W) = Inr (ss', map fst ?W, map snd ?W)"
    using step_shrink_all [of ?W] by blast
  obtain m where m: "ml_train M (ml_init M) (map fst ?W) (map snd ?W) 1 = Inr m"
    "\<forall>p\<in>set ?W. \<exists>x. double_to_int (ml_predict M m (fst p)) = Inr x"
    using M unfolding fits_def by blast
  have samp: "sampler (add_impl default_sample) (finalize_impl default_sample) () (\<lambda>xs. xs)"
    by (simp add: default_sampler.sampler_axioms)
  have "snd p \<le> snd (last ?W)" if "p \<in> set ?W" for p
    using sorted_last_ge [of "map snd ?W" "snd p"] tr_window_ok(2) [OF w, of tr] that W by (simp add: last_map)
  then have le: "\<forall>p\<in>set ?W. uint (decode_logic_id (of_nat N) (snd p)) \<le> uint (decode_logic_id (of_nat N) (snd (last ?W)))"
    using decode_mono by blast
  obtain md it' tb' es and u :: unit where "train_w_it_w_shrink M (cache_ops gen_f N t) default_sample step_sample
      f n tr it () (StepSampler 1) = Some (Inr (md, tr\<lparr>l_watermark := l_watermark tr + 1\<rparr>, it', u, ss'))"
    "ctt it' = Some tb'" "entries tb' = entries tb @ es" "table_of_window gen_f N t tr es" "bounds_ok md"
    "\<forall>p\<in>set ?W. covers (ml_predict M) md (fst p) (snd p)"
    using walk_trained [where S = default_sample and keep = "\<lambda>xs. xs", OF samp w nt n tt N' sh W order_refl le m] by blast
  moreover have "u = ()" by simp
  ultimately show ?thesis by blast
qed

text \<open>The other way round: the training of a submodel succeeds only when the learner fits the window.\<close>

lemma submodel_trained:
  fixes t :: "('k::{linorder,order_bot,order_top}, 'v) xtree" and M :: "('m, 'k) ml_ops" and tr :: "('k, 'w::len word) xml_trainer"
  assumes w: "walk_ok gen_f N t" and nt: "need_train tr" and n: "card (dom (xtree_map t)) < n" and tt: "ctt it = Some tb"
    and ok: "train_w_it_w_shrink M (cache_ops gen_f N t) (page_sample (of_nat N)) step_sample f n tr it PageSampler
      (StepSampler 2) = Some (Inr (md, x))"
  defines "K \<equiv> page_ends (of_nat N) None (tr_window N t tr)"
  shows "ml_train M (ml_init M) (map fst (every 2 0 K)) (map snd (every 2 0 K)) 1 = Inr (ml md)"
    and "\<forall>p\<in>set K. \<exists>x. double_to_int (ml_predict M (ml md) (fst p)) = Inr x"
proof -
  have samp: "sampler (add_impl (page_sample (of_nat N))) (finalize_impl (page_sample (of_nat N))) PageSampler (page_ends (of_nat N) None)"
    by (simp add: page_sampler.sampler_axioms)
  obtain ss' where "shrink_set step_sample (StepSampler 2) (map fst K) (map snd K) =
      Inr (ss', map fst (every 2 0 K), map snd (every 2 0 K))"
    using step_shrink [of "map snd K" "map fst K"] by (auto simp: zip_map_fst_snd)
  from walk_trained_inv [OF samp w nt n tt this [unfolded K_def] ok]
  show "ml_train M (ml_init M) (map fst (every 2 0 K)) (map snd (every 2 0 K)) 1 = Inr (ml md)"
    "\<forall>p\<in>set K. \<exists>x. double_to_int (ml_predict M (ml md) (fst p)) = Inr x" unfolding K_def by blast+
qed

lemma default_fits:
  fixes t :: "('k::{linorder,order_bot,order_top}, 'v) xtree" and M :: "('m, 'k) ml_ops" and tr :: "('k, 'w::len word) xml_trainer"
  assumes w: "walk_ok gen_f N t" and nt: "need_train tr" and n: "card (dom (xtree_map t)) < n" and tt: "ctt it = Some tb"
    and ok: "train_w_it_w_shrink M (cache_ops gen_f N t) default_sample step_sample f n tr it () (StepSampler 1) =
      Some (Inr (md, x))"
  shows "fits M (tr_window N t tr)"
proof -
  have samp: "sampler (add_impl default_sample) (finalize_impl default_sample) () (\<lambda>xs. xs)"
    by (simp add: default_sampler.sampler_axioms)
  obtain ss' where "shrink_set step_sample (StepSampler 1) (map fst (tr_window N t tr)) (map snd (tr_window N t tr)) =
      Inr (ss', map fst (tr_window N t tr), map snd (tr_window N t tr))"
    using step_shrink_all by blast
  from walk_trained_inv [OF samp w nt n tt this ok] show ?thesis unfolding fits_def by blast
qed

end

section \<open>The linear model\<close>

text \<open>
  With a least-squares solver the linear model learns all windows of a tree with up to \<open>2 ^ 20\<close> keys
  and labels; with the page sampler its models are always monotone.
\<close>

lemma lr_learns_all:
  fixes t :: "('k::{linorder,order_bot,order_top}, 'v) xtree"
  assumes w: "walk_ok gen_f N t" and ls: "\<And>rows. 2 \<le> length rows \<Longrightarrow> least_squares dval dgels rows" and z: "dval 0 = 0"
    and n: "card (dom (xtree_map t)) \<le> 2 ^ 20" "length (tree_leaves t) * N \<le> 2 ^ 20"
  shows "learns_all (lr_ops dgels dval (\<lambda>x. x) to_scalar feature0) N t"
  unfolding learns_all_def
proof (intro ballI impI, rule lr_fits)
  fix s e assume "s \<in> dom (xtree_map t)"
  note F = walk_from_ok [OF w, where k = s]
  show "length (key_window N t s e) \<le> 2 ^ 20"
    using F(3) n(1) length_takeWhile_le [of _ "walk_from N t s"] unfolding key_window_def by (meson order_trans)
  show "\<forall>p\<in>set (key_window N t s e). unat (snd p) < 2 ^ 20"
  proof
    fix p assume "p \<in> set (key_window N t s e)"
    then have "(fst p, snd p) \<in> set (walk_from N t s)" unfolding key_window_def by (auto dest: set_takeWhileD)
    from walk_from_leaf(1) [OF w this] have "unat (snd p) div N < length (leaves_from t s)" .
    moreover obtain as1 where "tree_leaves t = as1 @ leaves_from t s" using F(5) by blast
    then have "length (leaves_from t s) \<le> length (tree_leaves t)" by simp
    ultimately have "unat (snd p) div N < length (tree_leaves t)" by (rule less_le_trans)
    then have "unat (snd p) < length (tree_leaves t) * N" using walk_okD(3) [OF w] by (simp add: div_less_iff_less_mult)
    then show "unat (snd p) < 2 ^ 20" using n(2) by linarith
  qed
qed (use ls z in \<open>auto simp: fit_rows_def\<close>)

lemma sorted_every: "sorted_wrt P xs \<Longrightarrow> sorted_wrt P (every st c xs)"
proof (induction st c xs rule: every.induct)
  case (2 st x xs)
  then show ?case using every_subset [of st "st - 1" xs] by auto
qed simp_all

lemma sorted_page_ends: "sorted_wrt P xs \<Longrightarrow> sorted_wrt P (page_ends N prev xs)"
proof (induction xs arbitrary: prev)
  case (Cons x xs)
  then show ?case using page_ends_subset [of N "Some (decode_logic_id N (snd x))" xs] by auto
qed simp

lemma lr_pages_mono:
  fixes to_scalar :: "'k::linorder \<Rightarrow> real" and dgels dval feature0
  defines "M \<equiv> lr_ops dgels dval (\<lambda>x. x) to_scalar feature0"
  assumes ls: "\<And>rows. 2 \<le> length rows \<Longrightarrow> least_squares dval dgels rows" and z: "dval 0 = 0" and k: "strict_mono to_scalar"
    and W: "W \<noteq> []" "sorted_wrt (<) (map fst W)" "sorted_wrt (<) (map snd W)"
    and E: "E = every 2 0 (page_ends (of_nat N) None W)"
    and m: "ml_train M (ml_init M) (map fst E) (map snd E) 1 = Inr m"
  shows "mono (ml_predict M m)"
proof -
  have "page_ends (of_nat N) None W \<noteq> []" using last_page_ends [OF W(1)] by blast
  then have ne: "E \<noteq> []" unfolding E by (cases "page_ends (of_nat N) None W") auto
  have s: "sorted_wrt (\<lambda>x y. fst x < fst y \<and> snd x < snd y) W"
    using W(2,3) by (simp add: sorted_wrt_iff_nth_less)
  have E': "sorted_wrt (\<lambda>x y. fst x < fst y \<and> snd x < snd y) E" unfolding E by (intro sorted_every sorted_page_ends s)
  then have "sorted_wrt (<) (map (to_scalar \<circ> fst) E)" "sorted_wrt (<) (map snd E)"
    using k by (auto simp: sorted_wrt_iff_nth_less strict_mono_def)
  then show ?thesis
    unfolding M_def using lr_monotone [OF m [unfolded M_def] ne ls z] k
    by (intro monoI) (simp add: fit_rows_def strict_mono_less_eq)
qed

lemma fits_pages_lr:
  fixes to_scalar :: "'k::linorder \<Rightarrow> real"
  assumes k: "mono to_scalar" and E: "E = every 2 0 (page_ends (of_nat N) None W)" "E \<noteq> []"
    and wb: "(w, b) = (if length E \<le> 1 then (0, 0) else dgels (fit_rows to_scalar E))" and w: "0 \<le> dval w"
    and p: "\<forall>p\<in>set (page_ends (of_nat N) None W). \<exists>x. double_to_int (to_scalar (fst p) * dval w + dval b) = Inr x"
  shows "fits_pages (lr_ops dgels dval (\<lambda>x. x) to_scalar feature0) N W"
proof -
  let ?M = "lr_ops dgels dval (\<lambda>x. x) to_scalar feature0"
  have "ml_train ?M (ml_init ?M) (map fst E) (map snd E) 1 = Inr \<lparr>lr_w = w, lr_b = b\<rparr>"
    unfolding lr_train_rows using E(2) wb by (cases "dgels (fit_rows to_scalar E)") (auto split: if_splits)
  moreover have "mono (ml_predict ?M \<lparr>lr_w = w, lr_b = b\<rparr>)"
    unfolding lr_predict_exact using w k by (auto intro!: monoI mult_right_mono dest: monoD)
  ultimately show ?thesis unfolding fits_pages_def Let_def E(1) [symmetric]
    using p by (intro exI [of _ "\<lparr>lr_w = w, lr_b = b\<rparr>"]) (auto simp: lr_predict_exact intro: mono_on_subset)
qed

end
