(* ===== verification/LoadDB.thy ===== *)
theory LoadDB
  imports XTreeAlloc KVTrait FatPointer
begin

text \<open>
  The tree with the slab allocator as an instance of the store contract, and the loops that load
  the database of the servers (\<^verbatim>\<open>benchs/ycsb/server/db.hh\<close>, \<^verbatim>\<open>benchs/data_dist/server/db.hh\<close>): the
  sequential keys of \<^verbatim>\<open>load_linear\<close> with fixed-size or variable-length values, and the keys a file
  loader returns.
\<close>

section \<open>The tree as a store\<close>

definition tree_get :: "('k::linorder, 'v) xtree \<times> xalloc \<Rightarrow> 'k \<Rightarrow> 'v option res" where
  "tree_get db k = get_impl (fst db) k"

definition tree_put :: "u64 \<Rightarrow> nat \<Rightarrow> nat \<Rightarrow> ('k::{linorder,order_top}, 'v) xtree \<times> xalloc \<Rightarrow> 'k \<Rightarrow> 'v
    \<Rightarrow> (('k, 'v) xtree \<times> xalloc) res" where
  "tree_put S N sizeof_V db k v =
     rbind (insert_w_alloc (xalloc_alloc S) N sizeof_V (fst db) (snd db) k v) (\<lambda>(_, db'). Inr db')"

definition tree_inv :: "u64 \<Rightarrow> nat \<Rightarrow> nat \<Rightarrow> ('k::{linorder,order_bot,order_top}, 'v) xtree \<times> xalloc \<Rightarrow> bool" where
  "tree_inv S N n db \<longleftrightarrow> 2 \<le> N \<and> xtree_ainv (xalloc_live S) (xalloc_inv S) N (fst db) (snd db) \<and>
     can_alloc (xalloc_alloc S) (if pre_alloc_leaf_node (fst db) = 0 then Suc n else n) (snd db)"

definition tree_map :: "('k::order_top, 'v) xtree \<times> xalloc \<Rightarrow> 'k \<rightharpoonup> 'v" where
  "tree_map db = xtree_map (fst db)"

lemma tree_put_ok:
  fixes db :: "('k::{linorder,order_bot,order_top}, 'v) xtree \<times> xalloc"
  assumes "tree_inv S N (Suc n) db" and "k \<noteq> top" and "k \<notin> dom (tree_map db)"
  shows "\<exists>db'. tree_put S N sz db k v = Inr db' \<and> tree_inv S N n db' \<and>
    tree_map db' = (tree_map db)(k \<mapsto> v)"
proof -
  have "can_alloc (xalloc_alloc S)
      (if pre_alloc_leaf_node (fst db) = 0 then Suc (Suc n) else Suc n) (snd db)"
    using assms(1) by (simp add: tree_inv_def split del: if_split)
  from xa.insert_w_alloc_ok [OF _ _ assms(2) _ this, of N sz v] obtain ret t' s' where
    "insert_w_alloc (xalloc_alloc S) N sz (fst db) (snd db) k v = Inr (ret, t', s')"
    "xtree_ainv (xalloc_live S) (xalloc_inv S) N t' s'" "xtree_map t' = (xtree_map (fst db))(k \<mapsto> v)"
    "pre_alloc_leaf_node t' \<noteq> 0" "can_alloc (xalloc_alloc S) n s'"
    using assms by (auto simp: tree_inv_def tree_map_def)
  then show ?thesis
    using assms(1) by (intro exI [of _ "(t', s')"]) (simp add: tree_put_def tree_inv_def tree_map_def)
qed

lemma tree_get_ok:
  assumes "tree_inv S N n db" and "tree_map db \<noteq> Map.empty" and "k \<noteq> top"
  shows "tree_get db k = Inr (tree_map db k)"
proof -
  have inv: "xtree_inv N (fst db)" using assms(1) by (simp add: tree_inv_def xtree_ainv_def)
  have "root (fst db) \<noteq> NullPtr"
  proof
    assume r: "root (fst db) = NullPtr"
    then have "tree_leaves (fst db) = []"
      by (cases "depth (fst db)") (simp_all add: tree_leaves_def)
    then show False using assms(2) by (simp add: tree_map_def xtree_map_def)
  qed
  then show ?thesis using get_impl_ok [OF inv _ assms(3)] by (simp add: tree_get_def tree_map_def)
qed

interpretation xt: kv_trait_any tree_get "tree_put S N sz" "tree_inv S N" tree_map "\<lambda>k. k \<noteq> top"
  for S :: u64 and N sz :: nat
proof unfold_locales
  fix n and k :: 'a and v :: 'b and s :: "('a, 'b) xtree \<times> xalloc"
  assume a: "tree_inv S N (Suc n) s" "k \<noteq> top"
  show "k \<notin> dom (tree_map s) \<Longrightarrow> \<exists>s'. tree_put S N sz s k v = Inr s' \<and> tree_inv S N n s' \<and>
      tree_map s' = (tree_map s)(k \<mapsto> v)"
    using a by (rule tree_put_ok)
  assume "\<And>k'. k' \<in> dom (tree_map s) \<Longrightarrow> k' < k"
  then have "k \<notin> dom (tree_map s)" by (metis order_less_irrefl)
  with a show "\<exists>s'. tree_put S N sz s k v = Inr s' \<and> tree_inv S N n s' \<and>
      tree_map s' = (tree_map s)(k \<mapsto> v)"
    by (rule tree_put_ok)
qed (rule tree_get_ok)

lemma tree_inv_init:
  assumes "2 \<le> N" and "xalloc_inv S a" and "(cur_alloc_num a + Suc n) * unat S \<le> unat (total_sz a)"
  shows "tree_inv S N n (XTree, a)"
  using assms xtree_ainv_init [of "xalloc_inv S" a "xalloc_live S" N] xalloc_can_alloc [of S a "Suc n"]
  by (simp add: tree_inv_def pre_alloc_XTree del: can_alloc.simps)

section \<open>Loading sequential keys\<close>

text \<open>\<^verbatim>\<open>for (u64 k = 0; k < nkeys; ++k) db.insert_w_alloc(XKey(k), k, *xalloc)\<close>, with 8-byte values.\<close>

definition load_linear :: "u64 \<Rightarrow> nat \<Rightarrow> (xkey, u64) xtree \<times> xalloc \<Rightarrow> u64
    \<Rightarrow> ((xkey, u64) xtree \<times> xalloc) res" where
  "load_linear S N db nkeys =
     foldl (\<lambda>acc i. rbind acc (\<lambda>db. let k = of_nat i in tree_put S N 8 db (XKey k) k))
       (Inr db) [0..<unat nkeys]"

text \<open>
  With \<^verbatim>\<open>FLAGS_vlen\<close> the value is a fat pointer to the next \<open>len\<close> bytes of the value buffer, which
  must end before the model buffer.
\<close>

definition load_linear_v :: "u64 \<Rightarrow> nat \<Rightarrow> u32 \<Rightarrow> addr \<Rightarrow> addr
    \<Rightarrow> (xkey, fat_pointer) xtree \<times> xalloc \<Rightarrow> u64 \<Rightarrow> ((xkey, fat_pointer) xtree \<times> xalloc) res" where
  "load_linear_v S N len val_buf model_buf db nkeys =
     rbind (foldl (\<lambda>acc i. rbind acc (\<lambda>(db, cur_val_ptr).
              rbind (cassert (cur_val_ptr + ucast len \<le> model_buf)) (\<lambda>_.
              rbind (FatPointer cur_val_ptr len) (\<lambda>v.
              rbind (tree_put S N 8 db (XKey (of_nat i)) v) (\<lambda>db'.
              Inr (db', cur_val_ptr + ucast len))))))
            (Inr (db, val_buf)) [0..<unat nkeys]) (\<lambda>(db', _). Inr db')"

text \<open>The keys the file loader returns, in the order of the file; the loader is not modelled.\<close>

definition load_keys :: "u64 \<Rightarrow> nat \<Rightarrow> (xkey, u64) xtree \<times> xalloc \<Rightarrow> u64 option list
    \<Rightarrow> ((xkey, u64) xtree \<times> xalloc) res" where
  "load_keys S N db lines =
     foldl (\<lambda>acc key. rbind acc (\<lambda>db. case key of Some k \<Rightarrow> tree_put S N 8 db (XKey k) k | None \<Rightarrow> Inr db))
       (Inr db) lines"

lemma tree_load_foldl:
  "foldl (\<lambda>acc x. rbind acc (\<lambda>db. tree_put S N sz db (f x) (g x))) (Inr db) xs =
    xt.load S N sz db (map (\<lambda>x. (f x, g x)) xs)"
proof (induction xs arbitrary: db)
  case (Cons x xs)
  have err: "foldl (\<lambda>acc x. rbind acc (\<lambda>db. tree_put S N sz db (f x) (g x))) (Inl e) xs = Inl e" for e
    by (induction xs) auto
  show ?case using Cons err by (cases "tree_put S N sz db (f x) (g x)") simp_all
qed simp

lemma load_linear_load:
  "load_linear S N db n = xt.load S N 8 db (map (\<lambda>i. (XKey (of_nat i), of_nat i)) [0..<unat n])"
  unfolding load_linear_def Let_def by (rule tree_load_foldl)

lemma XKey_less: "XKey a < XKey b \<longleftrightarrow> a < b" "top = XKey (- 1)"
  by (simp_all add: xkey_defs)

lemma word_of_nat_less_mono:
  "i < j \<Longrightarrow> j < 2 ^ 64 \<Longrightarrow> (of_nat i :: u64) < of_nat j"
  by (simp add: word_less_nat_alt unat_of_nat take_bit_nat_eq_self)

lemma load_linear_list:
  fixes n :: u64
  defines "kvs \<equiv> map (\<lambda>i. (XKey (of_nat i), of_nat i :: u64)) [0..<unat n]"
  shows "sorted_wrt (<) (map fst kvs)" and "\<forall>k\<in>set (map fst kvs). k \<noteq> top"
    and "map_of kvs (XKey q) = (if q < n then Some q else None)" and "length kvs = unat n"
proof -
  have un: "unat n < 2 ^ LENGTH(64)" by (rule unsigned_less)
  then have b: "i < 2 ^ 64" if "i < unat n" for i using that by simp
  have f: "map fst kvs = map (\<lambda>i. XKey (of_nat i)) [0..<unat n]" by (simp add: kvs_def)
  show s: "sorted_wrt (<) (map fst kvs)"
    unfolding f sorted_wrt_map
    by (rule sorted_wrt_mono_rel [OF _ sorted_wrt_upt]) (auto simp: XKey_less intro!: word_of_nat_less_mono b)
  show "\<forall>k\<in>set (map fst kvs). k \<noteq> top"
  proof
    fix k assume "k \<in> set (map fst kvs)"
    then obtain i where i: "i < unat n" "k = XKey (of_nat i)" by (auto simp: kvs_def)
    have "i \<noteq> unat (- 1 :: u64)" using i(1) un by (simp add: unsigned_minus_1_eq_mask mask_eq_exp_minus_1)
    moreover have "unat (of_nat i :: u64) = i"
      using b [OF i(1)] by (simp add: unat_of_nat take_bit_nat_eq_self)
    ultimately have "(of_nat i :: u64) \<noteq> - 1" by metis
    then show "k \<noteq> top" using i(2) by (simp add: XKey_less)
  qed
  show "length kvs = unat n" by (simp add: kvs_def)
  show "map_of kvs (XKey q) = (if q < n then Some q else None)"
  proof (cases "q < n")
    case True
    then have "unat q \<in> {0..<unat n}" by (simp add: word_less_nat_alt)
    then have "(\<lambda>i. (XKey (of_nat i), of_nat i)) (unat q) \<in> set kvs"
      unfolding kvs_def set_map set_upt by (rule imageI)
    then have "(XKey q, q) \<in> set kvs" by simp
    moreover have "distinct (map fst kvs)" using s by (simp add: strict_sorted_iff)
    ultimately show ?thesis using True by simp
  next
    case False
    have "XKey q \<notin> fst ` set kvs"
    proof
      assume "XKey q \<in> fst ` set kvs"
      then obtain i where "i < unat n" "q = of_nat i" by (auto simp: kvs_def)
      then have "q < n" using b by (simp add: word_less_nat_alt unat_of_nat take_bit_nat_eq_self)
      with False show False by simp
    qed
    then show ?thesis using False by (simp add: map_of_eq_None_iff)
  qed
qed


section \<open>Loading variable-length values\<close>

definition val_fat :: "addr \<Rightarrow> u32 \<Rightarrow> u64 \<Rightarrow> fat_pointer" where
  "val_fat val_buf len i = FatPtr (push_bit 16 (val_buf + i * ucast len) OR ucast len)"

lemma val_fat_ok:
  fixes n :: u64 and len :: u32
  assumes "unat val_buf + unat n * unat len \<le> unat model_buf" and "unat model_buf < 2 ^ 48"
    and "unat len < 2 ^ 16" and "i < unat n"
  shows "FatPointer (val_buf + of_nat i * ucast len) len = Inr (val_fat val_buf len (of_nat i))"
    and "val_buf + of_nat i * ucast len + ucast len \<le> model_buf"
proof -
  have un: "unat n < 2 ^ LENGTH(64)" by (rule unsigned_less)
  have i: "unat (of_nat i :: u64) = i" using assms(4) un by (simp add: unat_of_nat take_bit_nat_eq_self)
  have l: "unat (ucast len :: u64) = unat len" using assms(3) by (simp add: unsigned_ucast_eq take_bit_nat_eq_self)
  have "Suc i * unat len \<le> unat n * unat len" using assms(4) by (intro mult_le_mono1) simp
  then have b: "unat val_buf + i * unat len + unat len \<le> unat model_buf" using assms(1) by simp
  then have lt: "unat val_buf + i * unat len + unat len < 2 ^ 64" using assms(2) by simp
  have m: "unat (of_nat i * ucast len :: u64) = i * unat len"
    using lt i l by (simp add: unat_word_ariths)
  have a: "unat (val_buf + of_nat i * ucast len) = unat val_buf + i * unat len"
    using lt m by (subst unat_add_lem [THEN iffD1]) simp_all
  have "unat (val_buf + of_nat i * ucast len + ucast len) = unat val_buf + i * unat len + unat len"
    using lt by (subst unat_add_lem [THEN iffD1]) (simp_all add: a l)
  then show "val_buf + of_nat i * ucast len + ucast len \<le> model_buf"
    using b by (simp add: word_le_nat_alt)
  have "unat (val_buf + of_nat i * ucast len) < 2 ^ 48" using a b assms(2) by simp
  then show "FatPointer (val_buf + of_nat i * ucast len) len = Inr (val_fat val_buf len (of_nat i))"
    using assms(3) by (simp add: FatPointer_def kValBit_def word_less_nat_alt val_fat_def)
qed

lemma load_linear_v_load:
  assumes "unat val_buf + unat n * unat len \<le> unat model_buf" and "unat model_buf < 2 ^ 48"
    and "unat len < 2 ^ 16"
  shows "load_linear_v S N len val_buf model_buf db n = xt.load S N 8 db
    (map (\<lambda>(k, v). (k, val_fat val_buf len v)) (map (\<lambda>i. (XKey (of_nat i), of_nat i)) [0..<unat n]))"
proof -
  let ?F = "\<lambda>acc i. rbind acc (\<lambda>(db, cur_val_ptr).
      rbind (cassert (cur_val_ptr + ucast len \<le> model_buf)) (\<lambda>_.
      rbind (FatPointer cur_val_ptr len) (\<lambda>v.
      rbind (tree_put S N 8 db (XKey (of_nat i)) v) (\<lambda>db'. Inr (db', cur_val_ptr + ucast len)))))"
  let ?kv = "\<lambda>i. (XKey (of_nat i), val_fat val_buf len (of_nat i))"
  have "foldl ?F (Inr (db, val_buf)) [0..<i] =
      rbind (xt.load S N 8 db (map ?kv [0..<i])) (\<lambda>db'. Inr (db', val_buf + of_nat i * ucast len))"
    if "i \<le> unat n" for i
    using that
  proof (induction i)
    case (Suc i)
    then have lt: "i < unat n" by simp
    note v = val_fat_ok [OF assms lt]
    have step: "?F (Inr (db', val_buf + of_nat i * ucast len)) i =
        rbind (tree_put S N 8 db' (XKey (of_nat i)) (val_fat val_buf len (of_nat i)))
          (\<lambda>db'. Inr (db', val_buf + of_nat (Suc i) * ucast len))" for db'
      using v by (simp add: algebra_simps)
    have ih: "foldl ?F (Inr (db, val_buf)) [0..<i] =
        rbind (xt.load S N 8 db (map ?kv [0..<i])) (\<lambda>db'. Inr (db', val_buf + of_nat i * ucast len))"
      using Suc by simp
    have "foldl ?F (Inr (db, val_buf)) [0..<Suc i] = ?F (foldl ?F (Inr (db, val_buf)) [0..<i]) i" by simp
    then show ?case
      unfolding ih upt_Suc_append [OF le0] map_append xt.load_append
      using step by (cases "xt.load S N 8 db (map ?kv [0..<i])") (simp_all add: rbind_def split: sum.splits)
  qed simp
  from this [OF order_refl] show ?thesis
    unfolding load_linear_v_def
    by (simp add: o_def) (simp add: rbind_def split: sum.splits)
qed

section \<open>Properties\<close>

text \<open>C2: loading a tree with distinct keys in any order, from a slab pool with one block per key
  and one to spare, succeeds, and afterwards every query returns the value that was loaded for
  the key, or nothing when it was not loaded.\<close>

theorem load_then_get:
  fixes kvs :: "('k::{linorder,order_bot,order_top} \<times> 'v) list"
  assumes N: "2 \<le> N" and pool: "0 < S" "0 < m" "unat m + unat t + unat S < 2 ^ 64"
    and room: "(length kvs + 1) * unat S \<le> unat t"
    and kvs: "distinct (map fst kvs)" "\<forall>k\<in>set (map fst kvs). k \<noteq> top" "kvs \<noteq> []" and q: "q \<noteq> top"
  shows "\<exists>db. foldl (\<lambda>acc kv. rbind acc (\<lambda>db. tree_put S N sz db (fst kv) (snd kv)))
      (Inr (XTree, XAlloc m t)) kvs = Inr db \<and> get_impl (fst db) q = Inr (map_of kvs q)"
proof -
  have inv: "tree_inv S N (0 + length kvs) (XTree :: ('k, 'v) xtree, XAlloc m t)"
    using tree_inv_init [OF N xalloc_inv_init [OF pool], of "length kvs"] room by (simp add: XAlloc_def)
  have "dom (tree_map (XTree :: ('k, 'v) xtree, XAlloc m t)) \<inter> set (map fst kvs) = {}"
    by (simp add: tree_map_def xtree_inv_empty)
  from xt.load_any [OF inv kvs(2,1) this, of sz] obtain db where
    db: "xt.load S N sz (XTree, XAlloc m t) kvs = Inr db" "tree_inv S N 0 db" "tree_map db = map_of kvs"
    by (auto simp: tree_map_def xtree_inv_empty)
  have "tree_map db \<noteq> Map.empty" using db(3) kvs(3) by (cases kvs) auto
  from tree_get_ok [OF db(2) this q] have "get_impl (fst db) q = Inr (map_of kvs q)"
    by (simp add: tree_get_def db(3))
  then show ?thesis using db(1) tree_load_foldl [of S N sz fst snd "(XTree, XAlloc m t)" kvs] by simp
qed

theorem load_then_get_witness:
  "\<exists>db. foldl (\<lambda>acc kv. rbind acc (\<lambda>db. tree_put 64 2 8 db (fst kv) (snd kv)))
      (Inr (XTree, XAlloc 4096 512)) [(XKey 5, 50), (XKey 2, 20), (XKey 9, 90 :: u64)] = Inr db \<and>
    get_impl (fst db) (XKey 2) = Inr (map_of [(XKey 5, 50), (XKey 2, 20), (XKey 9, 90)] (XKey 2))"
  by (rule load_then_get) simp_all

text \<open>\<^verbatim>\<open>load_linear\<close> of the YCSB server stores exactly the keys below \<^verbatim>\<open>nkeys\<close>, each with
  itself as its value.\<close>

theorem load_linear_get:
  assumes "2 \<le> N" and "0 < S" and "0 < m" and "unat m + unat t + unat S < 2 ^ 64"
    and room: "(unat n + 1) * unat S \<le> unat t" and n: "0 < n" and q: "q \<noteq> - 1"
  shows "\<exists>db. load_linear S N (XTree, XAlloc m t) n = Inr db \<and>
    get_impl (fst db) (XKey q) = Inr (if q < n then Some q else None)"
proof -
  let ?kvs = "map (\<lambda>i. (XKey (of_nat i), of_nat i :: u64)) [0..<unat n]"
  note l = load_linear_list [of n]
  have inv: "tree_inv S N (0 + length ?kvs) (XTree :: (xkey, u64) xtree, XAlloc m t)"
    using tree_inv_init [OF assms(1) xalloc_inv_init [OF assms(2-4)], of "unat n"] room
    by (simp add: XAlloc_def)
  have "0 < unat n" using n by (simp add: word_less_nat_alt)
  then have ne: "?kvs \<noteq> []" by simp
  have "tree_map (XTree :: (xkey, u64) xtree, XAlloc m t) = Map.empty" by (simp add: tree_map_def xtree_inv_empty)
  from xt.load_get [OF inv l(2,1) this ne, of "XKey q" 8] q l(3) [of q] show ?thesis
    by (auto simp: load_linear_load tree_get_def)
qed

theorem load_linear_get_witness:
  "\<exists>db. load_linear 64 4 (XTree, XAlloc 4096 8192) 100 = Inr db \<and>
    get_impl (fst db) (XKey 42) = Inr (if 42 < (100 :: u64) then Some 42 else None)"
  by (rule load_linear_get) simp_all

text \<open>With variable-length values, \<^verbatim>\<open>load_linear\<close> lays the values out one behind the other:
  the fat pointer found under key \<open>i\<close> decodes to the \<open>i\<close>-th block of the value buffer and its
  length, and no value reaches into the model buffer.\<close>

theorem load_linear_v_get:
  assumes "2 \<le> N" and "0 < S" and "0 < m" and "unat m + unat t + unat S < 2 ^ 64"
    and room: "(unat n + 1) * unat S \<le> unat t"
    and buf: "unat val_buf + unat n * unat len \<le> unat model_buf" "unat model_buf < 2 ^ 48" "unat len < 2 ^ 16"
    and q: "q < n"
  shows "\<exists>db p. load_linear_v S N len val_buf model_buf (XTree, XAlloc m t) n = Inr db \<and>
    get_impl (fst db) (XKey q) = Inr (Some p) \<and> get_ptr p = val_buf + q * ucast len \<and> get_sz p = len \<and>
    get_ptr p + ucast len \<le> model_buf"
proof -
  let ?base = "map (\<lambda>i. (XKey (of_nat i), of_nat i :: u64)) [0..<unat n]"
  let ?kvs = "map (\<lambda>(k, v). (k, val_fat val_buf len v)) ?base"
  note l = load_linear_list [of n]
  have keys: "map fst ?kvs = map fst ?base" by simp
  have qn: "unat q < unat n" using q by (simp add: word_less_nat_alt)
  have inv: "tree_inv S N (0 + length ?kvs) (XTree :: (xkey, fat_pointer) xtree, XAlloc m t)"
    using tree_inv_init [OF assms(1) xalloc_inv_init [OF assms(2-4)], of "unat n"] room
    by (simp add: XAlloc_def)
  have ne: "?kvs \<noteq> []" using qn by auto
  have e: "tree_map (XTree :: (xkey, fat_pointer) xtree, XAlloc m t) = Map.empty"
    by (simp add: tree_map_def xtree_inv_empty)
  have "q \<noteq> - 1" using q by auto
  then have qt: "XKey q \<noteq> top" by simp
  have k1: "\<forall>k\<in>set (map fst ?kvs). k \<noteq> top" using l(2) by auto
  have k2: "sorted_wrt (<) (map fst ?kvs)" unfolding keys by (rule l(1))
  obtain db where
    db: "load_linear_v S N len val_buf model_buf (XTree, XAlloc m t) n = Inr db"
      "get_impl (fst db) (XKey q) = Inr (map_of ?kvs (XKey q))"
    using xt.load_get [OF inv k1 k2 e ne qt, of 8]
    by (auto simp only: load_linear_v_load [OF buf] tree_get_def)
  have "map_of ?kvs (XKey q) = Some (val_fat val_buf len q)"
    unfolding map_of_map using l(3) [of q] q by simp
  moreover have "FatPointer (val_buf + q * ucast len) len = Inr (val_fat val_buf len q)"
    "val_buf + q * ucast len + ucast len \<le> model_buf"
    using val_fat_ok [OF buf qn] by simp_all
  ultimately show ?thesis
    using db FatPointer_fields(1,2) [of "val_buf + q * ucast len" len "val_fat val_buf len q"]
    by (intro exI [of _ db] exI [of _ "val_fat val_buf len q"]) simp
qed

theorem load_linear_v_get_witness:
  "\<exists>db p. load_linear_v 64 4 24 65536 131072 (XTree, XAlloc 4096 8192) 100 = Inr db \<and>
    get_impl (fst db) (XKey 42) = Inr (Some p) \<and> get_ptr p = 65536 + 42 * ucast (24 :: u32) \<and> get_sz p = 24 \<and>
    get_ptr p + ucast (24 :: u32) \<le> 131072"
  by (rule load_linear_v_get) simp_all

end
