(* ===== verification/YcsbDB.thy ===== *)
theory YcsbDB
  imports CacheTrain LoadDB
begin

text \<open>
  The database of the YCSB server (\<^verbatim>\<open>benchs/ycsb/server/db.hh\<close>): loading keys with variable-length
  values from a file, training the cache over the tree with one translation table for each submodel,
  and writing the models and the tables behind each other into the memory that clients read.

  The lemmas show that after training every key of the tree is found through the submodel that is
  selected for it and the table of that submodel.
\<close>

section \<open>Loading from a file\<close>

text \<open>\<open>lines\<close> is what the file loader returns, one option for each call; keys that fail to load are skipped.\<close>

definition load_keys_v :: "u64 \<Rightarrow> nat \<Rightarrow> u32 \<Rightarrow> addr \<Rightarrow> addr
    \<Rightarrow> (xkey, fat_pointer) xtree \<times> xalloc \<Rightarrow> u64 option list \<Rightarrow> ((xkey, fat_pointer) xtree \<times> xalloc) res" where
  "load_keys_v S N len val_buf model_buf db lines =
     rbind (foldl (\<lambda>acc key. rbind acc (\<lambda>(db, cur_val_ptr).
              case key of
                None \<Rightarrow> Inr (db, cur_val_ptr)
              | Some k \<Rightarrow>
                  rbind (cassert (cur_val_ptr + ucast len \<le> model_buf)) (\<lambda>_.
                  rbind (FatPointer cur_val_ptr len) (\<lambda>v.
                  rbind (tree_put S N 8 db (XKey k) v) (\<lambda>db'.
                  Inr (db', cur_val_ptr + ucast len))))))
            (Inr (db, val_buf)) lines) (\<lambda>(db', _). Inr db')"

section \<open>Training\<close>

text \<open>What \<^verbatim>\<open>train_db\<close> reports; an \<^verbatim>\<open>int\<close> takes a count modulo \<open>2 ^ 32\<close>.\<close>

record train_stats =
  nkeys_cdf :: "int cdf"
  error_cdf :: "int cdf"
  page_cdf :: "int cdf"
  num_error :: "(int, int) xy_data"
  null_model :: nat
  max_key :: u64
  max_idx :: int

definition train_stats0 :: train_stats where
  "train_stats0 = (let c = CDF (- (2 ^ 31)) (2 ^ 31 - 1) [] in
     \<lparr>nkeys_cdf = c, error_cdf = c, page_cdf = c, num_error = XYData, null_model = 0, max_key = 0, max_idx = -1\<rparr>)"

text \<open>One submodel: \<open>tts\<close> is filled through the pointer the iterator holds.\<close>

definition train_sub :: "('m, 'k::{linorder,order_bot,order_top}) ml_ops \<Rightarrow> nat \<Rightarrow> nat \<Rightarrow> ('k, 'v) xtree
    \<Rightarrow> ('k, 'w::len word) xml_trainer \<Rightarrow> tt \<Rightarrow> ('m xsubmodel \<times> tt) res option" where
  "train_sub M2 N n t tr tab =
     fbind (Some (XCacheTreeIter N t (Some tab))) (\<lambda>it.
     fbind (train_w_it_w_shrink M2 (cache_ops gen_f_default N t) (page_sample (of_nat N)) step_sample
         (page_updater (of_nat N)) n tr it PageSampler (StepSampler 2)) (\<lambda>(md, _, it', _, _).
     Some (Inr (md, (case ctt it' of Some tab' \<Rightarrow> tab' | None \<Rightarrow> tab)))))"

definition report_sub :: "(real \<Rightarrow> real) \<Rightarrow> nat \<Rightarrow> ('k, 'w::len word) xml_trainer \<Rightarrow> 'm xsubmodel \<Rightarrow> tt
    \<Rightarrow> train_stats \<Rightarrow> train_stats" where
  "report_sub rnd i tr md tab st =
     (let nk = to_i32 (uint (nkeys_update tr));
          st1 = (if nkeys_update tr > 0 then st\<lparr>nkeys_cdf := cdf_insert rnd real_of_int (nkeys_cdf st) nk\<rparr> else st)
      in if tt_size tab \<noteq> 0 then
           let st2 = st1\<lparr>num_error := xy_add (num_error st1) nk (total_error md),
                 error_cdf := cdf_insert rnd real_of_int (error_cdf st1) (total_error md),
                 page_cdf := cdf_insert rnd real_of_int (page_cdf st1) (to_i32 (int (tt_size tab)))\<rparr>
           in if (of_int (smax md) :: u64) > max_key st2
              then st2\<lparr>max_key := of_int (smax md), max_idx := int i\<rparr> else st2
         else st1\<lparr>null_model := null_model st1 + 1\<rparr>)"

definition report_sub_v :: "(real \<Rightarrow> real) \<Rightarrow> 'm xsubmodel \<Rightarrow> tt \<Rightarrow> train_stats \<Rightarrow> train_stats" where
  "report_sub_v rnd md tab st =
     (if tt_size tab \<noteq> 0 then
        st\<lparr>error_cdf := cdf_insert rnd real_of_int (error_cdf st) (total_error md),
           page_cdf := cdf_insert rnd real_of_int (page_cdf st) (to_i32 (int (tt_size tab)))\<rparr>
      else st\<lparr>null_model := null_model st + 1\<rparr>)"

text \<open>
  The state of the server: the cache, its tables, and the report of the last training. \<open>vlen\<close> is the
  flag; it selects the sampler of the first layer and the report.
\<close>

record ('m, 's, 'u) ycsb_db =
  cache :: "('m, 's, 'u) two_rmi option"
  tts :: "tt list"
  stats :: train_stats

definition train_step :: "(real \<Rightarrow> real) \<Rightarrow> bool \<Rightarrow> ('s, 'k::{linorder,order_bot,order_top}) ml_ops \<Rightarrow> nat \<Rightarrow> nat
    \<Rightarrow> ('k, 'v) xtree \<Rightarrow> ('k, 'w::len word) xml_trainer list \<Rightarrow> ('m, 's, 'w word) two_rmi \<times> tt list \<times> train_stats
    \<Rightarrow> nat \<Rightarrow> (('m, 's, 'w word) two_rmi \<times> tt list \<times> train_stats) res option" where
  "train_step rnd vlen M2 N n t trainers s i =
     (let (c, tabs, st) = s in
      fbind (train_sub M2 N n t (trainers ! i) (tabs ! i)) (\<lambda>(md, tab).
      Some (Inr (c\<lparr>second_layer := (second_layer c)[i := Some md]\<rparr>, tabs[i := tab],
        (if vlen then report_sub_v rnd md tab st else report_sub rnd i (trainers ! i) md tab st)))))"

definition finalize_stats :: "bool \<Rightarrow> train_stats \<Rightarrow> train_stats" where
  "finalize_stats vlen st =
     (let st1 = st\<lparr>error_cdf := cdf_finalize (error_cdf st), page_cdf := cdf_finalize (page_cdf st)\<rparr>
      in if vlen then st1
         else st1\<lparr>nkeys_cdf := cdf_finalize (nkeys_cdf st1), num_error := xy_finalize (num_error st1)\<rparr>)"

definition train_db :: "(real \<Rightarrow> real) \<Rightarrow> bool \<Rightarrow> ('m, 'k::{linorder,order_bot,order_top}) ml_ops \<Rightarrow> ('s, 'k) ml_ops
    \<Rightarrow> nat \<Rightarrow> nat \<Rightarrow> 'w::len word \<Rightarrow> ('k, 'v) xtree \<Rightarrow> ('m, 's, 'w word) ycsb_db
    \<Rightarrow> ('m, 's, 'w word) ycsb_db res option" where
  "train_db rnd vlen M M2 N n num_sub t db =
     (case cache db of
        Some _ \<Rightarrow> Some (Inr db)
      | None \<Rightarrow>
          fbind (Some (LocalTwoRMI (ml_init M) num_sub)) (\<lambda>c0.
          let tabs = tts db @ replicate (unat num_sub) TT in
          fbind (if vlen then fbind (default_train_first M (tree_ops N t) n c0) (\<lambda>(c, _). Some (Inr c))
                 else fbind (train_first M (tree_ops N t) step_sample n c0 (StepSampler 1)) (\<lambda>(c, _, _). Some (Inr c))) (\<lambda>c1.
          fbind (dispatch_keys_to_trainers rnd M (tree_ops N t) n c1) (\<lambda>trainers.
          fbind (foldl (\<lambda>acc i. fbind acc (\<lambda>s. train_step rnd vlen M2 N n t trainers s i))
              (Some (Inr (c1, tabs, train_stats0))) [0..<length trainers]) (\<lambda>(c2, tabs', st).
          Some (Inr (db\<lparr>cache := Some c2, tts := tabs', stats := finalize_stats vlen st\<rparr>)))))))"

section \<open>Serialization\<close>

text \<open>\<^verbatim>\<open>(num + multiple - 1) & -multiple\<close>.\<close>

definition round_up :: "u64 \<Rightarrow> u64 \<Rightarrow> u64 res" where
  "round_up num multiple =
     rbind (cassert (multiple \<noteq> 0 \<and> multiple AND (multiple - 1) = 0)) (\<lambda>_.
     Inr ((num + multiple - 1) AND (- multiple)))"

text \<open>
  \<open>mem\<close> is the memory from \<open>model_buf\<close> on. An image is copied to the address \<open>cur\<close> when it ends at or
  before \<open>buf_end\<close>.
\<close>

definition put_image :: "u64 \<Rightarrow> u64 \<Rightarrow> u8 list \<Rightarrow> u64 \<times> u8 list \<Rightarrow> (u64 \<times> u8 list) res" where
  "put_image model_buf buf_end s cm =
     (let (cur, mem) = cm; off = unat (cur - model_buf) in
      rbind (cassert (of_nat (length s) + cur \<le> buf_end)) (\<lambda>_.
      if off + length s \<le> length mem
      then Inr (cur + of_nat (length s), take off mem @ s @ drop (off + length s) mem)
      else Inl OutOfRange))"

definition serialize_db :: "('s, 'k) ml_ops \<Rightarrow> u64 \<Rightarrow> u64 \<Rightarrow> ('m, 's, 'w::len word) two_rmi \<Rightarrow> tt list \<Rightarrow> u8 list
    \<Rightarrow> (u64 \<times> u64 \<times> u8 list) res" where
  "serialize_db M2 model_buf buf_end c tabs mem =
     rbind (foldl (\<lambda>acc i. rbind acc (\<lambda>cm.
         rbind (sub_deref c i) (\<lambda>sub.
         rbind (xsub_serialize (ml_serialize M2) sub) (\<lambda>s. put_image model_buf buf_end s cm))))
       (Inr (model_buf, mem)) [0..<length (second_layer c)]) (\<lambda>(cur, mem1).
     rbind (round_up cur 8) (\<lambda>tt_buf.
     rbind (foldl (\<lambda>acc t. rbind acc (\<lambda>cm.
         rbind (tt_serialize t) (\<lambda>s. put_image model_buf buf_end s cm)))
       (Inr (tt_buf, mem1)) tabs) (\<lambda>(cur', mem2).
     Inr (tt_buf, cur', mem2))))"

section \<open>The first layer can be trained\<close>

text \<open>Samplers that take every pair, and learners that take every training set.\<close>

definition total_sampler :: "('s, 'k) sample_ops \<Rightarrow> bool" where
  "total_sampler S \<longleftrightarrow> (\<forall>s k l ts ls. length ls = length ts \<longrightarrow>
     (\<exists>s' ts' ls'. add_impl S s k l ts ls = Inr (s', ts', ls') \<and> length ls' = length ts'))"

definition accepts :: "('m, 'k) ml_ops \<Rightarrow> bool" where
  "accepts M \<longleftrightarrow> (\<forall>m ts ls. length ls = length ts \<longrightarrow> (\<exists>m'. ml_train M m ts ls 1 = Inr m'))"

lemma accepts_lr: "accepts (lr_ops dgels dval rnd to_scalar feature0)"
  by (auto simp: accepts_def lr_ops_def lr_train_def split: prod.split)

lemma total_samplers: "total_sampler step_sample" "total_sampler default_sample"
  by (auto simp: total_sampler_def step_add_to_def default_add_to_def Let_def)

lemma for_pairs_sample:
  assumes "total_sampler S" and "length ls = length ts"
  shows "\<exists>s' c' ts' ls'. for_pairs (\<lambda>k ov (s, c, ts, ls). rbind (add_impl S s k (ucast c) ts ls) (\<lambda>(s', ts', ls').
      Inr ((s', c + 1, ts', ls'), False))) xs (s, c :: 'w::len word, ts, ls) = Inr ((s', c', ts', ls'), []) \<and>
    length ls' = length ts'"
  using assms(2)
proof (induction xs arbitrary: s c ts ls)
  case (Cons x xs)
  obtain s1 ts1 ls1 where "add_impl S s (fst x) (ucast c) ts ls = Inr (s1, ts1, ls1)" "length ls1 = length ts1"
    using assms(1) Cons.prems unfolding total_sampler_def by blast
  then show ?case using Cons.IH [of ls1 ts1 s1 "c + 1"] by (cases x) simp
qed simp

context ops_iter
begin

lemma disp_train_ok:
  fixes d :: "('m, 'w::len word) dispatcher"
  assumes it: "from_impl I = Inr it" "begin_impl I it = Inr it1" "rep it1 xs" and n: "length xs < n"
    and S: "total_sampler S" and M: "accepts M"
  shows "\<exists>d' s' c. disp_train M I S n d s = Some (Inr (d', s', c)) \<and> dispatch_num d' = dispatch_num d"
proof -
  let ?g = "\<lambda>k (ov :: u64) (s, c :: 'w word, ts, ls). rbind (add_impl S s k (ucast c) ts ls) (\<lambda>(s', ts', ls').
      Inr ((s', c + 1, ts', ls'), False))"
  obtain s' c' ts' ls' where f: "for_pairs ?g xs (s, 0, [], []) = Inr ((s', c', ts', ls'), [])"
    "length ls' = length ts'" using for_pairs_sample [OF S, of "[]" "[]" xs s 0] by auto
  have "dispatch_body I S it a = ?g k ov a" if "rep it ((k, ov) # xs)" for it k ov xs a
    using cur_rep [OF that] by (simp add: dispatch_body_def split: prod.split)
  then obtain it2 where "it_for I n (dispatch_body I S) it1 (s, 0, [], []) = Some (Inr (it2, (s', c', ts', ls')))"
    using it_for_rep [where g = ?g and body = "dispatch_body I S", OF it(3) n f(1)] by blast
  moreover obtain m where "ml_train M (dmodel d) ts' ls' 1 = Inr m" using M f(2) unfolding accepts_def by blast
  ultimately show ?thesis using it(1,2) by (simp add: disp_train_def Let_def)
qed

end

lemma disp_train_inv:
  assumes "disp_train M I S n d s = Some (Inr (d', s', c))"
  shows "dispatch_num d' = dispatch_num d"
  using assms unfolding disp_train_def fbind_Inr_iff Let_def by (auto simp: rbind_Inr_iff split: prod.splits)

section \<open>The second layer\<close>

lemma cache_iter_from:
  fixes t :: "('k::{linorder,order_bot,order_top}, 'v) xtree"
  assumes "walk_ok gen_f N t"
  shows "\<exists>it. XCacheTreeIter N t (Some tab) = Inr it \<and> ctt it = Some tab"
  using XTreeSIter_rep [OF walk_okD(1,2) [OF assms]] by (auto simp: XCacheTreeIter_def)

lemma train_sub_ok:
  fixes t :: "('k::{linorder,order_bot,order_top}, 'v) xtree" and M2 :: "('m, 'k) ml_ops" and ks
  assumes w: "walk_ok gen_f_default N t" and ks: "set ks \<subseteq> dom (xtree_map t)"
    and two: "\<forall>a\<in>set (butlast (tree_leaves t)). 2 \<le> card (dom (leaf_map (leafs t) a))"
    and n: "card (dom (xtree_map t)) < n"
    and M2: "ks \<noteq> [] \<Longrightarrow> fits_pages M2 N (tr_window N t (foldl update_key (XMLTrainer :: ('k, 'w::len word) xml_trainer) ks))"
  shows "\<exists>md tab. train_sub M2 N n t (foldl update_key (XMLTrainer :: ('k, 'w::len word) xml_trainer) ks) TT =
      Some (Inr (md, tab)) \<and> table_ok gen_f_default t tab \<and> page_eb.bounds_ok md \<and>
    (\<forall>k\<in>set ks. found gen_f_default N t (ml_predict M2) md tab k)"
proof -
  obtain it where it: "XCacheTreeIter N t (Some TT) = Inr it" "ctt it = Some TT"
    using cache_iter_from [OF w] by blast
  show ?thesis
  proof (cases "ks = []")
    case True
    have "\<not> need_train (XMLTrainer :: ('k, 'w word) xml_trainer)" by (simp add: need_train_def XMLTrainer_def)
    then have "train_sub M2 N n t (XMLTrainer :: ('k, 'w word) xml_trainer) TT = Some (Inr (XSubModel (ml_init M2), TT))"
      using it by (simp add: train_sub_def train_w_it_w_shrink_def)
    then show ?thesis using True by (auto simp: table_ok_def tt_size_def TT_def page_eb.bounds_ok_def XSubModel_def)
  next
    case False
    from page_tr.trained_submodel [where 'w = 'w, OF w False ks two n it(2) M2 [OF False] refl] it(1)
    show ?thesis by (fastforce simp: train_sub_def)
  qed
qed

text \<open>A submodel that was trained is a model of a window; when it is monotone on the keys of the tree, the
  learner fits the window.\<close>

lemma train_sub_trained:
  fixes t :: "('k::{linorder,order_bot,order_top}, 'v) xtree" and M2 :: "('m, 'k) ml_ops" and ks
  defines "tr \<equiv> foldl update_key (XMLTrainer :: ('k, 'w::len word) xml_trainer) ks"
  assumes w: "walk_ok gen_f_default N t" and ks: "ks \<noteq> []" and n: "card (dom (xtree_map t)) < n"
    and ok: "train_sub M2 N n t tr TT = Some (Inr (md, tab))"
  shows "let K = page_ends (of_nat N) None (tr_window N t tr); E = every 2 0 K in
      ml_train M2 (ml_init M2) (map fst E) (map snd E) 1 = Inr (ml md) \<and>
      (\<forall>p\<in>set K. \<exists>x. double_to_int (ml_predict M2 (ml md) (fst p)) = Inr x)"
proof -
  obtain it where it: "XCacheTreeIter N t (Some TT) = Inr it" "ctt it = Some TT"
    using cache_iter_from [OF w] by blast
  obtain x where "train_w_it_w_shrink M2 (cache_ops gen_f_default N t) (page_sample (of_nat N)) step_sample
      (page_updater (of_nat N)) n tr it PageSampler (StepSampler 2) = Some (Inr (md, x))"
    using ok it(1) unfolding train_sub_def fbind_Inr_iff by auto
  moreover have "need_train tr" using trainer_range(3) [OF ks, where 'w = 'w] by (simp add: tr_def)
  ultimately show ?thesis using page_tr.submodel_trained [OF w _ n it(2)] unfolding Let_def by blast
qed

lemma train_sub_fits:
  fixes t :: "('k::{linorder,order_bot,order_top}, 'v) xtree" and M2 :: "('m, 'k) ml_ops" and ks
  defines "tr \<equiv> foldl update_key (XMLTrainer :: ('k, 'w::len word) xml_trainer) ks"
  assumes w: "walk_ok gen_f_default N t" and ks: "ks \<noteq> []" and n: "card (dom (xtree_map t)) < n"
    and ok: "train_sub M2 N n t tr TT = Some (Inr (md, tab))" and m: "mono_on (dom (xtree_map t)) (ml_predict M2 (ml md))"
  shows "fits_pages M2 N (tr_window N t tr)"
proof -
  have "mono_on (fst ` set (tr_window N t tr)) (ml_predict M2 (ml md))"
    using m by (rule mono_on_subset) (rule tr_window_dom [OF w])
  then show ?thesis using train_sub_trained [OF w ks n ok [unfolded tr_def]] unfolding fits_pages_def tr_def Let_def by blast
qed

text \<open>
  The loop over the submodels, for a step that stores a submodel and its table and keeps whatever \<open>Q\<close>
  says of the rest of the state.
\<close>

definition submodels :: "('m, 's, 'w::len word) two_rmi \<Rightarrow> (nat \<Rightarrow> 's xsubmodel) \<Rightarrow> (nat \<Rightarrow> tt) \<Rightarrow> nat
    \<Rightarrow> ('m, 's, 'w word) two_rmi \<times> tt list" where
  "submodels c0 md tab j = (c0\<lparr>second_layer := map (\<lambda>i. Some (md i)) [0..<j] @ drop j (second_layer c0)\<rparr>,
     map tab [0..<j] @ replicate (length (second_layer c0) - j) TT)"

lemma submodels_next:
  assumes "j < length (second_layer c0)" and "submodels c0 md tab j = (c, tabs)"
  shows "tabs ! j = TT" and "(c\<lparr>second_layer := (second_layer c)[j := Some (md j)]\<rparr>, tabs[j := tab j]) = submodels c0 md tab (Suc j)"
proof -
  have "(map (\<lambda>i. Some (md i)) [0..<j] @ drop j (second_layer c0))[j := Some (md j)] =
      map (\<lambda>i. Some (md i)) [0..<Suc j] @ drop (Suc j) (second_layer c0)"
    using assms(1) by (simp add: list_update_append Cons_nth_drop_Suc [symmetric])
  moreover have "(map tab [0..<j] @ replicate (length (second_layer c0) - j) TT)[j := tab j] =
      map tab [0..<Suc j] @ replicate (length (second_layer c0) - Suc j) TT"
    using assms(1) by (simp add: list_update_append Suc_diff_Suc [symmetric])
  ultimately show "(c\<lparr>second_layer := (second_layer c)[j := Some (md j)]\<rparr>, tabs[j := tab j]) = submodels c0 md tab (Suc j)"
    using assms(2) by (auto simp: submodels_def)
  show "tabs ! j = TT" using assms by (auto simp: submodels_def nth_append)
qed

lemma submodel_steps:
  fixes c0 :: "('m, 's, 'w::len word) two_rmi" and X0 :: 'x
  assumes sub: "\<And>i c tabs X. i < length (second_layer c0) \<Longrightarrow> tabs ! i = TT \<Longrightarrow> Q i X \<Longrightarrow>
      \<exists>X'. stp (c, tabs, X) i = Some (Inr (c\<lparr>second_layer := (second_layer c)[i := Some (md i)]\<rparr>, tabs[i := tab i], X')) \<and>
        Q (Suc i) X'"
    and Q: "Q 0 X0" and j: "j \<le> length (second_layer c0)"
  shows "\<exists>X' c tabs. foldl (\<lambda>acc i. fbind acc (\<lambda>s. stp s i)) (Some (Inr (c0, replicate (length (second_layer c0)) TT, X0))) [0..<j] =
    Some (Inr (c, tabs, X')) \<and> (c, tabs) = submodels c0 md tab j \<and> Q j X'"
  using j
proof (induction j)
  case 0
  then show ?case using Q by (auto simp: submodels_def)
next
  case (Suc j)
  let ?loop = "foldl (\<lambda>acc i. fbind acc (\<lambda>s. stp s i)) (Some (Inr (c0, replicate (length (second_layer c0)) TT, X0)))"
  obtain X c tabs where ih: "?loop [0..<j] = Some (Inr (c, tabs, X))" "submodels c0 md tab j = (c, tabs)" "Q j X"
    using Suc by auto
  have j: "j < length (second_layer c0)" using Suc.prems by simp
  note nxt = submodels_next [OF j ih(2)]
  obtain X' where "stp (c, tabs, X) j = Some (Inr (c\<lparr>second_layer := (second_layer c)[j := Some (md j)]\<rparr>, tabs[j := tab j], X'))"
    "Q (Suc j) X'" using sub [OF j nxt(1) ih(3)] by blast
  then show ?case using ih(1) nxt(2) by (intro exI [of _ X'] exI [of _ "c\<lparr>second_layer := (second_layer c)[j := Some (md j)]\<rparr>"]
        exI [of _ "tabs[j := tab j]"]) simp
qed

text \<open>When the loop has ended, every step has.\<close>

lemma submodel_steps_inv:
  fixes c0 :: "('m, 's, 'w::len word) two_rmi" and X0 :: 'x
  assumes sub: "\<And>i c tabs X s. i < length (second_layer c0) \<Longrightarrow> tabs ! i = TT \<Longrightarrow> stp (c, tabs, X) i = Some (Inr s) \<Longrightarrow>
      \<exists>m tb X'. P i m tb \<and> s = (c\<lparr>second_layer := (second_layer c)[i := Some m]\<rparr>, tabs[i := tb], X')"
    and ok: "foldl (\<lambda>acc i. fbind acc (\<lambda>s. stp s i)) (Some (Inr (c0, replicate (length (second_layer c0)) TT, X0))) [0..<j] =
      Some (Inr (c, tabs, X))" and j: "j \<le> length (second_layer c0)"
  shows "\<exists>md tab. (\<forall>i<j. P i (md i) (tab i)) \<and> submodels c0 md tab j = (c, tabs)"
  using ok j
proof (induction j arbitrary: c tabs X)
  case 0
  then show ?case by (auto simp: submodels_def)
next
  case (Suc j)
  obtain c1 tabs1 X1 where s: "foldl (\<lambda>acc i. fbind acc (\<lambda>s. stp s i))
      (Some (Inr (c0, replicate (length (second_layer c0)) TT, X0))) [0..<j] = Some (Inr (c1, tabs1, X1))"
    "stp (c1, tabs1, X1) j = Some (Inr (c, tabs, X))" using Suc.prems(1) by (auto simp: fbind_Inr_iff)
  obtain md tab where ih: "\<forall>i<j. P i (md i) (tab i)" "submodels c0 md tab j = (c1, tabs1)"
    using Suc.IH [OF s(1)] Suc.prems(2) by auto
  have j: "j < length (second_layer c0)" using Suc.prems(2) by simp
  obtain m tb where m: "P j m tb" "(c, tabs) = (c1\<lparr>second_layer := (second_layer c1)[j := Some m]\<rparr>, tabs1[j := tb])"
    using sub [OF j submodels_next(1) [OF j ih(2)] s(2)] by auto
  have "map (\<lambda>i. Some ((md(j := m)) i)) [0..<j] = map (\<lambda>i. Some (md i)) [0..<j]" "map (tab(j := tb)) [0..<j] = map tab [0..<j]"
    by simp_all
  then have "submodels c0 (md(j := m)) (tab(j := tb)) j = (c1, tabs1)" using ih(2) by (simp only: submodels_def)
  from submodels_next(2) [OF j this] m have "submodels c0 (md(j := m)) (tab(j := tb)) (Suc j) = (c, tabs)" by simp
  moreover have "\<forall>i<Suc j. P i ((md(j := m)) i) ((tab(j := tb)) i)" using ih(1) m(1) by (auto simp: less_Suc_eq)
  ultimately show ?case by blast
qed

lemma submodels_all: "submodels c md tab (length (second_layer c)) =
    (c\<lparr>second_layer := map (\<lambda>i. Some (md i)) [0..<length (second_layer c)]\<rparr>, map tab [0..<length (second_layer c)])"
  by (simp add: submodels_def)

lemma train_steps:
  fixes c :: "('m, 's, 'w::len word) two_rmi"
  assumes sub: "\<And>i. i < length (second_layer c) \<Longrightarrow> train_sub M2 N n t (T ! i) TT = Some (Inr (md i, tab i))"
  shows "\<exists>st'. foldl (\<lambda>acc i. fbind acc (\<lambda>s. train_step rnd vlen M2 N n t T s i))
      (Some (Inr (c, replicate (length (second_layer c)) TT, st))) [0..<length (second_layer c)] =
    Some (Inr (c\<lparr>second_layer := map (\<lambda>i. Some (md i)) [0..<length (second_layer c)]\<rparr>,
      map tab [0..<length (second_layer c)], st'))"
  using submodel_steps [where Q = "\<lambda>_ _. True" and ?c0.0 = c and md = md and tab = tab and j = "length (second_layer c)"
      and stp = "train_step rnd vlen M2 N n t T" and ?X0.0 = st] sub by (simp add: train_step_def submodels_all)

lemma train_steps_inv:
  fixes c :: "('m, 's, 'w::len word) two_rmi"
  assumes "foldl (\<lambda>acc i. fbind acc (\<lambda>s. train_step rnd vlen M2 N n t T s i))
      (Some (Inr (c, replicate (length (second_layer c)) TT, st))) [0..<length (second_layer c)] = Some (Inr (c', tabs, st'))"
  shows "\<exists>md tab. (\<forall>i<length (second_layer c). train_sub M2 N n t (T ! i) TT = Some (Inr (md i, tab i))) \<and>
    c' = c\<lparr>second_layer := map (\<lambda>i. Some (md i)) [0..<length (second_layer c)]\<rparr>"
  using submodel_steps_inv [where P = "\<lambda>i m tb. train_sub M2 N n t (T ! i) TT = Some (Inr (m, tb))", OF _ assms order_refl]
  unfolding train_step_def submodels_all by (fastforce simp: fbind_Inr_iff)

section \<open>The trained database\<close>

text \<open>The cache and the tables answer for the key \<open>k\<close>: the selected submodel finds it.\<close>

definition answers :: "(real \<Rightarrow> real) \<Rightarrow> ('m, 'k::{linorder,order_top}) ml_ops \<Rightarrow> ('s, 'k) ml_ops \<Rightarrow> nat
    \<Rightarrow> ('k, 'v) xtree \<Rightarrow> ('m, 's, 'w::len word) two_rmi \<Rightarrow> tt list \<Rightarrow> 'k \<Rightarrow> bool" where
  "answers rnd M M2 N t c tabs k \<longleftrightarrow> (\<exists>m md. select_sec_model rnd M c k = Inr m \<and>
     sub_deref c (unat m) = Inr md \<and> unat m < length tabs \<and> table_ok gen_f_default t (tabs ! unat m) \<and>
     found gen_f_default N t (ml_predict M2) md (tabs ! unat m) k)"

lemma tree_ops_start:
  fixes t :: "('k::{linorder,order_bot,order_top}, 'v) xtree"
  assumes "xtree_inv N t" and "root t \<noteq> NullPtr"
  shows "\<exists>it ks. from_impl (tree_ops N t) = Inr it \<and> begin_impl (tree_ops N t) it = Inr it \<and>
    iter_rep (\<lambda>ks. ks) N (leafs t) it (number 0 ks) \<and> set ks = dom (xtree_map t) \<and>
    length (number 0 ks) = card (dom (xtree_map t))"
proof -
  obtain it where it: "XTreeIter N t = Inr it" "iter_rep (\<lambda>ks. ks) N (leafs t) it
      (number 0 (concat (map (leaf_used (\<lambda>ks. ks) (leafs t)) (tree_leaves t))))"
    using XTreeIter_rep [OF assms] by blast
  note ks = titer_keys [OF assms]
  show ?thesis
    by (rule exI [of _ it], rule exI [of _ "concat (map (leaf_used (\<lambda>ks. ks) (leafs t)) (tree_leaves t))"])
      (use it ks distinct_card [OF ks(1)] in \<open>simp add: tree_ops_def number_def\<close>)
qed

text \<open>The first layer is trained over all keys and hands them to the trainers of the submodels.\<close>

lemma first_layer_trained:
  fixes t :: "('k::{linorder,order_bot,order_top}, 'v) xtree" and M :: "('m, 'k) ml_ops" and c0 :: "('m, 's, 'w::len word) two_rmi"
  assumes w: "walk_ok gen_f_default N t" and n: "card (dom (xtree_map t)) < n" and M: "accepts M"
  shows "\<exists>c1. (if vl then fbind (default_train_first M (tree_ops N t) n c0) (\<lambda>(c, _). Some (Inr c))
      else fbind (train_first M (tree_ops N t) step_sample n c0 (StepSampler 1)) (\<lambda>(c, _, _). Some (Inr c))) = Some (Inr c1) \<and>
    dispatch_num (first_layer c1) = dispatch_num (first_layer c0) \<and> second_layer c1 = second_layer c0"
proof -
  let ?I = "tree_ops N t"
  obtain it ks where it: "from_impl ?I = Inr it" "begin_impl ?I it = Inr it"
    "iter_rep (\<lambda>ks. ks) N (leafs t) it (number 0 ks)" "length (number 0 ks) < n"
    using tree_ops_start [OF walk_okD(1,2) [OF w]] n by metis
  show ?thesis
    using tree_scan.disp_train_ok [OF it total_samplers(1) M, of "first_layer c0" "StepSampler 1"]
      tree_scan.disp_train_ok [OF it total_samplers(2) M, of "first_layer c0" "()"]
    by (cases vl) (auto simp: default_train_first_def default_train_def train_first_def)
qed

lemma first_layer_inv:
  fixes c0 :: "('m, 's, 'w::len word) two_rmi"
  assumes "(if vl then fbind (default_train_first M I n c0) (\<lambda>(c, _). Some (Inr c))
      else fbind (train_first M I S n c0 s) (\<lambda>(c, _, _). Some (Inr c))) = Some (Inr c1)"
  shows "dispatch_num (first_layer c1) = dispatch_num (first_layer c0)" and "second_layer c1 = second_layer c0"
proof -
  have "dispatch_num (first_layer c1) = dispatch_num (first_layer c0) \<and> second_layer c1 = second_layer c0"
    using assms unfolding default_train_first_def default_train_def train_first_def
    by (cases vl) (auto simp: fbind_Inr_iff dest: disp_train_inv)
  then show "dispatch_num (first_layer c1) = dispatch_num (first_layer c0)" "second_layer c1 = second_layer c0" by blast+
qed

lemma dispatched:
  fixes t :: "('k::{linorder,order_bot,order_top}, 'v) xtree" and c1 :: "('m, 's, 'w::len word) two_rmi"
  assumes w: "walk_ok gen_f_default N t" and n: "card (dom (xtree_map t)) < n" and rnd: "rounding rnd"
    and dn: "0 < dispatch_num (first_layer c1)" "unat (dispatch_num (first_layer c1)) \<le> 2 ^ 53"
    and sz: "length (second_layer c1) = unat (dispatch_num (first_layer c1))"
  shows "\<exists>sel ks. (\<forall>k. select_sec_model rnd M c1 k = Inr (sel k) \<and> unat (sel k) < length (second_layer c1)) \<and>
    set ks = dom (xtree_map t) \<and> dispatch_keys_to_trainers rnd M (tree_ops N t) n c1 =
      Some (Inr (map (\<lambda>j. foldl update_key XMLTrainer (filter (\<lambda>k. unat (sel k) = j) ks)) [0..<length (second_layer c1)]))"
proof -
  let ?I = "tree_ops N t"
  obtain it ks where it: "from_impl ?I = Inr it" "begin_impl ?I it = Inr it"
    "iter_rep (\<lambda>ks. ks) N (leafs t) it (number 0 ks)" "set ks = dom (xtree_map t)" "length (number 0 ks) < n"
    using tree_ops_start [OF walk_okD(1,2) [OF w]] n by metis
  have sz': "0 < length (second_layer c1)" "length (second_layer c1) \<le> 2 ^ LENGTH('w)"
    using dn(1) by (simp_all add: sz word_gt_0 unat_gt_0 less_imp_le)
  obtain sel where sel: "\<And>k. select_sec_model rnd M c1 k = Inr (sel k)" "\<And>k. unat (sel k) < length (second_layer c1)"
    using select_sec_model_ok [where M = M, OF rnd dn sz'] by metis
  have "map fst (number 0 ks) = ks" by (simp add: number_def)
  then show ?thesis
    using tree_scan.dispatch_ok [OF it(1-3,5), of rnd M c1 sel] sel it(4) by (intro exI [of _ sel] exI [of _ ks]) simp
qed

text \<open>What training leaves behind: a submodel and a table for each number, and an answer for every key.\<close>

definition db_trained :: "(real \<Rightarrow> real) \<Rightarrow> ('m, 'k::{linorder,order_top}) ml_ops \<Rightarrow> ('s, 'k) ml_ops \<Rightarrow> nat
    \<Rightarrow> ('k, 'v) xtree \<Rightarrow> 'w::len word \<Rightarrow> ('m, 's, 'w word) two_rmi \<Rightarrow> tt list \<Rightarrow> bool" where
  "db_trained rnd M M2 N t num_sub c tabs \<longleftrightarrow> length tabs = unat num_sub \<and> length (second_layer c) = unat num_sub \<and>
    dispatch_num (first_layer c) = num_sub \<and>
    (\<forall>i<unat num_sub. (\<exists>md. second_layer c ! i = Some md \<and> page_eb.bounds_ok md) \<and> table_ok gen_f_default t (tabs ! i)) \<and>
    (\<forall>k\<in>dom (xtree_map t). answers rnd M M2 N t c tabs k)"

abbreviation (input) ycsb_first :: "bool \<Rightarrow> ('m, 'k::{linorder,order_bot,order_top}) ml_ops \<Rightarrow> nat \<Rightarrow> nat \<Rightarrow> ('k, 'v) xtree
    \<Rightarrow> ('m, 's, 'w::len word) two_rmi \<Rightarrow> ('m, 's, 'w word) two_rmi res option" where
  "ycsb_first vl M N n t c0 \<equiv> (if vl then fbind (default_train_first M (tree_ops N t) n c0) (\<lambda>(c, _). Some (Inr c))
     else fbind (train_first M (tree_ops N t) step_sample n c0 (StepSampler 1)) (\<lambda>(c, _, _). Some (Inr c)))"

definition empty_cache :: "'m \<Rightarrow> 'w::len word \<Rightarrow> ('m, 's, 'w word) two_rmi" where
  "empty_cache m num_sub = \<lparr>first_layer = \<lparr>dmodel = m, dispatch_num = num_sub, up_bound = 0\<rparr>,
     second_layer = replicate (unat num_sub) None\<rparr>"

text \<open>
  The submodels are trained when, for the trainers that the trained first layer has filled, the learner
  fits the window of each.
\<close>

lemma train_db_from:
  fixes t :: "('k::{linorder,order_bot,order_top}, 'v) xtree" and num_sub :: "'w::len word"
    and M :: "('m, 'k) ml_ops" and M2 :: "('s, 'k) ml_ops" and db :: "('m, 's, 'w word) ycsb_db"
    and c1 :: "('m, 's, 'w word) two_rmi"
  assumes w: "walk_ok gen_f_default N t"
    and two: "\<forall>a\<in>set (butlast (tree_leaves t)). 2 \<le> card (dom (leaf_map (leafs t) a))"
    and n: "card (dom (xtree_map t)) < n" and rnd: "rounding rnd"
    and num: "0 < num_sub" "num_sub < 4000000" "unat num_sub \<le> 2 ^ 53" and db: "cache db = None" "tts db = []"
    and c1: "ycsb_first vlen M N n t (empty_cache (ml_init M) num_sub) = Some (Inr c1)"
    and T: "dispatch_keys_to_trainers rnd M (tree_ops N t) n c1 = Some (Inr T)"
    and fit: "\<And>j ks. j < unat num_sub \<Longrightarrow> ks \<noteq> [] \<Longrightarrow> set ks \<subseteq> dom (xtree_map t) \<Longrightarrow> T ! j = foldl update_key XMLTrainer ks \<Longrightarrow>
      fits_pages M2 N (tr_window N t (T ! j))"
  shows "\<exists>db' c. train_db rnd vlen M M2 N n num_sub t db = Some (Inr db') \<and> cache db' = Some c \<and>
    db_trained rnd M M2 N t num_sub c (tts db')"
proof -
  let ?I = "tree_ops N t" and ?n = "unat num_sub"
  let ?c0 = "empty_cache (ml_init M) num_sub :: ('m, 's, 'w word) two_rmi"
  have c0: "LocalTwoRMI (ml_init M) num_sub = Inr ?c0"
    using num(1,2) by (simp add: LocalTwoRMI_def Dispatcher_def empty_cache_def)
  have d1: "dispatch_num (first_layer c1) = num_sub" "second_layer c1 = replicate ?n None"
    using first_layer_inv [OF c1] by (simp_all add: empty_cache_def)
  have len: "length (second_layer c1) = ?n" by (simp add: d1(2))
  obtain sel ks where sel: "\<And>k. select_sec_model rnd M c1 k = Inr (sel k)" "\<And>k. unat (sel k) < ?n"
    and ks: "set ks = dom (xtree_map t)" and disp: "dispatch_keys_to_trainers rnd M ?I n c1 =
      Some (Inr (map (\<lambda>j. foldl update_key XMLTrainer (filter (\<lambda>k. unat (sel k) = j) ks)) [0..<?n]))"
    using dispatched [OF w n rnd, of c1 M] num d1(1) len by auto
  have T': "T = map (\<lambda>j. foldl update_key XMLTrainer (filter (\<lambda>k. unat (sel k) = j) ks)) [0..<?n]" using disp T by simp
  let ?kf = "\<lambda>j. filter (\<lambda>k. unat (sel k) = j) ks"
  have "\<exists>md tab. train_sub M2 N n t (T ! j) TT = Some (Inr (md, tab)) \<and> table_ok gen_f_default t tab \<and> page_eb.bounds_ok md \<and>
      (\<forall>k\<in>set (?kf j). found gen_f_default N t (ml_predict M2) md tab k)" if j: "j < ?n" for j
  proof -
    have sub: "set (?kf j) \<subseteq> dom (xtree_map t)" using ks by auto
    have Tj: "T ! j = foldl update_key XMLTrainer (?kf j)" using j by (simp add: T')
    show ?thesis unfolding Tj
      by (rule train_sub_ok [OF w sub two n]) (rule fit [OF j _ sub Tj, unfolded Tj])
  qed
  then obtain md tab where sub: "\<And>j. j < ?n \<Longrightarrow> train_sub M2 N n t (T ! j) TT = Some (Inr (md j, tab j))"
    "\<And>j. j < ?n \<Longrightarrow> table_ok gen_f_default t (tab j) \<and> page_eb.bounds_ok (md j)"
    "\<And>j k. j < ?n \<Longrightarrow> k \<in> set (?kf j) \<Longrightarrow> found gen_f_default N t (ml_predict M2) (md j) (tab j) k" by metis
  let ?c = "c1\<lparr>second_layer := map (\<lambda>i. Some (md i)) [0..<?n]\<rparr>"
  obtain st where st: "foldl (\<lambda>acc i. fbind acc (\<lambda>s. train_step rnd vlen M2 N n t T s i))
      (Some (Inr (c1, replicate ?n TT, train_stats0))) [0..<length T] = Some (Inr (?c, map tab [0..<?n], st))"
    using train_steps [of c1 M2 N n t T md tab rnd vlen train_stats0] sub(1) len by (auto simp: T')
  have run: "train_db rnd vlen M M2 N n num_sub t db =
      Some (Inr (db\<lparr>cache := Some ?c, tts := map tab [0..<?n], stats := finalize_stats vlen st\<rparr>))"
    using c0 c1 T st db unfolding train_db_def by (simp del: upt_Suc)
  have "answers rnd M M2 N t ?c (map tab [0..<?n]) k" if k: "k \<in> dom (xtree_map t)" for k
  proof -
    have "select_sec_model rnd M ?c k = Inr (sel k)" using sel(1) [of k] select_sec_model_cong [of ?c c1 rnd M k] len by simp
    moreover have "k \<in> set (?kf (unat (sel k)))" using k ks by simp
    ultimately show ?thesis unfolding answers_def
      using sel(2) [of k] sub(2,3) by (intro exI [of _ "sel k"] exI [of _ "md (unat (sel k))"]) (simp add: sub_deref_def)
  qed
  then have "db_trained rnd M M2 N t num_sub ?c (map tab [0..<?n])" using d1(1) sub(2) by (simp add: db_trained_def)
  then show ?thesis unfolding run by simp
qed

text \<open>So training succeeds for a learner that fits all windows of the tree.\<close>

lemma train_db_ok:
  fixes t :: "('k::{linorder,order_bot,order_top}, 'v) xtree" and num_sub :: "'w::len word"
    and M :: "('m, 'k) ml_ops" and M2 :: "('s, 'k) ml_ops" and db :: "('m, 's, 'w word) ycsb_db"
  assumes w: "walk_ok gen_f_default N t"
    and two: "\<forall>a\<in>set (butlast (tree_leaves t)). 2 \<le> card (dom (leaf_map (leafs t) a))"
    and n: "card (dom (xtree_map t)) < n" and M: "accepts M" and M2: "learns_pages M2 N t" and rnd: "rounding rnd"
    and num: "0 < num_sub" "num_sub < 4000000" "unat num_sub \<le> 2 ^ 53" and db: "cache db = None" "tts db = []"
  shows "\<exists>db' c. train_db rnd vlen M M2 N n num_sub t db = Some (Inr db') \<and> cache db' = Some c \<and>
    db_trained rnd M M2 N t num_sub c (tts db')"
proof -
  let ?c0 = "empty_cache (ml_init M) num_sub :: ('m, 's, 'w word) two_rmi"
  obtain c1 :: "('m, 's, 'w word) two_rmi" where c1: "ycsb_first vlen M N n t ?c0 = Some (Inr c1)"
    "dispatch_num (first_layer c1) = num_sub" "second_layer c1 = replicate (unat num_sub) None"
    using first_layer_trained [OF w n M, of vlen ?c0] by (auto simp: empty_cache_def)
  have len: "length (second_layer c1) = unat num_sub" by (simp add: c1(3))
  obtain T where "dispatch_keys_to_trainers rnd M (tree_ops N t) n c1 = Some (Inr T)"
    using dispatched [OF w n rnd, of c1 M] num c1(2) len by auto
  from train_db_from [OF w two n rnd num db c1(1) this, of M2] learns_window(2) [OF _ _ M2] show ?thesis by auto
qed

text \<open>A training that has succeeded has trained every submodel.\<close>

lemma train_db_inv:
  fixes t :: "('k::{linorder,order_bot,order_top}, 'v) xtree" and num_sub :: "'w::len word"
    and M :: "('m, 'k) ml_ops" and M2 :: "('s, 'k) ml_ops" and db :: "('m, 's, 'w word) ycsb_db"
  assumes w: "walk_ok gen_f_default N t" and n: "card (dom (xtree_map t)) < n" and rnd: "rounding rnd"
    and num: "0 < num_sub" "num_sub < 4000000" "unat num_sub \<le> 2 ^ 53" and db: "cache db = None" "tts db = []"
    and tr: "train_db rnd vlen M M2 N n num_sub t db = Some (Inr db')" "cache db' = Some c"
  shows "\<exists>(c1 :: ('m, 's, 'w word) two_rmi) T ks md tab. ycsb_first vlen M N n t (empty_cache (ml_init M) num_sub) = Some (Inr c1) \<and>
    dispatch_keys_to_trainers rnd M (tree_ops N t) n c1 = Some (Inr T) \<and>
    (\<forall>j<unat num_sub. set (ks j) \<subseteq> dom (xtree_map t) \<and> T ! j = foldl update_key XMLTrainer (ks j) \<and>
      train_sub M2 N n t (T ! j) TT = Some (Inr (md j, tab j))) \<and> second_layer c = map (\<lambda>i. Some (md i)) [0..<unat num_sub]"
proof -
  let ?c0 = "empty_cache (ml_init M) num_sub :: ('m, 's, 'w word) two_rmi" and ?n = "unat num_sub"
  have c0: "LocalTwoRMI (ml_init M) num_sub = Inr ?c0"
    using num(1,2) by (simp add: LocalTwoRMI_def Dispatcher_def empty_cache_def)
  obtain c1 :: "('m, 's, 'w word) two_rmi" where c1: "ycsb_first vlen M N n t ?c0 = Some (Inr c1)"
    using tr(1) db c0 unfolding train_db_def by (auto simp: fbind_Inr_iff Let_def split del: if_split)
  have d1: "dispatch_num (first_layer c1) = num_sub" "second_layer c1 = replicate ?n None"
    using first_layer_inv [OF c1] by (simp_all add: empty_cache_def)
  have len: "length (second_layer c1) = ?n" by (simp add: d1(2))
  obtain sel and ks :: "'k list" where ks: "set ks = dom (xtree_map t)" and disp: "dispatch_keys_to_trainers rnd M (tree_ops N t) n c1 =
      Some (Inr (map (\<lambda>j. foldl update_key XMLTrainer (filter (\<lambda>k. unat (sel k :: 'w word) = j) ks)) [0..<?n]))"
    using dispatched [OF w n rnd, of c1 M] num d1(1) len by metis
  define kf where "kf = (\<lambda>j. filter (\<lambda>k. unat (sel k) = j) ks)"
  define T where "T = map (\<lambda>j. foldl update_key (XMLTrainer :: ('k, 'w word) xml_trainer) (kf j)) [0..<?n]"
  have T: "dispatch_keys_to_trainers rnd M (tree_ops N t) n c1 = Some (Inr T)" "length T = ?n"
    using disp by (simp_all add: T_def kf_def)
  obtain tabs st where "foldl (\<lambda>acc i. fbind acc (\<lambda>s. train_step rnd vlen M2 N n t T s i))
      (Some (Inr (c1, replicate (length (second_layer c1)) TT, train_stats0))) [0..<length (second_layer c1)] = Some (Inr (c, tabs, st))"
    using tr c1 T db c0 len unfolding train_db_def by (auto simp: fbind_Inr_iff Let_def split del: if_split)
  from train_steps_inv [OF this] len obtain md tab where sub:
    "\<And>i. i < ?n \<Longrightarrow> train_sub M2 N n t (T ! i) TT = Some (Inr (md i, tab i))"
    "second_layer c = map (\<lambda>i. Some (md i)) [0..<?n]" by auto
  have "\<forall>j<?n. set (kf j) \<subseteq> dom (xtree_map t) \<and> T ! j = foldl update_key XMLTrainer (kf j)"
    using ks by (auto simp: T_def kf_def)
  with c1 T(1) sub show ?thesis by blast
qed

text \<open>Its models come from windows of the tree.\<close>

lemma train_db_models:
  fixes t :: "('k::{linorder,order_bot,order_top}, 'v) xtree" and num_sub :: "'w::len word"
    and M :: "('m, 'k) ml_ops" and M2 :: "('s, 'k) ml_ops" and db :: "('m, 's, 'w word) ycsb_db"
  assumes w: "walk_ok gen_f_default N t" and n: "card (dom (xtree_map t)) < n" and rnd: "rounding rnd"
    and num: "0 < num_sub" "num_sub < 4000000" "unat num_sub \<le> 2 ^ 53" and db: "cache db = None" "tts db = []"
    and tr: "train_db rnd vlen M M2 N n num_sub t db = Some (Inr db')" "cache db' = Some c"
    and i: "i < length (second_layer c)" "second_layer c ! i = Some md"
  shows "ml md = ml_init M2 \<or> (\<exists>s\<in>dom (xtree_map t). \<exists>e\<in>dom (xtree_map t). s \<le> e \<and>
    (let E = every 2 0 (page_ends (of_nat N) None (key_window N t s e)) in
       ml_train M2 (ml_init M2) (map fst E) (map snd E) 1 = Inr (ml md)))"
proof -
  obtain c1 T ks md' tab where c1: "ycsb_first vlen M N n t (empty_cache (ml_init M) num_sub :: ('m, 's, 'w word) two_rmi) = Some (Inr c1)"
    "dispatch_keys_to_trainers rnd M (tree_ops N t) n c1 = Some (Inr T)"
    "\<And>j. j < unat num_sub \<Longrightarrow> set (ks j) \<subseteq> dom (xtree_map t) \<and> T ! j = foldl update_key XMLTrainer (ks j) \<and>
      train_sub M2 N n t (T ! j) TT = Some (Inr (md' j, tab j))"
    "second_layer c = map (\<lambda>i. Some (md' i)) [0..<unat num_sub]"
    using train_db_inv [OF w n rnd num db tr] by blast
  have j: "i < unat num_sub" and md: "md = md' i" using i by (simp_all add: c1(4))
  have Ti: "T ! i = foldl update_key XMLTrainer (ks i)" "set (ks i) \<subseteq> dom (xtree_map t)"
    "train_sub M2 N n t (foldl update_key XMLTrainer (ks i) :: ('k, 'w word) xml_trainer) TT = Some (Inr (md, tab i))"
    using c1(3) [OF j] md by auto
  show ?thesis
  proof (cases "ks i = []")
    case True
    have "\<not> need_train (XMLTrainer :: ('k, 'w word) xml_trainer)" by (simp add: need_train_def XMLTrainer_def)
    then have "md = XSubModel (ml_init M2)" using Ti(3) True cache_iter_from [OF w, of TT]
      by (auto simp: train_sub_def train_w_it_w_shrink_def)
    then show ?thesis by (simp add: XSubModel_def)
  next
    case False
    let ?tr = "foldl update_key XMLTrainer (ks i) :: ('k, 'w word) xml_trainer"
    have "start_key ?tr \<in> dom (xtree_map t)" "end_key ?tr \<in> dom (xtree_map t)" "start_key ?tr \<le> end_key ?tr"
      using trainer_range [OF False, where 'w = 'w] Ti(2) by blast+
    then show ?thesis using train_sub_trained [OF w False n Ti(3)] unfolding Let_def tr_window_key by blast
  qed
qed

text \<open>For the linear model with a least-squares solver they are monotone.\<close>

lemma lr_submodels_mono:
  fixes t :: "('k::{linorder,order_bot,order_top}, 'v) xtree" and num_sub :: "'w::len word" and to_scalar :: "'k \<Rightarrow> real"
    and M :: "('m, 'k) ml_ops" and db :: "('m, lr, 'w word) ycsb_db" and dgels dval feature0
  defines "M2 \<equiv> lr_ops dgels dval (\<lambda>x. x) to_scalar feature0"
  assumes w: "walk_ok gen_f_default N t" and n: "card (dom (xtree_map t)) < n" and rnd: "rounding rnd"
    and num: "0 < num_sub" "num_sub < 4000000" "unat num_sub \<le> 2 ^ 53" and db: "cache db = None" "tts db = []"
    and tr: "train_db rnd vlen M M2 N n num_sub t db = Some (Inr db')" "cache db' = Some c"
    and ls: "\<And>rows. 2 \<le> length rows \<Longrightarrow> least_squares dval dgels rows" and z: "dval 0 = 0" and k: "strict_mono to_scalar"
    and i: "i < length (second_layer c)" "second_layer c ! i = Some md"
  shows "mono (ml_predict M2 (ml md))"
proof -
  consider "ml md = ml_init M2" | s e where "s \<in> dom (xtree_map t)" "e \<in> dom (xtree_map t)" "s \<le> e"
    "ml_train M2 (ml_init M2) (map fst (every 2 0 (page_ends (of_nat N) None (key_window N t s e))))
      (map snd (every 2 0 (page_ends (of_nat N) None (key_window N t s e)))) 1 = Inr (ml md)"
    using train_db_models [OF w n rnd num db tr i] unfolding Let_def by blast
  then show ?thesis
  proof cases
    case 1
    then show ?thesis unfolding M2_def lr_predict_exact by (simp add: lr_ops_def LR_def z mono_def)
  next
    case 2
    have W: "key_window N t s e \<noteq> []" "sorted_wrt (<) (map fst (key_window N t s e))" "sorted_wrt (<) (map snd (key_window N t s e))"
      using key_window_ok [OF w 2(1,3)] by blast+
    show ?thesis unfolding M2_def
      by (rule lr_pages_mono [OF ls z k W refl 2(4) [unfolded M2_def]])
  qed
qed

text \<open>
  And a training that has succeeded answers for every key when the models it has trained are monotone
  on the keys of the tree.
\<close>

lemma train_db_done:
  fixes t :: "('k::{linorder,order_bot,order_top}, 'v) xtree" and num_sub :: "'w::len word"
    and M :: "('m, 'k) ml_ops" and M2 :: "('s, 'k) ml_ops" and db :: "('m, 's, 'w word) ycsb_db"
  assumes w: "walk_ok gen_f_default N t"
    and two: "\<forall>a\<in>set (butlast (tree_leaves t)). 2 \<le> card (dom (leaf_map (leafs t) a))"
    and n: "card (dom (xtree_map t)) < n" and rnd: "rounding rnd"
    and num: "0 < num_sub" "num_sub < 4000000" "unat num_sub \<le> 2 ^ 53" and db: "cache db = None" "tts db = []"
    and tr: "train_db rnd vlen M M2 N n num_sub t db = Some (Inr db')" "cache db' = Some c"
    and mono: "\<And>i md. i < length (second_layer c) \<Longrightarrow> second_layer c ! i = Some md \<Longrightarrow>
      mono_on (dom (xtree_map t)) (ml_predict M2 (ml md))"
  shows "db_trained rnd M M2 N t num_sub c (tts db')"
proof -
  obtain c1 T ks md tab where c1: "ycsb_first vlen M N n t (empty_cache (ml_init M) num_sub :: ('m, 's, 'w word) two_rmi) = Some (Inr c1)"
    "dispatch_keys_to_trainers rnd M (tree_ops N t) n c1 = Some (Inr T)"
    "\<And>j. j < unat num_sub \<Longrightarrow> train_sub M2 N n t (T ! j) TT = Some (Inr (md j, tab j))"
    "second_layer c = map (\<lambda>i. Some (md i)) [0..<unat num_sub]"
    using train_db_inv [OF w n rnd num db tr] by blast
  have "fits_pages M2 N (tr_window N t (T ! j))"
    if j: "j < unat num_sub" and k: "kj \<noteq> []" "T ! j = foldl update_key XMLTrainer kj" for j kj
    unfolding k(2)
  proof (rule train_sub_fits [OF w k(1) n c1(3) [OF j, unfolded k(2)]])
    show "mono_on (dom (xtree_map t)) (ml_predict M2 (ml (md j)))" using mono [of j "md j"] j by (simp add: c1(4))
  qed
  with train_db_from [OF w two n rnd num db c1(1,2), of M2] tr show ?thesis by auto
qed

section \<open>Properties\<close>

text \<open>C6: training the YCSB server over a well-formed tree whose leaves, except the last, hold at least two
  keys each never fails, for either kind of values and a learner that fits the key ranges of the tree:
  trained on every second of the page ends of a range, it returns a model that predicts \<^verbatim>\<open>int\<close>s for the
  page ends and is monotone on the range. Then the cache gets one trained submodel and one table
  for each configured submodel, and for every key of the tree the selected submodel predicts a range
  of pages in which the table of that submodel names the leaf that holds the key; every entry of a
  table names a leaf of the tree.\<close>

theorem ycsb_trained:
  fixes t :: "('k::{linorder,order_bot,order_top}, 'v) xtree" and num_sub :: "'w::len word"
    and M :: "('m, 'k) ml_ops" and M2 :: "('s, 'k) ml_ops" and db :: "('m, 's, 'w word) ycsb_db"
  assumes "walk_ok gen_f_default N t"
    and "\<forall>a\<in>set (butlast (tree_leaves t)). 2 \<le> card (dom (leaf_map (leafs t) a))"
    and "card (dom (xtree_map t)) < n" and "accepts M" and "learns_pages M2 N t" and "rounding rnd"
    and "0 < num_sub" "num_sub < 4000000" "unat num_sub \<le> 2 ^ 53" and "cache db = None" "tts db = []"
  shows "\<exists>db' c. train_db rnd vlen M M2 N n num_sub t db = Some (Inr db') \<and> cache db' = Some c \<and>
    length (tts db') = unat num_sub \<and> length (second_layer c) = unat num_sub \<and>
    (\<forall>k\<in>dom (xtree_map t). \<exists>m md tab. select_sec_model rnd M c k = Inr m \<and>
      second_layer c ! unat m = Some md \<and> tts db' ! unat m = tab \<and> unat m < unat num_sub \<and>
      (tt_size tab \<le> length (tree_leaves t) \<and>
        (\<forall>j<tt_size tab. \<exists>a\<in>set (tree_leaves t). get_wo_incar tab j = Inr (gen_f_default a))) \<and>
      (\<exists>lo hi j a. get_predict_range (ml_predict M2) md k = Inr (lo, hi) \<and> 0 \<le> lo \<and>
        lo div int N \<le> int j \<and> int j \<le> hi div int N \<and> j < tt_size tab \<and> get_wo_incar tab j = Inr (gen_f_default a) \<and>
        a \<in> set (tree_leaves t) \<and> k \<in> dom (leaf_map (leafs t) a)))"
proof -
  obtain db' c where tr: "train_db rnd vlen M M2 N n num_sub t db = Some (Inr db')" "cache db' = Some c"
    "length (tts db') = unat num_sub" "length (second_layer c) = unat num_sub"
    "\<forall>k\<in>dom (xtree_map t). answers rnd M M2 N t c (tts db') k"
    using train_db_ok [OF assms] unfolding db_trained_def by metis
  have "\<exists>m md tab. select_sec_model rnd M c k = Inr m \<and> second_layer c ! unat m = Some md \<and>
      tts db' ! unat m = tab \<and> unat m < unat num_sub \<and> table_ok gen_f_default t tab \<and>
      found gen_f_default N t (ml_predict M2) md tab k" if "k \<in> dom (xtree_map t)" for k
    using tr(3-5) that unfolding answers_def sub_deref_def by (fastforce split: if_splits option.splits)
  then show ?thesis using tr(1-4) unfolding found_def table_ok_def by blast
qed

lemma sample_tree_walk:
  "walk_ok gen_f_default 2 sample_tree"
  "\<forall>a\<in>set (butlast (tree_leaves sample_tree)). 2 \<le> card (dom (leaf_map (leafs sample_tree) a))"
proof -
  show "walk_ok gen_f_default 2 sample_tree"
    using sample_tree_inv by (simp add: walk_ok_def sample_tree_leaves gen_f_default_def)
  obtain a where "sample_leafs 64 = Some a" "dom (node_map a) = {XKey 1, XKey 3}"
    using sample_leaf_nodes(1) by blast
  then have "dom (leaf_map (leafs sample_tree) 64) = {XKey 1, XKey 3}"
    by (simp add: leaf_map_def sample_tree_def del: domIff)
  then show "\<forall>a\<in>set (butlast (tree_leaves sample_tree)). 2 \<le> card (dom (leaf_map (leafs sample_tree) a))"
    by (simp add: sample_tree_leaves del: domIff)
qed

text \<open>The windows of the sample tree, and what the linear model learns of them.\<close>

lemma sample_walks:
  "walk_from 2 sample_tree (XKey 1) = [(XKey 1, 0), (XKey 3, 1), (XKey 5, 2)]"
  "walk_from 2 sample_tree (XKey 3) = [(XKey 1, 0), (XKey 3, 1), (XKey 5, 2)]"
  "walk_from 2 sample_tree (XKey 5) = [(XKey 5, 0)]"
  by code_simp+

lemma sample_windows:
  assumes "s \<in> dom (xtree_map sample_tree)" and "e \<in> dom (xtree_map sample_tree)" and "s \<le> e"
  shows "key_window 2 sample_tree s e \<in> {[(XKey 1, 0)], [(XKey 1, 0), (XKey 3, 1)], [(XKey 1, 0), (XKey 3, 1), (XKey 5, 2)], [(XKey 5, 0)]}"
  using assms unfolding sample_tree_dom(1) key_window_def
  by (auto simp: sample_walks xkey_defs word_le_nat_alt)

lemma ols_sample:
  "learns_all ols_lr 2 sample_tree" "learns_pages ols_lr 2 sample_tree" "accepts ols_lr"
proof -
  have k: "mono (\<lambda>k. real (unat (xd k)))"
    by (intro monoI of_nat_mono) (simp add: xkey_defs word_le_nat_alt)
  have "fits ols_lr W \<and> fits_pages ols_lr 2 W"
    if "W \<in> {[(XKey 1, 0)], [(XKey 1, 0), (XKey 3, 1)], [(XKey 1, 0), (XKey 3, 1), (XKey 5, 2)], [(XKey 5, 0)]}" for W
    using that unfolding insert_iff empty_iff
    by (elim disjE; unfold ols_lr_def; intro conjI fits_pages_lr [OF k refl _ prod.collapse])
      (simp_all add: fits_lr fit_rows_def ols_def fixed_def unfixed_def double_to_int_small decode_logic_id_def)
  then show "learns_all ols_lr 2 sample_tree" "learns_pages ols_lr 2 sample_tree"
    unfolding learns_all_def learns_pages_def using sample_windows by blast+
  show "accepts ols_lr" by (simp add: ols_lr_def accepts_lr)
qed

lemma ols_pages_mono:
  assumes "W \<in> {[(k, 0)], [(XKey 1, 0), (XKey 3, 1)], [(XKey 1, 0), (XKey 3, 1), (XKey 5, 2)]}"
    and "let E = every 2 0 (page_ends (of_nat N) None W) in ml_train ols_lr (ml_init ols_lr) (map fst E) (map snd E) 1 = Inr m"
    and "N = 2 \<or> W = [(k, 0)]"
  shows "mono (ml_predict ols_lr m)"
proof -
  have "0 \<le> unfixed (lr_w m)"
    using assms unfolding ols_lr_def lr_train_rows Let_def
    by (auto simp: fit_rows_def ols_def fixed_def unfixed_def decode_logic_id_def)
  moreover have "mono (\<lambda>k. real (unat (xd k)))"
    by (intro monoI of_nat_mono) (simp add: xkey_defs word_le_nat_alt)
  ultimately show ?thesis unfolding ols_lr_def lr_predict_exact by (auto intro!: monoI mult_right_mono dest: monoD)
qed

lemma ols_init_mono: "mono (ml_predict ols_lr (ml_init ols_lr))"
  unfolding ols_lr_def lr_predict_exact by (simp add: lr_ops_def LR_def unfixed_def mono_def)

definition empty_db :: "(lr, lr, 32 word) ycsb_db" where
  "empty_db = \<lparr>cache = None, tts = [], stats = train_stats0\<rparr>"

lemma ols_sample_mono:
  fixes M :: "(lr, xkey) ml_ops"
  assumes "train_db (\<lambda>x. x) vl M ols_lr 2 4 3 sample_tree empty_db = Some (Inr db')" and "cache db' = Some c"
    and "i < length (second_layer c)" "second_layer c ! i = Some md"
  shows "mono_on A (ml_predict ols_lr (ml md))"
proof -
  have "card (dom (xtree_map sample_tree)) < 4" by (simp add: sample_tree_dom(2))
  from train_db_models [OF sample_tree_walk(1) this rounding_id _ _ _ _ _ assms]
  have "ml md = ml_init ols_lr \<or> (\<exists>s\<in>dom (xtree_map sample_tree). \<exists>e\<in>dom (xtree_map sample_tree). s \<le> e \<and>
    (let E = every 2 0 (page_ends (of_nat 2) None (key_window 2 sample_tree s e)) in
       ml_train ols_lr (ml_init ols_lr) (map fst E) (map snd E) 1 = Inr (ml md)))" by (simp add: empty_db_def del: of_nat_numeral)
  then have "mono (ml_predict ols_lr (ml md))"
  proof (elim disjE bexE conjE)
    fix s e assume k: "s \<in> dom (xtree_map sample_tree)" "e \<in> dom (xtree_map sample_tree)" "s \<le> e"
      and m: "let E = every 2 0 (page_ends (of_nat 2) None (key_window 2 sample_tree s e)) in
        ml_train ols_lr (ml_init ols_lr) (map fst E) (map snd E) 1 = Inr (ml md)"
    show ?thesis using sample_windows [OF k] ols_pages_mono [OF _ m] by blast
  qed (simp add: ols_init_mono)
  then show ?thesis by (rule mono_on_subset) simp
qed

theorem ycsb_trained_witness:
  "\<exists>db' c. train_db (\<lambda>x. x) False ols_lr ols_lr 2 4 3 sample_tree empty_db = Some (Inr db') \<and> cache db' = Some c \<and>
    length (tts db') = unat (3 :: 32 word) \<and> length (second_layer c) = unat (3 :: 32 word) \<and>
    (\<forall>k\<in>dom (xtree_map sample_tree). \<exists>m md tab. select_sec_model (\<lambda>x. x) ols_lr c k = Inr m \<and>
      second_layer c ! unat m = Some md \<and> tts db' ! unat m = tab \<and> unat m < unat (3 :: 32 word) \<and>
      (tt_size tab \<le> length (tree_leaves sample_tree) \<and>
        (\<forall>j<tt_size tab. \<exists>a\<in>set (tree_leaves sample_tree). get_wo_incar tab j = Inr (gen_f_default a))) \<and>
      (\<exists>lo hi j a. get_predict_range (ml_predict ols_lr) md k = Inr (lo, hi) \<and> 0 \<le> lo \<and>
        lo div int 2 \<le> int j \<and> int j \<le> hi div int 2 \<and> j < tt_size tab \<and> get_wo_incar tab j = Inr (gen_f_default a) \<and>
        a \<in> set (tree_leaves sample_tree) \<and> k \<in> dom (leaf_map (leafs sample_tree) a)))"
  by (rule ycsb_trained [OF sample_tree_walk _ ols_sample(3,2) rounding_id]) (simp_all add: sample_tree_dom(2) empty_db_def)

end
