(* ===== verification/PageUpdater.thy ===== *)
theory PageUpdater
  imports XModel
begin

text \<open>
  \<^verbatim>\<open>page_updater\<close> of the second server (\<^verbatim>\<open>benchs/data_dist/server/db.hh\<close>), which looks for the
  smallest step from the prediction towards the label that reaches the page of the label. The
  search loop has no bound of its own; the lemmas show that it ends and that the function meets the
  contract of an update function.
\<close>

partial_function (option) gap_search :: "u64 \<Rightarrow> u64 \<Rightarrow> u64 \<Rightarrow> int \<Rightarrow> int \<Rightarrow> int option" where
  "gap_search N predict target_id step gap =
     (if decode_logic_id N (predict + of_int gap) = target_id then Some gap
      else gap_search N predict target_id step (to_i32 (gap + step)))"

text \<open>The result is \<open>None\<close> when the search does not end; the second conjunct of the assertion
  compares \<^verbatim>\<open>new_max\<close> with itself. With \<^verbatim>\<open>verbose\<close> the source also inserts the error into the
  global \<^verbatim>\<open>err_data\<close> (lines 203-205), which nothing but the report reads; that insertion is left out.\<close>

definition dd_page_updater :: "u64 \<Rightarrow> u64 \<Rightarrow> u64 \<Rightarrow> int \<Rightarrow> int \<Rightarrow> (int \<times> int) res option" where
  "dd_page_updater N label predict cur_min cur_max =
     (if decode_logic_id N predict = decode_logic_id N label then Some (Inr (cur_min, cur_max))
      else
        let target_id = decode_logic_id N label in
        if decode_logic_id N (predict + of_int cur_min) \<le> target_id \<and>
           decode_logic_id N (predict + of_int cur_max) \<ge> target_id
        then Some (Inr (cur_min, cur_max))
        else
          let err = sint (label - predict); step = (if err < 0 then - 1 else 1)
          in (case gap_search N predict target_id step 0 of
                None \<Rightarrow> None
              | Some gap \<Rightarrow>
                  let new_min = min cur_min gap; new_max = max cur_max gap
                  in Some (rbind (cassert (new_min \<le> cur_min \<and> new_max \<ge> new_max))
                       (\<lambda>_. Inr (new_min, new_max)))))"

section \<open>The search\<close>

lemma decode_int:
  assumes "0 \<le> x" and "x < 2 ^ 32" and "unat label < 2 ^ 30"
  shows "decode_logic_id N (of_int x) = decode_logic_id N label \<longleftrightarrow> x div uint N = uint label div uint N"
    and "decode_logic_id N (of_int x) \<le> decode_logic_id N label \<longleftrightarrow> x div uint N \<le> uint label div uint N"
    and "decode_logic_id N label \<le> decode_logic_id N (of_int x) \<longleftrightarrow> uint label div uint N \<le> x div uint N"
proof -
  have u: "uint (of_int x :: u64) = x"
    using assms(1,2) by (simp add: unsigned_of_int take_bit_int_eq_self)
  show "decode_logic_id N (of_int x) = decode_logic_id N label \<longleftrightarrow> x div uint N = uint label div uint N"
    "decode_logic_id N (of_int x) \<le> decode_logic_id N label \<longleftrightarrow> x div uint N \<le> uint label div uint N"
    "decode_logic_id N label \<le> decode_logic_id N (of_int x) \<longleftrightarrow> uint label div uint N \<le> x div uint N"
    by (simp_all add: decode_logic_id_def word_uint_eq_iff word_le_def uint_div u)
qed

lemma add_of_int: "(of_int p + of_int g :: u64) = of_int (p + g)"
  by simp

lemma gap_search_unfold:
  "gap_search N (of_int p) t s g =
     (if decode_logic_id N (of_int (p + g)) = t then Some g
      else gap_search N (of_int p) t s (to_i32 (g + s)))"
  by (subst gap_search.simps) simp

lemma gap_search_up:
  assumes p: "0 \<le> p" "p < 2 ^ 30" and l: "unat label < 2 ^ 30"
  shows "0 \<le> g \<Longrightarrow> p + g \<le> uint label \<Longrightarrow>
    \<exists>g'. gap_search N (of_int p) (decode_logic_id N label) 1 g = Some g' \<and> g \<le> g' \<and>
      p + g' \<le> uint label \<and> (p + g') div uint N = uint label div uint N"
proof (induction "nat (uint label - p - g)" arbitrary: g rule: less_induct)
  case less
  note u = sint_small [OF l]
  have "p + g < 2 ^ 30" using less.prems u(3) by linarith
  then have r: "p + g < 2 ^ 32" by simp
  note d = decode_int(1) [OF _ r l, of N]
  show ?case
  proof (cases "(p + g) div uint N = uint label div uint N")
    case True
    then have "gap_search N (of_int p) (decode_logic_id N label) 1 g = Some g"
      using less.prems p(1) d by (subst gap_search_unfold) (simp del: of_int_add)
    then show ?thesis using True less.prems by blast
  next
    case False
    then have ne: "p + g \<noteq> uint label" by auto
    have lt: "nat (uint label - p - (g + 1)) < nat (uint label - p - g)" using ne less.prems(2) by simp
    have g1: "- (2 ^ 30) \<le> g + 1" "g + 1 < 2 ^ 30"
      subgoal using less.prems(1) by simp
      subgoal using ne less.prems(2) u(3) p(1) by linarith
      done
    have "gap_search N (of_int p) (decode_logic_id N label) 1 g =
        gap_search N (of_int p) (decode_logic_id N label) 1 (g + 1)"
      using False less.prems p(1) d
      by (subst gap_search_unfold) (simp add: to_i_small(2) [OF g1] del: of_int_add)
    moreover obtain g' where "gap_search N (of_int p) (decode_logic_id N label) 1 (g + 1) = Some g'" "g + 1 \<le> g'"
      "p + g' \<le> uint label" "(p + g') div uint N = uint label div uint N"
      using less.hyps [OF lt] less.prems ne by auto
    ultimately show ?thesis by auto
  qed
qed

lemma gap_search_down:
  assumes p: "0 \<le> p" "p < 2 ^ 30" and l: "unat label < 2 ^ 30"
  shows "g \<le> 0 \<Longrightarrow> uint label \<le> p + g \<Longrightarrow>
    \<exists>g'. gap_search N (of_int p) (decode_logic_id N label) (- 1) g = Some g' \<and> g' \<le> g \<and>
      uint label \<le> p + g' \<and> (p + g') div uint N = uint label div uint N"
proof (induction "nat (p + g - uint label)" arbitrary: g rule: less_induct)
  case less
  note u = sint_small [OF l]
  have "p + g < 2 ^ 30" using less.prems(1) p(2) by linarith
  then have r: "p + g < 2 ^ 32" by simp
  have pos: "0 \<le> p + g" using less.prems(2) u(2) by linarith
  note d = decode_int(1) [OF pos r l, of N]
  show ?case
  proof (cases "(p + g) div uint N = uint label div uint N")
    case True
    then have "gap_search N (of_int p) (decode_logic_id N label) (- 1) g = Some g"
      using d by (subst gap_search_unfold) (simp del: of_int_add)
    then show ?thesis using True less.prems by blast
  next
    case False
    then have ne: "p + g \<noteq> uint label" by auto
    have lt: "nat (p + (g - 1) - uint label) < nat (p + g - uint label)" using ne less.prems(2) by simp
    have g1: "- (2 ^ 30) \<le> g + - 1" "g + - 1 < 2 ^ 30"
      subgoal using pos ne u(2) less.prems(2) p(2) by linarith
      subgoal using less.prems(1) by simp
      done
    have "gap_search N (of_int p) (decode_logic_id N label) (- 1) g =
        gap_search N (of_int p) (decode_logic_id N label) (- 1) (g - 1)"
      using False d to_i_small(2) [OF g1]
      by (subst gap_search_unfold) (simp del: of_int_add)
    moreover obtain g' where "gap_search N (of_int p) (decode_logic_id N label) (- 1) (g - 1) = Some g'"
      "g' \<le> g - 1" "uint label \<le> p + g'" "(p + g') div uint N = uint label div uint N"
      using less.hyps [OF lt] less.prems ne by auto
    ultimately show ?thesis by auto
  qed
qed

lemma dd_page_updater_ok:
  assumes l: "unat label < 2 ^ 30" and p: "0 \<le> p" "p < 2 ^ 30" and mn: "- (2 ^ 30) \<le> mn" "mn \<le> 0"
    and mx: "0 \<le> mx" "mx \<le> 2 ^ 30"
  shows "\<exists>mn' mx'. dd_page_updater N label (of_int p) mn mx = Some (Inr (mn', mx')) \<and>
    - (2 ^ 30) \<le> mn' \<and> mn' \<le> mn \<and> mx \<le> mx' \<and> mx' \<le> 2 ^ 30 \<and>
    (p + mn') div uint N \<le> uint label div uint N \<and> uint label div uint N \<le> (p + mx') div uint N"
proof -
  let ?g = "\<lambda>x. x div uint N"
  have mono: "?g x \<le> ?g y" if "x \<le> y" for x y
    using div_page_mono [of x y "unat N"] that by simp
  note u = sint_small [OF l]
  have r: "- (2 ^ 30) \<le> uint label - p" "uint label - p < 2 ^ 30"
    subgoal using u(2) p(2) by linarith
    subgoal using u(3) p(1) by linarith
    done
  have pr: "p < 2 ^ 32" using p(2) by simp
  note d = decode_int [OF p(1) pr l, of N]
  have pm: "?g (p + mn) \<le> ?g p" "?g p \<le> ?g (p + mx)" by (rule mono, use mn mx in simp)+
  consider (same) "?g p = ?g (uint label)"
    | (inside) "?g p \<noteq> ?g (uint label)" "decode_logic_id N (of_int p + of_int mn) \<le> decode_logic_id N label"
        "decode_logic_id N (of_int p + of_int mx) \<ge> decode_logic_id N label"
    | (search) "?g p \<noteq> ?g (uint label)" "\<not> (decode_logic_id N (of_int p + of_int mn) \<le> decode_logic_id N label \<and>
        decode_logic_id N (of_int p + of_int mx) \<ge> decode_logic_id N label)"
    by blast
  then show ?thesis
  proof cases
    case same
    then show ?thesis using pm d(1) mn mx by (simp add: dd_page_updater_def)
  next
    case inside
    have "0 \<le> p + mx" "p + mx < 2 ^ 32" using p mx by simp_all
    then have "?g (uint label) \<le> ?g (p + mx)"
      using inside(3) decode_int(3) [OF _ _ l] unfolding add_of_int by blast
    moreover have "?g (p + mn) \<le> ?g (uint label)"
    proof (cases "0 \<le> p + mn")
      case True
      have "p + mn < 2 ^ 32" using p(2) mn(2) by simp
      then show ?thesis using inside(2) decode_int(2) [OF True _ l] unfolding add_of_int by blast
    next
      case False
      show ?thesis by (rule mono) (use False u(2) in linarith)
    qed
    ultimately show ?thesis using inside d(1) mn mx by (simp add: dd_page_updater_def)
  next
    case search
    have err: "sint (label - of_int p) = uint label - p"
    proof -
      have "label - of_int p = (of_int (uint label - p) :: u64)" by simp
      then have "sint (label - of_int p) = signed_take_bit 63 (uint label - p)"
        by (simp only: signed_of_int) simp
      also have "\<dots> = uint label - p" using r by (rule to_i_small(1) [unfolded to_i64_def])
      finally show ?thesis .
    qed
    show ?thesis
    proof (cases "uint label < p")
      case True
      then obtain g where g: "gap_search N (of_int p) (decode_logic_id N label) (- 1) 0 = Some g" "g \<le> 0"
        "uint label \<le> p + g" "?g (p + g) = ?g (uint label)"
        using gap_search_down [OF p l, of 0 N] by auto
      have "- (2 ^ 30) \<le> g" using g(3) u(2) p(2) by linarith
      moreover have "?g (p + min mn g) \<le> ?g (p + g)" by (rule mono) simp
      moreover have "?g (uint label) \<le> ?g (p + mx)" by (rule mono) (use True mx in simp)
      ultimately show ?thesis using search(1) d(1) g mn mx err True search(2)
        by (auto simp: dd_page_updater_def Let_def)
    next
      case False
      then obtain g where g: "gap_search N (of_int p) (decode_logic_id N label) 1 0 = Some g" "0 \<le> g"
        "p + g \<le> uint label" "?g (p + g) = ?g (uint label)"
        using gap_search_up [OF p l, of 0 N] by auto
      have "g \<le> 2 ^ 30" using g(3) u(3) p(1) by linarith
      moreover have "?g (p + g) \<le> ?g (p + max mx g)" by (rule mono) simp
      moreover have "?g (p + mn) \<le> ?g (uint label)" by (rule mono) (use False mn in simp)
      ultimately show ?thesis using search(1) d(1) g mn mx err False search(2)
        by (auto simp: dd_page_updater_def Let_def)
    qed
  qed
qed

text \<open>So it meets the contract of an update function.\<close>

interpretation dd_eb: error_bound "dd_page_updater N" "\<lambda>x. x div int (unat N)" for N :: u64
proof unfold_locales
  fix x y :: int assume "x \<le> y"
  then show "x div int (unat N) \<le> y div int (unat N)" by (rule div_page_mono)
next
  fix label :: u64 and p mn mx :: int
  assume a: "unat label < 2 ^ 30" "0 \<le> p" "p < 2 ^ 30" "- (2 ^ 30) \<le> mn" "mn \<le> 0" "0 \<le> mx" "mx \<le> 2 ^ 30"
  have "int (unat N) = uint N" by simp
  then show "\<exists>mn' mx'. dd_page_updater N label (of_int p) mn mx = Some (Inr (mn', mx')) \<and>
      - (2 ^ 30) \<le> mn' \<and> mn' \<le> mn \<and> mx \<le> mx' \<and> mx' \<le> 2 ^ 30 \<and>
      (p + mn') div int (unat N) \<le> uint label div int (unat N) \<and> uint label div int (unat N) \<le> (p + mx') div int (unat N)"
    using dd_page_updater_ok [OF a, of N] by (simp only:)
qed

section \<open>Properties\<close>

text \<open>C27: the search loop of the second server's page updater always ends for labels, predictions
  and bounds below \<open>2 ^ 30\<close>, its assertion never fails, the bounds only widen, and afterwards the
  page of the label lies between the pages of both ends of the range.\<close>

theorem dd_page_updater_terminates:
  assumes "unat label < 2 ^ 30" and "0 \<le> p" and "p < 2 ^ 30" and "- (2 ^ 30) \<le> mn" and "mn \<le> 0"
    and "0 \<le> mx" and "mx \<le> 2 ^ 30"
  shows "\<exists>mn' mx'. dd_page_updater N label (of_int p) mn mx = Some (Inr (mn', mx')) \<and> mn' \<le> mn \<and> mx \<le> mx' \<and>
    (p + mn') div uint N \<le> uint label div uint N \<and> uint label div uint N \<le> (p + mx') div uint N"
  using dd_page_updater_ok [OF assms, of N] by blast

theorem dd_page_updater_terminates_witness:
  "\<exists>mn' mx'. dd_page_updater 16 100 (of_int 7) 0 3 = Some (Inr (mn', mx')) \<and> mn' \<le> 0 \<and> 3 \<le> mx' \<and>
    (7 + mn') div uint (16 :: u64) \<le> uint (100 :: u64) div uint (16 :: u64) \<and>
    uint (100 :: u64) div uint (16 :: u64) \<le> (7 + mx') div uint (16 :: u64)"
  by (rule dd_page_updater_terminates) simp_all

end
