(* ===== verification/BenchKeys.thy ===== *)
theory BenchKeys
  imports KeyTypes
begin

text \<open>
  The composite keys of the benchmarks: \<^verbatim>\<open>ARKey\<close> (\<^verbatim>\<open>benchs/data_dist/server/ar_key.hh\<close>), two
  32-bit bit-fields in one word, and \<^verbatim>\<open>TPCCKey\<close> (\<^verbatim>\<open>benchs/data_dist/server/tpcc_key.hh\<close>), a
  warehouse, district, order and line number packed by multiplication and shifting. The lemmas say
  which order the packed words have and when the fields can be read back.
\<close>

unbundle bit_operations_syntax

section \<open>ARKey\<close>

text \<open>The union is kept as its word \<^verbatim>\<open>pad\<close>; the first bit-field is the low half.\<close>

datatype arkey = ARPad (pad: u64)

definition p_id :: "arkey \<Rightarrow> u64" where
  "p_id k = take_bit 32 (pad k)"

definition r_id :: "arkey \<Rightarrow> u64" where
  "r_id k = take_bit 32 (drop_bit 32 (pad k))"

definition ARKey :: "u64 \<Rightarrow> u64 \<Rightarrow> arkey" where
  "ARKey p r = ARPad (take_bit 32 p OR push_bit 32 (take_bit 32 r))"

definition ARKey_u64 :: "u64 \<Rightarrow> arkey" where
  "ARKey_u64 d = ARPad d"

definition ar_to_u64 :: "arkey \<Rightarrow> u64" where
  "ar_to_u64 k = pad k"

definition ar_to_feature :: "arkey \<Rightarrow> u64 list" where
  "ar_to_feature k = [p_id k, r_id k]"

text \<open>The least and the greatest key, and the comparisons, one definition for each operator of the struct.\<close>

definition ar_min :: "arkey" where
  "ar_min = ARPad 0"

definition ar_max :: "arkey" where
  "ar_max = ARPad (- 1)"

definition ar_eq :: "arkey \<Rightarrow> arkey \<Rightarrow> bool" where
  "ar_eq a b \<longleftrightarrow> pad a = pad b"

definition ar_ge :: "arkey \<Rightarrow> arkey \<Rightarrow> bool" where
  "ar_ge a b \<longleftrightarrow> pad a \<ge> pad b"

definition ar_ne :: "arkey \<Rightarrow> arkey \<Rightarrow> bool" where
  "ar_ne a b \<longleftrightarrow> pad a \<noteq> pad b"

definition ar_lt :: "arkey \<Rightarrow> arkey \<Rightarrow> bool" where
  "ar_lt a b \<longleftrightarrow> pad a < pad b"

definition ar_gt :: "arkey \<Rightarrow> arkey \<Rightarrow> bool" where
  "ar_gt a b \<longleftrightarrow> pad a > pad b"

instantiation arkey :: "{linorder, order_bot, order_top}"
begin

definition less_arkey :: "arkey \<Rightarrow> arkey \<Rightarrow> bool" where
  "less_arkey = ar_lt"

definition less_eq_arkey :: "arkey \<Rightarrow> arkey \<Rightarrow> bool" where
  "less_eq_arkey a b \<longleftrightarrow> ar_ge b a"

definition bot_arkey :: arkey where
  "bot_arkey = ar_min"

definition top_arkey :: arkey where
  "top_arkey = ar_max"

instance
  by standard (auto simp: less_arkey_def less_eq_arkey_def bot_arkey_def top_arkey_def
      ar_lt_def ar_ge_def ar_min_def ar_max_def intro: arkey.expand)

end

text \<open>The operators of the code are those of the classes.\<close>

lemmas arkey_defs = less_arkey_def less_eq_arkey_def bot_arkey_def top_arkey_def
  ar_lt_def ar_ge_def ar_min_def ar_max_def

lemma ar_operators:
  "ar_eq a b \<longleftrightarrow> a = b" "ar_ne a b \<longleftrightarrow> a \<noteq> b" "ar_lt a b \<longleftrightarrow> a < b" "ar_gt a b \<longleftrightarrow> b < a"
  "ar_ge a b \<longleftrightarrow> b \<le> a"
  by (auto simp: arkey_defs ar_eq_def ar_ne_def ar_gt_def ar_ge_def intro: arkey.expand)

lemma ARKey_fields: "p_id (ARKey p r) = take_bit 32 p" "r_id (ARKey p r) = take_bit 32 r"
  by (rule bit_word_eqI, auto simp: p_id_def r_id_def ARKey_def bit_simps)+

lemma pad_fields: "unat (pad k) = unat (r_id k) * 2 ^ 32 + unat (p_id k)"
proof -
  have "unat (pad k) < 2 ^ LENGTH(64)" by (rule unsigned_less)
  then have d: "unat (pad k) div 2 ^ 32 < 2 ^ 32" by (simp add: less_mult_imp_div_less)
  have "unat (pad k) = unat (pad k) div 2 ^ 32 * 2 ^ 32 + unat (pad k) mod 2 ^ 32" by simp
  then show ?thesis
    using d by (simp add: p_id_def r_id_def take_bit_eq_mod drop_bit_eq_div unat_mod unat_div)
qed

text \<open>The words are ordered by \<open>r_id\<close> first, although \<open>p_id\<close> is the first field.\<close>

lemma arkey_less_iff: "a < b \<longleftrightarrow> r_id a < r_id b \<or> r_id a = r_id b \<and> p_id a < p_id b"
proof -
  have p: "unat (p_id k) < 2 ^ 32" for k
    using take_bit_nat_less_exp [of 32 "unat (pad k)"] by (simp add: p_id_def unsigned_take_bit_eq)
  have "a < b \<longleftrightarrow> unat (r_id a) * 2 ^ 32 + unat (p_id a) < unat (r_id b) * 2 ^ 32 + unat (p_id b)"
    by (simp add: arkey_defs word_less_nat_alt pad_fields)
  also have "\<dots> \<longleftrightarrow> unat (r_id a) < unat (r_id b) \<or> unat (r_id a) = unat (r_id b) \<and> unat (p_id a) < unat (p_id b)"
    using p [of a] p [of b] by (cases "unat (r_id a)" "unat (r_id b)" rule: linorder_cases) auto
  finally show ?thesis by (simp add: word_less_nat_alt word_unat_eq_iff)
qed

section \<open>TPCCKey\<close>

definition kMaxDPerW :: nat where "kMaxDPerW = 10"

definition kMaxOrderPD :: nat where "kMaxOrderPD = 200000"

definition kMaxOL :: nat where "kMaxOL = 4000"

datatype tpcckey = TPCCd (tpcc_d: u64)

text \<open>The arguments are \<^verbatim>\<open>usize\<close>; the sums are 64-bit words.\<close>

definition TPCCKey :: "nat \<Rightarrow> nat \<Rightarrow> nat \<Rightarrow> nat \<Rightarrow> tpcckey res" where
  "TPCCKey w d ord n =
     (let upper = (of_nat (w * kMaxDPerW + d) :: u64) in
      rbind (cassert (upper < of_nat kMaxOrderPD)) (\<lambda>_.
      let upper' = upper * of_nat kMaxOrderPD + of_nat ord
      in Inr (TPCCd (push_bit 32 upper' + of_nat n))))"

definition TPCCKey_u64 :: "u64 \<Rightarrow> tpcckey" where
  "TPCCKey_u64 d = TPCCd d"

text \<open>
  \<^verbatim>\<open>to_feature_impl\<close>: the warehouse, district, order and line. The assertion compares the word
  rebuilt from them as a \<^verbatim>\<open>double\<close>; \<open>to_double\<close> is that conversion.
\<close>

definition tpcc_to_feature :: "(u64 \<Rightarrow> 'd) \<Rightarrow> tpcckey \<Rightarrow> (u64 \<times> u64 \<times> u64 \<times> u64) res" where
  "tpcc_to_feature to_double k =
     (let n = (tpcc_d k AND 0xffffffff) mod of_nat kMaxOL;
          upper = drop_bit 32 (tpcc_d k);
          ord = upper mod of_nat kMaxOrderPD;
          upper' = upper div of_nat kMaxOrderPD;
          d = upper' mod of_nat kMaxDPerW;
          w = upper' div of_nat kMaxDPerW
      in rbind (TPCCKey (unat w) (unat d) (unat ord) (unat n)) (\<lambda>k'.
         rbind (cassert (to_double (tpcc_d k') = to_double (tpcc_d k))) (\<lambda>_. Inr (w, d, ord, n))))"

text \<open>The least and the greatest key, and the comparisons, one definition for each operator of the struct.\<close>

definition tpcc_min :: "tpcckey" where
  "tpcc_min = TPCCd 0"

definition tpcc_max :: "tpcckey" where
  "tpcc_max = TPCCd (- 1)"

definition tpcc_eq :: "tpcckey \<Rightarrow> tpcckey \<Rightarrow> bool" where
  "tpcc_eq a b \<longleftrightarrow> tpcc_d a = tpcc_d b"

definition tpcc_ge :: "tpcckey \<Rightarrow> tpcckey \<Rightarrow> bool" where
  "tpcc_ge a b \<longleftrightarrow> tpcc_d a \<ge> tpcc_d b"

definition tpcc_ne :: "tpcckey \<Rightarrow> tpcckey \<Rightarrow> bool" where
  "tpcc_ne a b \<longleftrightarrow> tpcc_d a \<noteq> tpcc_d b"

definition tpcc_lt :: "tpcckey \<Rightarrow> tpcckey \<Rightarrow> bool" where
  "tpcc_lt a b \<longleftrightarrow> tpcc_d a < tpcc_d b"

definition tpcc_gt :: "tpcckey \<Rightarrow> tpcckey \<Rightarrow> bool" where
  "tpcc_gt a b \<longleftrightarrow> tpcc_d a > tpcc_d b"

instantiation tpcckey :: "{linorder, order_bot, order_top}"
begin

definition less_tpcckey :: "tpcckey \<Rightarrow> tpcckey \<Rightarrow> bool" where
  "less_tpcckey = tpcc_lt"

definition less_eq_tpcckey :: "tpcckey \<Rightarrow> tpcckey \<Rightarrow> bool" where
  "less_eq_tpcckey a b \<longleftrightarrow> tpcc_ge b a"

definition bot_tpcckey :: tpcckey where
  "bot_tpcckey = tpcc_min"

definition top_tpcckey :: tpcckey where
  "top_tpcckey = tpcc_max"

instance
  by standard (auto simp: less_tpcckey_def less_eq_tpcckey_def bot_tpcckey_def top_tpcckey_def
      tpcc_lt_def tpcc_ge_def tpcc_min_def tpcc_max_def intro: tpcckey.expand)

end

text \<open>The operators of the code are those of the classes.\<close>

lemmas tpcckey_defs = less_tpcckey_def less_eq_tpcckey_def bot_tpcckey_def top_tpcckey_def
  tpcc_lt_def tpcc_ge_def tpcc_min_def tpcc_max_def

lemma tpcc_operators:
  "tpcc_eq a b \<longleftrightarrow> a = b" "tpcc_ne a b \<longleftrightarrow> a \<noteq> b" "tpcc_lt a b \<longleftrightarrow> a < b" "tpcc_gt a b \<longleftrightarrow> b < a"
  "tpcc_ge a b \<longleftrightarrow> b \<le> a"
  by (auto simp: tpcckey_defs tpcc_eq_def tpcc_ne_def tpcc_gt_def tpcc_ge_def intro: tpcckey.expand)

text \<open>The bounds under which the packed number fits.\<close>

definition tpcc_fits :: "nat \<Rightarrow> nat \<Rightarrow> nat \<Rightarrow> nat \<Rightarrow> bool" where
  "tpcc_fits w d ord n \<longleftrightarrow> d < 10 \<and> ord < 200000 \<and> n < 4000 \<and> (w * 10 + d) * 200000 + ord < 2 ^ 32"

lemma unat_push_32: "unat (x :: u64) < 2 ^ 32 \<Longrightarrow> unat (push_bit 32 x) = unat x * 2 ^ 32"
  by (simp add: push_bit_eq_mult unat_word_ariths)

lemma TPCCKey_unat:
  assumes "tpcc_fits w d ord n"
  obtains k where "TPCCKey w d ord n = Inr k"
    and "unat (tpcc_d k) = ((w * 10 + d) * 200000 + ord) * 2 ^ 32 + n"
proof -
  let ?u = "of_nat (w * 10 + d) :: u64"
  have b: "w * 10 + d < 200000" "(w * 10 + d) * 200000 + ord < 2 ^ 32" "n < 4000" "ord < 200000"
    using assms by (auto simp: tpcc_fits_def)
  have un: "unat (of_nat x :: u64) = x" if "x < 2 ^ 32" for x
    using that by (simp add: unat_of_nat take_bit_nat_eq_self)
  have u: "unat ?u = w * 10 + d" and o: "unat (of_nat ord :: u64) = ord" and n: "unat (of_nat n :: u64) = n"
    using b by (intro un; simp)+
  have up: "unat (?u * 200000 + of_nat ord) = (w * 10 + d) * 200000 + ord"
    using b u o by (simp only: unat_word_ariths) simp
  let ?k = "TPCCd (push_bit 32 (?u * 200000 + of_nat ord) + of_nat n)"
  have run: "TPCCKey w d ord n = Inr ?k"
    using u b(1) by (simp add: TPCCKey_def Let_def kMaxDPerW_def kMaxOrderPD_def word_less_nat_alt)
  have "unat (push_bit 32 (?u * 200000 + of_nat ord)) = ((w * 10 + d) * 200000 + ord) * 2 ^ 32"
    using unat_push_32 [of "?u * 200000 + of_nat ord"] b(2) unfolding up by simp
  then have "unat (tpcc_d ?k) = ((w * 10 + d) * 200000 + ord) * 2 ^ 32 + n"
    using n b by (simp only: tpcckey.sel unat_word_ariths) simp
  with run show ?thesis by (rule that)
qed


section \<open>Properties\<close>

text \<open>Within the bounds the packing never overflows, and \<^verbatim>\<open>to_feature\<close> gives back exactly
  the four numbers the key was built from, whatever the conversion to \<^verbatim>\<open>double\<close> does.\<close>

theorem tpcc_roundtrip:
  assumes "tpcc_fits w d ord n"
  shows "\<exists>k. TPCCKey w d ord n = Inr k \<and>
    tpcc_to_feature f k = Inr (of_nat w, of_nat d, of_nat ord, of_nat n)"
proof -
  obtain k where k: "TPCCKey w d ord n = Inr k"
    "unat (tpcc_d k) = ((w * 10 + d) * 200000 + ord) * 2 ^ 32 + n"
    by (rule TPCCKey_unat [OF assms])
  define V U where "V = w * 10 + d" and "U = V * 200000 + ord"
  have k2: "unat (tpcc_d k) = U * 2 ^ 32 + n" unfolding U_def V_def by (rule k(2))
  have b: "d < 10" "ord < 200000" "n < 4000" "U < 2 ^ 32" using assms by (auto simp: tpcc_fits_def U_def V_def)
  have un: "unat (of_nat x :: u64) = x" if "x < 2 ^ 32" for x
    using that by (simp add: unat_of_nat take_bit_nat_eq_self)
  have uw: "unat (of_nat w :: u64) = w" "unat (of_nat d :: u64) = d" "unat (of_nat ord :: u64) = ord"
    "unat (of_nat n :: u64) = n" using b by (intro un; simp add: U_def V_def)+
  have "tpcc_d k AND 0xffffffff = take_bit 32 (tpcc_d k)"
    by (simp add: take_bit_eq_mask mask_eq_exp_minus_1)
  then have n: "(tpcc_d k AND 0xffffffff) mod 4000 = of_nat n"
    using b(3) uw(4) by (simp add: word_unat_eq_iff unat_mod take_bit_eq_mod k2)
  have U: "unat (drop_bit 32 (tpcc_d k)) = U"
    using b(3) by (simp add: drop_bit_eq_div unat_div k2)
  have o: "drop_bit 32 (tpcc_d k) mod 200000 = of_nat ord"
    using b(2) uw(3) by (simp add: word_unat_eq_iff unat_mod U U_def)
  have U1: "unat (drop_bit 32 (tpcc_d k) div 200000) = V"
    using b(2) by (simp add: unat_div U U_def)
  have d: "drop_bit 32 (tpcc_d k) div 200000 mod 10 = of_nat d"
    using b(1) uw(2) by (simp add: word_unat_eq_iff unat_mod U1 V_def)
  have w: "drop_bit 32 (tpcc_d k) div 200000 div 10 = of_nat w"
    using b(1) uw(1) by (simp add: word_unat_eq_iff unat_div [of _ 10] U1 V_def)
  have "tpcc_to_feature f k = Inr (of_nat w, of_nat d, of_nat ord, of_nat n)"
    unfolding tpcc_to_feature_def Let_def kMaxOL_def kMaxOrderPD_def kMaxDPerW_def of_nat_numeral n o d w uw
    by (simp add: k(1))
  with k(1) show ?thesis by blast
qed

theorem tpcc_roundtrip_witness:
  "\<exists>k. TPCCKey 3 7 1500 12 = Inr k \<and> tpcc_to_feature id k = Inr (3, 7, 1500, 12)"
  using tpcc_roundtrip [of 3 7 1500 12 id] by (simp add: tpcc_fits_def)

text \<open>The assertion of the constructor does not keep the packed number below 32 bits: two
  keys with fields in range are stored as the same word.\<close>

theorem tpcc_collision:
  "\<exists>k. TPCCKey 2147 5 0 n = Inr k \<and> TPCCKey 0 0 32704 n = Inr k"
  by (simp add: TPCCKey_def Let_def kMaxDPerW_def kMaxOrderPD_def cassert_def push_bit_eq_mult)

text \<open>A composite key \<^verbatim>\<open>ARKey(p, r)\<close> is ordered by \<open>r\<close> and then by \<open>p\<close>, both cut to 32
  bits, and both can be read back.\<close>

theorem arkey_order:
  "(ARKey p r < ARKey p' r' \<longleftrightarrow>
     take_bit 32 r < take_bit 32 r' \<or> take_bit 32 r = take_bit 32 r' \<and> take_bit 32 p < take_bit 32 p') \<and>
   ar_to_feature (ARKey p r) = [take_bit 32 p, take_bit 32 r]"
  by (simp add: arkey_less_iff ARKey_fields ar_to_feature_def)

end
