(* ===== verification/DataDist.thy ===== *)
theory DataDist
  imports YcsbDB PageUpdater BenchKeys
begin

text \<open>
  The database of the data distribution server (\<^verbatim>\<open>benchs/data_dist/server/db.hh\<close>): loading keys of the
  configured type from a file, and training the cache. For fixed-size values every pair of a window
  is in the training set (\<^verbatim>\<open>DefaultSample\<close>, \<^verbatim>\<open>StepSampler(1)\<close>), for variable-length values the page
  sampler is used; both bound the error with the server's own \<^verbatim>\<open>page_updater\<close>. With \<^verbatim>\<open>--verbose\<close> the
  labels of each submodel are collected by a walk of their own before it is trained, and four plots
  are dumped at the end.

  The lemmas show that training succeeds with every combination of the flags and that afterwards
  every key of the tree is found; in verbose mode a table has the entries of both walks.
\<close>

section \<open>Loading\<close>

text \<open>
  \<^verbatim>\<open>FileLoader\<close> of \<^verbatim>\<open>xutils/file_loader.hh\<close>: the state is the lines that are left, \<open>conv\<close> the converter
  that is passed in.
\<close>

definition next_key :: "('l \<Rightarrow> 'k) \<Rightarrow> 'l list \<Rightarrow> 'k option \<times> 'l list" where
  "next_key conv file = (case file of [] \<Rightarrow> (None, []) | line # file' \<Rightarrow> (Some (conv line), file'))"

text \<open>\<^verbatim>\<open>while (getline(...))\<close> with the break behind the counter; a line is what \<^verbatim>\<open>>>\<close> reads from it.\<close>

fun load_lines :: "('db \<Rightarrow> 'l \<Rightarrow> 'db res) \<Rightarrow> (nat \<Rightarrow> bool) \<Rightarrow> 'db \<Rightarrow> nat \<Rightarrow> 'l list \<Rightarrow> ('db \<times> nat) res" where
  "load_lines ins brk db cnt [] = Inr (db, cnt)"
| "load_lines ins brk db cnt (line # file) =
     rbind (ins db line) (\<lambda>db'.
     if brk (cnt + 1) then Inr (db', cnt + 1) else load_lines ins brk db' (cnt + 1) file)"

text \<open>\<open>KK\<close> builds the key of a latitude and a longitude; the value is the latitude as a \<^verbatim>\<open>u64\<close>.\<close>

definition load_map :: "u64 \<Rightarrow> nat \<Rightarrow> (real \<Rightarrow> real \<Rightarrow> 'k::{linorder,order_top}) \<Rightarrow> (real \<Rightarrow> u64 res) \<Rightarrow> nat
    \<Rightarrow> ('k, u64) xtree \<times> xalloc \<Rightarrow> (real \<times> real) list \<Rightarrow> ((('k, u64) xtree \<times> xalloc) \<times> nat) res" where
  "load_map S N KK to_val nkeys db file =
     load_lines (\<lambda>db (lon, lat). rbind (to_val lat) (\<lambda>v. tree_put S N 8 db (KK lat lon) v))
       (\<lambda>cnt. cnt > nkeys) db 0 file"

text \<open>The plot of the loaded keys is kept with the tree.\<close>

definition load_tpcc :: "u64 \<Rightarrow> nat \<Rightarrow> nat \<Rightarrow> (tpcckey, u64) xtree \<times> xalloc \<Rightarrow> (nat \<times> nat \<times> nat \<times> nat) list
    \<Rightarrow> ((((tpcckey, u64) xtree \<times> xalloc) \<times> (u64, u64) xy_data) \<times> nat) res" where
  "load_tpcc S N nkeys db file =
     load_lines (\<lambda>(db, cdf) (w, d, o', c).
         rbind (TPCCKey w d o' c) (\<lambda>k.
         rbind (tree_put S N 8 db k (of_nat w)) (\<lambda>db'.
         Inr (db', xy_add cdf (tpcc_d k) (of_nat (length (xy cdf)))))))
       (\<lambda>cnt. cnt \<ge> nkeys) (db, XYData) 0 file"

definition load_ar :: "u64 \<Rightarrow> nat \<Rightarrow> nat \<Rightarrow> (arkey, u64) xtree \<times> xalloc \<Rightarrow> (u64 \<times> char \<times> u64) list
    \<Rightarrow> (((arkey, u64) xtree \<times> xalloc) \<times> nat) res" where
  "load_ar S N nkeys db file =
     load_lines (\<lambda>db (r, c, p). rbind (cassert (c = CHR '','')) (\<lambda>_. tree_put S N 8 db (ARKey p r) r))
       (\<lambda>cnt. cnt \<ge> nkeys) db 0 file"

text \<open>The loop ends at the end of the file; the result is \<^verbatim>\<open>nkeys\<close> all the same.\<close>

fun load_from_file :: "u64 \<Rightarrow> nat \<Rightarrow> ('l \<Rightarrow> u64) \<Rightarrow> nat \<Rightarrow> (xkey, u64) xtree \<times> xalloc \<Rightarrow> 'l list
    \<Rightarrow> ((xkey, u64) xtree \<times> xalloc) res" where
  "load_from_file S N conv 0 db loader = Inr db"
| "load_from_file S N conv (Suc n) db loader =
     (case next_key conv loader of
        (Some k, loader') \<Rightarrow> rbind (tree_put S N 8 db (XKey k) k) (\<lambda>db'. load_from_file S N conv n db' loader')
      | (None, _) \<Rightarrow> Inr db)"

section \<open>Training\<close>

definition sorted_ops :: "nat \<Rightarrow> ('k::{linorder,order_bot,order_top}, 'v) xtree \<Rightarrow> ('k xtree_iter, 'k) key_iter_ops" where
  "sorted_ops N t = \<lparr>from_impl = XTreeSIter N t, begin_impl = Inr, seek_impl = siter_seek N t,
     next_impl = siter_next N t, has_next_impl = iter_has_next, cur_key_impl = iter_cur_key,
     opaque_val_impl = (\<lambda>it. Inr (iter_opaque_val it))\<rparr>"

text \<open>\<^verbatim>\<open>mapping.insert\<close> keeps the first label of a key.\<close>

definition label_map :: "'k list \<Rightarrow> u64 list \<Rightarrow> 'k \<rightharpoonup> u64" where
  "label_map ts ls = foldl (\<lambda>m (k, l). if m k = None then m(k \<mapsto> l) else m) Map.empty (zip ts ls)"

text \<open>
  The walk that collects the labels in verbose mode: its iterator fills the table of the submodel.
\<close>

definition dd_labels :: "nat \<Rightarrow> nat \<Rightarrow> ('k::{linorder,order_bot,order_top}, 'v) xtree \<Rightarrow> ('k, 'w::len word) xml_trainer
    \<Rightarrow> tt \<Rightarrow> (tt \<times> ('k \<rightharpoonup> u64)) res option" where
  "dd_labels N n t tr tab =
     fbind (Some (XCacheTreeIter N t (Some tab))) (\<lambda>it.
     fbind (snapshot_train_labels (cache_ops gen_f_default N t) default_sample n tr it ()) (\<lambda>(it', _, ts, ls).
     Some (Inr (case ctt it' of Some tab' \<Rightarrow> tab' | None \<Rightarrow> tab, label_map ts ls))))"

definition dd_train_sub :: "('m, 'k::{linorder,order_bot,order_top}) ml_ops \<Rightarrow> nat \<Rightarrow> nat \<Rightarrow> ('k, 'v) xtree
    \<Rightarrow> ('k, 'w::len word) xml_trainer \<Rightarrow> tt \<Rightarrow> ('m xsubmodel \<times> tt) res option" where
  "dd_train_sub M2 N n t tr tab =
     fbind (Some (XCacheTreeIter N t (Some tab))) (\<lambda>it.
     fbind (train_w_it_w_shrink M2 (cache_ops gen_f_default N t) default_sample step_sample
         (dd_page_updater (of_nat N)) n tr it () (StepSampler 1)) (\<lambda>(md, _, it', _, _).
     Some (Inr (md, (case ctt it' of Some tab' \<Rightarrow> tab' | None \<Rightarrow> tab)))))"

definition dd_train_sub_v :: "('m, 'k::{linorder,order_bot,order_top}) ml_ops \<Rightarrow> nat \<Rightarrow> nat \<Rightarrow> ('k, 'v) xtree
    \<Rightarrow> ('k, 'w::len word) xml_trainer \<Rightarrow> tt \<Rightarrow> ('m xsubmodel \<times> tt) res option" where
  "dd_train_sub_v M2 N n t tr tab =
     fbind (Some (XCacheTreeIter N t (Some tab))) (\<lambda>it.
     fbind (train_w_it_w_shrink M2 (cache_ops gen_f_default N t) (page_sample (of_nat N)) step_sample
         (dd_page_updater (of_nat N)) n tr it PageSampler (StepSampler 2)) (\<lambda>(md, _, it', _, _).
     Some (Inr (md, (case ctt it' of Some tab' \<Rightarrow> tab' | None \<Rightarrow> tab)))))"

text \<open>
  The loop over the trainers. Its state is the cache, the tables, the report, the number of keys of
  each submodel and the labels; \<open>to_string\<close> prints the number of a submodel.
\<close>

type_synonym ('m, 'k, 's, 'w) dd_loop =
  "('m, 's, 'w word) two_rmi \<times> tt list \<times> train_stats \<times> (int, int) xy_data \<times> ('k \<rightharpoonup> u64) list"

definition dd_step :: "(real \<Rightarrow> real) \<Rightarrow> (nat \<Rightarrow> string) \<Rightarrow> bool \<Rightarrow> ('s, 'k::{linorder,order_bot,order_top}) ml_ops
    \<Rightarrow> nat \<Rightarrow> nat \<Rightarrow> ('k, 'v) xtree \<Rightarrow> ('k, 'w::len word) xml_trainer list \<Rightarrow> ('m, 'k, 's, 'w) dd_loop \<Rightarrow> nat
    \<Rightarrow> ('m, 'k, 's, 'w) dd_loop res option" where
  "dd_step rnd to_string verbose M2 N n t trainers s i =
     (let (c, tabs, st, nkeys, labels) = s; tr = trainers ! i in
      fbind (if verbose then fbind (dd_labels N n t tr (tabs ! i)) (\<lambda>(tab, mapping). Some (Inr (tab, labels @ [mapping])))
             else Some (Inr (tabs ! i, labels))) (\<lambda>(tab1, labels').
      fbind (dd_train_sub M2 N n t (set_name tr (to_string i)) tab1) (\<lambda>(md, tab).
      Some (Inr (c\<lparr>second_layer := (second_layer c)[i := Some md]\<rparr>, tabs[i := tab], report_sub rnd i tr md tab st,
        (if verbose then xy_add nkeys (int i) (to_i32 (uint (nkeys_update tr))) else nkeys), labels')))))"

definition dd_step_v :: "(real \<Rightarrow> real) \<Rightarrow> ('s, 'k::{linorder,order_bot,order_top}) ml_ops
    \<Rightarrow> nat \<Rightarrow> nat \<Rightarrow> ('k, 'v) xtree \<Rightarrow> ('k, 'w::len word) xml_trainer list \<Rightarrow> ('m, 'k, 's, 'w) dd_loop \<Rightarrow> nat
    \<Rightarrow> ('m, 'k, 's, 'w) dd_loop res option" where
  "dd_step_v rnd M2 N n t trainers s i =
     (let (c, tabs, st, nkeys, labels) = s in
      fbind (dd_train_sub_v M2 N n t (trainers ! i) (tabs ! i)) (\<lambda>(md, tab).
      Some (Inr (c\<lparr>second_layer := (second_layer c)[i := Some md]\<rparr>, tabs[i := tab], report_sub_v rnd md tab st,
        nkeys, labels))))"

text \<open>The plots written in verbose mode, \<^verbatim>\<open>all.py\<close>, \<^verbatim>\<open>first.py\<close>, \<^verbatim>\<open>cdf.py\<close> and \<^verbatim>\<open>labels.py\<close>.\<close>

definition dd_dumps :: "(real \<Rightarrow> real) \<Rightarrow> ('m, 'k::{linorder,order_bot,order_top}) ml_ops \<Rightarrow> ('s, 'k) ml_ops \<Rightarrow> ('k \<Rightarrow> real)
    \<Rightarrow> nat \<Rightarrow> nat \<Rightarrow> ('k, 'v) xtree \<Rightarrow> ('m, 's, 'w::len word) two_rmi \<Rightarrow> ('k \<rightharpoonup> u64) list
    \<Rightarrow> (real, real) xy_data list res option" where
  "dd_dumps rnd M M2 to_scalar N n t c labels =
     fbind (dump_all rnd M M2 to_scalar (sorted_ops N t) n c) (\<lambda>a.
     fbind (dump_first M to_scalar (sorted_ops N t) n c) (\<lambda>f.
     fbind (rmi_dump_cdf to_scalar (sorted_ops N t) n) (\<lambda>d.
     fbind (dump_labels rnd M to_scalar (sorted_ops N t) n c labels) (\<lambda>l.
     Some (Inr [a, f, d, l])))))"

text \<open>The flags, the size passed for a first layer that is read from a file, and the reader.\<close>

record 'm dd_flags =
  skip_first :: bool
  use_vlen :: bool
  be_verbose :: bool
  flag_nkeys :: u64
  read_first :: "'m \<Rightarrow> 'm res"

text \<open>
  \<^verbatim>\<open>train_db\<close>; the tree is \<^verbatim>\<open>db\<close> or \<^verbatim>\<open>dbv\<close>, by the flag. The result has the plots beside the state.
\<close>

definition dd_train_db :: "(real \<Rightarrow> real) \<Rightarrow> (nat \<Rightarrow> string) \<Rightarrow> ('k \<Rightarrow> real) \<Rightarrow> 'm dd_flags
    \<Rightarrow> ('m, 'k::{linorder,order_bot,order_top}) ml_ops \<Rightarrow> ('s, 'k) ml_ops \<Rightarrow> nat \<Rightarrow> nat \<Rightarrow> 'w::len word \<Rightarrow> ('k, 'v) xtree
    \<Rightarrow> ('m, 's, 'w word) ycsb_db \<Rightarrow> (('m, 's, 'w word) ycsb_db \<times> (real, real) xy_data list) res option" where
  "dd_train_db rnd to_string to_scalar fl M M2 N n num_sub t db =
     (case cache db of
        Some _ \<Rightarrow> Some (Inr (db, []))
      | None \<Rightarrow>
          fbind (Some (LocalTwoRMI (ml_init M) num_sub)) (\<lambda>c0.
          let tabs = tts db @ replicate (unat num_sub) TT in
          fbind (if \<not> skip_first fl then
                   if use_vlen fl then fbind (default_train_first M (tree_ops N t) n c0) (\<lambda>(c, _). Some (Inr c))
                   else fbind (train_first M (tree_ops N t) step_sample n c0 (StepSampler 1)) (\<lambda>(c, _, _). Some (Inr c))
                 else Some (load_first_from_file (read_first fl) c0 (flag_nkeys fl))) (\<lambda>c1.
          fbind (dispatch_keys_to_trainers rnd M (tree_ops N t) n c1) (\<lambda>trainers.
          fbind (foldl (\<lambda>acc i. fbind acc (\<lambda>s. if use_vlen fl then dd_step_v rnd M2 N n t trainers s i
                    else dd_step rnd to_string (be_verbose fl) M2 N n t trainers s i))
              (Some (Inr (c1, tabs, train_stats0, XYData, []))) [0..<length trainers]) (\<lambda>(c2, tabs', st, nk, labels).
          fbind (if \<not> use_vlen fl \<and> be_verbose fl then dd_dumps rnd M M2 to_scalar N n t c2 labels else Some (Inr [])) (\<lambda>plots.
          Some (Inr (db\<lparr>cache := Some c2, tts := tabs', stats := finalize_stats (use_vlen fl) st\<rparr>, plots))))))))"

text \<open>\<^verbatim>\<open>round_up\<close> and \<^verbatim>\<open>serialize_db\<close> are those of the YCSB server.\<close>

definition dd_serialize_db :: "('s, 'k) ml_ops \<Rightarrow> u64 \<Rightarrow> u64 \<Rightarrow> ('m, 's, 'w::len word) two_rmi \<Rightarrow> tt list \<Rightarrow> u8 list
    \<Rightarrow> (u64 \<times> u64 \<times> u8 list) res" where
  "dd_serialize_db = serialize_db"

section \<open>One submodel\<close>

interpretation dd_tr: page_trainer "dd_page_updater N'" N' for N' :: u64
  by unfold_locales

interpretation sorted_scan: full_iter "sorted_ops N t" "iter_rep sort N (leafs t)"
  for N :: nat and t :: "('k::{linorder,order_bot,order_top}, 'v) xtree"
  by unfold_locales (unfold sorted_ops_def key_iter_ops.simps, (fact sit.has_next_rep sit.cur_rep sit.opaque_rep sit.next_rep)+)

text \<open>A table of the server: every entry names a leaf, and there are at most two for each leaf.\<close>

definition dd_table_ok :: "('k, 'v) xtree \<Rightarrow> tt \<Rightarrow> bool" where
  "dd_table_ok t tb \<longleftrightarrow> tt_size tb \<le> 2 * length (tree_leaves t) \<and>
     (\<forall>j<tt_size tb. \<exists>a\<in>set (tree_leaves t). get_wo_incar tb j = Inr (gen_f_default a))"

lemma dd_table_ok_entries:
  "dd_table_ok t tb \<longleftrightarrow> length (entries tb) \<le> 2 * length (tree_leaves t) \<and>
     (\<forall>e\<in>set (entries tb). \<exists>a\<in>set (tree_leaves t). drop_bit kIncarBit e = gen_f_default a)"
  by (auto simp: dd_table_ok_def tt_size_def get_wo_incar_def tt_at_def all_set_conv_all_nth)

lemma label_map_dom:
  fixes ts :: "'k list"
  assumes "length ls = length ts"
  shows "dom (label_map ts ls) = set ts"
proof -
  have "dom (foldl (\<lambda>m (k, l). if m k = None then m(k \<mapsto> l) else m) m xs) = dom m \<union> fst ` set xs"
    for m :: "'k \<rightharpoonup> u64" and xs
    by (induction xs arbitrary: m) (auto split: if_splits)
  then show ?thesis using assms by (simp add: label_map_def flip: set_map)
qed

lemma set_name_window [simp]:
  "tr_window N t (set_name tr x) = tr_window N t tr" "need_train (set_name tr x) = need_train tr"
  "table_of_window g N t (set_name tr x) = table_of_window g N t tr"
  by (simp_all add: tr_window_def set_name_def need_train_def table_of_window_def fun_eq_iff)

lemma dd_labels_ok:
  fixes t :: "('k::{linorder,order_bot,order_top}, 'v) xtree" and tr :: "('k, 'w::len word) xml_trainer"
  assumes w: "walk_ok gen_f_default N t" and n: "card (dom (xtree_map t)) < n"
  shows "\<exists>tab m. dd_labels N n t tr TT = Some (Inr (tab, m)) \<and> table_of_window gen_f_default N t tr (entries tab) \<and>
    dom m = fst ` set (tr_window N t tr)"
proof -
  obtain it where it: "XCacheTreeIter N t (Some TT) = Inr it" "ctt it = Some TT"
    using cache_iter_from [OF w] by blast
  have samp: "sampler (add_impl default_sample) (finalize_impl default_sample) () (\<lambda>xs :: ('k \<times> u64) list. xs)"
    by (simp add: default_sampler.sampler_axioms)
  note T = dd_tr.walk_training [OF samp, where gen_f = gen_f_default and N = N and t = t and E = "[]" and ?k0.0 = "start_key tr"]
  note TI = training.axioms(1) [OF T]
  have win: "train_iter.window (walk_from N t) tr = tr_window N t tr"
    unfolding train_iter.window_def [OF TI] tr_window_def ..
  have r: "walk_ready gen_f_default N t [] (start_key tr) it (start_key tr)"
    using w it(2) by (simp add: walk_ready_def TT_def)
  have len: "length (walk_from N t (start_key tr)) < n" using walk_from_ok(3) [OF w, of "start_key tr"] n by linarith
  let ?W = "tr_window N t tr"
  obtain it' where it': "snapshot_train_labels (cache_ops gen_f_default N t) default_sample n tr it () =
      Some (Inr (it', (), map fst ?W, map snd ?W))"
    "cache_rep gen_f_default N (leafs t) [] (leaves_from t (start_key tr)) it' (tr_rest N t tr)"
    using train_iter.snapshot_ok [OF TI r len, where S = default_sample, unfolded win]
    by (auto simp: default_feed default_finalize_def tr_rest_def)
  obtain tab where tab: "ctt it' = Some tab" "table_of_window gen_f_default N t tr (entries tab)"
    using window_table [OF w it'(2)] by auto
  then show ?thesis using it(1) it'(1) label_map_dom [of "map snd ?W" "map fst ?W"]
    by (simp add: dd_labels_def)
qed

lemma dd_train_sub_ok:
  fixes t :: "('k::{linorder,order_bot,order_top}, 'v) xtree" and M2 :: "('m, 'k) ml_ops" and ks
  defines "tr \<equiv> foldl update_key (XMLTrainer :: ('k, 'w::len word) xml_trainer) ks"
  assumes w: "walk_ok gen_f_default N t" and ks: "set ks \<subseteq> dom (xtree_map t)"
    and n: "card (dom (xtree_map t)) < n" and M2: "ks \<noteq> [] \<Longrightarrow> fits M2 (tr_window N t tr)"
    and tab0: "entries tab0 = [] \<or> table_of_window gen_f_default N t tr (entries tab0)"
  shows "\<exists>md tab. dd_train_sub M2 N n t (set_name tr x) tab0 = Some (Inr (md, tab)) \<and>
    dd_table_ok t tab \<and> page_eb.bounds_ok md \<and>
    (\<forall>k\<in>set ks. found gen_f_default N t (ml_predict M2) md tab k)"
proof -
  obtain it where it: "XCacheTreeIter N t (Some tab0) = Inr it" "ctt it = Some tab0"
    using cache_iter_from [OF w] by blast
  have ok: "length es \<le> length (tree_leaves t) \<and> (\<forall>e\<in>set es. \<exists>a\<in>set (tree_leaves t). drop_bit kIncarBit e = gen_f_default a)"
    if "es = [] \<or> table_of_window gen_f_default N t tr es" for es
    using that table_of_window_entry(1,4) [OF w, of tr es] by auto
  show ?thesis
  proof (cases "ks = []")
    case True
    then have "\<not> need_train (set_name tr x)" unfolding set_name_window by (simp add: tr_def need_train_def XMLTrainer_def)
    then have "dd_train_sub M2 N n t (set_name tr x) tab0 = Some (Inr (XSubModel (ml_init M2), tab0))"
      using it by (simp add: dd_train_sub_def train_w_it_w_shrink_def)
    moreover have "dd_table_ok t tab0" using ok [OF tab0] by (simp add: dd_table_ok_entries)
    ultimately show ?thesis using True by (auto simp: page_eb.bounds_ok_def XSubModel_def)
  next
    case False
    note keys = tr_window_keys [OF w False ks, where 'w = 'w, folded tr_def]
      and nt = trainer_range(3) [OF False, where 'w = 'w, folded tr_def]
    have nt': "need_train (set_name tr x)" "tr_window N t (set_name tr x) \<noteq> []"
      and M2': "fits M2 (tr_window N t (set_name tr x))" using nt keys(2) M2 [OF False] by simp_all
    obtain md it' ss' tab es where md: "train_w_it_w_shrink M2 (cache_ops gen_f_default N t) default_sample step_sample
        (dd_page_updater (of_nat N)) n (set_name tr x) it () (StepSampler 1) =
        Some (Inr (md, (set_name tr x)\<lparr>l_watermark := l_watermark (set_name tr x) + 1\<rparr>, it', (), ss'))"
      "ctt it' = Some tab" "entries tab = entries tab0 @ es" "table_of_window gen_f_default N t tr es"
      "page_eb.bounds_ok md"
      "\<forall>p\<in>set (tr_window N t tr). page_eb.covers (of_nat N) (ml_predict M2) md (fst p) (snd p)"
      using dd_tr.default_trained [OF w nt' n it(2) M2' refl] unfolding set_name_window by blast
    have run: "dd_train_sub M2 N n t (set_name tr x) tab0 = Some (Inr (md, tab))"
      using it(1) md(1,2) by (simp add: dd_train_sub_def)
    have "dd_table_ok t tab"
      using ok [OF tab0] ok [of es] md(3,4) by (auto simp: dd_table_ok_entries)
    moreover have "\<exists>es1 es2. entries tab = es1 @ es2 \<and> table_of_window gen_f_default N t tr es1"
      using tab0
    proof
      assume "entries tab0 = []"
      then show ?thesis using md(3,4) by (intro exI [of _ es] exI [of _ "[]"]) simp
    next
      assume "table_of_window gen_f_default N t tr (entries tab0)"
      then show ?thesis using md(3) by blast
    qed
    then obtain es1 es2 where es: "entries tab = es1 @ es2" "table_of_window gen_f_default N t tr es1" by blast
    have "found gen_f_default N t (ml_predict M2) md tab k" if k: "k \<in> set ks" for k
    proof -
      obtain l where l: "(k, l) \<in> set (tr_window N t tr)" using keys(1) k by blast
      then have "page_eb.covers (of_nat N) (ml_predict M2) md k l" using md(6) by force
      then show ?thesis by (rule page_tr.covers_found [OF w es(2,1) l refl])
    qed
    ultimately show ?thesis using run md(5) by blast
  qed
qed

lemma dd_train_sub_v_ok:
  fixes t :: "('k::{linorder,order_bot,order_top}, 'v) xtree" and M2 :: "('m, 'k) ml_ops" and ks
  assumes w: "walk_ok gen_f_default N t" and ks: "set ks \<subseteq> dom (xtree_map t)"
    and two: "\<forall>a\<in>set (butlast (tree_leaves t)). 2 \<le> card (dom (leaf_map (leafs t) a))"
    and n: "card (dom (xtree_map t)) < n"
    and M2: "ks \<noteq> [] \<Longrightarrow> fits_pages M2 N (tr_window N t (foldl update_key (XMLTrainer :: ('k, 'w::len word) xml_trainer) ks))"
  shows "\<exists>md tab. dd_train_sub_v M2 N n t (foldl update_key (XMLTrainer :: ('k, 'w::len word) xml_trainer) ks) TT =
      Some (Inr (md, tab)) \<and> dd_table_ok t tab \<and> page_eb.bounds_ok md \<and>
    (\<forall>k\<in>set ks. found gen_f_default N t (ml_predict M2) md tab k)"
proof -
  obtain it where it: "XCacheTreeIter N t (Some TT) = Inr it" "ctt it = Some TT"
    using cache_iter_from [OF w] by blast
  show ?thesis
  proof (cases "ks = []")
    case True
    have "\<not> need_train (XMLTrainer :: ('k, 'w word) xml_trainer)" by (simp add: need_train_def XMLTrainer_def)
    then have "dd_train_sub_v M2 N n t (XMLTrainer :: ('k, 'w word) xml_trainer) TT = Some (Inr (XSubModel (ml_init M2), TT))"
      using it by (simp add: dd_train_sub_v_def train_w_it_w_shrink_def)
    then show ?thesis using True by (auto simp: dd_table_ok_def tt_size_def TT_def page_eb.bounds_ok_def XSubModel_def)
  next
    case False
    from dd_tr.trained_submodel [where 'w = 'w, OF w False ks two n it(2) M2 [OF False] refl] it(1)
    show ?thesis by (fastforce simp: dd_train_sub_v_def table_ok_def dd_table_ok_def)
  qed
qed

text \<open>A submodel for fixed-size values that was trained had a learner that fits its window.\<close>

lemma dd_train_sub_fits:
  fixes t :: "('k::{linorder,order_bot,order_top}, 'v) xtree" and M2 :: "('m, 'k) ml_ops" and tr :: "('k, 'w::len word) xml_trainer"
  assumes w: "walk_ok gen_f_default N t" and n: "card (dom (xtree_map t)) < n" and nt: "need_train tr"
    and ok: "dd_train_sub M2 N n t (set_name tr x) tab0 = Some (Inr (md, tab))"
  shows "fits M2 (tr_window N t tr)"
proof -
  obtain it where it: "XCacheTreeIter N t (Some tab0) = Inr it" "ctt it = Some tab0"
    using cache_iter_from [OF w] by blast
  obtain y where "train_w_it_w_shrink M2 (cache_ops gen_f_default N t) default_sample step_sample
      (dd_page_updater (of_nat N)) n (set_name tr x) it () (StepSampler 1) = Some (Inr (md, y))"
    using ok it(1) unfolding dd_train_sub_def fbind_Inr_iff by auto
  from dd_tr.default_fits [OF w _ n it(2) this] show ?thesis using nt by simp
qed

section \<open>The plots\<close>

context ops_iter
begin

text \<open>A dump adds one pair for each key the iterator stands for.\<close>

lemma dump_loop:
  assumes r: "rep it xs" and n: "length xs < n" and y: "\<forall>k\<in>set (map fst xs). y k = Inr (v k)"
  shows "\<exists>it'. it_for I n (dump_body I sc y) it a =
    Some (Inr (it', a\<lparr>xy := xy a @ map (\<lambda>k. (sc k, v k)) (map fst xs)\<rparr>))"
proof -
  let ?g = "\<lambda>k (ov :: u64) a. rbind (y k) (\<lambda>v. Inr (xy_add a (sc k) v, False))"
  have fp: "for_pairs ?g xs a = Inr (foldl (\<lambda>a k. xy_add a (sc k) (v k)) a (map fst xs), [])" for a
  proof (rule for_pairs_foldl [where Q = "\<lambda>_. True"])
    fix k ov a assume "(k, ov) \<in> set xs"
    then have "k \<in> set (map fst xs)" by force
    then have "y k = Inr (v k)" using y by blast
    then show "?g k ov a = Inr (xy_add a (sc k) (v k), False) \<and> True" by simp
  qed simp
  have body: "dump_body I sc y it a = ?g k ov a" if "rep it ((k, ov) # xs)" for it k ov xs a
    using cur_rep [OF that] by (simp add: dump_body_def)
  obtain it' where "it_for I n (dump_body I sc y) it a = Some (Inr (it', foldl (\<lambda>a k. xy_add a (sc k) (v k)) a (map fst xs)))"
    using it_for_rep [where g = ?g and body = "dump_body I sc y", OF r n fp] body by blast
  moreover have "foldl (\<lambda>a k. xy_add a (sc k) (v k)) a ks = a\<lparr>xy := xy a @ map (\<lambda>k. (sc k, v k)) ks\<rparr>" for ks
    by (induction ks arbitrary: a) (simp_all add: xy_add_def)
  ultimately show ?thesis by simp
qed

end

lemma model_offsets:
  fixes c :: "('m, 's, 'w::len word) two_rmi"
  assumes "\<forall>i<length (second_layer c). \<exists>md. second_layer c ! i = Some md" and "0 < length (second_layer c)"
  shows "\<exists>offs. calculate_model_offset c = Inr offs \<and> length offs = length (second_layer c)"
proof -
  let ?f = "\<lambda>acc i. rbind acc (\<lambda>offs. rbind (sub_deref c (i - 1)) (\<lambda>sub. Inr (offs @ [last offs + of_int (smax sub) :: 'w word])))"
  have "n \<le> length (second_layer c) \<Longrightarrow> 0 < n \<Longrightarrow> \<exists>offs. foldl ?f (Inr [0]) [1..<n] = Inr offs \<and> length offs = n" for n
  proof (induction n)
    case (Suc n)
    show ?case
    proof (cases "n = 0")
      case False
      then obtain offs where "foldl ?f (Inr [0]) [1..<n] = Inr offs" "length offs = n" using Suc by auto
      moreover have "n - 1 < length (second_layer c)" using Suc.prems False by simp
      moreover from this obtain md where "second_layer c ! (n - 1) = Some md" using assms(1) by blast
      ultimately show ?thesis using False by (simp add: sub_deref_def)
    qed simp
  qed simp
  then show ?thesis using assms(2) unfolding calculate_model_offset_def by blast
qed

lemma dd_dumps_ok:
  fixes t :: "('k::{linorder,order_bot,order_top}, 'v) xtree" and c :: "('m, 's, 'w::len word) two_rmi"
  assumes w: "walk_ok gen_f_default N t" and n: "card (dom (xtree_map t)) < n"
    and sub: "\<forall>i<length (second_layer c). \<exists>md. second_layer c ! i = Some md" and len: "length labels = length (second_layer c)"
    and sel: "\<forall>k. select_sec_model rnd M c k = Inr (sel k) \<and> unat (sel k) < length (second_layer c)"
    and lab: "\<forall>k\<in>dom (xtree_map t). k \<in> dom (labels ! unat (sel k))"
  shows "\<exists>a f d l. dd_dumps rnd M M2 to_scalar N n t c labels = Some (Inr [a, f, d, l]) \<and>
    map fst (xy l) = map to_scalar (sorted_list_of_set (dom (xtree_map t)))"
proof -
  let ?I = "sorted_ops N t" and ?ks = "sorted_list_of_set (dom (xtree_map t))"
  note D = walk_okD [OF w]
  have fin: "finite (dom (xtree_map t))" by (rule sorted_iter_keys(2) [OF D(1,2)])
  obtain it where it: "from_impl ?I = Inr it" "iter_rep sort N (leafs t) it (number 0 ?ks)"
    using XTreeSIter_rep [OF D(1,2)] by (auto simp: sorted_ops_def)
  have fst: "map fst (number 0 ?ks) = ?ks" and ln: "length (number 0 ?ks) < n"
    using n by (simp_all add: number_def)
  note loop = sorted_scan.dump_loop [OF it(2) ln, unfolded fst, where sc = to_scalar and a = XYData]
  have pos: "0 < length (second_layer c)" using sel by (metis gr_implies_not0 not_gr_zero)
  obtain offs where offs: "calculate_model_offset c = Inr offs" "length offs = length (second_layer c)"
    using model_offsets [OF sub pos] by blast
  obtain md where md: "\<And>i. i < length (second_layer c) \<Longrightarrow> second_layer c ! i = Some (md i)" using sub by metis
  have raw: "rmi_predict_raw rnd M M2 c k = Inr (get_predict_raw (ml_predict M2) (md (unat (sel k))) k)" for k
    using sel md [of "unat (sel k)"] by (simp add: rmi_predict_raw_def sub_deref_def)
  have "\<exists>a. dump_all rnd M M2 to_scalar ?I n c = Some (Inr a)"
  proof -
    let ?y = "\<lambda>k. rbind (select_sec_model rnd M c k) (\<lambda>m. rbind (rmi_predict_raw rnd M M2 c k) (\<lambda>p.
         if unat m < length offs then Inr (rnd (p + rnd (real (unat (offs ! unat m))))) else Inl OutOfRange))"
    have "\<forall>k\<in>set ?ks. ?y k = Inr (rnd (get_predict_raw (ml_predict M2) (md (unat (sel k))) k + rnd (real (unat (offs ! unat (sel k))))))"
      using sel offs(2) raw by simp
    from loop [OF this] show ?thesis using it(1) offs(1) by (auto simp: dump_all_def)
  qed
  moreover have "\<exists>f. dump_first M to_scalar ?I n c = Some (Inr f)"
    using loop [of "\<lambda>k. Inr (predict_raw M (first_layer c) k)" "\<lambda>k. predict_raw M (first_layer c) k"] it(1)
    by (auto simp: dump_first_def)
  moreover have "\<exists>d. rmi_dump_cdf to_scalar ?I n = Some (Inr d)"
  proof -
    let ?g = "\<lambda>k (ov :: u64) (all, cnt). Inr ((xy_add all (to_scalar k) (real cnt), cnt + 1), False)"
    have fp: "for_pairs ?g xs (a, cnt) = Inr (foldl (\<lambda>(all, cnt) k. (xy_add all (to_scalar k) (real cnt), cnt + 1)) (a, cnt) (map fst xs), [])" for xs a cnt
      by (rule for_pairs_foldl [where Q = "\<lambda>_. True"]) (auto split: prod.split)
    have body: "dump_cdf_body ?I to_scalar it a = ?g k ov a" if "iter_rep sort N (leafs t) it ((k, ov) # xs)" for it k ov xs a
      using sorted_scan.cur_rep [OF that] by (simp add: dump_cdf_body_def split: prod.split)
    obtain it' a where "it_for ?I n (dump_cdf_body ?I to_scalar) it (XYData, 0) = Some (Inr (it', a))"
      using sorted_scan.it_for_rep [where g = ?g and body = "dump_cdf_body ?I to_scalar", OF it(2) ln fp] body by blast
    then show ?thesis using it(1) by (cases a) (simp add: rmi_dump_cdf_def)
  qed
  moreover have "\<exists>l. dump_labels rnd M to_scalar ?I n c labels = Some (Inr l) \<and> map fst (xy l) = map to_scalar ?ks"
  proof -
    let ?y = "\<lambda>k. rbind (select_sec_model rnd M c k) (\<lambda>m.
         if unat m < length labels then
           rbind (cassert ((labels ! unat m) k \<noteq> None)) (\<lambda>_.
           if unat m < length offs
           then Inr (rnd (real (unat (the ((labels ! unat m) k) + ucast (offs ! unat m)))))
           else Inl OutOfRange)
         else Inl OutOfRange)"
    have "\<forall>k\<in>set ?ks. ?y k = Inr (rnd (real (unat (the ((labels ! unat (sel k)) k) + ucast (offs ! unat (sel k))))))"
      using sel offs(2) len lab fin by (auto simp: domIff)
    from loop [OF this] show ?thesis using it(1) offs(1) len by (auto simp: dump_labels_def XYData_def)
  qed
  ultimately show ?thesis unfolding dd_dumps_def by (elim exE conjE) simp
qed

section \<open>The trained database\<close>

definition dd_answers :: "(real \<Rightarrow> real) \<Rightarrow> ('m, 'k::{linorder,order_top}) ml_ops \<Rightarrow> ('s, 'k) ml_ops \<Rightarrow> nat
    \<Rightarrow> ('k, 'v) xtree \<Rightarrow> ('m, 's, 'w::len word) two_rmi \<Rightarrow> tt list \<Rightarrow> 'k \<Rightarrow> bool" where
  "dd_answers rnd M M2 N t c tabs k \<longleftrightarrow> (\<exists>m md. select_sec_model rnd M c k = Inr m \<and>
     sub_deref c (unat m) = Inr md \<and> unat m < length tabs \<and> dd_table_ok t (tabs ! unat m) \<and>
     found gen_f_default N t (ml_predict M2) md (tabs ! unat m) k)"

lemma dd_first_layer:
  fixes t :: "('k::{linorder,order_bot,order_top}, 'v) xtree" and M :: "('m, 'k) ml_ops" and c0 :: "('m, 's, 'w::len word) two_rmi"
  assumes w: "walk_ok gen_f_default N t" and n: "card (dom (xtree_map t)) < n" and M: "\<not> skip_first fl \<Longrightarrow> accepts M"
    and rf: "skip_first fl \<Longrightarrow> \<exists>m. read_first fl (dmodel (first_layer c0)) = Inr m"
  shows "\<exists>c1. (if \<not> skip_first fl then
        if use_vlen fl then fbind (default_train_first M (tree_ops N t) n c0) (\<lambda>(c, _). Some (Inr c))
        else fbind (train_first M (tree_ops N t) step_sample n c0 (StepSampler 1)) (\<lambda>(c, _, _). Some (Inr c))
      else Some (load_first_from_file (read_first fl) c0 (flag_nkeys fl))) = Some (Inr c1) \<and>
    dispatch_num (first_layer c1) = dispatch_num (first_layer c0) \<and> second_layer c1 = second_layer c0"
proof (cases "skip_first fl")
  case True
  then show ?thesis using rf by (auto simp: load_first_from_file_def disp_load_from_file_def)
next
  case False
  then show ?thesis using first_layer_trained [OF w n M [OF False], of "use_vlen fl" c0] by simp
qed

abbreviation (input) dd_first :: "'m dd_flags \<Rightarrow> ('m, 'k::{linorder,order_bot,order_top}) ml_ops \<Rightarrow> nat \<Rightarrow> nat \<Rightarrow> ('k, 'v) xtree
    \<Rightarrow> ('m, 's, 'w::len word) two_rmi \<Rightarrow> ('m, 's, 'w word) two_rmi res option" where
  "dd_first fl M N n t c0 \<equiv> (if \<not> skip_first fl then
       if use_vlen fl then fbind (default_train_first M (tree_ops N t) n c0) (\<lambda>(c, _). Some (Inr c))
       else fbind (train_first M (tree_ops N t) step_sample n c0 (StepSampler 1)) (\<lambda>(c, _, _). Some (Inr c))
     else Some (load_first_from_file (read_first fl) c0 (flag_nkeys fl)))"

lemma dd_first_inv:
  fixes c0 :: "('m, 's, 'w::len word) two_rmi"
  assumes "dd_first fl M N n t c0 = Some (Inr c1)"
  shows "dispatch_num (first_layer c1) = dispatch_num (first_layer c0)" and "second_layer c1 = second_layer c0"
proof -
  have "dispatch_num (first_layer c1) = dispatch_num (first_layer c0) \<and> second_layer c1 = second_layer c0"
  proof (cases "skip_first fl")
    case True
    then show ?thesis using assms by (auto simp: load_first_from_file_def disp_load_from_file_def rbind_Inr_iff)
  next
    case False
    then show ?thesis using first_layer_inv [of "use_vlen fl" M "tree_ops N t" n c0 step_sample "StepSampler 1" c1] assms by simp
  qed
  then show "dispatch_num (first_layer c1) = dispatch_num (first_layer c0)" "second_layer c1 = second_layer c0" by blast+
qed

text \<open>What one round of the loop has for the keys \<open>ks\<close> of its submodel: the table and the labels of the
  first walk, the submodel and the final table.\<close>

definition dd_sub_done :: "'m dd_flags \<Rightarrow> ('s, 'k::{linorder,order_bot,order_top}) ml_ops \<Rightarrow> nat \<Rightarrow> nat \<Rightarrow> ('k, 'v) xtree
    \<Rightarrow> 'k list \<Rightarrow> ('k, 'w::len word) xml_trainer \<Rightarrow> string \<Rightarrow> tt \<times> ('k \<rightharpoonup> u64) \<times> 's xsubmodel \<times> tt \<Rightarrow> bool" where
  "dd_sub_done fl M2 N n t ks tr x r \<longleftrightarrow> (case r of (tab1, lab, md, tab) \<Rightarrow>
     dd_table_ok t tab \<and> page_eb.bounds_ok md \<and> (\<forall>k\<in>set ks. found gen_f_default N t (ml_predict M2) md tab k) \<and>
     (if use_vlen fl then dd_train_sub_v M2 N n t tr TT = Some (Inr (md, tab))
      else dd_train_sub M2 N n t (set_name tr x) tab1 = Some (Inr (md, tab)) \<and>
        (if be_verbose fl then dd_labels N n t tr TT = Some (Inr (tab1, lab)) \<and> set ks \<subseteq> dom lab else tab1 = TT)))"

lemma dd_sub_done_ex:
  fixes t :: "('k::{linorder,order_bot,order_top}, 'v) xtree" and M2 :: "('s, 'k) ml_ops" and fl :: "'m dd_flags"
  assumes w: "walk_ok gen_f_default N t" and n: "card (dom (xtree_map t)) < n" and ks: "set ks \<subseteq> dom (xtree_map t)"
  defines "tr \<equiv> foldl update_key (XMLTrainer :: ('k, 'w::len word) xml_trainer) ks"
  assumes M2: "\<not> use_vlen fl \<Longrightarrow> ks \<noteq> [] \<Longrightarrow> fits M2 (tr_window N t tr)"
    and M2v: "use_vlen fl \<Longrightarrow> ks \<noteq> [] \<Longrightarrow> fits_pages M2 N (tr_window N t tr)"
    and two: "use_vlen fl \<Longrightarrow> \<forall>a\<in>set (butlast (tree_leaves t)). 2 \<le> card (dom (leaf_map (leafs t) a))"
  shows "\<exists>r. dd_sub_done fl M2 N n t ks tr x r"
proof (cases "use_vlen fl")
  case True
  from dd_train_sub_v_ok [where 'w = 'w, OF w ks two [OF True] n M2v [OF True, unfolded tr_def]] show ?thesis
    using True by (auto simp: dd_sub_done_def tr_def)
next
  case False
  let ?tr = "foldl update_key (XMLTrainer :: ('k, 'w word) xml_trainer) ks"
  have tr: "tr = ?tr" by (simp add: tr_def)
  obtain tab1 lab where lab: "dd_labels N n t ?tr TT = Some (Inr (tab1, lab))"
    "table_of_window gen_f_default N t ?tr (entries tab1)" "dom lab = fst ` set (tr_window N t ?tr)"
    using dd_labels_ok [OF w n] by blast
  have sub: "set ks \<subseteq> dom lab"
  proof (cases "ks = []")
    case ne: False
    then show ?thesis unfolding lab(3) using tr_window_keys(1) [OF w ne ks, where 'w = 'w] by force
  qed simp
  let ?tab0 = "if be_verbose fl then tab1 else TT"
  have "entries ?tab0 = [] \<or> table_of_window gen_f_default N t ?tr (entries ?tab0)" using lab(2) by (simp add: TT_def)
  from dd_train_sub_ok [where 'w = 'w, OF w ks n M2 [OF False, unfolded tr] this, of x] obtain md tab where
    "dd_train_sub M2 N n t (set_name ?tr x) ?tab0 = Some (Inr (md, tab))"
    "dd_table_ok t tab" "page_eb.bounds_ok md" "\<forall>k\<in>set ks. found gen_f_default N t (ml_predict M2) md tab k" by blast
  then show ?thesis using lab(1) sub False
    by (intro exI [of _ "(?tab0, lab, md, tab)"]) (simp add: dd_sub_done_def tr)
qed

text \<open>The loop over the submodels, for either kind of values.\<close>

lemma dd_steps:
  fixes c :: "('m, 's, 'w::len word) two_rmi" and t :: "('k::{linorder,order_bot,order_top}, 'v) xtree"
    and T :: "('k, 'w word) xml_trainer list"
  assumes len: "length T = length (second_layer c)"
    and sub: "\<And>i. i < length T \<Longrightarrow> \<not> vl \<Longrightarrow> (if vb then dd_labels N n t (T ! i) TT = Some (Inr (tab1 i, lab i)) else tab1 i = TT) \<and>
      dd_train_sub M2 N n t (set_name (T ! i) (to_string i)) (tab1 i) = Some (Inr (md i, tab i))"
    and sub_v: "\<And>i. i < length T \<Longrightarrow> vl \<Longrightarrow> dd_train_sub_v M2 N n t (T ! i) TT = Some (Inr (md i, tab i))"
  shows "\<exists>st nk labels. foldl (\<lambda>acc i. fbind acc (\<lambda>s. if vl then dd_step_v rnd M2 N n t T s i
        else dd_step rnd to_string vb M2 N n t T s i))
      (Some (Inr (c, replicate (length T) TT, train_stats0, XYData, []))) [0..<length T] =
    Some (Inr (c\<lparr>second_layer := map (\<lambda>i. Some (md i)) [0..<length T]\<rparr>, map tab [0..<length T], st, nk, labels)) \<and>
    (\<not> vl \<longrightarrow> vb \<longrightarrow> labels = map lab [0..<length T])"
proof -
  let ?Q = "\<lambda>i (st :: train_stats, nk :: (int, int) xy_data, labels). \<not> vl \<longrightarrow> vb \<longrightarrow> labels = map lab [0..<i]"
  let ?stp = "\<lambda>s i. if vl then dd_step_v rnd M2 N n t T s i else dd_step rnd to_string vb M2 N n t T s i"
  have stp: "\<exists>X'. ?stp (c', tabs, X) i = Some (Inr (c'\<lparr>second_layer := (second_layer c')[i := Some (md i)]\<rparr>, tabs[i := tab i], X')) \<and>
      ?Q (Suc i) X'"
    if i: "i < length (second_layer c)" and tt: "tabs ! i = TT" and Q: "?Q i X" for c' :: "('m, 's, 'w word) two_rmi" and i tabs X
  proof -
    obtain st nk labels where X: "X = (st, nk, labels)" by (metis prod_cases3)
    show ?thesis
    proof (cases vl)
      case True
      then show ?thesis using sub_v [of i] i tt len by (simp add: X dd_step_v_def)
    next
      case False
      then show ?thesis using sub [of i] i tt Q len by (cases vb) (auto simp: X dd_step_def Let_def)
    qed
  qed
  obtain X' c' tabs where X': "foldl (\<lambda>acc i. fbind acc (\<lambda>s. ?stp s i)) (Some (Inr (c, replicate (length (second_layer c)) TT,
      (train_stats0, XYData, [])))) [0..<length (second_layer c)] = Some (Inr (c', tabs, X'))"
    "(c', tabs) = submodels c md tab (length (second_layer c))" "?Q (length (second_layer c)) X'"
    using submodel_steps [where Q = ?Q and stp = ?stp and ?c0.0 = c and md = md and tab = tab and
      j = "length (second_layer c)" and ?X0.0 = "(train_stats0, XYData, [])", OF stp] by auto
  obtain st nk labels where "X' = (st, nk, labels)" by (metis prod_cases3)
  then show ?thesis using X' by (simp add: len submodels_all)
qed

lemma dd_steps_inv:
  fixes c :: "('m, 's, 'w::len word) two_rmi" and t :: "('k::{linorder,order_bot,order_top}, 'v) xtree"
    and T :: "('k, 'w word) xml_trainer list"
  assumes ok: "foldl (\<lambda>acc i. fbind acc (\<lambda>s. dd_step rnd to_string vb M2 N n t T s i))
      (Some (Inr (c, replicate (length (second_layer c)) TT, X))) [0..<length (second_layer c)] = Some (Inr (c', tabs, X'))"
  shows "\<exists>md tab tab0. (\<forall>i<length (second_layer c). dd_train_sub M2 N n t (set_name (T ! i) (to_string i)) (tab0 i) =
      Some (Inr (md i, tab i)))"
proof -
  obtain md tab where "\<forall>i<length (second_layer c). \<exists>tab0. dd_train_sub M2 N n t (set_name (T ! i) (to_string i)) tab0 =
      Some (Inr (md i, tab i))"
    using submodel_steps_inv [where P = "\<lambda>i m tb. \<exists>tab0. dd_train_sub M2 N n t (set_name (T ! i) (to_string i)) tab0 =
      Some (Inr (m, tb))", OF _ ok order_refl] unfolding dd_step_def Let_def split_beta fbind_Inr_iff by fastforce
  then show ?thesis by metis
qed

definition dd_db_trained :: "(real \<Rightarrow> real) \<Rightarrow> ('m, 'k::{linorder,order_top}) ml_ops \<Rightarrow> ('s, 'k) ml_ops \<Rightarrow> nat
    \<Rightarrow> ('k, 'v) xtree \<Rightarrow> 'w::len word \<Rightarrow> ('m, 's, 'w word) two_rmi \<Rightarrow> tt list \<Rightarrow> bool" where
  "dd_db_trained rnd M M2 N t num_sub c tabs \<longleftrightarrow> length tabs = unat num_sub \<and> length (second_layer c) = unat num_sub \<and>
    dispatch_num (first_layer c) = num_sub \<and>
    (\<forall>i<unat num_sub. (\<exists>md. second_layer c ! i = Some md \<and> page_eb.bounds_ok md) \<and> dd_table_ok t (tabs ! i)) \<and>
    (\<forall>k\<in>dom (xtree_map t). dd_answers rnd M M2 N t c tabs k)"

text \<open>
  The submodels are trained when, for the trainers that the first layer has filled, the learner fits
  the window of each.
\<close>

lemma dd_train_db_from:
  fixes t :: "('k::{linorder,order_bot,order_top}, 'v) xtree" and num_sub :: "'w::len word"
    and M :: "('m, 'k) ml_ops" and M2 :: "('s, 'k) ml_ops" and db :: "('m, 's, 'w word) ycsb_db"
    and c1 :: "('m, 's, 'w word) two_rmi"
  assumes w: "walk_ok gen_f_default N t" and n: "card (dom (xtree_map t)) < n"
    and two: "use_vlen fl \<Longrightarrow> \<forall>a\<in>set (butlast (tree_leaves t)). 2 \<le> card (dom (leaf_map (leafs t) a))"
    and rnd: "rounding rnd"
    and num: "0 < num_sub" "num_sub < 4000000" "unat num_sub \<le> 2 ^ 53" and db: "cache db = None" "tts db = []"
    and c1: "dd_first fl M N n t (empty_cache (ml_init M) num_sub) = Some (Inr c1)"
    and T0: "dispatch_keys_to_trainers rnd M (tree_ops N t) n c1 = Some (Inr T)"
    and fit: "\<And>j ks. j < unat num_sub \<Longrightarrow> ks \<noteq> [] \<Longrightarrow> set ks \<subseteq> dom (xtree_map t) \<Longrightarrow> T ! j = foldl update_key XMLTrainer ks \<Longrightarrow>
      (if use_vlen fl then fits_pages M2 N (tr_window N t (T ! j)) else fits M2 (tr_window N t (T ! j)))"
  shows "\<exists>db' c plots. dd_train_db rnd to_string to_scalar fl M M2 N n num_sub t db = Some (Inr (db', plots)) \<and>
    cache db' = Some c \<and> dd_db_trained rnd M M2 N t num_sub c (tts db') \<and>
    (\<not> use_vlen fl \<longrightarrow> be_verbose fl \<longrightarrow> (\<exists>a f d l. plots = [a, f, d, l] \<and>
       map fst (xy l) = map to_scalar (sorted_list_of_set (dom (xtree_map t)))))"
proof -
  let ?I = "tree_ops N t" and ?n = "unat num_sub"
  let ?c0 = "empty_cache (ml_init M) num_sub :: ('m, 's, 'w word) two_rmi"
  have c0: "LocalTwoRMI (ml_init M) num_sub = Inr ?c0"
    using num(1,2) by (simp add: LocalTwoRMI_def Dispatcher_def empty_cache_def)
  have d1: "dispatch_num (first_layer c1) = num_sub" "second_layer c1 = replicate ?n None"
    using dd_first_inv [OF c1] by (simp_all add: empty_cache_def)
  have len: "length (second_layer c1) = ?n" by (simp add: d1(2))
  obtain sel ks where sel: "\<And>k. select_sec_model rnd M c1 k = Inr (sel k)" "\<And>k. unat (sel k) < ?n"
    and ks: "set ks = dom (xtree_map t)" and disp: "dispatch_keys_to_trainers rnd M ?I n c1 =
      Some (Inr (map (\<lambda>j. foldl update_key XMLTrainer (filter (\<lambda>k. unat (sel k) = j) ks)) [0..<?n]))"
    using dispatched [OF w n rnd, of c1 M] num d1(1) len by auto
  let ?kf = "\<lambda>j. filter (\<lambda>k. unat (sel k) = j) ks"
  have T_def: "T = (map (\<lambda>j. foldl update_key XMLTrainer (?kf j)) [0..<?n] :: ('k, 'w word) xml_trainer list)"
    using disp T0 by simp
  have lenT: "length T = length (second_layer c1)" and n_T: "length T = ?n" using len by (simp_all add: T_def)
  let ?vb = "be_verbose fl"
  have "\<exists>r. dd_sub_done fl M2 N n t (?kf j) (foldl update_key (XMLTrainer :: ('k, 'w word) xml_trainer) (?kf j)) (to_string j) r" if j: "j < ?n" for j
  proof -
    have sub: "set (?kf j) \<subseteq> dom (xtree_map t)" using ks by auto
    have Tj: "T ! j = foldl update_key XMLTrainer (?kf j)" using j by (simp add: T_def)
    show ?thesis
      by (rule dd_sub_done_ex [OF w n sub _ _ two]) (use fit [OF j _ sub Tj, unfolded Tj] in auto)
  qed
  then obtain r where r: "\<And>j. j < ?n \<Longrightarrow> dd_sub_done fl M2 N n t (?kf j) (foldl update_key (XMLTrainer :: ('k, 'w word) xml_trainer) (?kf j)) (to_string j) (r j)"
    by metis
  define tab1 lab md tab where "tab1 = fst \<circ> r" and "lab = fst \<circ> snd \<circ> r" and "md = fst \<circ> snd \<circ> snd \<circ> r"
    and "tab = snd \<circ> snd \<circ> snd \<circ> r"
  note defs = tab1_def lab_def md_def tab_def
  have sub: "dd_table_ok t (tab j)" "page_eb.bounds_ok (md j)"
    "k \<in> set (?kf j) \<Longrightarrow> found gen_f_default N t (ml_predict M2) (md j) (tab j) k"
    "\<not> use_vlen fl \<Longrightarrow> be_verbose fl \<Longrightarrow> set (?kf j) \<subseteq> dom (lab j)" if "j < ?n" for j k
    using r [OF that] by (simp_all add: dd_sub_done_def defs split: prod.splits)
  have trained: "\<not> use_vlen fl \<Longrightarrow> (if ?vb then dd_labels N n t (T ! j) TT = Some (Inr (tab1 j, lab j)) else tab1 j = TT) \<and>
      dd_train_sub M2 N n t (set_name (T ! j) (to_string j)) (tab1 j) = Some (Inr (md j, tab j))"
    "use_vlen fl \<Longrightarrow> dd_train_sub_v M2 N n t (T ! j) TT = Some (Inr (md j, tab j))" if "j < length T" for j
    using r [of j] that by (simp_all add: T_def dd_sub_done_def defs split: prod.splits if_splits)
  let ?c = "c1\<lparr>second_layer := map (\<lambda>i. Some (md i)) [0..<?n]\<rparr>"
  obtain st nk labels where st: "foldl (\<lambda>acc i. fbind acc (\<lambda>s. if use_vlen fl then dd_step_v rnd M2 N n t T s i
        else dd_step rnd to_string ?vb M2 N n t T s i))
      (Some (Inr (c1, replicate ?n TT, train_stats0, XYData, []))) [0..<?n] = Some (Inr (?c, map tab [0..<?n], st, nk, labels))"
    "\<not> use_vlen fl \<longrightarrow> ?vb \<longrightarrow> labels = map lab [0..<?n]"
    using dd_steps [where rnd = rnd, OF lenT trained] unfolding n_T by blast
  have sel': "\<forall>k. select_sec_model rnd M ?c k = Inr (sel k) \<and> unat (sel k) < length (second_layer ?c)"
    using sel select_sec_model_cong [of ?c c1 rnd M] len by simp
  have kf: "k \<in> set (?kf (unat (sel k)))" if "k \<in> dom (xtree_map t)" for k using that ks by simp
  have plots: "\<exists>a f d l. dd_dumps rnd M M2 to_scalar N n t ?c labels = Some (Inr [a, f, d, l]) \<and>
      map fst (xy l) = map to_scalar (sorted_list_of_set (dom (xtree_map t)))" if v: "\<not> use_vlen fl" "?vb"
  proof (rule dd_dumps_ok [OF w n _ _ sel'])
    show "\<forall>k\<in>dom (xtree_map t). k \<in> dom (labels ! unat (sel k))"
      using st(2) v sel(2) sub(4) [OF sel(2) v] kf by (simp add: subset_iff)
  qed (use st(2) v in simp_all)
  obtain plots where pl: "(if \<not> use_vlen fl \<and> ?vb then dd_dumps rnd M M2 to_scalar N n t ?c labels else Some (Inr [])) = Some (Inr plots)"
    "\<not> use_vlen fl \<longrightarrow> ?vb \<longrightarrow> (\<exists>a f d l. plots = [a, f, d, l] \<and>
       map fst (xy l) = map to_scalar (sorted_list_of_set (dom (xtree_map t))))"
    using plots by (cases "\<not> use_vlen fl \<and> ?vb") auto
  let ?db = "db\<lparr>cache := Some ?c, tts := map tab [0..<?n], stats := finalize_stats (use_vlen fl) st\<rparr>"
  have run: "dd_train_db rnd to_string to_scalar fl M M2 N n num_sub t db = Some (Inr (?db, plots))"
    using c0 c1(1) T0 st(1) [folded n_T] pl(1) db unfolding dd_train_db_def n_T [symmetric] by (simp del: upt_Suc)
  have "dd_answers rnd M M2 N t ?c (map tab [0..<?n]) k" if k: "k \<in> dom (xtree_map t)" for k
    unfolding dd_answers_def
    using sel' sel(2) [of k] sub(1) [OF sel(2)] sub(3) [OF sel(2) kf [OF k]] by (intro exI [of _ "sel k"] exI [of _ "md (unat (sel k))"]) (simp add: sub_deref_def)
  then have "dd_db_trained rnd M M2 N t num_sub ?c (map tab [0..<?n])" using d1(1) sub(1,2) by (simp add: dd_db_trained_def)
  then show ?thesis using pl(2) unfolding run
    by (intro exI [of _ ?db] exI [of _ ?c] exI [of _ plots]) simp
qed

lemma dd_train_db_ok:
  fixes t :: "('k::{linorder,order_bot,order_top}, 'v) xtree" and num_sub :: "'w::len word"
    and M :: "('m, 'k) ml_ops" and M2 :: "('s, 'k) ml_ops" and db :: "('m, 's, 'w word) ycsb_db"
  assumes w: "walk_ok gen_f_default N t" and n: "card (dom (xtree_map t)) < n"
    and M: "\<not> skip_first fl \<Longrightarrow> accepts M" and rf: "skip_first fl \<Longrightarrow> \<exists>m. read_first fl (ml_init M) = Inr m"
    and M2: "\<not> use_vlen fl \<Longrightarrow> learns_all M2 N t" and M2v: "use_vlen fl \<Longrightarrow> learns_pages M2 N t"
    and two: "use_vlen fl \<Longrightarrow> \<forall>a\<in>set (butlast (tree_leaves t)). 2 \<le> card (dom (leaf_map (leafs t) a))"
    and rnd: "rounding rnd"
    and num: "0 < num_sub" "num_sub < 4000000" "unat num_sub \<le> 2 ^ 53" and db: "cache db = None" "tts db = []"
  shows "\<exists>db' c plots. dd_train_db rnd to_string to_scalar fl M M2 N n num_sub t db = Some (Inr (db', plots)) \<and>
    cache db' = Some c \<and> dd_db_trained rnd M M2 N t num_sub c (tts db') \<and>
    (\<not> use_vlen fl \<longrightarrow> be_verbose fl \<longrightarrow> (\<exists>a f d l. plots = [a, f, d, l] \<and>
       map fst (xy l) = map to_scalar (sorted_list_of_set (dom (xtree_map t)))))"
proof -
  let ?c0 = "empty_cache (ml_init M) num_sub :: ('m, 's, 'w word) two_rmi"
  have rf': "skip_first fl \<Longrightarrow> \<exists>m. read_first fl (dmodel (first_layer ?c0)) = Inr m" using rf by (simp add: empty_cache_def)
  obtain c1 :: "('m, 's, 'w word) two_rmi" where c1: "dd_first fl M N n t ?c0 = Some (Inr c1)"
    "dispatch_num (first_layer c1) = num_sub" "second_layer c1 = replicate (unat num_sub) None"
    using dd_first_layer [where fl = fl and M = M and ?c0.0 = ?c0, OF w n M rf'] by (auto simp: empty_cache_def)
  have len: "length (second_layer c1) = unat num_sub" by (simp add: c1(3))
  obtain T where T: "dispatch_keys_to_trainers rnd M (tree_ops N t) n c1 = Some (Inr T)"
    using dispatched [OF w n rnd, of c1 M] num c1(2) len by auto
  show ?thesis
  proof (rule dd_train_db_from [OF w n two rnd num db c1(1) T])
    fix j ks assume k: "ks \<noteq> []" "set ks \<subseteq> dom (xtree_map t)" "T ! j = foldl update_key XMLTrainer ks"
    show "if use_vlen fl then fits_pages M2 N (tr_window N t (T ! j)) else fits M2 (tr_window N t (T ! j))"
      unfolding k(3) using learns_window [OF k(1,2)] M2 M2v by auto
  qed
qed

text \<open>A training for fixed-size values that has succeeded answers for every key, whatever was learned.\<close>

lemma dd_train_db_done:
  fixes t :: "('k::{linorder,order_bot,order_top}, 'v) xtree" and num_sub :: "'w::len word"
    and M :: "('m, 'k) ml_ops" and M2 :: "('s, 'k) ml_ops" and db :: "('m, 's, 'w word) ycsb_db"
  assumes w: "walk_ok gen_f_default N t" and n: "card (dom (xtree_map t)) < n" and v: "\<not> use_vlen fl" and rnd: "rounding rnd"
    and num: "0 < num_sub" "num_sub < 4000000" "unat num_sub \<le> 2 ^ 53" and db: "cache db = None" "tts db = []"
    and tr: "dd_train_db rnd to_string to_scalar fl M M2 N n num_sub t db = Some (Inr (db', plots))" "cache db' = Some c"
  shows "dd_db_trained rnd M M2 N t num_sub c (tts db')"
proof -
  let ?c0 = "empty_cache (ml_init M) num_sub :: ('m, 's, 'w word) two_rmi" and ?n = "unat num_sub"
  have c0: "LocalTwoRMI (ml_init M) num_sub = Inr ?c0"
    using num(1,2) by (simp add: LocalTwoRMI_def Dispatcher_def empty_cache_def)
  obtain c1 :: "('m, 's, 'w word) two_rmi" where c1: "dd_first fl M N n t ?c0 = Some (Inr c1)"
    using tr(1) db c0 unfolding dd_train_db_def by (auto simp: fbind_Inr_iff Let_def split del: if_split)
  have d1: "dispatch_num (first_layer c1) = num_sub" "second_layer c1 = replicate ?n None"
    using dd_first_inv [OF c1] by (simp_all add: empty_cache_def)
  have len: "length (second_layer c1) = ?n" by (simp add: d1(2))
  obtain T where T: "dispatch_keys_to_trainers rnd M (tree_ops N t) n c1 = Some (Inr T)" "length T = ?n"
    using dispatched [OF w n rnd, of c1 M] num d1(1) len by auto
  obtain s where "foldl (\<lambda>acc i. fbind acc (\<lambda>s. dd_step rnd to_string (be_verbose fl) M2 N n t T s i))
      (Some (Inr (c1, replicate (length (second_layer c1)) TT, train_stats0, XYData, []))) [0..<length (second_layer c1)] = Some (Inr s)"
    using tr c1 T db c0 len v unfolding dd_train_db_def by (auto simp: fbind_Inr_iff Let_def split del: if_split)
  then obtain c' tabs X' where "foldl (\<lambda>acc i. fbind acc (\<lambda>s. dd_step rnd to_string (be_verbose fl) M2 N n t T s i))
      (Some (Inr (c1, replicate (length (second_layer c1)) TT, train_stats0, XYData, []))) [0..<length (second_layer c1)] =
      Some (Inr (c', tabs, X'))" by (metis prod_cases3)
  from dd_steps_inv [OF this] len obtain md tab tab0 where sub:
    "\<And>i. i < ?n \<Longrightarrow> dd_train_sub M2 N n t (set_name (T ! i) (to_string i)) (tab0 i) = Some (Inr (md i, tab i))" by metis
  have fit: "if use_vlen fl then fits_pages M2 N (tr_window N t (T ! j)) else fits M2 (tr_window N t (T ! j))"
    if j: "j < ?n" and k: "kj \<noteq> []" "T ! j = foldl update_key XMLTrainer kj" for j kj
  proof -
    have "need_train (T ! j)" using trainer_range(3) [OF k(1), where 'w = 'w] by (simp add: k(2))
    from dd_train_sub_fits [OF w n this sub [OF j]] show ?thesis using v by simp
  qed
  have "\<exists>db' c plots. dd_train_db rnd to_string to_scalar fl M M2 N n num_sub t db = Some (Inr (db', plots)) \<and>
    cache db' = Some c \<and> dd_db_trained rnd M M2 N t num_sub c (tts db') \<and>
    (\<not> use_vlen fl \<longrightarrow> be_verbose fl \<longrightarrow> (\<exists>a f d l. plots = [a, f, d, l] \<and>
       map fst (xy l) = map to_scalar (sorted_list_of_set (dom (xtree_map t)))))"
    by (rule dd_train_db_from [OF w n _ rnd num db c1 T(1)]) (use v fit in simp_all)
  then show ?thesis using tr by auto
qed

section \<open>Properties\<close>

text \<open>C10: training the data distribution server over a well-formed tree never fails, whatever the flags
  are: for fixed-size values with a learner that fits the key ranges of the tree, that is, its model
  predicts \<^verbatim>\<open>int\<close>s for the keys of the range it was trained on, for variable-length values with a learner
  whose models are also monotone and leaves of at least two keys, with the first layer trained or read
  from a file.
  Every key of the tree is then found through the submodel selected for it and the table of that
  submodel, the search of the page updater and its assertion never fail, and in verbose mode neither
  does the assertion of \<^verbatim>\<open>dump_labels\<close>: its plot has one pair for each key.\<close>

theorem dd_trained:
  fixes t :: "('k::{linorder,order_bot,order_top}, 'v) xtree" and num_sub :: "'w::len word"
    and M :: "('m, 'k) ml_ops" and M2 :: "('s, 'k) ml_ops" and db :: "('m, 's, 'w word) ycsb_db"
  assumes "walk_ok gen_f_default N t" and "card (dom (xtree_map t)) < n"
    and "\<not> skip_first fl \<Longrightarrow> accepts M" and "skip_first fl \<Longrightarrow> \<exists>m. read_first fl (ml_init M) = Inr m"
    and "\<not> use_vlen fl \<Longrightarrow> learns_all M2 N t" and "use_vlen fl \<Longrightarrow> learns_pages M2 N t"
    and "use_vlen fl \<Longrightarrow> \<forall>a\<in>set (butlast (tree_leaves t)). 2 \<le> card (dom (leaf_map (leafs t) a))"
    and "rounding rnd"
    and "0 < num_sub" "num_sub < 4000000" "unat num_sub \<le> 2 ^ 53" and "cache db = None" "tts db = []"
  shows "\<exists>db' c plots. dd_train_db rnd to_string to_scalar fl M M2 N n num_sub t db = Some (Inr (db', plots)) \<and>
    cache db' = Some c \<and> length (tts db') = unat num_sub \<and> length (second_layer c) = unat num_sub \<and>
    (\<forall>k\<in>dom (xtree_map t). \<exists>m md tab. select_sec_model rnd M c k = Inr m \<and>
      second_layer c ! unat m = Some md \<and> tts db' ! unat m = tab \<and> unat m < unat num_sub \<and>
      tt_size tab \<le> 2 * length (tree_leaves t) \<and>
      (\<forall>j<tt_size tab. \<exists>a\<in>set (tree_leaves t). get_wo_incar tab j = Inr (gen_f_default a)) \<and>
      (\<exists>lo hi j a. get_predict_range (ml_predict M2) md k = Inr (lo, hi) \<and> 0 \<le> lo \<and>
        lo div int N \<le> int j \<and> int j \<le> hi div int N \<and> j < tt_size tab \<and> get_wo_incar tab j = Inr (gen_f_default a) \<and>
        a \<in> set (tree_leaves t) \<and> k \<in> dom (leaf_map (leafs t) a))) \<and>
    (\<not> use_vlen fl \<and> be_verbose fl \<longrightarrow> (\<exists>a f d l. plots = [a, f, d, l] \<and>
       map fst (xy l) = map to_scalar (sorted_list_of_set (dom (xtree_map t)))))"
proof -
  obtain db' c plots where tr: "dd_train_db rnd to_string to_scalar fl M M2 N n num_sub t db = Some (Inr (db', plots))"
    "cache db' = Some c" "length (tts db') = unat num_sub" "length (second_layer c) = unat num_sub"
    "\<forall>k\<in>dom (xtree_map t). dd_answers rnd M M2 N t c (tts db') k"
    "\<not> use_vlen fl \<longrightarrow> be_verbose fl \<longrightarrow> (\<exists>a f d l. plots = [a, f, d, l] \<and>
       map fst (xy l) = map to_scalar (sorted_list_of_set (dom (xtree_map t))))"
    using dd_train_db_ok [where rnd = rnd and to_string = to_string and to_scalar = to_scalar, OF assms] unfolding dd_db_trained_def by blast
  have "\<exists>m md tab. select_sec_model rnd M c k = Inr m \<and> second_layer c ! unat m = Some md \<and>
      tts db' ! unat m = tab \<and> unat m < unat num_sub \<and> dd_table_ok t tab \<and>
      found gen_f_default N t (ml_predict M2) md tab k" if "k \<in> dom (xtree_map t)" for k
    using tr(3-5) that unfolding dd_answers_def sub_deref_def by (fastforce split: if_splits option.splits)
  then show ?thesis using tr(1-4,6) unfolding found_def dd_table_ok_def
    by (intro exI [of _ db'] exI [of _ c] exI [of _ plots]) blast
qed

definition verbose_flags :: "lr dd_flags" where
  "verbose_flags = \<lparr>skip_first = False, use_vlen = False, be_verbose = True, flag_nkeys = 0, read_first = Inr\<rparr>"

theorem dd_trained_witness:
  "\<exists>db' c plots. dd_train_db (\<lambda>x. x) (\<lambda>i. []) (\<lambda>k. real (unat (xd k))) verbose_flags ols_lr ols_lr 2 4 3 sample_tree empty_db = Some (Inr (db', plots)) \<and>
    cache db' = Some c \<and> length (tts db') = unat (3 :: 32 word) \<and> length (second_layer c) = unat (3 :: 32 word) \<and>
    (\<forall>k\<in>dom (xtree_map sample_tree). \<exists>m md tab. select_sec_model (\<lambda>x. x) ols_lr c k = Inr m \<and>
      second_layer c ! unat m = Some md \<and> tts db' ! unat m = tab \<and> unat m < unat (3 :: 32 word) \<and>
      tt_size tab \<le> 2 * length (tree_leaves sample_tree) \<and>
      (\<forall>j<tt_size tab. \<exists>a\<in>set (tree_leaves sample_tree). get_wo_incar tab j = Inr (gen_f_default a)) \<and>
      (\<exists>lo hi j a. get_predict_range (ml_predict ols_lr) md k = Inr (lo, hi) \<and> 0 \<le> lo \<and>
        lo div int 2 \<le> int j \<and> int j \<le> hi div int 2 \<and> j < tt_size tab \<and> get_wo_incar tab j = Inr (gen_f_default a) \<and>
        a \<in> set (tree_leaves sample_tree) \<and> k \<in> dom (leaf_map (leafs sample_tree) a))) \<and>
    (\<not> use_vlen verbose_flags \<and> be_verbose verbose_flags \<longrightarrow> (\<exists>a f d l. plots = [a, f, d, l] \<and>
       map fst (xy l) = map (\<lambda>k. real (unat (xd k))) (sorted_list_of_set (dom (xtree_map sample_tree)))))"
  by (rule dd_trained [OF sample_tree_walk(1) _ _ _ ols_sample(1) _ _ rounding_id])
    (simp_all add: sample_tree_dom(2) empty_db_def verbose_flags_def ols_sample)

end
