(* ===== verification/Rpc.thy ===== *)
theory Rpc
  imports Marshal "HOL-Library.Numeral_Type"
begin

text \<open>
  The messages of \<^verbatim>\<open>xcomm/src/rpc\<close>: the packed header (\<^verbatim>\<open>proto.hh\<close>), the builder of a message
  (\<^verbatim>\<open>op.hh\<close>), the station that collects replies for coroutines (\<^verbatim>\<open>reply_station.hh\<close>), and the
  loop that handles what was received (\<^verbatim>\<open>mod.hh\<close>). A \<^verbatim>\<open>MemBlock\<close> of the library r2 is a list of
  bytes of its size; the transport delivers a list of messages with the number of their session.
\<close>

section \<open>The header\<close>

text \<open>Bit fields of a 32-bit word, from the lowest bit on; the struct is padded to 8 bytes.\<close>

record header =
  htype :: "2 word"
  hrpc_id :: "5 word"
  hpayload :: "18 word"
  hcor_id :: "7 word"

definition Req :: "2 word" where "Req = 1"
definition Reply :: "2 word" where "Reply = 2"
definition Connect :: "2 word" where "Connect = 3"

definition sizeof_Header :: nat where
  "sizeof_Header = 8"

definition Header0 :: header where
  "Header0 = \<lparr>htype = 0, hrpc_id = 0, hpayload = 0, hcor_id = 0\<rparr>"

definition header_word :: "header \<Rightarrow> u32" where
  "header_word h = ucast (htype h) OR push_bit 2 (ucast (hrpc_id h)) OR push_bit 7 (ucast (hpayload h)) OR
     push_bit 25 (ucast (hcor_id h))"

definition header_of_word :: "u32 \<Rightarrow> header" where
  "header_of_word w = \<lparr>htype = ucast w, hrpc_id = ucast (drop_bit 2 w), hpayload = ucast (drop_bit 7 w),
     hcor_id = ucast (drop_bit 25 w)\<rparr>"

lemma header_of_header_word [simp]: "header_of_word (header_word h) = h"
proof -
  have "ucast (header_word h) = htype h"
    by (rule bit_word_eqI) (auto simp: header_word_def bit_simps)
  moreover have "ucast (drop_bit 2 (header_word h)) = hrpc_id h"
    by (rule bit_word_eqI) (auto simp: header_word_def bit_simps dest: bit_imp_le_length)
  moreover have "ucast (drop_bit 7 (header_word h)) = hpayload h"
    by (rule bit_word_eqI) (auto simp: header_word_def bit_simps dest: bit_imp_le_length)
  moreover have "ucast (drop_bit 25 (header_word h)) = hcor_id h"
    by (rule bit_word_eqI) (auto simp: header_word_def bit_simps dest: bit_imp_le_length)
  ultimately show ?thesis by (simp add: header_of_word_def)
qed

section \<open>Replies\<close>

record reply_entry =
  pending_replies :: nat
  reply_buf :: "u8 list"
  reply_cur :: nat

definition ReplyEntry :: "u8 list \<Rightarrow> reply_entry" where
  "ReplyEntry buf = \<lparr>pending_replies = 1, reply_buf = buf, reply_cur = 0\<rparr>"

text \<open>The default entry has an empty buffer and no pending reply, so its position is never used.\<close>

definition ReplyEntry0 :: reply_entry where
  "ReplyEntry0 = \<lparr>pending_replies = 0, reply_buf = [], reply_cur = 0\<rparr>"

type_synonym reply_station = "reply_entry list"

definition ReplyStation :: "nat \<Rightarrow> reply_station" where
  "ReplyStation num_cors = replicate num_cors ReplyEntry0"

definition add_pending_reply :: "reply_station \<Rightarrow> nat \<Rightarrow> reply_entry \<Rightarrow> (bool \<times> reply_station) res" where
  "add_pending_reply s cor_id reply =
     rbind (cassert (cor_id < length s)) (\<lambda>_.
     if pending_replies (s ! cor_id) > 0 then Inr (False, s)
     else Inr (True, s[cor_id := reply]))"

definition cor_ready :: "reply_station \<Rightarrow> nat \<Rightarrow> bool res" where
  "cor_ready s cor_id =
     (if cor_id < length s then Inr (pending_replies (s ! cor_id) = 0) else Inl OutOfRange)"

definition append_reply :: "reply_station \<Rightarrow> nat \<Rightarrow> u8 list \<Rightarrow> (bool \<times> reply_station) res" where
  "append_reply s cor_id payload =
     rbind (cor_ready s cor_id) (\<lambda>rdy.
     if rdy then Inr (False, s)
     else
       let r = s ! cor_id in
       rbind (cassert (reply_cur r + length payload \<le> length (reply_buf r))) (\<lambda>_.
       let r1 = r\<lparr>reply_buf := take (reply_cur r) (reply_buf r) @ payload @
                    drop (reply_cur r + length payload) (reply_buf r),
                  reply_cur := reply_cur r + length payload\<rparr>;
           r2 = r1\<lparr>pending_replies := pending_replies r1 - 1\<rparr>
       in Inr (True, s[cor_id := r2])))"

section \<open>Building a message\<close>

text \<open>\<open>cur_ptr\<close> is kept as the offset into the message, which is \<open>cur_sz()\<close>.\<close>

record rpc_op =
  oheader :: header
  omsg :: "u8 list"
  ocur :: nat

text \<open>The header of a fresh \<^verbatim>\<open>RPCOp\<close> is not initialised; \<open>h\<close> is what it holds.\<close>

definition RPCOp :: "header \<Rightarrow> rpc_op" where
  "RPCOp h = \<lparr>oheader = h, omsg = [], ocur = 0\<rparr>"

definition set_msg :: "u8 list \<Rightarrow> rpc_op \<Rightarrow> rpc_op res" where
  "set_msg b op = rbind (cassert (length b \<ge> sizeof_Header)) (\<lambda>_. Inr (op\<lparr>omsg := b, ocur := sizeof_Header\<rparr>))"

definition set_rpc_id :: "u32 \<Rightarrow> rpc_op \<Rightarrow> rpc_op" where
  "set_rpc_id i op = op\<lparr>oheader := (oheader op)\<lparr>hrpc_id := ucast i\<rparr>\<rparr>"

definition set_req :: "rpc_op \<Rightarrow> rpc_op" where
  "set_req op = op\<lparr>oheader := (oheader op)\<lparr>htype := Req\<rparr>\<rparr>"

definition set_connect :: "rpc_op \<Rightarrow> rpc_op" where
  "set_connect op = op\<lparr>oheader := (oheader op)\<lparr>htype := Connect\<rparr>\<rparr>"

definition set_reply :: "rpc_op \<Rightarrow> rpc_op" where
  "set_reply op = op\<lparr>oheader := (oheader op)\<lparr>htype := Reply\<rparr>\<rparr>"

definition set_corid :: "u32 \<Rightarrow> rpc_op \<Rightarrow> rpc_op" where
  "set_corid i op = op\<lparr>oheader := (oheader op)\<lparr>hcor_id := ucast i\<rparr>\<rparr>"

text \<open>What \<open>add_pending_reply\<close> returns is dropped.\<close>

definition add_reply_entry :: "reply_station \<Rightarrow> reply_entry \<Rightarrow> rpc_op \<Rightarrow> (rpc_op \<times> reply_station) res" where
  "add_reply_entry s reply op =
     rbind (add_pending_reply s (unat (hcor_id (oheader op))) reply) (\<lambda>(_, s'). Inr (op, s'))"

definition add_one_reply :: "reply_station \<Rightarrow> u8 list \<Rightarrow> rpc_op \<Rightarrow> (rpc_op \<times> reply_station) res" where
  "add_one_reply s reply op = add_reply_entry s (ReplyEntry reply) op"

text \<open>Both ways to add data, an argument of a plain type by its bytes and an opaque string.\<close>

definition add_arg :: "('t \<Rightarrow> u8 list) \<Rightarrow> nat \<Rightarrow> 't \<Rightarrow> rpc_op \<Rightarrow> bool \<times> rpc_op" where
  "add_arg to_bytes sizeof_T arg op =
     (if sizeof_T + ocur op > length (omsg op) then (False, op)
      else (True, op\<lparr>omsg := take (ocur op) (omsg op) @ to_bytes arg @ drop (ocur op + sizeof_T) (omsg op),
                     ocur := ocur op + sizeof_T\<rparr>))"

definition add_opaque :: "u8 list \<Rightarrow> rpc_op \<Rightarrow> bool \<times> rpc_op" where
  "add_opaque data op =
     (if length data + ocur op > length (omsg op) then (False, op)
      else (True, op\<lparr>omsg := take (ocur op) (omsg op) @ data @ drop (ocur op + length data) (omsg op),
                     ocur := ocur op + length data\<rparr>))"

text \<open>The four bytes behind the word of the header are padding and keep what they hold.\<close>

definition op_finalize :: "rpc_op \<Rightarrow> rpc_op" where
  "op_finalize op =
     (let op1 = op\<lparr>oheader := (oheader op)\<lparr>hpayload := of_nat (ocur op - sizeof_Header)\<rparr>\<rparr>;
          op2 = op1\<lparr>omsg := le_bytes 4 (header_word (oheader op1)) @ drop 4 (omsg op1)\<rparr>
      in op2\<lparr>omsg := take (unat (hpayload (oheader op2)) + sizeof_Header) (omsg op2)\<rparr>)"

text \<open>\<open>send\<close> is the transport.\<close>

definition op_execute :: "('ch \<Rightarrow> u8 list \<Rightarrow> 'w \<Rightarrow> 'w res) \<Rightarrow> 'ch \<Rightarrow> rpc_op \<Rightarrow> 'w \<Rightarrow> 'w res" where
  "op_execute send ch op w = send ch (omsg (op_finalize op)) w"

definition get_connect_op :: "header \<Rightarrow> u8 list \<Rightarrow> u8 list \<Rightarrow> rpc_op res" where
  "get_connect_op h0 msg opaque_data =
     rbind (set_msg msg (RPCOp h0)) (\<lambda>op. Inr (snd (add_opaque opaque_data (set_connect op))))"

section \<open>Handling messages\<close>

type_synonym ('ch, 'w) rpc_func = "header \<Rightarrow> u8 list \<Rightarrow> 'ch option \<Rightarrow> 'w \<Rightarrow> 'w res"

text \<open>A session that was looked up before it was added is a null pointer, \<open>Some None\<close>.\<close>

record ('ch, 'w) rpc_core =
  incoming_sessions :: "u32 \<rightharpoonup> 'ch option"
  station :: reply_station
  callbacks :: "('ch, 'w) rpc_func list"

definition RPCCore :: "nat \<Rightarrow> ('ch, 'w) rpc_core" where
  "RPCCore num_cors = \<lparr>incoming_sessions = Map.empty, station = ReplyStation num_cors, callbacks = []\<rparr>"

definition reg_callback :: "('ch, 'w) rpc_core \<Rightarrow> ('ch, 'w) rpc_func \<Rightarrow> nat \<times> ('ch, 'w) rpc_core" where
  "reg_callback c f = (length (callbacks c), c\<lparr>callbacks := callbacks c @ [f]\<rparr>)"

text \<open>
  \<open>add\<close> makes the channel of a new session from the connect data; it is inserted only when the number
  is not taken. The flag of the result says that a reply was appended.
\<close>

definition recv_msg :: "(u32 \<Rightarrow> u8 list \<Rightarrow> 'ch res) \<Rightarrow> ('ch, 'w) rpc_core \<times> 'w \<Rightarrow> u32 \<times> u8 list
    \<Rightarrow> (header \<times> ('ch, 'w) rpc_core \<times> 'w) res" where
  "recv_msg add cw m =
     (let (c, w) = cw; (session_id, cur_msg) = m in
      rbind (cassert (length cur_msg \<ge> sizeof_Header)) (\<lambda>_.
      let h = header_of_word (of_le_bytes (take 4 cur_msg)) in
      rbind (cassert (unat (hpayload h) + sizeof_Header \<le> length cur_msg)) (\<lambda>_.
      let payload = take (unat (hpayload h)) (drop sizeof_Header cur_msg) in
      if htype h = Req then
        let s = (case incoming_sessions c session_id of
                   Some s \<Rightarrow> incoming_sessions c
                 | None \<Rightarrow> (incoming_sessions c)(session_id \<mapsto> None));
            reply_channel = the (s session_id);
            c1 = c\<lparr>incoming_sessions := s\<rparr>
        in if unat (hrpc_id h) < length (callbacks c1)
           then rbind ((callbacks c1 ! unat (hrpc_id h)) h payload reply_channel w) (\<lambda>w'. Inr (h, c1, w'))
           else Inl AssertFail
      else if htype h = Reply then
        rbind (append_reply (station c) (unat (hcor_id h)) payload) (\<lambda>(ret, st).
        rbind (cassert ret) (\<lambda>_. Inr (h, c\<lparr>station := st\<rparr>, w)))
      else if htype h = Connect then
        rbind (add session_id payload) (\<lambda>ch.
        Inr (h, (case incoming_sessions c session_id of
                   Some _ \<Rightarrow> c
                 | None \<Rightarrow> c\<lparr>incoming_sessions := (incoming_sessions c)(session_id \<mapsto> Some ch)\<rparr>), w))
      else Inl AssertFail)))"

definition recv_event_loop :: "(u32 \<Rightarrow> u8 list \<Rightarrow> 'ch res) \<Rightarrow> ('ch, 'w) rpc_core \<times> 'w \<Rightarrow> (u32 \<times> u8 list) list
    \<Rightarrow> (nat \<times> ('ch, 'w) rpc_core \<times> 'w) res" where
  "recv_event_loop add cw msgs =
     foldl (\<lambda>acc m. rbind acc (\<lambda>(num, cw). rbind (recv_msg add cw m) (\<lambda>(_, cw'). Inr (num + 1, cw'))))
       (Inr (0, cw)) msgs"

text \<open>The future wakes the coroutine of a reply when all its replies have come.\<close>

definition poll_future :: "(u32 \<Rightarrow> u8 list \<Rightarrow> 'ch res) \<Rightarrow> ('ch, 'w) rpc_core \<times> 'w \<Rightarrow> (u32 \<times> u8 list) list
    \<Rightarrow> (nat list \<times> ('ch, 'w) rpc_core \<times> 'w) res" where
  "poll_future add cw msgs =
     foldl (\<lambda>acc m. rbind acc (\<lambda>(ready, cw).
         rbind (recv_msg add cw m) (\<lambda>(h, cw').
         if htype h = Reply then
           rbind (cor_ready (station (fst cw')) (unat (hcor_id h))) (\<lambda>rdy.
           Inr (if rdy then ready @ [unat (hcor_id h)] else ready, cw'))
         else Inr (ready, cw'))))
       (Inr ([], cw)) msgs"

section \<open>Messages\<close>

text \<open>\<open>args\<close> are the bytes added so far.\<close>

definition op_ok :: "rpc_op \<Rightarrow> u8 list \<Rightarrow> bool" where
  "op_ok op args \<longleftrightarrow> ocur op = 8 + length args \<and> ocur op \<le> length (omsg op) \<and>
     take (length args) (drop 8 (omsg op)) = args"

named_theorems op_simps \<open>setters of the header\<close>

lemma op_ok_setters [op_simps]:
  "op_ok (set_rpc_id i op) args = op_ok op args" "op_ok (set_req op) args = op_ok op args"
  "op_ok (set_reply op) args = op_ok op args" "op_ok (set_connect op) args = op_ok op args"
  "op_ok (set_corid i op) args = op_ok op args"
  by (simp_all add: op_ok_def set_rpc_id_def set_req_def set_reply_def set_connect_def set_corid_def)

lemma omsg_setters [op_simps]:
  "omsg (set_rpc_id i op) = omsg op" "omsg (set_req op) = omsg op" "omsg (set_reply op) = omsg op"
  "omsg (set_connect op) = omsg op" "omsg (set_corid i op) = omsg op"
  by (simp_all add: set_rpc_id_def set_req_def set_reply_def set_connect_def set_corid_def)

lemma oheader_setters [op_simps]:
  "oheader (set_rpc_id i op) = (oheader op)\<lparr>hrpc_id := ucast i\<rparr>"
  "oheader (set_req op) = (oheader op)\<lparr>htype := Req\<rparr>"
  "oheader (set_reply op) = (oheader op)\<lparr>htype := Reply\<rparr>"
  "oheader (set_connect op) = (oheader op)\<lparr>htype := Connect\<rparr>"
  "oheader (set_corid i op) = (oheader op)\<lparr>hcor_id := ucast i\<rparr>"
  by (simp_all add: set_rpc_id_def set_req_def set_reply_def set_connect_def set_corid_def)

lemma set_msg_ok: "8 \<le> length b \<Longrightarrow> \<exists>op'. set_msg b op = Inr op' \<and> op_ok op' [] \<and> omsg op' = b \<and> oheader op' = oheader op"
  by (simp add: set_msg_def op_ok_def sizeof_Header_def)

lemma add_opaque_ok:
  assumes "op_ok op args" and "8 + length args + length data \<le> length (omsg op)"
  shows "\<exists>op'. add_opaque data op = (True, op') \<and> op_ok op' (args @ data) \<and>
    length (omsg op') = length (omsg op) \<and> oheader op' = oheader op"
proof -
  let ?m = "take (ocur op) (omsg op) @ data @ drop (ocur op + length data) (omsg op)"
  have c: "ocur op = 8 + length args" "take (length args) (drop 8 (omsg op)) = args"
    using assms(1) by (simp_all add: op_ok_def)
  have "drop 8 ?m = args @ data @ drop (ocur op + length data) (omsg op)"
    using c assms(2) by (simp add: drop_take)
  then have "take (length args + length data) (drop 8 ?m) = args @ data" by simp
  then show ?thesis using c(1) assms(2) by (simp add: add_opaque_def op_ok_def)
qed

lemma add_arg_opaque: "length (to_bytes arg) = n \<Longrightarrow> add_arg to_bytes n arg op = add_opaque (to_bytes arg) op"
  by (simp add: add_arg_def add_opaque_def)

lemma add_arg_ok:
  assumes "op_ok op args" and "length (to_bytes arg) = n" and "8 + length args + n \<le> length (omsg op)"
  shows "\<exists>op'. add_arg to_bytes n arg op = (True, op') \<and> op_ok op' (args @ to_bytes arg) \<and>
    length (omsg op') = length (omsg op) \<and> oheader op' = oheader op"
  unfolding add_arg_opaque [of to_bytes, OF assms(2)] using add_opaque_ok [OF assms(1), of "to_bytes arg"] assms(2,3)
  by simp

text \<open>What is sent, and what the receiver reads of it.\<close>

lemma finalized_message:
  assumes ok: "op_ok op args" and n: "length args < 2 ^ 18"
  defines "m \<equiv> omsg (op_finalize op)"
  shows "length m = 8 + length args"
    and "header_of_word (of_le_bytes (take 4 (m @ rest))) = (oheader op)\<lparr>hpayload := of_nat (length args)\<rparr>"
    and "take (length args) (drop 8 (m @ rest)) = args"
proof -
  let ?h = "(oheader op)\<lparr>hpayload := of_nat (length args)\<rparr>"
  have c: "ocur op = 8 + length args" "8 + length args \<le> length (omsg op)" "take (length args) (drop 8 (omsg op)) = args"
    using ok by (simp_all add: op_ok_def)
  have "unat (of_nat (length args) :: 18 word) = length args"
    using n by (simp add: unat_of_nat)
  then have m: "m = take (length args + 8) (le_bytes 4 (header_word ?h) @ drop 4 (omsg op))"
    using c(1) by (simp add: m_def op_finalize_def sizeof_Header_def Let_def del: le_bytes.simps)
  then show len: "length m = 8 + length args" using c(2) by simp
  have w: "take 4 m = le_bytes 4 (header_word ?h)" unfolding m by (simp del: le_bytes.simps)
  show "header_of_word (of_le_bytes (take 4 (m @ rest))) = ?h"
    using w len by (simp add: of_le_bytes_full del: le_bytes.simps of_le_bytes.simps)
  have "drop 8 m = args" unfolding m using c(3) by (simp add: drop_take)
  then show "take (length args) (drop 8 (m @ rest)) = args" using len by simp
qed

lemma recv_msg_parsed:
  assumes ok: "op_ok op args" and n: "length args < 2 ^ 18"
  defines "h \<equiv> (oheader op)\<lparr>hpayload := of_nat (length args)\<rparr>"
  shows "recv_msg add (c, w) (sid, omsg (op_finalize op) @ rest) =
    (if htype h = Req then
        let s = (case incoming_sessions c sid of Some s \<Rightarrow> incoming_sessions c
                 | None \<Rightarrow> (incoming_sessions c)(sid \<mapsto> None));
            c1 = c\<lparr>incoming_sessions := s\<rparr>
        in if unat (hrpc_id h) < length (callbacks c)
           then rbind ((callbacks c ! unat (hrpc_id h)) h args (the (s sid)) w) (\<lambda>w'. Inr (h, c1, w'))
           else Inl AssertFail
      else if htype h = Reply then
        rbind (append_reply (station c) (unat (hcor_id h)) args) (\<lambda>(ret, st).
        rbind (cassert ret) (\<lambda>_. Inr (h, c\<lparr>station := st\<rparr>, w)))
      else if htype h = Connect then
        rbind (add sid args) (\<lambda>ch.
        Inr (h, (case incoming_sessions c sid of
                   Some _ \<Rightarrow> c
                 | None \<Rightarrow> c\<lparr>incoming_sessions := (incoming_sessions c)(sid \<mapsto> Some ch)\<rparr>), w))
      else Inl AssertFail)"
proof -
  note f = finalized_message(1) [OF ok n] finalized_message(2,3) [where rest = rest, OF ok n]
  have u: "unat (hpayload h) = length args" using n by (simp add: h_def unat_of_nat)
  have "header_of_word (of_le_bytes (take 4 (omsg (op_finalize op) @ rest))) = h" using f(2) by (simp add: h_def)
  then show ?thesis using f(1,3) u unfolding recv_msg_def by (simp add: sizeof_Header_def Let_def)
qed

section \<open>Properties\<close>

text \<open>C20: a request built in a buffer with room for it, by \<^verbatim>\<open>set_msg\<close>, \<^verbatim>\<open>set_req\<close>, \<^verbatim>\<open>set_rpc_id\<close>,
  \<^verbatim>\<open>set_corid\<close> and \<^verbatim>\<open>add_arg\<close>, makes the receiver call the handler with that number, with the
  bytes of the argument as payload and with the number of the coroutine in the header, also when the
  received block is longer than the message.\<close>

theorem request_delivered:
  assumes "8 + n \<le> length buf" and "length (to_bytes arg) = n" and "n < 2 ^ 18"
    and "unat rid < 32" and "unat rid < length (callbacks c)" and "unat cor < 128"
    and "incoming_sessions c sid = Some ch"
  shows "\<exists>op op' h. set_msg buf (RPCOp h0) = Inr op \<and>
    add_arg to_bytes n arg (set_corid cor (set_rpc_id rid (set_req op))) = (True, op') \<and>
    unat (hcor_id h) = unat cor \<and>
    recv_msg add (c, w) (sid, omsg (op_finalize op') @ rest) =
      rbind ((callbacks c ! unat rid) h (to_bytes arg) ch w) (\<lambda>w'. Inr (h, c, w'))"
proof -
  obtain op where op: "set_msg buf (RPCOp h0) = Inr op" "op_ok op []" "omsg op = buf"
    using set_msg_ok [of buf "RPCOp h0"] assms(1) by auto
  let ?op = "set_corid cor (set_rpc_id rid (set_req op))"
  have "op_ok ?op []" "8 + length [] + n \<le> length (omsg ?op)"
    using op(2,3) assms(1) by (simp_all add: op_simps)
  then obtain op' where op': "add_arg to_bytes n arg ?op = (True, op')" "op_ok op' (to_bytes arg)"
    "oheader op' = oheader ?op" using add_arg_ok [of ?op "[]" to_bytes arg n] assms(2) by auto
  let ?h = "(oheader op')\<lparr>hpayload := of_nat (length (to_bytes arg))\<rparr>"
  have h: "htype ?h = Req" "unat (hrpc_id ?h) = unat rid" "unat (hcor_id ?h) = unat cor"
    using assms(4,6) by (simp_all add: op'(3) op_simps unsigned_ucast_eq take_bit_nat_eq_self)
  have "recv_msg add (c, w) (sid, omsg (op_finalize op') @ rest) =
      rbind ((callbacks c ! unat rid) ?h (to_bytes arg) ch w) (\<lambda>w'. Inr (?h, c, w'))"
    using recv_msg_parsed [OF op'(2), of add c w sid rest] assms(2,3,5,7) h by (simp add: Let_def)
  then show ?thesis using op(1) op'(1) h(3) by blast
qed

definition sample_core :: "(nat, u8 list list) rpc_core" where
  "sample_core = (RPCCore 4)\<lparr>callbacks := [\<lambda>h p ch w. Inr (w @ [p])], incoming_sessions := [7 \<mapsto> Some 1]\<rparr>"

theorem request_delivered_witness:
  "\<exists>op op' h. set_msg (replicate 64 0) (RPCOp Header0) = Inr op \<and>
    add_arg (le_bytes 8) 8 (5 :: u64) (set_corid 3 (set_rpc_id 0 (set_req op))) = (True, op') \<and>
    unat (hcor_id h) = unat (3 :: u32) \<and>
    recv_msg (\<lambda>_ _. Inr 0) (sample_core, []) (7, omsg (op_finalize op') @ [1, 2]) =
      rbind ((callbacks sample_core ! unat (0 :: u32)) h (le_bytes 8 (5 :: u64)) (Some 1) []) (\<lambda>w'. Inr (h, sample_core, w'))"
  by (rule request_delivered) (simp_all add: sample_core_def del: le_bytes.simps)

text \<open>A coroutine that waits for one reply: registering the buffer succeeds when it waits for none,
  it is not ready and refuses another registration until the reply comes; the reply is stored at
  the start of the buffer, the coroutine is ready, and a second reply is refused.\<close>

theorem reply_cycle:
  assumes "i < length s" and "pending_replies (s ! i) = 0" and "length p \<le> length buf"
  shows "\<exists>s1 s2. add_pending_reply s i (ReplyEntry buf) = Inr (True, s1) \<and> cor_ready s1 i = Inr False \<and>
    add_pending_reply s1 i r = Inr (False, s1) \<and> append_reply s1 i p = Inr (True, s2) \<and>
    cor_ready s2 i = Inr True \<and> append_reply s2 i q = Inr (False, s2) \<and>
    take (length p) (reply_buf (s2 ! i)) = p \<and> length (reply_buf (s2 ! i)) = length buf \<and>
    (\<forall>j. j \<noteq> i \<longrightarrow> s2 ! j = s ! j)"
  using assms
  by (simp add: add_pending_reply_def cor_ready_def append_reply_def ReplyEntry_def Let_def)

theorem reply_cycle_witness:
  "\<exists>s1 s2. add_pending_reply (ReplyStation 2) 1 (ReplyEntry [0, 0, 0]) = Inr (True, s1) \<and> cor_ready s1 1 = Inr False \<and>
    add_pending_reply s1 1 ReplyEntry0 = Inr (False, s1) \<and> append_reply s1 1 [4, 5] = Inr (True, s2) \<and>
    cor_ready s2 1 = Inr True \<and> append_reply s2 1 [6] = Inr (False, s2) \<and>
    take (length [4, 5 :: u8]) (reply_buf (s2 ! 1)) = [4, 5] \<and> length (reply_buf (s2 ! 1)) = length [0, 0, 0 :: u8] \<and>
    (\<forall>j. j \<noteq> 1 \<longrightarrow> s2 ! j = ReplyStation 2 ! j)"
  by (rule reply_cycle) (simp_all add: ReplyStation_def ReplyEntry0_def)

end
