(* ===== verification/YcsbRpc.thy ===== *)
theory YcsbRpc
  imports Rpc Dispatcher XTreeSpec
begin

text \<open>
  The two remote procedures of the benchmark servers: \<^verbatim>\<open>META\<close> tells a client where the trained cache
  lies, \<^verbatim>\<open>GET\<close> looks a key up in the tree (\<^verbatim>\<open>proto.hh\<close> and \<^verbatim>\<open>server/callbacks.hh\<close> of
  \<^verbatim>\<open>benchs/ycsb\<close> and \<^verbatim>\<open>benchs/data_dist\<close>), and the client's side of them. The lemmas follow one
  request from the client through the server's loop and back into the client's reply station.
\<close>

section \<open>The protocol\<close>

definition META :: nat where "META = 0"
definition GET :: nat where "GET = 1"

record reply_meta =
  dispatcher_sz :: u32
  total_sz :: u32
  meta_model_buf :: u64
  meta_tt_buf :: u64

definition reply_meta_to_bytes :: "reply_meta \<Rightarrow> u8 list" where
  "reply_meta_to_bytes m = le_bytes 4 (dispatcher_sz m) @ le_bytes 4 (total_sz m) @
     le_bytes 8 (meta_model_buf m) @ le_bytes 8 (meta_tt_buf m)"

definition reply_meta_of_bytes :: "u8 list \<Rightarrow> reply_meta" where
  "reply_meta_of_bytes bs = \<lparr>dispatcher_sz = of_le_bytes (take 4 bs), total_sz = of_le_bytes (take 4 (drop 4 bs)),
     meta_model_buf = of_le_bytes (take 8 (drop 8 bs)), meta_tt_buf = of_le_bytes (drop 16 bs)\<rparr>"

interpretation pod_meta: pod 24 reply_meta_to_bytes reply_meta_of_bytes
proof unfold_locales
  fix m :: reply_meta and bs :: "u8 list"
  show "length (reply_meta_to_bytes m) = 24" by (simp add: reply_meta_to_bytes_def del: le_bytes.simps)
  show "reply_meta_of_bytes (reply_meta_to_bytes m) = m"
    by (simp add: reply_meta_of_bytes_def reply_meta_to_bytes_def of_le_bytes_full del: le_bytes.simps of_le_bytes.simps)
  assume len: "length bs = 24"
  have "le_bytes 4 (of_le_bytes (take 4 bs) :: u32) = take 4 bs" "le_bytes 4 (of_le_bytes (take 4 (drop 4 bs)) :: u32) = take 4 (drop 4 bs)"
    "le_bytes 8 (of_le_bytes (take 8 (drop 8 bs)) :: u64) = take 8 (drop 8 bs)"
    "le_bytes 8 (of_le_bytes (drop 16 bs) :: u64) = drop 16 bs"
    using len le_bytes_of_le_bytes [where 'a = 32, of "take 4 bs"] le_bytes_of_le_bytes [where 'a = 32, of "take 4 (drop 4 bs)"]
      le_bytes_of_le_bytes [where 'a = 64, of "take 8 (drop 8 bs)"] le_bytes_of_le_bytes [where 'a = 64, of "drop 16 bs"]
    by (simp_all del: le_bytes.simps of_le_bytes.simps)
  moreover have "take 4 bs @ take 4 (drop 4 bs) @ take 8 (drop 8 bs) @ drop 16 bs = bs"
  proof -
    have "take 8 (drop 8 bs) @ drop 16 bs = drop 8 bs" using append_take_drop_id [of 8 "drop 8 bs"] by simp
    moreover have "take 4 (drop 4 bs) @ drop 8 bs = drop 4 bs" using append_take_drop_id [of 4 "drop 4 bs"] by simp
    ultimately show ?thesis by simp
  qed
  ultimately show "reply_meta_to_bytes (reply_meta_of_bytes bs) = bs"
    by (simp add: reply_meta_to_bytes_def reply_meta_of_bytes_def)
qed

section \<open>The callbacks of the server\<close>

text \<open>
  \<open>send\<close> is the transport; \<open>h0\<close> and \<open>buf\<close> are what the uninitialised header and reply buffer hold.
  \<open>limit\<close> is the bound of the assertion: 64 for YCSB, 256 for the second server, whose buffer has
  1024 bytes. \<open>cache\<close>, \<open>model_buf\<close>, \<open>tt_buf\<close> and \<open>buf_end\<close> are the globals of the server.
\<close>

definition send_reply :: "('ch \<Rightarrow> u8 list \<Rightarrow> 'w \<Rightarrow> 'w res) \<Rightarrow> header \<Rightarrow> 'ch option \<Rightarrow> rpc_op \<Rightarrow> 'w \<Rightarrow> 'w res" where
  "send_reply send h replyc op w =
     (let op1 = set_corid (ucast (hcor_id h)) op in
      case replyc of Some ch \<Rightarrow> op_execute send ch op1 w | None \<Rightarrow> Inl NullDeref)"

definition meta_callback :: "('m, 'k) ml_ops \<Rightarrow> nat \<Rightarrow> ('m, 'w::len word) dispatcher option \<Rightarrow> u64 \<Rightarrow> u64 \<Rightarrow> u64
    \<Rightarrow> ('ch \<Rightarrow> u8 list \<Rightarrow> 's \<Rightarrow> 's res) \<Rightarrow> header \<Rightarrow> u8 list \<Rightarrow> ('ch, 's) rpc_func" where
  "meta_callback M limit cache model_buf tt_buf buf_end send h0 buf h args replyc w =
     rbind (cassert (length args = 8)) (\<lambda>_.
     rbind (cassert (cache \<noteq> None)) (\<lambda>_.
     rbind (disp_serialize M (the cache)) (\<lambda>dispatcher.
     let meta = \<lparr>dispatcher_sz = of_nat (length dispatcher), total_sz = ucast (buf_end - model_buf),
                 meta_model_buf = model_buf, meta_tt_buf = tt_buf\<rparr> in
     rbind (cassert (24 + length dispatcher + sizeof_Header \<le> limit)) (\<lambda>_.
     rbind (set_msg buf (RPCOp h0)) (\<lambda>op.
     let (ok, op1) = add_arg reply_meta_to_bytes 24 meta (set_reply op) in
     rbind (cassert ok) (\<lambda>_.
     let (ok2, op2) = add_opaque dispatcher op1 in
     rbind (cassert ok2) (\<lambda>_.
     send_reply send h replyc op2 w)))))))"

definition get_callback :: "(u64 \<Rightarrow> 'k) \<Rightarrow> ('k::{linorder,order_bot,order_top}, u64) xtree
    \<Rightarrow> ('ch \<Rightarrow> u8 list \<Rightarrow> 's \<Rightarrow> 's res) \<Rightarrow> header \<Rightarrow> u8 list \<Rightarrow> ('ch, 's) rpc_func" where
  "get_callback key_of db send h0 buf h args replyc w =
     rbind (cassert (length args = 8)) (\<lambda>_.
     let key = of_le_bytes args :: u64 in
     rbind (get_impl db (key_of key)) (\<lambda>r.
     rbind (opt_value r) (\<lambda>value.
     rbind (set_msg buf (RPCOp h0)) (\<lambda>op.
     let (ok, op1) = add_arg (le_bytes 8) 8 value (set_reply op) in
     rbind (cassert ok) (\<lambda>_.
     send_reply send h replyc op1 w)))))"

section \<open>The client\<close>

text \<open>
  \<open>exec\<close> is the transport and the scheduler: it sends a message and gives the reply station at the
  moment the coroutine goes on, which it does when its reply has come.
\<close>

type_synonym exec = "u8 list \<Rightarrow> reply_station \<Rightarrow> reply_station res"

definition call :: "exec \<Rightarrow> header \<Rightarrow> u8 list \<Rightarrow> u8 list \<Rightarrow> nat \<Rightarrow> u32 \<Rightarrow> u64 \<Rightarrow> reply_station
    \<Rightarrow> (u8 list \<times> reply_station) res" where
  "call exec h0 sbuf rbuf rpc_id cor arg st =
     rbind (set_msg sbuf (RPCOp h0)) (\<lambda>op.
     rbind (add_one_reply st rbuf (set_corid cor (set_rpc_id (of_nat rpc_id) (set_req op)))) (\<lambda>(op1, st1).
     let (_, op2) = add_arg (le_bytes 8) 8 arg op1 in
     rbind (cor_ready st1 (unat cor)) (\<lambda>rdy.
     rbind (cassert (\<not> rdy)) (\<lambda>_.
     rbind (exec (omsg (op_finalize op2)) st1) (\<lambda>st2.
     if unat cor < length st2 then Inr (Rpc.reply_buf (st2 ! unat cor), st2) else Inl OutOfRange)))))"

text \<open>\<^verbatim>\<open>eval_w_rpc\<close>: the reply is the value.\<close>

definition eval_w_rpc :: "('k \<Rightarrow> u64) \<Rightarrow> exec \<Rightarrow> header \<Rightarrow> u8 list \<Rightarrow> u8 list \<Rightarrow> u32 \<Rightarrow> 'k \<Rightarrow> reply_station
    \<Rightarrow> (u64 \<times> reply_station) res" where
  "eval_w_rpc word_of exec h0 sbuf rbuf cor key st =
     rbind (call exec h0 sbuf rbuf GET cor (word_of key) st) (\<lambda>(r, st').
     Inr (of_le_bytes (take 8 r), st'))"

text \<open>The request for the metadata, from the buffer of 2048 bytes and with the number 73 as argument.\<close>

definition fetch_meta :: "exec \<Rightarrow> header \<Rightarrow> u8 list \<Rightarrow> u8 list \<Rightarrow> reply_station
    \<Rightarrow> (reply_meta \<times> u8 list \<times> reply_station) res" where
  "fetch_meta exec h0 sbuf rbuf st =
     rbind (call exec h0 sbuf rbuf META 0 73 st) (\<lambda>(r, st').
     rbind (deserialize 24 reply_meta_of_bytes r 1024) (\<lambda>meta.
     Inr (meta, take (unat (dispatcher_sz meta)) (drop 24 r), st')))"

section \<open>One call from end to end\<close>

text \<open>
  A transport that delivers: the request is handled by the server's loop in the session \<open>sid\<close>, its
  one reply by the client's loop. The server's channel appends to the list of messages sent.
\<close>

definition deliver :: "unit \<Rightarrow> u8 list \<Rightarrow> u8 list list \<Rightarrow> u8 list list res" where
  "deliver ch m w = Inr (w @ [m])"

definition exchange :: "(unit, u8 list list) rpc_core \<Rightarrow> u32 \<Rightarrow> exec" where
  "exchange sc sid m st =
     rbind (recv_msg (\<lambda>_ _. Inr ()) (sc, []) (sid, m)) (\<lambda>(_, _, out).
     case out of
       [r] \<Rightarrow> rbind (recv_msg (\<lambda>_ _. Inr ()) ((RPCCore 0 :: (unit, unit) rpc_core)\<lparr>station := st\<rparr>, ()) (sid, r)) (\<lambda>(_, cc, _).
              Inr (station cc))
     | _ \<Rightarrow> Inl AssertFail)"

text \<open>The coroutine \<open>i\<close> may make a call.\<close>

definition idle :: "reply_station \<Rightarrow> nat \<Rightarrow> bool" where
  "idle st i \<longleftrightarrow> i < length st \<and> pending_replies (st ! i) = 0"

lemma reply_received:
  assumes ok: "op_ok op args" and r: "htype (oheader op) = Reply" and i: "unat (hcor_id (oheader op)) = i"
    and st: "i < length st" "st ! i = ReplyEntry buf" and n: "length args \<le> length buf" "length args < 2 ^ 18"
  shows "\<exists>h cc. recv_msg (\<lambda>_ _. Inr ()) ((RPCCore 0 :: (unit, unit) rpc_core)\<lparr>station := st\<rparr>, ())
      (sid, omsg (op_finalize op)) = Inr (h, cc, ()) \<and>
    station cc = st[i := \<lparr>pending_replies = 0, reply_buf = args @ drop (length args) buf, reply_cur = length args\<rparr>]"
proof -
  have "append_reply st i args =
      Inr (True, st[i := \<lparr>pending_replies = 0, reply_buf = args @ drop (length args) buf, reply_cur = length args\<rparr>])"
    using st n by (simp add: append_reply_def cor_ready_def ReplyEntry_def Let_def)
  then show ?thesis
    using recv_msg_parsed [OF ok n(2), where rest = "[]", of "\<lambda>_ _. Inr ()" "(RPCCore 0 :: (unit, unit) rpc_core)\<lparr>station := st\<rparr>" "()" sid]
      r i by (simp add: Req_def Reply_def Connect_def)
qed

lemma call_ok:
  fixes sc :: "(unit, u8 list list) rpc_core"
  assumes cor: "unat cor < 128" "idle st (unat cor)" and buf: "16 \<le> length sbuf"
    and sc: "incoming_sessions sc sid = Some (Some ())" "rid < 32" "rid < length (callbacks sc)"
    and cb: "\<And>h. hcor_id h = ucast cor \<Longrightarrow> \<exists>op. (callbacks sc ! rid) h (le_bytes 8 arg) (Some ()) [] = Inr [omsg (op_finalize op)] \<and>
      op_ok op r \<and> htype (oheader op) = Reply \<and> hcor_id (oheader op) = ucast cor"
    and r: "length r \<le> length rbuf" "length r < 2 ^ 18"
  shows "\<exists>st'. call (exchange sc sid) h0 sbuf rbuf rid cor arg st = Inr (r @ drop (length r) rbuf, st') \<and>
    idle st' (unat cor) \<and> length st' = length st"
proof -
  obtain op where op: "set_msg sbuf (RPCOp h0) = Inr op" "op_ok op []" "omsg op = sbuf"
    using set_msg_ok [of sbuf "RPCOp h0"] buf by auto
  let ?op = "set_corid cor (set_rpc_id (of_nat rid) (set_req op))"
  have c: "unat (hcor_id (oheader ?op)) = unat cor" "ucast cor = (ucast cor :: 7 word)"
    using cor(1) by (simp_all add: op_simps unsigned_ucast_eq take_bit_nat_eq_self)
  let ?st1 = "st[unat cor := ReplyEntry rbuf]"
  have add: "add_one_reply st rbuf ?op = Inr (?op, ?st1)"
    using cor(2) by (simp add: add_one_reply_def add_reply_entry_def c add_pending_reply_def idle_def)
  have "op_ok ?op []" "8 + length ([] :: u8 list) + 8 \<le> length (omsg ?op)"
    using op(2,3) buf by (simp_all add: op_simps)
  then obtain op' where op': "add_arg (le_bytes 8) 8 arg ?op = (True, op')" "op_ok op' (le_bytes 8 arg)"
    "oheader op' = oheader ?op" using add_arg_ok [of ?op "[]" "le_bytes 8" arg 8] by auto
  let ?h = "(oheader op')\<lparr>hpayload := of_nat (length (le_bytes 8 arg))\<rparr>"
  have h: "htype ?h = Req" "unat (hrpc_id ?h) = rid" "hcor_id ?h = ucast cor"
    using sc(2) by (simp_all add: op'(3) op_simps unsigned_ucast_eq unat_of_nat take_bit_nat_eq_self
        take_bit_nat_less_self_iff)
  obtain rop where rop: "(callbacks sc ! rid) ?h (le_bytes 8 arg) (Some ()) [] = Inr [omsg (op_finalize rop)]"
    "op_ok rop r" "htype (oheader rop) = Reply" "hcor_id (oheader rop) = ucast cor" using cb [OF h(3)] by blast
  have "recv_msg (\<lambda>_ _. Inr ()) (sc, []) (sid, omsg (op_finalize op')) = Inr (?h, sc, [omsg (op_finalize rop)])"
    using recv_msg_parsed [OF op'(2), where rest = "[]", of "\<lambda>_ _. Inr ()" sc "[]" sid] sc h rop(1) by (simp add: Let_def)
  moreover have "unat (hcor_id (oheader rop)) = unat cor"
    using cor(1) by (simp add: rop(4) unsigned_ucast_eq take_bit_nat_eq_self)
  then obtain h' cc where "recv_msg (\<lambda>_ _. Inr ()) ((RPCCore 0 :: (unit, unit) rpc_core)\<lparr>station := ?st1\<rparr>, ())
      (sid, omsg (op_finalize rop)) = Inr (h', cc, ())"
    "station cc = ?st1[unat cor := \<lparr>pending_replies = 0, reply_buf = r @ drop (length r) rbuf, reply_cur = length r\<rparr>]"
    using reply_received [OF rop(2,3), of "unat cor" ?st1 rbuf sid] cor(2) r by (auto simp: idle_def)
  ultimately have "exchange sc sid (omsg (op_finalize op')) ?st1 =
      Inr (st[unat cor := \<lparr>pending_replies = 0, reply_buf = r @ drop (length r) rbuf, reply_cur = length r\<rparr>])"
    by (simp add: exchange_def)
  then show ?thesis using op(1) add op'(1) cor(2)
    by (simp add: call_def cor_ready_def idle_def ReplyEntry_def)
qed

section \<open>What the calls return\<close>

text \<open>The server registers \<^verbatim>\<open>meta_callback\<close> first, then \<^verbatim>\<open>get_callback\<close> (\<^verbatim>\<open>worker.hh\<close>).\<close>

definition worker_core :: "(unit, u8 list list) rpc_func \<Rightarrow> (unit, u8 list list) rpc_func
    \<Rightarrow> (unit, u8 list list) rpc_core res" where
  "worker_core meta get =
     (let (i, c1) = reg_callback (RPCCore 12) meta in
      rbind (cassert (i = META)) (\<lambda>_.
      let (j, c2) = reg_callback c1 get in
      rbind (cassert (j = GET)) (\<lambda>_. Inr c2)))"

lemma worker_core_callbacks:
  "\<exists>c. worker_core meta get = Inr c \<and> callbacks c = [meta, get] \<and> incoming_sessions c = Map.empty"
  by (simp add: worker_core_def reg_callback_def RPCCore_def META_def GET_def)

lemma send_reply_deliver:
  "send_reply deliver h (Some ()) op [] = Inr [omsg (op_finalize (set_corid (ucast (hcor_id h)) op))]"
  by (simp add: send_reply_def op_execute_def deliver_def)

lemma get_callback_ok:
  assumes "get_impl db (key_of key) = Inr (Some v)" and "length buf = 64"
  shows "\<exists>op. get_callback key_of db deliver h0 buf h (le_bytes 8 key) (Some ()) [] = Inr [omsg (op_finalize op)] \<and>
    op_ok op (le_bytes 8 v) \<and> htype (oheader op) = Reply \<and> hcor_id (oheader op) = hcor_id h"
proof -
  obtain op where op: "set_msg buf (RPCOp h0) = Inr op" "op_ok op []" "omsg op = buf"
    using set_msg_ok [of buf "RPCOp h0"] assms(2) by auto
  have "op_ok (set_reply op) []" "8 + length ([] :: u8 list) + 8 \<le> length (omsg (set_reply op))"
    using op(2,3) assms(2) by (simp_all add: op_simps)
  then obtain op' where op': "add_arg (le_bytes 8) 8 v (set_reply op) = (True, op')" "op_ok op' (le_bytes 8 v)"
    "oheader op' = oheader (set_reply op)" using add_arg_ok [of "set_reply op" "[]" "le_bytes 8" v 8] by auto
  have k: "of_le_bytes (le_bytes 8 key) = key" by (rule of_le_bytes_full) simp
  have "get_callback key_of db deliver h0 buf h (le_bytes 8 key) (Some ()) [] =
      Inr [omsg (op_finalize (set_corid (ucast (hcor_id h)) op'))]"
    unfolding get_callback_def k using assms(1) op(1) op'(1) by (simp add: send_reply_deliver del: le_bytes.simps)
  moreover have "ucast (ucast (hcor_id h) :: u32) = hcor_id h" by (rule bit_word_eqI) (auto simp: bit_simps dest: bit_imp_le_length)
  ultimately show ?thesis using op'(2,3)
    by (intro exI [of _ "set_corid (ucast (hcor_id h)) op'"]) (simp add: op_simps)
qed

lemma eval_w_rpc_ok:
  assumes w: "worker_core meta (get_callback key_of db deliver h0 buf) = Inr sc0" "sc = sc0\<lparr>incoming_sessions := [sid \<mapsto> Some ()]\<rparr>"
    and g: "get_impl db key = Inr (Some v)" "key_of (word_of key) = key" and buf: "length buf = 64"
    and c: "unat cor < 128" "idle st (unat cor)" "length sbuf = 64" "length rbuf = 8"
  shows "\<exists>st'. eval_w_rpc word_of (exchange sc sid) h0' sbuf rbuf cor key st = Inr (v, st') \<and>
    idle st' (unat cor) \<and> length st' = length st"
proof -
  have cb: "callbacks sc = [meta, get_callback key_of db deliver h0 buf]" "incoming_sessions sc sid = Some (Some ())"
    using w worker_core_callbacks [of meta "get_callback key_of db deliver h0 buf"] by auto
  have "\<exists>op. (callbacks sc ! GET) h (le_bytes 8 (word_of key)) (Some ()) [] = Inr [omsg (op_finalize op)] \<and>
      op_ok op (le_bytes 8 v) \<and> htype (oheader op) = Reply \<and> hcor_id (oheader op) = ucast cor"
    if "hcor_id h = ucast cor" for h
    using get_callback_ok [of db key_of "word_of key" v buf h0 h] g buf that by (simp add: cb(1) GET_def)
  then obtain st' where "call (exchange sc sid) h0' sbuf rbuf GET cor (word_of key) st =
      Inr (le_bytes 8 v @ drop (length (le_bytes 8 v)) rbuf, st')" "idle st' (unat cor)" "length st' = length st"
    using call_ok [of cor st sbuf sc sid GET "word_of key" "le_bytes 8 v" rbuf h0'] c cb(2) by (auto simp: cb(1) GET_def)
  moreover have "of_le_bytes (le_bytes 8 v) = v" by (rule of_le_bytes_full) simp
  ultimately show ?thesis by (simp add: eval_w_rpc_def del: le_bytes.simps of_le_bytes.simps)
qed

lemma meta_callback_ok:
  fixes model_buf tt_buf buf_end :: u64
  assumes d: "disp_serialize M d = Inr ds" "length ds = 32" and buf: "64 \<le> length buf" "64 \<le> limit" "length args = 8"
  defines "meta \<equiv> \<lparr>dispatcher_sz = 32, total_sz = ucast (buf_end - model_buf), meta_model_buf = model_buf, meta_tt_buf = tt_buf\<rparr>"
  shows "\<exists>op. meta_callback M limit (Some d) model_buf tt_buf buf_end deliver h0 buf h args (Some ()) [] =
      Inr [omsg (op_finalize op)] \<and>
    op_ok op (reply_meta_to_bytes meta @ ds) \<and> htype (oheader op) = Reply \<and> hcor_id (oheader op) = hcor_id h"
proof -
  obtain op where op: "set_msg buf (RPCOp h0) = Inr op" "op_ok op []" "omsg op = buf"
    using set_msg_ok [of buf "RPCOp h0"] buf(1) by auto
  have "op_ok (set_reply op) []" "8 + length ([] :: u8 list) + 24 \<le> length (omsg (set_reply op))"
    using op(2,3) buf(1) by (simp_all add: op_simps)
  then obtain op1 where op1: "add_arg reply_meta_to_bytes 24 meta (set_reply op) = (True, op1)"
    "op_ok op1 (reply_meta_to_bytes meta)" "length (omsg op1) = length buf" "oheader op1 = oheader (set_reply op)"
    using add_arg_ok [of "set_reply op" "[]" reply_meta_to_bytes meta 24] pod_meta.length_to_bytes op(3)
    by (auto simp: op_simps)
  obtain op2 where op2: "add_opaque ds op1 = (True, op2)" "op_ok op2 (reply_meta_to_bytes meta @ ds)"
    "oheader op2 = oheader op1"
    using add_opaque_ok [OF op1(2), of ds] op1(3) buf(1) d(2) pod_meta.length_to_bytes [of meta] by auto
  have "meta_callback M limit (Some d) model_buf tt_buf buf_end deliver h0 buf h args (Some ()) [] =
      Inr [omsg (op_finalize (set_corid (ucast (hcor_id h)) op2))]"
    using d op(1) op1(1) op2(1) buf(2,3)
    by (simp add: meta_callback_def meta_def sizeof_Header_def send_reply_deliver)
  moreover have "ucast (ucast (hcor_id h) :: u32) = hcor_id h" by (rule bit_word_eqI) (auto simp: bit_simps dest: bit_imp_le_length)
  ultimately show ?thesis using op2(2,3) op1(4)
    by (intro exI [of _ "set_corid (ucast (hcor_id h)) op2"]) (simp add: op_simps)
qed

lemma fetch_meta_ok:
  assumes w: "worker_core (meta_callback M limit (Some d) model_buf tt_buf buf_end deliver h0 buf) get = Inr sc0"
      "sc = sc0\<lparr>incoming_sessions := [sid \<mapsto> Some ()]\<rparr>"
    and d: "disp_serialize M d = Inr ds" "length ds = 32" and buf: "64 \<le> length buf" "64 \<le> limit"
    and c: "idle st 0" "16 \<le> length sbuf" "length rbuf = 1024"
  shows "\<exists>st'. fetch_meta (exchange sc sid) h0' sbuf rbuf st =
      Inr (\<lparr>dispatcher_sz = 32, total_sz = ucast (buf_end - model_buf), meta_model_buf = model_buf, meta_tt_buf = tt_buf\<rparr>, ds, st') \<and>
    idle st' 0 \<and> length st' = length st"
proof -
  let ?meta = "\<lparr>dispatcher_sz = 32, total_sz = ucast (buf_end - model_buf), meta_model_buf = model_buf, meta_tt_buf = tt_buf\<rparr>"
  let ?cb = "meta_callback M limit (Some d) model_buf tt_buf buf_end deliver h0 buf"
  let ?r = "reply_meta_to_bytes ?meta @ ds"
  have cb: "callbacks sc = [?cb, get]" "incoming_sessions sc sid = Some (Some ())"
    using w worker_core_callbacks [of ?cb get] by auto
  have "\<exists>op. (callbacks sc ! META) h (le_bytes 8 (73 :: u64)) (Some ()) [] = Inr [omsg (op_finalize op)] \<and>
      op_ok op ?r \<and> htype (oheader op) = Reply \<and> hcor_id (oheader op) = ucast (0 :: u32)"
    if "hcor_id h = ucast (0 :: u32)" for h
    using meta_callback_ok [OF d buf, of "le_bytes 8 (73 :: u64)" model_buf tt_buf buf_end h0 h] that by (simp add: cb(1) META_def)
  moreover have lr: "length ?r = 56" using d(2) pod_meta.length_to_bytes by simp
  ultimately obtain st' where st': "call (exchange sc sid) h0' sbuf rbuf META 0 73 st =
      Inr (?r @ drop (length ?r) rbuf, st')" "idle st' 0" "length st' = length st"
    using call_ok [of 0 st sbuf sc sid META 73 ?r rbuf h0'] c cb(2) by (auto simp: cb(1) META_def)
  have "deserialize 24 reply_meta_of_bytes (?r @ drop (length ?r) rbuf) 1024 = Inr ?meta"
    using pod_meta.deserialize_prefix [of 1024 ?meta "ds @ drop (length ?r) rbuf"] by simp
  moreover have "take 32 (drop 24 (?r @ drop (length ?r) rbuf)) = ds"
    using d(2) pod_meta.length_to_bytes [of ?meta] by simp
  ultimately show ?thesis using st' by (simp add: fetch_meta_def)
qed

end
