(* ===== verification/Batch.thy ===== *)
theory Batch
  imports XTreeSpec Marshal
begin

text \<open>
  Batched one-sided reads, \<^verbatim>\<open>BatchOp\<close> of \<^verbatim>\<open>xcomm/src/batch_rw_op.hh\<close>, and what a client reads of a
  leaf. The network card is a parameter \<open>rd\<close>: the bytes that a read of a size at an address of the
  server completes with, \<open>None\<close> when it completes with an error. The lemmas show that a batch
  reads exactly the requests that were added, in their order, and that a key is searched in the
  bytes of a leaf as it is in the leaf.
\<close>

type_synonym rdma = "addr \<Rightarrow> nat \<Rightarrow> u8 list option"

section \<open>Batches\<close>

text \<open>
  A request is an address and a size; its payload goes to the next chunk of the caller's buffer.
  \<open>get_cur_op\<close> indexes the array without a check, which is an error of the model when the index is
  out of range.
\<close>

record batch_op =
  ops :: "(addr \<times> nat) list"
  bcur_idx :: int

definition BatchOp :: "nat \<Rightarrow> batch_op" where
  "BatchOp N = \<lparr>ops = replicate N (0, 0), bcur_idx = -1\<rparr>"

definition emplace :: "batch_op \<Rightarrow> batch_op" where
  "emplace b = b\<lparr>bcur_idx := bcur_idx b + 1\<rparr>"

definition set_cur_op :: "batch_op \<Rightarrow> addr \<times> nat \<Rightarrow> batch_op res" where
  "set_cur_op b r =
     (if 0 \<le> bcur_idx b \<and> nat (bcur_idx b) < length (ops b)
      then Inr (b\<lparr>ops := (ops b)[nat (bcur_idx b) := r]\<rparr>) else Inl OutOfRange)"

definition batch_reset :: "batch_op \<Rightarrow> batch_op" where
  "batch_reset b = b\<lparr>bcur_idx := -1\<rparr>"

text \<open>The card follows the chain from the first request to the current one, whose link is cut.\<close>

fun read_chain :: "rdma \<Rightarrow> (addr \<times> nat) list \<Rightarrow> u8 list list option" where
  "read_chain rd [] = Some []"
| "read_chain rd ((a, n) # rs) =
     (case rd a n of None \<Rightarrow> None | Some bs \<Rightarrow> map_option (\<lambda>bss. bs # bss) (read_chain rd rs))"

definition batch_execute :: "rdma \<Rightarrow> batch_op \<Rightarrow> (u8 list list option \<times> batch_op) res" where
  "batch_execute rd b =
     (if bcur_idx b < 0 then Inr (Some [], b)
      else rbind (cassert (bcur_idx b < int (length (ops b)))) (\<lambda>_.
           Inr (read_chain rd (take (nat (bcur_idx b) + 1) (ops b)), batch_reset b)))"

section \<open>A batch reads what was added\<close>

text \<open>\<open>rs\<close> are the requests added since the batch was made or reset.\<close>

definition batch_holds :: "nat \<Rightarrow> batch_op \<Rightarrow> (addr \<times> nat) list \<Rightarrow> bool" where
  "batch_holds N b rs \<longleftrightarrow> length (ops b) = N \<and> bcur_idx b = int (length rs) - 1 \<and> length rs \<le> N \<and>
     take (length rs) (ops b) = rs"

lemma batch_holds_init: "batch_holds N (BatchOp N) []"
  by (simp add: batch_holds_def BatchOp_def)

lemma batch_holds_add:
  assumes "batch_holds N b rs" and "length rs < N"
  shows "\<exists>b'. set_cur_op (emplace b) r = Inr b' \<and> batch_holds N b' (rs @ [r])"
  using assms by (simp add: batch_holds_def set_cur_op_def emplace_def take_list_update_snoc)

lemma batch_holds_full: "batch_holds N b rs \<Longrightarrow> length rs = N \<Longrightarrow> set_cur_op (emplace b) r = Inl OutOfRange"
  by (simp add: batch_holds_def set_cur_op_def emplace_def)

lemma batch_holds_execute:
  assumes "batch_holds N b rs"
  shows "\<exists>b'. batch_execute rd b = Inr (read_chain rd rs, b') \<and> batch_holds N b' []"
proof (cases "rs = []")
  case True
  then show ?thesis using assms by (simp add: batch_holds_def batch_execute_def)
next
  case False
  then have "nat (int (length rs) - 1) + 1 = length rs" "0 \<le> int (length rs) - 1"
    by (cases rs; simp)+
  then show ?thesis using assms by (simp add: batch_holds_def batch_execute_def batch_reset_def)
qed

lemma batch_holds_reset: "batch_holds N b rs \<Longrightarrow> batch_holds N (batch_reset b) []"
  by (simp add: batch_holds_def batch_reset_def)

lemma read_chain_Some: "(\<And>a n. (a, n) \<in> set rs \<Longrightarrow> rd a n = Some (f a n)) \<Longrightarrow> read_chain rd rs = Some (map (\<lambda>(a, n). f a n) rs)"
  by (induction rs) auto

section \<open>Leaves as bytes\<close>

text \<open>
  The client casts what it read to a leaf. A key is a struct of one 64-bit word; \<open>key_of\<close> makes the
  key from the word and \<open>word_of\<close> gives the word.
\<close>

definition buf_keys :: "(u64 \<Rightarrow> 'k) \<Rightarrow> nat \<Rightarrow> u8 list \<Rightarrow> 'k xnode_keys" where
  "buf_keys key_of N bs = \<lparr>keys = map (\<lambda>i. key_of (of_le_bytes (take 8 (drop (8 * i) bs)))) [0..<N],
     incarnation = of_le_bytes (take 2 (drop (8 * N) bs))\<rparr>"

definition buf_search :: "(u64 \<Rightarrow> 'k) \<Rightarrow> nat \<Rightarrow> u8 list \<Rightarrow> 'k \<Rightarrow> nat option" where
  "buf_search key_of N bs key = keys_search (buf_keys key_of N bs) key"

text \<open>The value at a slot of a leaf of 8-byte values.\<close>

definition buf_value :: "nat \<Rightarrow> u8 list \<Rightarrow> nat \<Rightarrow> u64" where
  "buf_value N bs idx = of_le_bytes (take 8 (drop (value_offset N 8 8 idx) bs))"

text \<open>What the memory of the server holds for the keys of a leaf, \<open>node_keys_bytes\<close>, and for its values.\<close>

definition node_keys_bytes :: "('k \<Rightarrow> u64) \<Rightarrow> 'k xnode_keys \<Rightarrow> u8 list" where
  "node_keys_bytes word_of nk = concat (map (\<lambda>k. le_bytes 8 (word_of k)) (keys nk)) @ le_bytes 2 (incarnation nk)"

lemma drop_concat_le_bytes:
  "i < length ks \<Longrightarrow> take 8 (drop (8 * i) (concat (map (\<lambda>k. le_bytes 8 (f k)) ks) @ r)) = le_bytes 8 (f (ks ! i))"
proof (induction ks arbitrary: i)
  case (Cons k ks)
  then show ?case by (cases i) (simp_all del: le_bytes.simps)
qed simp

lemma length_keys_bytes: "length (node_keys_bytes word_of nk) = 8 * length (keys nk) + 2"
proof -
  have "length (concat (map (\<lambda>k. le_bytes 8 (word_of k)) ks)) = 8 * length ks" for ks
    by (induction ks) (simp_all del: le_bytes.simps)
  then show ?thesis by (simp add: node_keys_bytes_def del: le_bytes.simps)
qed

lemma buf_keys_image:
  assumes "\<And>k. key_of (word_of k) = k"
  shows "buf_keys key_of (length (keys nk)) (node_keys_bytes word_of nk @ r) = nk"
proof -
  have "map (\<lambda>i. key_of (of_le_bytes (take 8 (drop (8 * i) (node_keys_bytes word_of nk @ r))))) [0..<length (keys nk)] =
      map (\<lambda>i. keys nk ! i) [0..<length (keys nk)]"
    unfolding node_keys_bytes_def append_assoc
    by (intro map_cong refl) (subst drop_concat_le_bytes, simp, simp only: of_le_bytes_full len_of_numeral_defs assms)
  moreover have "drop (8 * length (keys nk)) (node_keys_bytes word_of nk @ r) = le_bytes 2 (incarnation nk) @ r"
    using length_keys_bytes [of word_of nk] by (simp add: node_keys_bytes_def del: le_bytes.simps)
  ultimately show ?thesis
    by (simp add: buf_keys_def map_nth of_le_bytes_full del: le_bytes.simps of_le_bytes.simps)
qed

text \<open>Then a search in the bytes is a search in the leaf.\<close>

lemma buf_search_image:
  assumes "\<And>k. key_of (word_of k) = k" and "length (keys (xkeys n)) = N"
  shows "buf_search key_of N (node_keys_bytes word_of (xkeys n) @ r) key = node_search n key"
  using buf_keys_image [of key_of word_of "xkeys n" r, OF assms(1)] assms(2)
  by (simp add: buf_search_def node_search_def)

end
