(* ===== verification/YcsbClient.thy ===== *)
theory YcsbClient
  imports YcsbDB YcsbRpc Batch
begin

text \<open>
  The YCSB client (\<^verbatim>\<open>benchs/ycsb/client.cc\<close> and \<^verbatim>\<open>eval_c.hh\<close>): it fetches the trained cache and
  the translation tables from the memory of the server, and answers a lookup by predicting pages,
  reading their leaves with one-sided reads, searching the bytes and reading the value; when too many
  pages are predicted it asks the server. The clock, the network card (\<open>rd\<close>) and the transport
  with the scheduler (\<open>exec\<close>) are parameters.

  The lemmas show that a lookup gives the value the server's tree holds, and what the client's parser
  makes of the server's image.
\<close>

section \<open>Statistics\<close>

record statics =
  counter :: u64
  counter1 :: u64
  counter2 :: u64
  counter3 :: u64
  lat :: real
  lat1 :: real

definition Statics :: statics where
  "Statics = \<lparr>counter = 0, counter1 = 0, counter2 = 0, counter3 = 0, lat = 0, lat1 = 0\<rparr>"

definition increment :: "statics \<Rightarrow> statics" where
  "increment s = s\<lparr>counter := counter s + 1\<rparr>"

definition increment_gap_1 :: "statics \<Rightarrow> u64 \<Rightarrow> statics" where
  "increment_gap_1 s d = s\<lparr>counter1 := counter1 s + d\<rparr>"

definition set_lat :: "statics \<Rightarrow> real \<Rightarrow> statics" where
  "set_lat s l = s\<lparr>lat := l\<rparr>"

section \<open>Fetching the cache\<close>

text \<open>The position \<open>cur\<close> in the fetched buffer is \<^verbatim>\<open>cur_ptr - xcache_buf\<close>.\<close>

definition view :: "u8 list \<Rightarrow> nat \<Rightarrow> nat \<Rightarrow> u8 list res" where
  "view buf cur n = (if cur + n \<le> length buf then Inr (take n (drop cur buf)) else Inl OutOfRange)"

definition parse_submodels :: "('s, 'k) ml_ops \<Rightarrow> nat \<Rightarrow> u8 list \<Rightarrow> ('m, 's, 'w::len word) two_rmi
    \<Rightarrow> (('m, 's, 'w word) two_rmi \<times> nat) res" where
  "parse_submodels M2 submodel_sz buf c =
     foldl (\<lambda>acc i. rbind acc (\<lambda>(c, cur).
         rbind (view buf cur submodel_sz) (\<lambda>s.
         rbind (emplace_one_second_model M2 c s) (\<lambda>c'. Inr (c', cur + submodel_sz)))))
       (Inr (c, 0)) [0..<unat (dispatch_num (first_layer c))]"

definition parse_tables :: "nat \<Rightarrow> u8 list \<Rightarrow> nat \<Rightarrow> (tt list \<times> nat) res" where
  "parse_tables n buf cur =
     foldl (\<lambda>acc i. rbind acc (\<lambda>(tabs, cur).
         rbind (deserialize 4 of_le_bytes (drop cur buf) 8) (\<lambda>tt_n :: u32.
         rbind (view buf cur (4 + unat tt_n * 8)) (\<lambda>s.
         rbind (tt_from_serialize TT s) (\<lambda>t.
         let tabs' = tabs @ [t] in Inr (tabs', cur + tt_sz (tabs' ! i)))))))
       (Inr ([], cur)) [0..<n]"

text \<open>
  \<open>realign\<close> is what distinguishes the client of the second server: it continues at the offset of
  \<^verbatim>\<open>tt_buf\<close> after the submodels.
\<close>

definition bootstrap :: "bool \<Rightarrow> ('m, 'k) ml_ops \<Rightarrow> ('s, 'k) ml_ops \<Rightarrow> exec \<Rightarrow> rdma \<Rightarrow> header \<Rightarrow> u8 list \<Rightarrow> u8 list
    \<Rightarrow> reply_station \<Rightarrow> (('m, 's, 'w::len word) two_rmi \<times> tt list \<times> reply_station) res" where
  "bootstrap realign M M2 exec rd h0 sbuf rbuf st =
     rbind (fetch_meta exec h0 sbuf rbuf st) (\<lambda>(meta, d, st').
     rbind (LocalTwoRMI_from M d) (\<lambda>c.
     let r = rd (meta_model_buf meta) (unat (total_sz meta)) in
     rbind (cassert (r \<noteq> None)) (\<lambda>_.
     let buf = the r in
     rbind (xsub_serialize (ml_serialize M2) (XSubModel (ml_init M2))) (\<lambda>sub.
     rbind (cassert (length (second_layer c) = 0)) (\<lambda>_.
     rbind (parse_submodels M2 (length sub) buf c) (\<lambda>(c', cur).
     let cur' = (if realign then unat (meta_tt_buf meta - meta_model_buf meta) else cur) in
     rbind (parse_tables (unat (dispatch_num (first_layer c'))) buf cur') (\<lambda>(tabs, _).
     Inr (c', tabs, st'))))))))"

section \<open>A lookup\<close>

record client =
  cstation :: reply_station
  cstat :: statics
  cerrors :: "int cdf"

text \<open>The quotients are of the unsigned \<^verbatim>\<open>usize\<close>, then cut to an \<^verbatim>\<open>int\<close>; \<open>ns\<close> and \<open>ne\<close> are the first and the last page.\<close>

definition page_range :: "'w::len itself \<Rightarrow> nat \<Rightarrow> tt \<Rightarrow> int \<times> int \<Rightarrow> int \<times> int" where
  "page_range _ N tab r =
     (max (to_i32 (uint ((of_int (fst r) :: 'w word) div of_nat N))) 0,
      min (to_i32 (int (tt_size tab) - 1)) (to_i32 (uint ((of_int (snd r) :: 'w word) div of_nat N))))"

definition fetch_pages :: "(nat \<Rightarrow> addr res) \<Rightarrow> nat \<Rightarrow> int list \<Rightarrow> batch_op \<Rightarrow> batch_op res" where
  "fetch_pages addr_of read_sz ps b =
     foldl (\<lambda>acc p. rbind acc (\<lambda>b.
         rbind (addr_of (nat p)) (\<lambda>a. set_cur_op (emplace b) (a, read_sz)))) (Inr b) ps"

text \<open>The first page whose bytes hold the key, with the slot.\<close>

fun find_page :: "(u8 list \<Rightarrow> nat option) \<Rightarrow> (int \<times> u8 list) list \<Rightarrow> (int \<times> u8 list \<times> nat) option" where
  "find_page search [] = None"
| "find_page search ((p, buf) # pbs) =
     (case search buf of Some idx \<Rightarrow> Some (p, buf, idx) | None \<Rightarrow> find_page search pbs)"

definition read_value :: "(u64 \<Rightarrow> 'k) \<Rightarrow> nat \<Rightarrow> int \<Rightarrow> rdma \<Rightarrow> tt \<Rightarrow> 'k \<Rightarrow> (int \<times> u8 list) list \<Rightarrow> u64 res" where
  "read_value key_of N len rd tab key pbs =
     (case find_page (\<lambda>buf. buf_search key_of N buf key) pbs of
        None \<Rightarrow> Inl AssertFail
      | Some (p, _, idx) \<Rightarrow>
          rbind (get_wo_incar tab (nat p)) (\<lambda>a.
          let r = rd (a + of_nat (value_offset N 8 8 idx)) (nat (max len 8)) in
          rbind (cassert (r \<noteq> None)) (\<lambda>_. Inr (of_le_bytes (take 8 (the r))))))"

definition record_error :: "(real \<Rightarrow> real) \<Rightarrow> 'w::len itself \<Rightarrow> bool \<Rightarrow> int \<times> int \<Rightarrow> client \<Rightarrow> client" where
  "record_error rnd _ logs r cl =
     (if logs then cl\<lparr>cerrors := cdf_insert rnd real_of_int (cerrors cl) (uint (of_int (snd r - fst r) :: 'w word))\<rparr> else cl)"

definition core_eval :: "(real \<Rightarrow> real) \<Rightarrow> ('m, 'k) ml_ops \<Rightarrow> ('s, 'k) ml_ops \<Rightarrow> (u64 \<Rightarrow> 'k) \<Rightarrow> nat \<Rightarrow> int \<Rightarrow> bool
    \<Rightarrow> rdma \<Rightarrow> ('k \<Rightarrow> reply_station \<Rightarrow> (u64 \<times> reply_station) res)
    \<Rightarrow> ('m, 's, 'w::len word) two_rmi \<Rightarrow> tt list \<Rightarrow> 'k \<Rightarrow> client \<Rightarrow> (u64 \<times> client) res" where
  "core_eval rnd M M2 key_of N len logs rd rpc c tabs key cl =
     rbind (select_sec_model rnd M c key) (\<lambda>m.
     rbind (rmi_predict_range rnd M M2 c key) (\<lambda>range.
     if unat m \<ge> length tabs then Inl OutOfRange else
     let tab = tabs ! unat m;
         (ns, ne) = page_range TYPE('w) N tab range;
         cl1 = record_error rnd TYPE('w) logs range cl
     in if (of_int (ne - ns + 1) :: 'w word) > 10
        then rbind (rpc key (cstation cl1)) (\<lambda>(v, st).
             Inr (v, cl1\<lparr>cstation := st, cstat := increment_gap_1 (cstat cl1) 1\<rparr>))
        else
          rbind (fetch_pages (get_wo_incar tab) (value_start_offset N 8) [ns..ne] (BatchOp 10)) (\<lambda>b.
          rbind (batch_execute rd b) (\<lambda>(r, _).
          rbind (cassert (r \<noteq> None)) (\<lambda>_.
          rbind (read_value key_of N len rd tab key (zip [ns..ne] (the r))) (\<lambda>v. Inr (v, cl1)))))))"

text \<open>
  The lookup for variable-length values. It reads whole leaves at \<^verbatim>\<open>tts.at(m)[p]\<close>, without removing the
  incarnation from the entry; the value overwrites the start of the buffer the leaves were read to.
\<close>

definition quot16 :: "int \<Rightarrow> int" where
  "quot16 x = (if 0 \<le> x then x div 16 else - (- x div 16))"

definition core_eval_v :: "(real \<Rightarrow> real) \<Rightarrow> ('m, 'k) ml_ops \<Rightarrow> ('s, 'k) ml_ops \<Rightarrow> (u64 \<Rightarrow> 'k) \<Rightarrow> nat \<Rightarrow> int
    \<Rightarrow> rdma \<Rightarrow> ('m, 's, 'w::len word) two_rmi \<Rightarrow> tt list \<Rightarrow> 'k \<Rightarrow> u64 res" where
  "core_eval_v rnd M M2 key_of N len rd c tabs key =
     rbind (select_sec_model rnd M c key) (\<lambda>m.
     rbind (rmi_predict_range rnd M M2 c key) (\<lambda>range.
     if unat m \<ge> length tabs then Inl OutOfRange else
     let tab = tabs ! unat m;
         ns = max (quot16 (fst range)) 0;
         ne = min (quot16 (snd range)) (to_i32 (int (tt_size tab) - 1))
     in rbind (fetch_pages (tt_at tab) (inplace_value_end_offset N 8 8) [ns..ne] (BatchOp 16)) (\<lambda>b.
        rbind (batch_execute rd b) (\<lambda>(r, _).
        rbind (cassert (r \<noteq> None)) (\<lambda>_.
        case find_page (\<lambda>buf. buf_search key_of N buf key) (zip [ns..ne] (the r)) of
          None \<Rightarrow> Inl AssertFail
        | Some (p, buf, idx) \<Rightarrow>
            let val_addr = FatPtr (buf_value N buf idx) in
            rbind (cassert (get_sz val_addr = of_int len)) (\<lambda>_.
            let v = rd (get_ptr val_addr) (unat (get_sz val_addr)) in
            rbind (cassert (v \<noteq> None)) (\<lambda>_.
            Inr (of_le_bytes (take 8 (the v @ drop (length (the v)) (concat (the r)))))))))))) "

section \<open>Pages\<close>

lemma fetch_pages_ok:
  assumes "batch_holds B b rs" and "length rs + length ps \<le> B" and "\<And>p. p \<in> set ps \<Longrightarrow> addr_of (nat p) = Inr (A p)"
  shows "\<exists>b'. fetch_pages addr_of sz ps b = Inr b' \<and> batch_holds B b' (rs @ map (\<lambda>p. (A p, sz)) ps)"
  using assms
proof (induction ps arbitrary: b rs)
  case (Cons p ps)
  obtain b1 where "set_cur_op (emplace b) (A p, sz) = Inr b1" "batch_holds B b1 (rs @ [(A p, sz)])"
    using batch_holds_add [OF Cons.prems(1)] Cons.prems(2) by auto
  then show ?case using Cons.IH [of b1 "rs @ [(A p, sz)]"] Cons.prems(2,3) by (simp add: fetch_pages_def)
qed (simp add: fetch_pages_def)

lemma find_page_Some:
  "find_page f pbs = Some (p, buf, idx) \<Longrightarrow> (p, buf) \<in> set pbs \<and> f buf = Some idx"
  by (induction f pbs rule: find_page.induct) (auto split: option.splits)

lemma find_page_None: "find_page f pbs = None \<longleftrightarrow> (\<forall>(p, buf)\<in>set pbs. f buf = None)"
  by (induction f pbs rule: find_page.induct) (auto split: option.splits)

text \<open>Leaves hold disjoint keys, so whatever leaf holds a key gives the value of the tree.\<close>

lemma leaf_value:
  fixes t :: "('k::{linorder,order_bot,order_top}, 'v) xtree"
  assumes t: "xtree_inv N t" "root t \<noteq> NullPtr" and a: "a \<in> set (tree_leaves t)"
    and k: "leaf_map (leafs t) a k = Some v"
  shows "xtree_map t k = Some v"
proof -
  have d: "k \<in> dom (leaf_map (leafs t) a)" using k by blast
  moreover have "dom (leaf_map (leafs t) a) \<subseteq> dom (xtree_map t)"
    unfolding xtree_map_def by (rule leaf_map_subset [OF a])
  ultimately have "k \<noteq> top" using tree_key_less_top [OF t(1)] by blast
  then obtain b as1 as2 where b: "tree_leaves t = as1 @ b # as2"
    "\<forall>x\<in>dom (leaves_map (leafs t) as1). x < k" "\<forall>x\<in>dom (leaves_map (leafs t) as2). k < x"
    using find_leaf_at [OF t] by blast
  have out: "k \<notin> dom (leaves_map (leafs t) as1)" "k \<notin> dom (leaves_map (leafs t) as2)"
    using b(2,3) less_irrefl by (metis (lifting))+
  have "a \<notin> set as1" using d out(1) leaf_map_subset [of a as1 "leafs t"] by (metis subsetD)
  moreover have "a \<notin> set as2" using d out(2) leaf_map_subset [of a as2 "leafs t"] by (metis subsetD)
  ultimately have "a = b" using a b(1) by simp
  moreover have "leaves_map (leafs t) as1 k = None" "leaves_map (leafs t) as2 k = None"
    using out by (simp_all add: domIff)
  ultimately show ?thesis using k unfolding xtree_map_def b(1) leaves_map_append leaves_map.simps
    by (simp only: map_add_def option.simps)
qed

section \<open>The memory of the server\<close>

text \<open>
  \<open>serves\<close>: reads of the registered memory give the leaves of the tree as they are laid out, a value
  being followed by whatever comes behind it. \<open>vsz\<close> is the size the client reads for a value.
\<close>

definition serves :: "rdma \<Rightarrow> ('k \<Rightarrow> u64) \<Rightarrow> nat \<Rightarrow> nat \<Rightarrow> ('k::order_top, u64) xtree \<Rightarrow> bool" where
  "serves rd word_of N vsz t \<longleftrightarrow> (\<forall>a\<in>set (tree_leaves t). \<forall>n. leafs t a = Some n \<longrightarrow>
     rd a (value_start_offset N 8) = Some (node_keys_bytes word_of (xkeys n)) \<and>
     (\<forall>i<N. \<forall>v. val_at n i = Some v \<longrightarrow>
        (\<exists>r. rd (a + of_nat (value_offset N 8 8 i)) vsz = Some (le_bytes 8 v @ r))))"

text \<open>Reading pages that the table names gives the leaves, and searching their bytes is searching the leaves.\<close>

lemma read_pages_ok:
  fixes t :: "('k::{linorder,order_bot,order_top}, u64) xtree"
  assumes t: "xtree_inv N t" "root t \<noteq> NullPtr" and kw: "\<And>k. key_of (word_of k) = k"
    and rd: "serves rd word_of N vsz t"
    and ps: "\<And>p. p \<in> set ps \<Longrightarrow> A p \<in> set (tree_leaves t)"
  shows "read_chain rd (map (\<lambda>p. (A p, value_start_offset N 8)) ps) =
      Some (map (\<lambda>p. the (rd (A p) (value_start_offset N 8))) ps)"
    and "p \<in> set ps \<Longrightarrow> \<exists>n. leafs t (A p) = Some n \<and> node_ok N n \<and>
      buf_search key_of N (the (rd (A p) (value_start_offset N 8))) key = node_search n key"
proof -
  let ?sz = "value_start_offset N 8"
  have leaf: "\<exists>n. leafs t (A p) = Some n \<and> node_ok N n \<and> rd (A p) ?sz = Some (node_keys_bytes word_of (xkeys n)) \<and>
      buf_search key_of N (the (rd (A p) ?sz)) key = node_search n key" if p: "p \<in> set ps" for p
  proof -
    obtain n where n: "leafs t (A p) = Some n" "node_ok N n"
      using good_leaves [OF t, of "A p"] ps [OF p] by (auto simp: good_leaf_def)
    have r: "rd (A p) ?sz = Some (node_keys_bytes word_of (xkeys n))" using rd n(1) ps [OF p] by (simp add: serves_def)
    then show ?thesis using n buf_search_image [of key_of word_of n N "[]" key, OF kw node_okD(1) [OF n(2)]] by simp
  qed
  have "rd a n = Some (the (rd a n))" if "(a, n) \<in> set (map (\<lambda>p. (A p, ?sz)) ps)" for a n
    using that leaf by fastforce
  then have "read_chain rd (map (\<lambda>p. (A p, ?sz)) ps) = Some (map (\<lambda>(a, n). the (rd a n)) (map (\<lambda>p. (A p, ?sz)) ps))"
    by (rule read_chain_Some)
  then show "read_chain rd (map (\<lambda>p. (A p, ?sz)) ps) = Some (map (\<lambda>p. the (rd (A p) ?sz)) ps)" by (simp add: comp_def)
  show "p \<in> set ps \<Longrightarrow> \<exists>n. leafs t (A p) = Some n \<and> node_ok N n \<and> buf_search key_of N (the (rd (A p) ?sz)) key = node_search n key"
    using leaf by blast
qed

lemma node_search_Some:
  assumes "node_search n k = Some idx" and "node_ok N n" and "k \<noteq> top"
  shows "idx < N \<and> (\<exists>v. val_at n idx = Some v \<and> node_map n k = Some v)"
proof -
  have idx: "idx < N" "get_key n idx = k" using assms(1,2) keys_search_Some [of "xkeys n" k idx] node_okD(1) [OF assms(2)]
    by (simp_all add: node_search_def)
  then obtain v where "val_at n idx = Some v" using node_okD(3) [OF assms(2), of idx] assms(3) by auto
  then show ?thesis using assms(1,3) idx(1) by (simp add: node_map_def)
qed

text \<open>When one of them holds the key, the lookup finds the value of the tree.\<close>

lemma read_value_ok:
  fixes t :: "('k::{linorder,order_bot,order_top}, u64) xtree"
  assumes t: "xtree_inv N t" "root t \<noteq> NullPtr" and kw: "\<And>k. key_of (word_of k) = k"
    and rd: "serves rd word_of N (nat (max len 8)) t"
    and ps: "\<And>p. p \<in> set ps \<Longrightarrow> get_wo_incar tab (nat p) = Inr (A p) \<and> A p \<in> set (tree_leaves t)"
    and hit: "p0 \<in> set ps" "key \<in> dom (leaf_map (leafs t) (A p0))"
  shows "\<exists>v. read_value key_of N len rd tab key (zip ps (map (\<lambda>p. the (rd (A p) (value_start_offset N 8))) ps)) = Inr v \<and>
    xtree_map t key = Some v"
proof -
  let ?sz = "value_start_offset N 8"
  let ?B = "\<lambda>p. the (rd (A p) ?sz)"
  have ps': "A p \<in> set (tree_leaves t)" if "p \<in> set ps" for p using ps [OF that] by blast
  have leaf: "\<exists>n. leafs t (A p) = Some n \<and> node_ok N n \<and> buf_search key_of N (?B p) key = node_search n key" if "p \<in> set ps" for p
    using read_pages_ok(2) [where A = A, OF t kw rd ps' that] by blast
  have ktop: "key \<noteq> top"
    using tree_key_less_top [OF t(1)] leaf_map_subset [of "A p0" "tree_leaves t" "leafs t"] ps [OF hit(1)] hit(2)
    unfolding xtree_map_def by blast
  have zs: "zip ps (map ?B ps) = map (\<lambda>p. (p, ?B p)) ps" by (simp add: zip_map2 zip_same_conv_map)
  obtain n0 where n0: "leafs t (A p0) = Some n0" "buf_search key_of N (?B p0) key = node_search n0 key"
    using leaf [OF hit(1)] by blast
  have "node_search n0 key \<noteq> None" using hit(2) n0(1) by (auto simp: leaf_map_def node_map_def split: option.splits)
  then have "find_page (\<lambda>buf. buf_search key_of N buf key) (zip ps (map ?B ps)) \<noteq> None"
    unfolding find_page_None zs using hit(1) n0(2) by force
  then obtain p buf idx where f: "find_page (\<lambda>buf. buf_search key_of N buf key) (zip ps (map ?B ps)) = Some (p, buf, idx)"
    by (metis prod_cases3 option.exhaust)
  then have p: "p \<in> set ps" "buf_search key_of N (?B p) key = Some idx" using find_page_Some [OF f] unfolding zs by auto
  obtain n where n: "leafs t (A p) = Some n" "node_ok N n" "node_search n key = Some idx" using leaf [OF p(1)] p(2) by auto
  obtain v where v: "idx < N" "val_at n idx = Some v" "node_map n key = Some v" using node_search_Some [OF n(3,2) ktop] by blast
  have nm: "leaf_map (leafs t) (A p) key = Some v" using n(1) v(3) by (simp add: leaf_map_def)
  obtain r where "rd (A p + of_nat (value_offset N 8 8 idx)) (nat (max len 8)) = Some (le_bytes 8 v @ r)"
    using rd ps [OF p(1)] n(1) v(1,2) unfolding serves_def by blast
  moreover have "of_le_bytes (le_bytes 8 v) = v" by (rule of_le_bytes_full) simp
  ultimately have "read_value key_of N len rd tab key (zip ps (map ?B ps)) = Inr v"
    using ps [OF p(1)] by (simp add: read_value_def f del: le_bytes.simps of_le_bytes.simps)
  moreover have "xtree_map t key = Some v" using leaf_value [OF t _ nm] ps [OF p(1)] by simp
  ultimately show ?thesis by blast
qed

text \<open>When none does, the client gives up.\<close>

lemma read_value_miss:
  fixes t :: "('k::{linorder,order_bot,order_top}, u64) xtree"
  assumes t: "xtree_inv N t" "root t \<noteq> NullPtr" and kw: "\<And>k. key_of (word_of k) = k"
    and rd: "serves rd word_of N vsz t" and key: "key \<noteq> top"
    and ps: "\<And>p. p \<in> set ps \<Longrightarrow> A p \<in> set (tree_leaves t)"
    and miss: "\<forall>p\<in>set ps. key \<notin> dom (leaf_map (leafs t) (A p))"
  shows "read_value key_of N len rd tab key (zip ps (map (\<lambda>p. the (rd (A p) (value_start_offset N 8))) ps)) = Inl AssertFail"
proof -
  let ?B = "\<lambda>p. the (rd (A p) (value_start_offset N 8))"
  have "buf_search key_of N (?B p) key = None" if p: "p \<in> set ps" for p
  proof -
    obtain n where n: "leafs t (A p) = Some n" "node_ok N n" "buf_search key_of N (?B p) key = node_search n key"
      using read_pages_ok(2) [where A = A, OF t kw rd ps p] by blast
    have "key \<notin> dom (node_map n)" using miss p n(1) by (auto simp: leaf_map_def)
    then have "node_search n key = None" using node_search_Some [OF _ n(2) key] by (cases "node_search n key") auto
    then show ?thesis using n(3) by simp
  qed
  moreover have "zip ps (map ?B ps) = map (\<lambda>p. (p, ?B p)) ps" by (simp add: zip_map2 zip_same_conv_map)
  ultimately have "find_page (\<lambda>buf. buf_search key_of N buf key) (zip ps (map ?B ps)) = None"
    unfolding find_page_None by auto
  then show ?thesis by (simp add: read_value_def)
qed

section \<open>A lookup finds what the tree holds\<close>

lemma predict_range_bounds:
  assumes "get_predict_range predict s k = Inr (lo, hi)"
  shows "lo < 2 ^ 31" and "hi < 2 ^ 31"
proof -
  obtain p where p: "lo = max 0 (to_i32 (p + err_min s))" "hi = min (smax s) (to_i32 (p + err_max s))"
    using assms by (auto simp: get_predict_range_def rbind_Inr_iff Let_def)
  have "to_i32 x < 2 ^ 31" for x using signed_take_bit_int_less_exp [of 31 x] by (simp add: to_i32_def)
  then show "lo < 2 ^ 31" "hi < 2 ^ 31" unfolding p by (simp_all add: min_less_iff_disj)
qed

lemma page_quot:
  assumes "0 \<le> x" and "x < 2 ^ 31" and "32 \<le> LENGTH('w::len)" and "0 < N" and "N < 2 ^ LENGTH('w)"
  shows "to_i32 (uint ((of_int x :: 'w word) div of_nat N)) = x div int N"
proof -
  have "(2 :: int) ^ 31 \<le> 2 ^ LENGTH('w)" using assms(3) by (intro power_increasing) simp_all
  then have "uint (of_int x :: 'w word) = x" using assms(1,2) by (simp add: unsigned_of_int take_bit_int_eq_self)
  moreover have "uint (of_nat N :: 'w word) = int N" using assms(5)
    by (simp add: unsigned_of_nat take_bit_nat_eq_self)
  ultimately have "uint ((of_int x :: 'w word) div of_nat N) = x div int N" by (simp add: uint_div)
  moreover have "0 \<le> x div int N" "x div int N \<le> x" using assms(1,4) zdiv_mono2 [of x 1 "int N"] by (simp_all add: pos_imp_zdiv_nonneg_iff)
  ultimately show ?thesis using assms(2) by (simp add: to_i32_id)
qed

text \<open>The pages a client reads for a key that is found: all in the table, one of them with the key.\<close>

lemma lookup_pages:
  fixes t :: "('k::{linorder,order_bot,order_top}, u64) xtree"
  assumes w: "walk_ok gen_f_default N t" and fnd: "found gen_f_default N t predict md tab key" and W: "32 \<le> LENGTH('w::len)"
    and sz: "tt_size tab \<le> 2 * length (tree_leaves t)"
    and ent: "\<forall>j<tt_size tab. \<exists>a\<in>set (tree_leaves t). get_wo_incar tab j = Inr (gen_f_default a)"
  shows "\<exists>r ns ne p0 A. get_predict_range predict md key = Inr r \<and> page_range TYPE('w) N tab r = (ns, ne) \<and>
    0 \<le> ns \<and> ne < int (tt_size tab) \<and> uint (of_int (ne - ns + 1) :: 'w word) = ne - ns + 1 \<and>
    (\<forall>p\<in>set [ns..ne]. get_wo_incar tab (nat p) = Inr (A p) \<and> A p \<in> set (tree_leaves t)) \<and>
    p0 \<in> set [ns..ne] \<and> key \<in> dom (leaf_map (leafs t) (A p0))"
proof -
  note D = walk_okD [OF w]
  obtain lo hi j a0 where f: "get_predict_range predict md key = Inr (lo, hi)" "0 \<le> lo" "lo div int N \<le> int j"
    "int j \<le> hi div int N" "j < tt_size tab" "get_wo_incar tab j = Inr a0" "key \<in> dom (leaf_map (leafs t) a0)"
    using fnd unfolding found_def gen_f_default_def by blast
  note lh = predict_range_bounds [OF f(1)]
  have hi: "0 \<le> hi" using f(4) D(3) by (metis of_nat_0_le_iff of_nat_0_less_iff order_trans pos_imp_zdiv_nonneg_iff)
  have len: "length (tree_leaves t) \<le> 2 ^ 30" "N \<le> 2 ^ 30" using walk_ok_small [OF w] by auto
  then have sz': "tt_size tab \<le> 2 ^ 31" using sz by simp
  have N: "N < 2 ^ LENGTH('w)" using len(2) power_increasing [OF W, of "2 :: nat"] by simp
  let ?ns = "lo div int N" and ?ne = "min (int (tt_size tab) - 1) (hi div int N)"
  have pr: "page_range TYPE('w) N tab (lo, hi) = (?ns, ?ne)"
    using f(2,5) sz' lh hi D(3) page_quot [OF f(2) lh(1) W D(3) N] page_quot [OF hi lh(2) W D(3) N]
    by (simp add: page_range_def to_i32_id pos_imp_zdiv_nonneg_iff)
  have j: "?ns \<le> int j" "int j \<le> ?ne" "0 \<le> ?ns" "?ne < int (tt_size tab)" using f(2-5) D(3) by (auto simp: pos_imp_zdiv_nonneg_iff)
  have n: "uint (of_int (?ne - ?ns + 1) :: 'w word) = ?ne - ?ns + 1"
  proof -
    have "(2 :: int) ^ 32 \<le> 2 ^ LENGTH('w)" using W by (intro power_increasing) simp_all
    moreover have "(2 :: int) ^ 31 + 1 \<le> 2 ^ 32" "int (tt_size tab) \<le> 2 ^ 31" using sz' by simp_all
    ultimately have "0 \<le> ?ne - ?ns + 1" "?ne - ?ns + 1 < 2 ^ LENGTH('w)" using j by linarith+
    then show ?thesis by (simp only: unsigned_of_int take_bit_int_eq_self)
  qed
  let ?A = "\<lambda>p. case get_wo_incar tab (nat p) of Inr a \<Rightarrow> a | Inl _ \<Rightarrow> 0"
  have A: "get_wo_incar tab (nat p) = Inr (?A p) \<and> ?A p \<in> set (tree_leaves t)" if "p \<in> set [?ns..?ne]" for p
  proof -
    have "nat p < tt_size tab" using that j(3) by auto
    then show ?thesis using ent unfolding gen_f_default_def by fastforce
  qed
  show ?thesis
  proof (rule exI [of _ "(lo, hi)"], rule exI [of _ ?ns], rule exI [of _ ?ne], rule exI [of _ "int j"], rule exI [of _ ?A], intro conjI)
    show "\<forall>p\<in>set [?ns..?ne]. get_wo_incar tab (nat p) = Inr (?A p) \<and> ?A p \<in> set (tree_leaves t)"
      by (rule ballI) (rule A)
    show "int j \<in> set [?ns..?ne]" "key \<in> dom (leaf_map (leafs t) (?A (int j)))" using j f(6,7) by simp_all
  qed (fact f(1) pr j(3,4) n)+
qed

text \<open>
  The cache may be older than the tree: it was trained over \<open>t0\<close>, whose leaves are still leaves of \<open>t\<close>. A
  lookup then gives the value of \<open>t\<close>, or the client gives up because the key has left its leaf.
\<close>

lemma core_eval_stale:
  fixes t t0 :: "('k::{linorder,order_bot,order_top}, u64) xtree" and c :: "('m, 's, 'w::len word) two_rmi"
  assumes w: "walk_ok gen_f_default N t0" and a: "answers rnd M M2 N t0 c tabs key" and W: "32 \<le> LENGTH('w)"
    and t: "xtree_inv N t" "root t \<noteq> NullPtr" "set (tree_leaves t0) \<subseteq> set (tree_leaves t)"
    and kw: "\<And>k. key_of (word_of k) = k" and rd: "serves rd word_of N (nat (max len 8)) t"
    and v: "xtree_map t key = Some v" and rpc: "\<exists>st'. rpc key (cstation cl) = Inr (v, st') \<and> P st'" and P: "P (cstation cl)"
  shows "(\<exists>cl'. core_eval rnd M M2 key_of N len logs rd rpc c tabs key cl = Inr (v, cl') \<and> P (cstation cl')) \<or>
    core_eval rnd M M2 key_of N len logs rd rpc c tabs key cl = Inl AssertFail \<and>
    (\<exists>a\<in>set (tree_leaves t0). key \<in> dom (leaf_map (leafs t0) a) \<and> key \<notin> dom (leaf_map (leafs t) a))"
proof -
  obtain m md where m: "select_sec_model rnd M c key = Inr m" "sub_deref c (unat m) = Inr md" "unat m < length tabs"
    "table_ok gen_f_default t0 (tabs ! unat m)" "found gen_f_default N t0 (ml_predict M2) md (tabs ! unat m) key"
    using a unfolding answers_def by blast
  let ?tab = "tabs ! unat m"
  obtain r ns ne p0 A where f: "get_predict_range (ml_predict M2) md key = Inr r" "page_range TYPE('w) N ?tab r = (ns, ne)"
    "0 \<le> ns" "ne < int (tt_size ?tab)" "uint (of_int (ne - ns + 1) :: 'w word) = ne - ns + 1"
    "p0 \<in> set [ns..ne]" "key \<in> dom (leaf_map (leafs t0) (A p0))"
    and A0: "\<And>p. p \<in> set [ns..ne] \<Longrightarrow> get_wo_incar ?tab (nat p) = Inr (A p) \<and> A p \<in> set (tree_leaves t0)"
    using lookup_pages [OF w m(5) W] m(4) unfolding table_ok_def by (metis mult_2 trans_le_add1)
  have A: "get_wo_incar ?tab (nat p) = Inr (A p) \<and> A p \<in> set (tree_leaves t)" "A p \<in> set (tree_leaves t)" if "p \<in> set [ns..ne]" for p
    using A0 [OF that] t(3) by auto
  let ?cl = "record_error rnd TYPE('w) logs r cl" and ?sz = "value_start_offset N 8"
  have st: "cstation ?cl = cstation cl" by (simp add: record_error_def)
  have range: "rmi_predict_range rnd M M2 c key = Inr r" using m(1,2) f(1) by (simp add: rmi_predict_range_def)
  show ?thesis
  proof (cases "(of_int (ne - ns + 1) :: 'w word) > 10")
    case True
    then show ?thesis using rpc m(1,3) by (auto simp: core_eval_def range f(2) st Let_def)
  next
    case False
    moreover have "take_bit LENGTH('w) (10 :: int) \<le> 10" by (simp add: take_bit_int_less_eq_self_iff)
    ultimately have "ne - ns + 1 \<le> 10" using f(5) by (simp add: word_less_def not_less)
    then have len: "length [ns..ne] \<le> 10" by simp
    obtain b where b: "fetch_pages (get_wo_incar ?tab) ?sz [ns..ne] (BatchOp 10) = Inr b"
      "batch_holds 10 b (map (\<lambda>p. (A p, ?sz)) [ns..ne])"
      using fetch_pages_ok [OF batch_holds_init, of "[ns..ne]" 10 "get_wo_incar ?tab" A ?sz] A(1) len by auto
    obtain b' where b': "batch_execute rd b = Inr (read_chain rd (map (\<lambda>p. (A p, ?sz)) [ns..ne]), b')"
      using batch_holds_execute [OF b(2)] by blast
    have chain: "read_chain rd (map (\<lambda>p. (A p, ?sz)) [ns..ne]) = Some (map (\<lambda>p. the (rd (A p) ?sz)) [ns..ne])"
      by (rule read_pages_ok(1) [where A = A, OF t(1,2) kw rd A(2)])
    let ?u = "read_value key_of N len rd ?tab key (zip [ns..ne] (map (\<lambda>p. the (rd (A p) ?sz)) [ns..ne]))"
    have run: "core_eval rnd M M2 key_of N len logs rd rpc c tabs key cl = rbind ?u (\<lambda>v. Inr (v, ?cl))"
      using m(1,3) False chain b(1) b' by (simp add: core_eval_def range f(2))
    show ?thesis
    proof (cases "\<exists>p\<in>set [ns..ne]. key \<in> dom (leaf_map (leafs t) (A p))")
      case True
      then obtain p where "p \<in> set [ns..ne]" "key \<in> dom (leaf_map (leafs t) (A p))" by blast
      from read_value_ok [where A = A and tab = ?tab, OF t(1,2) kw rd A(1) this] v have "?u = Inr v" by auto
      then show ?thesis using run P st by simp
    next
      case False
      have "key \<noteq> top" using tree_key_less_top [OF t(1), of key] v by blast
      with False have "?u = Inl AssertFail" using read_value_miss [where A = A, OF t(1,2) kw rd _ A(2)] by blast
      then show ?thesis using run f(6,7) A0 [OF f(6)] False by (metis rbind_simps(1))
    qed
  qed
qed

lemma core_eval_ok:
  fixes t :: "('k::{linorder,order_bot,order_top}, u64) xtree" and c :: "('m, 's, 'w::len word) two_rmi"
  assumes w: "walk_ok gen_f_default N t" and a: "answers rnd M M2 N t c tabs key" and W: "32 \<le> LENGTH('w)"
    and kw: "\<And>k. key_of (word_of k) = k" and rd: "serves rd word_of N (nat (max len 8)) t"
    and v: "xtree_map t key = Some v" and rpc: "\<exists>st'. rpc key (cstation cl) = Inr (v, st') \<and> P st'" and P: "P (cstation cl)"
  shows "\<exists>cl'. core_eval rnd M M2 key_of N len logs rd rpc c tabs key cl = Inr (v, cl') \<and> P (cstation cl')"
  using core_eval_stale [where P = P and logs = logs and rpc = rpc and cl = cl, OF w a W walk_okD(1,2) [OF w] order_refl [of "set (tree_leaves t)"] kw rd v rpc P] by blast

end
