(* ===== verification/Bootstrap.thy ===== *)
theory Bootstrap
  imports YcsbClient
begin

text \<open>
  What the client makes of the image the server writes: the submodels, then, from the next multiple of
  8 on, the tables (\<^verbatim>\<open>serialize_db\<close> of \<^verbatim>\<open>db.hh\<close> against the parser of \<^verbatim>\<open>client.cc\<close>). Both layers are
  linear models, so a submodel takes 36 bytes. The properties show that the client reads back exactly
  the cache and the tables, when it goes to the offset of the tables or the number of submodels is
  even, and what goes wrong otherwise; and that a lookup through a trained cache gives the tree's value.
\<close>

section \<open>Writing images one behind another\<close>

lemma put_images:
  assumes "\<And>x. x \<in> set xs \<Longrightarrow> f x = Inr (S x)" and "unat mb + length mem < 2 ^ 64" and "off < 2 ^ 64"
    and "foldl (\<lambda>acc x. rbind acc (\<lambda>cm. rbind (f x) (\<lambda>s. put_image mb be s cm))) (Inr (mb + of_nat off, mem)) xs = Inr (cur', mem')"
  shows "cur' = mb + of_nat (off + length (concat (map S xs))) \<and>
    (xs \<noteq> [] \<longrightarrow> off + length (concat (map S xs)) \<le> length mem) \<and>
    mem' = take off mem @ concat (map S xs) @ drop (off + length (concat (map S xs))) mem"
  using assms
proof (induction xs arbitrary: mem off)
  case (Cons x xs)
  let ?F = "\<lambda>acc x. rbind acc (\<lambda>cm. rbind (f x) (\<lambda>s. put_image mb be s cm))"
  have fail: "foldl ?F (Inl e) ys = Inl e" for e ys by (induction ys) simp_all
  have off: "unat (mb + of_nat off - mb) = off" using Cons.prems(3) by (simp add: unat_of_nat)
  have len: "off + length (S x) \<le> length mem"
    "put_image mb be (S x) (mb + of_nat off, mem) =
      Inr (mb + of_nat off + of_nat (length (S x)), take off mem @ S x @ drop (off + length (S x)) mem)"
    using Cons.prems(1,4) fail off
    by (auto simp: put_image_def Let_def rbind_def cassert_def split: if_splits)
  let ?mem = "take off mem @ S x @ drop (off + length (S x)) mem"
  have m: "length ?mem = length mem" using len(1) by simp
  have "foldl ?F (Inr (mb + of_nat (off + length (S x)), ?mem)) xs = Inr (cur', mem')"
    using Cons.prems(1,4) len(2) by (simp add: add.assoc)
  from Cons.IH [OF Cons.prems(1) _ _ this] show ?case using Cons.prems(2) len(1) m
    by (cases "xs = []") (simp_all add: add.assoc add.commute)
qed simp

lemma unat_add_of_nat:
  fixes a :: u64
  assumes "unat a + k < 2 ^ 64"
  shows "unat (a + of_nat k) = unat a + k"
proof -
  have "unat (of_nat k :: u64) = k" using assms by (simp only: unat_of_nat) (simp add: take_bit_nat_eq_self)
  then show ?thesis using assms by (simp only: unat_word_ariths) simp
qed

text \<open>Images that fit are written.\<close>

lemma put_images_fit:
  assumes "\<And>x. x \<in> set xs \<Longrightarrow> f x = Inr (S x)" and "unat mb + length mem < 2 ^ 64"
    and "off + length (concat (map S xs)) \<le> length mem" and "unat mb + off + length (concat (map S xs)) \<le> unat be"
  shows "\<exists>cur' mem'. foldl (\<lambda>acc x. rbind acc (\<lambda>cm. rbind (f x) (\<lambda>s. put_image mb be s cm)))
      (Inr (mb + of_nat off, mem)) xs = Inr (cur', mem') \<and> length mem' = length mem"
  using assms
proof (induction xs arbitrary: mem off)
  case (Cons x xs)
  let ?mem = "take off mem @ S x @ drop (off + length (S x)) mem"
  have len: "off + length (S x) \<le> length mem" "unat mb + off + length (S x) \<le> unat be" using Cons.prems(3,4) by simp_all
  have off: "unat (mb + of_nat off - mb) = off" using len(1) Cons.prems(2) by (simp add: unat_of_nat)
  have cur: "of_nat (length (S x)) + (mb + of_nat off) = mb + of_nat (off + length (S x))" by simp
  have "unat (mb + of_nat (off + length (S x))) = unat mb + (off + length (S x))"
    using len(1) Cons.prems(2) by (intro unat_add_of_nat) linarith
  then have "of_nat (length (S x)) + (mb + of_nat off) \<le> be" unfolding cur word_le_nat_alt using len(2) by simp
  then have "put_image mb be (S x) (mb + of_nat off, mem) = Inr (mb + of_nat (off + length (S x)), ?mem)"
    using len(1) off by (simp add: put_image_def add.assoc)
  moreover have m: "length ?mem = length mem" using len(1) by simp
  have "unat mb + length ?mem < 2 ^ 64" "off + length (S x) + length (concat (map S xs)) \<le> length ?mem"
    "unat mb + (off + length (S x)) + length (concat (map S xs)) \<le> unat be"
    unfolding m using Cons.prems(2-4) by simp_all
  from Cons.IH [OF Cons.prems(1) this] obtain cur' mem' where
    "foldl (\<lambda>acc x. rbind acc (\<lambda>cm. rbind (f x) (\<lambda>s. put_image mb be s cm)))
      (Inr (mb + of_nat (off + length (S x)), ?mem)) xs = Inr (cur', mem') \<and> length mem' = length mem"
    unfolding m by auto
  ultimately show ?case using Cons.prems(1) by auto
qed simp

text \<open>Rounding up to a multiple of 8.\<close>

lemma round_up_8:
  assumes "round_up num 8 = Inr r" and "unat num + 7 < 2 ^ 64"
  shows "unat r = (unat num + 7) div 8 * 8"
proof -
  have m: "(- 8 :: u64) = NOT (mask 3)" by (simp add: mask_eq_exp_minus_1)
  have "r = (num + 7) AND NOT (mask 3)"
    using assms(1) unfolding m [symmetric] by (simp add: round_up_def cassert_def add_diff_eq [symmetric] split: if_splits)
  also have "\<dots> = push_bit 3 (drop_bit 3 (num + 7))" by (rule bit_word_eqI) (auto simp: bit_simps)
  finally have r: "r = push_bit 3 (drop_bit 3 (num + 7))" .
  have n: "unat (num + 7) = unat num + 7" using assms(2) by (simp add: unat_word_ariths)
  have "unat r = (unat num + 7) div 8 * 8 mod 2 ^ 64"
    unfolding r by (simp only: unsigned_push_bit_eq unsigned_drop_bit_eq n)
      (use assms(2) in \<open>simp add: push_bit_eq_mult drop_bit_eq_div take_bit_eq_mod\<close>)
  moreover have "(unat num + 7) div 8 * 8 \<le> unat num + 7" by simp
  ultimately show ?thesis using assms(2) by simp
qed

section \<open>Parsing\<close>

text \<open>A submodel whose bounds are in range, as the trainer makes them.\<close>

lemma xsub_image_bounds:
  assumes "page_eb.bounds_ok md"
  shows "\<exists>d. xsub_serialize lr_serialize md = Inr d \<and> length d = 36 \<and>
    xsub_from_serialize lr_serialize lr_from_serialize m0 d = Inr md"
  using xsub_image [of md m0] assms by (auto simp: page_eb.bounds_ok_def)

lemma parse_submodels_ok:
  fixes c :: "('m, lr, 'w::len word) two_rmi"
  assumes n: "unat (dispatch_num (first_layer c)) = length mds" and c: "second_layer c = []"
    and S: "\<And>md. md \<in> set mds \<Longrightarrow> xsub_serialize lr_serialize md = Inr (S md) \<and> length (S md) = sz \<and>
      xsub_from_serialize lr_serialize lr_from_serialize LR (S md) = Inr md"
    and b: "take (length (concat (map S mds))) buf = concat (map S mds)"
  shows "parse_submodels (lr_ops dgels dval rnd to_scalar feature0) sz buf c =
    Inr (c\<lparr>second_layer := map Some mds\<rparr>, length mds * sz)"
proof -
  let ?M = "lr_ops dgels dval rnd to_scalar feature0"
  let ?F = "\<lambda>acc (i :: nat). rbind acc (\<lambda>(c, cur). rbind (view buf cur sz) (\<lambda>s.
      rbind (emplace_one_second_model ?M c s) (\<lambda>c'. Inr (c', cur + sz))))"
  have len: "length (concat (map S xs)) = length xs * sz" if "set xs \<subseteq> set mds" for xs
    using that S by (induction xs) auto
  have at: "take sz (drop (j * sz) buf) = S (mds ! j)" "j * sz + sz \<le> length buf" if j: "j < length mds" for j
  proof -
    have split: "concat (map S mds) = concat (map S (take j mds)) @ S (mds ! j) @ concat (map S (drop (Suc j) mds))"
      using id_take_nth_drop [OF j] by (metis concat.simps(2) concat_append list.simps(9) map_append)
    have l1: "length (concat (map S (take j mds))) = j * sz" using len [OF set_take_subset] j by simp
    have l2: "length (S (mds ! j)) = sz" using S j by simp
    have "j * sz + sz \<le> length mds * sz" using j by (metis Suc_leI add.commute mult_Suc mult_le_mono1)
    moreover have "length mds * sz \<le> length buf" using b len [of mds] by (metis length_take min.cobounded1 order_refl)
    ultimately show "j * sz + sz \<le> length buf" by linarith
    have "drop (j * sz) (concat (map S mds)) = S (mds ! j) @ concat (map S (drop (Suc j) mds))"
      unfolding split using l1 by simp
    then have "take sz (drop (j * sz) (take (length mds * sz) buf)) = S (mds ! j)" using b len [of mds] l2 by simp
    moreover have "sz \<le> length mds * sz - j * sz" using \<open>j * sz + sz \<le> length mds * sz\<close> by linarith
    ultimately show "take sz (drop (j * sz) buf) = S (mds ! j)" by (simp add: drop_take min_def)
  qed
  have "foldl ?F (Inr (c, 0)) [0..<j] = Inr (c\<lparr>second_layer := map Some (take j mds)\<rparr>, j * sz)" if "j \<le> length mds" for j
    using that
  proof (induction j)
    case 0
    show ?case using c by (cases c) simp
  next
    case (Suc j)
    have "emplace_one_second_model ?M (c\<lparr>second_layer := map Some (take j mds)\<rparr>) (S (mds ! j)) =
        Inr (c\<lparr>second_layer := map Some (take (Suc j) mds)\<rparr>)"
      using S [of "mds ! j"] Suc.prems by (simp add: emplace_one_second_model_def take_Suc_conv_app_nth)
    then show ?case using Suc at [of j] by (simp add: view_def add.commute)
  qed
  then show ?thesis using n by (simp add: parse_submodels_def)
qed


section \<open>The image of a trained cache\<close>

lemma rbind_assoc: "rbind (rbind m f) g = rbind m (\<lambda>x. rbind (f x) g)"
  by (cases m) simp_all

text \<open>The bytes of a submodel and of a table.\<close>

definition sub_image :: "lr xsubmodel \<Rightarrow> u8 list" where
  "sub_image md = projr (xsub_serialize lr_serialize md)"

definition tt_image :: "tt \<Rightarrow> u8 list" where
  "tt_image t = projr (tt_serialize t)"

lemma length_tt_image: "length (tt_image t) = tt_sz t"
  by (simp add: tt_image_def tt_serialize_eq tt_sz_def length_concat_le_bytes)

lemma sub_image:
  assumes "page_eb.bounds_ok md"
  shows "xsub_serialize lr_serialize md = Inr (sub_image md)" and "length (sub_image md) = 36"
    and "xsub_from_serialize lr_serialize lr_from_serialize m0 (sub_image md) = Inr md"
  using xsub_image_bounds [OF assms, of m0] by (auto simp: sub_image_def)

lemma length_sub_images: "\<forall>md\<in>set mds. page_eb.bounds_ok md \<Longrightarrow> length (concat (map sub_image mds)) = 36 * length mds"
  by (induction mds) (simp_all add: sub_image(2))

text \<open>Between the submodels and the tables lie the bytes that were there before.\<close>

lemma serialize_image:
  fixes c :: "(lr, lr, 'w::len word) two_rmi"
  assumes run: "serialize_db (lr_ops dgels dval rnd to_scalar feature0) model_buf buf_end c tabs mem = Inr (tt_buf, buf_end', mem')"
    and c: "second_layer c = map Some mds" "\<forall>md\<in>set mds. page_eb.bounds_ok md" "mds \<noteq> []" and t: "tabs \<noteq> []"
    and mb: "unat model_buf mod 8 = 0" "unat model_buf + length mem + 8 < 2 ^ 64"
  defines "off \<equiv> (36 * length mds + 7) div 8 * 8"
  shows "unat (tt_buf - model_buf) = off \<and> 36 * length mds \<le> off \<and>
    unat (buf_end' - model_buf) = off + length (concat (map tt_image tabs)) \<and> unat (buf_end' - model_buf) \<le> length mem \<and>
    take (unat (buf_end' - model_buf)) mem' = concat (map sub_image mds) @
      take (off - 36 * length mds) (drop (36 * length mds) mem) @ concat (map tt_image tabs)"
proof -
  let ?n = "length mds"
  let ?f = "\<lambda>i. rbind (sub_deref c i) (\<lambda>sub. xsub_serialize lr_serialize sub)"
  obtain cur mem1 where r1: "foldl (\<lambda>acc i. rbind acc (\<lambda>cm. rbind (?f i) (\<lambda>s. put_image model_buf buf_end s cm)))
      (Inr (model_buf + of_nat 0, mem)) [0..<?n] = Inr (cur, mem1)"
    and r2: "round_up cur 8 = Inr tt_buf"
    and r3: "foldl (\<lambda>acc t. rbind acc (\<lambda>cm. rbind (tt_serialize t) (\<lambda>s. put_image model_buf buf_end s cm)))
      (Inr (tt_buf, mem1)) tabs = Inr (buf_end', mem')"
    using run c(1) by (auto simp: serialize_db_def rbind_assoc rbind_Inr_iff)
  have f: "?f i = Inr (sub_image (mds ! i))" if "i \<in> set [0..<?n]" for i
    using that c(1,2) sub_image(1) by (simp add: sub_deref_def)
  have im: "map (\<lambda>i. sub_image (mds ! i)) [0..<?n] = map sub_image mds" by (rule nth_equalityI) simp_all
  note ls = length_sub_images [OF c(2)]
  have 1: "cur = model_buf + of_nat (36 * ?n)" "36 * ?n \<le> length mem"
    "mem1 = concat (map sub_image mds) @ drop (36 * ?n) mem"
  proof -
    have "unat model_buf + length mem < 2 ^ 64" "[0..<?n] \<noteq> []" using mb(2) c(3) by simp_all
    then show "cur = model_buf + of_nat (36 * ?n)" "36 * ?n \<le> length mem"
      "mem1 = concat (map sub_image mds) @ drop (36 * ?n) mem"
      using put_images [where f = ?f and S = "\<lambda>i. sub_image (mds ! i)" and mb = model_buf and mem = mem and
          off = 0 and xs = "[0..<?n]", OF f _ _ r1] unfolding im ls add_0 take_0 append_Nil by auto
  qed
  have uc: "unat cur = unat model_buf + 36 * ?n" unfolding 1(1) using 1(2) mb(2) by (intro unat_add_of_nat) simp
  obtain q where q: "unat model_buf = 8 * q" using mb(1) by auto
  have "unat tt_buf = (36 * ?n + 7 + q * 8) div 8 * 8"
    using round_up_8 [OF r2] uc 1(2) mb(2) by (simp add: q algebra_simps)
  also have "\<dots> = unat model_buf + off" unfolding div_mult_self1 [OF zero_neq_numeral [symmetric]] off_def q by simp
  finally have ut: "unat tt_buf = unat model_buf + off" .
  have off: "36 * ?n \<le> off" "off \<le> 36 * ?n + 7" unfolding off_def by linarith+
  then have off64: "off < 2 ^ 64" using 1(2) mb(2) by linarith
  have tb: "tt_buf = model_buf + of_nat off"
  proof (rule word_unat_eq_iff [THEN iffD2])
    have "unat model_buf + off < 2 ^ 64" using off(2) 1(2) mb(2) by linarith
    then show "unat tt_buf = unat (model_buf + of_nat off)" unfolding ut by (rule unat_add_of_nat [symmetric])
  qed
  have d: "unat (tt_buf - model_buf) = off" using off64 unfolding tb by (simp add: unat_of_nat)
  have l1: "length mem1 = length mem" unfolding 1(3) using ls 1(2) by simp
  have 2: "buf_end' = model_buf + of_nat (off + length (concat (map tt_image tabs)))"
    "off + length (concat (map tt_image tabs)) \<le> length mem"
    "mem' = take off mem1 @ concat (map tt_image tabs) @ drop (off + length (concat (map tt_image tabs))) mem1"
    using put_images [where f = tt_serialize and S = tt_image, OF _ _ off64 r3 [unfolded tb]] mb(2) t l1
    by (simp_all add: tt_image_def tt_serialize_eq)
  have e: "unat (buf_end' - model_buf) = off + length (concat (map tt_image tabs))"
    using 2(2) mb(2) unfolding 2(1) by (simp del: of_nat_add add: unat_of_nat)
  have "take off mem1 = concat (map sub_image mds) @ take (off - 36 * ?n) (drop (36 * ?n) mem)"
    unfolding 1(3) using ls off(1) by simp
  moreover have lo: "length (take off mem1) = off" using 2(2) l1 by simp
  have "take (off + length (concat (map tt_image tabs))) mem' = take off mem1 @ concat (map tt_image tabs)"
    unfolding 2(3) take_append lo by simp
  ultimately have "take (off + length (concat (map tt_image tabs))) mem' =
      concat (map sub_image mds) @ take (off - 36 * ?n) (drop (36 * ?n) mem) @ concat (map tt_image tabs)"
    by (simp only: append_assoc)
  then show ?thesis using d off(1) e 2(2) by simp
qed

text \<open>The server can write its image when it fits.\<close>

lemma serialize_fits:
  fixes c :: "(lr, lr, 'w::len word) two_rmi"
  assumes c: "second_layer c = map Some mds" "\<forall>md\<in>set mds. page_eb.bounds_ok md" "mds \<noteq> []"
    and mb: "unat model_buf mod 8 = 0" "unat model_buf + length mem + 8 < 2 ^ 64" "unat model_buf + length mem \<le> unat buf_end"
    and fit: "(36 * length mds + 7) div 8 * 8 + length (concat (map tt_image tabs)) \<le> length mem"
  shows "\<exists>tt_buf be mem'. serialize_db (lr_ops dgels dval rnd to_scalar feature0) model_buf buf_end c tabs mem = Inr (tt_buf, be, mem')"
proof -
  let ?n = "length mds" and ?off = "(36 * length mds + 7) div 8 * 8"
  let ?f = "\<lambda>i. rbind (sub_deref c i) (\<lambda>sub. xsub_serialize lr_serialize sub)"
  have f: "?f i = Inr (sub_image (mds ! i))" if "i \<in> set [0..<?n]" for i
    using that c(1,2) sub_image(1) by (simp add: sub_deref_def)
  have im: "map (\<lambda>i. sub_image (mds ! i)) [0..<?n] = map sub_image mds" by (rule nth_equalityI) simp_all
  note ls = length_sub_images [OF c(2)]
  have off: "36 * ?n \<le> ?off" "?off \<le> length mem" using fit by linarith+
  obtain cur mem1 where r1: "foldl (\<lambda>acc i. rbind acc (\<lambda>cm. rbind (?f i) (\<lambda>s. put_image model_buf buf_end s cm)))
      (Inr (model_buf + of_nat 0, mem)) [0..<?n] = Inr (cur, mem1)" "length mem1 = length mem"
    using put_images_fit [where f = ?f and S = "\<lambda>i. sub_image (mds ! i)" and xs = "[0..<?n]" and mb = model_buf and off = 0 and
        mem = mem and be = buf_end, OF f] ls off mb unfolding im by auto
  have cur: "cur = model_buf + of_nat (36 * ?n)"
    using put_images [where f = ?f and S = "\<lambda>i. sub_image (mds ! i)" and mb = model_buf and mem = mem and
        off = 0 and xs = "[0..<?n]", OF f _ _ r1(1)] mb(2) unfolding im ls by simp
  obtain tt_buf where r2: "round_up cur 8 = Inr tt_buf" by (simp add: round_up_def)
  have "unat cur = unat model_buf + 36 * ?n" unfolding cur using off mb(2) by (intro unat_add_of_nat) linarith
  moreover obtain q where q: "unat model_buf = 8 * q" using mb(1) by auto
  ultimately have "unat tt_buf = (36 * ?n + 7 + q * 8) div 8 * 8"
    using round_up_8 [OF r2] off mb(2) by (simp add: q algebra_simps)
  also have "\<dots> = unat model_buf + ?off" unfolding div_mult_self1 [OF zero_neq_numeral [symmetric]] q by simp
  finally have ut: "unat tt_buf = unat model_buf + ?off" .
  have "unat (model_buf + of_nat ?off) = unat model_buf + ?off" using off mb(2) by (intro unat_add_of_nat) linarith
  then have tb: "tt_buf = model_buf + of_nat ?off" using ut by (metis word_unat_eq_iff)
  obtain be mem' where "foldl (\<lambda>acc t. rbind acc (\<lambda>cm. rbind (tt_serialize t) (\<lambda>s. put_image model_buf buf_end s cm)))
      (Inr (tt_buf, mem1)) tabs = Inr (be, mem')"
    using put_images_fit [where f = tt_serialize and S = tt_image and xs = tabs and mb = model_buf and off = ?off and
        mem = mem1 and be = buf_end] fit mb r1(2) unfolding tb by (fastforce simp: tt_image_def tt_serialize_eq)
  then show ?thesis using r1(1) r2 c(1) by (simp add: serialize_db_def rbind_assoc)
qed

section \<open>What the client reads back\<close>

lemma from_dispatcher:
  fixes d :: "(lr, 'w::len word) dispatcher"
  assumes "unat (dispatch_num d) < 2 ^ 32"
  shows "\<exists>bs. disp_serialize (lr_ops dgels dval rnd to_scalar feature0) d = Inr bs \<and> length bs = 32 \<and>
    LocalTwoRMI_from (lr_ops dgels dval rnd to_scalar feature0) bs = Inr \<lparr>first_layer = d, second_layer = []\<rparr>"
  using disp_image [OF assms, of dgels dval rnd to_scalar feature0] by (auto simp: LocalTwoRMI_from_def)

text \<open>Up to the tables both clients do the same.\<close>

lemma bootstrap_parse:
  fixes c :: "(lr, lr, 'w::len word) two_rmi" and dgels dval rnd to_scalar feature0
  defines "M \<equiv> lr_ops dgels dval rnd to_scalar feature0"
  assumes run: "serialize_db M model_buf buf_end c tabs mem = Inr (tt_buf, buf_end', mem')"
    and c: "second_layer c = map Some mds" "\<forall>md\<in>set mds. page_eb.bounds_ok md" "mds \<noteq> []"
    and n: "unat (dispatch_num (first_layer c)) = length mds" "length tabs = length mds" "length mds < 2 ^ 32"
    and mb: "unat model_buf mod 8 = 0" "unat model_buf + length mem + 8 < 2 ^ 64" "unat (buf_end' - model_buf) < 2 ^ 32"
    and rd: "rd model_buf (unat (buf_end' - model_buf)) = Some (take (unat (buf_end' - model_buf)) mem')"
    and sc: "worker_core (meta_callback M limit (Some (first_layer c)) model_buf tt_buf buf_end' deliver h0 buf) get = Inr sc"
      "64 \<le> length buf" "64 \<le> limit"
    and cl: "idle st 0" "16 \<le> length sbuf" "length rbuf = 1024"
  shows "\<exists>st' pad. bootstrap realign M M (exchange (sc\<lparr>incoming_sessions := [sid \<mapsto> Some ()]\<rparr>) sid) rd h1 sbuf rbuf st =
      rbind (parse_tables (length mds) (concat (map sub_image mds) @ pad @ concat (map tt_image tabs))
        (if realign then (36 * length mds + 7) div 8 * 8 else 36 * length mds)) (\<lambda>(tabs, _). Inr (c, tabs, st')) \<and>
    idle st' 0 \<and> length st' = length st \<and> length pad = (36 * length mds + 7) div 8 * 8 - 36 * length mds \<and>
    36 * length mds \<le> (36 * length mds + 7) div 8 * 8 \<and> pad = take (length pad) (drop (36 * length mds) mem)"
proof -
  let ?n = "length mds" and ?tot = "unat (buf_end' - model_buf)" and ?off = "(36 * length mds + 7) div 8 * 8"
  let ?ss = "concat (map sub_image mds)" and ?ts = "concat (map tt_image tabs)"
  have tne: "tabs \<noteq> []" using c(3) n(2) by auto
  note im = serialize_image [OF run [unfolded M_def] c tne mb(1,2)]
  define pad where "pad = take (?off - 36 * ?n) (drop (36 * ?n) mem)"
  have buf: "take ?tot mem' = ?ss @ pad @ ?ts" using im unfolding pad_def by blast
  obtain bs where bs: "disp_serialize M (first_layer c) = Inr bs" "length bs = 32"
    "LocalTwoRMI_from M bs = Inr (\<lparr>first_layer = first_layer c, second_layer = []\<rparr> :: (lr, lr, 'w word) two_rmi)"
    using from_dispatcher [of "first_layer c" dgels dval rnd to_scalar feature0] n unfolding M_def by auto
  have tot: "unat (ucast (buf_end' - model_buf) :: u32) = ?tot"
    using mb(3) by (simp add: unsigned_ucast_eq take_bit_nat_eq_self)
  obtain st' where st: "fetch_meta (exchange (sc\<lparr>incoming_sessions := [sid \<mapsto> Some ()]\<rparr>) sid) h1 sbuf rbuf st =
      Inr (\<lparr>dispatcher_sz = 32, total_sz = ucast (buf_end' - model_buf), meta_model_buf = model_buf, meta_tt_buf = tt_buf\<rparr>, bs, st')"
    "idle st' 0" "length st' = length st"
    using fetch_meta_ok [OF sc(1) refl bs(1,2) sc(2,3) cl] by blast
  have sz: "xsub_serialize lr_serialize (XSubModel LR) = Inr (sub_image (XSubModel LR))" "length (sub_image (XSubModel LR)) = 36"
    by (rule sub_image; simp add: page_eb.bounds_ok_def XSubModel_def)+
  have subs: "parse_submodels M 36 (?ss @ pad @ ?ts) \<lparr>first_layer = first_layer c, second_layer = []\<rparr> = Inr (c, ?n * 36)"
  proof -
    have "\<lparr>first_layer = first_layer c, second_layer = map Some mds\<rparr> = c" using c(1) by (cases c) simp
    then show ?thesis
      using parse_submodels_ok [where c = "\<lparr>first_layer = first_layer c, second_layer = []\<rparr>" and mds = mds and S = sub_image
        and sz = 36 and buf = "?ss @ pad @ ?ts" and dgels = dgels and dval = dval and rnd = rnd and
          to_scalar = to_scalar and ?feature0.0 = feature0] sub_image c(2) n(1)
      unfolding M_def by simp
  qed
  have "?off \<le> length mem" using im by linarith
  then have lp: "length pad = ?off - 36 * ?n" unfolding pad_def length_take length_drop by linarith
  have "bootstrap realign M M (exchange (sc\<lparr>incoming_sessions := [sid \<mapsto> Some ()]\<rparr>) sid) rd h1 sbuf rbuf st =
      rbind (parse_tables ?n (?ss @ pad @ ?ts) (if realign then ?off else 36 * ?n)) (\<lambda>(tabs, _). Inr (c, tabs, st'))"
    unfolding bootstrap_def st(1) using im bs(3) rd buf tot sz subs n(1)
    by (cases realign) (simp_all add: M_def mult.commute)
  then show ?thesis using st(2,3) lp im pad_def by metis
qed


text \<open>Without the jump and with an odd number of submodels the first table read is the padding.\<close>

lemma parse_tables_first:
  assumes "0 < n" and "parse_tables n buf cur = Inr (ts, p)" and "take 4 (drop cur buf) = [0, 0, 0, 0]"
  shows "ts ! 0 = TT"
proof -
  let ?F = "\<lambda>acc i. rbind acc (\<lambda>(ts, cur). rbind (deserialize 4 of_le_bytes (drop cur buf) 8) (\<lambda>tt_n :: u32.
      rbind (view buf cur (4 + unat tt_n * 8)) (\<lambda>s. rbind (tt_from_serialize TT s) (\<lambda>t.
      let ts' = ts @ [t] in Inr (ts', cur + tt_sz (ts' ! i))))))"
  have len: "4 \<le> length (drop cur buf)" using arg_cong [OF assms(3), of length] by simp
  then have "deserialize 4 of_le_bytes (drop cur buf) 8 = Inr (0 :: u32)" using assms(3) by (simp add: deserialize_def)
  moreover have "view buf cur 4 = Inr [0, 0, 0, 0]" using len assms(3) by (simp add: view_def)
  moreover have "tt_from_serialize TT [0, 0, 0, 0] = Inr TT"
    by (simp add: tt_from_serialize_def deserialize_def tt_clear_def TT_def)
  ultimately have one: "?F (Inr ([], cur)) 0 = Inr ([TT], cur + 4)" by (simp add: tt_sz_def TT_def)
  have "0 < m \<Longrightarrow> foldl ?F (Inr ([], cur)) [0..<m] = Inr (ts, p) \<Longrightarrow> ts \<noteq> [] \<and> ts ! 0 = TT" for m ts p
  proof (induction m arbitrary: ts p)
    case (Suc m)
    show ?case
    proof (cases "m = 0")
      case True
      then show ?thesis using Suc.prems(2) one by simp
    next
      case False
      then obtain ts0 p0 t where "foldl ?F (Inr ([], cur)) [0..<m] = Inr (ts0, p0)" "ts = ts0 @ [t]"
        using Suc.prems(2) by (auto simp: rbind_Inr_iff Let_def)
      then show ?thesis using Suc.IH False by (metis Nil_is_append_conv gr0I hd_append2 hd_conv_nth)
    qed
  qed simp
  then show ?thesis using assms(1,2) by (simp add: parse_tables_def)
qed

lemma bootstrap_odd:
  fixes c c' :: "(lr, lr, 'w::len word) two_rmi" and dgels dval rnd to_scalar feature0
  defines "M \<equiv> lr_ops dgels dval rnd to_scalar feature0"
  assumes run: "serialize_db M model_buf buf_end c tabs mem = Inr (tt_buf, buf_end', mem')"
    and c: "second_layer c = map Some mds" "\<forall>md\<in>set mds. page_eb.bounds_ok md" "mds \<noteq> []"
    and n: "unat (dispatch_num (first_layer c)) = length mds" "length tabs = length mds" "length mds < 2 ^ 32"
    and mb: "unat model_buf mod 8 = 0" "unat model_buf + length mem + 8 < 2 ^ 64" "unat (buf_end' - model_buf) < 2 ^ 32"
    and rd: "rd model_buf (unat (buf_end' - model_buf)) = Some (take (unat (buf_end' - model_buf)) mem')"
    and sc: "worker_core (meta_callback M limit (Some (first_layer c)) model_buf tt_buf buf_end' deliver h0 buf) get = Inr sc"
      "64 \<le> length buf" "64 \<le> limit"
    and cl: "idle st 0" "16 \<le> length sbuf" "length rbuf = 1024"
    and z: "take 4 (drop (36 * length mds) mem) = [0, 0, 0, 0]" and odd: "odd (length mds)"
    and r: "bootstrap False M M (exchange (sc\<lparr>incoming_sessions := [sid \<mapsto> Some ()]\<rparr>) sid) rd h1 sbuf rbuf st = Inr (c', tabs', st')"
  shows "tabs' ! 0 = TT"
proof -
  let ?n = "length mds" and ?off = "(36 * length mds + 7) div 8 * 8"
  let ?ss = "concat (map sub_image mds)" and ?ts = "concat (map tt_image tabs)"
  obtain st1 pad where p: "bootstrap False M M (exchange (sc\<lparr>incoming_sessions := [sid \<mapsto> Some ()]\<rparr>) sid) rd h1 sbuf rbuf st =
      rbind (parse_tables ?n (?ss @ pad @ ?ts) (if False then ?off else 36 * ?n)) (\<lambda>(tabs, _). Inr (c, tabs, st1))"
    "length pad = ?off - 36 * ?n" "pad = take (length pad) (drop (36 * ?n) mem)"
    using bootstrap_parse [where rd = rd, OF run [unfolded M_def] c n mb rd sc [unfolded M_def] cl, folded M_def, of False] by blast
  obtain h where "?n = 2 * h + 1" using odd by (rule oddE)
  then have n: "36 * ?n = 72 * h + 36" by simp
  then have "(36 * ?n + 7) div 8 = 9 * h + 5" by (intro div_nat_eqI) simp_all
  then have "length pad = 4" using p(2) n by simp
  then have "pad = [0, 0, 0, 0]" using p(3) z by simp
  then have "take 4 (drop (36 * ?n) (?ss @ pad @ ?ts)) = [0, 0, 0, 0]" using length_sub_images [OF c(2)] by simp
  moreover obtain q where "parse_tables ?n (?ss @ pad @ ?ts) (36 * ?n) = Inr (tabs', q)"
    using r unfolding p(1) by (auto simp: rbind_Inr_iff)
  moreover have "0 < ?n" using c(3) by simp
  ultimately show ?thesis using parse_tables_first by blast
qed

section \<open>Properties\<close>



text \<open>C38: when the number of submodels is odd and the padding bytes in front of the tables are zero, the YCSB
  client never reads back the server's tables: whatever it returns, its first table is empty.\<close>

theorem client_bootstrap_misaligned:
  fixes c :: "(lr, lr, 'w::len word) two_rmi"
  assumes "serialize_db (lr_ops dgels dval rnd to_scalar feature0) model_buf buf_end c tabs mem = Inr (tt_buf, buf_end', mem')"
    and "second_layer c = map Some mds" "\<forall>md\<in>set mds. page_eb.bounds_ok md" "mds \<noteq> []"
    and "unat (dispatch_num (first_layer c)) = length mds" "length tabs = length mds" "length mds < 2 ^ 32"
    and "unat model_buf mod 8 = 0" "unat model_buf + length mem + 8 < 2 ^ 64" "unat (buf_end' - model_buf) < 2 ^ 32"
    and "rd model_buf (unat (buf_end' - model_buf)) = Some (take (unat (buf_end' - model_buf)) mem')"
    and "worker_core (meta_callback (lr_ops dgels dval rnd to_scalar feature0) limit (Some (first_layer c)) model_buf
      tt_buf buf_end' deliver h0 buf) get = Inr sc" "64 \<le> length buf" "64 \<le> limit"
    and "idle st 0" "16 \<le> length sbuf" "length rbuf = 1024"
    and "take 4 (drop (36 * length mds) mem) = [0, 0, 0, 0]" and "odd (length mds)" and "tt_size (tabs ! 0) \<noteq> 0"
  shows "bootstrap False (lr_ops dgels dval rnd to_scalar feature0) (lr_ops dgels dval rnd to_scalar feature0)
      (exchange (sc\<lparr>incoming_sessions := [sid \<mapsto> Some ()]\<rparr>) sid) rd h1 sbuf rbuf st \<noteq> Inr (c, tabs, st')"
proof
  assume "bootstrap False (lr_ops dgels dval rnd to_scalar feature0) (lr_ops dgels dval rnd to_scalar feature0)
      (exchange (sc\<lparr>incoming_sessions := [sid \<mapsto> Some ()]\<rparr>) sid) rd h1 sbuf rbuf st = Inr (c, tabs, st')"
  from bootstrap_odd [where rd = rd, OF assms(1-19) this] assms(20) show False by (simp add: TT_def tt_size_def)
qed

text \<open>C4: end to end: once the YCSB server has trained its cache over a well-formed tree whose leaves, except the
  last, hold at least two keys, and the submodels it has trained are monotone on the keys of the tree,
  and while the memory it registers holds the leaves, a client that uses this cache and these tables
  gets, for every key of the tree, the value the tree holds, whether it reads the leaves itself or asks
  the server, and it can go on with the next lookup.\<close>

theorem client_lookup:
  fixes t :: "('k::{linorder,order_bot,order_top}, u64) xtree" and num_sub :: "'w::len word"
    and M :: "('m, 'k) ml_ops" and M2 :: "('s, 'k) ml_ops" and db :: "('m, 's, 'w word) ycsb_db"
  assumes "walk_ok gen_f_default N t" and "\<forall>a\<in>set (butlast (tree_leaves t)). 2 \<le> card (dom (leaf_map (leafs t) a))"
    and "card (dom (xtree_map t)) < n" and "rounding rnd"
    and "0 < num_sub" "num_sub < 4000000" "unat num_sub \<le> 2 ^ 53" and "cache db = None" "tts db = []"
    and "32 \<le> LENGTH('w)" and "train_db rnd vlen M M2 N n num_sub t db = Some (Inr db')" "cache db' = Some c"
    and "\<And>i md. i < length (second_layer c) \<Longrightarrow> second_layer c ! i = Some md \<Longrightarrow>
      mono_on (dom (xtree_map t)) (ml_predict M2 (ml md))"
    and "\<And>k. key_of (word_of k) = k" and "serves rd word_of N (nat (max len 8)) t"
    and "worker_core meta (get_callback key_of t deliver h0 buf) = Inr sc" "length buf = 64"
    and "unat cor < 128" "idle (cstation cl) (unat cor)" "length sbuf = 64" "length rbuf = 8"
    and "xtree_map t key = Some v"
  shows "\<exists>cl'. core_eval rnd M M2 key_of N len logs rd
      (eval_w_rpc word_of (exchange (sc\<lparr>incoming_sessions := [sid \<mapsto> Some ()]\<rparr>) sid) h1 sbuf rbuf cor) c (tts db') key cl = Inr (v, cl') \<and>
    idle (cstation cl') (unat cor)"
proof -
  note D = walk_okD [OF assms(1)]
  have k: "key \<in> dom (xtree_map t)" using assms(22) by blast
  have a: "answers rnd M M2 N t c (tts db') key"
    using train_db_done [OF assms(1-9,11-13)] k by (simp add: db_trained_def)
  have "get_impl t key = Inr (Some v)" using get_impl_ok [OF D(1,2) tree_key_less_top [OF D(1) k]] assms(22) by simp
  then have "\<exists>st'. eval_w_rpc word_of (exchange (sc\<lparr>incoming_sessions := [sid \<mapsto> Some ()]\<rparr>) sid) h1 sbuf rbuf cor key (cstation cl) =
      Inr (v, st') \<and> idle st' (unat cor)"
    using eval_w_rpc_ok [where key = key and word_of = word_of, OF assms(16) refl _ assms(14,17-21)] by blast
  from core_eval_ok [where P = "\<lambda>st. idle st (unat cor)" and cl = cl and
      rpc = "eval_w_rpc word_of (exchange (sc\<lparr>incoming_sessions := [sid \<mapsto> Some ()]\<rparr>) sid) h1 sbuf rbuf cor", OF assms(1) a assms(10,14,15,22) this assms(19)]
  show ?thesis .
qed

section \<open>Witnesses\<close>

text \<open>The memory of a server that holds the sample tree: two leaves at 64 and 128.\<close>

definition sample_mem :: "u8 list" where
  "sample_mem = replicate 64 0 @
     (node_keys_bytes xd \<lparr>keys = [XKey 3, XKey 1], incarnation = 0\<rparr> @ le_bytes 8 (30 :: u64) @ le_bytes 8 (1 :: u64)) @
     replicate 30 0 @
     (node_keys_bytes xd \<lparr>keys = [XKey 5, top], incarnation = 0\<rparr> @ le_bytes 8 (50 :: u64) @ le_bytes 8 (0 :: u64))"

definition sample_rd :: rdma where
  "sample_rd a n = (if unat a + n \<le> length sample_mem then Some (take n (drop (unat a) sample_mem)) else None)"

lemma sample_serves: "serves sample_rd xd 2 (nat (max 8 8)) sample_tree"
proof -
  have l: "length (node_keys_bytes xd \<lparr>keys = [a, b], incarnation = i\<rparr>) = 18" for a b i
    by (simp add: length_keys_bytes)
  have two: "i < 2 \<longleftrightarrow> i = 0 \<or> i = 1" for i :: nat by arith
  show ?thesis
    unfolding serves_def sample_tree_leaves
    by (auto simp: sample_tree_def sample_leafs_def sample_rd_def sample_mem_def l value_start_offset_def value_offset_def
        offset_inplace_def val_at_def two simp del: le_bytes.simps)
qed

definition sample_client :: client where
  "sample_client = \<lparr>cstation = ReplyStation 12, cstat = Statics, cerrors = CDF 0 0 []\<rparr>"

lemma idle_ReplyStation: "i < n \<Longrightarrow> idle (ReplyStation n) i"
  by (simp add: idle_def ReplyStation_def ReplyEntry0_def)

definition sample_worker :: "(unit, u8 list list) rpc_core" where
  "sample_worker = projr (worker_core (\<lambda>_ _ _ _. Inl AssertFail) (get_callback XKey sample_tree deliver Header0 (replicate 64 0)))"

theorem client_lookup_witness:
  "\<exists>db' c. train_db (\<lambda>x. x) False ols_lr ols_lr 2 4 3 sample_tree empty_db = Some (Inr db') \<and> cache db' = Some c \<and>
    (\<exists>cl'. core_eval (\<lambda>x. x) ols_lr ols_lr XKey 2 8 True sample_rd
        (eval_w_rpc xd (exchange (sample_worker\<lparr>incoming_sessions := [7 \<mapsto> Some ()]\<rparr>) 7) Header0 (replicate 64 0) (replicate 8 0) 1)
        c (tts db') (XKey 3) sample_client = Inr (30, cl') \<and> idle (cstation cl') (unat (1 :: u32)))"
proof -
  obtain db' c where tr: "train_db (\<lambda>x. x) False ols_lr ols_lr 2 4 3 sample_tree empty_db = Some (Inr db')" "cache db' = Some c"
    using train_db_ok [OF sample_tree_walk _ ols_sample(3,2) rounding_id, of 4 3 empty_db False]
    by (auto simp: sample_tree_dom(2) empty_db_def)
  have w: "worker_core (\<lambda>_ _ _ _. Inl AssertFail) (get_callback XKey sample_tree deliver Header0 (replicate 64 0)) = Inr sample_worker"
    using worker_core_callbacks [of "\<lambda>_ _ _ _. Inl AssertFail" "get_callback XKey sample_tree deliver Header0 (replicate 64 0)"]
    by (auto simp: sample_worker_def)
  have v: "xtree_map sample_tree (XKey 3) = Some 30"
    unfolding xtree_map_def sample_tree_leaves
    by (simp add: leaf_map_def sample_tree_def sample_leafs_def node_map_def node_search_def
        keys_search_def val_at_def map_add_def)
  have "\<exists>cl'. core_eval (\<lambda>x. x) ols_lr ols_lr XKey 2 8 True sample_rd
        (eval_w_rpc xd (exchange (sample_worker\<lparr>incoming_sessions := [7 \<mapsto> Some ()]\<rparr>) 7) Header0 (replicate 64 0) (replicate 8 0) 1)
        c (tts db') (XKey 3) sample_client = Inr (30, cl') \<and> idle (cstation cl') (unat (1 :: u32))"
    by (rule client_lookup [OF sample_tree_walk _ rounding_id _ _ _ _ _ _ tr ols_sample_mono [OF tr] _ sample_serves w _ _ _ _ _ v])
      (simp_all add: sample_tree_dom(2) empty_db_def sample_client_def idle_ReplyStation)
  with tr show ?thesis by blast
qed

text \<open>A cache of two or three submodels, serialized into zeroed memory at 4096.\<close>

definition sample_subs :: "nat \<Rightarrow> lr xsubmodel list" where
  "sample_subs n = replicate n \<lparr>ml = LR, err_min = - 3, err_max = 5, smax = 100\<rparr>"

definition sample_cache :: "nat \<Rightarrow> (lr, lr, 32 word) two_rmi" where
  "sample_cache n = \<lparr>first_layer = \<lparr>dmodel = LR, dispatch_num = of_nat n, up_bound = 200\<rparr>, second_layer = map Some (sample_subs n)\<rparr>"

definition sample_tabs :: "nat \<Rightarrow> tt list" where
  "sample_tabs n = replicate n \<lparr>entries = [0x4000]\<rparr>"

abbreviation sample_lr :: "(lr, xkey) ml_ops" where
  "sample_lr \<equiv> lr_ops (\<lambda>_. (0, 0)) (\<lambda>_. 0) (\<lambda>x. x) (\<lambda>k. real (unat (xd k))) (\<lambda>k. real (unat (xd k)))"

lemma sample_serialized:
  assumes "n = 2 \<or> n = 3"
  shows "\<exists>tt_buf be mem. serialize_db sample_lr 4096 8192 (sample_cache n) (sample_tabs n) (replicate 200 0) = Inr (tt_buf, be, mem)"
proof (rule serialize_fits [where mds = "sample_subs n"])
  show "\<forall>md\<in>set (sample_subs n). page_eb.bounds_ok md" by (simp add: sample_subs_def page_eb.bounds_ok_def)
  have "length (concat (map tt_image (sample_tabs n))) = 12 * n"
    by (simp add: sample_tabs_def length_concat length_tt_image tt_sz_def sum_list_replicate)
  then show "(36 * length (sample_subs n) + 7) div 8 * 8 + length (concat (map tt_image (sample_tabs n))) \<le> length (replicate 200 (0 :: u8))"
    using assms by (auto simp: sample_subs_def)
qed (use assms in \<open>auto simp: sample_cache_def sample_subs_def\<close>)

definition sample_meta :: "nat \<Rightarrow> u64 \<Rightarrow> u64 \<Rightarrow> (unit, u8 list list) rpc_core" where
  "sample_meta n tt_buf be = projr (worker_core (meta_callback sample_lr 64 (Some (first_layer (sample_cache n))) 4096 tt_buf be
     deliver Header0 (replicate 64 0)) (\<lambda>_ _ _ _. Inl AssertFail))"

lemma sample_meta:
  "worker_core (meta_callback sample_lr 64 (Some (first_layer (sample_cache n))) 4096 tt_buf be deliver Header0 (replicate 64 0))
    (\<lambda>_ _ _ _. Inl AssertFail) = Inr (sample_meta n tt_buf be)"
  using worker_core_callbacks [of "meta_callback sample_lr 64 (Some (first_layer (sample_cache n))) 4096 tt_buf be deliver Header0
    (replicate 64 0)" "\<lambda>_ _ _ _. Inl AssertFail"] by (auto simp: sample_meta_def)

lemma sample_subs: "second_layer (sample_cache n) = map Some (sample_subs n)" "\<forall>md\<in>set (sample_subs n). page_eb.bounds_ok md"
  "length (sample_subs n) = n" "length (sample_tabs n) = n"
  by (simp_all add: sample_cache_def sample_subs_def sample_tabs_def page_eb.bounds_ok_def)

lemma sample_fits:
  assumes "serialize_db sample_lr 4096 8192 (sample_cache n) (sample_tabs n) (replicate 200 0) = Inr (tt_buf, be, mem)" and "0 < n"
  shows "unat (be - 4096) < 2 ^ 32"
proof -
  have "sample_subs n \<noteq> []" "sample_tabs n \<noteq> []" using assms(2) by (simp_all add: sample_subs_def sample_tabs_def)
  then have "unat (be - 4096) \<le> length (replicate 200 (0 :: u8))"
    using serialize_image [OF assms(1) sample_subs(1,2)] by simp
  then show ?thesis by simp
qed


lemma four: "replicate 4 x = [x, x, x, x]"
  by (simp add: numeral_eq_Suc)

theorem client_bootstrap_misaligned_witness:
  "\<exists>tt_buf be mem. serialize_db sample_lr 4096 8192 (sample_cache 3) (sample_tabs 3) (replicate 200 0) = Inr (tt_buf, be, mem) \<and>
    bootstrap False sample_lr sample_lr (exchange ((sample_meta 3 tt_buf be)\<lparr>incoming_sessions := [7 \<mapsto> Some ()]\<rparr>) 7)
      (\<lambda>_ n. Some (take n mem)) Header0 (replicate 2048 0) (replicate 1024 0) (ReplyStation 12) \<noteq> Inr (sample_cache 3, sample_tabs 3, [])"
proof -
  obtain tt_buf be mem where s: "serialize_db sample_lr 4096 8192 (sample_cache 3) (sample_tabs 3) (replicate 200 0) = Inr (tt_buf, be, mem)"
    using sample_serialized by blast
  have "bootstrap False sample_lr sample_lr (exchange ((sample_meta 3 tt_buf be)\<lparr>incoming_sessions := [7 \<mapsto> Some ()]\<rparr>) 7)
      (\<lambda>_ n. Some (take n mem)) Header0 (replicate 2048 0) (replicate 1024 0) (ReplyStation 12) \<noteq> Inr (sample_cache 3, sample_tabs 3, [])"
    by (rule client_bootstrap_misaligned [where rd = "\<lambda>_ n. Some (take n mem)" and mds = "sample_subs 3",
        OF s sample_subs(1,2) _ _ _ _ _ _ sample_fits [OF s] _ sample_meta])
      (simp_all add: sample_subs(3,4) idle_ReplyStation, simp_all add: sample_cache_def sample_subs_def sample_tabs_def tt_size_def four)
  with s show ?thesis by blast
qed

end
