(* ===== verification/DataDistClient.thy ===== *)
theory DataDistClient
  imports DataDist Bootstrap
begin

text \<open>
  The client of the data distribution benchmark (\<^verbatim>\<open>benchs/data_dist/client.cc\<close>, \<^verbatim>\<open>eval_c.hh\<close>): the keys
  it asks for, the bootstrap of its cache, and the lookup, which reads the predicted pages in
  batches of sixteen and falls back to a remote call for more than 200 pages. The callbacks of its
  server are those of the YCSB server with a larger reply buffer.

  The lemmas show that reading in batches gives what one long batch would, and that a lookup gives the
  value of the tree whenever the pages fit into the buffer; the buffer is too small for 197 to 200
  pages.
\<close>

section \<open>The keys to ask for\<close>

definition fill_tpcc_keys :: "nat \<Rightarrow> (nat \<times> nat \<times> nat \<times> nat) list \<Rightarrow> (u64 list \<times> nat) res" where
  "fill_tpcc_keys nkeys file =
     load_lines (\<lambda>ks (w, d, o', c). rbind (TPCCKey w d o' c) (\<lambda>k. Inr (ks @ [tpcc_d k])))
       (\<lambda>cnt. cnt \<ge> nkeys) [] 0 file"

fun fill_log_keys :: "('l \<Rightarrow> u64) \<Rightarrow> nat \<Rightarrow> u64 list \<Rightarrow> 'l list \<Rightarrow> u64 list" where
  "fill_log_keys conv 0 all_keys loader = all_keys"
| "fill_log_keys conv (Suc n) all_keys loader =
     (case next_key conv loader of
        (Some k, loader') \<Rightarrow> fill_log_keys conv n (all_keys @ [k]) loader'
      | (None, _) \<Rightarrow> all_keys)"

section \<open>The callbacks and the bootstrap\<close>

text \<open>
  The first layer is a linear model, so the callback takes the branch that serializes it. The reply
  buffer has 1024 bytes, the assertion allows 256.
\<close>

definition dd_meta_callback :: "('m, 'k) ml_ops \<Rightarrow> ('m, 'w::len word) dispatcher option \<Rightarrow> u64 \<Rightarrow> u64 \<Rightarrow> u64
    \<Rightarrow> ('ch \<Rightarrow> u8 list \<Rightarrow> 's \<Rightarrow> 's res) \<Rightarrow> header \<Rightarrow> u8 list \<Rightarrow> ('ch, 's) rpc_func" where
  "dd_meta_callback M = meta_callback M 256"



text \<open>After the submodels the client goes on at the offset of the tables.\<close>

definition dd_bootstrap :: "('m, 'k) ml_ops \<Rightarrow> ('s, 'k) ml_ops \<Rightarrow> exec \<Rightarrow> rdma \<Rightarrow> header \<Rightarrow> u8 list \<Rightarrow> u8 list
    \<Rightarrow> reply_station \<Rightarrow> (('m, 's, 'w::len word) two_rmi \<times> tt list \<times> reply_station) res" where
  "dd_bootstrap = bootstrap True"

section \<open>A lookup\<close>

definition kMaxBatch :: nat where "kMaxBatch = 200"

text \<open>\<^verbatim>\<open>alloc_one(kMaxBatch * 128)\<close>.\<close>

definition my_buf_sz :: nat where "my_buf_sz = kMaxBatch * 128"

text \<open>
  One round of the loop over the pages. Its state is the batch, the number of requests in it and the
  pages read so far; page \<open>p\<close> is read to \<^verbatim>\<open>my_buf + read_sz * (p - ns)\<close>, which must lie in the buffer.
\<close>

definition dd_flush :: "rdma \<Rightarrow> batch_op \<Rightarrow> u8 list list \<Rightarrow> (batch_op \<times> u8 list list) res" where
  "dd_flush rd b acc =
     rbind (batch_execute rd b) (\<lambda>(r, b').
     rbind (cassert (r \<noteq> None)) (\<lambda>_. Inr (b', acc @ the r)))"

definition dd_read_step :: "(nat \<Rightarrow> addr res) \<Rightarrow> nat \<Rightarrow> nat \<Rightarrow> rdma \<Rightarrow> int \<Rightarrow> batch_op \<times> nat \<times> u8 list list \<Rightarrow> int
    \<Rightarrow> (batch_op \<times> nat \<times> u8 list list) res" where
  "dd_read_step addr_of read_sz bufsz rd ns s p =
     (let (b, current, acc) = s in
      rbind (addr_of (nat p)) (\<lambda>a.
      if read_sz * nat (p - ns) + read_sz > bufsz then Inl OutOfRange else
      rbind (set_cur_op (emplace b) (a, read_sz)) (\<lambda>b1.
      if current + 1 = 16
      then rbind (dd_flush rd b1 acc) (\<lambda>(b2, acc'). Inr (batch_reset b2, 0, acc'))
      else Inr (b1, current + 1, acc))))"

definition dd_read_pages :: "(nat \<Rightarrow> addr res) \<Rightarrow> nat \<Rightarrow> nat \<Rightarrow> rdma \<Rightarrow> int \<Rightarrow> int \<Rightarrow> u8 list list res" where
  "dd_read_pages addr_of read_sz bufsz rd ns ne =
     rbind (foldl (\<lambda>acc p. rbind acc (\<lambda>s. dd_read_step addr_of read_sz bufsz rd ns s p))
       (Inr (BatchOp 16, 0, [])) [ns..ne]) (\<lambda>(b, current, acc).
     if current > 0 then rbind (dd_flush rd b acc) (\<lambda>(_, acc'). Inr acc') else Inr acc)"

definition dd_core_eval :: "(real \<Rightarrow> real) \<Rightarrow> ('m, 'k) ml_ops \<Rightarrow> ('s, 'k) ml_ops \<Rightarrow> (u64 \<Rightarrow> 'k) \<Rightarrow> nat \<Rightarrow> int \<Rightarrow> nat
    \<Rightarrow> rdma \<Rightarrow> ('k \<Rightarrow> reply_station \<Rightarrow> (u64 \<times> reply_station) res)
    \<Rightarrow> ('m, 's, 'w::len word) two_rmi \<Rightarrow> tt list \<Rightarrow> 'k \<Rightarrow> client \<Rightarrow> (u64 \<times> client) res" where
  "dd_core_eval rnd M M2 key_of N len bufsz rd rpc c tabs key cl =
     rbind (select_sec_model rnd M c key) (\<lambda>m.
     rbind (rmi_predict_range rnd M M2 c key) (\<lambda>range.
     if unat m \<ge> length tabs then Inl OutOfRange else
     let tab = tabs ! unat m; (ns, ne) = page_range TYPE('w) N tab range in
     rbind (cassert (tt_size tab > 0)) (\<lambda>_.
     if (of_int (ne - ns + 1) :: 'w word) > of_nat kMaxBatch
     then rbind (rpc key (cstation cl)) (\<lambda>(v, st).
          Inr (v, cl\<lparr>cstation := st, cstat := increment_gap_1 (cstat cl) 1\<rparr>))
     else
       rbind (dd_read_pages (get_wo_incar tab) (value_start_offset N 8) bufsz rd ns ne) (\<lambda>bufs.
       rbind (read_value key_of N len rd tab key (zip [ns..ne] bufs)) (\<lambda>v. Inr (v, cl))))))"

definition dd_core_eval_v :: "(real \<Rightarrow> real) \<Rightarrow> ('m, 'k) ml_ops \<Rightarrow> ('s, 'k) ml_ops \<Rightarrow> (u64 \<Rightarrow> 'k) \<Rightarrow> nat \<Rightarrow> int
    \<Rightarrow> rdma \<Rightarrow> ('m, 's, 'w::len word) two_rmi \<Rightarrow> tt list \<Rightarrow> 'k \<Rightarrow> u64 res" where
  "dd_core_eval_v = core_eval_v"

text \<open>
  One round of \<^verbatim>\<open>while (running)\<close> of a coroutine; \<open>eval\<close> and \<open>eval_v\<close> are the two lookups, \<open>passed\<close> is the time
  that the coroutine 1 of thread 0 reports.
\<close>

definition client_round :: "bool \<Rightarrow> nat \<Rightarrow> nat \<Rightarrow> real \<Rightarrow> ('k \<Rightarrow> client \<Rightarrow> (u64 \<times> client) res) \<Rightarrow> ('k \<Rightarrow> u64 res)
    \<Rightarrow> 'k \<Rightarrow> client \<Rightarrow> client res" where
  "client_round use_v thread_id cor_id passed eval eval_v key cl =
     rbind (if \<not> use_v then
              rbind (eval key cl) (\<lambda>(_, cl').
              Inr (if thread_id = 0 \<and> cor_id = 1 then cl'\<lparr>cstat := set_lat (cstat cl') passed\<rparr> else cl'))
            else rbind (eval_v key) (\<lambda>_. Inr cl)) (\<lambda>cl'.
     Inr (cl'\<lparr>cstat := increment (cstat cl')\<rparr>))"

section \<open>Reading in batches\<close>

lemma read_chain_append:
  "read_chain rd (xs @ ys) = (case read_chain rd xs of None \<Rightarrow> None | Some as \<Rightarrow> map_option (\<lambda>bs. as @ bs) (read_chain rd ys))"
  by (induction xs) (auto split: option.splits simp: map_option_case)

lemma foldl_rbind_Inl: "foldl (\<lambda>acc p. rbind acc (\<lambda>s. f s p)) (Inl e) ps = Inl e"
  by (induction ps) simp_all

lemma dd_flush_holds:
  assumes "batch_holds B b rs"
  shows "\<exists>b'. dd_flush rd b acc = (case read_chain rd rs of None \<Rightarrow> Inl AssertFail | Some r \<Rightarrow> Inr (b', acc @ r)) \<and>
    batch_holds B b' []"
  using batch_holds_execute [OF assms, of rd] by (auto simp: dd_flush_def split: option.splits)

text \<open>
  From a batch that holds the requests \<open>rs\<close>, with \<open>acc\<close> already read, the loop and the last flush read
  the rest as one chain would.
\<close>

lemma dd_read_loop:
  assumes "batch_holds 16 b rs" and "length rs < 16"
    and "\<And>p. p \<in> set ps \<Longrightarrow> addr_of (nat p) = Inr (A p) \<and> sz * nat (p - ns) + sz \<le> bufsz"
  shows "rbind (foldl (\<lambda>acc p. rbind acc (\<lambda>s. dd_read_step addr_of sz bufsz rd ns s p)) (Inr (b, length rs, acc)) ps)
      (\<lambda>(b, current, acc). if current > 0 then rbind (dd_flush rd b acc) (\<lambda>(_, acc'). Inr acc') else Inr acc) =
    (case read_chain rd (rs @ map (\<lambda>p. (A p, sz)) ps) of None \<Rightarrow> Inl AssertFail | Some r \<Rightarrow> Inr (acc @ r))"
  using assms
proof (induction ps arbitrary: b rs acc)
  case Nil
  obtain b' where b': "dd_flush rd b acc = (case read_chain rd rs of None \<Rightarrow> Inl AssertFail | Some r \<Rightarrow> Inr (b', acc @ r))"
    using dd_flush_holds [OF Nil(1)] by blast
  show ?case using b' by (cases "rs = []") (auto split: option.splits)
next
  case (Cons p ps)
  let ?r = "(A p, sz)" and ?f = "\<lambda>acc p. rbind acc (\<lambda>s. dd_read_step addr_of sz bufsz rd ns s p)"
  have a: "addr_of (nat p) = Inr (A p)" "sz * nat (p - ns) + sz \<le> bufsz" using Cons.prems(3) by auto
  obtain b1 where b1: "set_cur_op (emplace b) ?r = Inr b1" "batch_holds 16 b1 (rs @ [?r])"
    using batch_holds_add [OF Cons.prems(1,2)] by blast
  show ?case
  proof (cases "length rs + 1 = 16")
    case False
    then have "dd_read_step addr_of sz bufsz rd ns (b, length rs, acc) p = Inr (b1, length (rs @ [?r]), acc)"
      using a b1(1) by (simp add: dd_read_step_def)
    then show ?thesis using Cons.IH [OF b1(2), of acc] Cons.prems(2,3) False by simp
  next
    case True
    obtain b2 where b2: "dd_flush rd b1 acc = (case read_chain rd (rs @ [?r]) of None \<Rightarrow> Inl AssertFail | Some r \<Rightarrow> Inr (b2, acc @ r))"
      "batch_holds 16 b2 []" using dd_flush_holds [OF b1(2)] by blast
    have step: "dd_read_step addr_of sz bufsz rd ns (b, length rs, acc) p =
        rbind (dd_flush rd b1 acc) (\<lambda>(b2, acc'). Inr (batch_reset b2, 0, acc'))"
      using a b1(1) True by (simp add: dd_read_step_def)
    have split: "rs @ map (\<lambda>p. (A p, sz)) (p # ps) = (rs @ [?r]) @ map (\<lambda>p. (A p, sz)) ps" by simp
    show ?thesis
    proof (cases "read_chain rd (rs @ [?r])")
      case None
      then show ?thesis unfolding split read_chain_append [of rd "rs @ [?r]"]
        using step b2(1) by (simp add: foldl_rbind_Inl)
    next
      case (Some r)
      then have "foldl ?f (Inr (b, length rs, acc)) (p # ps) = foldl ?f (Inr (batch_reset b2, length [], acc @ r)) ps"
        using step b2(1) by simp
      moreover note Cons.IH [OF batch_holds_reset [OF b2(2)], of "acc @ r"] Cons.prems(3)
      ultimately show ?thesis unfolding split read_chain_append [of rd "rs @ [?r]"] using Some
        by (auto split: option.splits)
    qed
  qed
qed

lemma dd_read_pages_chain:
  assumes "\<And>p. p \<in> set [ns..ne] \<Longrightarrow> addr_of (nat p) = Inr (A p)" and "nat (ne - ns + 1) * sz \<le> bufsz"
  shows "dd_read_pages addr_of sz bufsz rd ns ne =
    (case read_chain rd (map (\<lambda>p. (A p, sz)) [ns..ne]) of None \<Rightarrow> Inl AssertFail | Some r \<Rightarrow> Inr r)"
proof -
  have fit: "sz * nat (p - ns) + sz \<le> bufsz" if "p \<in> set [ns..ne]" for p
  proof -
    have "(nat (p - ns) + 1) * sz \<le> nat (ne - ns + 1) * sz" using that by (intro mult_le_mono1) auto
    then show ?thesis using assms(2) by (simp add: algebra_simps)
  qed
  then show ?thesis
    using dd_read_loop [OF batch_holds_init, of "[ns..ne]" addr_of A sz ns bufsz rd "[]"] assms(1)
    by (simp add: dd_read_pages_def split: option.splits)
qed

section \<open>A lookup\<close>


text \<open>A page whose bytes do not fit stops the loop when all pages before it could be read.\<close>

lemma dd_read_overflow:
  assumes "\<And>p. p \<in> set [ns..ne] \<Longrightarrow> \<exists>a bs. addr_of (nat p) = Inr a \<and> rd a sz = Some bs"
    and "0 < sz" and "bufsz < nat (ne - ns + 1) * sz"
  shows "dd_read_pages addr_of sz bufsz rd ns ne = Inl OutOfRange"
proof -
  let ?f = "\<lambda>acc p. rbind acc (\<lambda>s. dd_read_step addr_of sz bufsz rd ns s p)"
  have step: "dd_read_step addr_of sz bufsz rd ns (b, length rs, acc) p = Inl OutOfRange \<or>
      (\<exists>b' rs' acc'. dd_read_step addr_of sz bufsz rd ns (b, length rs, acc) p = Inr (b', length rs', acc') \<and>
        batch_holds 16 b' rs' \<and> length rs' < 16 \<and> (\<forall>(a, n)\<in>set rs'. rd a n \<noteq> None))"
    if b: "batch_holds 16 b rs" "length rs < 16" and rs: "\<forall>(a, n)\<in>set rs. rd a n \<noteq> None" and p: "p \<in> set [ns..ne]" for b rs acc p
  proof -
    obtain a bs where a: "addr_of (nat p) = Inr a" "rd a sz = Some bs" using assms(1) [OF p] by blast
    obtain b1 where b1: "set_cur_op (emplace b) (a, sz) = Inr b1" "batch_holds 16 b1 (rs @ [(a, sz)])"
      using batch_holds_add [OF b] by blast
    obtain b2 where b2: "dd_flush rd b1 acc = (case read_chain rd (rs @ [(a, sz)]) of None \<Rightarrow> Inl AssertFail | Some r \<Rightarrow> Inr (b2, acc @ r))"
      "batch_holds 16 b2 []" using dd_flush_holds [OF b1(2)] by blast
    have "read_chain rd (rs @ [(a, sz)]) = Some (map (\<lambda>(a, n). the (rd a n)) (rs @ [(a, sz)]))"
      by (rule read_chain_Some) (use rs a(2) in auto)
    then have fl: "dd_flush rd b1 acc = Inr (b2, acc @ map (\<lambda>(a, n). the (rd a n)) (rs @ [(a, sz)]))" using b2(1) by simp
    show ?thesis
    proof (cases "length rs + 1 = 16")
      case True
      then have "dd_read_step addr_of sz bufsz rd ns (b, length rs, acc) p = Inl OutOfRange \<or>
        dd_read_step addr_of sz bufsz rd ns (b, length rs, acc) p =
          Inr (batch_reset b2, length [], acc @ map (\<lambda>(a, n). the (rd a n)) (rs @ [(a, sz)]))"
        using a(1) b1(1) fl by (simp add: dd_read_step_def)
      then show ?thesis using batch_holds_reset [OF b2(2)] by fastforce
    next
      case False
      then have "dd_read_step addr_of sz bufsz rd ns (b, length rs, acc) p = Inl OutOfRange \<or>
        dd_read_step addr_of sz bufsz rd ns (b, length rs, acc) p = Inr (b1, length (rs @ [(a, sz)]), acc)"
        using a(1) b1(1) by (simp add: dd_read_step_def)
      moreover have "\<forall>(a, n)\<in>set (rs @ [(a, sz)]). rd a n \<noteq> None" using rs a(2) by auto
      ultimately show ?thesis using b1(2) b(2) False by (metis length_append_singleton Suc_eq_plus1 Suc_lessI)
    qed
  qed
  have loop: "foldl ?f (Inr (b, length rs, acc)) ps = Inl OutOfRange"
    if "batch_holds 16 b rs" "length rs < 16" "\<forall>(a, n)\<in>set rs. rd a n \<noteq> None" "set ps \<subseteq> set [ns..ne]"
      "\<exists>p\<in>set ps. bufsz < sz * nat (p - ns) + sz" for ps b rs acc
    using that
  proof (induction ps arbitrary: b rs acc)
    case (Cons p ps)
    have p: "p \<in> set [ns..ne]" "set ps \<subseteq> set [ns..ne]" using Cons.prems(4) by auto
    from step [OF Cons.prems(1-3) p(1), of acc] show ?case
    proof (elim disjE exE conjE)
      fix b' rs' acc' assume s: "dd_read_step addr_of sz bufsz rd ns (b, length rs, acc) p = Inr (b', length rs', acc')"
        "batch_holds 16 b' rs'" "length rs' < 16" "\<forall>(a, n)\<in>set rs'. rd a n \<noteq> None"
      obtain a where "addr_of (nat p) = Inr a" using assms(1) [OF p(1)] by blast
      then have "\<not> bufsz < sz * nat (p - ns) + sz" using s(1) by (auto simp: dd_read_step_def)
      then show ?thesis using Cons.IH [OF s(2-4) p(2)] Cons.prems(5) s(1) by simp
    qed (simp add: foldl_rbind_Inl)
  qed simp
  have le: "ns \<le> ne" using assms(3) by (cases "ns \<le> ne") simp_all
  have "nat (ne - ns + 1) = nat (ne - ns) + 1" using le by linarith
  then have "nat (ne - ns + 1) * sz = sz * nat (ne - ns) + sz" by simp
  then have "\<exists>p\<in>set [ns..ne]. bufsz < sz * nat (p - ns) + sz" using assms(3) le by (intro bexI [of _ ne]) auto
  then show ?thesis using loop [OF batch_holds_init, of "[ns..ne]" "[]"] by (simp add: dd_read_pages_def)
qed

section \<open>Properties\<close>

text \<open>C15: reading the predicted pages in batches of sixteen, with a flush whenever a batch is full and one at
  the end, gives exactly the bytes that one chain of all requests gives, in the same order, and fails
  exactly when that fails, as long as the pages fit into the buffer.\<close>

theorem dd_batches:
  assumes "\<And>p. ns \<le> p \<Longrightarrow> p \<le> ne \<Longrightarrow> addr_of (nat p) = Inr (A p)" and "nat (ne - ns + 1) * sz \<le> bufsz"
  shows "dd_read_pages addr_of sz bufsz rd ns ne =
    (case read_chain rd (map (\<lambda>p. (A p, sz)) [ns..ne]) of None \<Rightarrow> Inl AssertFail | Some r \<Rightarrow> Inr r)"
  by (rule dd_read_pages_chain) (use assms in auto)

theorem dd_batches_witness:
  "dd_read_pages (\<lambda>i. Inr (of_nat (4096 * i))) 2 100 (\<lambda>a n. Some (take n (le_bytes 8 a))) 3 40 =
    (case read_chain (\<lambda>a n. Some (take n (le_bytes 8 a))) (map (\<lambda>p. (of_nat (4096 * nat p), 2)) [3..40]) of
       None \<Rightarrow> Inl AssertFail | Some r \<Rightarrow> Inr r)"
  by (rule dd_batches) simp_all




text \<open>C39: a lookup whose range spans 197 to 200 pages of sixteen 8-byte keys is not sent to the server, but the
  pages do not fit into the client's buffer of \<^verbatim>\<open>kMaxBatch * 128\<close> bytes: when the reads before succeed, the
  lookup writes behind the buffer.\<close>

theorem dd_buffer_overflow:
  fixes c :: "('m, 's, 'w::len word) two_rmi"
  assumes "select_sec_model rnd M c key = Inr m" and "rmi_predict_range rnd M M2 c key = Inr r" and "unat m < length tabs"
    and "page_range TYPE('w) 16 (tabs ! unat m) r = (ns, ne)" and "tt_size (tabs ! unat m) > 0"
    and "197 \<le> ne - ns + 1" and "ne - ns + 1 \<le> 200" and "8 \<le> LENGTH('w)"
    and "\<And>p. ns \<le> p \<Longrightarrow> p \<le> ne \<Longrightarrow>
      \<exists>a bs. get_wo_incar (tabs ! unat m) (nat p) = Inr a \<and> rd a (value_start_offset 16 8) = Some bs"
  shows "dd_core_eval rnd M M2 key_of 16 len my_buf_sz rd rpc c tabs key cl = Inl OutOfRange"
proof -
  have sz: "value_start_offset 16 8 = 130" by (simp add: value_start_offset_def offset_inplace_def)
  have "197 * 130 \<le> nat (ne - ns + 1) * 130" using assms(6) by (intro mult_le_mono1) simp
  then have over: "my_buf_sz < nat (ne - ns + 1) * value_start_offset 16 8" by (simp add: sz my_buf_sz_def kMaxBatch_def)
  have rd: "dd_read_pages (get_wo_incar (tabs ! unat m)) (value_start_offset 16 8) my_buf_sz rd ns ne = Inl OutOfRange"
    by (rule dd_read_overflow [OF _ _ over]) (use assms(9) sz in auto)
  have "(2 :: nat) ^ 8 \<le> 2 ^ LENGTH('w)" using assms(8) by (intro power_increasing) simp_all
  moreover have "(2 :: int) ^ 8 \<le> 2 ^ LENGTH('w)" using assms(8) by (intro power_increasing) simp_all
  then have p: "(200 :: int) < 2 ^ LENGTH('w)" by simp
  ultimately have "uint (of_nat kMaxBatch :: 'w word) = 200"
    unfolding kMaxBatch_def by (simp add: unsigned_of_nat take_bit_nat_eq_self)
  moreover have "uint (of_int (ne - ns + 1) :: 'w word) = ne - ns + 1"
    using assms(6,7) p by (simp only: unsigned_of_int take_bit_int_eq_self)
  ultimately have "\<not> (of_int (ne - ns + 1) :: 'w word) > of_nat kMaxBatch" using assms(7) by (simp add: word_less_def)
  then show ?thesis using assms(1-5) rd by (simp add: dd_core_eval_def)
qed

definition wide_cache :: "(lr, lr, 32 word) two_rmi" where
  "wide_cache = \<lparr>first_layer = \<lparr>dmodel = LR, dispatch_num = 1, up_bound = 3200\<rparr>,
     second_layer = [Some \<lparr>ml = LR, err_min = 0, err_max = 3199, smax = 3199\<rparr>]\<rparr>"

theorem dd_buffer_overflow_witness:
  "dd_core_eval (\<lambda>x. x) ols_lr ols_lr XKey 16 8 my_buf_sz (\<lambda>a n. Some (replicate n 0)) (\<lambda>_ _. Inl AssertFail)
    wide_cache [\<lparr>entries = replicate 200 0x4000\<rparr>] (XKey 5) sample_client = Inl OutOfRange"
proof (rule dd_buffer_overflow [where m = 0 and r = "(0, 3199)" and ns = 0 and ne = 199])
  show "select_sec_model (\<lambda>x. x) ols_lr wide_cache (XKey 5) = Inr 0"
    by (simp add: select_sec_model_def disp_predict_def double_to_usize_def wide_cache_def ols_lr_def lr_ops_def lr_predict_def LR_def unfixed_def)
  then show "rmi_predict_range (\<lambda>x. x) ols_lr ols_lr wide_cache (XKey 5) = Inr (0, 3199)"
    by (simp add: rmi_predict_range_def sub_deref_def wide_cache_def get_predict_range_def get_point_predict_def
        double_to_int_def ols_lr_def lr_ops_def lr_predict_def LR_def unfixed_def to_i32_def)
qed (simp_all add: page_range_def to_i32_def tt_size_def get_wo_incar_def tt_at_def)

end
