(* ===== verification/Transport.thy ===== *)
theory Transport
  imports Rpc
begin

text \<open>
  The transports under the RPC layer (\<^verbatim>\<open>xcomm/src/transport\<close>): sessions over unreliable datagrams
  (\<^verbatim>\<open>rdma_ud_t.hh\<close>) with the manager that adds a session for a connect message, and the wrapper of ring
  messages (\<^verbatim>\<open>rdma_ring_t.hh\<close>). The libraries r2 and rlib are parameters: what their calls return, the
  bytes of the address of a queue pair, the size of the header of the network card, and the parser of
  an address in a memory block.

  The lemmas show the handshake of a client, that a request before it leaves the session null for
  ever, and that the check of the received size does not know the size of a receive buffer.
\<close>

section \<open>Sending over datagrams\<close>

record ('q, 'a) ud_session =
  us_id :: u32
  us_ud :: 'q
  us_attr :: 'a

definition UDSession :: "u32 \<Rightarrow> 'q \<Rightarrow> 'a \<Rightarrow> ('q, 'a) ud_session" where
  "UDSession i q a = \<lparr>us_id = i, us_ud = q, us_attr = a\<rparr>"

text \<open>A transport without a session is \<open>None\<close>.\<close>

type_synonym ('q, 'a) ud_transport = "('q, 'a) ud_session option"

text \<open>\<open>wait_res\<close> and \<open>fetch_res\<close> are what the connection manager returns; an error is passed on.\<close>

definition ud_connect :: "'e + unit \<Rightarrow> 'e + 'a \<Rightarrow> u32 \<Rightarrow> 'q \<Rightarrow> ('q, 'a) ud_transport \<Rightarrow> ('e + unit) \<times> ('q, 'a) ud_transport" where
  "ud_connect wait_res fetch_res my_id qp s =
     (if s \<noteq> None then (Inr (), s)
      else case wait_res of
          Inl e \<Rightarrow> (Inl e, s)
        | Inr _ \<Rightarrow>
            (case fetch_res of
               Inl e \<Rightarrow> (Inl e, s)
             | Inr ud_attr \<Rightarrow> (Inr (), Some (UDSession my_id qp ud_attr))))"

text \<open>\<open>send\<close> is \<^verbatim>\<open>send_unsignaled\<close>, with a memory key or with that of the session.\<close>

definition ud_send :: "(('q, 'a) ud_session \<Rightarrow> u8 list \<Rightarrow> u32 option \<Rightarrow> 'r) \<Rightarrow> ('q, 'a) ud_transport \<Rightarrow> u8 list \<Rightarrow> 'r res" where
  "ud_send send s msg = (case s of None \<Rightarrow> Inl NullDeref | Some t \<Rightarrow> Inr (send t msg None))"

definition ud_send_w_key :: "(('q, 'a) ud_session \<Rightarrow> u8 list \<Rightarrow> u32 option \<Rightarrow> 'r) \<Rightarrow> ('q, 'a) ud_transport \<Rightarrow> u8 list \<Rightarrow> u32
    \<Rightarrow> 'r res" where
  "ud_send_w_key send s msg key = (case s of None \<Rightarrow> Inl NullDeref | Some t \<Rightarrow> Inr (send t msg (Some key)))"

text \<open>The address of its own queue pair, which a client sends to the server.\<close>

definition ud_get_connect_data :: "('q \<Rightarrow> 'a) \<Rightarrow> ('a \<Rightarrow> u8 list) \<Rightarrow> ('q, 'a) ud_transport \<Rightarrow> u8 list option" where
  "ud_get_connect_data my_attr attr_bytes s = (case s of None \<Rightarrow> None | Some t \<Rightarrow> Some (attr_bytes (my_attr (us_ud t))))"

section \<open>Receiving datagrams\<close>

text \<open>
  The iterator of the library over the completions of one poll. A completion is the number of the
  session and the memory from the start of its receive buffer on; a buffer has \<open>es\<close> bytes, and what
  follows it belongs to other buffers.
\<close>

type_synonym recv_iter = "(u32 \<times> u8 list) list"

definition ud_has_msgs :: "recv_iter \<Rightarrow> bool" where
  "ud_has_msgs it \<longleftrightarrow> it \<noteq> []"

definition ud_next :: "recv_iter \<Rightarrow> recv_iter" where
  "ud_next it = tl it"

definition ud_cur_session_id :: "recv_iter \<Rightarrow> u32 res" where
  "ud_cur_session_id it = (case it of [] \<Rightarrow> Inl BadOption | (i, _) # _ \<Rightarrow> Inr i)"

text \<open>A message always has 4000 bytes, behind the header of the network card.\<close>

definition ud_msg :: "nat \<Rightarrow> u8 list \<Rightarrow> u8 list" where
  "ud_msg kGRHSz mem = take 4000 (drop kGRHSz mem)"

definition ud_cur_msg :: "nat \<Rightarrow> recv_iter \<Rightarrow> u8 list res" where
  "ud_cur_msg kGRHSz it = (case it of [] \<Rightarrow> Inl BadOption | (_, mem) # _ \<Rightarrow> Inr (ud_msg kGRHSz mem))"

text \<open>The messages of a poll, as \<open>begin\<close>, \<open>has_msgs\<close> and \<open>next\<close> give them to the loops of \<^verbatim>\<open>rpc/mod.hh\<close>.\<close>

function ud_msgs :: "nat \<Rightarrow> recv_iter \<Rightarrow> (u32 \<times> u8 list) list" where
  "ud_msgs g it =
     (if ud_has_msgs it then
        case (ud_cur_session_id it, ud_cur_msg g it) of (Inr i, Inr m) \<Rightarrow> (i, m) # ud_msgs g (ud_next it) | _ \<Rightarrow> []
      else [])"
  by pat_completeness auto
termination
  by (relation "measure (\<lambda>(g, it). length it)") (auto simp: ud_has_msgs_def ud_next_def)

section \<open>Sessions\<close>

definition ud_add_impl :: "(u8 list \<Rightarrow> 'a option) \<Rightarrow> 'q \<Rightarrow> u32 \<Rightarrow> u8 list \<Rightarrow> ('q, 'a) ud_session res" where
  "ud_add_impl interpret_as qp i raw_connect_data =
     (case interpret_as raw_connect_data of
        None \<Rightarrow> Inl AssertFail
      | Some attr \<Rightarrow> Inr (UDSession i qp attr))"

section \<open>Ring messages\<close>

definition rring_send :: "('c \<Rightarrow> u8 list \<Rightarrow> 'r) \<Rightarrow> 'c \<Rightarrow> u8 list \<Rightarrow> 'r" where
  "rring_send send core msg = send core msg"

definition rring_send_w_key :: "'c \<Rightarrow> u8 list \<Rightarrow> u32 \<Rightarrow> string + string" where
  "rring_send_w_key core msg key = Inl ''not implemented!''"

section \<open>Lemmas\<close>

declare ud_msgs.simps [simp del]

lemma ud_msgs_map: "ud_msgs g it = map (\<lambda>(i, mem). (i, ud_msg g mem)) it"
  by (induction it) (auto simp: ud_msgs.simps [of g "_ # _"] ud_msgs.simps [of g "[]"] ud_has_msgs_def
      ud_cur_session_id_def ud_cur_msg_def ud_next_def)

lemma ud_msg_at:
  assumes "length grh = g" and "length m \<le> 4000"
  shows "\<exists>rest'. ud_msg g (grh @ m @ rest) = m @ rest'"
  using assms by (simp add: ud_msg_def)

text \<open>A session that is null stays null.\<close>

lemma recv_msg_null:
  assumes "incoming_sessions c i = Some None" and "recv_msg add (c, w) m = Inr (h, c', w')"
  shows "incoming_sessions c' i = Some None"
proof -
  obtain s msg where m: "m = (s, msg)" by fastforce
  show ?thesis
    using assms(1) assms(2) unfolding m
    by (auto simp: recv_msg_def rbind_Inr_iff Let_def fun_upd_apply split: if_splits option.splits prod.splits)
qed

section \<open>Properties\<close>

text \<open>C21: the handshake: a client that has connected to the server's queue pair sends the address of its own,
  in a connect message; the server that receives it in one of its buffers has a session for the
  client afterwards, over its own queue pair and with the client's address, and keeps the other
  sessions.\<close>

theorem ud_handshake:
  fixes c :: "(('q, 'a) ud_session, 'w) rpc_core"
  assumes conn: "ud_connect (Inr ()) (Inr srv) my_id cqp None = (r, s)"
    and data: "ud_get_connect_data my_attr attr_bytes s = Some d" "interpret_as (attr_bytes (my_attr cqp)) = Some a"
    and room: "8 + length d \<le> length buf" "8 + length d \<le> 4000" and g: "length grh = g" and new: "incoming_sessions c i = None"
  shows "\<exists>op. get_connect_op h0 buf d = Inr op \<and>
    recv_event_loop (ud_add_impl interpret_as sqp) (c, w) (ud_msgs g [(i, grh @ omsg (op_finalize op) @ rest)]) =
      Inr (1, c\<lparr>incoming_sessions := (incoming_sessions c)(i \<mapsto> Some (UDSession i sqp a))\<rparr>, w) \<and>
    s = Some (UDSession my_id cqp srv)"
proof -
  have s: "s = Some (UDSession my_id cqp srv)" using conn by (simp add: ud_connect_def)
  then have d: "d = attr_bytes (my_attr cqp)" using data(1) by (simp add: ud_get_connect_data_def UDSession_def)
  obtain op where op: "set_msg buf (RPCOp h0) = Inr op" "op_ok op []" "omsg op = buf"
    using set_msg_ok [of buf "RPCOp h0"] room(1) by auto
  have "op_ok (set_connect op) []" "8 + length [] + length d \<le> length (omsg (set_connect op))"
    using op(2,3) room(1) by (simp_all add: op_simps)
  then obtain op' where op': "add_opaque d (set_connect op) = (True, op')" "op_ok op' d" "oheader op' = oheader (set_connect op)"
    using add_opaque_ok [of "set_connect op" "[]" d] by auto
  have n: "length d < 2 ^ 18" using room(2) by simp
  let ?m = "omsg (op_finalize op')"
  have "length ?m \<le> 4000" using finalized_message(1) [OF op'(2) n] room(2) by simp
  then obtain rest' where m: "ud_msg g (grh @ ?m @ rest) = ?m @ rest'" using ud_msg_at [OF g, of ?m rest] by blast
  have "recv_msg (ud_add_impl interpret_as sqp) (c, w) (i, ?m @ rest') =
      Inr ((oheader op')\<lparr>hpayload := of_nat (length d)\<rparr>,
        c\<lparr>incoming_sessions := (incoming_sessions c)(i \<mapsto> Some (UDSession i sqp a))\<rparr>, w)"
    unfolding recv_msg_parsed [OF op'(2) n]
    using new data(2) by (simp add: op'(3) op_simps Req_def Reply_def Connect_def ud_add_impl_def d)
  then have "recv_event_loop (ud_add_impl interpret_as sqp) (c, w) (ud_msgs g [(i, grh @ ?m @ rest)]) =
      Inr (1, c\<lparr>incoming_sessions := (incoming_sessions c)(i \<mapsto> Some (UDSession i sqp a))\<rparr>, w)"
    by (simp add: recv_event_loop_def ud_msgs_map m)
  moreover have "get_connect_op h0 buf d = Inr op'" using op(1) op'(1) by (simp add: get_connect_op_def)
  ultimately show ?thesis using s by blast
qed

definition fresh_server :: "((nat, u8 list) ud_session, u8 list) rpc_core" where
  "fresh_server = RPCCore 4"

theorem ud_handshake_witness:
  "\<exists>op. get_connect_op Header0 (replicate 64 0) [1, 2, 3] = Inr op \<and>
    recv_event_loop (ud_add_impl (\<lambda>d. Some d) (9 :: nat)) (fresh_server, []) (ud_msgs 40 [(7, replicate 40 0 @ omsg (op_finalize op) @ [5])]) =
      Inr (1, fresh_server
        \<lparr>incoming_sessions := (incoming_sessions fresh_server)(7 \<mapsto> Some (UDSession 7 9 [1, 2, 3]))\<rparr>, []) \<and>
    Some (UDSession 3 (8 :: nat) [4 :: u8]) = Some (UDSession 3 8 [4])"
  by (rule ud_handshake [where r = "Inr ()" and attr_bytes = id and my_attr = "\<lambda>_. [1, 2, 3]" and cqp = 8 and
      s = "Some (UDSession 3 8 [4])" and d = "[1, 2, 3]" and a = "[1, 2, 3]"])
    (simp_all add: ud_connect_def ud_get_connect_data_def UDSession_def RPCCore_def fresh_server_def)

text \<open>C33: a request that is handled before the connect message of its session inserts a null session; the
  manager inserts only when the number is free, so that whatever is received afterwards, connect
  messages included, the session stays null.\<close>

theorem request_before_connect:
  fixes c :: "(('q, 'a) ud_session, 'w) rpc_core"
  assumes "incoming_sessions c i = None" and "length m \<ge> 8"
    and "htype (header_of_word (of_le_bytes (take 4 m))) = Req"
    and "recv_event_loop (ud_add_impl interpret_as qp) (c, w) ((i, m) # ms) = Inr (n, c', w')"
  shows "incoming_sessions c' i = Some None"
proof -
  let ?add = "ud_add_impl interpret_as qp"
  let ?f = "\<lambda>acc m. rbind acc (\<lambda>(num :: nat, cw :: (('q, 'a) ud_session, 'w) rpc_core \<times> 'w). rbind (recv_msg ?add cw m) (\<lambda>(_, cw'). Inr (num + 1, cw')))"
  have err: "foldl ?f (Inl e) ms = Inl e" for e ms by (induction ms) simp_all
  obtain h c1 w1 where 1: "recv_msg ?add (c, w) (i, m) = Inr (h, c1, w1)" "foldl ?f (Inr (1, c1, w1)) ms = Inr (n, c', w')"
    using assms(4) err by (cases "recv_msg ?add (c, w) (i, m)") (auto simp: recv_event_loop_def)
  have "incoming_sessions c1 i = Some None"
    using 1(1) assms(1,3) by (auto simp: recv_msg_def rbind_Inr_iff Let_def split: if_splits option.splits)
  then show ?thesis using 1(2)
  proof (induction ms arbitrary: n c' w' rule: rev_induct)
    case (snoc x ms)
    then obtain n2 c2 w2 h2 where eq: "foldl ?f (Inr (1, c1, w1)) ms = Inr (n2, c2, w2)" "recv_msg ?add (c2, w2) x = Inr (h2, c', w')"
      by (auto simp: rbind_Inr_iff split: prod.splits)
    from recv_msg_null [OF snoc.IH [OF snoc.prems(1) eq(1)] eq(2)] show ?case .
  qed simp
qed

text \<open>A request, then the connect message, then another request of session 7.\<close>

definition sample_req :: "u8 list" where
  "sample_req = [1, 0, 0, 0, 0, 0, 0, 0]"

definition sample_connect :: "u8 list" where
  "sample_connect = [3, 0, 0, 0, 0, 0, 0, 0]"

definition sample_recorder :: "((nat, unit) ud_session, nat list) rpc_core" where
  "sample_recorder = (RPCCore 1)\<lparr>callbacks := [\<lambda>h p ch w. Inr (w @ [case ch of None \<Rightarrow> 0 | Some _ \<Rightarrow> 1])]\<rparr>"

theorem request_before_connect_witness:
  "\<exists>n c'. recv_event_loop (ud_add_impl (\<lambda>_. Some ()) (5 :: nat)) (sample_recorder, []) [(7, sample_req), (7, sample_connect), (7, sample_req)] =
      Inr (n, c', [0, 0]) \<and> incoming_sessions c' 7 = Some None"
proof -
  have hq: "header_of_word (of_le_bytes (take 4 sample_req)) = Header0\<lparr>htype := 1\<rparr>" "length sample_req = 8"
    and hc: "header_of_word (of_le_bytes (take 4 sample_connect)) = Header0\<lparr>htype := 3\<rparr>" "length sample_connect = 8"
    by (simp_all add: sample_req_def sample_connect_def header_of_word_def Header0_def)
  obtain n c' where r: "recv_event_loop (ud_add_impl (\<lambda>_. Some ()) (5 :: nat)) (sample_recorder, []) [(7, sample_req), (7, sample_connect), (7, sample_req)] =
      Inr (n, c', [0, 0])"
    by (simp add: recv_event_loop_def recv_msg_def hq hc sizeof_Header_def Let_def Header0_def Req_def Reply_def Connect_def
        sample_recorder_def RPCCore_def ud_add_impl_def)
  have "incoming_sessions c' 7 = Some None"
    by (rule request_before_connect [OF _ _ _ r]) (simp_all add: hq Header0_def Req_def sample_recorder_def RPCCore_def)
  then show ?thesis using r by blast
qed

text \<open>The check of the received size does not know the size of a receive buffer. A request whose header
  claims a payload of up to 3992 bytes is accepted, and when the payload ends behind the buffer of
  \<open>es\<close> bytes the handler is given bytes that belong to the next buffer.\<close>

theorem ud_overlong_payload:
  fixes c :: "('ch, 'w) rpc_core"
  assumes h: "h = header_of_word (of_le_bytes (take 4 (drop g buf)))" "htype h = Req" "unat (hrpc_id h) < length (callbacks c)"
    and sz: "g + 8 \<le> length buf" "length buf < g + 8 + unat (hpayload h)" "unat (hpayload h) \<le> 3992"
      "g + 4000 \<le> length (buf @ nb)"
    and s: "incoming_sessions c i = Some ch"
  shows "recv_msg add (c, w) (i, ud_msg g (buf @ nb)) =
    rbind ((callbacks c ! unat (hrpc_id h)) h (drop (g + 8) buf @ take (g + 8 + unat (hpayload h) - length buf) nb) ch w)
      (\<lambda>w'. Inr (h, c, w'))"
proof -
  let ?m = "ud_msg g (buf @ nb)" and ?p = "unat (hpayload h)"
  have l: "length ?m = 4000" using sz(4) by (simp add: ud_msg_def)
  have "take 4 ?m = take 4 (drop g buf)" using sz(1) by (simp add: ud_msg_def)
  then have hd: "header_of_word (of_le_bytes (take 4 ?m)) = h" by (simp only: h(1))
  have "take ?p (drop 8 ?m) = drop (g + 8) buf @ take (g + 8 + ?p - length buf) nb"
    using sz by (simp add: ud_msg_def drop_take add.commute)
  then show ?thesis
    unfolding recv_msg_def using h(2,3) s l sz(3) by (simp add: hd sizeof_Header_def Let_def)
qed

theorem ud_overlong_payload_witness:
  "recv_msg (ud_add_impl (\<lambda>_. Some ()) (5 :: nat)) (sample_recorder\<lparr>incoming_sessions := [7 \<mapsto> None]\<rparr>, []) (7, ud_msg 40 ((replicate 40 0 @ [1, 5, 0, 0, 0, 0, 0, 0]) @ replicate 4000 9)) =
    rbind ((callbacks (sample_recorder\<lparr>incoming_sessions := [7 \<mapsto> None]\<rparr>) ! unat (hrpc_id (header_of_word 1281)))
      (header_of_word 1281) (drop (40 + 8) (replicate 40 0 @ [1, 5, 0, 0, 0, 0, 0, 0]) @
        take (40 + 8 + unat (hpayload (header_of_word 1281)) - length (replicate 40 (0 :: u8) @ [1, 5, 0, 0, 0, 0, 0, 0])) (replicate 4000 9)) None [])
      (\<lambda>w'. Inr (header_of_word 1281, sample_recorder\<lparr>incoming_sessions := [7 \<mapsto> None]\<rparr>, w'))"
  by (rule ud_overlong_payload) (simp_all add: header_of_word_def Req_def sample_recorder_def RPCCore_def)

end
