(* ===== verification/Server.thy ===== *)
theory Server
  imports DataDist
begin

text \<open>
  The main programs of the two servers (\<^verbatim>\<open>benchs/ycsb/server/main.cc\<close>, \<^verbatim>\<open>benchs/data_dist/server/main.cc\<close>):
  the registered memory region (\<^verbatim>\<open>xutils/huge_region.hh\<close>) is cut into the pool of leaves, the values
  and the models; then the database is loaded, trained, serialized, and the models are checked.

  The lemmas show that the number of leaves that the second server estimates is enough for every set
  of keys, so that the server comes up and finds every key that was loaded.
\<close>

section \<open>Memory\<close>

text \<open>\<^verbatim>\<open>mmap\<close> is the operating system's; the result is the start and the size of the region.\<close>

definition align_to_sz :: "u64 \<Rightarrow> u64 \<Rightarrow> u64" where
  "align_to_sz x align_sz = (x + align_sz - 1) div align_sz * align_sz"

definition HugeRegion :: "(u64 \<Rightarrow> addr option) \<Rightarrow> u64 \<Rightarrow> u64 \<Rightarrow> (addr \<times> u64) option" where
  "HugeRegion mmap sz align_sz =
     (let sz' = align_to_sz (sz + align_sz) align_sz in
      case mmap sz' of None \<Rightarrow> None | Some p \<Rightarrow> if p \<noteq> 0 then Some (p, sz') else None)"

text \<open>\<^verbatim>\<open>MemoryRegion\<close> (\<^verbatim>\<open>xutils/memory_region.hh\<close>); registered memory of the library is its size and start.\<close>

record memory_region =
  mr_sz :: u64
  mr_addr :: addr

definition MemoryRegion :: "u64 \<Rightarrow> addr \<Rightarrow> memory_region" where
  "MemoryRegion sz a = \<lparr>mr_sz = sz, mr_addr = a\<rparr>"

definition mr_valid :: "memory_region \<Rightarrow> bool" where
  "mr_valid r \<longleftrightarrow> mr_addr r \<noteq> 0"

definition convert_to_rmem :: "memory_region \<Rightarrow> (u64 \<times> addr) option" where
  "convert_to_rmem r = (if \<not> mr_valid r then None else Some (mr_sz r, mr_addr r))"

definition DRAMRegion :: "(u64 \<Rightarrow> addr) \<Rightarrow> u64 \<Rightarrow> memory_region option" where
  "DRAMRegion new sz = Some (MemoryRegion sz (new sz))"

record server_mem =
  sm_pool :: xalloc
  sm_val_buf :: u64
  sm_model_buf :: u64
  sm_buf_end :: u64

text \<open>\<open>S\<close> is the size of a leaf, \<open>leaves\<close> the number of leaves the pool is made for.\<close>

definition server_mem :: "bool \<Rightarrow> u64 \<Rightarrow> u64 \<Rightarrow> u64 \<Rightarrow> addr \<times> u64 \<Rightarrow> server_mem res" where
  "server_mem vlen S leaves alloc_mem_m region =
     (let (start, sz) = region; total_sz = S * leaves in
      rbind (cassert (sz > total_sz)) (\<lambda>_.
      let val_buf = start + total_sz;
          model_buf = (if vlen then val_buf + 1024 * 1024 * 1024 * 6 else val_buf);
          buf_end = start + alloc_mem_m * 1024 * 1024 in
      rbind (cassert (model_buf < buf_end)) (\<lambda>_.
      Inr \<lparr>sm_pool = XAlloc start total_sz, sm_val_buf = val_buf, sm_model_buf = model_buf, sm_buf_end = buf_end\<rparr>)))"

definition ycsb_leaves :: u64 where
  "ycsb_leaves = 15000000"

definition estimated_leaves :: "u64 \<Rightarrow> u64 \<Rightarrow> u64" where
  "estimated_leaves kNPageKey nkeys = nkeys div (kNPageKey div 2) + 16"

text \<open>The spare leaf is prepared before anything is loaded.\<close>

definition server_boot :: "bool \<Rightarrow> u64 \<Rightarrow> nat \<Rightarrow> u64 \<Rightarrow> u64 \<Rightarrow> (u64 \<Rightarrow> addr option)
    \<Rightarrow> ((('k::order_top, u64) xtree \<times> xalloc) \<times> server_mem) res" where
  "server_boot vlen S N leaves alloc_mem_m mmap =
     rbind (opt_value (HugeRegion mmap (alloc_mem_m * 1024 * 1024) (2 * 2 ^ 20))) (\<lambda>region.
     rbind (server_mem vlen S leaves alloc_mem_m region) (\<lambda>sm.
     rbind (init_pre_alloced_leaf (xalloc_alloc S) N 8 XTree (sm_pool sm)) (\<lambda>db. Inr (db, sm))))"

section \<open>The programs\<close>

text \<open>The models that are logged, with \<^verbatim>\<open>at(i)\<close>; a model that has seen no key is skipped.\<close>

definition check_models :: "nat \<Rightarrow> ('m, 's, 'w::len word) two_rmi \<Rightarrow> (nat \<times> int \<times> int) list res" where
  "check_models n c =
     foldl (\<lambda>acc i. rbind acc (\<lambda>l. rbind (sub_deref c i) (\<lambda>s.
       Inr (if smax s \<noteq> 0 then l @ [(i, total_error s, smax s)] else l)))) (Inr []) [0..<n]"

text \<open>
  \<open>load\<close> is the loader of the data set. With \<^verbatim>\<open>--vlen\<close> the tree that is trained is \<^verbatim>\<open>dbv\<close>, into which
  nothing has been loaded. \<open>mem\<close> is what the memory behind the leaves holds.
\<close>

definition dd_main :: "(real \<Rightarrow> real) \<Rightarrow> (nat \<Rightarrow> string) \<Rightarrow> ('k \<Rightarrow> real) \<Rightarrow> 'm dd_flags
    \<Rightarrow> ('m, 'k::{linorder,order_bot,order_top}) ml_ops \<Rightarrow> ('s, 'k) ml_ops \<Rightarrow> u64 \<Rightarrow> nat \<Rightarrow> nat \<Rightarrow> u64 \<Rightarrow> nat
    \<Rightarrow> (u64 \<Rightarrow> addr option) \<Rightarrow> (('k, u64) xtree \<times> xalloc \<Rightarrow> (('k, u64) xtree \<times> xalloc) res) \<Rightarrow> u8 list
    \<Rightarrow> 'w::len word \<Rightarrow> ('m, 's, 'w word) ycsb_db
    \<Rightarrow> ((('k, u64) xtree \<times> xalloc) \<times> ('m, 's, 'w word) ycsb_db \<times> (u64 \<times> u64 \<times> u8 list) \<times> (nat \<times> int \<times> int) list) res option" where
  "dd_main rnd to_string to_scalar fl M M2 S N n alloc_mem_m ncheck mmap load mem num_sub tdb =
     fbind (Some (server_boot (use_vlen fl) S N (estimated_leaves (of_nat N) (flag_nkeys fl)) alloc_mem_m mmap)) (\<lambda>(db, sm).
     fbind (Some (load db)) (\<lambda>db'.
     fbind (if use_vlen fl then dd_train_db rnd to_string to_scalar fl M M2 N n num_sub (XTree :: ('k, fat_pointer) xtree) tdb
            else dd_train_db rnd to_string to_scalar fl M M2 N n num_sub (fst db') tdb) (\<lambda>(tdb', plots).
     case cache tdb' of
       None \<Rightarrow> Some (Inl NullDeref)
     | Some c \<Rightarrow>
         fbind (Some (dd_serialize_db M2 (sm_model_buf sm) (sm_buf_end sm) c (tts tdb') mem)) (\<lambda>img.
         fbind (Some (check_models ncheck c)) (\<lambda>logged.
         Some (Inr (db', tdb', img, logged)))))))"

definition ycsb_main :: "(real \<Rightarrow> real) \<Rightarrow> ('m, xkey) ml_ops \<Rightarrow> ('s, xkey) ml_ops \<Rightarrow> u64 \<Rightarrow> nat \<Rightarrow> nat \<Rightarrow> u64 \<Rightarrow> nat
    \<Rightarrow> (u64 \<Rightarrow> addr option) \<Rightarrow> u64 option list option \<Rightarrow> u64 \<Rightarrow> u8 list \<Rightarrow> 'w::len word \<Rightarrow> ('m, 's, 'w word) ycsb_db
    \<Rightarrow> (((xkey, u64) xtree \<times> xalloc) \<times> ('m, 's, 'w word) ycsb_db \<times> (u64 \<times> u64 \<times> u8 list) \<times> (nat \<times> int \<times> int) list) res option" where
  "ycsb_main rnd M M2 S N n alloc_mem_m ncheck mmap file nkeys mem num_sub tdb =
     fbind (Some (server_boot False S N ycsb_leaves alloc_mem_m mmap)) (\<lambda>(db, sm).
     fbind (Some (case file of Some lines \<Rightarrow> load_keys S N db (take (unat nkeys) lines) | None \<Rightarrow> load_linear S N db nkeys)) (\<lambda>db'.
     fbind (train_db rnd False M M2 N n num_sub (fst db') tdb) (\<lambda>tdb'.
     case cache tdb' of
       None \<Rightarrow> Some (Inl NullDeref)
     | Some c \<Rightarrow>
         fbind (Some (serialize_db M2 (sm_model_buf sm) (sm_buf_end sm) c (tts tdb') mem)) (\<lambda>img.
         fbind (Some (check_models ncheck c)) (\<lambda>logged.
         Some (Inr (db', tdb', img, logged)))))))"

text \<open>
  With \<^verbatim>\<open>--vlen\<close> this server loads \<^verbatim>\<open>dbv\<close>, a tree without a spare leaf: a value takes \<^verbatim>\<open>len\<close> bytes, and
  the cursor moves only when the file has a key.
\<close>

definition ycsb_main_v :: "(real \<Rightarrow> real) \<Rightarrow> ('m, xkey) ml_ops \<Rightarrow> ('s, xkey) ml_ops \<Rightarrow> u64 \<Rightarrow> nat \<Rightarrow> nat \<Rightarrow> u64 \<Rightarrow> nat
    \<Rightarrow> (u64 \<Rightarrow> addr option) \<Rightarrow> u32 \<Rightarrow> u64 option list option \<Rightarrow> u64 \<Rightarrow> u8 list \<Rightarrow> 'w::len word \<Rightarrow> ('m, 's, 'w word) ycsb_db
    \<Rightarrow> (((xkey, fat_pointer) xtree \<times> xalloc) \<times> ('m, 's, 'w word) ycsb_db \<times> (u64 \<times> u64 \<times> u8 list) \<times> (nat \<times> int \<times> int) list) res option" where
  "ycsb_main_v rnd M M2 S N n alloc_mem_m ncheck mmap len file nkeys mem num_sub tdb =
     fbind (Some (server_boot True S N ycsb_leaves alloc_mem_m mmap :: (((xkey, u64) xtree \<times> xalloc) \<times> server_mem) res)) (\<lambda>(db, sm).
     fbind (Some (case file of
         Some lines \<Rightarrow> load_keys_v S N len (sm_val_buf sm) (sm_model_buf sm) (XTree, snd db) (take (unat nkeys) lines)
       | None \<Rightarrow> load_linear_v S N len (sm_val_buf sm) (sm_model_buf sm) (XTree, snd db) nkeys)) (\<lambda>dbv.
     fbind (train_db rnd True M M2 N n num_sub (fst dbv) tdb) (\<lambda>tdb'.
     case cache tdb' of
       None \<Rightarrow> Some (Inl NullDeref)
     | Some c \<Rightarrow>
         fbind (Some (serialize_db M2 (sm_model_buf sm) (sm_buf_end sm) c (tts tdb') mem)) (\<lambda>img.
         fbind (Some (check_models ncheck c)) (\<lambda>logged.
         Some (Inr (dbv, tdb', img, logged)))))))"

section \<open>The pool is large enough\<close>

text \<open>The slab allocator of one pool, which stays where it is.\<close>

definition xpool_inv :: "u64 \<Rightarrow> addr \<Rightarrow> u64 \<Rightarrow> xalloc \<Rightarrow> bool" where
  "xpool_inv S m sz a \<longleftrightarrow> xalloc_inv S a \<and> mem_pool a = m \<and> total_sz a = sz"

interpretation xp: alloc_trait "xalloc_alloc S" "xalloc_live S" "xpool_inv S m sz" for S :: u64 and m sz
proof unfold_locales
  fix s s' r assume "xpool_inv S m sz s" "xalloc_alloc S s = (s', r)"
  then show "xpool_inv S m sz s'"
    using xa.alloc_inv [of S s s' r] by (auto simp: xpool_inv_def xalloc_alloc_def Let_def split: if_splits)
qed (auto simp: xpool_inv_def dest: xa.alloc_fresh xa.alloc_live xa.alloc_fail)

lemma xpool_live:
  assumes s: "xpool_inv S m sz s" and "a \<in> xalloc_live S s"
  shows "unat m \<le> unat a" "unat a \<le> unat m + unat sz"
proof -
  obtain i where i: "i < cur_alloc_num s" "a = mem_pool s + of_nat i * S" using assms(2) by (auto simp: xalloc_live_def)
  have inv: "xalloc_inv S s" "mem_pool s = m" "total_sz s = sz" using s by (simp_all add: xpool_inv_def)
  have "i * unat S \<le> cur_alloc_num s * unat S" using i(1) by simp
  also have "\<dots> \<le> unat sz" using inv by (auto simp: xalloc_inv_def word_le_nat_alt)
  finally show "unat a \<le> unat m + unat sz" "unat m \<le> unat a"
    using xalloc_block_addr [OF inv(1) less_imp_le [OF i(1)]] inv(2) i(2) by simp_all
qed

text \<open>A tree with a spare leaf and room for all but \<open>r\<close> leaves.\<close>

definition pool_ok :: "u64 \<Rightarrow> addr \<Rightarrow> u64 \<Rightarrow> nat \<Rightarrow> nat \<Rightarrow> ('k::{linorder,order_bot,order_top}, 'v) xtree \<times> xalloc \<Rightarrow> bool" where
  "pool_ok S m sz N r db \<longleftrightarrow> xtree_ainv (xalloc_live S) (xpool_inv S m sz) N (fst db) (snd db) \<and>
     pre_alloc_leaf_node (fst db) \<noteq> 0 \<and> half_full N (fst db) \<and> finite (dom (xtree_map (fst db))) \<and>
     length (tree_leaves (fst db)) \<le> r \<and> can_alloc (xalloc_alloc S) (r - length (tree_leaves (fst db))) (snd db)"

lemma pool_ok_put:
  fixes db :: "('k::{linorder,order_bot,order_top}, 'v) xtree \<times> xalloc"
  assumes p: "pool_ok S m psz N r db" and N: "2 \<le> N" and k: "k \<noteq> top" "k \<notin> dom (xtree_map (fst db))"
    and r: "card (dom (xtree_map (fst db))) div (N div 2) + 2 \<le> r"
  shows "\<exists>db'. tree_put S N sz db k v = Inr db' \<and> pool_ok S m psz N r db' \<and>
    xtree_map (fst db') = (xtree_map (fst db))(k \<mapsto> v) \<and> root (fst db') \<noteq> NullPtr"
proof -
  note P = p [unfolded pool_ok_def]
  let ?l = "length (tree_leaves (fst db))"
  have "?l \<le> max 1 (card (dom (xtree_map (fst db))) div (N div 2))"
    by (rule leaves_le_keys [OF xtree_ainvD(1) [OF conjunct1 [OF P]] _ N]) (use P in blast)
  then have "Suc ?l \<le> r" using r by simp
  then have eq: "r - ?l = Suc (r - Suc ?l)" by simp
  then have room: "can_alloc (xalloc_alloc S) (Suc (r - Suc ?l)) (snd db)" using P by (simp del: can_alloc.simps)
  from P xp.insert_with_candidate [OF _ _ N k room, of m psz sz v] obtain ret t' s' where
    i: "insert_w_alloc (xalloc_alloc S) N sz (fst db) (snd db) k v = Inr (ret, t', s')"
      "xtree_ainv (xalloc_live S) (xpool_inv S m psz) N t' s'" "xtree_map t' = (xtree_map (fst db))(k \<mapsto> v)"
      "pre_alloc_leaf_node t' \<noteq> 0" "can_alloc (xalloc_alloc S) (if ret then r - Suc ?l else Suc (r - Suc ?l)) s'"
      "length (tree_leaves t') = ?l + (if ret then 1 else 0)" "half_full N (fst db) \<longrightarrow> half_full N t'" "root t' \<noteq> NullPtr"
    by blast
  have "pool_ok S m psz N r (t', s')"
    unfolding pool_ok_def using i(2-7) P \<open>Suc ?l \<le> r\<close> eq by (cases ret) (simp_all del: can_alloc.simps)
  then show ?thesis using i(1,3,8) by (intro exI [of _ "(t', s')"]) (simp add: tree_put_def)
qed

text \<open>The tree of such a state can be trained over.\<close>

lemma pool_ok_walk:
  assumes p: "pool_ok S m sz N r db" and N: "2 \<le> N" and t: "root (fst db) \<noteq> NullPtr"
    and small: "(card (dom (xtree_map (fst db))) div (N div 2) + 1) * N \<le> 2 ^ 30" and m: "unat m + unat sz < 2 ^ 56"
  shows "walk_ok gen_f_default N (fst db)"
proof -
  note P = p [unfolded pool_ok_def]
  have "length (tree_leaves (fst db)) \<le> max 1 (card (dom (xtree_map (fst db))) div (N div 2))"
    by (rule leaves_le_keys [OF xtree_ainvD(1) [OF conjunct1 [OF P]] _ N]) (use P in blast)
  then have "length (tree_leaves (fst db)) * N \<le> (card (dom (xtree_map (fst db))) div (N div 2) + 1) * N"
    by (intro mult_le_mono1) simp
  moreover have "unat (gen_f_default a) < 2 ^ 56" if "a \<in> set (tree_leaves (fst db))" for a
    using that P xpool_live(2) [of S m sz "snd db" a] m
    by (cases "a = 0") (auto simp: xtree_ainv_def gen_f_default_def held_def subset_iff)
  ultimately show ?thesis using small N t P by (simp add: walk_ok_def xtree_ainv_def)
qed

text \<open>The loader of the log-normal data set reads the first \<open>nkeys\<close> lines.\<close>

lemma load_from_file_ok:
  assumes "pool_ok S mp psz N r db" and "2 \<le> N" and "set (map (XKey \<circ> conv) (take m lines)) \<inter> dom (xtree_map (fst db)) = {}"
    and "distinct (map conv (take m lines))" and "- 1 \<notin> set (map conv (take m lines))"
    and "(card (dom (xtree_map (fst db))) + m) div (N div 2) + 2 \<le> r"
  shows "\<exists>db'. load_from_file S N conv m db lines = Inr db' \<and> pool_ok S mp psz N r db' \<and>
    (m \<noteq> 0 \<and> lines \<noteq> [] \<or> root (fst db) \<noteq> NullPtr \<longrightarrow> root (fst db') \<noteq> NullPtr) \<and>
    xtree_map (fst db') = xtree_map (fst db) ++ map_of (map (\<lambda>l. (XKey (conv l), conv l)) (take m lines))"
  using assms
proof (induction m arbitrary: db lines)
  case (Suc m)
  show ?case
  proof (cases lines)
    case Nil
    then show ?thesis using Suc.prems(1) by (simp add: next_key_def)
  next
    case (Cons l lines')
    let ?n = "card (dom (xtree_map (fst db)))"
    have k: "XKey (conv l) \<noteq> top" "XKey (conv l) \<notin> dom (xtree_map (fst db))"
      using Suc.prems(3,5) Cons by (auto simp: xkey_defs)
    have mono: "?n div (N div 2) \<le> (?n + Suc m) div (N div 2)" by (rule div_le_mono) simp
    obtain db1 where p: "tree_put S N 8 db (XKey (conv l)) (conv l) = Inr db1" "pool_ok S mp psz N r db1"
      "xtree_map (fst db1) = (xtree_map (fst db))(XKey (conv l) \<mapsto> conv l)" "root (fst db1) \<noteq> NullPtr"
      using pool_ok_put [OF Suc.prems(1,2) k, of 8 "conv l"] Suc.prems(6) mono by auto
    have d: "set (map (XKey \<circ> conv) (take m lines')) \<inter> dom (xtree_map (fst db1)) = {}"
      unfolding p(3) using Suc.prems(3,4) Cons by auto
    have fin: "finite (dom (xtree_map (fst db)))" using Suc.prems(1) by (simp add: pool_ok_def)
    have c: "card (dom (xtree_map (fst db1))) + m = ?n + Suc m" unfolding p(3) using fin k(2) by simp
    have "distinct (map conv (take m lines'))" "- 1 \<notin> set (map conv (take m lines'))" using Suc.prems(4,5) Cons by auto
    from Suc.IH [OF p(2) Suc.prems(2) d this] Suc.prems(6) c obtain db' where
      i: "load_from_file S N conv m db1 lines' = Inr db'" "pool_ok S mp psz N r db'"
        "xtree_map (fst db') = xtree_map (fst db1) ++ map_of (map (\<lambda>l. (XKey (conv l), conv l)) (take m lines'))"
        "root (fst db') \<noteq> NullPtr" using p(4) by auto
    have "XKey (conv l) \<notin> dom (map_of (map (\<lambda>l. (XKey (conv l), conv l)) (take m lines')))"
      using Suc.prems(4) Cons by (auto simp: dom_map_of_conv_image_fst)
    from map_upd_add_map_of [OF this, of "xtree_map (fst db)" "conv l"]
    have "xtree_map (fst db') = xtree_map (fst db) ++ map_of (map (\<lambda>l. (XKey (conv l), conv l)) (take (Suc m) lines))"
      unfolding i(3) p(3) Cons take_Suc_Cons list.map .
    moreover have "load_from_file S N conv (Suc m) db lines = Inr db'" using i(1) p(1) Cons by (simp add: next_key_def)
    ultimately show ?thesis using i(2,4) by blast
  qed
qed simp


text \<open>Before anything is loaded.\<close>

lemma server_boot_ok:
  assumes N: "2 \<le> N" and S: "0 < S" and region: "HugeRegion mmap (mem_m * 1024 * 1024) (2 * 2 ^ 20) = Some (m, sz)" "0 < m"
    and l: "unat leaves = Suc r" and fits: "unat S * unat leaves < unat sz" "unat m + unat S * unat leaves + unat S < 2 ^ 64"
    and buf: "m + S * leaves + (if vlen then 1024 * 1024 * 1024 * 6 else 0) < m + mem_m * 1024 * 1024"
  shows "\<exists>db sm. server_boot vlen S N leaves mem_m mmap = Inr (db, sm) \<and>
    pool_ok S m (S * leaves) N r db \<and> xtree_map (fst db) = (Map.empty :: 'k::{linorder,order_bot,order_top} \<rightharpoonup> u64)"
proof -
  let ?a = "XAlloc m (S * leaves)"
  have "unat sz < 2 ^ LENGTH(64)" by (rule unsigned_less)
  then have "unat S * unat leaves < 2 ^ 64" using fits(1) by simp
  then have t: "unat (S * leaves) = unat S * unat leaves" by (simp add: unat_word_ariths)
  obtain sm where sm: "server_mem vlen S leaves mem_m (m, sz) = Inr sm" "sm_pool sm = ?a"
    using fits(1) t buf by (cases vlen) (simp_all add: server_mem_def word_less_nat_alt Let_def)
  have inv: "xalloc_inv S ?a" by (rule xalloc_inv_init [OF S region(2)]) (use fits(2) t in simp)
  then have pinv: "xpool_inv S m (S * leaves) ?a" by (simp add: xpool_inv_def XAlloc_def)
  have "can_alloc (xalloc_alloc S) (Suc r) ?a"
    by (rule xalloc_can_alloc [OF inv]) (use l t in \<open>simp add: XAlloc_def algebra_simps\<close>)
  then obtain a s' where a: "xalloc_alloc S ?a = (s', Some a)" "a \<noteq> 0" "can_alloc (xalloc_alloc S) r s'"
    by (rule can_alloc_SucD)
  have ti: "xtree_ainv (xalloc_live S) (xpool_inv S m (S * leaves)) N (XTree :: ('k, u64) xtree) ?a"
    by (rule xtree_ainv_init [where ainv = "xpool_inv S m (S * leaves)", OF pinv])
  have e: "tree_leaves (XTree :: ('k, u64) xtree) = []" "half_full N (XTree :: ('k, u64) xtree)"
    by (simp_all add: tree_leaves_def XTree_def half_full_def)
  obtain t' where t': "init_pre_alloced_leaf (xalloc_alloc S) N 8 (XTree :: ('k, u64) xtree) ?a = Inr (t', s')"
    "xtree_ainv (xalloc_live S) (xpool_inv S m (S * leaves)) N t' s'" "xtree_map t' = xtree_map (XTree :: ('k, u64) xtree)"
    "tree_leaves t' = []" "pre_alloc_leaf_node t' = a" "half_full N t'"
    using xp.init_leaf_ok [OF xtree_ainvD(1,2) [OF ti] _ a(1,2), of 8] e by auto
  have m: "xtree_map t' = Map.empty" using t'(3) by (simp add: xtree_inv_empty)
  then have "pool_ok S m (S * leaves) N r (t', s')" using t' a(2,3) by (simp add: pool_ok_def)
  then show ?thesis using sm t'(1) m region(1) by (intro exI [of _ "(t', s')"] exI [of _ sm]) (simp add: server_boot_def)
qed

lemma unat_estimated_leaves:
  assumes "2 \<le> N" and "(unat nkeys div (N div 2) + 1) * N \<le> 2 ^ 30"
  shows "unat (estimated_leaves (of_nat N) nkeys) = unat nkeys div (N div 2) + 16"
proof -
  have "N \<le> (unat nkeys div (N div 2) + 1) * N" and q: "unat nkeys div (N div 2) + 1 \<le> (unat nkeys div (N div 2) + 1) * N"
    using assms(1) mult_le_mono2 [of 1 N "unat nkeys div (N div 2) + 1"] by simp_all
  from le_trans [OF this(1) assms(2)] have N: "N < 2 ^ 64" by simp
  from le_trans [OF q assms(2)] have "unat nkeys div (N div 2) + 16 < 2 ^ 64" by simp
  moreover have "unat (of_nat N :: u64) = N" using N by (simp add: unat_of_nat take_bit_nat_eq_self)
  moreover have "N div 2 mod 18446744073709551616 = N div 2" using N by (intro mod_less) (simp add: div_less_dividend)
  ultimately show ?thesis by (simp add: estimated_leaves_def unat_word_ariths unat_div)
qed


section \<open>Properties\<close>

text \<open>C11: the pool that the data distribution server sets up from its estimate of the number of leaves is
  large enough for every set of distinct keys, in whatever order the file has them: when the region is
  large enough for the pool, booting and loading the first \<^verbatim>\<open>nkeys\<close> keys succeed, and training succeeds
  for a learner that fits the key ranges of the loaded tree; then the tree holds every loaded key, and
  a model of the cache finds it.\<close>

theorem dd_server_up:
  fixes M :: "('m, xkey) ml_ops" and M2 :: "('s, xkey) ml_ops" and tdb :: "('m, 's, 'w::len word) ycsb_db"
  assumes N: "2 \<le> N" and S: "0 < S" and region: "HugeRegion mmap (mem_m * 1024 * 1024) (2 * 2 ^ 20) = Some (m, sz)" "0 < m"
    and fits: "unat S * (unat nkeys div (N div 2) + 16) < unat sz"
      "unat m + unat S * (unat nkeys div (N div 2) + 17) < 2 ^ 56"
      "m + S * estimated_leaves (of_nat N) nkeys < m + mem_m * 1024 * 1024"
    and small: "(unat nkeys div (N div 2) + 1) * N \<le> 2 ^ 30" "unat nkeys < n"
    and keys: "distinct (map conv (take (unat nkeys) lines))" "- 1 \<notin> set (map conv (take (unat nkeys) lines))"
      "lines \<noteq> []" "0 < nkeys"
    and fl: "\<not> use_vlen fl" "skip_first fl \<Longrightarrow> \<exists>f. read_first fl (ml_init M) = Inr f"
    and M: "\<not> skip_first fl \<Longrightarrow> accepts M" "rounding rnd"
    and M2: "\<And>db sm db'. server_boot False S N (estimated_leaves (of_nat N) nkeys) mem_m mmap = Inr (db, sm) \<Longrightarrow>
      load_from_file S N conv (unat nkeys) db lines = Inr db' \<Longrightarrow> learns_all M2 N (fst db')"
    and num: "0 < num_sub" "num_sub < 4000000" "unat num_sub \<le> 2 ^ 53" and tdb: "cache tdb = None" "tts tdb = []"
  shows "\<exists>db sm db' tdb' c plots. server_boot False S N (estimated_leaves (of_nat N) nkeys) mem_m mmap = Inr (db, sm) \<and>
    load_from_file S N conv (unat nkeys) db lines = Inr db' \<and>
    dd_train_db rnd to_string to_scalar fl M M2 N n num_sub (fst db') tdb = Some (Inr (tdb', plots)) \<and>
    cache tdb' = Some c \<and>
    (\<forall>l\<in>set (take (unat nkeys) lines). get_impl (fst db') (XKey (conv l)) = Inr (Some (conv l)) \<and>
       dd_answers rnd M M2 N (fst db') c (tts tdb') (XKey (conv l)))"
proof -
  let ?L = "estimated_leaves (of_nat N) nkeys" and ?r = "unat nkeys div (N div 2) + 15" and ?ls = "take (unat nkeys) lines"
  let ?kvs = "map (\<lambda>l. (XKey (conv l), conv l)) ?ls"
  have L: "unat ?L = Suc ?r" using unat_estimated_leaves [OF N small(1)] by simp
  have "unat S * unat ?L < unat sz" "unat m + unat S * unat ?L + unat S < 2 ^ 64"
    using fits(1,2) by (simp_all add: L algebra_simps)
  moreover have "m + S * ?L + (if False then 1024 * 1024 * 1024 * 6 else 0) < m + mem_m * 1024 * 1024" using fits(3) by simp
  ultimately obtain db :: "(xkey, u64) xtree \<times> xalloc" and sm where
    b: "server_boot False S N ?L mem_m mmap = Inr (db, sm)" "pool_ok S m (S * ?L) N ?r db" "xtree_map (fst db) = Map.empty"
    using server_boot_ok [where vlen = False, OF N S region L] by blast
  have u: "unat nkeys \<noteq> 0" using keys(4) by (simp add: word_less_nat_alt)
  obtain db' where d: "load_from_file S N conv (unat nkeys) db lines = Inr db'" "pool_ok S m (S * ?L) N ?r db'"
    "root (fst db') \<noteq> NullPtr" "xtree_map (fst db') = map_of ?kvs"
    using load_from_file_ok [OF b(2) N _ keys(1,2)] b(3) u keys(3) by auto
  have dom: "dom (xtree_map (fst db')) = set (map (\<lambda>l. XKey (conv l)) ?ls)" unfolding d(4) dom_map_of_conv_image_fst by force
  have "card (dom (xtree_map (fst db'))) \<le> length (map (\<lambda>l. XKey (conv l)) ?ls)" unfolding dom by (rule card_length)
  then have card: "card (dom (xtree_map (fst db'))) \<le> unat nkeys" by simp
  have "(card (dom (xtree_map (fst db'))) div (N div 2) + 1) * N \<le> (unat nkeys div (N div 2) + 1) * N"
    using card by (intro mult_le_mono1 add_le_mono1 div_le_mono)
  also note small(1)
  finally have s: "(card (dom (xtree_map (fst db'))) div (N div 2) + 1) * N \<le> 2 ^ 30" .
  have "unat (S * ?L) \<le> unat S * unat ?L" by (simp add: unat_word_ariths)
  then have "unat m + unat (S * ?L) < 2 ^ 56" using fits(2) by (simp add: L algebra_simps)
  from pool_ok_walk [OF d(2) N d(3) s this] have w: "walk_ok gen_f_default N (fst db')" .
  obtain tdb' c plots where tr: "dd_train_db rnd to_string to_scalar fl M M2 N n num_sub (fst db') tdb = Some (Inr (tdb', plots))"
    "cache tdb' = Some c" "\<forall>k\<in>dom (xtree_map (fst db')). dd_answers rnd M M2 N (fst db') c (tts tdb') k"
    using dd_train_db_ok [where fl = fl and rnd = rnd and to_string = to_string and to_scalar = to_scalar,
        OF w le_less_trans [OF card small(2)] M(1) fl(2) M2 [OF b(1) d(1)] _ _ M(2) num tdb] fl(1)
    unfolding dd_db_trained_def by blast
  have "get_impl (fst db') (XKey (conv l)) = Inr (Some (conv l)) \<and>
      dd_answers rnd M M2 N (fst db') c (tts tdb') (XKey (conv l))" if l: "l \<in> set ?ls" for l
  proof -
    have "conv l \<in> set (map conv ?ls)" using l by simp
    then have "conv l \<noteq> - 1" using keys(2) by metis
    then have "XKey (conv l) \<noteq> top" by (simp add: xkey_defs)
    moreover have "distinct (map fst ?kvs)" using keys(1) by (simp add: distinct_map inj_on_def)
    then have "map_of ?kvs (XKey (conv l)) = Some (conv l)" using l by (intro map_of_is_SomeI) auto
    ultimately show ?thesis
      using get_impl_ok [OF walk_okD(1,2) [OF w]] d(4) tr(3) l dom by simp
  qed
  then show ?thesis using b(1) d(1) tr(1,2) by blast
qed

text \<open>The tree that the witness loads: the keys 30, 10 and 20 with two keys to a leaf.\<close>

definition up_tree :: "(xkey, u64) xtree" where
  "up_tree = fst (projr (load_from_file 64 2 id 3 (fst (projr (server_boot False 64 2 (estimated_leaves (of_nat 2) 3) 64
     (\<lambda>_. Some 4096)))) [30, 10, 20, 5]))"

lemma up_walks:
  "walk_from 2 up_tree (XKey 10) = [(XKey 10, 0), (XKey 20, 1), (XKey 30, 2)]"
  "walk_from 2 up_tree (XKey 20) = [(XKey 10, 0), (XKey 20, 1), (XKey 30, 2)]"
  "walk_from 2 up_tree (XKey 30) = [(XKey 30, 0)]"
  by code_simp+

lemma up_leaves:
  "tree_leaves up_tree = [4096, 4160]"
  "leafs up_tree 4096 = Some \<lparr>xkeys = \<lparr>keys = [XKey 20, XKey 10], incarnation = 1\<rparr>, xvals = Inplace [Some 20, Some 10], xnext = 4160, xlock = 0\<rparr>"
  "leafs up_tree 4160 = Some \<lparr>xkeys = \<lparr>keys = [XKey 30, XKey (- 1)], incarnation = 0\<rparr>, xvals = Inplace [Some 30, None], xnext = 0, xlock = 0\<rparr>"
  by code_simp+

lemma up_dom: "dom (xtree_map up_tree) = {XKey 10, XKey 20, XKey 30}"
proof -
  let ?a = "\<lparr>xkeys = \<lparr>keys = [XKey 20, XKey 10], incarnation = 1\<rparr>, xvals = Inplace [Some 20, Some 10 :: u64 option], xnext = 4160, xlock = 0\<rparr>"
  let ?b = "\<lparr>xkeys = \<lparr>keys = [XKey 30, XKey (- 1)], incarnation = 0\<rparr>, xvals = Inplace [Some 30, None :: u64 option], xnext = 0, xlock = 0\<rparr>"
  have a: "node_ok 2 ?a" and b: "node_ok 2 ?b"
    by (auto simp: node_ok_def vals_len_def val_at_def less_2_cases_iff xkey_defs)
  have "dom (node_map ?a) = {XKey 10, XKey 20}" "dom (node_map ?b) = {XKey 30}"
    unfolding dom_node_map_valid_keys [OF a] dom_node_map_valid_keys [OF b] by (auto simp: valid_keys_def xkey_defs)
  then show ?thesis unfolding xtree_map_def up_leaves(1) dom_leaves_map leaf_map_def
    by (auto simp: up_leaves(2,3) simp del: domIff)
qed

lemma up_tree_fits: "learns_all ols_lr 2 up_tree"
proof -
  have "fits ols_lr W" if "W \<in> {[(XKey 10, 0)], [(XKey 10, 0), (XKey 20, 1)], [(XKey 10, 0), (XKey 20, 1), (XKey 30, 2)], [(XKey 30, 0)]}" for W
    using that by (auto simp: ols_lr_def fits_lr fit_rows_def ols_def fixed_def unfixed_def double_to_int_small)
  moreover have "key_window 2 up_tree s e \<in> {[(XKey 10, 0)], [(XKey 10, 0), (XKey 20, 1)], [(XKey 10, 0), (XKey 20, 1), (XKey 30, 2)], [(XKey 30, 0)]}"
    if "s \<in> dom (xtree_map up_tree)" "e \<in> dom (xtree_map up_tree)" "s \<le> e" for s e
    using that unfolding up_dom key_window_def by (auto simp: up_walks xkey_defs word_le_nat_alt)
  ultimately show ?thesis unfolding learns_all_def by blast
qed

theorem dd_server_up_witness:
  "\<exists>db sm db' tdb' c plots. server_boot False 64 2 (estimated_leaves (of_nat 2) 3) 64 (\<lambda>_. Some 4096) = Inr (db, sm) \<and>
    load_from_file 64 2 id (unat (3 :: u64)) db [30, 10, 20, 5] = Inr db' \<and>
    dd_train_db (\<lambda>x. x) (\<lambda>i. []) (\<lambda>k. real (unat (xd k))) verbose_flags ols_lr ols_lr 2 4 3 (fst db') empty_db = Some (Inr (tdb', plots)) \<and>
    cache tdb' = Some c \<and>
    (\<forall>l\<in>set (take (unat (3 :: u64)) [30, 10, 20, 5]). get_impl (fst db') (XKey (id l)) = Inr (Some (id l)) \<and>
       dd_answers (\<lambda>x. x) ols_lr ols_lr 2 (fst db') c (tts tdb') (XKey (id l)))"
proof (rule dd_server_up [where m = 4096 and sz = "69206016"])
  fix db sm db'
  assume "server_boot False 64 2 (estimated_leaves (of_nat 2) 3) 64 (\<lambda>_. Some 4096) = Inr (db, sm)"
    "load_from_file 64 2 id (unat (3 :: u64)) db [30, 10, 20, 5] = Inr db'"
  then have "fst db' = up_tree" by (simp add: up_tree_def)
  then show "learns_all ols_lr 2 (fst db')" using up_tree_fits by simp
qed (simp_all add: HugeRegion_def align_to_sz_def estimated_leaves_def rounding_id ols_sample
      empty_db_def verbose_flags_def)


text \<open>The iterator over a tree without a root reads an empty option.\<close>

lemma empty_tree_iter: "0 < N \<Longrightarrow> XTreeIter N (XTree :: ('k::{linorder,order_bot,order_top}, 'v) xtree) = Inl BadOption"
  by (simp add: XTreeIter_def iter_seek_def find_leaf_def XTree_def titer_read_from_def seek_idx.simps iter_init_def)

text \<open>C34: with \<^verbatim>\<open>--vlen\<close> the data distribution server never comes up. Whatever it has loaded, it trains
  over \<^verbatim>\<open>dbv\<close>, which is still empty, and the first iterator aborts on an empty option.\<close>

theorem dd_vlen_fails:
  fixes M :: "('m, 'k::{linorder,order_bot,order_top}) ml_ops" and M2 :: "('s, 'k) ml_ops"
    and num_sub :: "'w::len word" and tdb :: "('m, 's, 'w word) ycsb_db"
  assumes "0 < N" and "use_vlen fl" and "skip_first fl \<Longrightarrow> \<exists>f. read_first fl (ml_init M) = Inr f"
    and "0 < num_sub" "num_sub < 4000000" and "cache tdb = None"
    and boot: "server_boot True S N (estimated_leaves (of_nat N) (flag_nkeys fl)) mem_m mmap = Inr (db, sm)" "load db = Inr db'"
  shows "dd_main rnd to_string to_scalar fl M M2 S N n mem_m ncheck mmap load mem num_sub tdb = Some (Inl BadOption)"
proof -
  have it: "from_impl (tree_ops N (XTree :: ('k, fat_pointer) xtree)) = Inl BadOption"
    using empty_tree_iter [OF assms(1)] by (simp add: tree_ops_def)
  have disp: "dispatch_keys_to_trainers rnd M (tree_ops N (XTree :: ('k, fat_pointer) xtree)) n c = Some (Inl BadOption)"
    for c :: "('m, 's, 'w word) two_rmi"
    using it by (simp add: dispatch_keys_to_trainers_def)
  have "dd_train_db rnd to_string to_scalar fl M M2 N n num_sub (XTree :: ('k, fat_pointer) xtree) tdb = Some (Inl BadOption)"
    using assms(2-6) it disp
    by (auto simp: dd_train_db_def LocalTwoRMI_def Dispatcher_def default_train_first_def default_train_def disp_train_def
        load_first_from_file_def disp_load_from_file_def)
  then show ?thesis using assms(2) boot by (simp add: dd_main_def)
qed

theorem dd_vlen_fails_witness:
  "dd_main (\<lambda>x. x) (\<lambda>i. []) (\<lambda>k. real (unat (xd k))) (verbose_flags\<lparr>use_vlen := True\<rparr>) ols_lr ols_lr 64 2 4 8192 100
    (\<lambda>_. Some 4096) Inr [] 3 empty_db = Some (Inl BadOption)"
proof -
  have "\<exists>db sm. server_boot True 64 2 (estimated_leaves (of_nat 2) 0) 8192 (\<lambda>_. Some 4096) = Inr (db, sm) \<and>
      pool_ok 64 4096 (64 * estimated_leaves (of_nat 2) 0) 2 15 db \<and> xtree_map (fst db) = (Map.empty :: xkey \<rightharpoonup> u64)"
    by (rule server_boot_ok [where sz = "8592031744"]) (simp_all add: HugeRegion_def align_to_sz_def estimated_leaves_def)
  then obtain db sm where b: "server_boot True 64 2 (estimated_leaves (of_nat 2) 0) 8192 (\<lambda>_. Some 4096) = Inr (db :: (xkey, u64) xtree \<times> xalloc, sm)"
    by blast
  show ?thesis
    by (rule dd_vlen_fails [where db = db and sm = sm]) (use b in \<open>simp_all add: verbose_flags_def empty_db_def\<close>)
qed

text \<open>Checking the models after training: the first \<^verbatim>\<open>ncheck\<close> models are logged, those that have seen
  a key, but when there are fewer models than that the access is out of range and the server stops. The
  data distribution server has one model and checks 100 when no flag is given.\<close>

theorem check_models_range:
  assumes "second_layer c = map Some mds"
  shows "check_models n c = (if n \<le> length mds
    then Inr (map (\<lambda>i. (i, total_error (mds ! i), smax (mds ! i))) (filter (\<lambda>i. smax (mds ! i) \<noteq> 0) [0..<n]))
    else Inl OutOfRange)"
proof (induction n)
  case (Suc n)
  let ?f = "\<lambda>acc i. rbind acc (\<lambda>l. rbind (sub_deref c i) (\<lambda>s.
       Inr (if smax s \<noteq> 0 then l @ [(i, total_error s, smax s)] else l)))"
  have "check_models (Suc n) c = ?f (check_models n c) n" by (simp add: check_models_def)
  then show ?case using Suc assms by (simp add: sub_deref_def)
qed (simp add: check_models_def)


theorem check_models_range_witness:
  "check_models 100 \<lparr>first_layer = \<lparr>dmodel = 0 :: real, dispatch_num = 1 :: 32 word, up_bound = 0\<rparr>, second_layer = [Some (XSubModel (0 :: real))]\<rparr> =
    (if 100 \<le> length [XSubModel (0 :: real)]
     then Inr (map (\<lambda>i. (i, total_error ([XSubModel (0 :: real)] ! i), smax ([XSubModel (0 :: real)] ! i)))
       (filter (\<lambda>i. smax ([XSubModel (0 :: real)] ! i) \<noteq> 0) [0..<100]))
     else Inl OutOfRange)"
  by (rule check_models_range) simp

end
