(* ===== verification/Clients.thy ===== *)
theory Clients
  imports DataDistClient Transport Server
begin

text \<open>
  The programs of the clients (\<^verbatim>\<open>benchs/ycsb/client.cc\<close>, \<^verbatim>\<open>benchs/data_dist/client.cc\<close>), the threads of the
  servers (\<^verbatim>\<open>server/worker.hh\<close>), their barrier (\<^verbatim>\<open>xutils/local_barrier.hh\<close>) and the report of the
  throughput (\<^verbatim>\<open>benchs/reporter.hh\<close>). What the connection manager returns and the clock are parameters.

  The lemmas follow a client from the lookups over its counters to the report: over a trained cache
  every round of the loop passes its check and is counted once, and the report adds up the counters.
  With \<^verbatim>\<open>--vlen\<close> no lookup succeeds, because the client reads at the raw entries of the tables.
\<close>

section \<open>Starting a client thread\<close>

definition ycsb_fill_keys :: "('l \<Rightarrow> u64) \<Rightarrow> nat \<Rightarrow> 'l list \<Rightarrow> u64 list" where
  "ycsb_fill_keys conv nkeys file = fill_log_keys conv nkeys [] file"

definition nic_idx :: "nat \<Rightarrow> nat" where
  "nic_idx thread_id = (if thread_id \<ge> 12 then 1 else 0)"

definition client_session_id :: "nat \<Rightarrow> nat \<Rightarrow> u32" where
  "client_session_id client_name thread_id = of_nat (1024 * client_name + thread_id)"

text \<open>
  \<^verbatim>\<open>do ... while (t.passed_sec() < 10)\<close>. An attempt is what the connection manager returns, and the
  two readings of the clock behind it; the result is \<open>None\<close> when the attempts are used up.
\<close>

fun connect_loop :: "u32 \<Rightarrow> 'q \<Rightarrow> ('q, 'a) ud_transport \<Rightarrow> (('e + unit) \<times> ('e + 'a) \<times> real \<times> real) list
    \<Rightarrow> ('q, 'a) ud_transport res option" where
  "connect_loop my_id qp s [] = None"
| "connect_loop my_id qp s ((wait_res, fetch_res, t1, t2) # attempts) =
     (case ud_connect wait_res fetch_res my_id qp s of
        (Inr _, s') \<Rightarrow> Some (Inr s')
      | (Inl _, s') \<Rightarrow>
          if t1 \<ge> 10 then Some (Inl AssertFail)
          else if t2 < 10 then connect_loop my_id qp s' attempts
          else Some (Inr s'))"

text \<open>Connecting, and sending the connect message; \<open>send\<close> gives \<open>True\<close> for \<^verbatim>\<open>Ok\<close>.\<close>

definition client_connect :: "('q \<Rightarrow> 'a) \<Rightarrow> ('a \<Rightarrow> u8 list) \<Rightarrow> (('q, 'a) ud_session \<Rightarrow> u8 list \<Rightarrow> u32 option \<Rightarrow> bool) \<Rightarrow> header \<Rightarrow> u8 list \<Rightarrow> u32
    \<Rightarrow> u32 \<Rightarrow> 'q \<Rightarrow> (('e + unit) \<times> ('e + 'a) \<times> real \<times> real) list \<Rightarrow> ('q, 'a) ud_transport res option" where
  "client_connect my_attr attr_bytes send h0 send_buf lkey my_id qp attempts =
     fbind (connect_loop my_id qp None attempts) (\<lambda>sender. Some (
     rbind (opt_value (ud_get_connect_data my_attr attr_bytes sender)) (\<lambda>d.
     rbind (get_connect_op h0 send_buf d) (\<lambda>conn_op.
     rbind (ud_send_w_key send sender (omsg (op_finalize conn_op)) lkey) (\<lambda>ok.
     rbind (cassert ok) (\<lambda>_. Inr sender))))))"

definition dd_client_connect :: "('q \<Rightarrow> 'a) \<Rightarrow> ('a \<Rightarrow> u8 list) \<Rightarrow> (('q, 'a) ud_session \<Rightarrow> u8 list \<Rightarrow> u32 option \<Rightarrow> bool) \<Rightarrow> header \<Rightarrow> u8 list \<Rightarrow> u32
    \<Rightarrow> u32 \<Rightarrow> 'q \<Rightarrow> (('e + unit) \<times> ('e + 'a) \<times> real \<times> real) list \<Rightarrow> ('q, 'a) ud_transport res option" where
  "dd_client_connect = client_connect"

section \<open>The loop of a coroutine\<close>

text \<open>The values are integers, so the result of a lookup is compared with the key.\<close>

definition ycsb_round :: "bool \<Rightarrow> (xkey \<Rightarrow> client \<Rightarrow> (u64 \<times> client) res) \<Rightarrow> (xkey \<Rightarrow> u64 res) \<Rightarrow> u64 \<Rightarrow> client \<Rightarrow> client res" where
  "ycsb_round use_v eval eval_v k cl =
     (let key = XKey k in
      rbind (if \<not> use_v then rbind (eval key cl) (\<lambda>(res, cl'). rbind (cassert (XKey res = key)) (\<lambda>_. Inr cl'))
             else rbind (eval_v key) (\<lambda>_. Inr cl)) (\<lambda>cl'.
      Inr (cl'\<lparr>cstat := increment (cstat cl')\<rparr>)))"

text \<open>The rounds until the flag \<^verbatim>\<open>running\<close> is cleared, over the keys of the workload.\<close>

fun ycsb_rounds :: "bool \<Rightarrow> (xkey \<Rightarrow> client \<Rightarrow> (u64 \<times> client) res) \<Rightarrow> (xkey \<Rightarrow> u64 res) \<Rightarrow> u64 list \<Rightarrow> client \<Rightarrow> client res" where
  "ycsb_rounds use_v eval eval_v [] cl = Inr cl"
| "ycsb_rounds use_v eval eval_v (k # ks) cl =
     rbind (ycsb_round use_v eval eval_v k cl) (\<lambda>cl'. ycsb_rounds use_v eval eval_v ks cl')"

section \<open>The thread of a server\<close>

text \<open>\<^verbatim>\<open>while (running) rpc.recv_event_loop(&recv)\<close>, over what the polls deliver.\<close>

fun worker_loop :: "(u32 \<Rightarrow> u8 list \<Rightarrow> 'ch res) \<Rightarrow> ('ch, 'w) rpc_core \<times> 'w \<Rightarrow> (u32 \<times> u8 list) list list
    \<Rightarrow> (('ch, 'w) rpc_core \<times> 'w) res" where
  "worker_loop add cw [] = Inr cw"
| "worker_loop add cw (poll # polls) = rbind (recv_event_loop add cw poll) (\<lambda>(_, cw'). worker_loop add cw' polls)"

definition server_worker :: "('ch, 'w) rpc_func \<Rightarrow> ('ch, 'w) rpc_func \<Rightarrow> (u32 \<Rightarrow> u8 list \<Rightarrow> 'ch res) \<Rightarrow> 'w
    \<Rightarrow> (u32 \<times> u8 list) list list \<Rightarrow> (('ch, 'w) rpc_core \<times> 'w) res" where
  "server_worker meta get add w polls =
     (let (i, c1) = reg_callback (RPCCore 12) meta in
      rbind (cassert (i = META)) (\<lambda>_.
      let (j, c2) = reg_callback c1 get in
      rbind (cassert (j = GET)) (\<lambda>_. worker_loop add (c2, w) polls)))"

definition dd_server_worker :: "('ch, 'w) rpc_func \<Rightarrow> ('ch, 'w) rpc_func \<Rightarrow> (u32 \<Rightarrow> u8 list \<Rightarrow> 'ch res) \<Rightarrow> 'w
    \<Rightarrow> (u32 \<times> u8 list) list list \<Rightarrow> (('ch, 'w) rpc_core \<times> 'w) res" where
  "dd_server_worker = server_worker"

section \<open>The barrier\<close>

text \<open>\<open>bar_in\<close> is the number of threads that are waiting in the barrier of pthreads.\<close>

record pbarrier =
  bar_num :: nat
  bar_in :: nat
  wait_num :: int

definition PBarrier :: "int \<Rightarrow> pbarrier res" where
  "PBarrier num = rbind (cassert (num > 0)) (\<lambda>_. Inr \<lparr>bar_num = nat num, bar_in = 0, wait_num = num\<rparr>)"

text \<open>The flag of the result says that the barrier opens.\<close>

definition bar_wait :: "pbarrier \<Rightarrow> bool \<times> pbarrier" where
  "bar_wait b =
     (let b1 = b\<lparr>wait_num := to_i32 (wait_num b - 1)\<rparr> in
      if bar_in b1 + 1 = bar_num b1 then (True, b1\<lparr>bar_in := 0\<rparr>) else (False, b1\<lparr>bar_in := bar_in b1 + 1\<rparr>))"

definition bar_done :: "pbarrier \<Rightarrow> pbarrier" where
  "bar_done b = b\<lparr>wait_num := to_i32 (wait_num b - 1)\<rparr>"

definition bar_ready :: "pbarrier \<Rightarrow> bool" where
  "bar_ready b \<longleftrightarrow> wait_num b = 0"

section \<open>The report\<close>

text \<open>One epoch reads the counters of all threads; the result is what has been added to the two of them since
  the last epoch.\<close>

definition report_step :: "statics list \<Rightarrow> u64 \<times> u64 \<times> statics list \<Rightarrow> nat \<Rightarrow> u64 \<times> u64 \<times> statics list" where
  "report_step st acc i =
     (let (sum, sum1, old) = acc;
          temp = counter (st ! i);
          sum' = sum + (temp - counter (old ! i));
          old1 = old[i := (old ! i)\<lparr>counter := temp\<rparr>];
          temp1 = counter1 (st ! i);
          sum1' = sum1 + (temp1 - counter1 (old1 ! i))
      in (sum', sum1', old1[i := (old1 ! i)\<lparr>counter1 := temp1\<rparr>]))"

definition report_epoch :: "statics list \<Rightarrow> statics list \<Rightarrow> u64 \<times> u64 \<times> statics list" where
  "report_epoch st old = foldl (report_step st) (0, 0, old) [0..<length st]"

text \<open>The epochs, each with the counters that are read in it and the time that has passed.\<close>

fun report_epochs :: "statics list \<Rightarrow> (statics list \<times> real) list \<Rightarrow> (u64 \<times> u64) list \<times> (real \<times> real) list" where
  "report_epochs old [] = ([], [])"
| "report_epochs old ((st, passed_msec) # es) =
     (let (sum, sum1, old') = report_epoch st old;
          thpt = (\<lambda>s :: u64. real (unat s) / passed_msec * 1000000);
          (ss, rs) = report_epochs old' es
      in ((sum, sum1) # ss, (thpt sum, thpt sum1) # rs))"

definition report_thpt :: "nat \<Rightarrow> (statics list \<times> real) list \<Rightarrow> (u64 \<times> u64) list \<times> (real \<times> real) list" where
  "report_thpt n es = report_epochs (replicate n Statics) es"

section \<open>Lemmas\<close>

text \<open>An epoch leaves the counters it has read, and its sums are the differences.\<close>

lemma report_epoch_eq:
  assumes "length old = length st"
  shows "\<exists>old'. report_epoch st old = (\<Sum>i<length st. counter (st ! i) - counter (old ! i),
      \<Sum>i<length st. counter1 (st ! i) - counter1 (old ! i), old') \<and> length old' = length st \<and>
    (\<forall>i<length st. counter (old' ! i) = counter (st ! i) \<and> counter1 (old' ! i) = counter1 (st ! i))"
proof -
  have "\<exists>old'. foldl (report_step st) (0, 0, old) [0..<n] = (\<Sum>i<n. counter (st ! i) - counter (old ! i),
      \<Sum>i<n. counter1 (st ! i) - counter1 (old ! i), old') \<and> length old' = length st \<and>
    (\<forall>i<n. counter (old' ! i) = counter (st ! i) \<and> counter1 (old' ! i) = counter1 (st ! i)) \<and>
    (\<forall>i. n \<le> i \<longrightarrow> old' ! i = old ! i)" if "n \<le> length st" for n
    using that
  proof (induction n)
    case (Suc n)
    then obtain old' where o: "foldl (report_step st) (0, 0, old) [0..<n] = (\<Sum>i<n. counter (st ! i) - counter (old ! i),
        \<Sum>i<n. counter1 (st ! i) - counter1 (old ! i), old')" "length old' = length st"
      "\<forall>i<n. counter (old' ! i) = counter (st ! i) \<and> counter1 (old' ! i) = counter1 (st ! i)"
      "\<forall>i. n \<le> i \<longrightarrow> old' ! i = old ! i" by auto
    have "report_step st (a, b, old') n = (a + (counter (st ! n) - counter (old' ! n)), b + (counter1 (st ! n) - counter1 (old' ! n)),
        old'[n := (old' ! n)\<lparr>counter := counter (st ! n), counter1 := counter1 (st ! n)\<rparr>])" for a b
      using o(2) Suc.prems by (simp add: report_step_def Let_def)
    then show ?case using o Suc.prems
      by (intro exI [of _ "old'[n := (old' ! n)\<lparr>counter := counter (st ! n), counter1 := counter1 (st ! n)\<rparr>]"])
        (auto simp: less_Suc_eq)
  qed (simp add: assms)
  from this [OF order_refl] show ?thesis unfolding report_epoch_def by blast
qed

lemma report_epochs_sum:
  assumes "length old = n" and "\<forall>(st, t)\<in>set es. length st = n" and "es \<noteq> []"
  shows "(\<Sum>(a, b)\<leftarrow>fst (report_epochs old es). a) = (\<Sum>i<n. counter (fst (last es) ! i) - counter (old ! i)) \<and>
    (\<Sum>(a, b)\<leftarrow>fst (report_epochs old es). b) = (\<Sum>i<n. counter1 (fst (last es) ! i) - counter1 (old ! i))"
  using assms
proof (induction es arbitrary: old)
  case (Cons e es)
  obtain st t where e: "e = (st, t)" by fastforce
  have l: "length old = length st" using Cons.prems(1,2) e by simp
  obtain old' where o: "report_epoch st old = (\<Sum>i<n. counter (st ! i) - counter (old ! i),
      \<Sum>i<n. counter1 (st ! i) - counter1 (old ! i), old')" "length old' = n"
    "\<forall>i<n. counter (old' ! i) = counter (st ! i) \<and> counter1 (old' ! i) = counter1 (st ! i)"
    using report_epoch_eq [OF l] Cons.prems(1) l by auto
  have tele: "(\<Sum>i<n. f (st ! i) - f (old ! i)) + (\<Sum>i<n. f (s' ! i) - f (old' ! i)) = (\<Sum>i<n. f (s' ! i) - f (old ! i))"
    if "\<forall>i<n. f (old' ! i) = f (st ! i)" for f :: "statics \<Rightarrow> u64" and s'
    unfolding sum.distrib [symmetric] using that by (intro sum.cong) simp_all
  show ?case
  proof (cases "es = []")
    case False
    then have "(\<Sum>(a, b)\<leftarrow>fst (report_epochs old' es). a) = (\<Sum>i<n. counter (fst (last es) ! i) - counter (old' ! i)) \<and>
        (\<Sum>(a, b)\<leftarrow>fst (report_epochs old' es). b) = (\<Sum>i<n. counter1 (fst (last es) ! i) - counter1 (old' ! i))"
      using Cons.IH [OF o(2)] Cons.prems(2) by simp
    moreover obtain ss rs where "report_epochs old' es = (ss, rs)" by fastforce
    ultimately show ?thesis using False o(1,3) tele [of counter] tele [of counter1] by (simp add: e Let_def)
  qed (simp add: e o(1) Let_def)
qed simp

text \<open>A lookup of the YCSB client leaves the number of finished lookups alone.\<close>

lemma core_eval_counter:
  assumes "core_eval rnd M M2 key_of N len logs rd rpc c tabs key cl = Inr (v, cl')"
  shows "counter (cstat cl') = counter (cstat cl)"
  using assms
  by (auto simp: core_eval_def rbind_Inr_iff Let_def increment_gap_1_def record_error_def split: if_splits prod.splits)

lemma ycsb_rounds_ok:
  assumes "\<And>k cl. k \<in> set ks \<Longrightarrow> P cl \<Longrightarrow> \<exists>cl'. eval (XKey k) cl = Inr (k, cl') \<and> P cl' \<and> counter (cstat cl') = counter (cstat cl)"
    and "\<And>cl. P cl \<Longrightarrow> P (cl\<lparr>cstat := increment (cstat cl)\<rparr>)" and "P cl"
  shows "\<exists>cl'. ycsb_rounds False eval eval_v ks cl = Inr cl' \<and> P cl' \<and> counter (cstat cl') = counter (cstat cl) + of_nat (length ks)"
  using assms(1,3)
proof (induction ks arbitrary: cl)
  case (Cons k ks)
  obtain cl1 where 1: "eval (XKey k) cl = Inr (k, cl1)" "P cl1" "counter (cstat cl1) = counter (cstat cl)"
    using Cons.prems by (metis list.set_intros(1))
  let ?cl2 = "cl1\<lparr>cstat := increment (cstat cl1)\<rparr>"
  obtain cl' where "ycsb_rounds False eval eval_v ks ?cl2 = Inr cl'" "P cl'"
    "counter (cstat cl') = counter (cstat ?cl2) + of_nat (length ks)"
    using Cons.IH [OF _ assms(2) [OF 1(2)]] Cons.prems(1) by auto
  then show ?case using 1 by (simp add: ycsb_round_def increment_def)
qed simp

text \<open>A failed read of the first page fails the lookup of \<^verbatim>\<open>core_eval_v\<close>.\<close>

lemma fetch_pages_holds:
  assumes "batch_holds B b rs" and "fetch_pages addr_of sz ps b = Inr b'" and "\<And>p. p \<in> set ps \<Longrightarrow> addr_of (nat p) = Inr (A p)"
  shows "batch_holds B b' (rs @ map (\<lambda>p. (A p, sz)) ps)"
  using assms
proof (induction ps arbitrary: b rs)
  case (Cons p ps)
  have err: "foldl (\<lambda>acc p. rbind acc (\<lambda>b. rbind (addr_of (nat p)) (\<lambda>a. set_cur_op (emplace b) (a, sz)))) (Inl e) ps = Inl e" for e
    by (induction ps) simp_all
  obtain b1 where 1: "set_cur_op (emplace b) (A p, sz) = Inr b1" "fetch_pages addr_of sz ps b1 = Inr b'"
    using Cons.prems(2,3) err by (cases "set_cur_op (emplace b) (A p, sz)") (auto simp: fetch_pages_def)
  have "length rs < B"
    using 1(1) batch_holds_full [OF Cons.prems(1)] Cons.prems(1) by (cases "length rs = B") (auto simp: batch_holds_def)
  from batch_holds_add [OF Cons.prems(1) this, of "(A p, sz)"] have "batch_holds B b1 (rs @ [(A p, sz)])" using 1(1) by auto
  from Cons.IH [OF this 1(2)] Cons.prems(3) show ?case by simp
qed (simp add: fetch_pages_def)

lemma core_eval_v_fails:
  fixes t :: "('k::{linorder,order_bot,order_top}, 'v) xtree" and c :: "('m, 's, 'w::len word) two_rmi"
  assumes w: "walk_ok gen_f_default 16 t" and a: "answers rnd M M2 16 t c tabs key"
    and rd: "\<And>a n. B \<le> unat a \<Longrightarrow> rd a n = None" and high: "\<forall>a\<in>set (tree_leaves t). B \<le> 256 * unat a"
  shows "\<exists>e. core_eval_v rnd M M2 key_of 16 len rd c tabs key = Inl e"
proof -
  obtain m md where m: "select_sec_model rnd M c key = Inr m" "sub_deref c (unat m) = Inr md" "unat m < length tabs"
    "table_ok gen_f_default t (tabs ! unat m)" "found gen_f_default 16 t (ml_predict M2) md (tabs ! unat m) key"
    using a unfolding answers_def by blast
  let ?tab = "tabs ! unat m"
  obtain lo hi j where f: "get_predict_range (ml_predict M2) md key = Inr (lo, hi)" "0 \<le> lo" "lo div 16 \<le> int j" "int j \<le> hi div 16"
    "j < tt_size ?tab"
    using m(5) unfolding found_def by auto
  have "tt_size ?tab \<le> 2 ^ 30" using m(4) walk_ok_small(1) [OF w] by (simp add: table_ok_def)
  then have sz: "to_i32 (int (tt_size ?tab) - 1) = int (tt_size ?tab) - 1" by (intro to_i_small(2)) simp_all
  have "0 \<le> hi div 16" using f(4) by linarith
  then have hi: "0 \<le> hi" by (simp add: pos_imp_zdiv_nonneg_iff)
  let ?ps = "[lo div 16..min (hi div 16) (int (tt_size ?tab) - 1)]"
  have ps: "max (quot16 lo) 0 = lo div 16" "quot16 hi = hi div 16" using f(2) hi by (simp_all add: quot16_def pos_imp_zdiv_nonneg_iff)
  have ne: "?ps \<noteq> []" using f(3-5) by simp
  have at: "tt_at ?tab (nat p) = Inr (entries ?tab ! nat p) \<and> B \<le> unat (entries ?tab ! nat p)" if "p \<in> set ?ps" for p
  proof -
    have p: "nat p < tt_size ?tab" "0 \<le> p" using that f(2) by (auto simp: pos_imp_zdiv_nonneg_iff intro: order_trans)
    then obtain b where b: "b \<in> set (tree_leaves t)" "get_wo_incar ?tab (nat p) = Inr b"
      using m(4) unfolding table_ok_def gen_f_default_def by blast
    then have "drop_bit 8 (entries ?tab ! nat p) = b" using p(1) by (simp add: get_wo_incar_def tt_at_def tt_size_def kIncarBit_def)
    then have "unat b = unat (entries ?tab ! nat p) div 256" by (auto simp: unsigned_drop_bit_eq drop_bit_eq_div unat_div)
    then have "256 * unat b \<le> unat (entries ?tab ! nat p)" by simp
    then show ?thesis using p(1) high b(1) by (force simp: tt_at_def tt_size_def)
  qed
  have range: "rmi_predict_range rnd M M2 c key = Inr (lo, hi)" using m(1,2) f(1) by (simp add: rmi_predict_range_def)
  show ?thesis
  proof (cases "fetch_pages (tt_at ?tab) (inplace_value_end_offset 16 8 8) ?ps (BatchOp 16)")
    case (Inl e)
    then show ?thesis using m(1,3) range ps sz by (simp add: core_eval_v_def Let_def)
  next
    case (Inr b)
    have "batch_holds 16 b (map (\<lambda>p. (entries ?tab ! nat p, inplace_value_end_offset 16 8 8)) ?ps)"
      using fetch_pages_holds [OF batch_holds_init Inr, of "\<lambda>p. entries ?tab ! nat p"] at by simp
    moreover have "read_chain rd (map (\<lambda>p. (entries ?tab ! nat p, inplace_value_end_offset 16 8 8)) ?ps) = None"
      using ne at rd by (cases ?ps) (auto simp: list.set_intros)
    ultimately obtain b' where "batch_execute rd b = Inr (None, b')" using batch_holds_execute [of 16 b] by metis
    then show ?thesis using m(1,3) range ps sz Inr by (simp add: core_eval_v_def Let_def)
  qed
qed

section \<open>Properties\<close>

text \<open>C9: a run of the YCSB client: over a cache that the server has trained, with submodels that are monotone on
  the keys of the tree, in front of a memory that holds the leaves and of a worker that answers, every
  round of the loop over a workload of loaded keys passes the comparison of the value with the key,
  and the thread's counter of finished lookups goes up by the number of keys.\<close>

theorem ycsb_client_run:
  fixes t :: "(xkey, u64) xtree" and num_sub :: "'w::len word"
    and M :: "('m, xkey) ml_ops" and M2 :: "('s, xkey) ml_ops" and db :: "('m, 's, 'w word) ycsb_db"
  assumes "walk_ok gen_f_default N t" and "\<forall>a\<in>set (butlast (tree_leaves t)). 2 \<le> card (dom (leaf_map (leafs t) a))"
    and "card (dom (xtree_map t)) < n" and "rounding rnd"
    and "0 < num_sub" "num_sub < 4000000" "unat num_sub \<le> 2 ^ 53" and "cache db = None" "tts db = []"
    and "32 \<le> LENGTH('w)" and "train_db rnd vlen M M2 N n num_sub t db = Some (Inr db')" "cache db' = Some c"
    and "\<And>i md. i < length (second_layer c) \<Longrightarrow> second_layer c ! i = Some md \<Longrightarrow>
      mono_on (dom (xtree_map t)) (ml_predict M2 (ml md))"
    and "serves rd xd N (nat (max len 8)) t"
    and "worker_core meta (get_callback XKey t deliver h0 buf) = Inr sc" "length buf = 64"
    and "unat cor < 128" "idle (cstation cl) (unat cor)" "length sbuf = 64" "length rbuf = 8"
    and "\<forall>k\<in>set ks. xtree_map t (XKey k) = Some k"
  shows "\<exists>cl'. ycsb_rounds False (core_eval rnd M M2 XKey N len logs rd
      (eval_w_rpc xd (exchange (sc\<lparr>incoming_sessions := [sid \<mapsto> Some ()]\<rparr>) sid) h1 sbuf rbuf cor) c (tts db')) eval_v ks cl = Inr cl' \<and>
    counter (cstat cl') = counter (cstat cl) + of_nat (length ks)"
proof -
  note D = walk_okD [OF assms(1)]
  let ?rpc = "eval_w_rpc xd (exchange (sc\<lparr>incoming_sessions := [sid \<mapsto> Some ()]\<rparr>) sid) h1 sbuf rbuf cor"
  let ?eval = "core_eval rnd M M2 XKey N len logs rd ?rpc c (tts db')"
  have kw: "\<And>k. XKey (xd k) = k" by simp
  have a: "answers rnd M M2 N t c (tts db') k" if "k \<in> dom (xtree_map t)" for k
    using train_db_done [OF assms(1-9,11-13)] that by (simp add: db_trained_def)
  have "\<exists>cl'. ?eval (XKey k) cl1 = Inr (k, cl') \<and> idle (cstation cl') (unat cor) \<and> counter (cstat cl') = counter (cstat cl1)"
    if k: "k \<in> set ks" and i: "idle (cstation cl1) (unat cor)" for k cl1
  proof -
    have v: "xtree_map t (XKey k) = Some k" and kd: "XKey k \<in> dom (xtree_map t)" using assms(21) k by auto
    have "get_impl t (XKey k) = Inr (Some k)" using get_impl_ok [OF D(1,2) tree_key_less_top [OF D(1) kd]] v by simp
    then have "\<exists>st'. ?rpc (XKey k) (cstation cl1) = Inr (k, st') \<and> idle st' (unat cor)"
      using eval_w_rpc_ok [where key = "XKey k" and word_of = xd, OF assms(15) refl _ kw assms(16,17) i assms(19,20)] by blast
    from core_eval_ok [where P = "\<lambda>st. idle st (unat cor)" and cl = cl1 and rpc = ?rpc and logs = logs,
        OF assms(1) a [OF kd] assms(10) kw assms(14) v this i]
    obtain cl' where "?eval (XKey k) cl1 = Inr (k, cl')" "idle (cstation cl') (unat cor)" by blast
    then show ?thesis using core_eval_counter [of rnd M M2 XKey N len logs rd ?rpc c "tts db'" "XKey k" cl1 k cl'] by simp
  qed
  from ycsb_rounds_ok [where P = "\<lambda>cl. idle (cstation cl) (unat cor)" and eval = ?eval and ks = ks, OF this]
  show ?thesis using assms(18) by auto
qed

theorem ycsb_client_run_witness:
  "\<exists>db' c. train_db (\<lambda>x. x) False ols_lr ols_lr 2 4 3 sample_tree empty_db = Some (Inr db') \<and> cache db' = Some c \<and>
    (\<exists>cl'. ycsb_rounds False (core_eval (\<lambda>x. x) ols_lr ols_lr XKey 2 8 True sample_rd
        (eval_w_rpc xd (exchange (sample_worker\<lparr>incoming_sessions := [7 \<mapsto> Some ()]\<rparr>) 7) Header0 (replicate 64 0) (replicate 8 0) 1)
        c (tts db')) (\<lambda>_. Inl AssertFail) [1, 1] sample_client = Inr cl' \<and>
      counter (cstat cl') = counter (cstat sample_client) + of_nat (length [1, 1 :: u64]))"
proof -
  obtain db' c where tr: "train_db (\<lambda>x. x) False ols_lr ols_lr 2 4 3 sample_tree empty_db = Some (Inr db')" "cache db' = Some c"
    using train_db_ok [OF sample_tree_walk _ ols_sample(3,2) rounding_id, of 4 3 empty_db False]
    by (auto simp: sample_tree_dom(2) empty_db_def)
  have w: "worker_core (\<lambda>_ _ _ _. Inl AssertFail) (get_callback XKey sample_tree deliver Header0 (replicate 64 0)) = Inr sample_worker"
    using worker_core_callbacks [of "\<lambda>_ _ _ _. Inl AssertFail" "get_callback XKey sample_tree deliver Header0 (replicate 64 0)"]
    by (auto simp: sample_worker_def)
  have v: "\<forall>k\<in>set [1, 1]. xtree_map sample_tree (XKey k) = Some k"
    unfolding xtree_map_def sample_tree_leaves
    by (simp add: leaf_map_def sample_tree_def sample_leafs_def node_map_def node_search_def keys_search_def val_at_def map_add_def)
  have "\<exists>cl'. ycsb_rounds False (core_eval (\<lambda>x. x) ols_lr ols_lr XKey 2 8 True sample_rd
        (eval_w_rpc xd (exchange (sample_worker\<lparr>incoming_sessions := [7 \<mapsto> Some ()]\<rparr>) 7) Header0 (replicate 64 0) (replicate 8 0) 1)
        c (tts db')) (\<lambda>_. Inl AssertFail) [1, 1] sample_client = Inr cl' \<and>
      counter (cstat cl') = counter (cstat sample_client) + of_nat (length [1, 1 :: u64])"
    by (rule ycsb_client_run [OF sample_tree_walk _ rounding_id _ _ _ _ _ _ tr ols_sample_mono [OF tr] sample_serves w _ _ _ _ _ v])
      (simp_all add: sample_tree_dom(2) empty_db_def sample_client_def idle_ReplyStation)
  with tr show ?thesis by blast
qed

text \<open>What the report prints for its epochs adds up: the sums of an epoch are differences, and the sums of
  all epochs together are, modulo \<open>2 ^ 64\<close>, the counters that the last epoch has read, over all threads.\<close>

theorem report_adds_up:
  assumes "\<forall>(st, t)\<in>set es. length st = n" and "es \<noteq> []"
  shows "(\<Sum>(a, b)\<leftarrow>fst (report_thpt n es). a) = (\<Sum>i<n. counter (fst (last es) ! i)) \<and>
    (\<Sum>(a, b)\<leftarrow>fst (report_thpt n es). b) = (\<Sum>i<n. counter1 (fst (last es) ! i))"
  unfolding report_thpt_def using report_epochs_sum [of "replicate n Statics" n es] assms by (simp add: Statics_def)

theorem report_adds_up_witness:
  "(\<Sum>(a, b)\<leftarrow>fst (report_thpt 2 [([increment Statics, Statics], 1000), ([increment Statics, increment_gap_1 (increment Statics) 5], 1000)]). a) =
      (\<Sum>i<2. counter (fst (last [([increment Statics, Statics], 1000), ([increment Statics, increment_gap_1 (increment Statics) 5], 1000 :: real)]) ! i)) \<and>
    (\<Sum>(a, b)\<leftarrow>fst (report_thpt 2 [([increment Statics, Statics], 1000), ([increment Statics, increment_gap_1 (increment Statics) 5], 1000)]). b) =
      (\<Sum>i<2. counter1 (fst (last [([increment Statics, Statics], 1000), ([increment Statics, increment_gap_1 (increment Statics) 5], 1000 :: real)]) ! i))"
  by (rule report_adds_up) simp_all

text \<open>C35: with \<^verbatim>\<open>--vlen\<close> no lookup of the YCSB client succeeds: the entries of the tables are the addresses of
  the leaves shifted by the 8 bits of the incarnation, and the client reads at the entries as they are.
  When the server has registered memory below \<open>B\<close> only and its leaves lie above a 256th of that, every
  lookup of every key of the tree fails, although the server has been trained and its submodels are
  monotone on these keys.\<close>

theorem ycsb_vlen_lookup_fails:
  fixes t :: "('k::{linorder,order_bot,order_top}, 'v) xtree" and num_sub :: "'w::len word"
    and M :: "('m, 'k) ml_ops" and M2 :: "('s, 'k) ml_ops" and db :: "('m, 's, 'w word) ycsb_db"
  assumes "walk_ok gen_f_default 16 t" and "\<forall>a\<in>set (butlast (tree_leaves t)). 2 \<le> card (dom (leaf_map (leafs t) a))"
    and "card (dom (xtree_map t)) < n" and "rounding rnd"
    and "0 < num_sub" "num_sub < 4000000" "unat num_sub \<le> 2 ^ 53" and "cache db = None" "tts db = []"
    and "train_db rnd True M M2 16 n num_sub t db = Some (Inr db')" "cache db' = Some c"
    and "\<And>i md. i < length (second_layer c) \<Longrightarrow> second_layer c ! i = Some md \<Longrightarrow>
      mono_on (dom (xtree_map t)) (ml_predict M2 (ml md))"
    and "\<forall>a n. B \<le> unat a \<longrightarrow> rd a n = None" and "\<forall>a\<in>set (tree_leaves t). B \<le> 256 * unat a"
    and "key \<in> dom (xtree_map t)"
  shows "\<exists>e. core_eval_v rnd M M2 key_of 16 len rd c (tts db') key = Inl e"
proof -
  have "answers rnd M M2 16 t c (tts db') key"
    using train_db_done [OF assms(1-12)] assms(15) by (simp add: db_trained_def)
  from core_eval_v_fails [OF assms(1) this _ assms(14)] assms(13) show ?thesis by blast
qed

text \<open>A tree of one leaf, as the server makes it, above the address 65536.\<close>

lemma one_key_tree:
  "\<exists>t :: (xkey, u64) xtree. walk_ok gen_f_default 16 t \<and> xtree_map t = [XKey 3 \<mapsto> 3] \<and> length (tree_leaves t) \<le> 1 \<and>
    (\<forall>a\<in>set (tree_leaves t). 65536 \<le> unat a)"
proof -
  have "\<exists>db sm. server_boot False 64 16 16 1 (\<lambda>_. Some 65536) = Inr (db, sm) \<and>
      pool_ok 64 65536 (64 * 16) 16 15 db \<and> xtree_map (fst db) = (Map.empty :: xkey \<rightharpoonup> u64)"
    by (rule server_boot_ok [where sz = 4194304]) (simp_all add: HugeRegion_def align_to_sz_def)
  then obtain db :: "(xkey, u64) xtree \<times> xalloc" where db: "pool_ok 64 65536 (64 * 16) 16 15 db" "xtree_map (fst db) = Map.empty" by blast
  have "XKey 3 \<noteq> top" by (simp add: xkey_defs)
  then obtain db' :: "(xkey, u64) xtree \<times> xalloc" where d: "pool_ok 64 65536 (64 * 16) 16 15 db'" "xtree_map (fst db') = [XKey 3 \<mapsto> 3]" "root (fst db') \<noteq> NullPtr"
    using pool_ok_put [OF db(1), of "XKey 3" 8 3] db(2) by auto
  have w: "walk_ok gen_f_default 16 (fst db')"
    by (rule pool_ok_walk [OF d(1) _ d(3)]) (simp_all add: d(2))
  note P = d(1) [unfolded pool_ok_def]
  have "length (tree_leaves (fst db')) \<le> max 1 (card (dom (xtree_map (fst db'))) div (16 div 2))"
    by (rule leaves_le_keys [OF xtree_ainvD(1) [OF conjunct1 [OF P]]]) (use P in simp_all)
  then have l: "length (tree_leaves (fst db')) \<le> 1" by (simp add: d(2))
  have "65536 \<le> unat a" if a: "a \<in> set (tree_leaves (fst db'))" for a
  proof -
    have "a \<noteq> 0" using walk_okD(1) [OF w] a by (auto simp: xtree_inv_def)
    then have "a \<in> xalloc_live 64 (snd db')" using P a by (auto simp: xtree_ainv_def held_def)
    with xpool_live(1) [of 64 65536 "64 * 16" "snd db'" a] P show ?thesis by (simp add: xtree_ainv_def)
  qed
  with w d(2) l show ?thesis by blast
qed

lemma one_key_fits:
  fixes t :: "(xkey, u64) xtree"
  assumes w: "walk_ok gen_f_default 16 t" and t: "xtree_map t = [XKey 3 \<mapsto> 3]"
  shows "learns_pages ols_lr 16 t"
  unfolding learns_pages_def
proof (intro ballI impI)
  fix s e assume k: "s \<in> dom (xtree_map t)" "e \<in> dom (xtree_map t)" "s \<le> e"
  then have W: "key_window 16 t s e \<noteq> []" "length (key_window 16 t s e) \<le> 1"
    using key_window_ok(1) [OF w k(1,3)] walk_from_ok(3) [OF w, of s] length_takeWhile_le [of _ "walk_from 16 t s"]
    unfolding key_window_def t by (auto intro: order_trans)
  then obtain p where p: "key_window 16 t s e = [p]" by (cases "key_window 16 t s e") auto
  have k: "mono (\<lambda>k. real (unat (xd k)))"
    by (intro monoI of_nat_mono) (simp add: xkey_defs word_le_nat_alt)
  show "fits_pages ols_lr 16 (key_window 16 t s e)"
    unfolding p ols_lr_def
    by (rule fits_pages_lr [OF k refl _ prod.collapse]) (simp_all add: unfixed_def double_to_int_small)
qed

theorem ycsb_vlen_lookup_fails_witness:
  "\<exists>(t :: (xkey, u64) xtree) db' c. train_db (\<lambda>x. x) True ols_lr ols_lr 16 4 3 t empty_db = Some (Inr db') \<and> cache db' = Some c \<and>
    xtree_map t (XKey 3) = Some 3 \<and>
    (\<exists>e. core_eval_v (\<lambda>x. x) ols_lr ols_lr XKey 16 8 (\<lambda>a n. if unat a < 2 ^ 24 then Some (replicate n 0) else None) c (tts db') (XKey 3) = Inl e)"
proof -
  obtain t :: "(xkey, u64) xtree" where t: "walk_ok gen_f_default 16 t" "xtree_map t = [XKey 3 \<mapsto> 3]" "length (tree_leaves t) \<le> 1"
    "\<forall>a\<in>set (tree_leaves t). 65536 \<le> unat a" using one_key_tree by blast
  have two: "\<forall>a\<in>set (butlast (tree_leaves t)). 2 \<le> card (dom (leaf_map (leafs t) a))"
    using t(3) by (cases "tree_leaves t") auto
  obtain db' c where tr: "train_db (\<lambda>x. x) True ols_lr ols_lr 16 4 3 t empty_db = Some (Inr db')" "cache db' = Some c"
    using train_db_ok [OF t(1) two _ ols_sample(3) one_key_fits [OF t(1,2)] rounding_id, of 4 3 empty_db True] by (auto simp: t(2) empty_db_def)
  have mono: "mono_on (dom (xtree_map t)) f" for f :: "xkey \<Rightarrow> real" by (simp add: t(2) mono_on_def)
  have "\<exists>e. core_eval_v (\<lambda>x. x) ols_lr ols_lr XKey 16 8 (\<lambda>a n. if unat a < 2 ^ 24 then Some (replicate n 0) else None) c (tts db') (XKey 3) = Inl e"
    by (rule ycsb_vlen_lookup_fails [OF t(1) two _ rounding_id _ _ _ _ _ tr mono, where B = "2 ^ 24"])
      (use t(4) in \<open>auto simp: t(2) empty_db_def\<close>)
  with tr t(2) show ?thesis by (intro exI [of _ t] exI [of _ db'] exI [of _ c]) simp
qed

end
