(* ===== verification/StaleCache.thy ===== *)
theory StaleCache
  imports Bootstrap
begin

text \<open>
  A cache that is older than the tree: the server goes on inserting after a client has fetched the models
  and the tables. Insertions never take a leaf away, so the tables keep pointing at leaves; what
  may happen is that a split moves a key to a leaf the tables do not know.

  The lemmas follow the leaves through insertions, and show that a lookup through an old cache gives the
  right value or fails, and that it can fail only after a split.
\<close>

section \<open>Insertions\<close>

lemma tree_put_grown:
  fixes db :: "('k::{linorder,order_bot,order_top}, 'v) xtree \<times> xalloc"
  assumes "tree_inv S N (Suc n) db" and "k \<noteq> top" and "k \<notin> dom (tree_map db)" and "tree_put S N sz db k v = Inr db'"
  shows "grown (fst db) (fst db')"
proof -
  have "can_alloc (xalloc_alloc S)
      (if pre_alloc_leaf_node (fst db) = 0 then Suc (Suc n) else Suc n) (snd db)"
    using assms(1) by (simp add: tree_inv_def split del: if_split)
  from xa.insert_w_alloc_ok [OF _ _ assms(2) _ this, of N sz v] obtain ret t' s' where
    "insert_w_alloc (xalloc_alloc S) N sz (fst db) (snd db) k v = Inr (ret, t', s')" "grown (fst db) t'"
    using assms(1,3) by (auto simp: tree_inv_def tree_map_def)
  then show ?thesis using assms(4) by (auto simp: tree_put_def)
qed

definition tree_puts :: "u64 \<Rightarrow> nat \<Rightarrow> nat \<Rightarrow> ('k::{linorder,order_top}, 'v) xtree \<times> xalloc \<Rightarrow> ('k \<times> 'v) list
    \<Rightarrow> (('k, 'v) xtree \<times> xalloc) res" where
  "tree_puts S N sz db kvs = foldl (\<lambda>acc kv. rbind acc (\<lambda>db. tree_put S N sz db (fst kv) (snd kv))) (Inr db) kvs"

lemma tree_puts_ok:
  fixes db :: "('k::{linorder,order_bot,order_top}, 'v) xtree \<times> xalloc"
  assumes "tree_inv S N (length kvs) db" and "distinct (map fst kvs)" and "set (map fst kvs) \<inter> dom (tree_map db) = {}"
    and "top \<notin> set (map fst kvs)"
  shows "\<exists>db'. tree_puts S N sz db kvs = Inr db' \<and> tree_inv S N 0 db' \<and>
    tree_map db' = tree_map db ++ map_of kvs \<and> grown (fst db) (fst db')"
  using assms
proof (induction kvs arbitrary: db)
  case Nil
  then show ?case by (simp add: tree_puts_def grown_refl)
next
  case (Cons kv kvs)
  obtain k v where kv: "kv = (k, v)" by fastforce
  have k: "k \<noteq> top" "k \<notin> dom (tree_map db)" using Cons.prems(3,4) kv by auto
  have inv: "tree_inv S N (Suc (length kvs)) db" using Cons.prems(1) by simp
  obtain db1 where p: "tree_put S N sz db k v = Inr db1" "tree_inv S N (length kvs) db1" "tree_map db1 = (tree_map db)(k \<mapsto> v)"
    using tree_put_ok [OF inv k] by blast
  have "set (map fst kvs) \<inter> dom (tree_map db1) = {}" using Cons.prems(2,3) unfolding p(3) kv by auto
  from Cons.IH [OF p(2) _ this] obtain db' where
    i: "tree_puts S N sz db1 kvs = Inr db'" "tree_inv S N 0 db'" "tree_map db' = tree_map db1 ++ map_of kvs" "grown (fst db1) (fst db')"
    using Cons.prems(2,4) by auto
  have "k \<notin> dom (map_of kvs)" using Cons.prems(2) kv by (auto simp: dom_map_of_conv_image_fst)
  from map_upd_add_map_of [OF this, of "tree_map db" v]
  have "tree_map db' = tree_map db ++ map_of (kv # kvs)" unfolding i(3) p(3) kv .
  moreover have "tree_puts S N sz db (kv # kvs) = Inr db'" using i(1) p(1) kv by (simp add: tree_puts_def)
  ultimately show ?case using i(2) grown_trans [OF tree_put_grown [OF inv k p(1)] i(4)] by blast
qed

section \<open>Properties\<close>

text \<open>C5: a cache that is older than the tree never gives a wrong value: the server has trained its cache, with
  submodels that are monotone on the keys of the tree, and then inserts any further keys; a client
  that looks up one of the first keys through the old cache gets its value, or fails because a split
  has moved the key out of the leaf that held it, which cannot happen as long as the tree has no new
  leaf.\<close>

theorem stale_cache_lookup:
  fixes db db' :: "('k::{linorder,order_bot,order_top}, u64) xtree \<times> xalloc" and num_sub :: "'w::len word"
    and M :: "('m, 'k) ml_ops" and M2 :: "('s, 'k) ml_ops" and tdb :: "('m, 's, 'w word) ycsb_db"
  assumes w: "walk_ok gen_f_default N (fst db)" and two: "\<forall>a\<in>set (butlast (tree_leaves (fst db))). 2 \<le> card (dom (leaf_map (leafs (fst db)) a))"
    and n: "card (dom (xtree_map (fst db))) < n" and rnd: "rounding rnd"
    and sub: "0 < num_sub" "num_sub < 4000000" "unat num_sub \<le> 2 ^ 53" and tdb: "cache tdb = None" "tts tdb = []"
    and W: "32 \<le> LENGTH('w)" and train: "train_db rnd vlen M M2 N n num_sub (fst db) tdb = Some (Inr tdb')" "cache tdb' = Some c"
    and mono: "\<And>i md. i < length (second_layer c) \<Longrightarrow> second_layer c ! i = Some md \<Longrightarrow>
      mono_on (dom (xtree_map (fst db))) (ml_predict M2 (ml md))"
    and ins: "tree_inv S N (length kvs) db" "distinct (map fst kvs)" "set (map fst kvs) \<inter> dom (xtree_map (fst db)) = {}"
      "top \<notin> set (map fst kvs)" "tree_puts S N sz db kvs = Inr db'"
    and kw: "\<And>k. key_of (word_of k) = k" and rd: "serves rd word_of N (nat (max len 8)) (fst db')"
    and wk: "worker_core meta (get_callback key_of (fst db') deliver h0 buf) = Inr sc" "length buf = 64"
    and cl: "unat cor < 128" "idle (cstation cl) (unat cor)" "length sbuf = 64" "length rbuf = 8"
    and key: "xtree_map (fst db) key = Some v"
  shows "(\<exists>cl'. core_eval rnd M M2 key_of N len logs rd
        (eval_w_rpc word_of (exchange (sc\<lparr>incoming_sessions := [sid \<mapsto> Some ()]\<rparr>) sid) h1 sbuf rbuf cor) c (tts tdb') key cl = Inr (v, cl') \<and>
      idle (cstation cl') (unat cor)) \<or>
    core_eval rnd M M2 key_of N len logs rd
        (eval_w_rpc word_of (exchange (sc\<lparr>incoming_sessions := [sid \<mapsto> Some ()]\<rparr>) sid) h1 sbuf rbuf cor) c (tts tdb') key cl = Inl AssertFail \<and>
      set (tree_leaves (fst db)) \<subset> set (tree_leaves (fst db')) \<and>
      (\<exists>a\<in>set (tree_leaves (fst db)). key \<in> dom (leaf_map (leafs (fst db)) a) \<and> key \<notin> dom (leaf_map (leafs (fst db')) a))"
proof -
  let ?rpc = "eval_w_rpc word_of (exchange (sc\<lparr>incoming_sessions := [sid \<mapsto> Some ()]\<rparr>) sid) h1 sbuf rbuf cor"
  have k: "key \<in> dom (xtree_map (fst db))" using key by blast
  have a: "answers rnd M M2 N (fst db) c (tts tdb') key"
    using train_db_done [OF w two n rnd sub tdb train mono] k by (simp add: db_trained_def)
  obtain db2 where "tree_puts S N sz db kvs = Inr db2" "tree_inv S N 0 db2" "tree_map db2 = tree_map db ++ map_of kvs"
    "grown (fst db) (fst db2)"
    using tree_puts_ok [OF ins(1,2) _ ins(4), of sz] ins(3) by (auto simp: tree_map_def)
  then have db': "tree_inv S N 0 db'" "tree_map db' = tree_map db ++ map_of kvs" "grown (fst db) (fst db')"
    using ins(5) by simp_all
  have "key \<notin> dom (map_of kvs)" using ins(3) k by (auto simp: dom_map_of_conv_image_fst)
  then have v: "xtree_map (fst db') key = Some v" using db'(2) key by (auto simp: tree_map_def map_add_def domIff)
  have inv: "xtree_inv N (fst db')" using db'(1) by (simp add: tree_inv_def xtree_ainv_def)
  have ktop: "key \<noteq> top" using tree_key_less_top [OF inv, of key] v by blast
  have ne: "tree_map db' \<noteq> Map.empty" using v by (auto simp: tree_map_def)
  have get: "get_impl (fst db') key = Inr (Some v)"
    using tree_get_ok [OF db'(1) ne ktop] v by (simp add: tree_get_def tree_map_def)
  have root: "root (fst db') \<noteq> NullPtr"
  proof
    assume "root (fst db') = NullPtr"
    then have "tree_leaves (fst db') = []" by (cases "depth (fst db')") (simp_all add: tree_leaves_def)
    then show False using v by (simp add: xtree_map_def)
  qed
  have rpc: "\<exists>st'. ?rpc key (cstation cl) = Inr (v, st') \<and> idle st' (unat cor)"
    using eval_w_rpc_ok [where key = key and word_of = word_of, OF wk(1) refl get kw wk(2) cl] by blast
  have sub: "set (tree_leaves (fst db)) \<subseteq> set (tree_leaves (fst db'))" using db'(3) by (simp add: grown_def)
  have "set (tree_leaves (fst db)) \<subset> set (tree_leaves (fst db'))"
    if moved: "\<exists>a\<in>set (tree_leaves (fst db)). key \<in> dom (leaf_map (leafs (fst db)) a) \<and> key \<notin> dom (leaf_map (leafs (fst db')) a)"
  proof (rule psubsetI [OF sub], rule notI)
    assume same: "set (tree_leaves (fst db)) = set (tree_leaves (fst db'))"
    obtain a where a: "a \<in> set (tree_leaves (fst db))" "key \<in> dom (leaf_map (leafs (fst db)) a)" "key \<notin> dom (leaf_map (leafs (fst db')) a)"
      using moved by blast
    have "dom (leaf_map (leafs (fst db)) a) \<subseteq> dom (leaf_map (leafs (fst db')) a)" using db'(3) same a(1) by (simp add: grown_def)
    then show False using a(2,3) by blast
  qed
  with core_eval_stale [where P = "\<lambda>st. idle st (unat cor)" and cl = cl and logs = logs and rpc = ?rpc, OF w a W inv root sub kw rd v rpc cl(2)]
  show ?thesis by blast
qed

section \<open>Witness\<close>

text \<open>The sample tree in a pool of four blocks, and the memory after the key 6 has gone into the free slot of its second leaf.\<close>

definition stale_db :: "(xkey, u64) xtree \<times> xalloc" where
  "stale_db = (sample_tree, (XAlloc 64 256)\<lparr>cur_alloc_num := 2, cur_alloc_sz := 128\<rparr>)"

definition stale_mem :: "u8 list" where
  "stale_mem = replicate 64 0 @
     (node_keys_bytes xd \<lparr>keys = [XKey 3, XKey 1], incarnation = 0\<rparr> @ le_bytes 8 (30 :: u64) @ le_bytes 8 (1 :: u64)) @
     replicate 30 0 @
     (node_keys_bytes xd \<lparr>keys = [XKey 5, XKey 6], incarnation = 0\<rparr> @ le_bytes 8 (50 :: u64) @ le_bytes 8 (60 :: u64))"

definition stale_rd :: rdma where
  "stale_rd a n = (if unat a + n \<le> length stale_mem then Some (take n (drop (unat a) stale_mem)) else None)"

lemma stale_inv: "tree_inv 64 2 1 stale_db"
proof -
  have pre: "pre_alloc_leaf_node sample_tree = 0" by (simp add: sample_tree_def)
  have "{..<2::nat} = {0, 1}" by (simp add: lessThan_Suc numeral_2_eq_2 insert_commute)
  then have live: "xalloc_live 64 (snd stale_db) = {64, 128}" by (simp add: xalloc_live_def stale_db_def XAlloc_def)
  have inv: "xalloc_inv 64 (snd stale_db)" by (simp add: xalloc_inv_def stale_db_def XAlloc_def)
  have "held sample_tree = {64, 128}" using pre by (auto simp: held_def sample_tree_leaves)
  then have "xtree_ainv (xalloc_live 64) (xalloc_inv 64) 2 (fst stale_db) (snd stale_db)"
    using live inv sample_tree_inv(1) pre by (simp add: xtree_ainv_def stale_db_def)
  moreover have "can_alloc (xalloc_alloc 64) (Suc (Suc 0)) (snd stale_db)"
    by (rule xalloc_can_alloc [OF inv]) (simp add: stale_db_def XAlloc_def)
  ultimately show ?thesis using pre by (simp add: tree_inv_def stale_db_def del: can_alloc.simps)
qed

definition stale_db' :: "(xkey, u64) xtree \<times> xalloc" where
  "stale_db' = projr (tree_puts 64 2 8 stale_db [(XKey 6, 60)])"

lemma stale_leaves:
  "tree_leaves (fst stale_db') = [64, 128]"
  "leafs (fst stale_db') 64 = Some \<lparr>xkeys = \<lparr>keys = [XKey 3, XKey 1], incarnation = 0\<rparr>, xvals = Inplace [Some 30, Some 1], xnext = 128, xlock = 0\<rparr>"
  "leafs (fst stale_db') 128 = Some \<lparr>xkeys = \<lparr>keys = [XKey 5, XKey 6], incarnation = 0\<rparr>, xvals = Inplace [Some 50, Some 60], xnext = 0, xlock = 0\<rparr>"
  by code_simp+

lemma stale_puts: "tree_puts 64 2 8 stale_db [(XKey 6, 60)] = Inr stale_db'"
proof -
  have "\<exists>db'. tree_puts 64 2 8 stale_db [(XKey 6, 60)] = Inr db' \<and> tree_inv 64 2 0 db' \<and>
      tree_map db' = tree_map stale_db ++ map_of [(XKey 6, 60)] \<and> grown (fst stale_db) (fst db')"
    by (rule tree_puts_ok) (use stale_inv in \<open>simp_all add: tree_map_def stale_db_def sample_tree_dom domIff [symmetric] xkey_defs\<close>)
  then show ?thesis by (auto simp: stale_db'_def)
qed

lemma stale_serves: "serves stale_rd xd 2 (nat (max 8 8)) (fst stale_db')"
proof -
  have l: "length (node_keys_bytes xd \<lparr>keys = [a, b], incarnation = i\<rparr>) = 18" for a b i
    by (simp add: length_keys_bytes)
  have two: "i < 2 \<longleftrightarrow> i = 0 \<or> i = 1" for i :: nat by arith
  show ?thesis
    unfolding serves_def stale_leaves(1)
    by (auto simp: stale_leaves(2,3) stale_rd_def stale_mem_def l value_start_offset_def value_offset_def
        offset_inplace_def val_at_def two simp del: le_bytes.simps)
qed

definition stale_worker :: "(unit, u8 list list) rpc_core" where
  "stale_worker = projr (worker_core (\<lambda>_ _ _ _. Inl AssertFail) (get_callback XKey (fst stale_db') deliver Header0 (replicate 64 0)))"

theorem stale_cache_lookup_witness:
  "\<exists>tdb' c. train_db (\<lambda>x. x) False ols_lr ols_lr 2 4 3 (fst stale_db) empty_db = Some (Inr tdb') \<and> cache tdb' = Some c \<and>
    ((\<exists>cl'. core_eval (\<lambda>x. x) ols_lr ols_lr XKey 2 8 True stale_rd
        (eval_w_rpc xd (exchange (stale_worker\<lparr>incoming_sessions := [7 \<mapsto> Some ()]\<rparr>) 7) Header0 (replicate 64 0) (replicate 8 0) 1)
        c (tts tdb') (XKey 3) sample_client = Inr (30, cl') \<and> idle (cstation cl') (unat (1 :: u32))) \<or>
     core_eval (\<lambda>x. x) ols_lr ols_lr XKey 2 8 True stale_rd
        (eval_w_rpc xd (exchange (stale_worker\<lparr>incoming_sessions := [7 \<mapsto> Some ()]\<rparr>) 7) Header0 (replicate 64 0) (replicate 8 0) 1)
        c (tts tdb') (XKey 3) sample_client = Inl AssertFail \<and>
       set (tree_leaves (fst stale_db)) \<subset> set (tree_leaves (fst stale_db')) \<and>
       (\<exists>a\<in>set (tree_leaves (fst stale_db)). XKey 3 \<in> dom (leaf_map (leafs (fst stale_db)) a) \<and>
          XKey 3 \<notin> dom (leaf_map (leafs (fst stale_db')) a)))"
proof -
  have fst: "fst stale_db = sample_tree" by (simp add: stale_db_def)
  obtain tdb' c where tr: "train_db (\<lambda>x. x) False ols_lr ols_lr 2 4 3 (fst stale_db) empty_db = Some (Inr tdb')" "cache tdb' = Some c"
    using train_db_ok [OF sample_tree_walk _ ols_sample(3,2) rounding_id, of 4 3 empty_db False]
    by (auto simp: fst sample_tree_dom(2) empty_db_def)
  have w: "worker_core (\<lambda>_ _ _ _. Inl AssertFail) (get_callback XKey (fst stale_db') deliver Header0 (replicate 64 0)) = Inr stale_worker"
    using worker_core_callbacks [of "\<lambda>_ _ _ _. Inl AssertFail" "get_callback XKey (fst stale_db') deliver Header0 (replicate 64 0)"]
    by (auto simp: stale_worker_def)
  have v: "xtree_map (fst stale_db) (XKey 3) = Some 30"
    unfolding xtree_map_def fst sample_tree_leaves
    by (simp add: leaf_map_def sample_tree_def sample_leafs_def node_map_def node_search_def
        keys_search_def val_at_def map_add_def)
  note walk = sample_tree_walk [folded fst]
  have "(\<exists>cl'. core_eval (\<lambda>x. x) ols_lr ols_lr XKey 2 8 True stale_rd
        (eval_w_rpc xd (exchange (stale_worker\<lparr>incoming_sessions := [7 \<mapsto> Some ()]\<rparr>) 7) Header0 (replicate 64 0) (replicate 8 0) 1)
        c (tts tdb') (XKey 3) sample_client = Inr (30, cl') \<and> idle (cstation cl') (unat (1 :: u32))) \<or>
     core_eval (\<lambda>x. x) ols_lr ols_lr XKey 2 8 True stale_rd
        (eval_w_rpc xd (exchange (stale_worker\<lparr>incoming_sessions := [7 \<mapsto> Some ()]\<rparr>) 7) Header0 (replicate 64 0) (replicate 8 0) 1)
        c (tts tdb') (XKey 3) sample_client = Inl AssertFail \<and>
       set (tree_leaves (fst stale_db)) \<subset> set (tree_leaves (fst stale_db')) \<and>
       (\<exists>a\<in>set (tree_leaves (fst stale_db)). XKey 3 \<in> dom (leaf_map (leafs (fst stale_db)) a) \<and>
          XKey 3 \<notin> dom (leaf_map (leafs (fst stale_db')) a))"
    by (rule stale_cache_lookup [OF walk _ rounding_id _ _ _ _ _ _ tr ols_sample_mono [OF tr [unfolded fst]] _ _ _ _ stale_puts _ stale_serves w _ _ _ _ _ v])
      (use stale_inv in \<open>simp_all add: fst sample_tree_dom empty_db_def sample_client_def idle_ReplyStation xkey_defs\<close>)
  with tr show ?thesis by blast
qed

end
