(* ===== verification/RpcBench.thy ===== *)
theory RpcBench
  imports YcsbClient
begin

text \<open>
  The benchmark of the RPC layer: the server (\<^verbatim>\<open>xcomm/benchs/rpc_server.cc\<close>) answers every request with a
  number and stops on request, the client (\<^verbatim>\<open>rpc_client.cc\<close>) sends requests until it has had enough
  replies. The transport is a parameter; \<open>stop\<close> and \<open>running\<close> clear and read the flag of the server.

  The lemmas show that a coroutine of the client ends with one reply more than its limit, all of them
  right, and that the stop message ends the loop of the server.
\<close>

section \<open>The server\<close>

definition bench_callback :: "('ch \<Rightarrow> u8 list \<Rightarrow> 'w \<Rightarrow> 'w res) \<Rightarrow> header \<Rightarrow> u8 list \<Rightarrow> ('ch, 'w) rpc_func" where
  "bench_callback send h0 buf h args replyc w =
     rbind (cassert (length args = 8)) (\<lambda>_.
     rbind (cassert ((of_le_bytes args :: u64) = 73)) (\<lambda>_.
     rbind (set_msg buf (RPCOp h0)) (\<lambda>op.
     let (_, op1) = add_arg (le_bytes 8) 8 (73 + 1 :: u64) (set_corid (ucast (hcor_id h)) (set_reply op)) in
     (case replyc of Some ch \<Rightarrow> op_execute send ch op1 w | None \<Rightarrow> Inl NullDeref))))"

definition bench_stop :: "('w \<Rightarrow> 'w) \<Rightarrow> ('ch, 'w) rpc_func" where
  "bench_stop stop h args replyc w = Inr (stop w)"

definition bench_core :: "('ch \<Rightarrow> u8 list \<Rightarrow> 'w \<Rightarrow> 'w res) \<Rightarrow> header \<Rightarrow> u8 list \<Rightarrow> ('w \<Rightarrow> 'w) \<Rightarrow> ('ch, 'w) rpc_core" where
  "bench_core send h0 buf stop =
     (let (_, c1) = reg_callback (RPCCore 12) (bench_callback send h0 buf);
          (_, c2) = reg_callback c1 (bench_stop stop)
      in c2)"

text \<open>The loop over what the polls deliver.\<close>

fun bench_serve :: "('w \<Rightarrow> bool) \<Rightarrow> (u32 \<Rightarrow> u8 list \<Rightarrow> 'ch res) \<Rightarrow> ('ch, 'w) rpc_core \<times> 'w \<Rightarrow> (u32 \<times> u8 list) list list
    \<Rightarrow> (('ch, 'w) rpc_core \<times> 'w) res" where
  "bench_serve running add cw [] = Inr cw"
| "bench_serve running add cw (poll # polls) =
     (if running (snd cw) then rbind (recv_event_loop add cw poll) (\<lambda>(_, cw'). bench_serve running add cw' polls) else Inr cw)"

section \<open>The client\<close>

record bench_client =
  bstation :: reply_station
  total_processed :: nat
  bstat :: statics

definition bench_round :: "exec \<Rightarrow> header \<Rightarrow> u8 list \<Rightarrow> u32 \<Rightarrow> u8 list \<Rightarrow> bench_client \<Rightarrow> (u8 list \<times> bench_client) res" where
  "bench_round exec h0 sbuf cor rbuf c =
     rbind (call exec h0 sbuf rbuf 0 cor 73 (bstation c)) (\<lambda>(r, st).
     Inr (r, c\<lparr>bstation := st, total_processed := total_processed c + 1, bstat := increment (bstat c)\<rparr>))"

text \<open>\<open>limit\<close> is 10000000.\<close>

function bench_cor :: "exec \<Rightarrow> header \<Rightarrow> u8 list \<Rightarrow> u32 \<Rightarrow> nat \<Rightarrow> u8 list \<Rightarrow> bench_client \<Rightarrow> (u8 list \<times> bench_client) res" where
  "bench_cor exec h0 sbuf cor limit rbuf c =
     (case bench_round exec h0 sbuf cor rbuf c of
        Inl e \<Rightarrow> Inl e
      | Inr (r, c') \<Rightarrow> if total_processed c' > limit then Inr (r, c') else bench_cor exec h0 sbuf cor limit r c')"
  by pat_completeness auto
termination
proof (relation "measure (\<lambda>(exec, h0, sbuf, cor, limit, rbuf, c). Suc limit - total_processed c)")
  fix exec h0 sbuf cor limit rbuf c p r c'
  assume "bench_round exec h0 sbuf cor rbuf c = Inr p" "(r, c') = p" "\<not> limit < total_processed c'"
  then show "((exec, h0, sbuf, cor, limit, r, c'), exec, h0, sbuf, cor, limit, rbuf, c)
      \<in> measure (\<lambda>(exec, h0, sbuf, cor, limit, rbuf, c). Suc limit - total_processed c)"
    by (auto simp: bench_round_def rbind_Inr_iff)
qed simp

declare bench_cor.simps [simp del]

definition stop_op :: "header \<Rightarrow> u8 list \<Rightarrow> u32 \<Rightarrow> rpc_op res" where
  "stop_op h0 sbuf cor = rbind (set_msg sbuf (RPCOp h0)) (\<lambda>op. Inr (set_corid cor (set_rpc_id 1 (set_req op))))"

section \<open>One round\<close>

lemma bench_core_simps:
  "callbacks (bench_core send h0 buf stop) = [bench_callback send h0 buf, bench_stop stop]"
  "incoming_sessions (bench_core send h0 buf stop) = Map.empty"
  by (simp_all add: bench_core_def reg_callback_def RPCCore_def)

lemma bench_callback_ok:
  assumes "16 \<le> length buf"
  shows "\<exists>op. bench_callback deliver h0 buf h (le_bytes 8 (73 :: u64)) (Some ()) [] = Inr [omsg (op_finalize op)] \<and>
    op_ok op (le_bytes 8 (74 :: u64)) \<and> htype (oheader op) = Reply \<and> hcor_id (oheader op) = hcor_id h"
proof -
  obtain op where op: "set_msg buf (RPCOp h0) = Inr op" "op_ok op []" "omsg op = buf"
    using set_msg_ok [of buf "RPCOp h0"] assms by auto
  let ?op = "set_corid (ucast (hcor_id h)) (set_reply op)"
  have "op_ok ?op []" "8 + length ([] :: u8 list) + 8 \<le> length (omsg ?op)"
    using op(2,3) assms by (simp_all add: op_simps)
  then obtain op' where op': "add_arg (le_bytes 8) 8 (73 + 1 :: u64) ?op = (True, op')" "op_ok op' (le_bytes 8 (73 + 1 :: u64))"
    "oheader op' = oheader ?op" using add_arg_ok [of ?op "[]" "le_bytes 8" "73 + 1 :: u64" 8] by auto
  have k: "of_le_bytes (le_bytes 8 (73 :: u64)) = (73 :: u64)" by (rule of_le_bytes_full) simp
  have "bench_callback deliver h0 buf h (le_bytes 8 (73 :: u64)) (Some ()) [] = Inr [omsg (op_finalize op')]"
    unfolding bench_callback_def k using op(1) op'(1) by (simp add: op_execute_def deliver_def del: le_bytes.simps)
  moreover have "ucast (ucast (hcor_id h) :: u32) = hcor_id h" by (rule bit_word_eqI) (auto simp: bit_simps dest: bit_imp_le_length)
  ultimately show ?thesis using op'(2,3) by (intro exI [of _ op']) (simp add: op_simps)
qed

lemma bench_round_ok:
  assumes buf: "16 \<le> length buf" and cor: "unat cor < 128" "idle (bstation c) (unat cor)" and len: "16 \<le> length sbuf" "8 \<le> length rb"
    and sc: "sc = (bench_core deliver h0 buf stop)\<lparr>incoming_sessions := [sid \<mapsto> Some ()]\<rparr>"
  shows "\<exists>c'. bench_round (exchange sc sid) h1 sbuf cor rb c = Inr (le_bytes 8 (74 :: u64) @ drop 8 rb, c') \<and> idle (bstation c') (unat cor) \<and>
    total_processed c' = total_processed c + 1 \<and> bstat c' = increment (bstat c)"
proof -
  have cb: "callbacks sc = [bench_callback deliver h0 buf, bench_stop stop]" by (simp add: sc bench_core_simps)
  have reply: "\<exists>op. (callbacks sc ! 0) h (le_bytes 8 (73 :: u64)) (Some ()) [] = Inr [omsg (op_finalize op)] \<and>
      op_ok op (le_bytes 8 (74 :: u64)) \<and> htype (oheader op) = Reply \<and> hcor_id (oheader op) = ucast cor" if "hcor_id h = ucast cor" for h
    using bench_callback_ok [OF buf, of h0 h] that by (simp add: cb)
  have "\<exists>st'. call (exchange sc sid) h1 sbuf rb 0 cor 73 (bstation c) =
      Inr (le_bytes 8 (74 :: u64) @ drop (length (le_bytes 8 (74 :: u64))) rb, st') \<and> idle st' (unat cor) \<and> length st' = length (bstation c)"
    by (rule call_ok [OF cor len(1) _ _ _ reply]) (use len in \<open>simp_all add: sc bench_core_simps\<close>)
  then show ?thesis by (auto simp: bench_round_def)
qed

lemma bench_cor_ok:
  assumes buf: "16 \<le> length buf" and cor: "unat cor < 128" and len: "16 \<le> length sbuf"
    and sc: "sc = (bench_core deliver h0 buf stop)\<lparr>incoming_sessions := [sid \<mapsto> Some ()]\<rparr>"
  shows "idle (bstation c) (unat cor) \<Longrightarrow> 8 \<le> length rb \<Longrightarrow> total_processed c \<le> limit \<Longrightarrow>
    \<exists>c'. bench_cor (exchange sc sid) h1 sbuf cor limit rb c = Inr (le_bytes 8 (74 :: u64) @ drop 8 rb, c') \<and>
      total_processed c' = limit + 1 \<and> counter (bstat c') = counter (bstat c) + of_nat (limit + 1 - total_processed c)"
proof (induction "limit - total_processed c" arbitrary: c rb)
  case 0
  then show ?case using bench_round_ok [OF buf cor 0(2) len 0(3) sc, of h1]
    by (subst bench_cor.simps) (auto simp: increment_def)
next
  case (Suc n)
  let ?rb = "le_bytes 8 (74 :: u64) @ drop 8 rb"
  obtain c1 where c1: "bench_round (exchange sc sid) h1 sbuf cor rb c = Inr (?rb, c1)" "idle (bstation c1) (unat cor)"
      "total_processed c1 = total_processed c + 1" "bstat c1 = increment (bstat c)"
    using bench_round_ok [OF buf cor Suc(3) len Suc(4) sc, of h1] by blast
  have n: "n = limit - total_processed c1" "total_processed c1 \<le> limit" "8 \<le> length ?rb" using Suc(2) c1(3) by simp_all
  obtain c' where c': "bench_cor (exchange sc sid) h1 sbuf cor limit ?rb c1 = Inr (le_bytes 8 (74 :: u64) @ drop 8 ?rb, c')"
      "total_processed c' = limit + 1" "counter (bstat c') = counter (bstat c1) + of_nat (limit + 1 - total_processed c1)"
    using Suc.hyps(1) [OF n(1) c1(2) n(3,2)] by blast
  have d: "drop 8 ?rb = drop 8 rb" by simp
  have "limit + 1 - total_processed c = Suc (limit + 1 - total_processed c1)" using n(2) c1(3) by simp
  then have "counter (bstat c') = counter (bstat c) + of_nat (limit + 1 - total_processed c)"
    by (simp add: c'(3) c1(4) increment_def)
  then show ?case using c1(1) c'(1,2) n(2) d by (subst bench_cor.simps) (simp del: le_bytes.simps)
qed

section \<open>Properties\<close>

text \<open>The RPC benchmark ends: a coroutine of the client that talks to the server gets a reply for each of
  its requests until the thread has processed one more than the limit; every reply is the number 74,
  and the thread's counter goes up by the number of replies.\<close>

theorem bench_client_ends:
  assumes "16 \<le> length buf" and "unat cor < 128" and "16 \<le> length sbuf"
    and "idle (bstation c) (unat cor)" and "8 \<le> length rb" and "total_processed c \<le> limit"
  shows "\<exists>c'. bench_cor (exchange ((bench_core deliver h0 buf stop)\<lparr>incoming_sessions := [sid \<mapsto> Some ()]\<rparr>) sid) h1 sbuf cor limit rb c =
      Inr (le_bytes 8 (74 :: u64) @ drop 8 rb, c') \<and>
    total_processed c' = limit + 1 \<and> counter (bstat c') = counter (bstat c) + of_nat (limit + 1 - total_processed c)"
  by (rule bench_cor_ok [OF assms(1-3) refl assms(4-6)])

theorem bench_client_ends_witness:
  "\<exists>c'. bench_cor (exchange ((bench_core deliver Header0 (replicate 64 0) id)\<lparr>incoming_sessions := [7 \<mapsto> Some ()]\<rparr>) 7) Header0
      (replicate 2048 0) 1 10000000 (replicate 1024 0) \<lparr>bstation = ReplyStation 12, total_processed = 0, bstat = Statics\<rparr> =
      Inr (le_bytes 8 (74 :: u64) @ drop 8 (replicate 1024 0), c') \<and>
    total_processed c' = 10000000 + 1 \<and>
    counter (bstat c') = counter (bstat \<lparr>bstation = ReplyStation 12, total_processed = 0, bstat = Statics\<rparr>) +
      of_nat (10000000 + 1 - total_processed \<lparr>bstation = ReplyStation 12, total_processed = 0, bstat = Statics\<rparr>)"
  by (rule bench_client_ends) (simp_all add: idle_def ReplyStation_def ReplyEntry0_def)

text \<open>The stop message ends the server: whatever arrives in later polls, the loop returns with the flag cleared
  and nothing is handled any more.\<close>

theorem bench_stop_ends:
  assumes "stop_op h1 sbuf cor = Inr op" and "8 \<le> length sbuf" and "running w" and "\<not> running (stop w)"
  shows "\<exists>c'. bench_serve running add (bench_core send h0 buf stop, w) ([(sid, omsg (op_finalize op) @ rest)] # polls) = Inr (c', stop w)"
proof -
  obtain op0 where op0: "set_msg sbuf (RPCOp h1) = Inr op0" "op_ok op0 []"
    using set_msg_ok [of sbuf "RPCOp h1"] assms(2) by auto
  have op: "op = set_corid cor (set_rpc_id 1 (set_req op0))" using assms(1) op0(1) by (simp add: stop_op_def)
  then have ok: "op_ok op []" using op0(2) by (simp add: op_simps)
  have h: "htype (oheader op) = Req" "unat (hrpc_id (oheader op)) = 1" by (simp_all add: op op_simps)
  have "\<exists>c' h'. recv_msg add (bench_core send h0 buf stop, w) (sid, omsg (op_finalize op) @ rest) = Inr (h', c', stop w)"
    unfolding recv_msg_parsed [OF ok, simplified] using h by (simp add: bench_core_simps bench_stop_def)
  then obtain c' h' where "recv_msg add (bench_core send h0 buf stop, w) (sid, omsg (op_finalize op) @ rest) = Inr (h', c', stop w)" by blast
  moreover have "bench_serve running add (c', stop w) polls = Inr (c', stop w)" using assms(4) by (cases polls) simp_all
  ultimately show ?thesis using assms(3) by (simp add: recv_event_loop_def)
qed

theorem bench_stop_ends_witness:
  "\<exists>op c'. stop_op Header0 (replicate 2048 0) 1 = Inr op \<and>
    bench_serve (\<lambda>w. w) (\<lambda>_ _. Inr ()) (bench_core (\<lambda>_ _ w. Inr w) Header0 (replicate 64 0) (\<lambda>_. False), True)
      ([(7, omsg (op_finalize op) @ [])] # [[(7, [])]]) = Inr (c', False)"
proof -
  obtain op where op: "stop_op Header0 (replicate 2048 0) 1 = Inr op"
    by (simp add: stop_op_def set_msg_def sizeof_Header_def)
  have "\<exists>c'. bench_serve (\<lambda>w. w) (\<lambda>_ _. Inr ()) (bench_core (\<lambda>_ _ w. Inr w) Header0 (replicate 64 0) (\<lambda>_. False), True)
      ([(7, omsg (op_finalize op) @ [])] # [[(7, [])]]) = Inr (c', False)"
    by (rule bench_stop_ends [OF op, where stop = "\<lambda>_. False" and w = True and running = "\<lambda>w. w"]) simp_all
  with op show ?thesis by blast
qed

end
