(* ===== verification/BasicRW.thy ===== *)
theory BasicRW
  imports YcsbClient
begin

text \<open>
  The benchmark of raw reads, \<^verbatim>\<open>benchs/bench_basic_rw.cc\<close>: a coroutine reads a run of leaves in one batch, as
  many as a model with the given error would predict, and then a value. The numbers that the generator
  of r2 draws are arguments. The lemmas show which requests a round makes, that rounds leave the
  batch as they found it, and for which errors the assertion on the number of pages cannot fail.
\<close>

definition bench_max_keys :: nat where "bench_max_keys = 16"
definition total_pages :: u64 where "total_pages = 64 * 1024"

text \<open>The loop that fills the batch, over the slots \<^verbatim>\<open>src_slot\<close> to \<^verbatim>\<open>end_slot\<close>; \<open>sz\<close> is the size of a leaf.\<close>

fun basic_reads :: "nat \<Rightarrow> u64 list \<Rightarrow> batch_op \<Rightarrow> batch_op res" where
  "basic_reads sz [] b = Inr b"
| "basic_reads sz (addr # as) b =
     rbind (set_cur_op (emplace b) (addr * of_nat sz, value_start_offset bench_max_keys 8)) (basic_reads sz as)"

text \<open>\<open>r\<close>, \<open>n1\<close> and \<open>n2\<close> are the random slot and the two random numbers.\<close>

definition basic_slots :: "u64 \<Rightarrow> nat \<Rightarrow> u64 list" where
  "basic_slots r page_num = map (\<lambda>i. r mod total_pages + of_nat i) [0..<Suc page_num]"

definition basic_round :: "rdma \<Rightarrow> nat \<Rightarrow> nat \<Rightarrow> u64 \<times> nat \<times> nat \<Rightarrow> batch_op \<times> statics \<Rightarrow> (batch_op \<times> statics) res" where
  "basic_round rd sz plen = (\<lambda>(r, n1, n2) (b, st).
     let src_slot = r mod total_pages; page_num = (n1 + n2) div bench_max_keys in
     rbind (cassert (page_num < 16)) (\<lambda>_.
     rbind (basic_reads sz (basic_slots r page_num) b) (\<lambda>b.
     rbind (batch_execute rd b) (\<lambda>(ret, b).
     rbind (cassert (ret \<noteq> None)) (\<lambda>_.
     rbind (cassert (rd (src_slot * of_nat sz) plen \<noteq> None)) (\<lambda>_. Inr (b, increment st)))))))"

text \<open>The coroutine never ends; the list has the draws of the rounds it makes.\<close>

fun basic_rounds :: "rdma \<Rightarrow> nat \<Rightarrow> nat \<Rightarrow> (u64 \<times> nat \<times> nat) list \<Rightarrow> batch_op \<times> statics \<Rightarrow> (batch_op \<times> statics) res" where
  "basic_rounds rd sz plen [] s = Inr s"
| "basic_rounds rd sz plen (d # ds) s = rbind (basic_round rd sz plen d s) (basic_rounds rd sz plen ds)"

definition basic_coroutine :: "rdma \<Rightarrow> nat \<Rightarrow> nat \<Rightarrow> (u64 \<times> nat \<times> nat) list \<Rightarrow> statics \<Rightarrow> (batch_op \<times> statics) res" where
  "basic_coroutine rd sz plen ds st =
     rbind (cassert (16 * sz \<le> 40960)) (\<lambda>_. basic_rounds rd sz plen ds (BatchOp 16, st))"

section \<open>Rounds\<close>

lemma basic_reads_ok:
  assumes "batch_holds 16 b rs" and "length rs + length as \<le> 16"
  shows "\<exists>b'. basic_reads sz as b = Inr b' \<and>
    batch_holds 16 b' (rs @ map (\<lambda>a. (a * of_nat sz, value_start_offset bench_max_keys 8)) as)"
  using assms
proof (induction as arbitrary: b rs)
  case (Cons a as)
  let ?q = "(a * of_nat sz, value_start_offset bench_max_keys 8)"
  obtain b1 where b1: "set_cur_op (emplace b) ?q = Inr b1" "batch_holds 16 b1 (rs @ [?q])"
    using batch_holds_add [OF Cons.prems(1), of ?q] Cons.prems(2) by auto
  obtain b2 where "basic_reads sz as b1 = Inr b2"
      "batch_holds 16 b2 ((rs @ [?q]) @ map (\<lambda>a. (a * of_nat sz, value_start_offset bench_max_keys 8)) as)"
    using Cons.IH [OF b1(2)] Cons.prems(2) by auto
  then show ?case using b1(1) by simp
qed simp

text \<open>The requests of a round, which a card that serves them completes; the batch is empty behind it.\<close>

definition basic_requests :: "nat \<Rightarrow> nat \<Rightarrow> u64 \<times> nat \<times> nat \<Rightarrow> (addr \<times> nat) list" where
  "basic_requests sz plen = (\<lambda>(r, n1, n2).
     map (\<lambda>a. (a * of_nat sz, value_start_offset bench_max_keys 8)) (basic_slots r ((n1 + n2) div 16)) @
     [((r mod total_pages) * of_nat sz, plen)])"

lemma basic_round_ok:
  assumes b: "batch_holds 16 b []" and n: "n1 + n2 < 256"
    and rd: "\<And>a n. (a, n) \<in> set (basic_requests sz plen (r, n1, n2)) \<Longrightarrow> rd a n \<noteq> None"
  shows "\<exists>b'. basic_round rd sz plen (r, n1, n2) (b, st) = Inr (b', increment st) \<and> batch_holds 16 b' []"
proof -
  let ?p = "(n1 + n2) div 16"
  let ?rs = "map (\<lambda>a. (a * of_nat sz, value_start_offset bench_max_keys 8)) (basic_slots r ?p)"
  have p: "?p < 16" using n by (simp add: less_mult_imp_div_less)
  have "length (basic_slots r ?p) \<le> 16" using p by (simp add: basic_slots_def)
  then obtain b1 where b1: "basic_reads sz (basic_slots r ?p) b = Inr b1" "batch_holds 16 b1 ?rs"
    using basic_reads_ok [OF b, of "basic_slots r ?p" sz] by auto
  obtain b2 where b2: "batch_execute rd b1 = Inr (read_chain rd ?rs, b2)" "batch_holds 16 b2 []"
    using batch_holds_execute [OF b1(2), of rd] by blast
  have "rd a n = Some (the (rd a n))" if "(a, n) \<in> set ?rs" for a n
    using rd [of a n] that by (simp add: basic_requests_def)
  then have "read_chain rd ?rs = Some (map (\<lambda>(a, n). the (rd a n)) ?rs)" by (rule read_chain_Some)
  moreover have "rd (r mod total_pages * of_nat sz) plen \<noteq> None" by (rule rd) (simp add: basic_requests_def)
  ultimately show ?thesis
    using b1 b2 p by (simp add: basic_round_def bench_max_keys_def cassert_def)
qed

text \<open>
  \<^verbatim>\<open>rand_number(1, e + 1)\<close> and \<^verbatim>\<open>rand_number(0, 16)\<close> stay in their bounds, so an emulated error of up to 238
  keeps every round within the batch.
\<close>

lemma basic_coroutine_ok:
  assumes sz: "16 * sz \<le> 40960" and e: "e \<le> 238"
    and ds: "\<And>r n1 n2. (r, n1, n2) \<in> set ds \<Longrightarrow> n1 \<le> e + 1 \<and> n2 \<le> 16"
    and rd: "\<And>d a n. d \<in> set ds \<Longrightarrow> (a, n) \<in> set (basic_requests sz plen d) \<Longrightarrow> rd a n \<noteq> None"
  shows "\<exists>b st'. basic_coroutine rd sz plen ds st = Inr (b, st') \<and> counter st' = counter st + of_nat (length ds)"
proof -
  have "\<exists>b' st'. basic_rounds rd sz plen ds (b, st) = Inr (b', st') \<and> counter st' = counter st + of_nat (length ds)"
    if "batch_holds 16 b []" for b
    using ds rd that
  proof (induction ds arbitrary: b st)
    case (Cons d ds)
    obtain r n1 n2 where d: "d = (r, n1, n2)" by (cases d)
    have n: "n1 + n2 < 256" using Cons.prems(1) [of r n1 n2] e d by simp
    have rd: "\<And>a n. (a, n) \<in> set (basic_requests sz plen (r, n1, n2)) \<Longrightarrow> rd a n \<noteq> None"
      using Cons.prems(2) [of d] d by simp
    obtain b1 where b1: "basic_round rd sz plen d (b, st) = Inr (b1, increment st)" "batch_holds 16 b1 []"
      using basic_round_ok [where rd = rd and st = st, OF Cons.prems(3) n rd] unfolding d by blast
    obtain b' st' where "basic_rounds rd sz plen ds (b1, increment st) = Inr (b', st')"
        "counter st' = counter (increment st) + of_nat (length ds)"
      using Cons.IH [of b1 "increment st"] Cons.prems(1,2) b1(2) by (meson list.set_intros(2))
    then show ?case using b1(1) by (simp add: increment_def algebra_simps)
  qed simp
  then show ?thesis using batch_holds_init [of 16] sz by (simp add: basic_coroutine_def)
qed

text \<open>Larger errors can draw a number of pages that the assertion refuses.\<close>

lemma basic_round_fails: "256 \<le> n1 + n2 \<Longrightarrow> basic_round rd sz plen (r, n1, n2) s = Inl AssertFail"
proof -
  assume "256 \<le> n1 + n2"
  then have "16 \<le> (n1 + n2) div 16" using div_le_mono [of 256 "n1 + n2" 16] by simp
  then show ?thesis by (cases s) (simp add: basic_round_def bench_max_keys_def cassert_def)
qed

end
