(* ===== verification/Matrix.thy ===== *)
theory Matrix
  imports Prelude Complex_Main
begin

text \<open>
  The matrices of the neural networks (\<^verbatim>\<open>x_ml/src/nn/mat.hh\<close>) and their activation functions
  (\<^verbatim>\<open>x_ml/src/nn/op_util.hh\<close>). A matrix is what lies behind its pointer and its shape; \<open>rnd\<close> rounds the
  result of an operation on floating-point numbers. \<^verbatim>\<open>cblas_dgemm\<close> of MKL is a parameter.

  The lemmas give the entries of the product that is computed by hand, and show that the product that
  MKL computes is that of the transposed matrices, because it reads the data column by column.
\<close>

section \<open>Matrices\<close>

record matrix =
  ptr :: "real list"
  nrow :: nat
  ncol :: nat

definition Matrix :: "real list \<Rightarrow> nat \<Rightarrow> nat \<Rightarrow> matrix" where
  "Matrix d nr nc = \<lparr>ptr = d, nrow = nr, ncol = nc\<rparr>"

definition mat_at :: "matrix \<Rightarrow> nat \<Rightarrow> nat \<Rightarrow> real res" where
  "mat_at m r c = (if r * ncol m + c < length (ptr m) then Inr (ptr m ! (r * ncol m + c)) else Inl OutOfRange)"

definition mat_payload :: "nat \<Rightarrow> matrix \<Rightarrow> nat" where
  "mat_payload sizeof_Float m = sizeof_Float * (ncol m * nrow m)"

section \<open>Products\<close>

text \<open>The innermost loop of \<^verbatim>\<open>man_mult\<close>, and the accumulation into \<open>c\<close>.\<close>

definition mat_dot :: "(real \<Rightarrow> real) \<Rightarrow> matrix \<Rightarrow> matrix \<Rightarrow> nat \<Rightarrow> nat \<Rightarrow> real res" where
  "mat_dot rnd a b r col =
     foldl (\<lambda>acc i. rbind acc (\<lambda>temp. rbind (mat_at a r i) (\<lambda>x. rbind (mat_at b i col) (\<lambda>y. Inr (rnd (temp + rnd (x * y)))))))
       (Inr 0) [0..<ncol a]"

definition mat_add :: "(real \<Rightarrow> real) \<Rightarrow> matrix \<Rightarrow> nat \<Rightarrow> nat \<Rightarrow> real \<Rightarrow> matrix res" where
  "mat_add rnd c r col temp =
     rbind (mat_at c r col) (\<lambda>x. Inr (c\<lparr>ptr := (ptr c)[r * ncol c + col := rnd (x + temp)]\<rparr>))"

definition man_mult :: "(real \<Rightarrow> real) \<Rightarrow> matrix \<Rightarrow> matrix \<Rightarrow> matrix \<Rightarrow> matrix res" where
  "man_mult rnd a b c =
     rbind (cassert (ncol a = nrow b)) (\<lambda>_.
     rbind (cassert (nrow a = nrow c)) (\<lambda>_.
     rbind (cassert (ncol c = ncol b)) (\<lambda>_.
     foldl (\<lambda>acc r. foldl (\<lambda>acc col. rbind acc (\<lambda>c. rbind (mat_dot rnd a b r col) (mat_add rnd c r col))) acc [0..<ncol c])
       (Inr c) [0..<nrow c])))"

text \<open>
  \<open>dgemm m n k \<alpha> A lda B ldb \<beta> C ldc\<close> is the content of \<open>C\<close> after the call of \<^verbatim>\<open>cblas_dgemm\<close> with
  \<^verbatim>\<open>CblasColMajor\<close> and without transposition.
\<close>

type_synonym dgemm = "nat \<Rightarrow> nat \<Rightarrow> nat \<Rightarrow> real \<Rightarrow> real list \<Rightarrow> nat \<Rightarrow> real list \<Rightarrow> nat \<Rightarrow> real \<Rightarrow> real list \<Rightarrow> nat \<Rightarrow> real list"

definition mat_mult :: "dgemm \<Rightarrow> matrix \<Rightarrow> matrix \<Rightarrow> matrix \<Rightarrow> matrix res" where
  "mat_mult dgemm a b c =
     rbind (cassert (ncol a = nrow b)) (\<lambda>_.
     rbind (cassert (nrow a = nrow c)) (\<lambda>_.
     rbind (cassert (ncol c = ncol b)) (\<lambda>_.
     Inr (c\<lparr>ptr := dgemm (nrow a) (ncol b) (ncol a) 1 (ptr a) (nrow a) (ptr b) (nrow b) 1 (ptr c) (nrow c)\<rparr>))))"

text \<open>What the documentation of BLAS says, in exact arithmetic.\<close>

definition column_major :: "dgemm \<Rightarrow> bool" where
  "column_major dgemm \<longleftrightarrow> (\<forall>m n k A B C. length A = m * k \<and> length B = k * n \<and> length C = m * n \<longrightarrow>
     dgemm m n k 1 A m B k 1 C m = map (\<lambda>p. C ! p + (\<Sum>l<k. A ! (p mod m + l * m) * B ! (l + p div m * k))) [0..<m * n])"

section \<open>Activation functions\<close>

definition op_sigmoid :: "real \<Rightarrow> real" where
  "op_sigmoid v = 1 / (1 + exp (- v))"

definition fast_sigmoid :: "(real \<Rightarrow> real) \<Rightarrow> real \<Rightarrow> real" where
  "fast_sigmoid rnd v = rnd (v / rnd (1 + \<bar>v\<bar>))"

text \<open>The constants are of type \<^verbatim>\<open>float\<close>: \<^verbatim>\<open>0.555f\<close> is \<open>9311355 / 2 ^ 24\<close>, \<^verbatim>\<open>0.143f\<close> is \<open>9596568 / 2 ^ 26\<close>.\<close>

definition rough_e :: "(real \<Rightarrow> real) \<Rightarrow> real \<Rightarrow> real" where
  "rough_e rnd x =
     (let x2 = rnd (x * x)
      in rnd (rnd (rnd (1 + x) + rnd (x2 * (9311355 / 2 ^ 24))) + rnd (rnd (x2 * x2) * (9596568 / 2 ^ 26))))"

definition rough_sigmoid :: "(real \<Rightarrow> real) \<Rightarrow> real \<Rightarrow> real" where
  "rough_sigmoid rnd v =
     (let x = \<bar>v\<bar>; e = rough_e rnd x in rnd (1 / rnd (1 + (if v > 0 then rnd (1 / e) else e))))"

section \<open>The entries of a product\<close>

definition mat_ok :: "matrix \<Rightarrow> bool" where
  "mat_ok m \<longleftrightarrow> length (ptr m) = nrow m * ncol m"

lemma index_less: "r < n \<Longrightarrow> c < m \<Longrightarrow> r * m + c < n * (m :: nat)"
proof -
  assume "r < n" "c < m"
  then have "r * m + c < Suc r * m" by simp
  also have "\<dots> \<le> n * m" using \<open>r < n\<close> by (intro mult_le_mono1) simp
  finally show ?thesis .
qed

lemma mat_at_ok: "mat_ok m \<Longrightarrow> r < nrow m \<Longrightarrow> c < ncol m \<Longrightarrow> mat_at m r c = Inr (ptr m ! (r * ncol m + c))"
  by (simp add: mat_at_def mat_ok_def index_less)

lemma mat_dot_ok:
  assumes "mat_ok a" "mat_ok b" "ncol a = nrow b" "r < nrow a" "col < ncol b"
  shows "mat_dot (\<lambda>x. x) a b r col = Inr (\<Sum>i<ncol a. ptr a ! (r * ncol a + i) * ptr b ! (i * ncol b + col))"
proof -
  have "foldl (\<lambda>acc i. rbind acc (\<lambda>temp. rbind (mat_at a r i) (\<lambda>x. rbind (mat_at b i col) (\<lambda>y. Inr (temp + x * y))))) (Inr 0) [0..<n] =
      Inr (\<Sum>i<n. ptr a ! (r * ncol a + i) * ptr b ! (i * ncol b + col))" if "n \<le> ncol a" for n
    using that assms by (induction n) (simp_all add: mat_at_ok)
  then show ?thesis by (simp add: mat_dot_def)
qed

text \<open>Two nested loops are one loop over the pairs.\<close>

lemma foldl_nested: "foldl (\<lambda>acc r. foldl (\<lambda>acc c. f r c acc) acc cs) acc rs = foldl (\<lambda>acc (r, c). f r c acc) acc (List.product rs cs)"
  by (induction rs arbitrary: acc) (simp_all add: foldl_map)

lemma index_inj: "c < m \<Longrightarrow> c' < m \<Longrightarrow> r * m + c = r' * m + c' \<Longrightarrow> r = r' \<and> c = (c' :: nat)"
  by (metis add_right_imp_eq div_mult_self3 div_less add.right_neutral less_nat_zero_code bot_nat_0.not_eq_extremum mod_less mod_mult_self3)

lemma mat_steps:
  assumes ab: "mat_ok a" "mat_ok b" "ncol a = nrow b" and ps: "distinct ps" "set ps \<subseteq> {..<nrow a} \<times> {..<ncol b}"
  shows "mat_ok c \<Longrightarrow> nrow c = nrow a \<Longrightarrow> ncol c = ncol b \<Longrightarrow>
    \<exists>c'. foldl (\<lambda>acc (r, col). rbind acc (\<lambda>c. rbind (mat_dot (\<lambda>x. x) a b r col) (mat_add (\<lambda>x. x) c r col))) (Inr c) ps = Inr c' \<and>
      mat_ok c' \<and> nrow c' = nrow a \<and> ncol c' = ncol b \<and>
      (\<forall>r<nrow a. \<forall>col<ncol b. ptr c' ! (r * ncol b + col) = ptr c ! (r * ncol b + col) +
         (if (r, col) \<in> set ps then \<Sum>i<ncol a. ptr a ! (r * ncol a + i) * ptr b ! (i * ncol b + col) else 0))"
  using ps
proof (induction ps arbitrary: c)
  case (Cons p ps)
  obtain r col where p: "p = (r, col)" by fastforce
  then have rc: "r < nrow a" "col < ncol b" "(r, col) \<notin> set ps" using Cons.prems by auto
  let ?s = "\<Sum>i<ncol a. ptr a ! (r * ncol a + i) * ptr b ! (i * ncol b + col)"
  let ?c = "c\<lparr>ptr := (ptr c)[r * ncol b + col := ptr c ! (r * ncol b + col) + ?s]\<rparr>"
  have add: "rbind (mat_dot (\<lambda>x. x) a b r col) (mat_add (\<lambda>x. x) c r col) = Inr ?c"
    using Cons.prems rc by (simp add: mat_dot_ok [OF ab] mat_add_def mat_at_ok)
  have ok: "mat_ok ?c" "nrow ?c = nrow a" "ncol ?c = ncol b" using Cons.prems by (simp_all add: mat_ok_def)
  obtain c' where c': "foldl (\<lambda>acc (r, col). rbind acc (\<lambda>c. rbind (mat_dot (\<lambda>x. x) a b r col) (mat_add (\<lambda>x. x) c r col))) (Inr ?c) ps = Inr c'"
      "mat_ok c'" "nrow c' = nrow a" "ncol c' = ncol b"
      "\<forall>r<nrow a. \<forall>col<ncol b. ptr c' ! (r * ncol b + col) = ptr ?c ! (r * ncol b + col) +
         (if (r, col) \<in> set ps then \<Sum>i<ncol a. ptr a ! (r * ncol a + i) * ptr b ! (i * ncol b + col) else 0)"
    using Cons.IH [OF ok] Cons.prems by (auto simp: p)
  have "ptr ?c ! (r' * ncol b + col') = ptr c ! (r' * ncol b + col') + (if r' = r \<and> col' = col then ?s else 0)"
    if "r' < nrow a" "col' < ncol b" for r' col'
  proof -
    have "r * ncol b + col < length (ptr c)" using Cons.prems rc by (simp add: mat_ok_def index_less)
    then show ?thesis using index_inj [OF rc(2) that(2), of r r'] by (auto simp: nth_list_update)
  qed
  then show ?case using c' rc(3) by (intro exI [of _ c']) (auto simp: p add)
qed auto

text \<open>\<^verbatim>\<open>man_mult\<close> adds the product to \<open>c\<close>.\<close>

lemma man_mult_ok:
  assumes "mat_ok a" "mat_ok b" "mat_ok c" "ncol a = nrow b" "nrow c = nrow a" "ncol c = ncol b"
  shows "man_mult (\<lambda>x. x) a b c = Inr (c\<lparr>ptr := map (\<lambda>p. ptr c ! p +
    (\<Sum>i<ncol a. ptr a ! (p div ncol b * ncol a + i) * ptr b ! (i * ncol b + p mod ncol b))) [0..<nrow a * ncol b]\<rparr>)"
proof -
  let ?ps = "List.product [0..<nrow c] [0..<ncol c]"
  have "distinct ?ps" "set ?ps \<subseteq> {..<nrow a} \<times> {..<ncol b}" using assms(5,6) by (auto simp: distinct_product)
  note steps = mat_steps [OF assms(1,2,4) this assms(3,5,6)]
  obtain c' where c': "foldl (\<lambda>acc (r, col). rbind acc (\<lambda>c. rbind (mat_dot (\<lambda>x. x) a b r col) (mat_add (\<lambda>x. x) c r col))) (Inr c) ?ps = Inr c'"
      "mat_ok c'" "nrow c' = nrow a" "ncol c' = ncol b"
      "\<forall>r<nrow a. \<forall>col<ncol b. ptr c' ! (r * ncol b + col) = ptr c ! (r * ncol b + col) +
         (if (r, col) \<in> set ?ps then \<Sum>i<ncol a. ptr a ! (r * ncol a + i) * ptr b ! (i * ncol b + col) else 0)"
    using steps by blast
  have "ptr c' ! p = ptr c ! p + (\<Sum>i<ncol a. ptr a ! (p div ncol b * ncol a + i) * ptr b ! (i * ncol b + p mod ncol b))"
    if "p < nrow a * ncol b" for p
  proof -
    have n: "0 < ncol b" using that by (cases "ncol b") auto
    have "p div ncol b < nrow a" using that n by (simp add: less_mult_imp_div_less)
    then show ?thesis using c'(5) [rule_format, of "p div ncol b" "p mod ncol b"] n assms(5,6) by simp
  qed
  then have "ptr c' = map (\<lambda>p. ptr c ! p +
      (\<Sum>i<ncol a. ptr a ! (p div ncol b * ncol a + i) * ptr b ! (i * ncol b + p mod ncol b))) [0..<nrow a * ncol b]"
    using c'(2-4) by (intro nth_equalityI) (simp_all add: mat_ok_def)
  then have "c' = c\<lparr>ptr := map (\<lambda>p. ptr c ! p +
      (\<Sum>i<ncol a. ptr a ! (p div ncol b * ncol a + i) * ptr b ! (i * ncol b + p mod ncol b))) [0..<nrow a * ncol b]\<rparr>"
    using c'(3,4) assms(5,6) by (cases c; cases c') simp
  then show ?thesis using c'(1) assms(4-6)
    by (simp add: man_mult_def foldl_nested [where f = "\<lambda>r col acc. rbind acc (\<lambda>c. rbind (mat_dot (\<lambda>x. x) a b r col) (mat_add (\<lambda>x. x) c r col))"])
qed

section \<open>The rough sigmoid\<close>

lemma rough_e_ge: "0 \<le> x \<Longrightarrow> 1 \<le> rough_e (\<lambda>x. x) x"
  by (simp add: rough_e_def Let_def add_nonneg_nonneg)

lemma rough_e_mono: "0 \<le> x \<Longrightarrow> x \<le> y \<Longrightarrow> rough_e (\<lambda>x. x) x \<le> rough_e (\<lambda>x. x) y"
proof -
  assume x: "0 \<le> x" "x \<le> y"
  then have xx: "x * x \<le> y * y" by (simp add: mult_mono)
  then have "(x * x) * (x * x) \<le> (y * y) * (y * y)" using x by (intro mult_mono) simp_all
  then show ?thesis using x(2) xx by (simp add: rough_e_def Let_def)
qed

text \<open>The argument of the last division, which falls as the argument of the function rises.\<close>

definition rough_ratio :: "real \<Rightarrow> real" where
  "rough_ratio v = (let e = rough_e (\<lambda>x. x) \<bar>v\<bar> in if v > 0 then 1 / e else e)"

lemma rough_sigmoid_ratio: "rough_sigmoid (\<lambda>x. x) v = 1 / (1 + rough_ratio v)"
  by (simp add: rough_sigmoid_def rough_ratio_def Let_def)

lemma rough_ratio_pos: "0 < rough_ratio v"
  using rough_e_ge [of "\<bar>v\<bar>"] unfolding rough_ratio_def Let_def by (auto simp del: abs_real_def)

lemma rough_ratio_minus: "rough_ratio (- v) = 1 / rough_ratio v"
  by (cases "v = 0") (auto simp: rough_ratio_def rough_e_def Let_def)

lemma rough_ratio_antimono:
  assumes "x \<le> y"
  shows "rough_ratio y \<le> rough_ratio x"
proof (cases "x > 0")
  case True
  then show ?thesis using assms rough_e_mono [of x y] rough_e_ge [of x] by (simp add: rough_ratio_def Let_def frac_le)
next
  case False
  then have "1 \<le> rough_ratio x" using rough_e_ge [of "\<bar>x\<bar>"] by (simp add: rough_ratio_def Let_def)
  moreover have "rough_ratio y \<le> 1" if "y > 0" using that rough_e_ge [of y] by (simp add: rough_ratio_def Let_def)
  moreover have "rough_ratio y \<le> rough_ratio x" if "y \<le> 0"
    using that False assms rough_e_mono [of "- y" "- x"] by (simp add: rough_ratio_def Let_def)
  ultimately show ?thesis by (cases "y > 0") auto
qed

section \<open>Properties\<close>

text \<open>C30: \<^verbatim>\<open>mult\<close> calls the solver for matrices that are stored column by column, while the data are stored
  row by row: when MKL does what is documented, the result is what \<^verbatim>\<open>man_mult\<close> gives for the second
  matrix times the first, each with its numbers of rows and columns exchanged.\<close>

theorem mat_mult_transposed:
  assumes "column_major dgemm" and "mat_ok a" "mat_ok b" "mat_ok c"
    and "ncol a = nrow b" "nrow c = nrow a" "ncol c = ncol b"
  shows "\<exists>c1 c2. mat_mult dgemm a b c = Inr c1 \<and>
    man_mult (\<lambda>x. x) (Matrix (ptr b) (ncol b) (nrow b)) (Matrix (ptr a) (ncol a) (nrow a)) (Matrix (ptr c) (ncol c) (nrow c)) = Inr c2 \<and>
    ptr c1 = ptr c2"
proof -
  let ?T = "\<lambda>m. Matrix (ptr m) (ncol m) (nrow m)"
  have ok: "mat_ok (?T m)" if "mat_ok m" for m using that by (simp add: mat_ok_def Matrix_def mult.commute)
  note man = man_mult_ok [OF ok [OF assms(3)] ok [OF assms(2)] ok [OF assms(4)]]
  have "length (ptr a) = nrow a * nrow b" "length (ptr b) = nrow b * ncol b" "length (ptr c) = nrow a * ncol b"
    using assms(2-7) by (simp_all add: mat_ok_def)
  then have "dgemm (nrow a) (ncol b) (nrow b) 1 (ptr a) (nrow a) (ptr b) (nrow b) 1 (ptr c) (nrow a) =
      map (\<lambda>p. ptr c ! p + (\<Sum>l<nrow b. ptr a ! (p mod nrow a + l * nrow a) * ptr b ! (l + p div nrow a * nrow b))) [0..<nrow a * ncol b]"
    using assms(1) by (simp add: column_major_def)
  then show ?thesis using man assms(5-7) by (simp add: Matrix_def mat_mult_def mult.commute add.commute)
qed

text \<open>Exact arithmetic over the columns.\<close>

definition exact_dgemm :: dgemm where
  "exact_dgemm m n k alpha A lda B ldb beta C ldc =
     map (\<lambda>p. beta * C ! p + alpha * (\<Sum>l<k. A ! (p mod m + l * lda) * B ! (l + p div m * ldb))) [0..<m * n]"

theorem mat_mult_transposed_witness:
  "\<exists>c1 c2. mat_mult exact_dgemm (Matrix [1, 1, 0, 1] 2 2) (Matrix [1, 0, 1, 1] 2 2) (Matrix [0, 0, 0, 0] 2 2) = Inr c1 \<and>
    man_mult (\<lambda>x. x) (Matrix (ptr (Matrix [1, 0, 1, 1] 2 2)) (ncol (Matrix [1, 0, 1, 1] 2 2)) (nrow (Matrix [1, 0, 1, 1] 2 2)))
      (Matrix (ptr (Matrix [1, 1, 0, 1] 2 2)) (ncol (Matrix [1, 1, 0, 1] 2 2)) (nrow (Matrix [1, 1, 0, 1] 2 2)))
      (Matrix (ptr (Matrix [0, 0, 0, 0] 2 2)) (ncol (Matrix [0, 0, 0, 0] 2 2)) (nrow (Matrix [0, 0, 0, 0] 2 2))) = Inr c2 \<and>
    ptr c1 = ptr c2"
  by (rule mat_mult_transposed) (simp_all add: column_major_def exact_dgemm_def mat_ok_def Matrix_def)

text \<open>The rough sigmoid behaves like a sigmoid in exact arithmetic: its values lie strictly between 0 and
  1, it does not fall, and the values of \<open>v\<close> and \<open>- v\<close> add up to 1.\<close>

theorem rough_sigmoid_shape:
  "0 < rough_sigmoid (\<lambda>x. x) v \<and> rough_sigmoid (\<lambda>x. x) v < 1 \<and>
   rough_sigmoid (\<lambda>x. x) (- v) = 1 - rough_sigmoid (\<lambda>x. x) v \<and>
   mono (rough_sigmoid (\<lambda>x. x))"
proof -
  have r: "0 < rough_ratio x" for x by (rule rough_ratio_pos)
  have "1 / (1 + 1 / rough_ratio v) = 1 - 1 / (1 + rough_ratio v)" using r [of v] by (simp add: field_simps)
  moreover have "mono (rough_sigmoid (\<lambda>x. x))"
    using r rough_ratio_antimono by (intro monoI) (auto simp: rough_sigmoid_ratio intro!: divide_left_mono add_pos_pos mult_pos_pos)
  ultimately show ?thesis using r [of v] by (simp add: rough_sigmoid_ratio rough_ratio_minus)
qed

end
