(* ===== verification/NN.thy ===== *)
theory NN
  imports Matrix TwoRMI
begin

text \<open>
  Neural networks as models of the learned index: the wrapper \<open>NN\<close> around a network of torch
  (\<^verbatim>\<open>x_ml/src/nn/mod.hh\<close>), the networks of the log-normal and the map data sets with the duals that
  infer without torch (\<^verbatim>\<open>benchs/data_dist/models/log_nn.hh\<close>, \<^verbatim>\<open>map_nn.hh\<close>), and the wrapper around
  tiny-dnn (\<^verbatim>\<open>x_ml/src/nn_tiny.hh\<close>). The layers, the loss and the optimizer of the libraries are
  parameters. A \<^verbatim>\<open>float\<close> parameter of a network is its bit pattern with the value \<open>fval\<close>.

  The lemmas show when training stops, that the dual of the log-normal network computes what the
  network computes when keys have one feature and overruns its weights otherwise, and that a network
  cannot be sent to a client.
\<close>

section \<open>Networks\<close>

text \<open>What the networks use of torch; \<^verbatim>\<open>Linear\<close> is given by its weight, row by row, and its bias.\<close>

record torch =
  t_linear :: "u32 list \<times> u32 list \<Rightarrow> real list \<Rightarrow> real list"
  tsigmoid :: "real \<Rightarrow> real"
  leaky_relu :: "real \<Rightarrow> real"
  tdiv :: "real \<Rightarrow> real \<Rightarrow> real"

record log_net =
  l1 :: "u32 list \<times> u32 list"
  l4 :: "u32 list \<times> u32 list"

text \<open>All parameters of a new network are \<^verbatim>\<open>0.001\<close>, as a \<^verbatim>\<open>float\<close>. There are \<open>H = 32\<close> hidden units.\<close>

definition LogNet :: "nat \<Rightarrow> log_net" where
  "LogNet D = \<lparr>l1 = (replicate (32 * D) 0x3A83126F, replicate 32 0x3A83126F), l4 = (replicate 32 0x3A83126F, [0x3A83126F])\<rparr>"

definition log_forward :: "torch \<Rightarrow> log_net \<Rightarrow> real list \<Rightarrow> real list" where
  "log_forward T net input = t_linear T (l4 net) (map (tsigmoid T) (t_linear T (l1 net) (map (\<lambda>x. tdiv T x 100000000) input)))"

definition log_fast_forward :: "'k \<Rightarrow> real" where
  "log_fast_forward k = 0"

text \<open>The files that are written, and the layers that are read; \<open>load\<close> reads a layer from a file.\<close>

definition log_serialize :: "(u32 list \<times> u32 list \<Rightarrow> u8 list) \<Rightarrow> log_net \<Rightarrow> string \<Rightarrow> (string \<times> u8 list) list" where
  "log_serialize save net name = [(name @ ''_l1.pt'', save (l1 net)), (name @ ''_l4.pt'', save (l4 net))]"

definition log_from_file :: "(string \<Rightarrow> (u32 list \<times> u32 list) res) \<Rightarrow> string \<Rightarrow> log_net res" where
  "log_from_file load name =
     rbind (load (''/home/wxd/'' @ name @ ''_l1.pt'')) (\<lambda>a.
     rbind (load (''/home/wxd/'' @ name @ ''_l4.pt'')) (\<lambda>b. Inr \<lparr>l1 = a, l4 = b\<rparr>))"

text \<open>The dual has the parameters as \<^verbatim>\<open>double\<close>s.\<close>

record dual_log_net =
  w1 :: "real list"
  b1 :: "real list"
  w2 :: "real list"
  b2 :: "real list"

definition DualLogNet :: dual_log_net where
  "DualLogNet = \<lparr>w1 = [], b1 = [], w2 = [], b2 = []\<rparr>"

definition dual_set :: "(u32 \<Rightarrow> real) \<Rightarrow> log_net \<Rightarrow> dual_log_net" where
  "dual_set fval d = \<lparr>w1 = map fval (fst (l1 d)), b1 = map fval (snd (l1 d)), w2 = map fval (fst (l4 d)), b2 = map fval (snd (l4 d))\<rparr>"

definition dual_fast_forward :: "(real \<Rightarrow> real) \<Rightarrow> ('k \<Rightarrow> real list) \<Rightarrow> dual_log_net \<Rightarrow> 'k \<Rightarrow> real res" where
  "dual_fast_forward rnd to_feature m key =
     (let f = map (\<lambda>x. rnd (x / 100000000)) (to_feature key);
          F = Matrix f 1 (length f);
          W1 = Matrix (w1 m) (length f) (length (w1 m));
          temp = b1 m in
      rbind (man_mult rnd F W1 (Matrix temp 1 (length (w1 m)))) (\<lambda>ret.
      let ret' = ret\<lparr>ptr := map (rough_sigmoid rnd) (take (length temp) (ptr ret)) @ drop (length temp) (ptr ret)\<rparr> in
      case b2 m of
        [] \<Rightarrow> Inl OutOfRange
      | res # _ \<Rightarrow>
          rbind (man_mult rnd ret' (Matrix (w2 m) (length (w2 m)) 1) (Matrix [res] 1 1)) (\<lambda>RES. Inr (ptr RES ! 0))))"

text \<open>The network of the map data set, whose third layer is not used.\<close>

record map_net =
  ml1 :: "u32 list \<times> u32 list"
  ml2 :: "u32 list \<times> u32 list"
  ml3 :: "u32 list \<times> u32 list"
  ml4 :: "u32 list \<times> u32 list"

definition map_forward :: "torch \<Rightarrow> map_net \<Rightarrow> real list \<Rightarrow> real list" where
  "map_forward T net input =
     t_linear T (ml4 net) (map (leaky_relu T) (t_linear T (ml2 net) (map (leaky_relu T) (t_linear T (ml1 net) input))))"

text \<open>
  Its dual is a pointer to the network it was set from; \<open>nets\<close> are the networks in memory. The features
  are the bit patterns of \<^verbatim>\<open>double\<close>s, and the tensor is made of the \<^verbatim>\<open>float\<close>s that lie at their address.
\<close>

definition dual_map_set :: "addr \<Rightarrow> addr" where
  "dual_map_set d = d"

definition float_blob :: "u64 list \<Rightarrow> u32 list" where
  "float_blob f = concat (map (\<lambda>x. [ucast x, ucast (drop_bit 32 x)]) f)"

definition dual_map_fast_forward :: "torch \<Rightarrow> (u32 \<Rightarrow> real) \<Rightarrow> nat \<Rightarrow> ('k \<Rightarrow> u64 list) \<Rightarrow> (addr \<rightharpoonup> map_net) \<Rightarrow> addr \<Rightarrow> 'k \<Rightarrow> real res" where
  "dual_map_fast_forward T fval D to_feature nets dual key =
     rbind (cassert (dual \<noteq> 0)) (\<lambda>_.
     let f = float_blob (to_feature key) in
     if length f < D then Inl OutOfRange
     else case nets dual of
       None \<Rightarrow> Inl NullDeref
     | Some net \<Rightarrow> (case map_forward T net (map fval (take D f)) of [] \<Rightarrow> Inl OutOfRange | y # _ \<Rightarrow> Inr y))"

text \<open>The features of the default key (\<^verbatim>\<open>lib.hh\<close>).\<close>

definition xkey_to_feature :: "(real \<Rightarrow> real) \<Rightarrow> xkey \<Rightarrow> real list" where
  "xkey_to_feature rnd k = [rnd (real (unat (xd k)))]"

definition xkey_to_feature_float :: "(real \<Rightarrow> real) \<Rightarrow> xkey \<Rightarrow> real list" where
  "xkey_to_feature_float frnd k = [frnd (real (unat (xd k)))]"

section \<open>The wrapper\<close>

record ('n, 'd) nn =
  core :: 'n
  dual :: 'd

text \<open>\<open>fwd\<close> is \<^verbatim>\<open>core.forward\<close> for one row, with the value of the single output.\<close>

definition nn_predict :: "('n \<Rightarrow> real list \<Rightarrow> real) \<Rightarrow> nat \<Rightarrow> ('k \<Rightarrow> real list) \<Rightarrow> ('n, 'd) nn \<Rightarrow> 'k \<Rightarrow> real res" where
  "nn_predict fwd D to_feature_float m key =
     (let f = to_feature_float key in if length f < D then Inl OutOfRange else Inr (fwd (core m) (take D f)))"

text \<open>
  The loop over the epochs. The state is the network with its optimizer; \<open>loss\<close> is the mean square error
  over the training set before the step. The result is the best loss, the patience and the state.
\<close>

function nn_epochs :: "('s \<Rightarrow> real) \<Rightarrow> ('s \<Rightarrow> 's) \<Rightarrow> nat \<Rightarrow> nat \<Rightarrow> real \<Rightarrow> nat \<Rightarrow> 's \<Rightarrow> real \<times> nat \<times> 's" where
  "nn_epochs loss opt_step nepoch epoch best_loss patience s =
     (if epoch < nepoch then
        let l = loss s; s' = opt_step s;
            best_loss' = (if l < best_loss then l else best_loss);
            patience' = (if l < best_loss then 0 else patience + 1) in
        if \<not> l < best_loss \<and> patience' > 10 \<and> epoch \<ge> nepoch then (best_loss', patience', s')
        else if l < 10 then (best_loss', patience', s')
        else nn_epochs loss opt_step nepoch (epoch + 1) best_loss' patience' s'
      else (best_loss, patience, s))"
  by pat_completeness auto
termination
  by (relation "measure (\<lambda>(loss, opt_step, nepoch, epoch, _). nepoch - epoch)") auto

declare nn_epochs.simps [simp del]

definition nn_nepoch :: nat where
  "nn_nepoch = 40000"

text \<open>The training set as the rows of a tensor, the labels, and the first two plots; \<open>frnd\<close> rounds to \<^verbatim>\<open>float\<close>, \<open>rnd\<close> to \<^verbatim>\<open>double\<close>.\<close>

definition nn_collect :: "(real \<Rightarrow> real) \<Rightarrow> (real \<Rightarrow> real) \<Rightarrow> ('k \<Rightarrow> real list) \<Rightarrow> ('k \<Rightarrow> real) \<Rightarrow> 'k list \<Rightarrow> u64 list
    \<Rightarrow> (real list \<times> real list \<times> (real, real) xy_data \<times> ('k, real) xy_data) res" where
  "nn_collect frnd rnd to_feature to_scalar train_data train_label =
     foldl (\<lambda>acc i. rbind acc (\<lambda>(train_set, labels, cdf, feature).
         if i < length train_label then
           let k = train_data ! i; l = real (unat (train_label ! i)) in
           Inr (train_set @ map frnd (to_feature k), labels @ [frnd l], xy_add cdf (to_scalar k) (rnd l), xy_add feature k (rnd l))
         else Inl OutOfRange))
       (Inr ([], [], XYData, XYData)) [0..<length train_data]"

fun tensor_rows :: "nat \<Rightarrow> nat \<Rightarrow> real list \<Rightarrow> real list list res" where
  "tensor_rows D 0 d = Inr []"
| "tensor_rows D (Suc n) d = (if length d < D then Inl OutOfRange else rbind (tensor_rows D n (drop D d)) (\<lambda>rs. Inr (take D d # rs)))"

text \<open>
  \<open>adam\<close> makes the state of the optimizer for a network, \<open>mse\<close> is the loss of a network, \<open>opt_step\<close> one step of
  the optimizer, and \<open>fmax\<close> the greatest \<^verbatim>\<open>float\<close>. The dual is set from the network at the end.
\<close>

definition nn_train :: "('n \<Rightarrow> real list \<Rightarrow> real) \<Rightarrow> ('n \<Rightarrow> 'o) \<Rightarrow> (real list list \<Rightarrow> real list \<Rightarrow> 'n \<Rightarrow> real)
    \<Rightarrow> (real list list \<Rightarrow> real list \<Rightarrow> 'n \<times> 'o \<Rightarrow> 'n \<times> 'o) \<Rightarrow> ('n \<Rightarrow> 'd) \<Rightarrow> real \<Rightarrow> (real \<Rightarrow> real) \<Rightarrow> (real \<Rightarrow> real)
    \<Rightarrow> nat \<Rightarrow> ('k::linorder \<Rightarrow> real list) \<Rightarrow> ('k \<Rightarrow> real list) \<Rightarrow> ('k \<Rightarrow> real) \<Rightarrow> ('n, 'd) nn \<Rightarrow> 'k list \<Rightarrow> u64 list
    \<Rightarrow> (('n, 'd) nn \<times> (real, real) xy_data \<times> ('k, real) xy_data \<times> (real, real) xy_data) res" where
  "nn_train fwd adam mse opt_step set_dual fmax frnd rnd D to_feature to_feature_float to_scalar m train_data train_label =
     rbind (nn_collect frnd rnd to_feature to_scalar train_data train_label) (\<lambda>(train_set, labels, cdf, feature).
     rbind (tensor_rows D (length train_data) train_set) (\<lambda>t.
     let (_, _, net, _) = nn_epochs (\<lambda>s. mse t labels (fst s)) (opt_step t labels) nn_nepoch 0 fmax 0 (core m, adam (core m));
         m' = m\<lparr>core := net\<rparr> in
     rbind (foldl (\<lambda>acc k. rbind acc (\<lambda>trained. rbind (nn_predict fwd D to_feature_float m' k) (\<lambda>p. Inr (xy_add trained (to_scalar k) p))))
       (Inr XYData) train_data) (\<lambda>trained.
     Inr (m'\<lparr>dual := set_dual net\<rparr>, xy_finalize cdf, xy_finalize feature, xy_finalize trained))))"

text \<open>Serialization gives the bytes of \<^verbatim>\<open>"top"\<close>; what is loaded from a file is always \<^verbatim>\<open>xfirst\<close>.\<close>

definition nn_serialize :: "('n, 'd) nn \<Rightarrow> u8 list res" where
  "nn_serialize m = Inr [0x74, 0x6F, 0x70]"

definition nn_serialize_to_file :: "('n \<Rightarrow> string \<Rightarrow> 'f) \<Rightarrow> ('n, 'd) nn \<Rightarrow> string \<Rightarrow> 'f \<times> string" where
  "nn_serialize_to_file save m name = (save (core m) name, name)"

definition nn_from_serialize :: "('n, 'd) nn \<Rightarrow> u8 list \<Rightarrow> ('n, 'd) nn res" where
  "nn_from_serialize m data = Inl AssertFail"

definition nn_from_file :: "(string \<Rightarrow> 'n res) \<Rightarrow> ('n \<Rightarrow> 'd) \<Rightarrow> ('n, 'd) nn \<Rightarrow> string \<Rightarrow> ('n, 'd) nn res" where
  "nn_from_file load set_dual m name = rbind (load ''xfirst'') (\<lambda>net. Inr (m\<lparr>core := net, dual := set_dual net\<rparr>))"

text \<open>The operations of \<^verbatim>\<open>MLTrait\<close>, for keys whose feature vectors have \<open>D\<close> entries.\<close>

definition nn_ops :: "('n, 'd) nn \<Rightarrow> ('n \<Rightarrow> real list \<Rightarrow> real) \<Rightarrow> ('k \<Rightarrow> real list)
    \<Rightarrow> (('n, 'd) nn \<Rightarrow> 'k list \<Rightarrow> u64 list \<Rightarrow> (('n, 'd) nn \<times> 'plots) res) \<Rightarrow> (('n, 'd) nn, 'k) ml_ops" where
  "nn_ops init fwd to_feature_float train =
     \<lparr>ml_init = init, ml_predict = (\<lambda>m k. fwd (core m) (to_feature_float k)),
      ml_train = (\<lambda>m ts ls n. rbind (train m ts ls) (\<lambda>(m', _). Inr m')), ml_serialize = nn_serialize,
      ml_from_serialize = nn_from_serialize\<rparr>"

section \<open>tiny-dnn\<close>

text \<open>
  The network is a parameter: \<open>predict\<close>, and \<open>train\<close>, which initialises the weights and biases with the
  constants, trains for 300 epochs with the whole set as one batch and says whether it succeeded.
\<close>

definition xnn_predict :: "('n \<Rightarrow> real list \<Rightarrow> real list) \<Rightarrow> ('k \<Rightarrow> real list) \<Rightarrow> 'n \<Rightarrow> 'k \<Rightarrow> real res" where
  "xnn_predict predict to_feature_float net key =
     (case predict net (to_feature_float key) of [] \<Rightarrow> Inl OutOfRange | y # _ \<Rightarrow> Inr y)"

definition xnn_train :: "(real \<Rightarrow> real \<Rightarrow> 'n \<Rightarrow> 'n) \<Rightarrow> (real list list \<Rightarrow> real list list \<Rightarrow> nat \<Rightarrow> nat \<Rightarrow> 'n \<Rightarrow> bool \<times> 'n)
    \<Rightarrow> (real \<Rightarrow> real) \<Rightarrow> ('k \<Rightarrow> real list) \<Rightarrow> 'n \<Rightarrow> 'k list \<Rightarrow> u64 list \<Rightarrow> 'n res" where
  "xnn_train set_init train frnd to_feature_float net train_data train_label =
     (if length train_label < length train_data then Inl OutOfRange
      else
        let real_train_set = map to_feature_float train_data;
            labels = map (\<lambda>l. [frnd (real (unat l))]) (take (length train_data) train_label);
            (ret, net') = train real_train_set labels (length real_train_set) 300 (set_init (1 / 10) (5 / 10) net) in
        rbind (cassert ret) (\<lambda>_. Inr net'))"

definition xnn_serialize :: "'n \<Rightarrow> u8 list res" where
  "xnn_serialize net = Inl AssertFail"

definition xnn_from_serialize :: "'n \<Rightarrow> u8 list \<Rightarrow> 'n res" where
  "xnn_from_serialize net data = Inl AssertFail"

definition xnn_serialize_to_file :: "'n \<Rightarrow> string \<Rightarrow> string res" where
  "xnn_serialize_to_file net name = Inl AssertFail"

definition xnn_from_file :: "'n \<Rightarrow> string \<Rightarrow> 'n res" where
  "xnn_from_file net name = Inl AssertFail"

section \<open>Training\<close>

text \<open>
  The loop stops after an epoch whose loss was below 10, or at the end; the test of the patience never
  succeeds inside the loop.
\<close>

lemma nn_epochs_result:
  "\<exists>n best pat. nn_epochs loss opt_step N e best0 pat0 s = (best, pat, (opt_step ^^ n) s) \<and> n \<le> N - e \<and>
    (n = N - e \<or> 0 < n \<and> loss ((opt_step ^^ (n - 1)) s) < 10) \<and> (\<forall>i. i + 1 < n \<longrightarrow> 10 \<le> loss ((opt_step ^^ i) s)) \<and>
    best \<le> best0 \<and> (\<forall>i<n. best \<le> loss ((opt_step ^^ i) s))"
proof (induction "N - e" arbitrary: e best0 pat0 s)
  case 0
  then show ?case by (intro exI [of _ "0 :: nat"] exI [of _ best0] exI [of _ pat0]) (simp add: nn_epochs.simps)
next
  case (Suc d)
  let ?b = "if loss s < best0 then loss s else best0" and ?p = "if loss s < best0 then 0 else pat0 + 1"
  have e: "e < N" "d = N - (e + 1)" using Suc.hyps(2) by simp_all
  show ?case
  proof (cases "loss s < 10")
    case True
    then show ?thesis using e(1) by (intro exI [of _ "1 :: nat"] exI [of _ ?b] exI [of _ ?p]) (simp add: nn_epochs.simps Let_def)
  next
    case False
    have run: "nn_epochs loss opt_step N e best0 pat0 s = nn_epochs loss opt_step N (e + 1) ?b ?p (opt_step s)"
      using e(1) False by (subst nn_epochs.simps) (simp add: Let_def)
    obtain n best pat where n: "nn_epochs loss opt_step N (e + 1) ?b ?p (opt_step s) = (best, pat, (opt_step ^^ n) (opt_step s))" "n \<le> N - (e + 1)"
        "n = N - (e + 1) \<or> 0 < n \<and> loss ((opt_step ^^ (n - 1)) (opt_step s)) < 10"
        "\<forall>i. i + 1 < n \<longrightarrow> 10 \<le> loss ((opt_step ^^ i) (opt_step s))" "best \<le> ?b" "\<forall>i<n. best \<le> loss ((opt_step ^^ i) (opt_step s))"
      using Suc.hyps(1) [OF e(2), of ?b ?p "opt_step s"] by blast
    have shift: "(opt_step ^^ i) (opt_step s) = (opt_step ^^ Suc i) s" for i by (simp add: funpow_Suc_right del: funpow.simps)
    have "10 \<le> loss ((opt_step ^^ i) s)" if "i + 1 < Suc n" for i
      using that n(4) [rule_format, of "i - 1"] False shift [of "i - 1"] by (cases i) simp_all
    moreover have "best \<le> loss ((opt_step ^^ i) s)" if "i < Suc n" for i
      using that n(5) n(6) [rule_format, of "i - 1"] shift [of "i - 1"] by (cases i) (simp_all split: if_splits)
    moreover have "Suc n = N - e \<or> 0 < Suc n \<and> loss ((opt_step ^^ (Suc n - 1)) s) < 10"
      using n(3) e shift [of "n - 1"] by (cases n) auto
    ultimately show ?thesis using n(1,2,5) run shift [of n] e
      by (intro exI [of _ "Suc n"] exI [of _ best] exI [of _ pat]) (auto split: if_splits)
  qed
qed

lemma tensor_rows_concat: "\<forall>x\<in>set xs. length (f x) = D \<Longrightarrow> tensor_rows D (length xs) (concat (map f xs)) = Inr (map f xs)"
  by (induction xs) simp_all

lemma nn_collect_ok:
  assumes "length train_data \<le> length train_label"
  shows "\<exists>labels cdf feature. nn_collect frnd rnd to_feature to_scalar train_data train_label =
    Inr (concat (map (\<lambda>k. map frnd (to_feature k)) train_data), labels, cdf, feature) \<and>
    labels = map (\<lambda>l. frnd (real (unat l))) (take (length train_data) train_label)"
proof -
  let ?f = "\<lambda>acc i. rbind acc (\<lambda>(train_set, labels, cdf, feature).
         if i < length train_label then
           let k = train_data ! i; l = real (unat (train_label ! i)) in
           Inr (train_set @ map frnd (to_feature k), labels @ [frnd l], xy_add cdf (to_scalar k) (rnd l), xy_add feature k (rnd l))
         else Inl OutOfRange)"
  have "\<exists>cdf feature. foldl ?f (Inr ([], [], XYData, XYData)) [0..<n] =
      Inr (concat (map (\<lambda>k. map frnd (to_feature k)) (take n train_data)), map (\<lambda>l. frnd (real (unat l))) (take n train_label), cdf, feature)"
    if "n \<le> length train_data" for n
    using that
  proof (induction n)
    case (Suc n)
    then obtain cdf feature where "foldl ?f (Inr ([], [], XYData, XYData)) [0..<n] =
        Inr (concat (map (\<lambda>k. map frnd (to_feature k)) (take n train_data)), map (\<lambda>l. frnd (real (unat l))) (take n train_label), cdf, feature)"
      by auto
    then show ?case using Suc.prems assms by (simp add: Let_def take_Suc_conv_app_nth)
  qed simp
  from this [of "length train_data"] show ?thesis by (auto simp: nn_collect_def)
qed

lemma nn_predictions:
  assumes "\<forall>k. length (to_feature_float k) = D"
  shows "\<exists>d. foldl (\<lambda>acc k. rbind acc (\<lambda>trained. rbind (nn_predict fwd D to_feature_float m k) (\<lambda>p. Inr (xy_add trained (to_scalar k) p))))
    (Inr d0) ks = Inr d"
  using assms by (induction ks arbitrary: d0) (simp_all add: nn_predict_def)

lemma nn_train_ok:
  assumes "length train_data \<le> length train_label" and "\<forall>k. length (to_feature k) = D" "\<forall>k. length (to_feature_float k) = D"
  shows "\<exists>m' plots n. nn_train fwd adam mse opt_step set_dual fmax frnd rnd D to_feature to_feature_float to_scalar m train_data train_label =
      Inr (m', plots) \<and> dual m' = set_dual (core m') \<and> n \<le> 40000 \<and>
    (let t = map (\<lambda>k. map frnd (to_feature k)) train_data;
         l = map (\<lambda>x. frnd (real (unat x))) (take (length train_data) train_label);
         state = (\<lambda>i. (opt_step t l ^^ i) (core m, adam (core m))) in
     core m' = fst (state n) \<and> (n = 40000 \<or> 0 < n \<and> mse t l (fst (state (n - 1))) < 10) \<and>
     (\<forall>i. i + 1 < n \<longrightarrow> 10 \<le> mse t l (fst (state i))))"
proof -
  let ?t = "map (\<lambda>k. map frnd (to_feature k)) train_data" and ?l = "map (\<lambda>x. frnd (real (unat x))) (take (length train_data) train_label)"
  let ?loss = "\<lambda>s. mse ?t ?l (fst s)" and ?s = "(core m, adam (core m))"
  obtain cdf feature where c: "nn_collect frnd rnd to_feature to_scalar train_data train_label = Inr (concat ?t, ?l, cdf, feature)"
    using nn_collect_ok [OF assms(1), of frnd rnd to_feature to_scalar] by auto
  have r: "tensor_rows D (length train_data) (concat ?t) = Inr ?t"
    by (rule tensor_rows_concat) (simp add: assms(2))
  obtain n best pat where e: "nn_epochs ?loss (opt_step ?t ?l) nn_nepoch 0 fmax 0 ?s = (best, pat, (opt_step ?t ?l ^^ n) ?s)" "n \<le> 40000"
      "n = 40000 \<or> 0 < n \<and> ?loss ((opt_step ?t ?l ^^ (n - 1)) ?s) < 10" "\<forall>i. i + 1 < n \<longrightarrow> 10 \<le> ?loss ((opt_step ?t ?l ^^ i) ?s)"
    using nn_epochs_result [of ?loss "opt_step ?t ?l" nn_nepoch 0 fmax 0 ?s] by (auto simp: nn_nepoch_def)
  obtain net opt where s: "(opt_step ?t ?l ^^ n) ?s = (net, opt)" by fastforce
  obtain d where d: "foldl (\<lambda>acc k. rbind acc (\<lambda>trained. rbind (nn_predict fwd D to_feature_float (m\<lparr>core := net\<rparr>) k)
      (\<lambda>p. Inr (xy_add trained (to_scalar k) p)))) (Inr XYData) train_data = Inr d"
    using nn_predictions [OF assms(3)] by blast
  have "nn_train fwd adam mse opt_step set_dual fmax frnd rnd D to_feature to_feature_float to_scalar m train_data train_label =
      Inr (m\<lparr>core := net, dual := set_dual net\<rparr>, xy_finalize cdf, xy_finalize feature, xy_finalize d)"
    unfolding nn_train_def c rbind_simps prod.case r Let_def e(1) s d by (rule refl)
  then show ?thesis using e(2-4) s by (auto simp: Let_def intro!: exI [of _ n])
qed

section \<open>Properties\<close>

text \<open>C25: training a neural network ends: after at most 40000 steps of the optimizer, the first time after a
  step that was taken at a loss below 10, over all features and labels of the training set. The
  network that is kept is the last one; the dual is set from it.\<close>

theorem nn_training_stops:
  assumes "length train_data \<le> length train_label" and "\<forall>k. length (to_feature k) = D" "\<forall>k. length (to_feature_float k) = D"
  shows "\<exists>m' plots n. nn_train fwd adam mse opt_step set_dual fmax frnd rnd D to_feature to_feature_float to_scalar m train_data train_label =
      Inr (m', plots) \<and> dual m' = set_dual (core m') \<and> n \<le> 40000 \<and>
    (let t = map (\<lambda>k. map frnd (to_feature k)) train_data;
         l = map (\<lambda>x. frnd (real (unat x))) (take (length train_data) train_label);
         state = (\<lambda>i. (opt_step t l ^^ i) (core m, adam (core m))) in
     core m' = fst (state n) \<and> (n = 40000 \<or> 0 < n \<and> mse t l (fst (state (n - 1))) < 10) \<and>
     (\<forall>i. i + 1 < n \<longrightarrow> 10 \<le> mse t l (fst (state i))))"
  using assms by (rule nn_train_ok)

theorem nn_training_stops_witness:
  "\<exists>m' plots n. nn_train (\<lambda>w x. w * hd x) (\<lambda>_. ()) (\<lambda>t l w. w) (\<lambda>t l (w, u). (w / 2, u)) id (2 ^ 128) (\<lambda>x. x) (\<lambda>x. x) 1 (\<lambda>k. [real k]) (\<lambda>k. [real k])
      real \<lparr>core = 64, dual = 0\<rparr> [1 :: nat, 3] [2, 6] =
      Inr (m', plots) \<and> dual m' = id (core m') \<and> n \<le> 40000 \<and>
    (let t = map (\<lambda>k. map (\<lambda>x. x) [real k]) [1 :: nat, 3];
         l = map (\<lambda>x. real (unat x)) (take (length [1 :: nat, 3]) [2 :: u64, 6]);
         state = (\<lambda>i. ((\<lambda>(w, u). (w / 2, u)) ^^ i) (core \<lparr>core = 64 :: real, dual = 0 :: real\<rparr>, ())) in
     core m' = fst (state n) \<and> (n = 40000 \<or> 0 < n \<and> fst (state (n - 1)) < 10) \<and>
     (\<forall>i. i + 1 < n \<longrightarrow> 10 \<le> fst (state i)))"
  using nn_training_stops [where train_data = "[1 :: nat, 3]" and train_label = "[2, 6]" and to_feature = "\<lambda>k. [real k]" and
      to_feature_float = "\<lambda>k. [real k]" and D = 1 and fwd = "\<lambda>w x. w * hd x" and adam = "\<lambda>_. ()" and mse = "\<lambda>t l w. w" and
      opt_step = "\<lambda>t l (w, u). (w / 2, u)" and set_dual = id and fmax = "2 ^ 128" and frnd = "\<lambda>x. x" and rnd = "\<lambda>x. x" and
      to_scalar = real and m = "\<lparr>core = 64, dual = 0\<rparr>"] by simp

text \<open>The shape of a network with one feature and \<open>h\<close> hidden units for each of \<open>D\<close> features.\<close>

definition log_net_ok :: "nat \<Rightarrow> nat \<Rightarrow> log_net \<Rightarrow> bool" where
  "log_net_ok D h net \<longleftrightarrow> length (fst (l1 net)) = h * D \<and> length (snd (l1 net)) = h \<and>
     length (fst (l4 net)) = h \<and> length (snd (l4 net)) = 1"

lemma LogNet_ok: "log_net_ok D 32 (LogNet D)"
  by (simp add: log_net_ok_def LogNet_def)

text \<open>What is documented of the layers, in exact arithmetic.\<close>

definition torch_ok :: "(u32 \<Rightarrow> real) \<Rightarrow> torch \<Rightarrow> bool" where
  "torch_ok fval T \<longleftrightarrow> (\<forall>W b x. length W = length b * length x \<longrightarrow>
      t_linear T (W, b) x = map (\<lambda>j. fval (b ! j) + (\<Sum>i<length x. x ! i * fval (W ! (j * length x + i)))) [0..<length b]) \<and>
     (\<forall>x y. tdiv T x y = x / y)"

text \<open>C29: inference without torch is right for keys with one feature: the dual that was set from a network
  computes, in exact arithmetic, the output of the network with the rough sigmoid as its activation.\<close>

theorem dual_log_matches:
  assumes T: "torch_ok fval T" and net: "log_net_ok 1 h net" and f: "to_feature k = [x]"
  shows "dual_fast_forward (\<lambda>x. x) to_feature (dual_set fval net) k =
    Inr (log_forward (T\<lparr>tsigmoid := rough_sigmoid (\<lambda>x. x)\<rparr>) net [x] ! 0)"
proof -
  let ?W = "fst (l1 net)" and ?b = "snd (l1 net)" and ?V = "fst (l4 net)" and ?c = "snd (l4 net)" and ?y = "x / 100000000"
  let ?s = "rough_sigmoid (\<lambda>x. x)" and ?H = "map (\<lambda>p. fval (snd (l1 net) ! p) + x / 100000000 * fval (fst (l1 net) ! p)) [0..<h]"
  have l: "length ?W = h" "length ?b = h" "length ?V = h" "length ?c = 1" using net by (simp_all add: log_net_ok_def)
  then obtain c where c: "?c = [c]" by (cases ?c) auto
  note shape = mat_ok_def Matrix_def
  have H: "man_mult (\<lambda>x. x) (Matrix [?y] 1 1) (Matrix (map fval ?W) 1 h) (Matrix (map fval ?b) 1 h) = Inr (Matrix ?H 1 h)"
    by (subst man_mult_ok) (simp_all add: shape l)
  have R: "man_mult (\<lambda>x. x) (Matrix (map ?s ?H) 1 h) (Matrix (map fval ?V) h 1) (Matrix [fval c] 1 1) =
      Inr (Matrix [fval c + (\<Sum>i<h. ?s (?H ! i) * fval (?V ! i))] 1 1)"
    by (subst man_mult_ok) (simp_all add: shape l)
  have dual: "dual_fast_forward (\<lambda>x. x) to_feature (dual_set fval net) k = Inr (fval c + (\<Sum>i<h. ?s (?H ! i) * fval (?V ! i)))"
    using H R by (simp add: dual_fast_forward_def dual_set_def f l c Matrix_def)
  have "t_linear T (l1 net) [?y] = ?H"
    using T l unfolding torch_ok_def by (cases "l1 net") simp
  moreover have "t_linear T (l4 net) (map ?s ?H) = [fval c + (\<Sum>i<h. map ?s ?H ! i * fval (?V ! i))]"
    using T l c unfolding torch_ok_def by (cases "l4 net") simp
  ultimately have "log_forward (T\<lparr>tsigmoid := ?s\<rparr>) net [x] = [fval c + (\<Sum>i<h. ?s (?H ! i) * fval (?V ! i))]"
    using T by (simp add: log_forward_def torch_ok_def)
  then show ?thesis using dual by simp
qed

lemma tiny_forward:
  "torch_ok (\<lambda>w. real (unat w)) \<lparr>t_linear = \<lambda>(W, b) x. map (\<lambda>j. real (unat (b ! j)) + (\<Sum>i<length x. x ! i * real (unat (W ! (j * length x + i))))) [0..<length b],
    tsigmoid = op_sigmoid, leaky_relu = \<lambda>x. max x (x / 100), tdiv = \<lambda>x y. x / y\<rparr>"
  by (simp add: torch_ok_def)

theorem dual_log_matches_witness:
  "dual_fast_forward (\<lambda>x. x) (\<lambda>k :: nat. [real k]) (dual_set (\<lambda>w. real (unat w)) (LogNet 1)) 7 =
    Inr (log_forward (\<lparr>t_linear = \<lambda>(W, b) x. map (\<lambda>j. real (unat (b ! j)) + (\<Sum>i<length x. x ! i * real (unat (W ! (j * length x + i))))) [0..<length b],
      tsigmoid = op_sigmoid, leaky_relu = \<lambda>x. max x (x / 100), tdiv = \<lambda>x y. x / y\<rparr>\<lparr>tsigmoid := rough_sigmoid (\<lambda>x. x)\<rparr>) (LogNet 1) [real 7] ! 0)"
  by (rule dual_log_matches [OF tiny_forward LogNet_ok]) simp

text \<open>With more than one feature the dual has its first layer in a matrix with a row for each feature
  and as many columns as there are weights, and the first product reads behind the weights.\<close>

theorem dual_log_overruns:
  assumes "log_net_ok D h net" "0 < h" "2 \<le> D" "length (to_feature k) = D"
  shows "dual_fast_forward rnd to_feature (dual_set fval net) k = Inl OutOfRange"
proof -
  let ?F = "Matrix (map (\<lambda>x. rnd (x / 100000000)) (to_feature k)) 1 D" and ?W1 = "Matrix (map fval (fst (l1 net))) D (h * D)"
  have n: "0 < h * D" using assms(2,3) by simp
  have err: "foldl (\<lambda>acc i. rbind acc (f i)) (Inl e) xs = Inl e" for f :: "nat \<Rightarrow> 'x \<Rightarrow> 'x res" and e xs by (induction xs) simp_all
  have errs: "foldl (\<lambda>acc r. foldl (\<lambda>acc col. rbind acc (f r col)) acc cs) (Inl e) rs = Inl e" for f :: "nat \<Rightarrow> nat \<Rightarrow> 'x \<Rightarrow> 'x res" and e cs rs
    by (induction rs) (simp_all add: err)
  have split: "[0..<D] = 0 # 1 # [2..<D]" using assms(3) by (simp add: upt_rec numeral_2_eq_2)
  have w: "length (fst (l1 net)) = h * D" using assms(1) by (simp add: log_net_ok_def)
  have at: "mat_at ?F 0 0 = Inr (rnd (to_feature k ! 0 / 100000000))" "mat_at ?W1 0 0 = Inr (fval (fst (l1 net) ! 0))"
      "mat_at ?F 0 1 = Inr (rnd (to_feature k ! 1 / 100000000))" "mat_at ?W1 1 0 = Inl OutOfRange"
    using assms(3,4) n w by (simp_all add: mat_at_def Matrix_def)
  have dot: "mat_dot rnd ?F ?W1 0 0 = Inl OutOfRange"
    unfolding mat_dot_def using at by (simp add: Matrix_def split err)
  have "[0..<h * D] = 0 # [1..<h * D]" using n by (simp add: upt_rec)
  then have "man_mult rnd ?F ?W1 (Matrix b 1 (h * D)) = Inl OutOfRange" for b
    using dot by (simp add: man_mult_def Matrix_def err)
  then show ?thesis using assms(4) w by (simp add: dual_fast_forward_def dual_set_def)
qed

theorem dual_log_overruns_witness:
  "dual_fast_forward (\<lambda>x. x) (\<lambda>k :: nat. [real k, 0]) (dual_set (\<lambda>w. real (unat w)) (LogNet 2)) 7 = Inl OutOfRange"
  by (rule dual_log_overruns [OF LogNet_ok]) simp_all

text \<open>C36: a submodel over a neural network cannot reach a client: its image has 15 bytes whatever the network
  is, and every image is refused, by a submodel over a network as well as, when it has these 15 bytes,
  by one over a linear model.\<close>

theorem nn_not_sent:
  "\<exists>image. xsub_serialize nn_serialize md = Inr image \<and> length image = 15 \<and>
    xsub_from_serialize lr_serialize lr_from_serialize l0 image = Inl AssertFail \<and>
    xsub_from_serialize nn_serialize nn_from_serialize (m0 :: ('n, 'd) nn) image = Inl AssertFail"
proof -
  have len: "length (i32_to_bytes x) = 4" for x by (simp add: i32_to_bytes_def)
  let ?image = "\<lambda>md. i32_to_bytes (err_max md) @ i32_to_bytes (err_min md) @ i32_to_bytes (smax md) @ [0x74, 0x6F, 0x70]"
  have s: "xsub_serialize nn_serialize md = Inr (?image md)" for md :: "('a, 'b) nn xsubmodel"
    by (simp add: xsub_serialize_def serialize_to_def serialize_into_def nn_serialize_def len)
  have s': "xsub_serialize nn_serialize md = Inr (?image md)" for md :: "('n, 'd) nn xsubmodel"
    by (simp add: xsub_serialize_def serialize_to_def serialize_into_def nn_serialize_def len)
  have "xsub_from_serialize nn_serialize nn_from_serialize m0 (?image md) = Inl AssertFail"
    unfolding xsub_from_serialize_def Let_def s' by (simp add: len deserialize_def nn_from_serialize_def)
  moreover have "xsub_from_serialize lr_serialize lr_from_serialize l0 (?image md) = Inl AssertFail"
    unfolding xsub_from_serialize_def Let_def xsub_serialize_eq rbind_simps xsub_image_length by (simp add: len)
  ultimately show ?thesis using s by (intro exI [of _ "?image md"]) (simp add: len)
qed

text \<open>
  A network is a model that the data distribution server can train: its training returns on every
  window, so it fits the window when the network predicts \<^verbatim>\<open>int\<close>s for its keys.
\<close>

lemma nn_fits:
  fixes to_feature :: "'k::linorder \<Rightarrow> real list"
    and fwd adam mse opt_step set_dual fmax frnd rnd D to_feature_float to_scalar
  defines "train \<equiv> nn_train fwd adam mse opt_step set_dual fmax frnd rnd D to_feature to_feature_float to_scalar"
  assumes "\<forall>k. length (to_feature k) = D" "\<forall>k. length (to_feature_float k) = D"
    and "\<And>m p k. train init (map fst W) (map snd W) = Inr (m, p) \<Longrightarrow> k \<in> fst ` set W \<Longrightarrow>
      \<exists>i. double_to_int (ml_predict (nn_ops init fwd to_feature_float train) m k) = Inr i"
  shows "fits (nn_ops init fwd to_feature_float train) W"
proof -
  have "length (map fst W) \<le> length (map snd W)" by simp
  from nn_train_ok [OF this assms(2,3), of fwd adam mse opt_step set_dual fmax frnd rnd to_scalar init]
  obtain m p where m: "train init (map fst W) (map snd W) = Inr (m, p)" unfolding train_def by blast
  then have "ml_train (nn_ops init fwd to_feature_float train) (ml_init (nn_ops init fwd to_feature_float train))
      (map fst W) (map snd W) 1 = Inr m" by (simp add: nn_ops_def)
  then show ?thesis using assms(4) [OF m] unfolding fits_def by blast
qed

end
