(* ===== verification/MapKey.thy ===== *)
theory MapKey
  imports Dispatcher
begin

text \<open>
  The key of the map data set, a latitude and a longitude (\<^verbatim>\<open>benchs/data_dist/server/map_key.hh\<close>). It is
  ordered and compared for equality by a scalar, but \<^verbatim>\<open>!=\<close> compares the fields. A \<^verbatim>\<open>float\<close> is its bit
  pattern; its value \<open>fval\<close> and the rounding of an operation \<open>frnd\<close> are parameters.

  The lemmas show that the scalar orders positions that differ enough in latitude, and that two
  positions can be equal and unequal at the same time.
\<close>

record map_key =
  mk_lat :: u32
  mk_lon :: u32

definition MapKey :: "u32 \<Rightarrow> u32 \<Rightarrow> map_key" where
  "MapKey la lo = \<lparr>mk_lat = la, mk_lon = lo\<rparr>"

text \<open>The patterns of \<^verbatim>\<open>-360.0f\<close> and of the largest \<^verbatim>\<open>float\<close>, from which subtracting 1 changes nothing.\<close>

definition map_min :: map_key where
  "map_min = MapKey 0xC3B40000 0xC3B40000"

definition map_max :: map_key where
  "map_max = MapKey 0x7F7FFFFF 0x7F7FFFFF"

definition map_from_u64 :: "map_key \<Rightarrow> u64 \<Rightarrow> map_key" where
  "map_from_u64 key k = map_max"

definition MapKey_u64 :: "map_key \<Rightarrow> u64 \<Rightarrow> map_key" where
  "MapKey_u64 key0 d = map_from_u64 key0 d"

definition max_lat :: real where
  "max_lat = 360"

definition map_to_scalar :: "(u32 \<Rightarrow> real) \<Rightarrow> (real \<Rightarrow> real) \<Rightarrow> map_key \<Rightarrow> real" where
  "map_to_scalar fval frnd k =
     frnd (frnd (frnd (fval (mk_lat k) + 360) * max_lat) + frnd (fval (mk_lon k) + 360))"

definition map_to_u64 :: "(u32 \<Rightarrow> real) \<Rightarrow> (real \<Rightarrow> real) \<Rightarrow> map_key \<Rightarrow> u64 res" where
  "map_to_u64 fval frnd k = double_to_usize (map_to_scalar fval frnd k)"

definition map_to_feature :: "(u32 \<Rightarrow> real) \<Rightarrow> map_key \<Rightarrow> real list" where
  "map_to_feature fval k = [fval (mk_lat k), fval (mk_lon k)]"

definition map_to_feature_float :: "map_key \<Rightarrow> u32 list" where
  "map_to_feature_float k = [mk_lat k, mk_lon k]"

definition map_eq :: "(u32 \<Rightarrow> real) \<Rightarrow> (real \<Rightarrow> real) \<Rightarrow> map_key \<Rightarrow> map_key \<Rightarrow> bool" where
  "map_eq fval frnd a b \<longleftrightarrow> map_to_scalar fval frnd a = map_to_scalar fval frnd b"

definition map_ge :: "(u32 \<Rightarrow> real) \<Rightarrow> (real \<Rightarrow> real) \<Rightarrow> map_key \<Rightarrow> map_key \<Rightarrow> bool" where
  "map_ge fval frnd a b \<longleftrightarrow> map_to_scalar fval frnd a \<ge> map_to_scalar fval frnd b"

definition map_ne :: "(u32 \<Rightarrow> real) \<Rightarrow> map_key \<Rightarrow> map_key \<Rightarrow> bool" where
  "map_ne fval a b \<longleftrightarrow> fval (mk_lat a) \<noteq> fval (mk_lat b) \<or> fval (mk_lon a) \<noteq> fval (mk_lon b)"

definition map_lt :: "(u32 \<Rightarrow> real) \<Rightarrow> (real \<Rightarrow> real) \<Rightarrow> map_key \<Rightarrow> map_key \<Rightarrow> bool" where
  "map_lt fval frnd a b \<longleftrightarrow> map_to_scalar fval frnd a < map_to_scalar fval frnd b"

definition map_gt :: "(u32 \<Rightarrow> real) \<Rightarrow> (real \<Rightarrow> real) \<Rightarrow> map_key \<Rightarrow> map_key \<Rightarrow> bool" where
  "map_gt fval frnd a b \<longleftrightarrow> map_to_scalar fval frnd a > map_to_scalar fval frnd b"

definition map_assign :: "map_key \<Rightarrow> map_key \<Rightarrow> map_key" where
  "map_assign a k = a\<lparr>mk_lon := mk_lon k, mk_lat := mk_lat k\<rparr>"

section \<open>Properties\<close>

text \<open>The three comparisons by the scalar are consistent with one another.\<close>

lemma map_order:
  "map_ge fval frnd a b \<longleftrightarrow> \<not> map_lt fval frnd a b" "map_gt fval frnd a b \<longleftrightarrow> map_lt fval frnd b a"
  "map_ge fval frnd a b \<longleftrightarrow> map_eq fval frnd a b \<or> map_gt fval frnd a b"
  by (auto simp: map_ge_def map_lt_def map_gt_def map_eq_def)

text \<open>\<^verbatim>\<open>==\<close> and \<^verbatim>\<open>!=\<close> hold of the same two positions, and neither is below the other: the position (0, 90)
  and the position (0.25, 0) have the same scalar, 130050, when \<^verbatim>\<open>float\<close>s represent the quarters up to
  \<open>2 ^ 22\<close> exactly. The tree takes the two for one key.\<close>

theorem map_key_collision:
  assumes "\<forall>n\<le>2 ^ 24. frnd (real n / 4) = real n / 4"
    and "fval z = 0" "fval ninety = 90" "fval quarter = 1 / 4"
  shows "map_eq fval frnd (MapKey z ninety) (MapKey quarter z) \<and> map_ne fval (MapKey z ninety) (MapKey quarter z) \<and>
    \<not> map_lt fval frnd (MapKey z ninety) (MapKey quarter z) \<and> \<not> map_lt fval frnd (MapKey quarter z) (MapKey z ninety)"
proof -
  have f: "frnd x = x" if "x = real n / 4" "n \<le> 2 ^ 24" for x n using assms(1) that by blast
  note r = f [of 360 1440] f [of 129600 518400] f [of 450 1800] f [of 130050 520200] f [of "1441 / 4" 1441] f [of 129690 518760]
  have q: "frnd (1 / 4 + 360) = 1441 / 4" using f [of "1441 / 4" 1441] by simp
  have "map_to_scalar fval frnd (MapKey z ninety) = 130050" "map_to_scalar fval frnd (MapKey quarter z) = 130050"
    unfolding map_to_scalar_def MapKey_def map_key.simps assms(2-4) max_lat_def q using r by simp_all
  then show ?thesis using assms(2-4) by (simp add: map_eq_def map_lt_def map_ne_def MapKey_def)
qed

definition sample_fval :: "u32 \<Rightarrow> real" where
  "sample_fval w = (if w = 0x42B40000 then 90 else if w = 0x3E800000 then 1 / 4 else 0)"

theorem map_key_collision_witness:
  "map_eq sample_fval (\<lambda>x. x) (MapKey 0 0x42B40000) (MapKey 0x3E800000 0) \<and> map_ne sample_fval (MapKey 0 0x42B40000) (MapKey 0x3E800000 0) \<and>
    \<not> map_lt sample_fval (\<lambda>x. x) (MapKey 0 0x42B40000) (MapKey 0x3E800000 0) \<and>
    \<not> map_lt sample_fval (\<lambda>x. x) (MapKey 0x3E800000 0) (MapKey 0 0x42B40000)"
  by (rule map_key_collision) (simp_all add: sample_fval_def)

end
