(* ===== verification/XArray.thy ===== *)
theory XArray
  imports KVTrait WrappedType
begin

text \<open>
  The sorted array \<^verbatim>\<open>XArray\<close> (\<^verbatim>\<open>xarray.hh\<close>) with its map index, and its iterator \<^verbatim>\<open>ArrayIter\<close>
  (\<^verbatim>\<open>xarray_iter.hh\<close>). The lemmas give its invariant, that it implements the contract
  \<open>kv_trait\<close> for keys of at most 8 bytes, and that the iterator visits the pairs of key and
  position in order.
\<close>

section \<open>The array\<close>

text \<open>
  The two memory blocks are lists of slots, \<open>None\<close> being a slot that was never written; the sizes
  in bytes are kept beside them because the capacity checks use them. A write past the last slot of
  a block is out of range.
\<close>

record ('k, 'v) xarray =
  key_ptr :: "'k option list"
  key_array_sz :: nat
  val_ptr :: "'v wrapped_type option list"
  val_array_sz :: nat
  index :: "'k \<rightharpoonup> nat"
  xsize :: nat

definition XArray :: "nat \<Rightarrow> nat \<Rightarrow> nat \<Rightarrow> nat \<Rightarrow> ('k, 'v) xarray" where
  "XArray sizeof_K sizeof_W key_sz val_sz =
     \<lparr>key_ptr = replicate (key_sz div sizeof_K) None, key_array_sz = key_sz,
      val_ptr = replicate (val_sz div sizeof_W) None, val_array_sz = val_sz,
      index = Map.empty, xsize = 0\<rparr>"

definition XArray_max :: "nat \<Rightarrow> nat \<Rightarrow> nat \<Rightarrow> ('k, 'v) xarray" where
  "XArray_max sizeof_K sizeof_W max_num_k =
     XArray sizeof_K sizeof_W (max_num_k * sizeof_K) (max_num_k * sizeof_W)"

text \<open>The index parameter of \<^verbatim>\<open>keys_at\<close> and \<^verbatim>\<open>vals_at\<close> is a 32-bit signed \<^verbatim>\<open>int\<close>.\<close>

definition to_int32 :: "nat \<Rightarrow> int" where
  "to_int32 n = sint (word_of_nat n :: 32 word)"

definition keys_at :: "('k, 'v) xarray \<Rightarrow> int \<Rightarrow> 'k option res" where
  "keys_at a idx =
     (if idx \<ge> 0 \<and> nat idx < xsize a then
        (case key_ptr a ! nat idx of Some k \<Rightarrow> Inr (Some k) | None \<Rightarrow> Inl UninitRead)
      else Inr None)"

definition vals_at :: "('k, 'v) xarray \<Rightarrow> int \<Rightarrow> 'v option res" where
  "vals_at a idx =
     (if idx \<ge> 0 \<and> nat idx < xsize a then
        (case val_ptr a ! nat idx of Some w \<Rightarrow> Inr (Some (get_payload w)) | None \<Rightarrow> Inl UninitRead)
      else Inr None)"

definition insert_w_index :: "nat \<Rightarrow> ('k::linorder, 'v) xarray \<Rightarrow> 'k \<Rightarrow> 'v \<Rightarrow> bool
    \<Rightarrow> (bool \<times> ('k, 'v) xarray) res" where
  "insert_w_index sizeof_W a k v add_idx =
     rbind (if xsize a \<noteq> 0
            then rbind (keys_at a (to_int32 (xsize a - 1))) (\<lambda>lk. rbind (opt_value lk) (\<lambda>last.
                 Inr (last \<ge> k)))
            else Inr False) (\<lambda>reject.
     if reject then Inr (False, a)
     else if (xsize a + 1) * 8 > key_array_sz a then Inr (False, a)
     else if (xsize a + 1) * sizeof_W > val_array_sz a then Inr (False, a)
     else if xsize a \<ge> length (key_ptr a) \<or> xsize a \<ge> length (val_ptr a) then Inl OutOfRange
     else
       let w = (case val_ptr a ! xsize a of Some w \<Rightarrow> wt_reset w v | None \<Rightarrow> WrappedType v);
           a1 = a\<lparr>key_ptr := (key_ptr a)[xsize a := Some k],
                  val_ptr := (val_ptr a)[xsize a := Some w]\<rparr>;
           a2 = (if add_idx then
                   a1\<lparr>index := (case index a1 k of None \<Rightarrow> (index a1)(k \<mapsto> xsize a1) | Some _ \<Rightarrow> index a1)\<rparr>
                 else a1)
       in Inr (True, a2\<lparr>xsize := xsize a2 + 1\<rparr>))"

definition pos :: "('k, 'v) xarray \<Rightarrow> 'k \<Rightarrow> nat option" where
  "pos a k = index a k"

definition xarray_get_impl :: "('k, 'v) xarray \<Rightarrow> 'k \<Rightarrow> 'v option res" where
  "xarray_get_impl a k = (case pos a k of Some p \<Rightarrow> vals_at a (to_int32 p) | None \<Rightarrow> Inr None)"

definition xarray_insert_impl :: "nat \<Rightarrow> ('k::linorder, 'v) xarray \<Rightarrow> 'k \<Rightarrow> 'v
    \<Rightarrow> (bool \<times> ('k, 'v) xarray) res" where
  "xarray_insert_impl sizeof_W a k v = insert_w_index sizeof_W a k v True"

section \<open>The iterator\<close>

record array_iter =
  cur_idx :: nat

definition ArrayIter :: array_iter where
  "ArrayIter = \<lparr>cur_idx = 0\<rparr>"

definition array_begin :: "array_iter \<Rightarrow> array_iter" where
  "array_begin it = it\<lparr>cur_idx := 0\<rparr>"

definition array_next :: "array_iter \<Rightarrow> array_iter" where
  "array_next it = it\<lparr>cur_idx := cur_idx it + 1\<rparr>"

definition array_has_next :: "('k, 'v) xarray \<Rightarrow> array_iter \<Rightarrow> bool" where
  "array_has_next kv it \<longleftrightarrow> cur_idx it < xsize kv"

definition array_cur_key :: "('k, 'v) xarray \<Rightarrow> array_iter \<Rightarrow> 'k res" where
  "array_cur_key kv it = rbind (keys_at kv (to_int32 (cur_idx it))) opt_value"

definition array_opaque_val :: "array_iter \<Rightarrow> u64" where
  "array_opaque_val it = of_nat (cur_idx it)"

text \<open>When the key is absent, only the local variable \<^verbatim>\<open>pos\<close> is assigned.\<close>

definition array_seek :: "('k, 'v) xarray \<Rightarrow> array_iter \<Rightarrow> 'k \<Rightarrow> array_iter" where
  "array_seek kv it k = (case pos kv k of Some p \<Rightarrow> it\<lparr>cur_idx := p\<rparr> | None \<Rightarrow> it)"

section \<open>Invariant and abstraction\<close>

definition xa_keys :: "('k, 'v) xarray \<Rightarrow> 'k list" where
  "xa_keys a = map the (take (xsize a) (key_ptr a))"

definition xa_vals :: "('k, 'v) xarray \<Rightarrow> 'v list" where
  "xa_vals a = map (get_payload \<circ> the) (take (xsize a) (val_ptr a))"

definition xarray_map :: "('k, 'v) xarray \<Rightarrow> 'k \<rightharpoonup> 'v" where
  "xarray_map a = map_of (zip (xa_keys a) (xa_vals a))"

definition xarray_inv :: "('k::linorder, 'v) xarray \<Rightarrow> bool" where
  "xarray_inv a \<longleftrightarrow>
     xsize a \<le> length (key_ptr a) \<and> xsize a \<le> length (val_ptr a) \<and> xsize a \<le> 2 ^ 31 \<and>
     (\<forall>i<xsize a. key_ptr a ! i \<noteq> None \<and> val_ptr a ! i \<noteq> None) \<and>
     sorted_wrt (<) (xa_keys a) \<and>
     (\<forall>k i. index a k = Some i \<longleftrightarrow> i < xsize a \<and> xa_keys a ! i = k)"

lemma xarray_invD:
  assumes "xarray_inv a"
  shows "xsize a \<le> length (key_ptr a)" "xsize a \<le> length (val_ptr a)" "xsize a \<le> 2 ^ 31"
    "i < xsize a \<Longrightarrow> key_ptr a ! i \<noteq> None" "i < xsize a \<Longrightarrow> val_ptr a ! i \<noteq> None"
    "sorted_wrt (<) (xa_keys a)" "index a k = Some i \<longleftrightarrow> i < xsize a \<and> xa_keys a ! i = k"
  using assms by (auto simp: xarray_inv_def)

lemma length_xa [simp]:
  assumes "xarray_inv a"
  shows "length (xa_keys a) = xsize a" "length (xa_vals a) = xsize a"
  using assms by (simp_all add: xa_keys_def xa_vals_def xarray_inv_def)

lemma to_int32_small: "n < 2 ^ 31 \<Longrightarrow> to_int32 n = int n"
  by (simp add: to_int32_def signed_of_nat signed_take_bit_int_eq_self)

lemma keys_at_in:
  assumes "xarray_inv a" and "i < xsize a"
  shows "keys_at a (to_int32 i) = Inr (Some (xa_keys a ! i))"
    and "vals_at a (to_int32 i) = Inr (Some (xa_vals a ! i))"
proof -
  have i: "to_int32 i = int i" using assms xarray_invD(3) [OF assms(1)] by (intro to_int32_small) simp
  obtain k w where "key_ptr a ! i = Some k" "val_ptr a ! i = Some w"
    using xarray_invD(4,5) [OF assms] by auto
  moreover have "xa_keys a ! i = the (key_ptr a ! i)" "xa_vals a ! i = get_payload (the (val_ptr a ! i))"
    using assms xarray_invD(1,2) [OF assms(1)] by (simp_all add: xa_keys_def xa_vals_def)
  ultimately show "keys_at a (to_int32 i) = Inr (Some (xa_keys a ! i))"
    "vals_at a (to_int32 i) = Inr (Some (xa_vals a ! i))"
    using assms(2) by (simp_all add: keys_at_def vals_at_def i)
qed

lemma distinct_xa_keys: "xarray_inv a \<Longrightarrow> distinct (xa_keys a)"
  by (drule xarray_invD(6)) (simp add: strict_sorted_iff)

lemma dom_xarray_map: "xarray_inv a \<Longrightarrow> dom (xarray_map a) = set (xa_keys a)"
  by (simp add: xarray_map_def dom_map_of_conv_image_fst flip: set_map)

lemma xarray_map_pos:
  assumes "xarray_inv a"
  shows "xarray_map a k = map_option (\<lambda>i. xa_vals a ! i) (index a k)"
proof (cases "index a k")
  case None
  then have "k \<notin> set (xa_keys a)"
    using xarray_invD(7) [OF assms, of k] assms by (auto simp: in_set_conv_nth)
  then have "xarray_map a k = None" using dom_xarray_map [OF assms] by blast
  with None show ?thesis by simp
next
  case (Some i)
  then have i: "i < xsize a" "xa_keys a ! i = k" using xarray_invD(7) [OF assms] by simp_all
  then have "map_of (zip (xa_keys a) (xa_vals a)) (xa_keys a ! i) = Some (xa_vals a ! i)"
    using assms distinct_xa_keys [OF assms] by (intro map_of_zip_nth) simp_all
  with Some i show ?thesis by (simp add: xarray_map_def)
qed

lemma xarray_get_ok:
  assumes "xarray_inv a"
  shows "xarray_get_impl a k = Inr (xarray_map a k)"
proof (cases "index a k")
  case (Some i)
  then have "vals_at a (to_int32 i) = Inr (Some (xa_vals a ! i))"
    using keys_at_in(2) [OF assms] xarray_invD(7) [OF assms] by blast
  with Some show ?thesis by (simp add: xarray_get_impl_def pos_def xarray_map_pos [OF assms])
qed (simp add: xarray_get_impl_def pos_def xarray_map_pos [OF assms])

section \<open>Insertion\<close>

definition xarray_room :: "nat \<Rightarrow> nat \<Rightarrow> nat \<Rightarrow> ('k, 'v) xarray \<Rightarrow> bool" where
  "xarray_room sizeof_K sizeof_W n a \<longleftrightarrow>
     xsize a + n \<le> 2 ^ 31 \<and> (xsize a + n) * 8 \<le> key_array_sz a \<and> (xsize a + n) * sizeof_W \<le> val_array_sz a \<and>
     length (key_ptr a) = key_array_sz a div sizeof_K \<and> length (val_ptr a) = val_array_sz a div sizeof_W"

lemma slots_enough: "n * s \<le> z \<Longrightarrow> 0 < s \<Longrightarrow> n \<le> z div (s :: nat)"
  by (simp add: less_eq_div_iff_mult_less_eq)

lemma xa_append:
  assumes "xarray_inv a" and "xsize a < length (key_ptr a)" and "xsize a < length (val_ptr a)"
  shows "xa_keys (a\<lparr>key_ptr := (key_ptr a)[xsize a := Some k], val_ptr := vs, index := ix,
      xsize := xsize a + 1\<rparr>) = xa_keys a @ [k]"
    and "xa_vals (a\<lparr>key_ptr := ks, val_ptr := (val_ptr a)[xsize a := Some w], index := ix,
      xsize := xsize a + 1\<rparr>) = xa_vals a @ [get_payload w]"
  using assms by (simp_all add: xa_keys_def xa_vals_def take_list_update_snoc take_Suc_conv_app_nth)

text \<open>A key that is not above the last one is refused, and the array is unchanged.\<close>

lemma insert_refused:
  assumes "xarray_inv a" and "xsize a \<noteq> 0" and "k \<le> last (xa_keys a)"
  shows "insert_w_index W a k v add_idx = Inr (False, a)"
proof -
  have l: "xa_keys a ! (xsize a - 1) = last (xa_keys a)"
    using assms(1,2) by (metis last_conv_nth length_xa(1) length_0_conv)
  have "keys_at a (to_int32 (xsize a - 1)) = Inr (Some (last (xa_keys a)))"
    using keys_at_in(1) [OF assms(1), of "xsize a - 1"] assms(2) l by simp
  then show ?thesis using assms(2,3) by (simp add: insert_w_index_def)
qed

lemma xarray_insert_ok:
  fixes a :: "('k::linorder, 'v) xarray"
  assumes inv: "xarray_inv a" and room: "xarray_room K W (Suc n) a" and sz: "0 < K" "K \<le> 8" "0 < W"
    and less: "\<And>k'. k' \<in> dom (xarray_map a) \<Longrightarrow> k' < k"
  shows "\<exists>a'. xarray_insert_impl W a k v = Inr (True, a') \<and> xarray_inv a' \<and> xarray_room K W n a' \<and>
    xarray_map a' = (xarray_map a)(k \<mapsto> v)"
proof -
  let ?n = "xsize a"
  have below: "\<forall>x\<in>set (xa_keys a). x < k" using less dom_xarray_map [OF inv] by simp
  have r: "?n + Suc n \<le> 2 ^ 31" "(?n + Suc n) * 8 \<le> key_array_sz a" "(?n + Suc n) * W \<le> val_array_sz a"
    "length (key_ptr a) = key_array_sz a div K" "length (val_ptr a) = val_array_sz a div W"
    using room by (simp_all add: xarray_room_def)
  have one: "(?n + 1) * 8 \<le> key_array_sz a" "(?n + 1) * W \<le> val_array_sz a"
    using r(2) order_trans [OF mult_le_mono1 r(3), of "?n + 1"] by simp_all
  have "(?n + 1) * K \<le> (?n + 1) * 8" using sz(2) by (intro mult_le_mono2)
  also note one(1)
  finally have "?n + 1 \<le> length (key_ptr a)" unfolding r(4) using sz(1) by (rule slots_enough)
  moreover have "?n + 1 \<le> length (val_ptr a)" unfolding r(5) using one(2) sz(3) by (rule slots_enough)
  ultimately have in_range: "?n < length (key_ptr a)" "?n < length (val_ptr a)" by simp_all
  define w where "w = (case val_ptr a ! ?n of Some w \<Rightarrow> wt_reset w v | None \<Rightarrow> WrappedType v)"
  have pw: "get_payload w = v"
    by (cases "val_ptr a ! ?n") (simp_all add: w_def wt_reset_WrappedType)
  define ks vs where "ks = (key_ptr a)[?n := Some k]" and "vs = (val_ptr a)[?n := Some w]"
  let ?a' = "a\<lparr>key_ptr := ks, val_ptr := vs, index := (index a)(k \<mapsto> ?n), xsize := ?n + 1\<rparr>"
  have new: "index a k = None"
    using xarray_invD(7) [OF inv, of k] inv below
    by (metis length_xa(1) not_None_eq nth_mem order_less_irrefl)
  have first: "rbind (if ?n \<noteq> 0 then rbind (keys_at a (to_int32 (?n - 1))) (\<lambda>lk. rbind (opt_value lk) (\<lambda>last.
      Inr (last \<ge> k))) else Inr False) f = f False" for f :: "bool \<Rightarrow> (bool \<times> ('k, 'v) xarray) res"
  proof (cases "?n = 0")
    case False
    then have "xa_keys a ! (?n - 1) \<in> set (xa_keys a)" using inv by simp
    then have "(xa_keys a ! (?n - 1) \<ge> k) = False" using below by (auto simp: not_le)
    then show ?thesis using False keys_at_in(1) [OF inv, of "?n - 1"] by simp
  qed simp
  have run: "xarray_insert_impl W a k v = Inr (True, ?a')"
    unfolding xarray_insert_impl_def insert_w_index_def first
    using one in_range new by (simp add: Let_def ks_def vs_def w_def)
  have k': "xa_keys ?a' = xa_keys a @ [k]" and v': "xa_vals ?a' = xa_vals a @ [v]"
    using xa_append [OF inv in_range] pw unfolding ks_def vs_def by simp_all
  have "xarray_inv ?a'"
    unfolding xarray_inv_def k'
  proof (intro conjI allI impI)
    show "xsize ?a' \<le> length (key_ptr ?a')" "xsize ?a' \<le> length (val_ptr ?a')" "xsize ?a' \<le> 2 ^ 31"
      using in_range r(1) by (simp_all add: ks_def vs_def)
    show "sorted_wrt (<) (xa_keys a @ [k])"
      using below xarray_invD(6) [OF inv] by (simp add: sorted_wrt_append)
  next
    fix i assume "i < xsize ?a'"
    then show "key_ptr ?a' ! i \<noteq> None" "val_ptr ?a' ! i \<noteq> None"
      using xarray_invD(4,5) [OF inv, of i] in_range
      by (auto simp: ks_def vs_def nth_list_update_if less_Suc_eq)
  next
    fix q i
    have "i < ?n \<Longrightarrow> xa_keys a ! i \<noteq> k" using below inv by (metis length_xa(1) nth_mem order_less_irrefl)
    then show "(index ?a' q = Some i) = (i < xsize ?a' \<and> (xa_keys a @ [k]) ! i = q)"
      using xarray_invD(7) [OF inv, of q i] inv new
      by (auto simp: nth_append less_Suc_eq)
  qed
  moreover have "xarray_map ?a' = (xarray_map a)(k \<mapsto> v)"
  proof -
    have "k \<notin> dom (map_of (zip (xa_keys a) (xa_vals a)))"
      using below dom_xarray_map [OF inv] unfolding xarray_map_def by blast
    then have "Map.empty(k \<mapsto> v) ++ map_of (zip (xa_keys a) (xa_vals a)) =
        (map_of (zip (xa_keys a) (xa_vals a)))(k \<mapsto> v)"
      by (subst map_upd_add_map_of) simp_all
    then show ?thesis unfolding xarray_map_def k' v' using inv by simp
  qed
  moreover have "xarray_room K W n ?a'"
    using r by (simp add: xarray_room_def ks_def vs_def)
  ultimately show ?thesis using run by blast
qed


section \<open>The contracts\<close>

text \<open>
  Inserting drops the boolean; the third argument is the number of keys there is room for, the
  sizes \<open>K\<close> and \<open>W\<close> of a key and of a wrapped value being fixed.
\<close>

definition xarray_put :: "nat \<Rightarrow> ('k::linorder, 'v) xarray \<Rightarrow> 'k \<Rightarrow> 'v \<Rightarrow> ('k, 'v) xarray res" where
  "xarray_put W a k v = rbind (xarray_insert_impl W a k v) (\<lambda>(_, a'). Inr a')"

definition xarray_kv_inv :: "nat \<Rightarrow> nat \<Rightarrow> nat \<Rightarrow> ('k::linorder, 'v) xarray \<Rightarrow> bool" where
  "xarray_kv_inv K W n a \<longleftrightarrow> 0 < K \<and> K \<le> 8 \<and> 0 < W \<and> xarray_inv a \<and> xarray_room K W n a"

interpretation xarr: kv_trait xarray_get_impl "xarray_put W" "xarray_kv_inv K W" xarray_map "\<lambda>_. True"
  for K W :: nat
proof unfold_locales
  fix n k v and s :: "('a, 'b) xarray"
  assume "xarray_kv_inv K W (Suc n) s" and "\<And>k'. k' \<in> dom (xarray_map s) \<Longrightarrow> k' < k"
  then show "\<exists>s'. xarray_put W s k v = Inr s' \<and> xarray_kv_inv K W n s' \<and>
      xarray_map s' = (xarray_map s)(k \<mapsto> v)"
    using xarray_insert_ok [of s K W n k v] by (auto simp: xarray_kv_inv_def xarray_put_def)
qed (simp add: xarray_kv_inv_def xarray_get_ok)

text \<open>A new array of \<^verbatim>\<open>max_num_k\<close> keys has room for all of them when keys take 8 bytes.\<close>

lemma XArray_max_inv:
  assumes "0 < W" and "m \<le> 2 ^ 31"
  shows "xarray_kv_inv 8 W m (XArray_max 8 W m :: ('k::linorder, 'v) xarray)"
    and "xarray_map (XArray_max 8 W m :: ('k::linorder, 'v) xarray) = Map.empty"
  using assms
  by (simp_all add: xarray_kv_inv_def xarray_inv_def xarray_room_def XArray_max_def XArray_def
      xa_keys_def xa_vals_def xarray_map_def)

definition array_rep :: "('k::linorder, 'v) xarray \<Rightarrow> array_iter \<Rightarrow> ('k \<times> u64) list \<Rightarrow> bool" where
  "array_rep a it xs \<longleftrightarrow> xarray_inv a \<and>
     xs = drop (cur_idx it) (zip (xa_keys a) (map of_nat [0..<xsize a]))"

lemma array_rep_Cons:
  assumes "array_rep a it (x # xs)"
  shows "cur_idx it < xsize a" "x = (xa_keys a ! cur_idx it, of_nat (cur_idx it))"
    "xs = drop (Suc (cur_idx it)) (zip (xa_keys a) (map of_nat [0..<xsize a]))"
proof -
  have inv: "xarray_inv a" and
    x: "x # xs = drop (cur_idx it) (zip (xa_keys a) (map of_nat [0..<xsize a]))"
    using assms by (simp_all add: array_rep_def)
  then show l: "cur_idx it < xsize a"
    by (metis length_xa(1) length_drop length_map length_upt length_zip list.distinct(1) list.size(3)
        min.idem not_less diff_is_0_eq diff_zero length_0_conv)
  note d = Cons_nth_drop_Suc [of "cur_idx it" "zip (xa_keys a) (map of_nat [0..<xsize a] :: u64 list)", symmetric]
  show "x = (xa_keys a ! cur_idx it, of_nat (cur_idx it))"
    "xs = drop (Suc (cur_idx it)) (zip (xa_keys a) (map of_nat [0..<xsize a]))"
    using x d l inv by simp_all
qed

interpretation arr_it: key_iter "array_has_next a" "\<lambda>it. Inr (array_next it)" "array_cur_key a"
  "\<lambda>it. Inr (array_opaque_val it)" "array_rep a" for a :: "('k::linorder, 'v) xarray"
proof unfold_locales
  fix it xs
  assume "array_rep a it xs"
  then show "array_has_next a it \<longleftrightarrow> xs \<noteq> []"
    by (auto simp: array_rep_def array_has_next_def)
next
  fix it k ov and xs :: "('k \<times> u64) list"
  assume r: "array_rep a it ((k, ov) # xs)"
  note c = array_rep_Cons [OF r]
  have "xarray_inv a" using r by (simp add: array_rep_def)
  then have "keys_at a (to_int32 (cur_idx it)) = Inr (Some (xa_keys a ! cur_idx it))"
    using keys_at_in(1) c(1) by blast
  then show "array_cur_key a it = Inr k" using c(2) by (simp add: array_cur_key_def)
  show "Inr (array_opaque_val it) = (Inr ov :: u64 res)" using c(2) by (simp add: array_opaque_val_def)
next
  fix it x and xs :: "('k \<times> u64) list"
  assume r: "array_rep a it (x # xs)"
  then have "array_rep a (array_next it) xs"
    using array_rep_Cons(3) [OF r] by (simp add: array_rep_def array_next_def)
  then show "\<exists>it'. Inr (array_next it) = Inr it' \<and> array_rep a it' xs" by blast
qed

lemma array_rep_begin:
  "xarray_inv a \<Longrightarrow> array_rep a (array_begin it) (zip (xa_keys a) (map of_nat [0..<xsize a]))"
  by (simp add: array_rep_def array_begin_def)

section \<open>Properties\<close>

text \<open>An array made for \<open>n\<close> keys of 8 bytes takes \<open>n\<close> pairs in increasing order of their keys,
  and then finds every one of them with its value and no other key.\<close>

theorem xarray_load_get:
  fixes kvs :: "('k::linorder \<times> 'v) list"
  assumes "0 < W" and "length kvs \<le> 2 ^ 31" and "sorted_wrt (<) (map fst kvs)" and "kvs \<noteq> []"
  shows "\<exists>a. foldl (\<lambda>acc kv. rbind acc (\<lambda>a. xarray_put W a (fst kv) (snd kv)))
      (Inr (XArray_max 8 W (length kvs))) kvs = Inr a \<and> xarray_get_impl a q = Inr (map_of kvs q)"
proof -
  have inv: "xarray_kv_inv 8 W (length kvs) (XArray_max 8 W (length kvs) :: ('k, 'v) xarray)"
    "xarray_map (XArray_max 8 W (length kvs) :: ('k, 'v) xarray) = Map.empty"
    using XArray_max_inv [OF assms(1,2)] by blast+
  have "xarray_kv_inv 8 W (0 + length kvs) (XArray_max 8 W (length kvs) :: ('k, 'v) xarray)"
    using inv(1) by simp
  from xarr.load_get [OF this _ assms(3) inv(2) assms(4), of q] show ?thesis
    unfolding xarr.load_foldl by simp
qed

theorem xarray_load_get_witness:
  "\<exists>a. foldl (\<lambda>acc kv. rbind acc (\<lambda>a. xarray_put 64 a (fst kv) (snd kv)))
      (Inr (XArray_max 8 64 (length [(3 :: nat, 30 :: u64), (5, 50)]))) [(3 :: nat, 30 :: u64), (5, 50)] = Inr a \<and>
    xarray_get_impl a 5 = Inr (map_of [(3 :: nat, 30 :: u64), (5, 50)] 5)"
  by (rule xarray_load_get) simp_all

text \<open>A key that is not above the last key is refused, and the array is left as it was.\<close>

theorem xarray_refuses_unsorted:
  assumes "xarray_inv a" and "xarray_map a \<noteq> Map.empty" and "k \<in> dom (xarray_map a) \<or> (\<exists>k'\<in>dom (xarray_map a). k < k')"
  shows "insert_w_index W a k v add_idx = Inr (False, a)"
proof -
  have ne: "xa_keys a \<noteq> []" using assms(2) by (auto simp: xarray_map_def)
  then have sz: "xsize a \<noteq> 0" using assms(1) by (metis length_xa(1) length_0_conv)
  have "k' \<le> last (xa_keys a)" if "k' \<in> set (xa_keys a)" for k'
    using that sorted_wrt_append [of "(<)" "butlast (xa_keys a)" "[last (xa_keys a)]"]
      xarray_invD(6) [OF assms(1)] ne by (cases "xa_keys a" rule: rev_cases) (auto simp: less_imp_le)
  then have "k \<le> last (xa_keys a)"
    using assms(3) unfolding dom_xarray_map [OF assms(1)] by (meson less_imp_le order_trans)
  with assms(1) sz show ?thesis by (rule insert_refused)
qed

definition sample_array :: "(nat, u64) xarray" where
  "sample_array = \<lparr>key_ptr = [Some 7, None], key_array_sz = 16, val_ptr = [Some (WrappedType 70), None],
     val_array_sz = 128, index = [7 \<mapsto> 0], xsize = 1\<rparr>"

lemma sample_array_inv: "xarray_inv sample_array" "dom (xarray_map sample_array) = {7}"
  by (auto simp: sample_array_def xarray_inv_def xarray_map_def xa_keys_def xa_vals_def split: if_splits)

theorem xarray_refuses_unsorted_witness:
  "insert_w_index 64 sample_array 4 40 True = Inr (False, sample_array)"
proof (rule xarray_refuses_unsorted [OF sample_array_inv(1)])
  show "xarray_map sample_array \<noteq> Map.empty" using sample_array_inv(2) by force
  show "4 \<in> dom (xarray_map sample_array) \<or> (\<exists>k'\<in>dom (xarray_map sample_array). 4 < k')"
    by (simp only: sample_array_inv(2)) simp
qed

text \<open>\<^verbatim>\<open>seek\<close> of a key that the array does not hold does not end the iteration: the iterator
  stays where it was and goes on from there.\<close>

theorem array_seek_absent:
  assumes "xarray_inv a" and "k \<notin> dom (xarray_map a)"
  shows "array_seek a it k = it \<and> array_has_next a (array_seek a (array_begin it) k) = (xsize a \<noteq> 0)"
proof -
  have "index a k = None" using assms(2) xarray_map_pos [OF assms(1), of k] by (cases "index a k") auto
  then show ?thesis by (simp add: array_seek_def pos_def array_has_next_def array_begin_def)
qed

theorem array_seek_absent_witness:
  "array_seek sample_array ArrayIter 9 = ArrayIter \<and>
    array_has_next sample_array (array_seek sample_array (array_begin ArrayIter) 9) = (xsize sample_array \<noteq> 0)"
  by (rule array_seek_absent [OF sample_array_inv(1)]) (simp only: sample_array_inv(2), simp)

text \<open>The check against the key memory counts 8 bytes for a key of any type: with 16-byte keys,
  and value memory left, the array accepts one key more than its key memory holds and writes
  behind it.\<close>

theorem xarray_wide_key_overflow:
  assumes "xarray_inv a" and "key_array_sz a = 16 * xsize a" and "length (key_ptr a) = key_array_sz a div 16"
    and "0 < xsize a" and "(xsize a + 1) * W \<le> val_array_sz a" and "\<forall>k'\<in>dom (xarray_map a). k' < k"
  shows "insert_w_index W a k v add_idx = Inl OutOfRange"
proof -
  have "xa_keys a ! (xsize a - 1) \<in> dom (xarray_map a)"
    using assms(1,4) by (simp add: dom_xarray_map)
  then have "(k \<le> xa_keys a ! (xsize a - 1)) = False" using assms(6) by (meson leD)
  then show ?thesis
    using assms(2-5) keys_at_in(1) [OF assms(1), of "xsize a - 1"] by (simp add: insert_w_index_def)
qed

definition wide_array :: "(nat, u64) xarray" where
  "wide_array = \<lparr>key_ptr = [Some 7], key_array_sz = 16, val_ptr = [Some (WrappedType 70), None],
     val_array_sz = 128, index = [7 \<mapsto> 0], xsize = 1\<rparr>"

lemma wide_array_inv: "xarray_inv wide_array" "dom (xarray_map wide_array) = {7}"
  by (auto simp: wide_array_def xarray_inv_def xarray_map_def xa_keys_def xa_vals_def split: if_splits)

theorem xarray_wide_key_overflow_witness:
  "insert_w_index 64 wide_array 9 90 True = Inl OutOfRange"
  by (rule xarray_wide_key_overflow [OF wide_array_inv(1)])
    (simp_all only: wide_array_inv(2), simp_all add: wide_array_def)

end
