(* ===== verification/RMIArray.thy ===== *)
theory RMIArray
  imports LinearFit XArray XKeys
begin

text \<open>
  The learned index over a sorted array (\<^verbatim>\<open>xkv_core/src/xarray.hh\<close>, \<^verbatim>\<open>xarray_iter.hh\<close>): the operations
  of the array's iterator are an instance of the interfaces the training code relies on, and so
  the position of every key of the array is in the range that the trained index predicts.
\<close>

definition array_ops :: "('k::linorder, 'v) xarray \<Rightarrow> (array_iter, 'k) key_iter_ops" where
  "array_ops a = \<lparr>from_impl = Inr ArrayIter, begin_impl = (\<lambda>it. Inr (array_begin it)),
     seek_impl = (\<lambda>it k. Inr (array_seek a it k)), next_impl = (\<lambda>it. Inr (array_next it)),
     has_next_impl = array_has_next a, cur_key_impl = array_cur_key a,
     opaque_val_impl = (\<lambda>it. Inr (array_opaque_val it))\<rparr>"

text \<open>An array whose positions fit in the error bounds.\<close>

typedef (overloaded) ('k::linorder, 'v) small_array =
  "{a :: ('k, 'v) xarray. xarray_inv a \<and> xsize a < 2 ^ 30}"
proof -
  have "xarray_inv (XArray_max 8 8 0 :: ('k, 'v) xarray) \<and> xsize (XArray_max 8 8 0 :: ('k, 'v) xarray) < 2 ^ 30"
    by (simp add: xarray_inv_def XArray_max_def XArray_def xa_keys_def)
  then show ?thesis by blast
qed

definition array_pairs :: "('k::linorder, 'v) xarray \<Rightarrow> ('k \<times> u64) list" where
  "array_pairs a = zip (xa_keys a) (map of_nat [0..<xsize a])"

definition array_pairs_from :: "('k::linorder, 'v) xarray \<Rightarrow> 'k \<Rightarrow> ('k \<times> u64) list" where
  "array_pairs_from a k = (case pos a k of Some p \<Rightarrow> drop p (array_pairs a) | None \<Rightarrow> array_pairs a)"

definition array_label :: "('k::linorder, 'v) xarray \<Rightarrow> 'k \<Rightarrow> u64" where
  "array_label a k = (case pos a k of Some p \<Rightarrow> of_nat p | None \<Rightarrow> 0)"

lemma of_nat_sorted:
  assumes "n < 2 ^ 30"
  shows "sorted_wrt (<) (map (of_nat :: nat \<Rightarrow> u64) [0..<n])"
proof -
  have "unat (of_nat i :: u64) = i" if "i < n" for i
    using that assms by (simp add: unat_of_nat take_bit_nat_eq_self)
  then show ?thesis by (simp add: sorted_wrt_iff_nth_less word_less_nat_alt)
qed

lemma array_pairs_drop:
  assumes "i < xsize a" and "xarray_inv a"
  shows "map fst (drop i (array_pairs a)) = drop i (xa_keys a)"
    and "map snd (drop i (array_pairs a)) = drop i (map of_nat [0..<xsize a])"
  using assms by (simp_all add: array_pairs_def drop_map [symmetric])

lemma array_pairs_mem:
  assumes "xarray_inv a"
  shows "p \<in> set (drop j (array_pairs a)) \<longleftrightarrow> (\<exists>i. j \<le> i \<and> i < xsize a \<and> p = (xa_keys a ! i, of_nat i))"
proof -
  have l: "length (array_pairs a) = xsize a" using assms by (simp add: array_pairs_def)
  have nth: "array_pairs a ! i = (xa_keys a ! i, of_nat i)" if "i < xsize a" for i
    using that assms by (simp add: array_pairs_def)
  show ?thesis
  proof
    assume "p \<in> set (drop j (array_pairs a))"
    then obtain d where "d < xsize a - j" "p = drop j (array_pairs a) ! d"
      by (auto simp: in_set_conv_nth l)
    then show "\<exists>i. j \<le> i \<and> i < xsize a \<and> p = (xa_keys a ! i, of_nat i)"
      by (intro exI [of _ "j + d"]) (simp add: nth l)
  next
    assume "\<exists>i. j \<le> i \<and> i < xsize a \<and> p = (xa_keys a ! i, of_nat i)"
    then obtain i where i: "j \<le> i" "i < xsize a" "p = (xa_keys a ! i, of_nat i)" by blast
    then have "drop j (array_pairs a) ! (i - j) = p" by (simp add: nth l)
    then show "p \<in> set (drop j (array_pairs a))" using i l
      by (metis diff_less_mono length_drop nth_mem)
  qed
qed

lemma array_index:
  "xarray_inv a \<Longrightarrow> i < xsize a \<Longrightarrow> pos a (xa_keys a ! i) = Some i"
  by (simp add: xarray_inv_def pos_def)

lemma array_keys_mono:
  assumes "xarray_inv a" and "i < xsize a" and "j < xsize a" and "xa_keys a ! i \<le> xa_keys a ! j"
  shows "i \<le> j"
proof (rule ccontr)
  assume "\<not> i \<le> j"
  then have "xa_keys a ! j < xa_keys a ! i"
    using assms by (intro sorted_wrt_nth_less [of "(<)"]) (auto simp: xarray_inv_def)
  then show False using assms(4) by simp
qed

lemma array_keys_mem: "xarray_inv a \<Longrightarrow> k \<in> set (map fst (array_pairs a)) \<longleftrightarrow> (\<exists>i<xsize a. k = xa_keys a ! i)"
  by (auto simp: array_pairs_def in_set_conv_nth)

text \<open>The pairs from one key of the array to another are a slice of it.\<close>

lemma array_window:
  assumes inv: "xarray_inv a" and ij: "i \<le> j" and j: "j < xsize a"
  shows "takeWhile (\<lambda>p. fst p \<le> xa_keys a ! j) (array_pairs_from a (xa_keys a ! i)) =
    map (\<lambda>l. (xa_keys a ! l, of_nat l)) [i..<Suc j]"
proof -
  let ?f = "\<lambda>l. (xa_keys a ! l, of_nat l :: u64)"
  have len: "length (xa_keys a) = xsize a" using inv by (simp add: xarray_inv_def)
  have lt: "xa_keys a ! l < xa_keys a ! l'" if "l < l'" "l' < xsize a" for l l'
    using that inv by (intro sorted_wrt_nth_less [of "(<)"]) (auto simp: xarray_inv_def)
  have "array_pairs_from a (xa_keys a ! i) = drop i (array_pairs a)"
    using array_index [OF inv, of i] ij j by (simp add: array_pairs_from_def)
  also have "\<dots> = map ?f [i..<xsize a]" by (rule nth_equalityI) (simp_all add: array_pairs_def len)
  also have "\<dots> = map ?f [i..<Suc j] @ map ?f [Suc j..<xsize a]"
    unfolding map_append [symmetric] using upt_add_eq_append [of i "Suc j" "xsize a - Suc j"] ij j by simp
  finally have "takeWhile (\<lambda>p. fst p \<le> xa_keys a ! j) (array_pairs_from a (xa_keys a ! i)) =
      map ?f [i..<Suc j] @ takeWhile (\<lambda>p. fst p \<le> xa_keys a ! j) (map ?f [Suc j..<xsize a])"
    using lt j ij by (subst takeWhile_append2 [symmetric]) (auto simp: less_Suc_eq intro: less_imp_le)
  moreover have "takeWhile (\<lambda>p. fst p \<le> xa_keys a ! j) (map ?f [Suc j..<xsize a]) = []"
    using lt [of j "Suc j"] by (cases "Suc j < xsize a") (auto simp: upt_conv_Cons not_le)
  ultimately show ?thesis by simp
qed

interpretation array_rmi: rmi_training "array_ops (Rep_small_array A)" "array_rep (Rep_small_array A)"
  "array_pairs (Rep_small_array A)" "\<lambda>it k. k \<in> set (xa_keys (Rep_small_array A))"
  "array_pairs_from (Rep_small_array A)" default_update_func "\<lambda>x. x" "array_label (Rep_small_array A)"
  for A :: "('k::{linorder,order_bot,order_top}, 'v) small_array"
proof -
  let ?a = "Rep_small_array A"
  have inv: "xarray_inv ?a" and small: "xsize ?a < 2 ^ 30" using Rep_small_array [of A] by simp_all
  note ops = array_ops_def key_iter_ops.simps
  have keys: "set (xa_keys ?a) = set (map fst (array_pairs ?a))" using inv by (simp add: array_pairs_def)
  have from_at: "array_pairs_from ?a (xa_keys ?a ! i) = drop i (array_pairs ?a)" if "i < xsize ?a" for i
    using array_index [OF inv that] by (simp add: array_pairs_from_def)
  show "rmi_training (array_ops ?a) (array_rep ?a) (array_pairs ?a) (\<lambda>it k. k \<in> set (xa_keys ?a))
    (array_pairs_from ?a) default_update_func (\<lambda>x. x) (array_label ?a)"
  proof (unfold_locales, unfold ops keys array_keys_mem [OF inv])
    fix it k assume "\<exists>i<xsize ?a. k = xa_keys ?a ! i"
    then obtain i where i: "i < xsize ?a" "k = xa_keys ?a ! i" by blast
    note d = array_pairs_drop [OF i(1) inv]
    show "\<exists>it'. Inr (array_seek ?a it k) = Inr it' \<and> array_rep ?a it' (array_pairs_from ?a k)"
      using array_index [OF inv i(1)] inv
      by (simp add: i(2) from_at [OF i(1)] array_seek_def array_rep_def array_pairs_def)
    show "sorted_wrt (<) (map fst (array_pairs_from ?a k)) \<and> sorted_wrt (<) (map snd (array_pairs_from ?a k))"
      unfolding i(2) from_at [OF i(1)] d
      using inv of_nat_sorted [OF small] by (simp add: xarray_inv_def sorted_wrt_drop)
    fix p assume p: "p \<in> set (array_pairs_from ?a k)"
    show "unat (snd p) < 2 ^ 30"
      using p small unfolding i(2) from_at [OF i(1)] array_pairs_mem [OF inv]
      by (auto simp: unat_of_nat take_bit_nat_eq_self)
  next
    fix k k' assume "\<exists>i<xsize ?a. k = xa_keys ?a ! i" "\<exists>i<xsize ?a. k' = xa_keys ?a ! i" "k \<le> k'"
    then obtain i j where i: "i < xsize ?a" "k = xa_keys ?a ! i" and j: "j < xsize ?a" "k' = xa_keys ?a ! j"
      and le: "xa_keys ?a ! i \<le> xa_keys ?a ! j" by blast
    have "i \<le> j" using array_keys_mono [OF inv i(1) j(1) le] .
    then show "(k', array_label ?a k') \<in> set (array_pairs_from ?a k)"
      unfolding i(2) from_at [OF i(1)] array_pairs_mem [OF inv]
      using j array_index [OF inv j(1)] by (auto simp: array_label_def)
  next
    fix k assume "\<exists>i<xsize ?a. k = xa_keys ?a ! i"
    then show "length (array_pairs_from ?a k) \<le> length (array_pairs ?a)" using from_at by auto
  qed (use arr_it.has_next_rep arr_it.cur_rep arr_it.opaque_rep arr_it.next_rep array_rep_begin [OF inv] in
      \<open>auto simp: array_pairs_def default_feed default_finalize_def\<close>)
qed

section \<open>Properties\<close>

text \<open>The linear model with a least-squares solver fits every slice of an array of up to \<open>2 ^ 20\<close> keys.\<close>

lemma array_slice_lr:
  assumes "\<And>rows. 2 \<le> length rows \<Longrightarrow> least_squares dval dgels rows" and "dval 0 = 0" and "xsize a \<le> 2 ^ 20" and "j < xsize a"
  shows "fits (lr_ops dgels dval (\<lambda>x. x) to_scalar feature0) (map (\<lambda>l. (xa_keys a ! l, of_nat l)) [i..<Suc j])"
proof (rule lr_fits)
  show "\<forall>p\<in>set (map (\<lambda>l. (xa_keys a ! l, of_nat l :: u64)) [i..<Suc j]). unat (snd p) < 2 ^ 20"
    using assms(3,4) by (auto simp: unat_of_nat take_bit_nat_eq_self)
qed (use assms in \<open>auto simp: fit_rows_def\<close>)

text \<open>C17: the learned index trained over a sorted array with the default update function predicts, for
  every key of the array, a range that contains the position of the key, whatever the first layer
  has learned, when the learner of the submodels fits the slices of the array: trained on a slice and
  its positions, it returns a model that predicts an \<^verbatim>\<open>int\<close> for each key of the slice. There is at least
  one submodel.\<close>

theorem rmi_array_covers:
  fixes a :: "('k::{linorder,order_bot,order_top}, 'v) xarray" and r :: "('m, 's, 'w::len word) two_rmi"
  assumes a: "xarray_inv a" "xsize a < 2 ^ 30" "xsize a < n" and rnd: "rounding rnd"
    and dn: "0 < dispatch_num (first_layer r)" "unat (dispatch_num (first_layer r)) \<le> 2 ^ 53"
    and sz: "0 < length (second_layer r)" "length (second_layer r) \<le> 2 ^ LENGTH('w)"
    and M2: "\<And>i j. i \<le> j \<Longrightarrow> j < xsize a \<Longrightarrow> fits M2 (map (\<lambda>l. (xa_keys a ! l, of_nat l)) [i..<Suc j])"
  shows "\<exists>r'. train_second_models rnd M M2 (array_ops a) default_sample default_update_func n r () =
      Some (Inr (r', ())) \<and>
    (\<forall>i<xsize a. \<exists>lo hi. rmi_predict_range rnd M M2 r' (xa_keys a ! i) = Inr (lo, hi) \<and>
       0 \<le> lo \<and> lo \<le> int i \<and> int i \<le> hi)"
proof -
  let ?A = "Abs_small_array a"
  have A: "Rep_small_array ?A = a" using a by (simp add: Abs_small_array_inverse)
  have n: "length (array_pairs a) < n" using a by (simp add: array_pairs_def)
  have slices: "fits M2 (takeWhile (\<lambda>p. fst p \<le> k') (array_pairs_from a k))"
    if k: "k \<in> set (map fst (array_pairs a))" "k' \<in> set (map fst (array_pairs a))" "k \<le> k'" for k k'
  proof -
    obtain i j where i: "i < xsize a" "k = xa_keys a ! i" and j: "j < xsize a" "k' = xa_keys a ! j"
      using k(1,2) unfolding array_keys_mem [OF a(1)] by blast
    have "i \<le> j" by (rule array_keys_mono [OF a(1) i(1) j(1)]) (use k(3) i j in simp)
    then show ?thesis unfolding i(2) j(2) array_window [OF a(1) \<open>i \<le> j\<close> j(1)] by (rule M2 [OF _ j(1)])
  qed
  obtain r' where r': "train_second_models rnd M M2 (array_ops a) default_sample default_update_func n r () =
      Some (Inr (r', ()))"
    "\<forall>k\<in>set (map fst (array_pairs a)). \<exists>lo hi. rmi_predict_range rnd M M2 r' k = Inr (lo, hi) \<and> 0 \<le> lo \<and>
       lo \<le> uint (array_label a k) \<and> uint (array_label a k) \<le> hi"
    using array_rmi.second_layer_ok [of rnd r ?A n M2 M, unfolded A, OF rnd dn sz n slices]
    unfolding default_eb.covers_def by blast
  have "uint (array_label a (xa_keys a ! i)) = int i" "xa_keys a ! i \<in> set (map fst (array_pairs a))"
    if "i < xsize a" for i
    using array_index [OF a(1) that] array_keys_mem [OF a(1)] that a(2)
    by (auto simp: array_label_def unsigned_of_nat take_bit_nat_eq_self)
  then show ?thesis using r' by metis
qed

definition sample_keys :: "(xkey, u64) xarray" where
  "sample_keys = \<lparr>key_ptr = [Some (XKey 2), Some (XKey 9)], key_array_sz = 16,
     val_ptr = [Some (WrappedType 20), Some (WrappedType 90)], val_array_sz = 128,
     index = [XKey 2 \<mapsto> 0, XKey 9 \<mapsto> 1], xsize = 2\<rparr>"

lemma sample_keys_inv: "xarray_inv sample_keys"
proof -
  have two: "x < 2 \<longleftrightarrow> x = 0 \<or> x = 1" for x :: nat by arith
  have "(([XKey 2 \<mapsto> 0, XKey 9 \<mapsto> 1]) k = Some i) = (i < 2 \<and> [XKey 2, XKey 9] ! i = k)" for k and i :: nat
    unfolding two by (cases "i = 0"; cases "i = 1"; cases "k = XKey 2") auto
  then show ?thesis
    by (simp add: sample_keys_def xarray_inv_def xa_keys_def xkey_defs two)
qed

definition sample_rmi :: "(lr, lr, 32 word) two_rmi" where
  "sample_rmi = \<lparr>first_layer = \<lparr>dmodel = \<lparr>lr_w = fixed (1 / 4), lr_b = fixed 0\<rparr>, dispatch_num = 2, up_bound = 10\<rparr>, second_layer = [None, None]\<rparr>"

theorem rmi_array_covers_witness:
  "\<exists>r'. train_second_models (\<lambda>x. x) ols_lr ols_lr (array_ops sample_keys) default_sample default_update_func
      5 sample_rmi () = Some (Inr (r', ())) \<and>
    (\<forall>i<xsize sample_keys. \<exists>lo hi. rmi_predict_range (\<lambda>x. x) ols_lr ols_lr r' (xa_keys sample_keys ! i) =
       Inr (lo, hi) \<and> 0 \<le> lo \<and> lo \<le> int i \<and> int i \<le> hi)"
proof (rule rmi_array_covers [OF sample_keys_inv _ _ rounding_id])
  fix i j assume ij: "i \<le> j" "j < xsize sample_keys"
  then consider "i = 0 \<and> j = 0" | "i = 0 \<and> j = 1" | "i = 1 \<and> j = 1" by (fastforce simp: sample_keys_def)
  then show "fits ols_lr (map (\<lambda>l. (xa_keys sample_keys ! l, of_nat l)) [i..<Suc j])"
    by cases (simp_all add: sample_keys_def xa_keys_def upt_rec [of 0] ols_lr_def fits_lr fit_rows_def ols_def fixed_def
        unfixed_def double_to_int_small)
qed (simp_all add: sample_rmi_def sample_keys_def)

end
