(* ===== verification/AtomicRW.thy ===== *)
theory AtomicRW
  imports WrappedType
begin

text \<open>
  Reading wrapped values (\<^verbatim>\<open>xcomm/src/atomic_rw\<close>): the copying operations on local memory
  (\<^verbatim>\<open>local_rw_op.hh\<close>), the wrapper for values of at most 8 bytes (\<^verbatim>\<open>unwrapper_type.hh\<close>), and the
  loop that reads until the value is consistent (\<^verbatim>\<open>mod.hh\<close>). The result of a read is \<open>True\<close> for
  \<^verbatim>\<open>Ok\<close> and \<open>False\<close> for \<^verbatim>\<open>Err\<close>.
\<close>

section \<open>Copies\<close>

text \<open>
  \<open>mem\<close> is what lies behind the source pointer, of which \<open>src_sz\<close> bytes belong to the block; the copy
  takes the size of the destination.
\<close>

definition local_read :: "u8 list \<Rightarrow> nat \<Rightarrow> u8 list \<Rightarrow> (bool \<times> u8 list) res" where
  "local_read mem src_sz dest =
     (if src_sz > length dest then Inr (False, dest)
      else if length mem < length dest then Inl OutOfRange
      else Inr (True, take (length dest) mem))"

text \<open>One 8-byte word after the other, from the first to the last.\<close>

function ordered_copy :: "u8 list \<Rightarrow> u8 list \<Rightarrow> nat \<Rightarrow> u8 list res" where
  "ordered_copy mem dest cur =
     (if cur < length dest then
        if length dest - cur < 8 then Inl AssertFail
        else if length mem < cur + 8 then Inl OutOfRange
        else ordered_copy mem (take cur dest @ take 8 (drop cur mem) @ drop (cur + 8) dest) (cur + 8)
      else Inr dest)"
  by pat_completeness auto
termination
  by (relation "measure (\<lambda>(mem, dest, cur). length dest - cur)") auto

declare ordered_copy.simps [simp del]

definition ordered_read :: "u8 list \<Rightarrow> u8 list \<Rightarrow> (bool \<times> u8 list) res" where
  "ordered_read mem dest = rbind (ordered_copy mem dest 0) (\<lambda>d. Inr (True, d))"

text \<open>\<^verbatim>\<open>write\<close> of the trait is \<^verbatim>\<open>read\<close> with the blocks exchanged.\<close>

definition rw_write :: "('b \<Rightarrow> 'b \<Rightarrow> 'r) \<Rightarrow> 'b \<Rightarrow> 'b \<Rightarrow> 'r" where
  "rw_write read src dest = read dest src"

text \<open>
  Over RDMA (\<^verbatim>\<open>rdma_rw_op.hh\<close>) the source is a remote address. \<open>post\<close> is \<^verbatim>\<open>op.execute\<close> of a read of
  as many bytes as the destination has, \<open>wait\<close> is \<^verbatim>\<open>wait_one_comp\<close>, after which the destination holds
  what the card has delivered; the asynchronous variant (\<^verbatim>\<open>rdma_async_rw_op.hh\<close>) has both in one call. The
  asynchronous local read (\<^verbatim>\<open>local_async_rw_op.hh\<close>) is the local read.
\<close>

definition rdma_read :: "(addr \<Rightarrow> nat \<Rightarrow> 'w \<Rightarrow> bool \<times> 'w) \<Rightarrow> (u8 list \<Rightarrow> 'w \<Rightarrow> bool \<times> u8 list \<times> 'w)
    \<Rightarrow> addr \<Rightarrow> nat \<Rightarrow> u8 list \<Rightarrow> 'w \<Rightarrow> bool \<times> u8 list \<times> 'w" where
  "rdma_read post wait src src_sz dest w =
     (if src_sz > length dest then (False, dest, w)
      else let (ok, w1) = post src (length dest) w in if \<not> ok then (False, dest, w1) else wait dest w1)"

definition rdma_async_read :: "(addr \<Rightarrow> u8 list \<Rightarrow> 'w \<Rightarrow> bool \<times> u8 list \<times> 'w)
    \<Rightarrow> addr \<Rightarrow> nat \<Rightarrow> u8 list \<Rightarrow> 'w \<Rightarrow> bool \<times> u8 list \<times> 'w" where
  "rdma_async_read execute_async src src_sz dest w =
     (if src_sz > length dest then (False, dest, w) else execute_async src dest w)"

definition async_local_read :: "u8 list \<Rightarrow> nat \<Rightarrow> u8 list \<Rightarrow> (bool \<times> u8 list) res" where
  "async_local_read mem src_sz dest = local_read mem src_sz dest"

text \<open>A card that reads memory: it delivers what the local read of the same memory copies.\<close>

lemma rdma_read_local:
  assumes "\<And>n w. post src n w = (True, n # w)" and "\<And>d n w. wait d (n # w) = (True, take n (mem src), w)"
    and "length dest \<le> length (mem src)"
  shows "local_read (mem src) src_sz dest = Inr (fst (rdma_read post wait src src_sz dest w), fst (snd (rdma_read post wait src src_sz dest w)))"
  using assms by (simp add: local_read_def rdma_read_def)

section \<open>The wrapper without sequence numbers\<close>

record 'v uwrapped_type =
  upayload :: 'v

definition UWrappedType :: "'v \<Rightarrow> 'v uwrapped_type" where
  "UWrappedType p = \<lparr>upayload = p\<rparr>"

definition uw_init :: "'v uwrapped_type \<Rightarrow> 'v uwrapped_type" where
  "uw_init w = w"

definition uw_reset :: "'v uwrapped_type \<Rightarrow> 'v \<Rightarrow> 'v uwrapped_type" where
  "uw_reset w t = (uw_init w)\<lparr>upayload := t\<rparr>"

definition uw_get_payload :: "'v uwrapped_type \<Rightarrow> 'v" where
  "uw_get_payload w = upayload w"

definition uw_meta_sz :: nat where
  "uw_meta_sz = 0"

definition uw_consistent :: "'v uwrapped_type \<Rightarrow> bool" where
  "uw_consistent w = True"

definition uw_begin_write :: "'v uwrapped_type \<Rightarrow> 'v uwrapped_type" where
  "uw_begin_write w = w"

definition uw_done_write :: "'v uwrapped_type \<Rightarrow> 'v uwrapped_type" where
  "uw_done_write w = w"

section \<open>Reading until consistent\<close>

text \<open>
  \<open>op_read\<close> is one execution of \<^verbatim>\<open>op.read(src, dest)\<close> on the state of the world: the result, the value
  in the destination, and the next state. The retry counter is set to 0 behind the label \<^verbatim>\<open>retry\<close>.
  The loop may run for ever.
\<close>

partial_function (option) atomic_retry :: "('w \<Rightarrow> bool \<times> 'v wrapped_type \<times> 'w) \<Rightarrow> nat \<Rightarrow> 'w
    \<Rightarrow> (bool \<times> 'v wrapped_type \<times> nat \<times> 'w) res option" where
  "atomic_retry op_read retry_cnt w =
     (let retry_cnt0 = 0; (ok, v, w') = op_read w in
      if \<not> ok then Some (Inr (False, v, retry_cnt0, w'))
      else if \<not> consistent v then
        let retry_cnt1 = retry_cnt0 + 1 in
        if retry_cnt1 > 1000000 then Some (Inl AssertFail) else atomic_retry op_read retry_cnt1 w'
      else Some (Inr (True, v, retry_cnt0, w')))"

definition atomic_read :: "nat \<Rightarrow> nat \<Rightarrow> ('w \<Rightarrow> bool \<times> 'v wrapped_type \<times> 'w) \<Rightarrow> nat \<Rightarrow> 'w
    \<Rightarrow> (bool \<times> 'v wrapped_type \<times> nat \<times> 'w) res option" where
  "atomic_read sizeof_W dest_sz op_read retry_cnt w =
     (if dest_sz < sizeof_W then Some (Inl AssertFail) else atomic_retry op_read retry_cnt w)"

section \<open>Lemmas\<close>

lemma ordered_copy_ok:
  assumes "8 dvd length dest - cur" and "cur \<le> length dest" and "length dest \<le> length mem"
  shows "ordered_copy mem dest cur = Inr (take cur dest @ take (length dest - cur) (drop cur mem))"
  using assms
proof (induction mem dest cur rule: ordered_copy.induct)
  case (1 mem dest cur)
  show ?case
  proof (cases "cur < length dest")
    case True
    then have c: "cur + 8 \<le> length dest" "8 \<le> length dest - cur" using 1(2) by (auto dest: dvd_imp_le)
    let ?d = "take cur dest @ take 8 (drop cur mem) @ drop (cur + 8) dest"
    have len: "length ?d = length dest" using c 1(4) by simp
    have "8 dvd length dest - (cur + 8)" using 1(2) c by (metis dvd_diff_nat dvd_refl diff_diff_left)
    have step: "ordered_copy mem dest cur = ordered_copy mem ?d (cur + 8)"
      by (subst ordered_copy.simps) (use True c 1(4) in simp)
    have "\<not> length dest - cur < 8" "\<not> length mem < cur + 8" using c 1(4) by simp_all
    note ih = 1(1) [OF True this, unfolded len, OF \<open>8 dvd length dest - (cur + 8)\<close> c(1) 1(4)]
    have "take (cur + 8) ?d = take cur dest @ take 8 (drop cur mem)" using c 1(4) by simp
    moreover have "take 8 (drop cur mem) @ take (length dest - (cur + 8)) (drop (cur + 8) mem) =
        take (length dest - cur) (drop cur mem)"
    proof -
      have "length dest - cur = 8 + (length dest - (cur + 8))" using c by simp
      then have "take (length dest - cur) (drop cur mem) =
          take (8 + (length dest - (cur + 8))) (drop cur mem)" by (rule arg_cong)
      also have "\<dots> = take 8 (drop cur mem) @ take (length dest - (cur + 8)) (drop 8 (drop cur mem))"
        by (rule take_add)
      finally show ?thesis by (simp add: add.commute)
    qed
    ultimately show ?thesis unfolding step ih by (simp only: append_assoc)
  next
    case False
    then show ?thesis using 1(3) by (subst ordered_copy.simps) simp
  qed
qed

text \<open>The states a sequence of reads goes through.\<close>

fun read_state :: "('w \<Rightarrow> bool \<times> 'v wrapped_type \<times> 'w) \<Rightarrow> nat \<Rightarrow> 'w \<Rightarrow> 'w" where
  "read_state op_read 0 w = w"
| "read_state op_read (Suc n) w = read_state op_read n (snd (snd (op_read w)))"

definition torn :: "bool \<times> 'v wrapped_type \<times> 'w \<Rightarrow> bool" where
  "torn r \<longleftrightarrow> fst r \<and> \<not> consistent (fst (snd r))"

lemma atomic_retry_torn: "torn (op_read w) \<Longrightarrow> atomic_retry op_read c w = atomic_retry op_read 1 (snd (snd (op_read w)))"
  by (subst atomic_retry.simps) (auto simp: torn_def split: prod.split)

lemma atomic_retry_done:
  "\<not> torn (op_read w) \<Longrightarrow> atomic_retry op_read c w =
    Some (Inr (fst (op_read w), fst (snd (op_read w)), 0, snd (snd (op_read w))))"
  by (subst atomic_retry.simps) (auto simp: torn_def split: prod.split)

lemma atomic_retry_runs:
  assumes "\<forall>i<n. torn (op_read (read_state op_read i w))"
  shows "\<exists>c'. atomic_retry op_read c w = atomic_retry op_read c' (read_state op_read n w)"
  using assms
proof (induction n arbitrary: c w)
  case (Suc n)
  have "torn (op_read w)" using Suc.prems by force
  then have "atomic_retry op_read c w = atomic_retry op_read 1 (snd (snd (op_read w)))" by (rule atomic_retry_torn)
  moreover have "\<forall>i<n. torn (op_read (read_state op_read i (snd (snd (op_read w)))))"
  proof safe
    fix i assume "i < n"
    then show "torn (op_read (read_state op_read i (snd (snd (op_read w)))))" using Suc.prems [rule_format, of "Suc i"] by simp
  qed
  ultimately show ?case using Suc.IH by auto
qed auto

section \<open>Properties\<close>

text \<open>\<^verbatim>\<open>atomic_read\<close> returns the first value that is consistent, after any number of torn reads:
  the check against a million retries never fires, because the counter starts again with every
  retry, and for the same reason the reported number of retries is 0.\<close>

theorem atomic_read_first_consistent:
  assumes "sizeof_W \<le> dest_sz" and "\<forall>i<n. torn (op_read (read_state op_read i w))"
    and "op_read (read_state op_read n w) = (True, v, w')" and "consistent v"
  shows "atomic_read sizeof_W dest_sz op_read c w = Some (Inr (True, v, 0, w'))"
proof -
  obtain c' where "atomic_retry op_read c w = atomic_retry op_read c' (read_state op_read n w)"
    using atomic_retry_runs [OF assms(2)] by blast
  moreover have "\<not> torn (op_read (read_state op_read n w))" using assms(3,4) by (simp add: torn_def)
  ultimately show ?thesis using atomic_retry_done [of op_read "read_state op_read n w" c'] assms(1,3)
    by (simp add: atomic_read_def)
qed

definition sample_reads :: "nat \<Rightarrow> bool \<times> nat wrapped_type \<times> nat" where
  "sample_reads k = (if k < 2000000 then (True, snd (begin_write (WrappedType 5)), Suc k) else (True, WrappedType 6, k))"

lemma sample_read_state: "i + k \<le> 2000000 \<Longrightarrow> read_state sample_reads i k = i + k"
  by (induction i arbitrary: k) (simp_all add: sample_reads_def)

theorem atomic_read_first_consistent_witness:
  "atomic_read 64 64 sample_reads 0 0 = Some (Inr (True, WrappedType 6, 0, 2000000))"
proof (rule atomic_read_first_consistent [where n = 2000000])
  show "\<forall>i<2000000. torn (sample_reads (read_state sample_reads i 0))"
    using sample_read_state [where k = 0] by (simp add: sample_reads_def torn_def begin_write_inconsistent)
  show "sample_reads (read_state sample_reads 2000000 0) = (True, WrappedType 6, 2000000)"
    using sample_read_state [where k = 0 and i = 2000000] by (simp add: sample_reads_def)
qed (simp_all add: consistent_def WrappedType_def wt_init_def kInvalidSeq_def)

text \<open>C23: a value that never becomes consistent makes \<^verbatim>\<open>atomic_read\<close> run for ever.\<close>

theorem atomic_read_diverges:
  fixes op_read :: "'w \<Rightarrow> bool \<times> 'v wrapped_type \<times> 'w"
  assumes "\<forall>i. torn (op_read (read_state op_read i w))" and "sizeof_W \<le> dest_sz"
  shows "atomic_read sizeof_W dest_sz op_read c w = None"
proof -
  have "\<not> (\<forall>i. torn (op_read (read_state op_read i w)))" if "atomic_retry op_read c w = Some y" for y
    using that
  proof (rule atomic_retry.raw_induct [rotated, where P = "\<lambda>op_read c w y. \<not> (\<forall>i. torn (op_read (read_state op_read i w)))"])
    fix retry :: "('w \<Rightarrow> bool \<times> 'v wrapped_type \<times> 'w) \<Rightarrow> nat \<Rightarrow> 'w \<Rightarrow> (bool \<times> 'v wrapped_type \<times> nat \<times> 'w) res option"
      and op_read c w y
    assume ih: "\<And>op_read c w y. retry op_read c w = Some y \<Longrightarrow> \<not> (\<forall>i. torn (op_read (read_state op_read i w)))"
      and run: "(let retry_cnt0 = 0; (ok, v, w') = op_read w in
        if \<not> ok then Some (Inr (False, v, retry_cnt0, w'))
        else if \<not> consistent v then
          let retry_cnt1 = retry_cnt0 + 1 in
          if retry_cnt1 > 1000000 then Some (Inl AssertFail) else retry op_read retry_cnt1 w'
        else Some (Inr (True, v, retry_cnt0, w'))) = Some y"
    show "\<not> (\<forall>i. torn (op_read (read_state op_read i w)))"
    proof
      assume t: "\<forall>i. torn (op_read (read_state op_read i w))"
      have t0: "torn (op_read w)" using t [rule_format, of 0] by simp
      have "\<forall>i. torn (op_read (read_state op_read i (snd (snd (op_read w)))))"
      proof
        fix i show "torn (op_read (read_state op_read i (snd (snd (op_read w)))))"
          using t [rule_format, of "Suc i"] by simp
      qed
      moreover have "retry op_read 1 (snd (snd (op_read w))) = Some y"
        using run t0 by (auto simp: torn_def split: prod.splits if_splits)
      ultimately show False using ih by blast
    qed
  qed
  then show ?thesis using assms by (cases "atomic_retry op_read c w") (simp_all add: atomic_read_def)
qed

definition stuck_reads :: "nat \<Rightarrow> bool \<times> nat wrapped_type \<times> nat" where
  "stuck_reads k = (True, snd (begin_write (WrappedType 5)), k)"

theorem atomic_read_diverges_witness: "atomic_read 64 64 stuck_reads 0 0 = None"
proof (rule atomic_read_diverges)
  show "\<forall>i. torn (stuck_reads (read_state stuck_reads i 0))"
    by (simp add: stuck_reads_def torn_def begin_write_inconsistent)
qed simp


end
