(* ===== verification/SeqLock.thy ===== *)
theory SeqLock
  imports AtomicRW
begin

text \<open>
  The update protocol of \<^verbatim>\<open>WrappedType\<close> (\<^verbatim>\<open>xcomm/src/atomic_rw/wrapper_type.hh\<close>) under concurrency:
  one writer that performs \<^verbatim>\<open>begin_write\<close>, stores the words of the payload and performs
  \<^verbatim>\<open>done_write\<close>, and one reader that copies the object from its first word to its last, as
  \<^verbatim>\<open>OrderedRWOp\<close> does, interleaved store by store and load by load. The steps act on a sequentially
  consistent memory. The reader's copy is finer than the code's, which takes 8 bytes at a time.
\<close>

section \<open>The machine\<close>

text \<open>The writer between the stores of \<^verbatim>\<open>begin_write\<close>, of the payload and of \<^verbatim>\<open>done_write\<close>; it keeps the sequence number.\<close>

datatype wpc = WIdle | WBegun u32 | WPay u32 "u64 list" nat | WSeq u32

datatype rpc = RIdle | RPay u32 "u64 list" | RDone u32 "u64 list" u32

text \<open>\<open>ver\<close> counts the finished updates from 1 on and \<open>hist\<close> holds the payloads they published.\<close>

record slock =
  mem :: "u64 list wrapped_type"
  wpc :: wpc
  rpc :: rpc
  ver :: nat
  hist :: "u64 list list"

inductive sl_step :: "slock \<Rightarrow> slock \<Rightarrow> bool" where
  begin_check: "wpc s = WIdle \<Longrightarrow>
    sl_step s (s\<lparr>wpc := WBegun (seq_check (mem s)), mem := (mem s)\<lparr>seq_check := kInvalidSeq\<rparr>\<rparr>)"
| begin_seq: "wpc s = WBegun q \<Longrightarrow> length p = length (payload (mem s)) \<Longrightarrow>
    sl_step s (s\<lparr>wpc := WPay q p 0, mem := (mem s)\<lparr>seq := kInvalidSeq\<rparr>\<rparr>)"
| write_word: "wpc s = WPay q p i \<Longrightarrow> i < length p \<Longrightarrow>
    sl_step s (s\<lparr>wpc := WPay q p (Suc i), mem := (mem s)\<lparr>payload := (payload (mem s))[i := p ! i]\<rparr>\<rparr>)"
| done_seq: "wpc s = WPay q p i \<Longrightarrow> i = length p \<Longrightarrow>
    sl_step s (s\<lparr>wpc := WSeq q, mem := (mem s)\<lparr>seq := q + 1\<rparr>\<rparr>)"
| done_check: "wpc s = WSeq q \<Longrightarrow>
    sl_step s (s\<lparr>wpc := WIdle, mem := (mem s)\<lparr>seq_check := seq (mem s)\<rparr>, ver := Suc (ver s),
      hist := hist s @ [payload (mem s)]\<rparr>)"
| read_seq: "sl_step s (s\<lparr>rpc := RPay (seq (mem s)) []\<rparr>)"
| read_word: "rpc s = RPay v b \<Longrightarrow> length b < length (payload (mem s)) \<Longrightarrow>
    sl_step s (s\<lparr>rpc := RPay v (b @ [payload (mem s) ! length b])\<rparr>)"
| read_check: "rpc s = RPay v b \<Longrightarrow> length b = length (payload (mem s)) \<Longrightarrow>
    sl_step s (s\<lparr>rpc := RDone v b (seq_check (mem s))\<rparr>)"

definition sl_init :: "u64 list \<Rightarrow> slock" where
  "sl_init p = \<lparr>mem = WrappedType p, wpc = WIdle, rpc = RIdle, ver = 1, hist = [p]\<rparr>"

inductive sl_reach :: "u64 list \<Rightarrow> slock \<Rightarrow> bool" where
  sl_reach_init: "sl_reach p (sl_init p)"
| sl_reach_step: "sl_reach p s \<Longrightarrow> sl_step s s' \<Longrightarrow> sl_reach p s'"

inductive_cases sl_stepE: "sl_step s s'"

text \<open>Without a reader in between, the writer's steps are \<^verbatim>\<open>begin_write\<close> and \<^verbatim>\<open>done_write\<close>.\<close>

lemma writer_steps:
  assumes "begin_write w = (q, w1)"
  shows "w1 = w\<lparr>seq_check := kInvalidSeq\<rparr>\<lparr>seq := kInvalidSeq\<rparr>" and "q = seq_check w"
    and "done_write w2 q = (let w3 = w2\<lparr>seq := q + 1\<rparr> in w3\<lparr>seq_check := seq w3\<rparr>)"
  using assms by (auto simp: begin_write_def done_write_def)

section \<open>The invariant\<close>

text \<open>The version a reader can still see: the last one, or the one just stored.\<close>

definition pub :: "slock \<Rightarrow> nat" where
  "pub s = (case wpc s of WSeq q \<Rightarrow> Suc (ver s) | _ \<Rightarrow> ver s)"

definition intact :: "slock \<Rightarrow> bool" where
  "intact s \<longleftrightarrow> (case wpc s of WPay q p i \<Rightarrow> False | _ \<Rightarrow> True)"

definition writer_inv :: "slock \<Rightarrow> bool" where
  "writer_inv s \<longleftrightarrow> ver s > 0 \<and> hist s \<noteq> [] \<and>
     (case wpc s of
        WIdle \<Rightarrow> seq (mem s) = of_nat (ver s) \<and> seq_check (mem s) = of_nat (ver s) \<and> payload (mem s) = last (hist s)
      | WBegun q \<Rightarrow> q = of_nat (ver s) \<and> seq (mem s) = of_nat (ver s) \<and> seq_check (mem s) = 0
      | WPay q p i \<Rightarrow> q = of_nat (ver s) \<and> seq (mem s) = 0 \<and> seq_check (mem s) = 0
      | WSeq q \<Rightarrow> q = of_nat (ver s) \<and> seq (mem s) = of_nat (Suc (ver s)) \<and> seq_check (mem s) = 0)"

definition reader_inv :: "slock \<Rightarrow> bool" where
  "reader_inv s \<longleftrightarrow>
     (case rpc s of
        RIdle \<Rightarrow> True
      | RPay v b \<Rightarrow> v \<noteq> 0 \<longrightarrow> (\<exists>k. v = of_nat k \<and> 0 < k \<and> k \<le> pub s \<and>
          (k = pub s \<and> intact s \<longrightarrow> b = take (length b) (payload (mem s))))
      | RDone v b c \<Rightarrow> v \<noteq> 0 \<and> v = c \<longrightarrow> b \<in> set (hist s))"

lemma writer_inv_rpc [simp]: "writer_inv (s\<lparr>rpc := r\<rparr>) = writer_inv s"
  by (cases "wpc s") (simp_all add: writer_inv_def)

lemma writer_inv_step:
  assumes "sl_step s s'" and "writer_inv s"
  shows "writer_inv s'"
  using assms(1)
proof (cases rule: sl_step.cases)
  case read_seq
  then show ?thesis using assms(2) by simp
next
  case (read_word v b)
  then show ?thesis using assms(2) by simp
next
  case (read_check v b)
  then show ?thesis using assms(2) by simp
qed (use assms(2) in \<open>simp_all add: writer_inv_def kInvalidSeq_def\<close>)

lemma pub_rpc [simp]: "pub (s\<lparr>rpc := r\<rparr>) = pub s" and intact_rpc [simp]: "intact (s\<lparr>rpc := r\<rparr>) = intact s"
  by (cases "wpc s", simp_all add: pub_def intact_def)

lemma pub_seq: "writer_inv s \<Longrightarrow> seq (mem s) \<noteq> 0 \<Longrightarrow> seq (mem s) = of_nat (pub s) \<and> 0 < pub s"
  by (cases "wpc s") (simp_all add: writer_inv_def pub_def)

lemma reader_inv_writes:
  assumes "rpc s' = rpc s" and "set (hist s) \<subseteq> set (hist s')" and "pub s \<le> pub s'"
    and "\<And>b. pub s' = pub s \<Longrightarrow> intact s' \<Longrightarrow> intact s \<and> payload (mem s') = payload (mem s)"
    and "reader_inv s"
  shows "reader_inv s'"
proof (cases "rpc s")
  case (RPay v b)
  show ?thesis
  proof (cases "v = 0")
    case False
    then obtain k where k: "v = of_nat k" "0 < k" "k \<le> pub s"
      "k = pub s \<and> intact s \<longrightarrow> b = take (length b) (payload (mem s))"
      using assms(5) RPay by (auto simp: reader_inv_def)
    have "b = take (length b) (payload (mem s'))" if "k = pub s'" "intact s'"
      using that k assms(3,4) by auto
    then show ?thesis using k assms(1,3) RPay by (auto simp: reader_inv_def intro: exI [of _ k])
  qed (use assms(1) RPay in \<open>simp add: reader_inv_def\<close>)
qed (use assms in \<open>auto simp: reader_inv_def\<close>)

lemma of_nat_inj32: "(of_nat a :: u32) = of_nat b \<Longrightarrow> a < 2 ^ 32 \<Longrightarrow> b < 2 ^ 32 \<Longrightarrow> a = b"
proof -
  have u: "unat (of_nat x :: u32) = x" if "x < 2 ^ 32" for x
    using that by (simp add: unat_of_nat)
  assume "(of_nat a :: u32) = of_nat b" "a < 2 ^ 32" "b < 2 ^ 32"
  then show "a = b" using u [of a] u [of b] by metis
qed

lemma reader_inv_step:
  assumes st: "sl_step s s'" and w: "writer_inv s" and r: "reader_inv s" and v: "ver s' < 2 ^ 32 - 1"
  shows "reader_inv s'"
  using st
proof (cases rule: sl_step.cases)
  case read_seq
  show ?thesis unfolding read_seq reader_inv_def using pub_seq [OF w] by auto
next
  case (read_word v b)
  have t: "take (Suc (length b)) (payload (mem s)) = take (length b) (payload (mem s)) @ [payload (mem s) ! length b]"
    using read_word(3) by (rule take_Suc_conv_app_nth)
  show ?thesis unfolding read_word(1) reader_inv_def using r read_word(2) t by (auto simp: reader_inv_def)
next
  case (read_check q b)
  have "b \<in> set (hist s)" if q: "q \<noteq> 0" "q = seq_check (mem s)"
  proof -
    obtain k where k: "q = of_nat k" "0 < k" "k \<le> pub s"
      "k = pub s \<and> intact s \<longrightarrow> b = take (length b) (payload (mem s))"
      using r read_check(2) q(1) by (auto simp: reader_inv_def)
    have i: "wpc s = WIdle" using w q by (auto simp: writer_inv_def split: wpc.splits)
    then have "seq_check (mem s) = of_nat (ver s)" "payload (mem s) = last (hist s)" "hist s \<noteq> []"
      using w by (simp_all add: writer_inv_def)
    moreover have "ver s < 2 ^ 32" "k < 2 ^ 32" using k(3) v read_check(1) i by (simp_all add: pub_def)
    ultimately have "k = ver s" using of_nat_inj32 [of k "ver s"] k(1) q(2) by simp
    then have "b = take (length b) (payload (mem s))" using k(4) i by (simp add: pub_def intact_def)
    then show ?thesis using read_check(3) \<open>payload (mem s) = last (hist s)\<close> \<open>hist s \<noteq> []\<close> by simp
  qed
  then show ?thesis unfolding read_check(1) reader_inv_def by auto
qed (rule reader_inv_writes [OF _ _ _ _ r]; auto simp: pub_def intact_def)+

lemma ver_mono: "sl_step s s' \<Longrightarrow> ver s \<le> ver s'"
  by (cases rule: sl_stepE) auto

lemma sl_invariant:
  "sl_reach p s \<Longrightarrow> ver s < 2 ^ 32 - 1 \<Longrightarrow> writer_inv s \<and> reader_inv s"
proof (induction rule: sl_reach.induct)
  case (sl_reach_init p)
  show ?case by (simp add: sl_init_def writer_inv_def reader_inv_def WrappedType_def wt_init_def kInvalidSeq_def)
next
  case (sl_reach_step p s s')
  have "ver s < 2 ^ 32 - 1" using ver_mono [OF sl_reach_step(2)] sl_reach_step(4) by simp
  then show ?case using sl_reach_step writer_inv_step reader_inv_step by blast
qed

section \<open>Properties\<close>

text \<open>C18: no torn reads: whatever the interleaving of a writer and a reader that copies the object from
  front to back, when the copy is \<open>consistent\<close> its payload is one that an update published (or the
  first one), as long as fewer than \<open>2 ^ 32 - 1\<close> versions were written.\<close>

theorem seqlock_no_torn_read:
  assumes "sl_reach p s" and "ver s < 2 ^ 32 - 1" and "rpc s = RDone v b c"
    and "consistent \<lparr>seq = v, payload = b, seq_check = c\<rparr>"
  shows "b \<in> set (hist s)"
  using sl_invariant [OF assms(1,2)] assms(3,4) by (auto simp: reader_inv_def consistent_def kInvalidSeq_def)

text \<open>A run in which the reader copies a first word, an update follows, and the reader starts again.\<close>

lemma sl_run:
  "sl_reach [7] \<lparr>mem = \<lparr>seq = 2, payload = [8], seq_check = 2\<rparr>, wpc = WIdle, rpc = RDone 2 [8] 2, ver = 2, hist = [[7], [8]]\<rparr>"
proof -
  let ?m = "\<lambda>v p c. \<lparr>seq = v, payload = p, seq_check = c\<rparr>"
  let ?s = "\<lambda>m w r n h. \<lparr>mem = m, wpc = w, rpc = r, ver = n, hist = h\<rparr>"
  have "sl_reach [7] (?s (?m 1 [7] 1) WIdle RIdle 1 [[7]])"
    using sl_reach_init [of "[7]"] by (simp add: sl_init_def WrappedType_def wt_init_def kInvalidSeq_def)
  note a = sl_reach_step [OF this sl_step.read_seq]
  note a = sl_reach_step [OF a sl_step.read_word [of _ 1 "[]"], simplified]
  note a = sl_reach_step [OF a sl_step.begin_check, simplified]
  note a = sl_reach_step [OF a sl_step.begin_seq [of _ 1 "[8]"], simplified]
  note a = sl_reach_step [OF a sl_step.write_word [of _ 1 "[8]" 0], simplified]
  note a = sl_reach_step [OF a sl_step.done_seq [of _ 1 "[8]" 1], simplified]
  note a = sl_reach_step [OF a sl_step.done_check [of _ 1], simplified]
  note a = sl_reach_step [OF a sl_step.read_seq, simplified]
  note a = sl_reach_step [OF a sl_step.read_word [of _ 2 "[]"], simplified]
  note a = sl_reach_step [OF a sl_step.read_check [of _ 2 "[8]"], simplified]
  from a show ?thesis by (simp add: numeral_2_eq_2)
qed

theorem seqlock_no_torn_read_witness: "[8] \<in> set [[7], [8 :: u64]]"
  using seqlock_no_torn_read [OF sl_run, of 2 "[8]" 2] by (simp add: consistent_def kInvalidSeq_def)

end
