(* ===== verification/Atomics.thy ===== *)
theory Atomics
  imports Prelude
begin

text \<open>
  The atomic instructions of \<^verbatim>\<open>xutils/atomic-template.h\<close>, which the repository instantiates at 8, 16, 32 and
  64 bits, and the two wide exchanges of \<^verbatim>\<open>xutils/atomic.hh\<close>. Each is one access of memory, a function of
  the word at the address and the operands that gives what is returned and what is stored. The lemmas
  state the documented contract of the exchange and that tickets drawn from one counter differ.
\<close>

unbundle bit_operations_syntax

section \<open>One word\<close>

definition atomic_inc :: "'a::len word \<Rightarrow> 'a word" where
  "atomic_inc p = p + 1"

definition atomic_dec :: "'a::len word \<Rightarrow> 'a word" where
  "atomic_dec p = p - 1"

definition atomic_add :: "'a::len word \<Rightarrow> 'a word \<Rightarrow> 'a word" where
  "atomic_add addr val = addr + val"

definition atomic_and :: "'a::len word \<Rightarrow> 'a word \<Rightarrow> 'a word" where
  "atomic_and addr msk = addr AND msk"

definition atomic_or :: "'a::len word \<Rightarrow> 'a word \<Rightarrow> 'a word" where
  "atomic_or addr msk = addr OR msk"

text \<open>
  The others return a word too: the pair is what is returned and what is stored. The instruction \<^verbatim>\<open>cmpxchg\<close>
  loads the memory into the register of \<^verbatim>\<open>oldval\<close> when they differ.
\<close>

definition atomic_cmpxchg :: "'a::len word \<Rightarrow> 'a word \<Rightarrow> 'a word \<Rightarrow> 'a word \<times> 'a word" where
  "atomic_cmpxchg addr oldval newval = (if addr = oldval then (oldval, newval) else (addr, addr))"

definition xchg :: "'a::len word \<Rightarrow> 'a word \<Rightarrow> 'a word \<times> 'a word" where
  "xchg addr val = (addr, val)"

definition atomic_fetch_and_add :: "'a::len word \<Rightarrow> 'a word \<Rightarrow> 'a word \<times> 'a word" where
  "atomic_fetch_and_add addr val = (addr, addr + val)"

section \<open>Two words\<close>

text \<open>The operands are passed by value, so the words the instruction loads on a failure are lost.\<close>

definition atomic_cmpxchg16b :: "u64 \<times> u64 \<Rightarrow> u64 \<Rightarrow> u64 \<Rightarrow> u64 \<Rightarrow> u64 \<Rightarrow> u8 \<times> u64 \<times> u64" where
  "atomic_cmpxchg16b memp old0 old1 new0 new1 = (if memp = (old0, old1) then (1, new0, new1) else (0, memp))"

definition atomic_cmpxchg8b :: "u32 \<times> u32 \<Rightarrow> u32 \<Rightarrow> u32 \<Rightarrow> u32 \<Rightarrow> u32 \<Rightarrow> u8 \<times> u32 \<times> u32" where
  "atomic_cmpxchg8b memp old0 old1 new0 new1 = (if memp = (old0, old1) then (1, new0, new1) else (0, memp))"

section \<open>Contracts\<close>

text \<open>\<^verbatim>\<open>Return previous value in addr. So if the return value is the same as oldval, swap occured.\<close>\<close>

lemma atomic_cmpxchg_returns:
  "atomic_cmpxchg addr oldval newval = (r, addr') \<Longrightarrow> r = addr \<and> addr' = (if r = oldval then newval else addr)"
  by (auto simp: atomic_cmpxchg_def split: if_splits)

lemma atomic_add_sub: "atomic_add (atomic_add p v) (- v) = p" "atomic_dec (atomic_inc p) = p"
  by (simp_all add: atomic_add_def atomic_dec_def atomic_inc_def)

lemma atomic_masks: "atomic_and (atomic_or p m) m = m" "atomic_and (atomic_or p m) (NOT m) = p AND NOT m"
  by (simp_all add: atomic_and_def atomic_or_def bit.conj_disj_distrib2 and.assoc)

text \<open>Drawing tickets: the values that \<open>n\<close> calls with step \<open>1\<close> return, whoever makes them.\<close>

fun draw :: "'a::len word \<Rightarrow> nat \<Rightarrow> 'a word list \<times> 'a word" where
  "draw p 0 = ([], p)"
| "draw p (Suc n) = (case atomic_fetch_and_add p 1 of (r, p') \<Rightarrow> case draw p' n of (rs, q) \<Rightarrow> (r # rs, q))"

lemma draw_eq: "draw p n = (map (\<lambda>i. p + of_nat i) [0..<n], p + of_nat n)"
proof (induction n arbitrary: p)
  case (Suc n)
  have "map (\<lambda>i. p + of_nat i) [0..<Suc n] = p # map (\<lambda>i. p + 1 + of_nat i) [0..<n]"
    by (simp add: upt_conv_Cons map_Suc_upt [symmetric] algebra_simps del: upt_Suc)
  then show ?case by (simp add: Suc.IH atomic_fetch_and_add_def algebra_simps del: upt_Suc)
qed simp

lemma draw_distinct:
  assumes "n \<le> 2 ^ LENGTH('a)"
  shows "distinct (fst (draw (p :: 'a::len word) n))"
proof -
  have "inj_on (\<lambda>i. p + of_nat i) {0..<n}"
  proof (rule inj_onI)
    fix i j assume "i \<in> {0..<n}" "j \<in> {0..<n}" and e: "p + of_nat i = p + of_nat j"
    then have "i < 2 ^ LENGTH('a)" "j < 2 ^ LENGTH('a)" using assms by auto
    moreover have "unat (of_nat i :: 'a word) = unat (of_nat j :: 'a word)" using e by simp
    ultimately show "i = j" by (simp add: unat_of_nat take_bit_nat_eq_self)
  qed
  then show ?thesis by (simp add: draw_eq distinct_map)
qed

end
