(* ===== verification/Rtm.thy ===== *)
theory Rtm
  imports Atomics
begin

text \<open>
  The spin locks of \<^verbatim>\<open>xutils/spin_lock.hh\<close> and \<^verbatim>\<open>xkv_core/src/xtree/spin_lock.hh\<close>, and \<^verbatim>\<open>RTMScope\<close> of
  \<^verbatim>\<open>xutils/rtm.hh\<close>, which runs a block as a hardware transaction and falls back to a lock after too many
  aborts. The transaction itself is the processor's; the model has the status word it reports and what
  the scope does with it.
\<close>

unbundle bit_operations_syntax

section \<open>Spin locks\<close>

definition try_lock :: "u16 \<Rightarrow> u16 \<times> u16" where
  "try_lock l = xchg l 1"

definition is_locked :: "u16 \<Rightarrow> u16" where
  "is_locked l = l"

definition unlock :: "u16 \<Rightarrow> u16" where
  "unlock l = 0"

text \<open>
  The loops of \<^verbatim>\<open>lock()\<close>, one access of the lock word at a time: the exchange, the inner loop that waits
  until the word reads zero, and the return.
\<close>

datatype lock_pc = LXchg | LRelax | LHeld

definition lock_step :: "lock_pc \<Rightarrow> u16 \<Rightarrow> lock_pc \<times> u16" where
  "lock_step p l =
     (case p of
        LXchg \<Rightarrow> (case xchg l 1 of (old, l') \<Rightarrow> (if old = 0 then LHeld else LRelax, l'))
      | LRelax \<Rightarrow> (if l \<noteq> 0 then LRelax else LXchg, l)
      | LHeld \<Rightarrow> (LHeld, l))"

lemma lock_step_cases:
  "p \<noteq> LHeld \<Longrightarrow> lock_step p l = (p', l') \<Longrightarrow>
    (p' = LHeld \<longrightarrow> l = 0 \<and> l' = 1) \<and> (p' \<noteq> LHeld \<longrightarrow> (l' = 0 \<longleftrightarrow> l = 0))"
  by (cases p) (auto simp: lock_step_def xchg_def split: if_splits)

section \<open>Transaction scopes\<close>

text \<open>The bits of the status word of \<^verbatim>\<open>_xbegin\<close>, and the status that \<^verbatim>\<open>_xabort(imm)\<close> produces.\<close>

definition XABORT_EXPLICIT :: u32 where "XABORT_EXPLICIT = 1"
definition XABORT_CONFLICT :: u32 where "XABORT_CONFLICT = 4"
definition XABORT_CAPACITY :: u32 where "XABORT_CAPACITY = 8"
definition XABORT_NESTED :: u32 where "XABORT_NESTED = 32"
definition XBEGIN_STARTED :: u32 where "XBEGIN_STARTED = - 1"

definition XABORT_CODE :: "u32 \<Rightarrow> u32" where
  "XABORT_CODE stat = (drop_bit 24 stat) AND 0xFF"

definition xabort :: "u32 \<Rightarrow> u32" where
  "xabort imm = push_bit 24 (imm AND 0xFF) OR XABORT_EXPLICIT"

definition max_abort_capacity :: nat where "max_abort_capacity = 1"
definition max_abort_nested :: nat where "max_abort_nested = 0"
definition max_abort_zero :: nat where "max_abort_zero = 0"
definition max_abort_conflict :: nat where "max_abort_conflict = 10"
definition magic_explict_abort_flag :: u32 where "magic_explict_abort_flag = 0x73"

record rtm_scope =
  retry :: nat
  conflict :: nat
  capacity :: nat
  nested :: nat
  zero_cnt :: nat

definition RTMScope :: rtm_scope where
  "RTMScope = \<lparr>retry = 0, conflict = 0, capacity = 0, nested = 0, zero_cnt = 0\<rparr>"

text \<open>Counting an abort.\<close>

definition rtm_count :: "u32 \<Rightarrow> rtm_scope \<Rightarrow> rtm_scope" where
  "rtm_count stat s0 =
     (let s = s0\<lparr>retry := retry s0 + 1\<rparr> in
      if stat AND XABORT_NESTED \<noteq> 0 then s\<lparr>nested := nested s + 1\<rparr>
      else if stat = 0 then s\<lparr>zero_cnt := zero_cnt s + 1\<rparr>
      else if stat AND XABORT_CONFLICT \<noteq> 0 then s\<lparr>conflict := conflict s + 1\<rparr>
      else if stat AND XABORT_CAPACITY \<noteq> 0 then s\<lparr>capacity := capacity s + 1\<rparr>
      else s)"

text \<open>Whether the scope waits until the lock is free before it goes on.\<close>

definition rtm_waits :: "u32 \<Rightarrow> bool" where
  "rtm_waits stat \<longleftrightarrow> stat AND XABORT_EXPLICIT \<noteq> 0 \<and> XABORT_CODE stat = magic_explict_abort_flag"

text \<open>The breaks out of the loop; \<^verbatim>\<open>step\<close> is 1.\<close>

definition rtm_gives_up :: "rtm_scope \<Rightarrow> bool" where
  "rtm_gives_up s \<longleftrightarrow> nested s > max_abort_nested \<or> zero_cnt s > max_abort_zero div 1 \<or>
     capacity s > max_abort_capacity div 1 \<or> conflict s > max_abort_conflict div 1"

text \<open>
  The destructor, on the lock word: inside a transaction it commits, and outside it releases a lock
  that is taken. \<open>in_txn\<close> is what \<^verbatim>\<open>_xtest\<close> says.
\<close>

definition RTMScope_end :: "bool \<Rightarrow> u16 \<Rightarrow> u16" where
  "RTMScope_end in_txn l = (if in_txn then l else if is_locked l \<noteq> 0 then unlock l else l)"

lemma RTMScope_end_outside: "RTMScope_end False l = 0"
  by (simp add: RTMScope_end_def is_locked_def unlock_def)

section \<open>Properties\<close>

lemma rtm_count_explicit: "rtm_count (xabort 0xFF) s = s\<lparr>retry := retry s + 1\<rparr>"
  by (simp add: rtm_count_def xabort_def XABORT_EXPLICIT_def XABORT_NESTED_def XABORT_CONFLICT_def XABORT_CAPACITY_def)

text \<open>C40: a transaction that finds the lock taken aborts with code 255, but the scope waits for the lock on
  code 115 only, and no limit counts such aborts: however often it happens, the scope neither waits nor
  falls back, it starts the next transaction at once.\<close>

theorem rtm_locked_spins:
  "(rtm_count (xabort 0xFF) ^^ n) RTMScope = RTMScope\<lparr>retry := n\<rparr> \<and>
    \<not> rtm_gives_up ((rtm_count (xabort 0xFF) ^^ n) RTMScope) \<and> \<not> rtm_waits (xabort 0xFF)"
proof -
  have n: "(rtm_count (xabort 0xFF) ^^ n) RTMScope = RTMScope\<lparr>retry := n\<rparr>"
    by (induction n) (simp_all add: rtm_count_explicit, simp add: RTMScope_def)
  show ?thesis unfolding n
    by (simp add: RTMScope_def rtm_gives_up_def rtm_waits_def xabort_def XABORT_CODE_def XABORT_EXPLICIT_def
        magic_explict_abort_flag_def)
qed

end
