(* ===== verification/CXTree.thy ===== *)
theory CXTree
  imports Rtm XTreeAlloc
begin

text \<open>
  \<^verbatim>\<open>CXTree\<close> of \<^verbatim>\<open>xkv_core/src/xtree_con.hh\<close>: a B+tree whose lookups and insertions run in an \<^verbatim>\<open>RTMScope\<close>.
  Threads take steps in any order. A transaction takes effect at its commit, which the processor
  refuses while the lock word that it has read is taken; under the fallback lock a thread reads the tree
  in one step and stores what its operation has changed in a later one. The spare leaf is
  thread-local and is prepared and replaced outside the scope.

  The lemmas show mutual exclusion, that no lookup or insertion fails, and that the results are those
  of a finite map to which the operations are applied one after another.
\<close>

section \<open>Operations\<close>

datatype ('k, 'v) cx_op = Get 'k | Insert 'k 'v

datatype 'v cx_ret = Got "'v option" | Split bool

definition cx_body :: "nat \<Rightarrow> ('k::{linorder,order_top}, 'v) xtree \<Rightarrow> addr \<Rightarrow> ('k, 'v) cx_op
    \<Rightarrow> (('k, 'v) xtree \<times> 'v cx_ret) res" where
  "cx_body N t p op' =
     (case op' of
        Get k \<Rightarrow> rbind (get_impl t k) (\<lambda>v. Inr (t, Got v))
      | Insert k v \<Rightarrow> rbind (insert_core N t k v p) (\<lambda>(t', ret). Inr (t', Split ret)))"

text \<open>Outside of a scope, the lookup reads whatever is in memory.\<close>

definition unsafe_get :: "('k::linorder, 'v) xtree \<Rightarrow> 'k \<Rightarrow> 'v option res" where
  "unsafe_get t k = get_impl t k"

text \<open>Storing to \<open>cur\<close> what changed from \<open>old\<close> to \<open>new\<close>.\<close>

definition write_back :: "('k, 'v) xtree \<Rightarrow> ('k, 'v) xtree \<Rightarrow> ('k, 'v) xtree \<Rightarrow> ('k, 'v) xtree" where
  "write_back old new cur = cur
     \<lparr>depth := if depth new = depth old then depth cur else depth new,
      root := if root new = root old then root cur else root new,
      leafs := \<lambda>a. if leafs new a = leafs old a then leafs cur a else leafs new a\<rparr>"

section \<open>Threads\<close>

text \<open>
  Where a thread is: between operations, before the spare leaf is there, before \<^verbatim>\<open>_xbegin\<close>, inside a
  transaction, waiting for the lock, in \<^verbatim>\<open>lock()\<close>, behind it, with the tree it has read, before the
  destructor, behind the scope, or stopped by a failed assertion or by the allocator.
\<close>

datatype ('k, 'v) cx_pc =
    CIdle
  | CInit "('k, 'v) cx_op"
  | CTry "('k, 'v) cx_op" rtm_scope
  | CTxn "('k, 'v) cx_op" rtm_scope
  | CWait "('k, 'v) cx_op" rtm_scope
  | CLock "('k, 'v) cx_op" lock_pc
  | CBody "('k, 'v) cx_op"
  | CWork "('k, 'v) cx_op" "('k, 'v) xtree"
  | CUnlock "'v cx_ret"
  | CAfter "'v cx_ret"
  | CFail error
  | COom error

record ('k, 'v, 's) cxtree =
  inner :: "('k, 'v) xtree"
  fallback_lock :: u16
  cx_pre :: "nat \<Rightarrow> addr"
  cx_alloc :: 's
  cx_todo :: "nat \<Rightarrow> ('k, 'v) cx_op list"
  cx_pc :: "nat \<Rightarrow> ('k, 'v) cx_pc"
  cx_log :: "(('k, 'v) cx_op \<times> 'v cx_ret) list"

text \<open>The tree as thread \<open>i\<close> sees it, with its own spare leaf.\<close>

definition cx_view :: "('k, 'v, 's) cxtree \<Rightarrow> nat \<Rightarrow> ('k, 'v) xtree" where
  "cx_view s i = (inner s)\<lparr>pre_alloc_leaf_node := cx_pre s i\<rparr>"

definition goto :: "nat \<Rightarrow> ('k, 'v) cx_pc \<Rightarrow> ('k, 'v, 's) cxtree \<Rightarrow> ('k, 'v, 's) cxtree" where
  "goto i p s = s\<lparr>cx_pc := (cx_pc s)(i := p)\<rparr>"

text \<open>The constructor of the scope behind the inner wait and behind an abort.\<close>

definition rtm_next :: "('k, 'v) cx_op \<Rightarrow> rtm_scope \<Rightarrow> ('k, 'v) cx_pc" where
  "rtm_next op' sc = (if rtm_gives_up sc then CLock op' LXchg else CTry op' sc)"

definition rtm_aborted :: "('k, 'v) cx_op \<Rightarrow> rtm_scope \<Rightarrow> u32 \<Rightarrow> ('k, 'v) cx_pc" where
  "rtm_aborted op' sc0 stat =
     (let sc = rtm_count stat sc0 in if rtm_waits stat then CWait op' sc else rtm_next op' sc)"

inductive cx_step :: "('s \<Rightarrow> 's \<times> addr option) \<Rightarrow> nat \<Rightarrow> nat
    \<Rightarrow> ('k::{linorder,order_top}, 'v, 's) cxtree \<Rightarrow> ('k, 'v, 's) cxtree \<Rightarrow> bool"
  for alloc :: "'s \<Rightarrow> 's \<times> addr option" and N :: nat and sz :: nat where
  call: "cx_pc s i = CIdle \<Longrightarrow> cx_todo s i = op' # ops \<Longrightarrow>
    cx_step alloc N sz s
      (goto i (case op' of Get k \<Rightarrow> CTry op' RTMScope | Insert k v \<Rightarrow> CInit op') (s\<lparr>cx_todo := (cx_todo s)(i := ops)\<rparr>))"
| have_leaf: "cx_pc s i = CInit op' \<Longrightarrow> cx_pre s i \<noteq> 0 \<Longrightarrow> cx_step alloc N sz s (goto i (CTry op' RTMScope) s)"
| init_leaf: "cx_pc s i = CInit op' \<Longrightarrow> cx_pre s i = 0 \<Longrightarrow>
    init_pre_alloced_leaf alloc N sz (cx_view s i) (cx_alloc s) = Inr (t, a) \<Longrightarrow>
    cx_step alloc N sz s (goto i (CTry op' RTMScope)
      (s\<lparr>inner := t, cx_pre := (cx_pre s)(i := pre_alloc_leaf_node t), cx_alloc := a\<rparr>))"
| init_fail: "cx_pc s i = CInit op' \<Longrightarrow> cx_pre s i = 0 \<Longrightarrow>
    init_pre_alloced_leaf alloc N sz (cx_view s i) (cx_alloc s) = Inl e \<Longrightarrow> cx_step alloc N sz s (goto i (COom e) s)"
| begin_ok: "cx_pc s i = CTry op' sc \<Longrightarrow> is_locked (fallback_lock s) = 0 \<Longrightarrow> cx_step alloc N sz s (goto i (CTxn op' sc) s)"
| begin_locked: "cx_pc s i = CTry op' sc \<Longrightarrow> is_locked (fallback_lock s) \<noteq> 0 \<Longrightarrow>
    cx_step alloc N sz s (goto i (rtm_aborted op' sc (xabort 0xFF)) s)"
| begin_fail: "cx_pc s i = CTry op' sc \<Longrightarrow> stat \<noteq> XBEGIN_STARTED \<Longrightarrow>
    cx_step alloc N sz s (goto i (rtm_aborted op' sc stat) s)"
| txn_abort: "cx_pc s i = CTxn op' sc \<Longrightarrow> stat \<noteq> XBEGIN_STARTED \<Longrightarrow>
    cx_step alloc N sz s (goto i (rtm_aborted op' sc stat) s)"
| txn_commit: "cx_pc s i = CTxn op' sc \<Longrightarrow> is_locked (fallback_lock s) = 0 \<Longrightarrow>
    cx_body N (inner s) (cx_pre s i) op' = Inr (t, r) \<Longrightarrow>
    cx_step alloc N sz s (goto i (CAfter r)
      (s\<lparr>inner := write_back (inner s) t (inner s), cx_log := cx_log s @ [(op', r)]\<rparr>))"
| wait: "cx_pc s i = CWait op' sc \<Longrightarrow> is_locked (fallback_lock s) = 0 \<Longrightarrow> cx_step alloc N sz s (goto i (rtm_next op' sc) s)"
| lock: "cx_pc s i = CLock op' p \<Longrightarrow> lock_step p (fallback_lock s) = (p', l) \<Longrightarrow>
    cx_step alloc N sz s (goto i (if p' = LHeld then CBody op' else CLock op' p') (s\<lparr>fallback_lock := l\<rparr>))"
| read: "cx_pc s i = CBody op' \<Longrightarrow> cx_step alloc N sz s (goto i (CWork op' (inner s)) s)"
| work: "cx_pc s i = CWork op' old \<Longrightarrow> cx_body N old (cx_pre s i) op' = Inr (t, r) \<Longrightarrow>
    cx_step alloc N sz s (goto i (CUnlock r)
      (s\<lparr>inner := write_back old t (inner s), cx_log := cx_log s @ [(op', r)]\<rparr>))"
| work_fail: "cx_pc s i = CWork op' old \<Longrightarrow> cx_body N old (cx_pre s i) op' = Inl e \<Longrightarrow>
    cx_step alloc N sz s (goto i (CFail e) s)"
| leave: "cx_pc s i = CUnlock r \<Longrightarrow>
    cx_step alloc N sz s (goto i (CAfter r)
      (s\<lparr>fallback_lock := RTMScope_end False (fallback_lock s)\<rparr>))"
| done_: "cx_pc s i = CAfter r \<Longrightarrow> r \<noteq> Split True \<Longrightarrow> cx_step alloc N sz s (goto i CIdle s)"
| take_leaf: "cx_pc s i = CAfter (Split True) \<Longrightarrow>
    take_pre_alloced_leaf alloc N sz (cx_view s i) (cx_alloc s) = Inr (b, t, a) \<Longrightarrow>
    cx_step alloc N sz s (goto i CIdle
      (s\<lparr>inner := t, cx_pre := (cx_pre s)(i := pre_alloc_leaf_node t), cx_alloc := a\<rparr>))"
| take_fail: "cx_pc s i = CAfter (Split True) \<Longrightarrow>
    take_pre_alloced_leaf alloc N sz (cx_view s i) (cx_alloc s) = Inl e \<Longrightarrow> cx_step alloc N sz s (goto i (COom e) s)"

inductive_cases cx_stepE: "cx_step alloc N sz s s'"

text \<open>The threads start between operations, with the spare leaf they have, and the lock is free.\<close>

definition CXTree :: "('k, 'v) xtree \<Rightarrow> 's \<Rightarrow> (nat \<Rightarrow> ('k, 'v) cx_op list) \<Rightarrow> ('k, 'v, 's) cxtree" where
  "CXTree t a todo = \<lparr>inner = t, fallback_lock = 0, cx_pre = \<lambda>i. 0, cx_alloc = a, cx_todo = todo,
     cx_pc = \<lambda>i. CIdle, cx_log = []\<rparr>"

section \<open>What the operations do to the map\<close>

fun cx_effect :: "('k \<rightharpoonup> 'v) \<Rightarrow> ('k, 'v) cx_op \<times> 'v cx_ret \<Rightarrow> ('k \<rightharpoonup> 'v) option" where
  "cx_effect m (Get k, Got r) = (if m k = r then Some m else None)"
| "cx_effect m (Insert k v, Split b) = Some (m(k \<mapsto> v))"
| "cx_effect m _ = None"

definition cx_replay :: "('k \<rightharpoonup> 'v) \<Rightarrow> (('k, 'v) cx_op \<times> 'v cx_ret) list \<Rightarrow> ('k \<rightharpoonup> 'v) option" where
  "cx_replay m l = foldl (\<lambda>acc e. Option.bind acc (\<lambda>m. cx_effect m e)) (Some m) l"

text \<open>The operation a thread has begun and that has not taken effect, and those it will perform.\<close>

fun pending :: "('k, 'v) cx_pc \<Rightarrow> ('k, 'v) cx_op list" where
  "pending (CInit op') = [op']"
| "pending (CTry op' sc) = [op']"
| "pending (CTxn op' sc) = [op']"
| "pending (CWait op' sc) = [op']"
| "pending (CLock op' p) = [op']"
| "pending (CBody op') = [op']"
| "pending (CWork op' t) = [op']"
| "pending _ = []"

definition remaining :: "('k, 'v, 's) cxtree \<Rightarrow> nat \<Rightarrow> ('k, 'v) cx_op list" where
  "remaining s i = pending (cx_pc s i) @ cx_todo s i"

fun in_scope :: "('k, 'v) cx_pc \<Rightarrow> bool" where
  "in_scope (CBody op') = True"
| "in_scope (CWork op' t) = True"
| "in_scope (CUnlock r) = True"
| "in_scope _ = False"

text \<open>Keys are inserted once: no two insertions, of one thread or of two, have the same key.\<close>

fun op_keys :: "('k, 'v) cx_op \<Rightarrow> 'k list" where
  "op_keys (Get k) = []"
| "op_keys (Insert k v) = [k]"

fun op_key :: "('k, 'v) cx_op \<Rightarrow> 'k" where
  "op_key (Get k) = k"
| "op_key (Insert k v) = k"

definition todo_ok :: "('k::order_top \<rightharpoonup> 'v) \<Rightarrow> (nat \<Rightarrow> ('k, 'v) cx_op list) \<Rightarrow> bool" where
  "todo_ok m todo \<longleftrightarrow>
     (\<forall>i. top \<notin> op_key ` set (todo i) \<and> distinct (concat (map op_keys (todo i))) \<and>
       set (concat (map op_keys (todo i))) \<inter> dom m = {}) \<and>
     (\<forall>i j. i \<noteq> j \<longrightarrow> set (concat (map op_keys (todo i))) \<inter> set (concat (map op_keys (todo j))) = {})"


section \<open>One operation\<close>

text \<open>\<open>old\<close> is \<open>cur\<close> as far as an operation with spare leaf \<open>p\<close> can see.\<close>

definition agree :: "addr \<Rightarrow> ('k, 'v) xtree \<Rightarrow> ('k, 'v) xtree \<Rightarrow> bool" where
  "agree p old cur \<longleftrightarrow> depth old = depth cur \<and> root old = root cur \<and>
     (\<forall>a\<in>insert p (set (tree_leaves cur)). leafs old a = leafs cur a)"

lemma agree_refl: "agree p t t"
  by (simp add: agree_def)

text \<open>The effect of an operation that has taken place.\<close>

definition cx_done :: "nat \<Rightarrow> ('k::{linorder,order_bot,order_top}, 'v) xtree \<Rightarrow> addr \<Rightarrow> ('k, 'v) cx_op \<Rightarrow> ('k, 'v) xtree
    \<Rightarrow> 'v cx_ret \<Rightarrow> bool" where
  "cx_done N cur p op' new r \<longleftrightarrow> xtree_inv N new \<and> root new \<noteq> NullPtr \<and>
     cx_effect (xtree_map cur) (op', r) = Some (xtree_map new) \<and>
     dom (xtree_map new) = dom (xtree_map cur) \<union> set (op_keys op') \<and>
     set (tree_leaves new) = (if r = Split True then insert p (set (tree_leaves cur)) else set (tree_leaves cur)) \<and>
     (\<forall>b. b \<notin> set (tree_leaves cur) \<longrightarrow> b \<noteq> p \<longrightarrow> leafs new b = leafs cur b) \<and>
     (r \<noteq> Split True \<longrightarrow> leafs new p = leafs cur p) \<and>
     ((\<exists>b. r = Split b) \<longleftrightarrow> op_keys op' \<noteq> [])"

lemma cx_body_ok:
  fixes cur old :: "('k::{linorder,order_bot,order_top}, 'v) xtree"
  assumes inv: "xtree_inv N cur" "root cur \<noteq> NullPtr" and N: "2 \<le> N" and ag: "agree p old cur"
    and op: "op_key op' \<noteq> top" "set (op_keys op') \<inter> dom (xtree_map cur) = {}"
    and p: "op_keys op' \<noteq> [] \<Longrightarrow> p \<noteq> 0 \<and> p \<notin> set (tree_leaves cur) \<and> cand_ok N (leafs cur) p"
  shows "\<exists>t r. cx_body N old p op' = Inr (t, r) \<and> cx_done N cur p op' (write_back old t cur) r"
proof -
  have eq: "old = cur\<lparr>leafs := leafs old, pre_alloc_leaf_node := pre_alloc_leaf_node old\<rparr>"
    using ag by (cases old; cases cur) (simp add: agree_def)
  have same: "leafs old a = leafs cur a" if "a \<in> set (tree_leaves cur) \<or> a = p" for a
    using ag that by (auto simp: agree_def)
  have lv: "tree_leaves old = tree_leaves cur" by (subst eq) simp
  have o: "xtree_inv N old" "xtree_map old = xtree_map cur" "root old \<noteq> NullPtr"
    using xtree_frame [where t = cur and m = "leafs old" and p = "pre_alloc_leaf_node old"] same inv ag
    by (subst eq, simp)+
  show ?thesis
  proof (cases op')
    case (Get k)
    have "get_impl old k = Inr (xtree_map cur k)" using get_impl_ok [OF o(1,3)] op(1) Get o(2) by simp
    moreover have "write_back old old cur = cur" by (simp add: write_back_def)
    ultimately show ?thesis using Get inv by (simp add: cx_body_def cx_done_def)
  next
    case (Insert k v)
    have c: "p \<noteq> 0" "cand_ok N (leafs old) p" "p \<notin> set (tree_leaves old)"
      using p Insert lv same [of p] by (simp_all add: cand_ok_def)
    have k: "k \<noteq> top" "k \<notin> dom (xtree_map old)" using op Insert o(2) by auto
    obtain t ret where r: "insert_core N old k v p = Inr (t, ret)" "xtree_inserted N old k v p t ret"
      using insert_core_ok [OF o(1,3) N c k] by blast
    note i = xtree_insertedD [OF r(2)]
    let ?m = "\<lambda>a. if leafs t a = leafs old a then leafs cur a else leafs t a"
    have w: "write_back old t cur = t\<lparr>leafs := ?m, pre_alloc_leaf_node := pre_alloc_leaf_node cur\<rparr>"
      using ag by (cases t; cases cur) (auto simp: write_back_def agree_def)
    have fr: "?m a = leafs t a" if "a \<in> set (tree_leaves t)" for a
    proof -
      have "a \<in> set (tree_leaves cur) \<or> a = p" using that i(4) lv by (cases ret) auto
      then show ?thesis using same [of a] by simp
    qed
    have "cx_done N cur p op' (write_back old t cur) (Split ret)"
      unfolding cx_done_def w
      using xtree_frame(1) [where t = t and m = ?m and p = "pre_alloc_leaf_node cur", OF fr i(1)]
        xtree_frame(2) [where t = t and m = ?m and p = "pre_alloc_leaf_node cur", OF fr] i(2,3,4,7) o(2) lv Insert same [of p] i(6)
      by auto
    then show ?thesis using Insert r(1) by (auto simp: cx_body_def)
  qed
qed

section \<open>The invariant\<close>

text \<open>A thread whose spare leaf has entered the tree and is not yet replaced.\<close>

fun spent :: "('k, 'v) cx_pc \<Rightarrow> bool" where
  "spent (CUnlock r) = (r = Split True)"
| "spent (CAfter r) = (r = Split True)"
| "spent (COom e) = True"
| "spent _ = False"

definition needs_leaf :: "('k, 'v) cx_pc \<Rightarrow> bool" where
  "needs_leaf p = (case p of CInit op' \<Rightarrow> False | CUnlock r \<Rightarrow> (\<exists>b. r = Split b) | CAfter r \<Rightarrow> (\<exists>b. r = Split b)
     | _ \<Rightarrow> concat (map op_keys (pending p)) \<noteq> [])"

definition lock_inv :: "('k, 'v, 's) cxtree \<Rightarrow> bool" where
  "lock_inv s \<longleftrightarrow> (fallback_lock s \<noteq> 0 \<longleftrightarrow> (\<exists>i. in_scope (cx_pc s i))) \<and>
     (\<forall>i j. in_scope (cx_pc s i) \<longrightarrow> in_scope (cx_pc s j) \<longrightarrow> i = j)"

definition thread_inv :: "nat \<Rightarrow> ('k::order_top, 'v) xtree \<Rightarrow> addr \<Rightarrow> ('k, 'v) cx_pc \<Rightarrow> bool" where
  "thread_inv N t p pc \<longleftrightarrow>
     (p \<noteq> 0 \<longrightarrow> \<not> spent pc \<longrightarrow> p \<notin> set (tree_leaves t) \<and> fresh_leaf N (leafs t) p) \<and>
     (needs_leaf pc \<longrightarrow> p \<noteq> 0) \<and> (\<forall>op' old. pc = CWork op' old \<longrightarrow> agree p old t) \<and>
     (\<forall>e. pc \<noteq> CFail e) \<and> (\<forall>op'. pc \<noteq> CLock op' LHeld)"

definition cx_inv :: "('s \<Rightarrow> addr set) \<Rightarrow> ('s \<Rightarrow> bool) \<Rightarrow> nat \<Rightarrow> ('k \<rightharpoonup> 'v)
    \<Rightarrow> ('k::{linorder,order_bot,order_top}, 'v, 's) cxtree \<Rightarrow> bool" where
  "cx_inv live ainv N m s \<longleftrightarrow> lock_inv s \<and>
     xtree_inv N (inner s) \<and> root (inner s) \<noteq> NullPtr \<and> ainv (cx_alloc s) \<and>
     set (tree_leaves (inner s)) \<subseteq> live (cx_alloc s) \<and>
     (\<forall>i. cx_pre s i \<noteq> 0 \<longrightarrow> cx_pre s i \<in> live (cx_alloc s)) \<and>
     (\<forall>i j. i \<noteq> j \<longrightarrow> cx_pre s i \<noteq> 0 \<longrightarrow> cx_pre s i \<noteq> cx_pre s j) \<and>
     (\<forall>i. thread_inv N (inner s) (cx_pre s i) (cx_pc s i)) \<and>
     todo_ok (xtree_map (inner s)) (remaining s) \<and>
     cx_replay m (cx_log s) = Some (xtree_map (inner s))"

lemma cx_invD:
  assumes "cx_inv live ainv N m s"
  shows "lock_inv s" "xtree_inv N (inner s)" "root (inner s) \<noteq> NullPtr" "ainv (cx_alloc s)"
    "set (tree_leaves (inner s)) \<subseteq> live (cx_alloc s)" "cx_pre s i \<noteq> 0 \<Longrightarrow> cx_pre s i \<in> live (cx_alloc s)"
    "i \<noteq> j \<Longrightarrow> cx_pre s i \<noteq> 0 \<Longrightarrow> cx_pre s i \<noteq> cx_pre s j"
    "thread_inv N (inner s) (cx_pre s i) (cx_pc s i)" "todo_ok (xtree_map (inner s)) (remaining s)"
    "cx_replay m (cx_log s) = Some (xtree_map (inner s))"
  using assms unfolding cx_inv_def by blast+

lemma goto_simps [simp]:
  "inner (goto i p s) = inner s" "fallback_lock (goto i p s) = fallback_lock s" "cx_pre (goto i p s) = cx_pre s"
  "cx_alloc (goto i p s) = cx_alloc s" "cx_todo (goto i p s) = cx_todo s" "cx_pc (goto i p s) = (cx_pc s)(i := p)"
  "cx_log (goto i p s) = cx_log s"
  by (simp_all add: goto_def)

text \<open>A step of thread \<open>i\<close> that leaves tree, leaves and allocator alone.\<close>

lemma cx_inv_goto:
  assumes inv: "cx_inv live ainv N m s"
    and s': "inner s' = inner s" "cx_pre s' = cx_pre s" "cx_alloc s' = cx_alloc s" "cx_log s' = cx_log s"
      "cx_pc s' = (cx_pc s)(i := p)" "todo_ok (xtree_map (inner s)) (remaining s')" "lock_inv s'"
    and p: "spent (cx_pc s i) \<Longrightarrow> spent p" "needs_leaf p \<Longrightarrow> cx_pre s i \<noteq> 0" "\<And>op' old. p = CWork op' old \<Longrightarrow> old = inner s"
      "\<And>e. p \<noteq> CFail e" "\<And>op'. p \<noteq> CLock op' LHeld"
  shows "cx_inv live ainv N m s'"
proof -
  have "thread_inv N (inner s) (cx_pre s i) p"
    using cx_invD(8) [OF inv, of i] p unfolding thread_inv_def by (auto simp: agree_refl)
  then have "thread_inv N (inner s) (cx_pre s j) (cx_pc s' j)" for j
    using cx_invD(8) [OF inv, of j] s'(5) by simp
  then show ?thesis using inv s'(1-4,6,7) by (simp add: cx_inv_def)
qed

lemma lock_inv_goto:
  "lock_inv s \<Longrightarrow> in_scope p = in_scope (cx_pc s i) \<Longrightarrow> cx_pc s' = (cx_pc s)(i := p) \<Longrightarrow>
    fallback_lock s' = fallback_lock s \<Longrightarrow> lock_inv s'"
  unfolding lock_inv_def by (metis fun_upd_apply)

lemma remaining_goto:
  "pending p @ cx_todo s' i = pending (cx_pc s i) @ cx_todo s i \<Longrightarrow> cx_pc s' = (cx_pc s)(i := p) \<Longrightarrow>
    (\<And>j. j \<noteq> i \<Longrightarrow> cx_todo s' j = cx_todo s j) \<Longrightarrow> remaining s' = remaining s"
  by (rule ext) (simp add: remaining_def)

lemma rtm_pc:
  "\<exists>sc'. rtm_next op' sc = CTry op' sc' \<or> rtm_next op' sc = CLock op' LXchg"
  "\<exists>sc'. rtm_aborted op' sc stat = CTry op' sc' \<or> rtm_aborted op' sc stat = CLock op' LXchg \<or>
    rtm_aborted op' sc stat = CWait op' sc'"
  by (auto simp: rtm_aborted_def rtm_next_def Let_def)

lemma todo_ok_goto:
  "todo_ok m (remaining s) \<Longrightarrow> pending p @ cx_todo s' i = pending (cx_pc s i) @ cx_todo s i \<Longrightarrow>
    cx_pc s' = (cx_pc s)(i := p) \<Longrightarrow> (\<And>j. j \<noteq> i \<Longrightarrow> cx_todo s' j = cx_todo s j) \<Longrightarrow> todo_ok m (remaining s')"
  using remaining_goto [of p s' i s] by simp

text \<open>A step that only moves thread \<open>i\<close> on.\<close>

lemma cx_inv_quiet:
  assumes inv: "cx_inv live ainv N m s" and p: "pending p = pending (cx_pc s i)" "in_scope p = in_scope (cx_pc s i)"
    "spent (cx_pc s i) \<Longrightarrow> spent p" "needs_leaf p \<Longrightarrow> needs_leaf (cx_pc s i)"
    "\<And>op' old. p \<noteq> CWork op' old" "\<And>e. p \<noteq> CFail e" "\<And>op'. p \<noteq> CLock op' LHeld"
  shows "cx_inv live ainv N m (goto i p s)"
proof (rule cx_inv_goto [OF inv])
  note I = cx_invD [OF inv]
  show "lock_inv (goto i p s)" by (rule lock_inv_goto [OF I(1) p(2)]) simp_all
  show "todo_ok (xtree_map (inner s)) (remaining (goto i p s))" by (rule todo_ok_goto [OF I(9)]) (use p in simp_all)
  show "cx_pre s i \<noteq> 0" if "needs_leaf p" using I(8) [of i] p(4) [OF that] by (simp add: thread_inv_def)
qed (use p in simp_all)

section \<open>Every step keeps the invariant\<close>

lemma todo_ok_step:
  assumes ok: "todo_ok m todo" and i: "todo i = op' # ops" and d: "dom m' \<subseteq> dom m \<union> set (op_keys op')"
    and new: "todo' i = ops" "\<And>j. j \<noteq> i \<Longrightarrow> todo' j = todo j"
  shows "todo_ok m' todo'"
proof -
  let ?K = "\<lambda>l. set (concat (map op_keys l))"
  have tj: "top \<notin> op_key ` set (todo j)" "distinct (concat (map op_keys (todo j)))" "?K (todo j) \<inter> dom m = {}" for j
    using ok unfolding todo_ok_def by blast+
  have ti: "top \<notin> op_key ` set ops" "distinct (concat (map op_keys ops))" "?K ops \<inter> dom m = {}"
    "set (op_keys op') \<inter> ?K ops = {}"
    using tj [of i] unfolding i by auto
  have dj: "?K (todo j) \<inter> ?K (todo k) = {}" if "j \<noteq> k" for j k using ok that unfolding todo_ok_def by blast
  have sub: "?K (todo' j) \<subseteq> ?K (todo j)" for j using i new by (cases "j = i") auto
  have "?K (todo' j) \<inter> ?K (todo' k) = {}" if "j \<noteq> k" for j k using sub [of j] sub [of k] dj [OF that] by blast
  moreover have "top \<notin> op_key ` set (todo' j)" "distinct (concat (map op_keys (todo' j)))" for j
    using ti(1,2) tj(1,2) [of j] new by (cases "j = i", simp_all)+
  moreover have "?K (todo' j) \<inter> dom m' = {}" for j
  proof (cases "j = i")
    case True
    then show ?thesis using ti(3,4) d new(1) by blast
  next
    case False
    have "set (op_keys op') \<subseteq> ?K (todo i)" using i by simp
    then show ?thesis unfolding new(2) [OF False] using tj(3) [of j] dj [OF False] d by blast
  qed
  ultimately show ?thesis unfolding todo_ok_def by blast
qed

lemma cx_replay_snoc: "cx_replay m l = Some m1 \<Longrightarrow> cx_replay m (l @ [e]) = cx_effect m1 e"
  by (simp add: cx_replay_def)

lemma fresh_leaf_cong: "m p = m' p \<Longrightarrow> fresh_leaf N m p = fresh_leaf N m' p"
  by (simp add: fresh_leaf_def cand_ok_def)

text \<open>The body of a thread that has come so far cannot fail.\<close>

lemma cx_inv_body:
  assumes inv: "cx_inv live ainv N m s" and N: "2 \<le> N"
    and i: "pending (cx_pc s i) = [op']" "needs_leaf (cx_pc s i) \<longleftrightarrow> op_keys op' \<noteq> []" "\<not> spent (cx_pc s i)"
    and ag: "agree (cx_pre s i) old (inner s)"
  shows "\<exists>t r. cx_body N old (cx_pre s i) op' = Inr (t, r) \<and>
    cx_done N (inner s) (cx_pre s i) op' (write_back old t (inner s)) r"
proof -
  note I = cx_invD [OF inv]
  let ?p = "cx_pre s i"
  have rem: "remaining s i = op' # cx_todo s i" using i(1) by (simp add: remaining_def)
  have ti: "?p \<noteq> 0 \<Longrightarrow> ?p \<notin> set (tree_leaves (inner s)) \<and> fresh_leaf N (leafs (inner s)) ?p" "op_keys op' \<noteq> [] \<Longrightarrow> ?p \<noteq> 0"
    using I(8) [of i] i(2,3) by (auto simp: thread_inv_def)
  have td: "op_key op' \<noteq> top" "set (op_keys op') \<inter> dom (xtree_map (inner s)) = {}"
    using I(9) rem unfolding todo_ok_def by (auto dest!: spec [of _ i])
  show ?thesis using cx_body_ok [OF I(2,3) N ag td] ti by (auto simp: fresh_leaf_def)
qed

text \<open>The step in which an operation takes effect; no other thread is in the middle of one.\<close>

lemma cx_inv_commit:
  assumes inv: "cx_inv live ainv N m s" and N: "2 \<le> N"
    and i: "pending (cx_pc s i) = [op']" "needs_leaf (cx_pc s i) \<longleftrightarrow> op_keys op' \<noteq> []" "\<not> spent (cx_pc s i)"
    and ag: "agree (cx_pre s i) old (inner s)" and others: "\<And>j op2 t2. j \<noteq> i \<Longrightarrow> cx_pc s j \<noteq> CWork op2 t2"
    and b: "cx_body N old (cx_pre s i) op' = Inr (t, r)" and p: "p = CAfter r \<or> p = CUnlock r"
    and s': "inner s' = write_back old t (inner s)" "cx_pre s' = cx_pre s" "cx_alloc s' = cx_alloc s"
      "cx_log s' = cx_log s @ [(op', r)]" "cx_pc s' = (cx_pc s)(i := p)" "cx_todo s' = cx_todo s" "lock_inv s'"
  shows "cx_inv live ainv N m s'"
proof -
  note I = cx_invD [OF inv]
  let ?p = "cx_pre s i" and ?new = "inner s'"
  have rem: "remaining s i = op' # cx_todo s i" using i(1) by (simp add: remaining_def)
  have ti: "?p \<noteq> 0 \<Longrightarrow> ?p \<notin> set (tree_leaves (inner s)) \<and> fresh_leaf N (leafs (inner s)) ?p" "op_keys op' \<noteq> [] \<Longrightarrow> ?p \<noteq> 0"
    using I(8) [of i] i(2,3) by (auto simp: thread_inv_def)
  obtain t' r' where "cx_body N old ?p op' = Inr (t', r')" "cx_done N (inner s) ?p op' (write_back old t' (inner s)) r'"
    using cx_inv_body [OF inv N i ag] by blast
  then have d: "cx_done N (inner s) ?p op' ?new r" using b s'(1) by simp
  note D = d [unfolded cx_done_def]
  have p0: "?p \<noteq> 0" if "r = Split True" using D ti(2) that by blast
  have leaves: "set (tree_leaves ?new) \<subseteq> insert ?p (set (tree_leaves (inner s)))"
    "r \<noteq> Split True \<Longrightarrow> set (tree_leaves ?new) = set (tree_leaves (inner s))"
    using D by auto
  have th: "thread_inv N ?new (cx_pre s j) (cx_pc s' j)" for j
  proof (cases "j = i")
    case True
    have "fresh_leaf N (leafs ?new) ?p" if "r \<noteq> Split True" "?p \<noteq> 0"
      using ti(1) [OF that(2)] D that(1) fresh_leaf_cong [of "leafs ?new" ?p "leafs (inner s)"] by auto
    then show ?thesis
      using True p s'(5) ti D leaves(2) by (auto simp: thread_inv_def needs_leaf_def)
  next
    case False
    have ne: "cx_pre s j \<noteq> 0 \<Longrightarrow> cx_pre s j \<noteq> ?p" using I(7) [OF False] .
    have T: "thread_inv N (inner s) (cx_pre s j) (cx_pc s j)" by (rule I(8))
    have "cx_pre s j \<notin> set (tree_leaves ?new) \<and> fresh_leaf N (leafs ?new) (cx_pre s j)"
      if "cx_pre s j \<noteq> 0" "\<not> spent (cx_pc s j)"
      using T that ne leaves(1) D fresh_leaf_cong [of "leafs ?new" "cx_pre s j" "leafs (inner s)"]
      by (auto simp: thread_inv_def)
    then show ?thesis using T False s'(5) others [OF False] by (auto simp: thread_inv_def)
  qed
  have live: "set (tree_leaves ?new) \<subseteq> live (cx_alloc s)"
    using leaves I(5) I(6) [of i] p0 by (cases "r = Split True") auto
  have todo: "todo_ok (xtree_map ?new) (remaining s')"
  proof (rule todo_ok_step [where i = i, OF I(9) rem])
    show "dom (xtree_map ?new) \<subseteq> dom (xtree_map (inner s)) \<union> set (op_keys op')" using D by blast
    show "remaining s' i = cx_todo s i" using p s'(5,6) by (auto simp: remaining_def)
    show "remaining s' j = remaining s j" if "j \<noteq> i" for j using that s'(5,6) by (simp add: remaining_def)
  qed
  have "cx_replay m (cx_log s') = Some (xtree_map ?new)"
    using cx_replay_snoc [OF I(10), of "(op', r)"] D s'(4) by simp
  then show ?thesis unfolding cx_inv_def s'(2,3) using s'(7) D I(4,6,7) live th todo by auto
qed

text \<open>The first case is inside the fallback lock, the second one is a transaction.\<close>

lemma alone:
  assumes "lock_inv s" and "in_scope (cx_pc s i) \<or> fallback_lock s = 0" and "j \<noteq> i"
  shows "cx_pc s j \<noteq> CWork op2 t2"
proof
  assume "cx_pc s j = CWork op2 t2"
  then have "in_scope (cx_pc s j)" by simp
  then show False using assms by (auto simp: lock_inv_def)
qed

lemma lock_inv_acquire:
  assumes "lock_inv s" and "cx_pc s i = CLock op' p" "p \<noteq> LHeld" and "lock_step p (fallback_lock s) = (p', l)"
    and "cx_pc s' = (cx_pc s)(i := if p' = LHeld then CBody op' else CLock op' p')" "fallback_lock s' = l"
  shows "lock_inv s'"
proof -
  note st = lock_step_cases [OF assms(3,4)]
  have ni: "\<not> in_scope (cx_pc s i)" using assms(2) by simp
  show ?thesis
  proof (cases "p' = LHeld")
    case True
    then have "\<And>j. \<not> in_scope (cx_pc s j)" using st assms(1) by (auto simp: lock_inv_def)
    then show ?thesis using True st assms(5,6) by (auto simp: lock_inv_def)
  next
    case False
    then have "in_scope (cx_pc s' j) = in_scope (cx_pc s j)" for j using assms(5) ni by simp
    then show ?thesis using False st assms(1,6) by (simp add: lock_inv_def)
  qed
qed

lemma lock_inv_release:
  assumes "lock_inv s" and "cx_pc s i = CUnlock r" and "cx_pc s' = (cx_pc s)(i := CAfter r)" and "fallback_lock s' = 0"
  shows "lock_inv s'"
proof -
  have "in_scope (cx_pc s i)" using assms(2) by simp
  then have "\<not> in_scope (cx_pc s j)" if "j \<noteq> i" for j using assms(1) that by (auto simp: lock_inv_def)
  then show ?thesis using assms(3,4) by (auto simp: lock_inv_def)
qed

context alloc_trait
begin

text \<open>A step that gives thread \<open>i\<close> a new spare leaf.\<close>

lemma cx_inv_new_leaf:
  assumes inv: "cx_inv live ainv N m s"
    and t: "init_pre_alloced_leaf alloc N sz (cx_view s i) (cx_alloc s) = Inr (t, a')"
    and s': "inner s' = t" "cx_pre s' = (cx_pre s)(i := pre_alloc_leaf_node t)" "cx_alloc s' = a'" "cx_log s' = cx_log s"
      "cx_pc s' = (cx_pc s)(i := p)" "remaining s' = remaining s" "lock_inv s'"
    and p: "\<And>op' old. p \<noteq> CWork op' old" "\<And>e. p \<noteq> CFail e" "\<And>op'. p \<noteq> CLock op' LHeld"
  shows "cx_inv live ainv N m s'"
proof -
  note I = cx_invD [OF inv]
  obtain b where b: "alloc (cx_alloc s) = (a', Some b)" "b \<noteq> 0"
    and tt: "t = (inner s)\<lparr>leafs := (leafs (inner s))(b \<mapsto> XNode N sz), pre_alloc_leaf_node := b\<rparr>"
    using t by (auto simp: init_pre_alloced_leaf_def cx_view_def res_simps opt_value_def split: prod.splits option.splits if_splits)
  note A = alloc_inv [OF I(4) b(1)] alloc_fresh [OF I(4) b] alloc_live [OF I(4) b]
  have new: "b \<notin> set (tree_leaves (inner s))" "\<And>j. cx_pre s j \<noteq> b" using A(2) I(5,6) b(2) by blast+
  have fr: "((leafs (inner s))(b \<mapsto> XNode N sz)) a = leafs (inner s) a" if "a \<in> set (tree_leaves (inner s))" for a
    using that new(1) by auto
  have T: "xtree_inv N t" "xtree_map t = xtree_map (inner s)" "tree_leaves t = tree_leaves (inner s)" "root t \<noteq> NullPtr"
    unfolding tt using xtree_frame(1) [where p = b, OF fr I(2)] xtree_frame(2) [where p = b, OF fr] I(3)
    by (simp_all del: fun_upd_apply)
  have th: "thread_inv N t (cx_pre s' j) (cx_pc s' j)" for j
  proof (cases "j = i")
    case True
    then show ?thesis using s'(2,5) p new(1) b(2) T(3) tt by (auto simp: thread_inv_def)
  next
    case False
    have "leafs t (cx_pre s j) = leafs (inner s) (cx_pre s j)" using new(2) [of j] tt by simp
    moreover have "agree (cx_pre s j) old t" if "agree (cx_pre s j) old (inner s)" for old
      using that new(1) new(2) [of j] T(3) tt by (auto simp: agree_def)
    ultimately show ?thesis
      using I(8) [of j] False s'(2,5) T(3) fresh_leaf_cong [of "leafs t" "cx_pre s j" "leafs (inner s)"]
      by (auto simp: thread_inv_def)
  qed
  have pre: "cx_pre s' j \<noteq> 0 \<Longrightarrow> cx_pre s' j \<in> live a'" "j \<noteq> k \<Longrightarrow> cx_pre s' j \<noteq> 0 \<Longrightarrow> cx_pre s' j \<noteq> cx_pre s' k" for j k
    using I(6) [of j] I(7) [of j k] new(2) A(3) s'(2) tt by (auto split: if_splits)
  show ?thesis
    unfolding cx_inv_def s'(1,3,4,6) T(2,3) using s'(7) T(1,4) A(1,3) I(5,9,10) th pre by auto
qed

text \<open>Whatever thread takes the step.\<close>

lemma cx_inv_step:
  assumes "cx_step alloc N sz s s'" and inv: "cx_inv live ainv N m s" and N: "2 \<le> N"
  shows "cx_inv live ainv N m s'"
proof -
  note I = cx_invD [OF inv]
  note todo = todo_ok_goto [OF I(9)] and quiet = cx_inv_quiet [OF inv] and lck = lock_inv_goto [OF I(1)]
  show ?thesis
    using assms(1)
  proof (cases rule: cx_step.cases)
    case (call i op' ops)
    then show ?thesis
      by (intro cx_inv_goto [OF inv, where i = i] lck todo) (auto simp: needs_leaf_def split: cx_op.splits)
  next
    case (have_leaf i op')
    then show ?thesis by (intro cx_inv_goto [OF inv, where i = i] lck todo) auto
  next
    case (init_leaf i op' t a)
    then show ?thesis
      by (intro cx_inv_new_leaf [OF inv, where i = i] lck remaining_goto) auto
  next
    case (init_fail i op' e)
    have "todo_ok (xtree_map (inner s)) (remaining s')"
      by (rule todo_ok_step [where i = i, OF I(9)]) (use init_fail in \<open>auto simp: remaining_def\<close>)
    then show ?thesis
      using init_fail by (intro cx_inv_goto [OF inv, where i = i] lck) (auto simp: needs_leaf_def)
  next
    case (begin_ok i op' sc)
    then show ?thesis unfolding begin_ok(1) by (intro quiet) (auto simp: needs_leaf_def)
  next
    case (begin_locked i op' sc)
    then show ?thesis unfolding begin_locked(1)
      using rtm_pc(2) [of op' sc "xabort 0xFF"] by (intro quiet) (auto simp: needs_leaf_def)
  next
    case (begin_fail i op' sc stat)
    then show ?thesis unfolding begin_fail(1)
      using rtm_pc(2) [of op' sc stat] by (intro quiet) (auto simp: needs_leaf_def)
  next
    case (txn_abort i op' sc stat)
    then show ?thesis unfolding txn_abort(1)
      using rtm_pc(2) [of op' sc stat] by (intro quiet) (auto simp: needs_leaf_def)
  next
    case (txn_commit i op' sc t r)
    then have "\<And>j op2 t2. j \<noteq> i \<Longrightarrow> cx_pc s j \<noteq> CWork op2 t2" using alone [OF I(1)] by (auto simp: is_locked_def)
    then show ?thesis
      using txn_commit by (intro cx_inv_commit [OF inv N, where i = i and op' = op' and old = "inner s"] lck)
        (auto simp: needs_leaf_def agree_refl)
  next
    case (wait i op' sc)
    then show ?thesis unfolding wait(1) using rtm_pc(1) [of op' sc] by (intro quiet) (auto simp: needs_leaf_def)
  next
    case (lock i op' p p' l)
    have "p \<noteq> LHeld" using I(8) [of i] lock(2) by (auto simp: thread_inv_def)
    then have "lock_inv s'" using lock by (intro lock_inv_acquire [OF I(1) lock(2) _ lock(3)]) auto
    moreover have "needs_leaf (CLock op' p) \<Longrightarrow> cx_pre s i \<noteq> 0" using I(8) [of i] lock(2) by (auto simp: thread_inv_def)
    ultimately show ?thesis
      using lock by (intro cx_inv_goto [OF inv, where i = i] todo) (auto simp: needs_leaf_def split: if_splits)
  next
    case (read i op')
    have "needs_leaf (CBody op') \<Longrightarrow> cx_pre s i \<noteq> 0" using I(8) [of i] read(2) by (auto simp: thread_inv_def)
    then show ?thesis
      using read by (intro cx_inv_goto [OF inv, where i = i] todo lck) (auto simp: needs_leaf_def)
  next
    case (work i op' old t r)
    then have "\<And>j op2 t2. j \<noteq> i \<Longrightarrow> cx_pc s j \<noteq> CWork op2 t2" using alone [OF I(1), of i] by auto
    moreover have "agree (cx_pre s i) old (inner s)" using I(8) [of i] work(2) by (auto simp: thread_inv_def)
    ultimately show ?thesis
      using work by (intro cx_inv_commit [OF inv N, where i = i and op' = op' and old = old] lck) (auto simp: needs_leaf_def)
  next
    case (work_fail i op' old e)
    have ag: "agree (cx_pre s i) old (inner s)" using I(8) [of i] work_fail(2) by (auto simp: thread_inv_def)
    have "\<exists>x. cx_body N old (cx_pre s i) op' = Inr x"
      using cx_inv_body [OF inv N _ _ _ ag, of op'] work_fail(2) by (auto simp: needs_leaf_def)
    then show ?thesis using work_fail(3) by simp
  next
    case (leave i r)
    then have "lock_inv s'" by (intro lock_inv_release [OF I(1) leave(2)]) (auto simp: is_locked_def RTMScope_end_outside)
    moreover have "needs_leaf (cx_pc s i) \<Longrightarrow> cx_pre s i \<noteq> 0" using I(8) [of i] by (simp add: thread_inv_def)
    ultimately show ?thesis
      using leave by (intro cx_inv_goto [OF inv, where i = i] todo) (auto simp: needs_leaf_def)
  next
    case (done_ i r)
    then show ?thesis unfolding done_(1) by (intro quiet) (auto simp: needs_leaf_def)
  next
    case (take_leaf i b t a)
    have "needs_leaf (cx_pc s i)" unfolding take_leaf(2) needs_leaf_def by auto
    then have "cx_pre s i \<noteq> 0" using I(8) [of i] by (auto simp: thread_inv_def)
    then have "init_pre_alloced_leaf alloc N sz (cx_view s i) (cx_alloc s) = Inr (t, a)"
      using take_leaf(3) by (auto simp: take_pre_alloced_leaf_def cx_view_def res_simps)
    then show ?thesis
      using take_leaf by (intro cx_inv_new_leaf [OF inv, where i = i] lck remaining_goto) auto
  next
    case (take_fail i e)
    then show ?thesis unfolding take_fail(1) by (intro quiet) (auto simp: needs_leaf_def)
  qed
qed

lemma cx_inv_run: "rtranclp (cx_step alloc N sz) s s' \<Longrightarrow> cx_inv live ainv N m s \<Longrightarrow> 2 \<le> N \<Longrightarrow> cx_inv live ainv N m s'"
  by (induction rule: rtranclp_induct) (auto intro: cx_inv_step)

lemma cx_inv_init:
  assumes "xtree_inv N t" "root t \<noteq> NullPtr" "ainv a" "set (tree_leaves t) \<subseteq> live a" "todo_ok (xtree_map t) todo"
  shows "cx_inv live ainv N (xtree_map t) (CXTree t a todo)"
  using assms by (simp add: cx_inv_def CXTree_def lock_inv_def thread_inv_def needs_leaf_def cx_replay_def
      todo_ok_def remaining_def)

end

section \<open>Progress\<close>

text \<open>A thread that holds the lock can go on until it has released it; the others stay where they are.\<close>

lemma holder_leaves:
  assumes inv: "cx_inv live ainv N m s" and N: "2 \<le> N" and l: "fallback_lock s \<noteq> 0"
  shows "\<exists>s' j l. rtranclp (cx_step alloc N sz) s s' \<and> fallback_lock s' = 0 \<and> in_scope (cx_pc s j) \<and>
    (\<forall>i. i \<noteq> j \<longrightarrow> cx_pc s' i = cx_pc s i) \<and> cx_log s' = cx_log s @ l \<and> length l \<le> 1"
proof -
  let ?R = "rtranclp (cx_step alloc N sz)"
  obtain j where j: "in_scope (cx_pc s j)" using cx_invD(1) [OF inv] l by (auto simp: lock_inv_def)
  have fin: "\<exists>s'. ?R s1 s' \<and> fallback_lock s' = 0 \<and> (\<forall>i. i \<noteq> j \<longrightarrow> cx_pc s' i = cx_pc s1 i) \<and> cx_log s' = cx_log s1"
    if "cx_pc s1 j = CUnlock r" for s1 r
    by (intro exI conjI, rule r_into_rtranclp, rule cx_step.leave [OF that]) (simp_all add: is_locked_def RTMScope_end_outside)
  have mid: "\<exists>s' e. ?R s1 s' \<and> fallback_lock s' = 0 \<and> (\<forall>i. i \<noteq> j \<longrightarrow> cx_pc s' i = cx_pc s1 i) \<and> cx_log s' = cx_log s1 @ [e]"
    if w: "cx_pc s1 j = CWork op' old" and b: "cx_body N old (cx_pre s1 j) op' = Inr (t, r)" for s1 op' old t r
  proof -
    define s2 where "s2 = goto j (CUnlock r) (s1\<lparr>inner := write_back old t (inner s1), cx_log := cx_log s1 @ [(op', r)]\<rparr>)"
    have st: "cx_step alloc N sz s1 s2" unfolding s2_def by (rule cx_step.work [OF w b])
    obtain s' where "?R s2 s'" "fallback_lock s' = 0" "\<forall>i. i \<noteq> j \<longrightarrow> cx_pc s' i = cx_pc s2 i" "cx_log s' = cx_log s2"
      using fin [of s2 r] by (auto simp: s2_def)
    then show ?thesis using converse_rtranclp_into_rtranclp [of "cx_step alloc N sz", OF st] by (auto simp: s2_def)
  qed
  note T = cx_invD(8) [OF inv, of j]
  show ?thesis
  proof (cases "cx_pc s j")
    case (CBody op')
    have st: "cx_step alloc N sz s (goto j (CWork op' (inner s)) s)" by (rule cx_step.read [OF CBody])
    obtain t r where "cx_body N (inner s) (cx_pre s j) op' = Inr (t, r)"
      using cx_inv_body [OF inv N, of j op' "inner s"] CBody by (auto simp: needs_leaf_def agree_refl)
    from mid [of "goto j (CWork op' (inner s)) s" op' "inner s" t r] this obtain s' e where
      "?R (goto j (CWork op' (inner s)) s) s'" "fallback_lock s' = 0" "\<forall>i. i \<noteq> j \<longrightarrow> cx_pc s' i = cx_pc s i"
      "cx_log s' = cx_log s @ [e]" by auto
    then show ?thesis using converse_rtranclp_into_rtranclp [of "cx_step alloc N sz", OF st] j
      by (intro exI [of _ s'] exI [of _ j] exI [of _ "[e]"]) auto
  next
    case (CWork op' old)
    then have "agree (cx_pre s j) old (inner s)" using T by (simp add: thread_inv_def)
    then obtain t r where "cx_body N old (cx_pre s j) op' = Inr (t, r)"
      using cx_inv_body [OF inv N, of j op' old] CWork by (auto simp: needs_leaf_def)
    from mid [OF CWork this] obtain s' e where
      "?R s s'" "fallback_lock s' = 0" "\<forall>i. i \<noteq> j \<longrightarrow> cx_pc s' i = cx_pc s i" "cx_log s' = cx_log s @ [e]" by blast
    then show ?thesis using j by (intro exI [of _ s'] exI [of _ j] exI [of _ "[e]"]) auto
  next
    case (CUnlock r)
    from fin [OF this] j show ?thesis by (metis append_Nil2 list.size(3) zero_le)
  qed (use j in auto)
qed

lemma txn_commits:
  assumes inv: "cx_inv live ainv N m s" and N: "2 \<le> N" and l: "fallback_lock s = 0" and i: "cx_pc s i = CTry op' sc"
  shows "\<exists>s' r. rtranclp (cx_step alloc N sz) s s' \<and> cx_log s' = cx_log s @ [(op', r)] \<and> cx_pc s' i = CAfter r"
proof -
  obtain t r where b: "cx_body N (inner s) (cx_pre s i) op' = Inr (t, r)"
    using cx_inv_body [OF inv N, of i op' "inner s"] i by (auto simp: needs_leaf_def agree_refl)
  let ?s1 = "goto i (CTxn op' sc) s"
  have "cx_step alloc N sz s ?s1" by (rule cx_step.begin_ok [OF i]) (simp add: is_locked_def l)
  moreover have "cx_step alloc N sz ?s1 (goto i (CAfter r)
      (?s1\<lparr>inner := write_back (inner ?s1) t (inner ?s1), cx_log := cx_log ?s1 @ [(op', r)]\<rparr>))"
    by (rule cx_step.txn_commit [where op' = op' and sc = sc]) (use b l in \<open>simp_all add: is_locked_def\<close>)
  ultimately show ?thesis
    by (intro exI [of _ "goto i (CAfter r) (?s1\<lparr>inner := write_back (inner ?s1) t (inner ?s1), cx_log := cx_log ?s1 @ [(op', r)]\<rparr>)"]
        exI [of _ r]) (auto intro: rtranclp.rtrancl_into_rtrancl)
qed

section \<open>Properties\<close>


definition sample_pool :: xalloc where
  "sample_pool = \<lparr>xa_lock = 0, mem_pool = 64, total_sz = 1024, cur_alloc_sz = 128, cur_alloc_num = 2\<rparr>"

definition sample_todo :: "nat \<Rightarrow> (xkey, u64) cx_op list" where
  "sample_todo = (\<lambda>i. []) (0 := [Get (XKey 3)], 1 := [Insert (XKey 7) 70])"

lemma sample_pool_ok: "xalloc_inv 64 sample_pool" "set (tree_leaves sample_tree) \<subseteq> xalloc_live 64 sample_pool"
  "todo_ok (xtree_map sample_tree) sample_todo"
proof -
  show "xalloc_inv 64 sample_pool" by (simp add: xalloc_inv_def sample_pool_def)
  have "{..<2} = {0, 1 :: nat}" by auto
  then show "set (tree_leaves sample_tree) \<subseteq> xalloc_live 64 sample_pool"
    by (simp add: sample_tree_leaves xalloc_live_def sample_pool_def)
  show "todo_ok (xtree_map sample_tree) sample_todo"
    unfolding todo_ok_def sample_tree_dom(1) by (auto simp: sample_todo_def xkey_defs)
qed

text \<open>Thread 0 has taken the lock for its lookup while thread 1 has prepared its spare leaf.\<close>

lemma sample_run:
  "\<exists>s. rtranclp (cx_step (xalloc_alloc 64) 2 8) (CXTree sample_tree sample_pool sample_todo) s \<and>
    cx_pc s 0 = CBody (Get (XKey 3)) \<and> cx_pc s 1 = CTry (Insert (XKey 7) 70) RTMScope \<and> fallback_lock s \<noteq> 0"
proof -
  let ?R = "cx_step (xalloc_alloc 64) 2 8"
  let ?g = "Get (XKey 3)" and ?i = "Insert (XKey 7) 70"
  let ?s0 = "CXTree sample_tree sample_pool sample_todo"
  have pc: "cx_pc ?s0 = (\<lambda>i. CIdle)" "cx_todo ?s0 = sample_todo" "cx_pre ?s0 = (\<lambda>i. 0)" "fallback_lock ?s0 = 0"
    "cx_alloc ?s0 = sample_pool" by (simp_all add: CXTree_def)
  obtain s1 where s1: "?R ?s0 s1" "cx_pc s1 = (\<lambda>i. CIdle)(0 := CTry ?g RTMScope)" "cx_todo s1 = sample_todo(0 := [])"
    "cx_pre s1 = (\<lambda>i. 0)" "fallback_lock s1 = 0" "cx_alloc s1 = sample_pool"
    using cx_step.call [of ?s0 0 ?g "[]" "xalloc_alloc 64" 2 8] pc by (auto simp: sample_todo_def)
  obtain s2 where s2: "?R s1 s2" "cx_pc s2 = (\<lambda>i. CIdle)(0 := CTry ?g RTMScope, 1 := CInit ?i)"
    "cx_pre s2 = (\<lambda>i. 0)" "fallback_lock s2 = 0" "cx_alloc s2 = sample_pool"
    using cx_step.call [of s1 1 ?i "[]" "xalloc_alloc 64" 2 8] s1 by (auto simp: sample_todo_def)
  obtain t a where "init_pre_alloced_leaf (xalloc_alloc 64) 2 8 (cx_view s2 1) (cx_alloc s2) = Inr (t, a)"
    by (auto simp: s2 init_pre_alloced_leaf_def xalloc_alloc_def sample_pool_def opt_value_def)
  then obtain s3 where s3: "?R s2 s3" "cx_pc s3 0 = CTry ?g RTMScope" "cx_pc s3 1 = CTry ?i RTMScope" "fallback_lock s3 = 0"
    using cx_step.init_leaf [of s2 1 ?i "xalloc_alloc 64" 2 8 t a] s2 by auto
  have ab: "rtm_aborted ?g RTMScope XABORT_NESTED = CLock ?g LXchg"
    by (simp add: rtm_aborted_def rtm_next_def rtm_count_def rtm_waits_def rtm_gives_up_def RTMScope_def XABORT_NESTED_def
        XABORT_EXPLICIT_def max_abort_nested_def)
  have "?R s3 (goto 0 (CLock ?g LXchg) s3)"
    unfolding ab [symmetric] by (rule cx_step.begin_fail) (simp_all add: s3 XABORT_NESTED_def XBEGIN_STARTED_def)
  then obtain s4 where s4: "?R s3 s4" "cx_pc s4 0 = CLock ?g LXchg" "cx_pc s4 1 = CTry ?i RTMScope" "fallback_lock s4 = 0"
    using s3(2-4) by auto
  have "lock_step LXchg (fallback_lock s4) = (LHeld, 1)" by (simp add: s4 lock_step_def xchg_def)
  then obtain s5 where s5: "?R s4 s5" "cx_pc s5 0 = CBody ?g" "cx_pc s5 1 = CTry ?i RTMScope" "fallback_lock s5 = 1"
    using cx_step.lock [of s4 0 ?g LXchg LHeld 1 "xalloc_alloc 64" 2 8] s4 by auto
  have "rtranclp ?R ?s0 s5" using s1(1) s2(1) s3(1) s4(1) s5(1) by (meson rtranclp.rtrancl_into_rtrancl rtranclp.rtrancl_refl)
  then show ?thesis using s5 by (intro exI [of _ s5]) simp
qed


text \<open>C13: at most one thread is between taking and releasing the fallback lock, and the lock word is set
  exactly while there is one; whenever a thread is about to begin a transaction, the threads can go on
  so that its operation takes effect after at most one other.\<close>

theorem cx_progress:
  fixes t :: "('k::{linorder,order_bot,order_top}, 'v) xtree"
  assumes "alloc_trait alloc live ainv" and "xtree_inv N t" "root t \<noteq> NullPtr" "2 \<le> N"
    and "ainv a" "set (tree_leaves t) \<subseteq> live a" and "todo_ok (xtree_map t) todo"
    and "rtranclp (cx_step alloc N sz) (CXTree t a todo) s" and "cx_pc s i = CTry op' sc"
  shows "(\<forall>j k. in_scope (cx_pc s j) \<longrightarrow> in_scope (cx_pc s k) \<longrightarrow> j = k) \<and>
    (fallback_lock s \<noteq> 0 \<longleftrightarrow> (\<exists>j. in_scope (cx_pc s j))) \<and>
    (\<exists>s' l r. rtranclp (cx_step alloc N sz) s s' \<and> cx_log s' = cx_log s @ l @ [(op', r)] \<and> length l \<le> 1 \<and>
      cx_pc s' i = CAfter r)"
proof -
  have inv: "cx_inv live ainv N (xtree_map t) s"
    using alloc_trait.cx_inv_run [OF assms(1,8) alloc_trait.cx_inv_init [OF assms(1-3,5-7)] assms(4)] .
  have "\<exists>s' l r. rtranclp (cx_step alloc N sz) s s' \<and> cx_log s' = cx_log s @ l @ [(op', r)] \<and> length l \<le> 1 \<and>
      cx_pc s' i = CAfter r"
  proof (cases "fallback_lock s = 0")
    case True
    from txn_commits [OF inv assms(4) True assms(9), of alloc sz] show ?thesis by (metis append_Nil list.size(3) zero_le)
  next
    case False
    from holder_leaves [OF inv assms(4) False, of alloc sz] obtain s1 j l where
      s1: "rtranclp (cx_step alloc N sz) s s1" "fallback_lock s1 = 0" "in_scope (cx_pc s j)"
        "\<forall>i. i \<noteq> j \<longrightarrow> cx_pc s1 i = cx_pc s i" "cx_log s1 = cx_log s @ l" "length l \<le> 1" by blast
    have "i \<noteq> j" using s1(3) assms(9) by auto
    then have "cx_pc s1 i = CTry op' sc" using s1(4) assms(9) by simp
    from txn_commits [OF alloc_trait.cx_inv_run [OF assms(1) s1(1) inv assms(4)] assms(4) s1(2) this, of alloc sz]
    show ?thesis using s1(1,5,6) rtranclp_trans by fastforce
  qed
  then show ?thesis using cx_invD(1) [OF inv] by (simp add: lock_inv_def)
qed

theorem cx_progress_witness:
  "\<exists>s s' l r. rtranclp (cx_step (xalloc_alloc 64) 2 8) (CXTree sample_tree sample_pool sample_todo) s \<and>
    cx_pc s 0 = CBody (Get (XKey 3)) \<and> (\<forall>k. in_scope (cx_pc s k) \<longrightarrow> k = 0) \<and> fallback_lock s \<noteq> 0 \<and>
    rtranclp (cx_step (xalloc_alloc 64) 2 8) s s' \<and> cx_log s' = cx_log s @ l @ [(Insert (XKey 7) 70, r)] \<and> length l \<le> 1"
proof -
  obtain s where s: "rtranclp (cx_step (xalloc_alloc 64) 2 8) (CXTree sample_tree sample_pool sample_todo) s"
    "cx_pc s 0 = CBody (Get (XKey 3))" "cx_pc s 1 = CTry (Insert (XKey 7) 70) RTMScope" "fallback_lock s \<noteq> 0"
    using sample_run by blast
  have p: "(\<forall>j k. in_scope (cx_pc s j) \<longrightarrow> in_scope (cx_pc s k) \<longrightarrow> j = k) \<and>
    (fallback_lock s \<noteq> 0 \<longleftrightarrow> (\<exists>j. in_scope (cx_pc s j))) \<and>
    (\<exists>s' l r. rtranclp (cx_step (xalloc_alloc 64) 2 8) s s' \<and> cx_log s' = cx_log s @ l @ [(Insert (XKey 7) 70, r)] \<and>
      length l \<le> 1 \<and> cx_pc s' 1 = CAfter r)"
    by (rule cx_progress [OF xa.alloc_trait_axioms sample_tree_inv _ sample_pool_ok s(1,3)]) simp
  have "in_scope (cx_pc s 0)" using s(2) by simp
  then have "\<forall>k. in_scope (cx_pc s k) \<longrightarrow> k = 0" using p by blast
  then show ?thesis using p s by blast
qed

end
